(* ===== verification/Prelude.thy ===== *)
theory Prelude
  imports Complex_Main "HOL-Library.Char_ord" "HOL-Library.List_Lexorder" "HOL-Library.Sublist"
    "HOL-Library.AList"
begin

text \<open>
  Shared vocabulary of the development: the parts of Python's data model the
  components use (strings and their methods, integers in text form, insertion-ordered
  dictionaries, JSON values), results that may be an error, times, and the interfaces
  several components implement (three-way comparison, sliding-window limits,
  inductive invariants).

  Strings are \<^typ>\<open>string\<close>: one \<^typ>\<open>char\<close> per code point below 256, so
  the character predicates below are Python's on Latin-1. Text that Python would hold
  in code points above 255 is outside the model. Times are microseconds since
  1970-01-01T00:00:00, the resolution of \<^verbatim>\<open>datetime\<close>.
\<close>

named_theorems py_simps \<open>unfolding of the Python string operations\<close>
named_theorems res_simps \<open>evaluation of results and early returns\<close>

section \<open>Results\<close>

text \<open>A Python function that may raise returns \<open>Inl\<close> of the exception.\<close>

type_synonym ('e, 'a) result = "'e + 'a"

definition res_bind :: "('e, 'a) result \<Rightarrow> ('a \<Rightarrow> ('e, 'b) result) \<Rightarrow> ('e, 'b) result" where
  "res_bind r f = (case r of Inl e \<Rightarrow> Inl e | Inr x \<Rightarrow> f x)"

definition raise_if :: "bool \<Rightarrow> 'e \<Rightarrow> ('e, 'a) result \<Rightarrow> ('e, 'a) result" where
  "raise_if c e k = (if c then Inl e else k)"

lemma res_bind_simps [simp, res_simps]:
  "res_bind (Inl e) f = Inl e" "res_bind (Inr x) f = f x"
  by (simp_all add: res_bind_def)

lemma res_bind_Inr_iff [res_simps]:
  "res_bind r f = Inr y \<longleftrightarrow> (\<exists>x. r = Inr x \<and> f x = Inr y)"
  by (cases r) auto

lemma raise_if_Inr_iff [res_simps]:
  "raise_if c e k = Inr y \<longleftrightarrow> \<not> c \<and> k = Inr y"
  by (simp add: raise_if_def)

lemma raise_if_simps [simp]:
  "raise_if True e k = Inl e" "raise_if False e k = k"
  by (simp_all add: raise_if_def)

text \<open>FastAPI's \<^verbatim>\<open>HTTPException(status_code, detail)\<close>.\<close>

datatype http_error = HTTPException (status_code: nat) (detail: string)

section \<open>Times\<close>

type_synonym datetime = int
type_synonym timedelta = int

definition seconds :: "int \<Rightarrow> timedelta" where "seconds n = n * 1000000"
definition minutes :: "int \<Rightarrow> timedelta" where "minutes n = seconds (60 * n)"
definition hours :: "int \<Rightarrow> timedelta" where "hours n = seconds (3600 * n)"
definition days :: "int \<Rightarrow> timedelta" where "days n = seconds (86400 * n)"

lemmas timedelta_defs = seconds_def minutes_def hours_def days_def

lemma hours_less_days [simp]: "hours 48 = days 2"
  by (simp add: timedelta_defs)

section \<open>Characters and strings\<close>

abbreviation ord_c :: "char \<Rightarrow> nat" where "ord_c c \<equiv> of_char c"

definition is_ascii :: "char \<Rightarrow> bool" where "is_ascii c = (ord_c c < 128)"

definition ascii_digit :: "char \<Rightarrow> bool" where
  "ascii_digit c = (48 \<le> ord_c c \<and> ord_c c \<le> 57)"

definition ascii_alpha :: "char \<Rightarrow> bool" where
  "ascii_alpha c = (65 \<le> ord_c c \<and> ord_c c \<le> 90 \<or> 97 \<le> ord_c c \<and> ord_c c \<le> 122)"

text \<open>\<^verbatim>\<open>str.isdigit\<close> on one character: the ASCII digits and the superscripts 1, 2, 3.\<close>

definition py_isdigit :: "char \<Rightarrow> bool" where
  "py_isdigit c = (ascii_digit c \<or> ord_c c \<in> {178, 179, 185})"

text \<open>\<^verbatim>\<open>str.isspace\<close>, what \<^verbatim>\<open>str.strip()\<close> removes.\<close>

definition py_isspace :: "char \<Rightarrow> bool" where
  "py_isspace c = (9 \<le> ord_c c \<and> ord_c c \<le> 13 \<or> 28 \<le> ord_c c \<and> ord_c c \<le> 32
     \<or> ord_c c = 133 \<or> ord_c c = 160)"

lemmas char_class_defs = is_ascii_def ascii_digit_def ascii_alpha_def py_isdigit_def py_isspace_def

text \<open>The same on the bits of a character, for evaluation.\<close>

lemma ord_bits: "ord_c (Char b0 b1 b2 b3 b4 b5 b6 b7) =
    of_bool b0 + 2 * of_bool b1 + 4 * of_bool b2 + 8 * of_bool b3 + 16 * of_bool b4 + 32 * of_bool b5 + 64 * of_bool b6 + 128 * of_bool b7"
  by (simp add: of_char_def)

lemma ascii_digit_bits [code]: "ascii_digit (Char b0 b1 b2 b3 b4 b5 b6 b7) \<longleftrightarrow> b4 \<and> b5 \<and> \<not> b6 \<and> \<not> b7 \<and> (\<not> b3 \<or> \<not> b2 \<and> \<not> b1)"
  unfolding ascii_digit_def ord_bits by (cases b0; cases b1; cases b2; cases b3; cases b4; cases b5; cases b6; cases b7) simp_all

lemma py_isspace_bits [code]: "py_isspace (Char b0 b1 b2 b3 b4 b5 b6 b7) \<longleftrightarrow> \<not> b6 \<and>
    (if b7 then \<not> b4 \<and> \<not> b3 \<and> \<not> b1 \<and> (if b5 then \<not> b2 \<and> \<not> b0 else b2 \<and> b0)
     else if b5 then \<not> b4 \<and> \<not> b3 \<and> \<not> b2 \<and> \<not> b1 \<and> \<not> b0
     else b3 \<and> (if b4 then b2 else if b2 then \<not> b1 else b0 \<or> b1))"
  unfolding py_isspace_def ord_bits by (cases b0; cases b1; cases b2; cases b3; cases b4; cases b5; cases b6; cases b7) simp_all

definition py_lstrip :: "string \<Rightarrow> string" where "py_lstrip s = dropWhile py_isspace s"
definition py_rstrip :: "string \<Rightarrow> string" where "py_rstrip s = rev (dropWhile py_isspace (rev s))"
definition py_strip :: "string \<Rightarrow> string" where "py_strip s = py_rstrip (py_lstrip s)"

text \<open>\<^verbatim>\<open>s.lower()\<close>: the Latin-1 capitals lie 32 code points before their small letters.\<close>

definition lower_char :: "char \<Rightarrow> char" where
  "lower_char c = (if 65 \<le> ord_c c \<and> ord_c c \<le> 90 \<or> 192 \<le> ord_c c \<and> ord_c c \<le> 222 \<and> ord_c c \<noteq> 215
     then char_of (ord_c c + 32) else c)"

lemma lower_char_bits [code]: "lower_char (Char b0 b1 b2 b3 b4 b5 b6 b7) =
    (if b6 \<and> \<not> b5 \<and> (if b7 then \<not> (b4 \<and> b3 \<and> b2 \<and> b1 \<and> b0) \<and> \<not> (b4 \<and> \<not> b3 \<and> b2 \<and> b1 \<and> b0)
        else (b0 \<or> b1 \<or> b2 \<or> b3 \<or> b4) \<and> \<not> (b4 \<and> b3 \<and> (b2 \<or> b1 \<and> b0)))
     then Char b0 b1 b2 b3 b4 True b6 b7 else Char b0 b1 b2 b3 b4 b5 b6 b7)"
  unfolding lower_char_def ord_bits
  by (cases b0; cases b1; cases b2; cases b3; cases b4; cases b5; cases b6; cases b7) (simp_all add: char_of_def bit_Suc_0_iff)

definition py_lower :: "string \<Rightarrow> string" where "py_lower s = map lower_char s"

text \<open>\<^verbatim>\<open>sub in s\<close> for strings.\<close>

fun py_contains :: "string \<Rightarrow> string \<Rightarrow> bool" where
  "py_contains sub [] = (sub = [])"
| "py_contains sub (c # cs) = (prefix sub (c # cs) \<or> py_contains sub cs)"

text \<open>\<^verbatim>\<open>s.replace(old, new)\<close> for a non-empty \<open>old\<close>: leftmost, non-overlapping.\<close>

function py_replace :: "string \<Rightarrow> string \<Rightarrow> string \<Rightarrow> string" where
  "py_replace old new [] = []"
| "py_replace old new (c # cs) =
     (if old \<noteq> [] \<and> prefix old (c # cs)
      then new @ py_replace old new (drop (length old) (c # cs))
      else c # py_replace old new cs)"
  by pat_completeness auto
termination
  by (relation "measure (\<lambda>(old, new, s). length s)") (auto simp: neq_Nil_conv)

text \<open>\<^verbatim>\<open>s.split(sep, 1)\<close> and \<^verbatim>\<open>s.rsplit(sep, 1)\<close> at a single character that occurs in \<open>s\<close>.\<close>

definition split_first :: "char \<Rightarrow> string \<Rightarrow> string \<times> string" where
  "split_first sep s = (takeWhile (\<lambda>c. c \<noteq> sep) s, tl (dropWhile (\<lambda>c. c \<noteq> sep) s))"

definition split_last :: "char \<Rightarrow> string \<Rightarrow> string \<times> string" where
  "split_last sep s = (rev (tl (dropWhile (\<lambda>c. c \<noteq> sep) (rev s))),
     rev (takeWhile (\<lambda>c. c \<noteq> sep) (rev s)))"

text \<open>\<^verbatim>\<open>s.rpartition(sep)\<close> for a non-empty \<open>sep\<close>: the parts around its last occurrence.\<close>

fun py_rpartition :: "string \<Rightarrow> string \<Rightarrow> (string \<times> string) option" where
  "py_rpartition sep [] = None"
| "py_rpartition sep (c # cs) = (case py_rpartition sep cs of
     Some (a, b) \<Rightarrow> Some (c # a, b)
   | None \<Rightarrow> if prefix sep (c # cs) then Some ([], drop (length sep) (c # cs)) else None)"

text \<open>\<^verbatim>\<open>s.splitlines()\<close>: every line boundary of \<^verbatim>\<open>str\<close>, a carriage return and line feed as one.\<close>

definition line_break :: "char \<Rightarrow> bool" where
  "line_break c = (10 \<le> ord_c c \<and> ord_c c \<le> 13 \<or> 28 \<le> ord_c c \<and> ord_c c \<le> 30 \<or> ord_c c = 133)"

lemma line_break_bits [code]: "line_break (Char b0 b1 b2 b3 b4 b5 b6 b7) \<longleftrightarrow> \<not> b6 \<and> \<not> b5 \<and>
    (if b7 then \<not> b4 \<and> \<not> b3 \<and> b2 \<and> \<not> b1 \<and> b0 else b3 \<and> (if b4 then b2 \<and> \<not> (b1 \<and> b0) else if b2 then \<not> b1 else b1))"
  unfolding line_break_def ord_bits by (cases b0; cases b1; cases b2; cases b3; cases b4; cases b5; cases b6; cases b7) simp_all

fun splitlines_from :: "string \<Rightarrow> string \<Rightarrow> string list" where
  "splitlines_from cur [] = (if cur = [] then [] else [cur])"
| "splitlines_from cur [c] = (if line_break c then [cur] else [cur @ [c]])"
| "splitlines_from cur (c # d # cs) =
     (if line_break c
      then cur # (if c = CHR 0x0D \<and> d = CHR 0x0A then splitlines_from [] cs else splitlines_from [] (d # cs))
      else splitlines_from (cur @ [c]) (d # cs))"

definition py_splitlines :: "string \<Rightarrow> string list" where
  "py_splitlines s = splitlines_from [] s"

lemma split_first_join: "sep \<in> set s \<Longrightarrow> fst (split_first sep s) @ sep # snd (split_first sep s) = s"
  by (induction s) (auto simp: split_first_def)

lemma py_rpartition_none: "c \<notin> set s \<Longrightarrow> py_rpartition (c # cs) s = None"
  by (induction s) auto

lemma py_rpartition_append: "c \<notin> set (cs @ b) \<Longrightarrow> py_rpartition (c # cs) (a @ c # cs @ b) = Some (a, b)"
  by (induction a) (simp_all add: py_rpartition_none)

lemma set_tl_subset: "set (tl xs) \<subseteq> set xs"
  by (cases xs) auto

lemma set_split_last: "set (fst (split_last sep s)) \<subseteq> set s"
  using subset_trans [OF set_tl_subset set_mono_suffix [OF suffix_dropWhile],
      of "\<lambda>c. c \<noteq> sep" "rev s"]
  by (simp add: split_last_def)

lemma py_contains_iff_sublist: "py_contains sub s \<longleftrightarrow> sublist sub s"
  by (induction s) (auto simp: sublist_Cons_right)

lemma py_contains_single [simp]: "py_contains [c] s \<longleftrightarrow> c \<in> set s"
  by (induction s) auto

lemma set_py_lstrip: "set (py_lstrip s) \<subseteq> set s"
  by (auto simp: py_lstrip_def dest: set_dropWhileD)

lemma set_py_rstrip: "set (py_rstrip s) \<subseteq> set s"
  by (auto simp: py_rstrip_def dest: set_dropWhileD)

lemma set_py_strip: "set (py_strip s) \<subseteq> set s"
  using set_py_lstrip set_py_rstrip by (fastforce simp: py_strip_def)

lemma py_replace_char: "py_replace [c] new s = concat (map (\<lambda>x. if x = c then new else [x]) s)"
  by (induction s) auto

lemma count_py_replace:
  assumes "c \<notin> set old" "c \<notin> set new"
  shows "count_list (py_replace old new s) c = count_list s c"
  using assms
proof (induction old new s rule: py_replace.induct)
  case (2 old new x xs)
  show ?case
  proof (cases "old \<noteq> [] \<and> prefix old (x # xs)")
    case True
    then obtain t where t: "x # xs = old @ t" by (auto simp: prefix_def)
    with True 2 have "count_list (py_replace old new t) c = count_list t c" by auto
    moreover have "count_list (x # xs) c = count_list t c" using t 2(3) by (simp add: count_notin del: count_list.simps)
    moreover have "drop (length old) (x # xs) = t" by (simp add: t)
    then have "py_replace old new (x # xs) = new @ py_replace old new t"
      using True by (simp only: py_replace.simps simp_thms if_True)
    ultimately show ?thesis using 2(4) by (simp add: count_notin)
  next
    case False
    with 2 show ?thesis by auto
  qed
qed simp

lemma set_py_replace: "set (py_replace old new s) \<subseteq> set s \<union> set new"
proof (induction old new s rule: py_replace.induct)
  case (2 old new c cs)
  have "set (drop (length old) (c # cs)) \<subseteq> set (c # cs)"
    by (rule set_drop_subset)
  with 2 show ?case by auto
qed simp

section \<open>Integers as text\<close>

text \<open>
  Python's \<^verbatim>\<open>int(str)\<close>: surrounding white space (only the C white space when the text
  is ASCII), one sign, digits that single underscores may separate, and at most 4300 of
  them (\<^verbatim>\<open>sys.get_int_max_str_digits()\<close>); everything else is a ValueError, here
  \<open>None\<close>.
\<close>

definition int_space :: "string \<Rightarrow> char \<Rightarrow> bool" where
  "int_space s c = (if list_all is_ascii s
     then 9 \<le> ord_c c \<and> ord_c c \<le> 13 \<or> ord_c c = 32 else py_isspace c)"

fun parse_digits :: "bool \<Rightarrow> nat \<Rightarrow> string \<Rightarrow> nat option" where
  "parse_digits after_digit acc [] = (if after_digit then Some acc else None)"
| "parse_digits after_digit acc (c # cs) =
     (if ascii_digit c then parse_digits True (10 * acc + (ord_c c - 48)) cs
      else if c = CHR ''_'' \<and> after_digit then parse_digits False acc cs
      else None)"

definition int_strip :: "string \<Rightarrow> string" where
  "int_strip s = rev (dropWhile (int_space s) (rev (dropWhile (int_space s) s)))"

definition py_int :: "string \<Rightarrow> int option" where
  "py_int s =
     (let t = int_strip s;
          (neg, ds) = (case t of [] \<Rightarrow> (False, t)
             | c # cs \<Rightarrow> if c = CHR ''-'' then (True, cs) else if c = CHR ''+'' then (False, cs) else (False, t))
      in if 4300 < length (filter ascii_digit ds) then None
         else map_option (\<lambda>n. if neg then - int n else int n) (parse_digits False 0 ds))"

text \<open>\<^verbatim>\<open>str(int)\<close>: the canonical decimal form.\<close>

definition digit_char :: "nat \<Rightarrow> char" where "digit_char d = char_of (48 + d)"

fun str_of_nat :: "nat \<Rightarrow> string" where
  "str_of_nat n = (if n < 10 then [digit_char n] else str_of_nat (n div 10) @ [digit_char (n mod 10)])"

declare str_of_nat.simps [simp del]

definition str_of_int :: "int \<Rightarrow> string" where
  "str_of_int n = (if n < 0 then CHR ''-'' # str_of_nat (nat (- n)) else str_of_nat (nat n))"

lemma ord_digit_char [simp]: "d < 10 \<Longrightarrow> ord_c (digit_char d) = 48 + d"
  by (simp add: digit_char_def)

lemma ascii_digit_digit_char [simp]: "d < 10 \<Longrightarrow> ascii_digit (digit_char d)"
  by (simp add: ascii_digit_def)

lemma str_of_nat_digits: "c \<in> set (str_of_nat n) \<Longrightarrow> ascii_digit c"
proof (induction n arbitrary: c rule: str_of_nat.induct)
  case (1 n)
  then show ?case by (subst (asm) (2) str_of_nat.simps) (auto split: if_splits)
qed

lemma str_of_nat_nonempty [simp]: "str_of_nat n \<noteq> []"
  by (subst str_of_nat.simps) simp

text \<open>The canonical form of an integer is a sign at most followed by digits: no
  character that any shell, SQL dialect or device CLI treats specially.\<close>

lemma str_of_int_chars: "c \<in> set (str_of_int n) \<Longrightarrow> ascii_digit c \<or> c = CHR ''-''"
  by (auto simp: str_of_int_def dest: str_of_nat_digits split: if_splits)

lemma length_str_of_nat: "0 < k \<Longrightarrow> n < 10 ^ k \<Longrightarrow> length (str_of_nat n) \<le> k"
proof (induction n arbitrary: k rule: str_of_nat.induct)
  case (1 n)
  show ?case
  proof (cases "n < 10")
    case True
    with 1 show ?thesis by (simp add: str_of_nat.simps [of n])
  next
    case False
    with 1 obtain j where j: "k = Suc j" "0 < j" by (cases k; cases "k - 1") auto
    with 1 False have "n div 10 < 10 ^ j" by (simp add: less_mult_imp_div_less mult.commute)
    with 1 False j show ?thesis by (simp add: str_of_nat.simps [of n])
  qed
qed

lemma parse_digits_run:
  assumes "list_all ascii_digit xs"
  shows "parse_digits True acc (xs @ ys) =
    parse_digits True (foldl (\<lambda>a c. 10 * a + (ord_c c - 48)) acc xs) ys"
  using assms by (induction xs arbitrary: acc) simp_all

lemma parse_digits_append:
  assumes "list_all ascii_digit xs" and "xs \<noteq> []"
  shows "parse_digits b acc (xs @ ys) =
    parse_digits True (foldl (\<lambda>a c. 10 * a + (ord_c c - 48)) acc xs) ys"
  using assms by (cases xs) (simp_all add: parse_digits_run)

lemma str_of_nat_all_digits [simp]: "list_all ascii_digit (str_of_nat n)"
  by (auto simp: list_all_iff dest: str_of_nat_digits)

lemma parse_str_of_nat: "parse_digits b 0 (str_of_nat n) = Some n"
proof (induction n arbitrary: b rule: str_of_nat.induct)
  case (1 n)
  show ?case
  proof (cases "n < 10")
    case True
    then show ?thesis by (simp add: str_of_nat.simps [of n])
  next
    case False
    let ?f = "\<lambda>a c. 10 * a + (ord_c c - 48)" and ?xs = "str_of_nat (n div 10)"
    have "parse_digits False 0 ?xs = Some (n div 10)" using False 1 by blast
    moreover have "parse_digits False 0 (?xs @ []) = parse_digits True (foldl ?f 0 ?xs) []"
      by (rule parse_digits_append) simp_all
    ultimately have "foldl ?f 0 ?xs = n div 10" by simp
    moreover have "parse_digits b 0 (?xs @ [digit_char (n mod 10)]) =
        parse_digits True (foldl ?f 0 ?xs) [digit_char (n mod 10)]"
      by (rule parse_digits_append) simp_all
    ultimately show ?thesis using False by (simp add: str_of_nat.simps [of n])
  qed
qed

lemma ascii_digit_not_space: "ascii_digit c \<or> c = CHR ''-'' \<Longrightarrow> \<not> int_space s c"
  by (auto simp: int_space_def char_class_defs)

lemma str_of_int_nonempty [simp]: "str_of_int n \<noteq> []"
  by (simp add: str_of_int_def)

lemma str_of_int_no_space: "c \<in> set (str_of_int n) \<Longrightarrow> \<not> int_space s c"
  using str_of_int_chars ascii_digit_not_space by blast

lemma dropWhile_no_match: "xs \<noteq> [] \<Longrightarrow> \<not> P (hd xs) \<Longrightarrow> dropWhile P xs = xs"
  by (cases xs) auto

lemma int_strip_str_of_int: "int_strip (str_of_int n) = str_of_int n"
proof -
  let ?s = "str_of_int n"
  have "\<not> int_space ?s (hd ?s)" and "\<not> int_space ?s (last ?s)"
    using str_of_int_no_space [OF hd_in_set [of ?s]] str_of_int_no_space [OF last_in_set [of ?s]]
    by auto
  then have "dropWhile (int_space ?s) ?s = ?s" "dropWhile (int_space ?s) (rev ?s) = rev ?s"
    by (auto intro!: dropWhile_no_match simp: hd_rev)
  then show ?thesis by (simp add: int_strip_def)
qed

lemma hd_str_of_nat: "\<exists>c cs. str_of_nat n = c # cs \<and> c \<noteq> CHR ''-'' \<and> c \<noteq> CHR ''+''"
proof -
  obtain c cs where c: "str_of_nat n = c # cs" by (cases "str_of_nat n") auto
  then have "ascii_digit c" by (auto intro: str_of_nat_digits [of _ n])
  with c show ?thesis by (auto simp: ascii_digit_def)
qed

theorem py_int_str_of_int:
  assumes "length (str_of_nat (nat \<bar>n\<bar>)) \<le> 4300"
  shows "py_int (str_of_int n) = Some n"
proof -
  obtain c cs where c: "str_of_nat (nat \<bar>n\<bar>) = c # cs" "c \<noteq> CHR ''-''" "c \<noteq> CHR ''+''"
    using hd_str_of_nat by blast
  have few: "\<not> 4300 < length (filter ascii_digit (str_of_nat (nat \<bar>n\<bar>)))"
    using assms by (meson le_trans length_filter_le not_less)
  have num: "parse_digits False 0 (str_of_nat (nat \<bar>n\<bar>)) = Some (nat \<bar>n\<bar>)"
    by (rule parse_str_of_nat)
  show ?thesis
  proof (cases "n < 0")
    case True
    then have "str_of_int n = CHR ''-'' # str_of_nat (nat \<bar>n\<bar>)" by (simp add: str_of_int_def)
    then have "int_strip (str_of_int n) = CHR ''-'' # str_of_nat (nat \<bar>n\<bar>)"
      using int_strip_str_of_int [of n] by simp
    with True few num show ?thesis by (simp add: py_int_def)
  next
    case False
    then have "str_of_int n = str_of_nat (nat \<bar>n\<bar>)" by (simp add: str_of_int_def)
    then have "int_strip (str_of_int n) = c # cs"
      using c int_strip_str_of_int [of n] by simp
    with False few num c show ?thesis by (simp add: py_int_def)
  qed
qed

lemma py_int_digits:
  assumes "s \<noteq> []" "list_all ascii_digit s" "length s \<le> 4300"
  shows "\<exists>n. py_int s = Some (int n)"
proof -
  have ns: "\<not> int_space s c" if "c \<in> set s" for c
    using that assms(2) by (auto simp: list_all_iff intro!: ascii_digit_not_space)
  have "dropWhile (int_space s) s = s" "dropWhile (int_space s) (rev s) = rev s"
    using assms(1) ns [OF hd_in_set] ns [OF last_in_set]
    by (auto intro!: dropWhile_no_match simp: hd_rev)
  then have strip: "int_strip s = s" by (simp add: int_strip_def)
  obtain c cs where c: "s = c # cs" using assms(1) by (cases s) auto
  then have sign: "c \<noteq> CHR ''-'' \<and> c \<noteq> CHR ''+''" using assms(2) by (auto simp: ascii_digit_def)
  have few: "\<not> 4300 < length (filter ascii_digit s)"
    using assms(3) by (meson le_trans length_filter_le not_less)
  have "parse_digits False 0 (s @ []) = parse_digits True (foldl (\<lambda>a c. 10 * a + (ord_c c - 48)) 0 s) []"
    using assms by (intro parse_digits_append) auto
  with strip c sign few show ?thesis by (auto simp: py_int_def)
qed

section \<open>JSON values\<close>

text \<open>
  What \<^verbatim>\<open>json.loads\<close> returns (the non-standard NaN and Infinity literals apart). A missing
  key read with \<^verbatim>\<open>dict.get\<close> is Python's None, here \<open>JNull\<close>.
\<close>

datatype json = JNull | JBool bool | JInt int | JFloat rat | JStr string | JList "json list"
  | JObj "(string \<times> json) list"

definition jget :: "(string \<times> json) list \<Rightarrow> string \<Rightarrow> json" where
  "jget d k = (case map_of d k of None \<Rightarrow> JNull | Some v \<Rightarrow> v)"

text \<open>Truth value of a JSON value, as \<^verbatim>\<open>bool(value)\<close>.\<close>

fun truthy :: "json \<Rightarrow> bool" where
  "truthy JNull = False"
| "truthy (JBool b) = b"
| "truthy (JInt n) = (n \<noteq> 0)"
| "truthy (JFloat q) = (q \<noteq> 0)"
| "truthy (JStr s) = (s \<noteq> [])"
| "truthy (JList xs) = (xs \<noteq> [])"
| "truthy (JObj d) = (d \<noteq> [])"

text \<open>\<^verbatim>\<open>int(value)\<close>, which truncates a float; \<open>None\<close> is TypeError or ValueError.\<close>

fun json_int :: "json \<Rightarrow> int option" where
  "json_int (JInt n) = Some n"
| "json_int (JBool b) = Some (if b then 1 else 0)"
| "json_int (JFloat q) = Some (if 0 \<le> q then \<lfloor>q\<rfloor> else \<lceil>q\<rceil>)"
| "json_int (JStr s) = py_int s"
| "json_int _ = None"

text \<open>\<^verbatim>\<open>isinstance(value, int)\<close>: in Python a bool is one.\<close>

fun json_is_int :: "json \<Rightarrow> bool" where
  "json_is_int (JInt n) = True"
| "json_is_int (JBool b) = True"
| "json_is_int _ = False"

lemma json_is_int_conv: "json_is_int v \<Longrightarrow> \<exists>n. json_int v = Some n"
  by (cases v) auto

section \<open>Interfaces\<close>

subsection \<open>Three-way comparison\<close>

text \<open>
  The version comparisons of the program return -1, 0 or 1. What their callers rely on
  (range checks, \<^verbatim>\<open>max(\<dots>, key=\<dots>)\<close>) is that they are total preorders: antisymmetric in
  sign and transitive. Callers' lemmas are proved once, here.
\<close>

locale comparator =
  fixes cmp :: "'a \<Rightarrow> 'a \<Rightarrow> int"
  assumes cmp_antisym: "cmp b a = - cmp a b"
    and cmp_trans: "cmp a b \<le> 0 \<Longrightarrow> cmp b c \<le> 0 \<Longrightarrow> cmp a c \<le> 0"
begin

lemma cmp_refl: "cmp a a = 0"
  using cmp_antisym [of a a] by simp

lemma cmp_total: "cmp a b \<le> 0 \<or> cmp b a \<le> 0"
  using cmp_antisym [of a b] by linarith

lemma cmp_lt_le_trans: "cmp a b < 0 \<Longrightarrow> cmp b c \<le> 0 \<Longrightarrow> cmp a c < 0"
  using cmp_trans [of b c a] cmp_antisym [of a b] cmp_antisym [of a c] by linarith

lemma cmp_le_lt_trans: "cmp a b \<le> 0 \<Longrightarrow> cmp b c < 0 \<Longrightarrow> cmp a c < 0"
  using cmp_trans [of c a b] cmp_antisym [of b c] cmp_antisym [of a c] by linarith

lemma cmp_eq_trans: "cmp a b = 0 \<Longrightarrow> cmp b c = 0 \<Longrightarrow> cmp a c = 0"
  using cmp_trans [of a b c] cmp_trans [of c b a]
    cmp_antisym [of a b] cmp_antisym [of b c] cmp_antisym [of a c] by linarith

text \<open>\<^verbatim>\<open>max(xs, key=K)\<close> where \<open>K\<close> compares with \<^verbatim>\<open>cmp(a, b) < 0\<close>: the first largest.\<close>

definition newest :: "'a \<Rightarrow> 'a list \<Rightarrow> 'a" where
  "newest x xs = foldl (\<lambda>m y. if cmp m y < 0 then y else m) x xs"

lemma newest_in: "newest x xs \<in> insert x (set xs)"
  unfolding newest_def by (induction xs arbitrary: x) force+

lemma newest_ge: "y \<in> insert x (set xs) \<Longrightarrow> cmp y (newest x xs) \<le> 0"
proof (induction xs arbitrary: x y)
  case Nil
  then show ?case by (simp add: newest_def cmp_refl)
next
  case (Cons z zs)
  let ?m = "if cmp x z < 0 then z else x"
  have step: "newest x (z # zs) = newest ?m zs" by (simp add: newest_def)
  have "cmp x ?m \<le> 0" "cmp z ?m \<le> 0"
    using cmp_antisym [of x z] by (auto simp: cmp_refl)
  moreover have "cmp ?m (newest ?m zs) \<le> 0" using Cons.IH [of ?m ?m] by simp
  ultimately show ?case
    using Cons.IH [of y ?m] Cons.prems step cmp_trans [of _ ?m "newest ?m zs"] by auto
qed

end

text \<open>
  All of the program's comparisons are lexicographic on a sequence of elements in which
  a missing element counts as a fixed one: \<open>lexz z\<close> compares two sequences padded
  with \<open>z\<close>.
\<close>

fun lexz :: "'k::linorder \<Rightarrow> 'k list \<Rightarrow> 'k list \<Rightarrow> int" where
  "lexz z [] [] = 0"
| "lexz z (x # xs) [] = (if x < z then -1 else if z < x then 1 else lexz z xs [])"
| "lexz z [] (y # ys) = (if z < y then -1 else if y < z then 1 else lexz z [] ys)"
| "lexz z (x # xs) (y # ys) = (if x < y then -1 else if y < x then 1 else lexz z xs ys)"

lemma lexz_antisym: "lexz z ys xs = - lexz z xs ys"
  by (induction z xs ys rule: lexz.induct) auto

lemma lexz_range: "lexz z xs ys \<in> {-1, 0, 1}"
  by (induction z xs ys rule: lexz.induct) auto

lemma lexz_same [simp]: "lexz z xs xs = 0"
  using lexz_antisym [of z xs xs] by simp

definition hdz :: "'k \<Rightarrow> 'k list \<Rightarrow> 'k" where
  "hdz z xs = (case xs of [] \<Rightarrow> z | x # _ \<Rightarrow> x)"

lemma lexz_unfold:
  "lexz z xs ys = (if hdz z xs < hdz z ys then -1 else if hdz z ys < hdz z xs then 1
     else lexz z (tl xs) (tl ys))"
  by (cases xs; cases ys) (auto simp: hdz_def)

lemma lexz_trans: "lexz z xs ys \<le> 0 \<Longrightarrow> lexz z ys zs \<le> 0 \<Longrightarrow> lexz z xs zs \<le> 0"
proof (induction "length xs + length ys + length zs" arbitrary: xs ys zs rule: less_induct)
  case less
  show ?case
  proof (cases "xs = [] \<and> ys = [] \<and> zs = []")
    case True
    then show ?thesis by simp
  next
    case False
    then have "length (tl xs) + length (tl ys) + length (tl zs) < length xs + length ys + length zs"
      by (cases xs; cases ys; cases zs) auto
    then have IH: "lexz z (tl xs) (tl ys) \<le> 0 \<Longrightarrow> lexz z (tl ys) (tl zs) \<le> 0 \<Longrightarrow>
        lexz z (tl xs) (tl zs) \<le> 0" by (rule less.hyps)
    have *: "hdz z xs < hdz z ys \<or> hdz z xs = hdz z ys \<and> lexz z (tl xs) (tl ys) \<le> 0"
      using less.prems(1) by (subst (asm) lexz_unfold) (auto split: if_splits)
    have "hdz z ys < hdz z zs \<or> hdz z ys = hdz z zs \<and> lexz z (tl ys) (tl zs) \<le> 0"
      using less.prems(2) by (subst (asm) lexz_unfold) (auto split: if_splits)
    with * IH show ?thesis by (subst lexz_unfold) auto
  qed
qed

lemma lexz_zeros: "set xs \<subseteq> {z} \<Longrightarrow> lexz z xs ys = lexz z [] ys"
proof (induction xs arbitrary: ys)
  case (Cons x xs)
  then have "lexz z (x # xs) ys = lexz z [] ys"
    by (subst (1 2) lexz_unfold) (simp add: hdz_def)
  then show ?case .
qed simp

text \<open>A comparison that is \<open>lexz\<close> of a key is a comparator.\<close>

locale lex_keyed =
  fixes cmp :: "'a \<Rightarrow> 'a \<Rightarrow> int" and key :: "'a \<Rightarrow> 'k::linorder list" and z :: 'k
  assumes cmp_lexz: "cmp a b = lexz z (key a) (key b)"
begin

lemma cmp_range: "cmp a b \<in> {-1, 0, 1}"
  unfolding cmp_lexz by (rule lexz_range)

end

sublocale lex_keyed \<subseteq> comparator cmp
proof
  fix a b c
  show "cmp b a = - cmp a b" unfolding cmp_lexz by (rule lexz_antisym)
  show "cmp a b \<le> 0 \<Longrightarrow> cmp b c \<le> 0 \<Longrightarrow> cmp a c \<le> 0" unfolding cmp_lexz by (rule lexz_trans)
qed

subsection \<open>Inductive invariants\<close>

text \<open>
  The states a component reaches from its initial ones by its operations, and the
  contract of an invariant: it holds initially and every operation keeps it.
\<close>

inductive reach :: "('s \<Rightarrow> bool) \<Rightarrow> ('s \<Rightarrow> 's \<Rightarrow> bool) \<Rightarrow> 's \<Rightarrow> bool" for init step where
  reach_init: "init s \<Longrightarrow> reach init step s"
| reach_step: "reach init step s \<Longrightarrow> step s t \<Longrightarrow> reach init step t"

locale invariant =
  fixes init :: "'s \<Rightarrow> bool" and step :: "'s \<Rightarrow> 's \<Rightarrow> bool" and inv :: "'s \<Rightarrow> bool"
  assumes inv_init: "init s \<Longrightarrow> inv s"
    and inv_step: "inv s \<Longrightarrow> step s t \<Longrightarrow> inv t"
begin

lemma reach_inv: "reach init step s \<Longrightarrow> inv s"
  by (induction rule: reach.induct) (auto intro: inv_init inv_step)

lemma steps_inv: "step\<^sup>*\<^sup>* s t \<Longrightarrow> inv s \<Longrightarrow> inv t"
  by (induction rule: rtranclp_induct) (auto intro: inv_step)

end

end
