(* ===== verification/Deb_Versions.thy ===== *)
theory Deb_Versions
  imports Prelude "HOL-Library.Product_Lexorder"
begin

text \<open>
  Debian version order: \<^verbatim>\<open>app/modules/advisories/versions.py\<close>, the dpkg half
  (\<^verbatim>\<open>_deb_split\<close>, \<^verbatim>\<open>_deb_order\<close>, \<^verbatim>\<open>_verrevcmp\<close>, \<^verbatim>\<open>deb_compare\<close>). The index
  loops over \<^verbatim>\<open>a[i:]\<close> and \<^verbatim>\<open>b[j:]\<close> are recursions over the remaining suffixes.

  Shown: the comparison terminates and is a total preorder (it is the lexicographic
  order of the alternating non-digit and number parts, a missing part counting as
  empty), through the interface \<open>comparator\<close>; and which epochs make it raise.
\<close>

section \<open>The code\<close>

datatype version_error = ValueError | AttributeError

definition str_isdigit :: "string \<Rightarrow> bool" where
  "str_isdigit s = (s \<noteq> [] \<and> list_all py_isdigit s)"

definition deb_split :: "string \<Rightarrow> version_error + (int \<times> string \<times> string)" where
  "deb_split v0 =
     (let v = py_strip v0 in
      res_bind
        (if CHR '':'' \<in> set v
         then (let (e, rest) = split_first CHR '':'' v in
               if str_isdigit e
               then (case py_int e of None \<Rightarrow> Inl ValueError | Some n \<Rightarrow> Inr (n, rest))
               else Inr (0, v))
         else Inr (0, v))
        (\<lambda>(epoch, w). Inr (if CHR ''-'' \<in> set w
           then (epoch, split_last CHR ''-'' w) else (epoch, w, []))))"

definition deb_order :: "char \<Rightarrow> int" where
  "deb_order c = (if py_isdigit c then 0
     else if is_ascii c \<and> ascii_alpha c then int (ord_c c)
     else if c = CHR ''~'' then -1
     else int (ord_c c) + 256)"

text \<open>The first inner loop: compare until both sides are at a digit or at their end.\<close>

definition at_nondigit :: "string \<Rightarrow> bool" where
  "at_nondigit s = (s \<noteq> [] \<and> \<not> py_isdigit (hd s))"

definition at_digit :: "string \<Rightarrow> bool" where
  "at_digit s = (s \<noteq> [] \<and> py_isdigit (hd s))"

definition order_at :: "string \<Rightarrow> int" where
  "order_at s = (if s \<noteq> [] then deb_order (hd s) else 0)"

function nondigit_loop :: "string \<Rightarrow> string \<Rightarrow> int + (string \<times> string)" where
  "nondigit_loop a b =
     (if at_nondigit a \<or> at_nondigit b
      then (if order_at a \<noteq> order_at b then Inl (if order_at a < order_at b then -1 else 1)
            else nondigit_loop (tl a) (tl b))
      else Inr (a, b))"
  by pat_completeness auto
termination
  by (relation "measure (\<lambda>(a, b). length a + length b)") (auto simp: at_nondigit_def neq_Nil_conv)

declare nondigit_loop.simps [simp del]

text \<open>The digit loop, with \<^verbatim>\<open>first_diff\<close> as its third argument.\<close>

fun digit_loop :: "string \<Rightarrow> string \<Rightarrow> int \<Rightarrow> string \<times> string \<times> int" where
  "digit_loop (x # xs) (y # ys) first_diff =
     (if py_isdigit x \<and> py_isdigit y
      then digit_loop xs ys (if first_diff = 0 then (if x > y then 1 else if x < y then -1 else 0)
                             else first_diff)
      else (x # xs, y # ys, first_diff))"
| "digit_loop a b first_diff = (a, b, first_diff)"

definition skip_zeros :: "string \<Rightarrow> string" where
  "skip_zeros s = dropWhile (\<lambda>c. c = CHR ''0'') s"

lemma nondigit_loop_length:
  "nondigit_loop a b = Inr (a', b') \<Longrightarrow> length a' + length b' \<le> length a + length b \<and>
     (length a' + length b' = length a + length b \<longrightarrow> a' = a \<and> b' = b) \<and>
     \<not> at_nondigit a' \<and> \<not> at_nondigit b'"
proof (induction a b rule: nondigit_loop.induct)
  case (1 a b)
  show ?case
  proof (cases "at_nondigit a \<or> at_nondigit b")
    case True
    then have "length (tl a) + length (tl b) < length a + length b"
      by (auto simp: at_nondigit_def neq_Nil_conv)
    moreover have "order_at a = order_at b \<and> nondigit_loop (tl a) (tl b) = Inr (a', b')"
      using True 1(2) by (simp add: nondigit_loop.simps [of a b] split: if_splits)
    ultimately show ?thesis using True 1(1) by fastforce
  next
    case False
    with 1(2) show ?thesis by (simp add: nondigit_loop.simps [of a b])
  qed
qed

definition step_diff :: "int \<Rightarrow> char \<times> char \<Rightarrow> int" where
  "step_diff d p = (if d = 0 then (if fst p > snd p then 1 else if fst p < snd p then -1 else 0) else d)"

lemma digit_loop_eq:
  "digit_loop a b d =
     (let m = min (length (takeWhile py_isdigit a)) (length (takeWhile py_isdigit b))
      in (drop m a, drop m b, foldl step_diff d (zip (takeWhile py_isdigit a) (takeWhile py_isdigit b))))"
  by (induction a b d rule: digit_loop.induct) (simp_all add: Let_def step_diff_def)

lemma digit_loop_length:
  assumes "digit_loop a b d = (a', b', d')"
  shows "length a' + length b' \<le> length a + length b \<and>
     (length a' + length b' = length a + length b \<longrightarrow> a' = a \<and> b' = b)"
proof -
  define m where "m = min (length (takeWhile py_isdigit a)) (length (takeWhile py_isdigit b))"
  have "m \<le> length a" "m \<le> length b"
    unfolding m_def using length_takeWhile_le [of py_isdigit a] length_takeWhile_le [of py_isdigit b]
    by linarith+
  moreover have "a' = drop m a" "b' = drop m b"
    using assms by (auto simp: digit_loop_eq m_def Let_def)
  ultimately show ?thesis by (cases "m = 0") auto
qed

lemma skip_zeros_length:
  "length (skip_zeros s) \<le> length s \<and> (length (skip_zeros s) = length s \<longrightarrow> skip_zeros s = s)"
proof -
  have "takeWhile (\<lambda>c. c = CHR ''0'') s @ skip_zeros s = s" by (simp add: skip_zeros_def)
  then have "length (takeWhile (\<lambda>c. c = CHR ''0'') s) + length (skip_zeros s) = length s"
    by (metis length_append)
  with \<open>_ @ skip_zeros s = s\<close> show ?thesis by (cases "takeWhile (\<lambda>c. c = CHR ''0'') s") auto
qed

lemma verrevcmp_pass_shrinks:
  assumes ne: "\<not> (a = [] \<and> b = [])" and nd: "nondigit_loop a b = Inr (a1, b1)"
    and dl: "digit_loop (skip_zeros a1) (skip_zeros b1) 0 = (a2, b2, d)"
    and "\<not> at_digit a2" "\<not> at_digit b2"
  shows "length a2 + length b2 < length a + length b"
proof (rule ccontr)
  assume "\<not> ?thesis"
  note bounds = nondigit_loop_length [OF nd] digit_loop_length [OF dl]
    skip_zeros_length [of a1] skip_zeros_length [of b1]
  from bounds \<open>\<not> ?thesis\<close> have "length a1 + length b1 = length a + length b"
    "length a2 + length b2 = length (skip_zeros a1) + length (skip_zeros b1)"
    "length (skip_zeros a1) = length a1" "length (skip_zeros b1) = length b1" by linarith+
  with bounds have "a1 = a" "b1 = b" "a2 = a" "b2 = b" by auto
  with assms nondigit_loop_length [OF nd] show False
    by (auto simp: at_digit_def at_nondigit_def)
qed

text \<open>The outer loop. It ends because a pass that does not return consumes a character.\<close>

function verrevcmp :: "string \<Rightarrow> string \<Rightarrow> int" where
  "verrevcmp a b =
     (if a = [] \<and> b = [] then 0
      else case nondigit_loop a b of
        Inl r \<Rightarrow> r
      | Inr (a1, b1) \<Rightarrow>
          (case digit_loop (skip_zeros a1) (skip_zeros b1) 0 of
             (a2, b2, first_diff) \<Rightarrow>
               if at_digit a2 then 1 else if at_digit b2 then -1
               else if first_diff \<noteq> 0 then first_diff else verrevcmp a2 b2))"
  by pat_completeness auto

termination
  by (relation "measure (\<lambda>(a, b). length a + length b)") (auto intro: verrevcmp_pass_shrinks dest: sym)

declare verrevcmp.simps [simp del]

text \<open>\<^verbatim>\<open>deb_compare\<close>: the epochs decide, then the upstream version, then the revision.\<close>

definition deb_triple_cmp :: "int \<times> string \<times> string \<Rightarrow> int \<times> string \<times> string \<Rightarrow> int" where
  "deb_triple_cmp x y =
     (case x of (ea, ua, ra) \<Rightarrow> case y of (eb, ub, rb) \<Rightarrow>
        if ea \<noteq> eb then (if ea < eb then -1 else 1)
        else (let c = verrevcmp ua ub in if c \<noteq> 0 then c else verrevcmp ra rb))"

definition deb_compare :: "string \<Rightarrow> string \<Rightarrow> version_error + int" where
  "deb_compare a b =
     res_bind (deb_split a) (\<lambda>x. res_bind (deb_split b) (\<lambda>y. Inr (deb_triple_cmp x y)))"

section \<open>The order it computes\<close>

text \<open>
  The reference definition: a version part is a sequence alternating non-digit
  characters, each with its weight and closed by weight 0, and numbers without leading
  zeros, compared by length and then as text.
\<close>

type_synonym deb_elem = "int \<times> string"

definition nd_elems :: "string \<Rightarrow> deb_elem list" where
  "nd_elems s = map (\<lambda>c. (deb_order c, [])) (takeWhile (\<lambda>c. \<not> py_isdigit c) s) @ [(0, [])]"

definition num_elem :: "string \<Rightarrow> deb_elem" where
  "num_elem s = (let ds = takeWhile py_isdigit (skip_zeros s) in (int (length ds), ds))"

definition after_nd :: "string \<Rightarrow> string" where
  "after_nd s = dropWhile (\<lambda>c. \<not> py_isdigit c) s"

definition after_num :: "string \<Rightarrow> string" where
  "after_num s = dropWhile py_isdigit (skip_zeros s)"

lemma after_shorter: "s \<noteq> [] \<Longrightarrow> length (after_num (after_nd s)) < length s"
proof (cases s)
  case (Cons c cs)
  have *: "length (after_num t) \<le> length t" for t
    unfolding after_num_def using skip_zeros_length [of t] length_dropWhile_le [of py_isdigit "skip_zeros t"]
    by linarith
  show ?thesis
  proof (cases "py_isdigit c")
    case True
    have "length (after_num (c # cs)) \<le> length cs"
    proof (cases "c = CHR ''0''")
      case True
      then show ?thesis using *[of cs] by (simp add: after_num_def skip_zeros_def)
    next
      case False
      with True show ?thesis by (simp add: after_num_def skip_zeros_def length_dropWhile_le)
    qed
    with True Cons show ?thesis by (simp add: after_nd_def)
  next
    case False
    with Cons have "length (after_nd s) \<le> length cs" by (simp add: after_nd_def length_dropWhile_le)
    with *[of "after_nd s"] Cons show ?thesis by simp
  qed
qed simp

function deb_key :: "string \<Rightarrow> deb_elem list" where
  "deb_key s = (if s = [] then []
     else nd_elems s @ num_elem (after_nd s) # deb_key (after_num (after_nd s)))"
  by pat_completeness auto
termination
  by (relation "measure length") (auto intro: after_shorter)

declare deb_key.simps [simp del]

lemma deb_order_zero: "deb_order c = 0 \<longleftrightarrow> py_isdigit c"
  by (auto simp: deb_order_def ascii_alpha_def)

lemma order_at_zero: "order_at s = 0 \<longleftrightarrow> \<not> at_nondigit s"
  by (auto simp: order_at_def at_nondigit_def deb_order_zero)

lemma nd_elems_unfold:
  "nd_elems s = (order_at s, []) # (if at_nondigit s then nd_elems (tl s) else [])"
  by (cases s) (auto simp: nd_elems_def order_at_def at_nondigit_def deb_order_zero)

lemma after_nd_unfold: "after_nd s = (if at_nondigit s then after_nd (tl s) else s)"
  by (cases s) (auto simp: after_nd_def at_nondigit_def)

lemma nondigit_loop_lexz:
  "case nondigit_loop a b of
     Inl r \<Rightarrow> lexz (0, []) (nd_elems a @ xs) (nd_elems b @ ys) = r
   | Inr (a1, b1) \<Rightarrow> a1 = after_nd a \<and> b1 = after_nd b \<and>
       lexz (0, []) (nd_elems a @ xs) (nd_elems b @ ys) = lexz (0, []) xs ys"
proof (induction a b rule: nondigit_loop.induct)
  case (1 a b)
  note unfold = nondigit_loop.simps [of a b] nd_elems_unfold [of a] nd_elems_unfold [of b]
    after_nd_unfold [of a] after_nd_unfold [of b]
  show ?case
  proof (cases "at_nondigit a \<or> at_nondigit b")
    case True
    show ?thesis
    proof (cases "order_at a = order_at b")
      case eq: True
      with True have both: "at_nondigit a" "at_nondigit b"
        using order_at_zero [of a] order_at_zero [of b] by auto
      show ?thesis using 1 [OF True] eq both by (auto simp: unfold split: sum.splits)
    next
      case False
      with True show ?thesis by (auto simp: unfold)
    qed
  next
    case False
    then show ?thesis using order_at_zero [of a] order_at_zero [of b] by (simp add: unfold)
  qed
qed

lemma at_digit_drop:
  "m \<le> length (takeWhile py_isdigit s) \<Longrightarrow>
     at_digit (drop m s) \<longleftrightarrow> m < length (takeWhile py_isdigit s)"
proof (induction m arbitrary: s)
  case 0
  then show ?case by (cases s) (auto simp: at_digit_def)
next
  case (Suc m)
  then show ?case by (cases s) (auto split: if_splits)
qed

lemma step_diff_stays: "d \<noteq> 0 \<Longrightarrow> foldl step_diff d ps = d"
  by (induction ps) (auto simp: step_diff_def)

lemma step_diff_zero: "step_diff 0 (x, y) = (if x > y then 1 else if x < y then -1 else 0)"
  by (simp add: step_diff_def)

lemma first_diff_lex:
  "length xs = length ys \<Longrightarrow>
     foldl step_diff 0 (zip xs ys) = (if xs < ys then -1 else if ys < xs then 1 else 0)"
  by (induction xs ys rule: list_induct2) (auto simp: step_diff_zero step_diff_stays)

lemma drop_takeWhile_length: "drop (length (takeWhile P s)) s = dropWhile P s"
  by (simp add: dropWhile_eq_drop)

lemma num_elem_lexz:
  assumes "digit_loop (skip_zeros a) (skip_zeros b) 0 = (a2, b2, d)"
  shows "lexz (0, []) (num_elem a # xs) (num_elem b # ys) =
      (if at_digit a2 then 1 else if at_digit b2 then -1 else if d \<noteq> 0 then d else lexz (0, []) xs ys)"
    and "\<not> at_digit a2 \<Longrightarrow> \<not> at_digit b2 \<Longrightarrow> a2 = after_num a \<and> b2 = after_num b"
proof -
  let ?da = "takeWhile py_isdigit (skip_zeros a)" and ?db = "takeWhile py_isdigit (skip_zeros b)"
  have loop: "a2 = drop (min (length ?da) (length ?db)) (skip_zeros a)"
      "b2 = drop (min (length ?da) (length ?db)) (skip_zeros b)"
      "d = foldl step_diff 0 (zip ?da ?db)"
    using assms by (auto simp: digit_loop_eq Let_def)
  have at: "at_digit a2 \<longleftrightarrow> length ?db < length ?da" "at_digit b2 \<longleftrightarrow> length ?da < length ?db"
    unfolding loop(1,2) using at_digit_drop [of "min (length ?da) (length ?db)"] by auto
  show "lexz (0, []) (num_elem a # xs) (num_elem b # ys) =
      (if at_digit a2 then 1 else if at_digit b2 then -1 else if d \<noteq> 0 then d else lexz (0, []) xs ys)"
    unfolding at loop(3) num_elem_def Let_def using first_diff_lex [of ?da ?db]
    by (auto simp: less_prod_def)
  show "\<not> at_digit a2 \<Longrightarrow> \<not> at_digit b2 \<Longrightarrow> a2 = after_num a \<and> b2 = after_num b"
    using at loop(1,2) drop_takeWhile_length [of py_isdigit "skip_zeros a"]
      drop_takeWhile_length [of py_isdigit "skip_zeros b"] by (auto simp: after_num_def)
qed

lemma deb_key_padded:
  "lexz (0, []) (deb_key a) (deb_key b) =
   lexz (0, []) (nd_elems a @ num_elem (after_nd a) # deb_key (after_num (after_nd a)))
                (nd_elems b @ num_elem (after_nd b) # deb_key (after_num (after_nd b)))"
proof -
  have nil: "nd_elems [] @ num_elem (after_nd []) # deb_key (after_num (after_nd [])) = [(0, []), (0, [])]"
    by (simp add: nd_elems_def num_elem_def after_nd_def after_num_def skip_zeros_def deb_key.simps)
  have pad: "lexz (0, []) [(0, []), (0, [])] ys = lexz (0, []) [] ys" for ys :: "deb_elem list"
    by (rule lexz_zeros) simp
  then have pad': "lexz (0, []) ys [(0, []), (0, [])] = lexz (0, []) ys []" for ys :: "deb_elem list"
    by (metis lexz_antisym)
  have key: "deb_key s = (if s = [] then [] else
      nd_elems s @ num_elem (after_nd s) # deb_key (after_num (after_nd s)))" for s
    by (rule deb_key.simps)
  show ?thesis
    by (cases "a = []"; cases "b = []") (simp_all add: nil pad pad' key [of a] key [of b] key [of "[]"])
qed

text \<open>The loop computes exactly that order.\<close>

lemma verrevcmp_lexz: "verrevcmp a b = lexz (0, []) (deb_key a) (deb_key b)"
proof (induction a b rule: verrevcmp.induct)
  case (1 a b)
  show ?case
  proof (cases "a = [] \<and> b = []")
    case True
    then show ?thesis by (simp add: verrevcmp.simps)
  next
    case False
    note nd = nondigit_loop_lexz [where a = a and b = b
        and xs = "num_elem (after_nd a) # deb_key (after_num (after_nd a))"
        and ys = "num_elem (after_nd b) # deb_key (after_num (after_nd b))"]
    show ?thesis
    proof (cases "nondigit_loop a b")
      case (Inl r)
      with nd False show ?thesis by (auto simp: verrevcmp.simps [of a b] deb_key_padded [of a b])
    next
      case (Inr p)
      then obtain a1 b1 where p: "nondigit_loop a b = Inr (a1, b1)" by (cases p) auto
      obtain a2 b2 d where dl: "digit_loop (skip_zeros a1) (skip_zeros b1) 0 = (a2, b2, d)"
        by (cases "digit_loop (skip_zeros a1) (skip_zeros b1) 0") auto
      have IH: "verrevcmp a2 b2 = lexz (0, []) (deb_key a2) (deb_key b2)"
        if "\<not> at_digit a2" "\<not> at_digit b2" "d = 0"
        using 1 [OF False p refl dl [symmetric] refl] that by simp
      from nd p have eq: "a1 = after_nd a" "b1 = after_nd b"
        "lexz (0, []) (deb_key a) (deb_key b) = lexz (0, [])
           (num_elem a1 # deb_key (after_num a1)) (num_elem b1 # deb_key (after_num b1))"
        by (simp_all add: deb_key_padded [of a b])
      have "verrevcmp a b = (if at_digit a2 then 1 else if at_digit b2 then -1
          else if d \<noteq> 0 then d else verrevcmp a2 b2)"
        using False p dl by (subst verrevcmp.simps) auto
      then show ?thesis unfolding eq(3) num_elem_lexz(1) [OF dl]
        using IH num_elem_lexz(2) [OF dl] by auto
    qed
  qed
qed

interpretation deb: lex_keyed verrevcmp deb_key "(0, [])"
  by unfold_locales (rule verrevcmp_lexz)

text \<open>Epoch, upstream version and revision together are a comparator as well.\<close>

interpretation deb_triple: comparator deb_triple_cmp
proof
  fix x y w :: "int \<times> string \<times> string"
  obtain e u r e' u' r' e'' u'' r'' where [simp]: "x = (e, u, r)" "y = (e', u', r')" "w = (e'', u'', r'')"
    by (cases x, cases y, cases w) auto
  show "deb_triple_cmp y x = - deb_triple_cmp x y"
    using deb.cmp_antisym [of u u'] deb.cmp_antisym [of r r'] by (simp add: deb_triple_cmp_def Let_def)
  show "deb_triple_cmp x w \<le> 0" if "deb_triple_cmp x y \<le> 0" "deb_triple_cmp y w \<le> 0"
  proof -
    have split: "deb_triple_cmp (f, v, s) (g, v', s') \<le> 0 \<longleftrightarrow> f < g \<or> f = g \<and>
        (verrevcmp v v' < 0 \<or> verrevcmp v v' = 0 \<and> verrevcmp s s' \<le> 0)" for f g v v' s s'
      by (auto simp: deb_triple_cmp_def Let_def)
    show ?thesis
      using that deb.cmp_trans [of r r' r''] deb.cmp_lt_le_trans [of u u' u'']
        deb.cmp_le_lt_trans [of u u' u''] deb.cmp_eq_trans [of u u' u'']
      by (auto simp: split)
  qed
qed

lemma ascii_isdigit: "is_ascii c \<Longrightarrow> py_isdigit c \<Longrightarrow> ascii_digit c"
  by (auto simp: char_class_defs)

text \<open>The versions the comparison is meant for: ASCII text short enough for \<^verbatim>\<open>int()\<close>.\<close>

definition plain_version :: "string \<Rightarrow> bool" where
  "plain_version v = (list_all is_ascii v \<and> length v \<le> 4300)"

lemma deb_split_ascii:
  assumes "list_all is_ascii v" "length v \<le> 4300"
  shows "\<exists>x. deb_split v = Inr x"
proof -
  let ?e = "fst (split_first CHR '':'' (py_strip v))"
  have sub: "set ?e \<subseteq> set v" "length ?e \<le> length v"
  proof -
    have "set ?e \<subseteq> set (py_strip v)" by (auto simp: split_first_def dest: set_takeWhileD)
    then show "set ?e \<subseteq> set v" using set_py_strip by blast
    have "length ?e \<le> length (py_strip v)" by (simp add: split_first_def length_takeWhile_le)
    also have "\<dots> \<le> length v" unfolding py_strip_def py_rstrip_def py_lstrip_def
      by (metis length_dropWhile_le length_rev order_trans)
    finally show "length ?e \<le> length v" .
  qed
  have "\<exists>n. py_int ?e = Some (int n)" if "str_isdigit ?e"
    using that sub assms ascii_isdigit
    by (intro py_int_digits) (auto simp: str_isdigit_def list_all_iff)
  then show ?thesis
    by (auto simp: deb_split_def Let_def split: prod.splits option.splits)
qed

text \<open>
  C30. The dpkg comparison is a total preorder on the versions distributions publish
  (ASCII text of at most 4300 characters): it never raises, swapping the arguments
  swaps the sign, and it is transitive, so \<^verbatim>\<open>installed < fixed\<close> and ranges mean what
  they say and \<^verbatim>\<open>max\<close> picks a newest version.
\<close>

theorem deb_compare_total_preorder:
  assumes "plain_version a" "plain_version b" "plain_version c"
  shows "\<exists>ab bc ac. deb_compare a b = Inr ab \<and> deb_compare b c = Inr bc \<and> deb_compare a c = Inr ac \<and>
    deb_compare b a = Inr (- ab) \<and> ab \<in> {-1, 0, 1} \<and> (ab \<le> 0 \<longrightarrow> bc \<le> 0 \<longrightarrow> ac \<le> 0)"
proof -
  obtain x y w where "deb_split a = Inr x" "deb_split b = Inr y" "deb_split c = Inr w"
    using assms deb_split_ascii unfolding plain_version_def by meson
  moreover have "deb_triple_cmp x y \<in> {-1, 0, 1}"
    using deb.cmp_range by (auto simp: deb_triple_cmp_def Let_def split: prod.splits)
  ultimately show ?thesis
    using deb_triple.cmp_antisym [of y x] deb_triple.cmp_trans [of x y w]
    by (auto simp: deb_compare_def)
qed

theorem deb_compare_total_preorder_witness:
  "deb_compare ''1:1.0~rc1-1'' ''1:1.0-1'' = Inr (-1) \<and> deb_compare ''1:1.0-1'' ''1:1.0~rc1-1'' = Inr 1 \<and>
   deb_compare ''1:1.0-1'' ''1:1.0-1ubuntu2'' = Inr (-1) \<and>
   (\<exists>ac \<le> 0. deb_compare ''1:1.0~rc1-1'' ''1:1.0-1ubuntu2'' = Inr ac)"
proof -
  have "deb_compare ''1:1.0~rc1-1'' ''1:1.0-1'' = Inr (-1)"
    "deb_compare ''1:1.0-1'' ''1:1.0-1ubuntu2'' = Inr (-1)" by code_simp+
  then show ?thesis
    using deb_compare_total_preorder [of "''1:1.0~rc1-1''" "''1:1.0-1''" "''1:1.0-1ubuntu2''"]
    by (auto simp: is_ascii_def plain_version_def)
qed

end
