(* ===== verification/Rpm_Versions.thy ===== *)
theory Rpm_Versions
  imports Deb_Versions
begin

text \<open>
  RPM version order: \<^verbatim>\<open>app/modules/advisories/versions.py\<close>, the rpm half
  (\<^verbatim>\<open>rpmvercmp\<close>, \<^verbatim>\<open>_rpm_split\<close>, \<^verbatim>\<open>rpm_compare\<close>) and the dispatch \<^verbatim>\<open>compare\<close>.

  Shown: \<^verbatim>\<open>rpmvercmp\<close> terminates and is the lexicographic order of the version's
  tokens (\<^verbatim>\<open>~\<close> before the end, the end before \<^verbatim>\<open>^\<close>, then letters, then numbers),
  hence a comparator; \<^verbatim>\<open>rpm_compare\<close> is transitive through any version that
  names a release.
\<close>

section \<open>The code\<close>

definition rpm_alnum :: "char \<Rightarrow> bool" where
  "rpm_alnum c = (is_ascii c \<and> (ascii_alpha c \<or> ascii_digit c))"

definition rpm_separator :: "char \<Rightarrow> bool" where
  "rpm_separator c = (\<not> rpm_alnum c \<and> c \<noteq> CHR ''~'' \<and> c \<noteq> CHR ''^'')"

definition at_char :: "char \<Rightarrow> string \<Rightarrow> bool" where
  "at_char c s = (s \<noteq> [] \<and> hd s = c)"

text \<open>One pass of the loop after the separators: a result, or the two remaining suffixes.\<close>

definition rpm_segment :: "string \<Rightarrow> string \<Rightarrow> int + (string \<times> string)" where
  "rpm_segment a b =
     (let isnum = py_isdigit (hd a);
          kind = (if isnum then ascii_digit else ascii_alpha);
          sa = takeWhile kind a; sb = takeWhile kind b;
          na = (if isnum then skip_zeros sa else sa); nb = (if isnum then skip_zeros sb else sb)
      in if sb = [] then Inl (if isnum then 1 else -1)
         else if isnum \<and> length na \<noteq> length nb then Inl (if length na > length nb then 1 else -1)
         else if na \<noteq> nb then Inl (if na > nb then 1 else -1)
         else Inr (dropWhile kind a, dropWhile kind b))"

definition rpm_pass :: "string \<Rightarrow> string \<Rightarrow> int + (string \<times> string)" where
  "rpm_pass a b =
     (if at_char CHR ''~'' a \<or> at_char CHR ''~'' b
      then (if \<not> at_char CHR ''~'' a then Inl 1
            else if \<not> at_char CHR ''~'' b then Inl (-1)
            else Inr (tl a, tl b))
      else if at_char CHR ''^'' a \<or> at_char CHR ''^'' b
      then (if a = [] then Inl (-1) else if b = [] then Inl 1
            else if \<not> at_char CHR ''^'' a then Inl 1
            else if \<not> at_char CHR ''^'' b then Inl (-1)
            else Inr (tl a, tl b))
      else if a = [] \<or> b = []
      then Inl (if a = [] \<and> b = [] then 0 else if a = [] then -1 else 1)
      else rpm_segment a b)"

lemma rpm_after_separators:
  "dropWhile rpm_separator s = c # cs \<Longrightarrow> c \<noteq> CHR ''~'' \<Longrightarrow> c \<noteq> CHR ''^'' \<Longrightarrow>
     ascii_digit c \<or> ascii_alpha c"
  by (drule dropWhile_eq_Cons_conv [THEN iffD1]) (auto simp: rpm_separator_def rpm_alnum_def)

lemma rpm_pass_shrinks:
  assumes "rpm_pass (dropWhile rpm_separator a) (dropWhile rpm_separator b) = Inr (a', b')"
  shows "length a' + length b' < length a + length b"
proof -
  let ?a = "dropWhile rpm_separator a" and ?b = "dropWhile rpm_separator b"
  have sep: "length ?a \<le> length a" "length ?b \<le> length b" by (simp_all add: length_dropWhile_le)
  show ?thesis
  proof (cases "at_char CHR ''~'' ?a \<or> at_char CHR ''^'' ?a")
    case True
    then have lt: "length (tl ?a) < length ?a" by (cases ?a) (auto simp: at_char_def)
    have "a' = tl ?a \<and> b' = tl ?b" using True assms
      by (auto simp: rpm_pass_def at_char_def split: if_splits simp del: dropWhile_eq_Nil_conv)
    with lt sep show ?thesis by auto
  next
    case False
    with assms obtain c cs where c: "?a = c # cs" "rpm_segment ?a ?b = Inr (a', b')"
      by (cases ?a) (auto simp: rpm_pass_def at_char_def split: if_splits)
    then have "ascii_digit c \<or> \<not> py_isdigit c \<and> ascii_alpha c"
      using False rpm_after_separators [of a c cs]
      by (auto simp: at_char_def py_isdigit_def ascii_alpha_def ascii_digit_def)
    then have "length a' < length ?a" "length b' \<le> length ?b"
      using c by (auto simp: rpm_segment_def Let_def py_isdigit_def length_dropWhile_le
          less_Suc_eq_le split: if_splits)
    with sep show ?thesis by linarith
  qed
qed

function rpm_loop :: "string \<Rightarrow> string \<Rightarrow> int" where
  "rpm_loop a b =
     (if a = [] \<and> b = [] then 0
      else case rpm_pass (dropWhile rpm_separator a) (dropWhile rpm_separator b) of
        Inl r \<Rightarrow> r | Inr (a', b') \<Rightarrow> rpm_loop a' b')"
  by pat_completeness auto
termination
  by (relation "measure (\<lambda>(a, b). length a + length b)") (auto dest: sym intro: rpm_pass_shrinks)

declare rpm_loop.simps [simp del]

definition rpmvercmp :: "string \<Rightarrow> string \<Rightarrow> int" where
  "rpmvercmp a b = (if a = b then 0 else rpm_loop a b)"

text \<open>
  \<^verbatim>\<open>_rpm_split\<close>: the regular expression takes an epoch of digits before the first
  colon, and the release after the last hyphen; \<^verbatim>\<open>.\<close> does not match a newline, so a
  newline in the version makes the match None and \<^verbatim>\<open>m.group\<close> an AttributeError.
\<close>

definition rpm_split :: "string \<Rightarrow> version_error + (int \<times> string \<times> string)" where
  "rpm_split v0 =
     (let v = py_strip v0; e = takeWhile ascii_digit v; after = dropWhile ascii_digit v;
          has_epoch = (e \<noteq> [] \<and> at_char CHR '':'' after);
          rest = (if has_epoch then tl after else v);
          (version, release) = (if CHR ''-'' \<in> set rest then split_last CHR ''-'' rest else (rest, []))
      in if CHR 0x0A \<in> set version then Inl AttributeError
         else case (if has_epoch then py_int e else Some 0) of
             None \<Rightarrow> Inl ValueError
           | Some epoch \<Rightarrow> Inr (epoch, version, release))"

definition rpm_triple_cmp :: "int \<times> string \<times> string \<Rightarrow> int \<times> string \<times> string \<Rightarrow> int" where
  "rpm_triple_cmp x y =
     (case x of (ea, va, ra) \<Rightarrow> case y of (eb, vb, rb) \<Rightarrow>
        if ea \<noteq> eb then (if ea < eb then -1 else 1)
        else (let c = rpmvercmp va vb in
              if c \<noteq> 0 then c else if ra = [] \<or> rb = [] then 0 else rpmvercmp ra rb))"

definition rpm_compare :: "string \<Rightarrow> string \<Rightarrow> version_error + int" where
  "rpm_compare a b =
     res_bind (rpm_split a) (\<lambda>x. res_bind (rpm_split b) (\<lambda>y. Inr (rpm_triple_cmp x y)))"

definition version_compare :: "string \<Rightarrow> string \<Rightarrow> string \<Rightarrow> version_error + int" where
  "version_compare kind a b = (if kind = ''deb'' then deb_compare a b else rpm_compare a b)"

section \<open>The order it computes\<close>

text \<open>
  A version is a sequence of tokens; the first component ranks their kinds:
  \<open>~\<close> 0, the end 1, \<open>^\<close> 2, letters 3, numbers 4.
\<close>

type_synonym rpm_elem = "nat \<times> nat \<times> string"

definition rpm_end :: rpm_elem where "rpm_end = (1, 0, [])"

definition rpm_head :: "string \<Rightarrow> rpm_elem" where
  "rpm_head s = (if s = [] then rpm_end
     else if hd s = CHR ''~'' then (0, 0, []) else if hd s = CHR ''^'' then (2, 0, [])
     else if ascii_digit (hd s)
     then (let ds = skip_zeros (takeWhile ascii_digit s) in (4, length ds, ds))
     else (3, 0, takeWhile ascii_alpha s))"

definition rpm_rest :: "string \<Rightarrow> string" where
  "rpm_rest s = (if at_char CHR ''~'' s \<or> at_char CHR ''^'' s then tl s
     else if s \<noteq> [] \<and> ascii_digit (hd s) then dropWhile ascii_digit s
     else dropWhile ascii_alpha s)"

definition token_start :: "string \<Rightarrow> bool" where
  "token_start s = (s = [] \<or> \<not> rpm_separator (hd s))"

lemma token_start_dropWhile [simp]: "token_start (dropWhile rpm_separator s)"
  by (metis token_start_def hd_dropWhile)

lemma token_start_cases:
  assumes "token_start s"
  obtains "s = []" | "at_char CHR ''~'' s" | "at_char CHR ''^'' s"
    | c cs where "s = c # cs" "ascii_digit c" | c cs where "s = c # cs" "ascii_alpha c"
  using assms by (cases s) (auto simp: token_start_def rpm_separator_def rpm_alnum_def at_char_def)

lemma rpm_rest_shorter: "token_start s \<Longrightarrow> s \<noteq> [] \<Longrightarrow> length (rpm_rest s) < length s"
  by (erule token_start_cases)
    (auto simp: rpm_rest_def at_char_def length_dropWhile_le less_Suc_eq_le ascii_digit_def ascii_alpha_def)

function rpm_key :: "string \<Rightarrow> rpm_elem list" where
  "rpm_key s = (let t = dropWhile rpm_separator s in if t = [] then [] else rpm_head t # rpm_key (rpm_rest t))"
  by pat_completeness auto
termination
proof (relation "measure length")
  fix s t :: string
  assume "t = dropWhile rpm_separator s" "t \<noteq> []"
  then have "length (rpm_rest t) < length t" "length t \<le> length s"
    by (simp_all add: rpm_rest_shorter length_dropWhile_le del: dropWhile_eq_Nil_conv)
  then show "(rpm_rest t, s) \<in> measure length" by simp
qed simp

declare rpm_key.simps [simp del]

lemma rpm_head_digit: "ascii_digit c \<Longrightarrow> rpm_head (c # cs) =
    (let ds = skip_zeros (takeWhile ascii_digit (c # cs)) in (4, length ds, ds))"
  by (auto simp: rpm_head_def ascii_digit_def Let_def)

lemma rpm_head_alpha: "ascii_alpha c \<Longrightarrow> rpm_head (c # cs) = (3, 0, takeWhile ascii_alpha (c # cs))"
  by (auto simp: rpm_head_def ascii_digit_def ascii_alpha_def)

lemma alpha_not_digit: "ascii_alpha c \<Longrightarrow> \<not> ascii_digit c \<and> \<not> py_isdigit c"
  and digit_not_alpha: "ascii_digit c \<Longrightarrow> \<not> ascii_alpha c \<and> py_isdigit c"
  by (auto simp: char_class_defs)

lemma rpm_special: "at_char CHR ''~'' s \<Longrightarrow> rpm_head s = (0, 0, [])" "at_char CHR ''^'' s \<Longrightarrow> rpm_head s = (2, 0, [])"
  by (auto simp: rpm_head_def at_char_def)

text \<open>One pass compares the next tokens, the end counting as a token of its own.\<close>

lemma rpm_pass_heads:
  assumes "token_start a" "token_start b" "\<not> (a = [] \<and> b = [])"
  shows "rpm_pass a b =
    (if rpm_head a < rpm_head b then Inl (-1) else if rpm_head b < rpm_head a then Inl 1
     else Inr (rpm_rest a, rpm_rest b))"
  using assms(1)
proof (cases rule: token_start_cases)
  case 1
  with assms(3,2) show ?thesis
    by (elim token_start_cases)
      (auto simp: rpm_pass_def rpm_head_def at_char_def rpm_end_def Let_def ascii_digit_def ascii_alpha_def)
next
  case 2
  with assms(2) show ?thesis
    by (elim token_start_cases)
      (auto simp: rpm_pass_def rpm_head_def rpm_rest_def at_char_def rpm_end_def Let_def)
next
  case 3
  with assms(2) show ?thesis
    by (elim token_start_cases)
      (auto simp: rpm_pass_def rpm_head_def rpm_rest_def at_char_def rpm_end_def Let_def ascii_digit_def ascii_alpha_def)
next
  case (4 c cs)
  note a = this digit_not_alpha [OF this(2)]
  from assms(2) show ?thesis
  proof (cases rule: token_start_cases)
    case b: (4 d ds)
    let ?ta = "takeWhile ascii_digit a" and ?tb = "takeWhile ascii_digit b"
    have "rpm_pass a b = rpm_segment a b"
      using a b by (auto simp: rpm_pass_def at_char_def ascii_digit_def)
    moreover have "?tb \<noteq> []" "py_isdigit (hd a)" using a b by auto
    moreover have "rpm_head a = (4, length (skip_zeros ?ta), skip_zeros ?ta)"
      "rpm_head b = (4, length (skip_zeros ?tb), skip_zeros ?tb)"
      using a b rpm_head_digit by (simp_all add: Let_def)
    moreover have "rpm_rest a = dropWhile ascii_digit a" "rpm_rest b = dropWhile ascii_digit b"
      using a b by (auto simp: rpm_rest_def at_char_def ascii_digit_def)
    ultimately show ?thesis by (auto simp: rpm_segment_def Let_def less_prod_def)
  qed (use a in \<open>auto simp: rpm_pass_def rpm_head_def at_char_def rpm_end_def Let_def
      rpm_segment_def ascii_digit_def ascii_alpha_def\<close>)
next
  case (5 c cs)
  note a = this alpha_not_digit [OF this(2)]
  from assms(2) show ?thesis
  proof (cases rule: token_start_cases)
    case b: (5 d ds)
    let ?ta = "takeWhile ascii_alpha a" and ?tb = "takeWhile ascii_alpha b"
    have "rpm_pass a b = rpm_segment a b"
      using a b by (auto simp: rpm_pass_def at_char_def ascii_alpha_def)
    moreover have "?tb \<noteq> []" "\<not> py_isdigit (hd a)" using a b by auto
    moreover have "rpm_head a = (3, 0, ?ta)" "rpm_head b = (3, 0, ?tb)"
      using a b rpm_head_alpha by simp_all
    moreover have "rpm_rest a = dropWhile ascii_alpha a" "rpm_rest b = dropWhile ascii_alpha b"
      using a b alpha_not_digit [of d] by (auto simp: rpm_rest_def at_char_def ascii_alpha_def)
    ultimately show ?thesis by (auto simp: rpm_segment_def Let_def less_prod_def)
  qed (use a in \<open>auto simp: rpm_pass_def rpm_head_def at_char_def rpm_end_def Let_def
      rpm_segment_def char_class_defs\<close>)
qed

lemma rpm_key_unfold:
  "rpm_key s = (let t = dropWhile rpm_separator s in if t = [] then [] else rpm_head t # rpm_key (rpm_rest t))"
  by (rule rpm_key.simps)

lemma hdz_rpm_key: "hdz rpm_end (rpm_key s) = rpm_head (dropWhile rpm_separator s)"
  by (subst rpm_key_unfold) (simp add: hdz_def rpm_head_def Let_def del: dropWhile_eq_Nil_conv)

lemma rpm_rest_Nil [simp]: "rpm_rest [] = []" and rpm_key_Nil [simp]: "rpm_key [] = []"
  by (simp_all add: rpm_rest_def at_char_def rpm_key_unfold [of "[]"])

lemma tl_rpm_key: "tl (rpm_key s) = rpm_key (rpm_rest (dropWhile rpm_separator s))"
proof (cases "dropWhile rpm_separator s = []")
  case True
  then show ?thesis by (subst rpm_key_unfold) (simp add: Let_def del: dropWhile_eq_Nil_conv)
qed (simp add: rpm_key_unfold [of s] Let_def del: dropWhile_eq_Nil_conv)

lemma rpm_loop_lexz: "rpm_loop a b = lexz rpm_end (rpm_key a) (rpm_key b)"
proof (induction a b rule: rpm_loop.induct)
  case (1 a b)
  let ?a = "dropWhile rpm_separator a" and ?b = "dropWhile rpm_separator b"
  show ?case
  proof (cases "?a = [] \<and> ?b = []")
    case True
    then have "rpm_key a = []" "rpm_key b = []" by (simp_all add: rpm_key_unfold)
    then show ?thesis using True by (subst rpm_loop.simps) (auto simp: rpm_pass_def at_char_def)
  next
    case False
    then have ne: "\<not> (a = [] \<and> b = [])" by auto
    have pass: "rpm_pass ?a ?b = (if rpm_head ?a < rpm_head ?b then Inl (-1)
        else if rpm_head ?b < rpm_head ?a then Inl 1 else Inr (rpm_rest ?a, rpm_rest ?b))"
      using False by (intro rpm_pass_heads) (simp_all del: dropWhile_eq_Nil_conv)
    have "rpm_loop a b = (case rpm_pass ?a ?b of Inl r \<Rightarrow> r | Inr (a', b') \<Rightarrow> rpm_loop a' b')"
      using ne by (subst rpm_loop.simps) (simp only: if_False)
    then show ?thesis
      using 1 [OF ne, of "(rpm_rest ?a, rpm_rest ?b)"]
      by (subst lexz_unfold) (auto simp: pass hdz_rpm_key tl_rpm_key)
  qed
qed

interpretation rpm: lex_keyed rpmvercmp rpm_key rpm_end
  by unfold_locales (simp add: rpmvercmp_def rpm_loop_lexz)

lemma rpm_triple_antisym: "rpm_triple_cmp y x = - rpm_triple_cmp x y"
proof -
  obtain e u r e' u' r' where [simp]: "x = (e, u, r)" "y = (e', u', r')" by (cases x, cases y) auto
  show ?thesis using rpm.cmp_antisym [of u u'] rpm.cmp_antisym [of r r']
    by (simp add: rpm_triple_cmp_def Let_def)
qed

lemma rpm_triple_trans:
  assumes "snd (snd y) \<noteq> []" "rpm_triple_cmp x y \<le> 0" "rpm_triple_cmp y w \<le> 0"
  shows "rpm_triple_cmp x w \<le> 0"
proof -
  obtain e u r e' u' r' e'' u'' r'' where [simp]: "x = (e, u, r)" "y = (e', u', r')" "w = (e'', u'', r'')"
    by (cases x, cases y, cases w) auto
  have split: "rpm_triple_cmp (f, v, s) (g, v', s') \<le> 0 \<longleftrightarrow> f < g \<or> f = g \<and>
      (rpmvercmp v v' < 0 \<or> rpmvercmp v v' = 0 \<and> (s = [] \<or> s' = [] \<or> rpmvercmp s s' \<le> 0))" for f g v v' s s'
    by (auto simp: rpm_triple_cmp_def Let_def)
  show ?thesis
    using assms rpm.cmp_trans [of r r' r''] rpm.cmp_lt_le_trans [of u u' u'']
      rpm.cmp_le_lt_trans [of u u' u''] rpm.cmp_eq_trans [of u u' u'']
    by (auto simp: split)
qed

text \<open>A text the epoch pattern accepts: one line, short enough for \<^verbatim>\<open>int()\<close>.\<close>

definition rpm_version_text :: "string \<Rightarrow> bool" where
  "rpm_version_text v = (CHR 0x0A \<notin> set v \<and> length v \<le> 4300)"

lemma py_strip_length: "length (py_strip s) \<le> length s"
  unfolding py_strip_def py_rstrip_def py_lstrip_def by (metis length_dropWhile_le length_rev order_trans)

lemma rpm_split_text:
  assumes "rpm_version_text v"
  shows "\<exists>x. rpm_split v = Inr x"
proof -
  let ?v = "py_strip v"
  let ?e = "takeWhile ascii_digit ?v" and ?after = "dropWhile ascii_digit ?v"
  have v: "CHR 0x0A \<notin> set ?v" "length ?v \<le> 4300"
    using assms set_py_strip [of v] py_strip_length [of v] by (auto simp: rpm_version_text_def)
  have after: "set (tl ?after) \<subseteq> set ?v"
    using set_tl_subset [of ?after] by (auto dest: set_dropWhileD)
  have "length ?e \<le> 4300" using v(2) length_takeWhile_le [of ascii_digit ?v] by linarith
  then have int: "\<exists>n. py_int ?e = Some (int n)" if "?e \<noteq> []"
    using that by (intro py_int_digits) (auto simp: list_all_iff dest: set_takeWhileD)
  let ?has = "?e \<noteq> [] \<and> at_char CHR '':'' ?after"
  let ?rest = "if ?has then tl ?after else ?v"
  let ?vr = "if CHR ''-'' \<in> set ?rest then split_last CHR ''-'' ?rest else (?rest, [])"
  have "set ?rest \<subseteq> set ?v" using after by simp
  then have "set (fst ?vr) \<subseteq> set ?v" using set_split_last [of "CHR ''-''" ?rest] by auto
  then have nl: "CHR 0x0A \<notin> set (fst ?vr)" using v(1) by blast
  obtain version release where vr: "?vr = (version, release)" by (cases ?vr)
  from nl have "CHR 0x0A \<notin> set version" unfolding vr fst_conv .
  then show ?thesis unfolding rpm_split_def Let_def vr using int by auto
qed

text \<open>
  C31. The rpm comparison on versions that are one line of at most 4300 characters: it
  never raises, is -1, 0 or 1, swapping the arguments swaps the sign, and it is
  transitive through every version that names a release (a version without release
  equals every release of itself, so it cannot be a middle term).
\<close>

theorem rpm_compare_order:
  assumes "rpm_version_text a" "rpm_version_text b" "rpm_version_text c"
  shows "\<exists>x y w. rpm_split a = Inr x \<and> rpm_split b = Inr y \<and> rpm_split c = Inr w \<and>
    (\<exists>ab bc ac. rpm_compare a b = Inr ab \<and> rpm_compare b c = Inr bc \<and> rpm_compare a c = Inr ac \<and>
      rpm_compare b a = Inr (- ab) \<and> ab \<in> {-1, 0, 1} \<and>
      (snd (snd y) \<noteq> [] \<longrightarrow> ab \<le> 0 \<longrightarrow> bc \<le> 0 \<longrightarrow> ac \<le> 0))"
proof -
  obtain x y w where "rpm_split a = Inr x" "rpm_split b = Inr y" "rpm_split c = Inr w"
    using assms rpm_split_text by meson
  moreover have "rpm_triple_cmp x y \<in> {-1, 0, 1}"
    using rpm.cmp_range by (auto simp: rpm_triple_cmp_def Let_def split: prod.splits)
  ultimately show ?thesis
    using rpm_triple_antisym [of y x] rpm_triple_trans [of y x w]
    by (intro exI [of _ x] exI [of _ y] exI [of _ w]) (auto simp: rpm_compare_def simp del: split_paired_Ex)
qed

theorem rpm_compare_order_witness:
  "rpm_compare ''1.0~rc1-1'' ''0:1.0-1.el8'' = Inr (-1) \<and> rpm_compare ''0:1.0-1.el8'' ''1.0^git1-1'' = Inr (-1) \<and>
   rpm_compare ''0:1.0-1.el8'' ''1.0~rc1-1'' = Inr 1 \<and> (\<exists>ac \<le> 0. rpm_compare ''1.0~rc1-1'' ''1.0^git1-1'' = Inr ac)"
proof -
  have "rpm_compare ''1.0~rc1-1'' ''0:1.0-1.el8'' = Inr (-1)"
    "rpm_compare ''0:1.0-1.el8'' ''1.0^git1-1'' = Inr (-1)"
    "rpm_split ''0:1.0-1.el8'' = Inr (0, ''1.0'', ''1.el8'')" by code_simp+
  then show ?thesis
    using rpm_compare_order [of "''1.0~rc1-1''" "''0:1.0-1.el8''" "''1.0^git1-1''"]
    by (auto simp: rpm_version_text_def)
qed

end
