(* ===== verification/License_Token.thy ===== *)
theory License_Token
  imports Prelude
begin

text \<open>
  Verification of the license server's signed answers:
  \<^verbatim>\<open>app/core/license_token.py\<close> (\<^verbatim>\<open>_b64decode\<close>, \<^verbatim>\<open>_public_key\<close>, \<^verbatim>\<open>verify_token\<close>,
  \<^verbatim>\<open>claims_to_state\<close>) and the key table of \<^verbatim>\<open>app/core/license_keys.py\<close>.

  The codecs and the signature scheme are parameters, the fields of \<open>token_env\<close>:
  base64 and JSON decoding of text, the Ed25519 key loader and its \<^verbatim>\<open>verify\<close>. The
  theorems hold for every choice of them; that a forger cannot make \<^verbatim>\<open>verify\<close> accept is
  the one thing the code itself relies on.
\<close>

section \<open>The code\<close>

record 'k token_env =
  urlsafe_b64decode :: "string \<Rightarrow> string option"
  loads :: "string \<Rightarrow> json option"
  from_public_bytes :: "string \<Rightarrow> 'k option"
  verify :: "'k \<Rightarrow> string \<Rightarrow> string \<Rightarrow> bool"

text \<open>\<^verbatim>\<open>LicenseTokenError\<close>, one constructor per \<^verbatim>\<open>raise\<close>.\<close>

datatype token_error = NotSigned | Malformed | NoKeyBuiltIn | UnknownKey json | MalformedKey string
  | BadSignature | UnsupportedVersion json | WrongType string json | OtherLicense | OtherMachine
  | NonceMismatch | NoIssueTime | NotActivatedHere

definition TRUSTED_LICENSE_KEYS :: "(string \<times> string) list" where
  "TRUSTED_LICENSE_KEYS = [(''02f8c805e424e285'', ''enEtOhXcwcTeVQ8iNrO36S5oNqfI0H9Tgb8coCPANyg='')]"

definition TOKEN_VERSION :: int where "TOKEN_VERSION = 1"

definition b64decode :: "'k token_env \<Rightarrow> string \<Rightarrow> string option" where
  "b64decode E value = urlsafe_b64decode E (value @ replicate (nat (- int (length value) mod 4)) CHR ''='')"

text \<open>
  \<^verbatim>\<open>str(claims.get("kid") or "")\<close> as a key of the table: the text of a float, list or
  object (\<open>None\<close> here) is never a key id.
\<close>

definition kid_text :: "json \<Rightarrow> string option" where
  "kid_text v = (if \<not> truthy v then Some [] else case v of
     JStr s \<Rightarrow> Some s | JInt n \<Rightarrow> Some (str_of_int n) | JBool b \<Rightarrow> Some ''True'' | _ \<Rightarrow> None)"

definition public_key :: "'k token_env \<Rightarrow> (string \<times> string) list \<Rightarrow> json \<Rightarrow> token_error + 'k" where
  "public_key E trusted kid =
     (case Option.bind (kid_text kid) (map_of trusted) of
        Some encoded \<Rightarrow>
          if encoded = [] then (if trusted = [] then Inl NoKeyBuiltIn else Inl (UnknownKey kid))
          else (case from_public_bytes E encoded of None \<Rightarrow> Inl (MalformedKey encoded) | Some k \<Rightarrow> Inr k)
      | None \<Rightarrow> if trusted = [] then Inl NoKeyBuiltIn else Inl (UnknownKey kid))"

text \<open>Python's \<open>==\<close> between a JSON value and an int: \<^verbatim>\<open>True\<close> and \<^verbatim>\<open>1.0\<close> equal 1.\<close>

definition json_eq_int :: "json \<Rightarrow> int \<Rightarrow> bool" where
  "json_eq_int v n = (case v of JInt m \<Rightarrow> m = n | JBool b \<Rightarrow> (if b then 1 else 0) = n
     | JFloat q \<Rightarrow> q = of_int n | _ \<Rightarrow> False)"

type_synonym claims = "(string \<times> json) list"

text \<open>The checks on the content of a token whose signature verified.\<close>

definition check_claims ::
  "claims \<Rightarrow> string \<Rightarrow> string \<Rightarrow> string option \<Rightarrow> string option \<Rightarrow> token_error + claims" where
  "check_claims claims license_key vm_fingerprint typ nonce =
     (if \<not> json_eq_int (jget claims ''v'') TOKEN_VERSION then Inl (UnsupportedVersion (jget claims ''v''))
      else if typ \<noteq> None \<and> jget claims ''typ'' \<noteq> JStr (the typ)
        then Inl (WrongType (the typ) (jget claims ''typ''))
      else if jget claims ''lic'' \<noteq> JStr license_key then Inl OtherLicense
      else if jget claims ''fp'' \<noteq> JStr vm_fingerprint then Inl OtherMachine
      else if nonce \<noteq> None \<and> jget claims ''nonce'' \<noteq> JStr (the nonce) then Inl NonceMismatch
      else if \<not> json_is_int (jget claims ''iat'') then Inl NoIssueTime
      else Inr claims)"

definition verify_token ::
  "'k token_env \<Rightarrow> (string \<times> string) list \<Rightarrow> json \<Rightarrow> string \<Rightarrow> string \<Rightarrow> string option \<Rightarrow> string option
    \<Rightarrow> token_error + claims" where
  "verify_token E trusted token license_key vm_fingerprint typ nonce =
     (case token of
        JStr t \<Rightarrow>
          if count_list t CHR ''.'' \<noteq> 1 then Inl NotSigned
          else (let (body, signature) = split_first CHR ''.'' t in
            case (b64decode E body, b64decode E signature) of
              (Some payload, Some sig) \<Rightarrow>
                (case loads E payload of
                   Some (JObj claims) \<Rightarrow>
                     res_bind (public_key E trusted (jget claims ''kid'')) (\<lambda>key.
                       if \<not> verify E key sig payload then Inl BadSignature
                       else check_claims claims license_key vm_fingerprint typ nonce)
                 | _ \<Rightarrow> Inl Malformed)
            | _ \<Rightarrow> Inl Malformed)
      | _ \<Rightarrow> Inl NotSigned)"

text \<open>
  The dictionary \<^verbatim>\<open>claims_to_state\<close> builds. \<^verbatim>\<open>message\<close> is \<^verbatim>\<open>str(claims.get("msg") or "")\<close>;
  the value is kept, its text is only shown.
\<close>

record token_state =
  ts_valid :: bool
  ts_message :: json
  ts_plan_code :: json
  ts_plan_name :: json
  ts_is_pilot_mode :: bool
  ts_limits :: json
  ts_expires_at :: json
  ts_issued_at :: json
  ts_offline_license :: bool
  ts_offline_until :: json
  ts_signed_token :: json

definition claims_to_state :: "claims \<Rightarrow> json \<Rightarrow> token_state" where
  "claims_to_state claims token =
     \<lparr> ts_valid = truthy (jget claims ''valid''),
       ts_message = (let m = jget claims ''msg'' in if truthy m then m else JStr []),
       ts_plan_code = jget claims ''plan'', ts_plan_name = jget claims ''plan_name'',
       ts_is_pilot_mode = truthy (jget claims ''pilot''),
       ts_limits = jget claims ''limits'', ts_expires_at = jget claims ''exp'',
       ts_issued_at = jget claims ''iat'',
       ts_offline_license = (jget claims ''typ'' = JStr ''offline''),
       ts_offline_until = jget claims ''offline_until'', ts_signed_token = token \<rparr>"

section \<open>What an accepted token is\<close>

text \<open>
  The specification: a token is genuine for a license key and a machine when its two
  halves decode, the payload is an object, and the signature over exactly that payload
  verifies under a built-in key the payload names.
\<close>

definition genuine :: "'k token_env \<Rightarrow> (string \<times> string) list \<Rightarrow> string \<Rightarrow> claims \<Rightarrow> bool" where
  "genuine E trusted t claims =
     (\<exists>body sig_text payload sig key.
        t = body @ CHR ''.'' # sig_text \<and> CHR ''.'' \<notin> set body \<and> CHR ''.'' \<notin> set sig_text \<and>
        b64decode E body = Some payload \<and> b64decode E sig_text = Some sig \<and>
        loads E payload = Some (JObj claims) \<and>
        public_key E trusted (jget claims ''kid'') = Inr key \<and> verify E key sig payload)"

definition about :: "claims \<Rightarrow> string \<Rightarrow> string \<Rightarrow> string option \<Rightarrow> string option \<Rightarrow> bool" where
  "about claims license_key fp typ nonce =
     (json_eq_int (jget claims ''v'') TOKEN_VERSION \<and>
      (\<forall>x. typ = Some x \<longrightarrow> jget claims ''typ'' = JStr x) \<and>
      jget claims ''lic'' = JStr license_key \<and> jget claims ''fp'' = JStr fp \<and>
      (\<forall>x. nonce = Some x \<longrightarrow> jget claims ''nonce'' = JStr x) \<and> json_is_int (jget claims ''iat''))"

lemma count_one_split:
  assumes "count_list t c = 1"
  obtains a b where "t = a @ c # b" "c \<notin> set a" "c \<notin> set b" "split_first c t = (a, b)"
proof -
  obtain a b where ab: "split_first c t = (a, b)" by (cases "split_first c t")
  have "c \<in> set t" using assms by (metis count_notin zero_neq_one)
  then have t: "t = a @ c # b" using split_first_join [of c t] ab by simp
  with assms have "count_list a c = 0" "count_list b c = 0" by auto
  with t ab show ?thesis by (intro that) (auto simp: count_list_0_iff)
qed

lemma split_first_unique:
  "c \<notin> set a \<Longrightarrow> split_first c (a @ c # b) = (a, b)"
  by (induction a) (auto simp: split_first_def)

lemma genuine_split:
  assumes "split_first CHR ''.'' t = (b, s)" "t = b @ CHR ''.'' # s" "CHR ''.'' \<notin> set b" "CHR ''.'' \<notin> set s"
  shows "genuine E trusted t claims \<longleftrightarrow>
    (\<exists>payload sig key. b64decode E b = Some payload \<and> b64decode E s = Some sig \<and>
      loads E payload = Some (JObj claims) \<and> public_key E trusted (jget claims ''kid'') = Inr key \<and>
      verify E key sig payload)"
proof -
  have "b' = b \<and> s' = s" if "t = b' @ CHR ''.'' # s'" "CHR ''.'' \<notin> set b'" for b' s'
    using that assms(1) split_first_unique [of "CHR ''.''" b' s'] by simp
  with assms show ?thesis unfolding genuine_def by blast
qed

lemma check_claims_iff:
  "check_claims d key fp typ nonce = Inr claims \<longleftrightarrow> claims = d \<and> about d key fp typ nonce"
  by (cases "typ"; cases nonce) (auto simp: check_claims_def about_def)

text \<open>Verification accepts exactly the genuine tokens about this license, machine and request.\<close>

lemma verify_token_accepts:
  "verify_token E trusted token key fp typ nonce = Inr claims \<longleftrightarrow>
     (\<exists>t. token = JStr t \<and> genuine E trusted t claims) \<and> about claims key fp typ nonce"
proof (cases token)
  case (JStr t)
  show ?thesis
  proof (cases "count_list t CHR ''.'' = 1")
    case True
    then obtain b s where bs: "t = b @ CHR ''.'' # s" "CHR ''.'' \<notin> set b" "CHR ''.'' \<notin> set s"
      "split_first CHR ''.'' t = (b, s)"
      by (rule count_one_split)
    note gen = genuine_split [OF bs(4,1,2,3)]
    show ?thesis
    proof (cases "\<exists>payload sig d. b64decode E b = Some payload \<and> b64decode E s = Some sig \<and>
        loads E payload = Some (JObj d)")
      case dec: True
      then obtain payload sig d where
        d: "b64decode E b = Some payload" "b64decode E s = Some sig" "loads E payload = Some (JObj d)"
        by blast
      show ?thesis using True bs(4) JStr d
        by (cases "public_key E trusted (jget d ''kid'')") (auto simp: gen verify_token_def check_claims_iff)
    next
      case False
      then show ?thesis using True bs(4) JStr
        by (auto simp: gen verify_token_def split: option.splits json.splits)
    qed
  next
    case False
    have "\<not> genuine E trusted t claims"
      using False by (auto simp: genuine_def count_notin)
    with False JStr show ?thesis by (simp add: verify_token_def)
  qed
qed (auto simp: verify_token_def)

lemma verify_token_genuine:
  assumes "genuine E trusted t claims"
  shows "verify_token E trusted (JStr t) key fp typ nonce = check_claims claims key fp typ nonce"
proof -
  obtain b s payload sig k where *: "t = b @ CHR ''.'' # s" "CHR ''.'' \<notin> set b" "CHR ''.'' \<notin> set s"
    "b64decode E b = Some payload" "b64decode E s = Some sig" "loads E payload = Some (JObj claims)"
    "public_key E trusted (jget claims ''kid'') = Inr k" "verify E k sig payload"
    using assms unfolding genuine_def by blast
  then have "split_first CHR ''.'' t = (b, s)" "count_list t CHR ''.'' = 1"
    using split_first_unique [of "CHR ''.''" b s] by (simp_all add: count_notin)
  with * show ?thesis by (simp add: verify_token_def)
qed

text \<open>
  C2. An answer is accepted only if its signature over exactly the decoded payload
  verifies under a built-in key, and it is bound to one request, license and machine:
  the same token is refused for any other nonce (a replay), any other license key, any
  other machine and any other answer type.
\<close>

theorem verify_token_bound:
  assumes "verify_token E trusted token key fp (Some ty) (Some n) = Inr claims"
  shows "(\<exists>t. token = JStr t \<and> genuine E trusted t claims) \<and>
    (n' \<noteq> n \<longrightarrow> verify_token E trusted token key fp (Some ty) (Some n') = Inl NonceMismatch) \<and>
    (key' \<noteq> key \<longrightarrow> verify_token E trusted token key' fp (Some ty) (Some n) = Inl OtherLicense) \<and>
    (fp' \<noteq> fp \<longrightarrow> verify_token E trusted token key fp' (Some ty) (Some n) = Inl OtherMachine) \<and>
    (ty' \<noteq> ty \<longrightarrow> verify_token E trusted token key fp (Some ty') (Some n) = Inl (WrongType ty' (JStr ty)))"
proof -
  obtain t where t: "token = JStr t" "genuine E trusted t claims" and
    *: "about claims key fp (Some ty) (Some n)"
    using assms verify_token_accepts by blast
  then show ?thesis
    by (auto simp: verify_token_genuine check_claims_def about_def)
qed

text \<open>A concrete environment in which a token is accepted.\<close>

definition demo_claims :: claims where
  "demo_claims = [(''kid'', JStr ''02f8c805e424e285''), (''v'', JInt 1), (''typ'', JStr ''validate''),
     (''lic'', JStr ''AAAA-BBBB-CCCC-DDDD''), (''fp'', JStr ''fp1''), (''nonce'', JStr ''n1''),
     (''iat'', JInt 1700000000), (''valid'', JBool True), (''plan'', JStr ''NGC-BUS-250-1Y''),
     (''limits'', JObj [(''max_assets'', JInt 250), (''addon_packs'', JInt 0)])]"

definition demo_env :: "string token_env" where
  "demo_env = \<lparr> urlsafe_b64decode = Some, loads = (\<lambda>p. if p = ''body'' then Some (JObj demo_claims) else None),
     from_public_bytes = Some, verify = (\<lambda>k s p. s = ''sign'' \<and> p = ''body'') \<rparr>"

theorem verify_token_bound_witness:
  "verify_token demo_env TRUSTED_LICENSE_KEYS (JStr ''body.sign'') ''AAAA-BBBB-CCCC-DDDD'' ''fp1''
     (Some ''validate'') (Some ''n1'') = Inr demo_claims \<and>
   verify_token demo_env TRUSTED_LICENSE_KEYS (JStr ''body.sign'') ''AAAA-BBBB-CCCC-DDDD'' ''fp1''
     (Some ''validate'') (Some ''n2'') = Inl NonceMismatch"
proof -
  have "verify_token demo_env TRUSTED_LICENSE_KEYS (JStr ''body.sign'') ''AAAA-BBBB-CCCC-DDDD'' ''fp1''
     (Some ''validate'') (Some ''n1'') = Inr demo_claims" by code_simp
  then show ?thesis using verify_token_bound [where n' = "''n2''"] by fastforce
qed

end
