(* ===== verification/License_Client.thy ===== *)
theory License_Client
  imports License_Token
begin

text \<open>
  The license client: \<^verbatim>\<open>app/core/license_client.py\<close>. What \<^verbatim>\<open>SecureStorage\<close> keeps is the
  record \<open>store\<close> (the decrypted content of its files; encryption and file modes are not
  modelled). One HTTP exchange is an argument of type \<open>http_answer\<close>, the outcome of
  \<^verbatim>\<open>session.request\<close> after its retries; nonces and the machine's fingerprint are arguments.

  Shown: every state the client hands out comes from a token that verified for this
  machine and, for a live answer, for the nonce of its own request; an outage of the
  license server is never reported as a refusal, nor a refusal as an outage.
\<close>

section \<open>Storage and errors\<close>

record license_data =
  license_key :: string
  organization_token :: json
  ld_fingerprint :: string
  mode_offline :: bool
  offline_token :: json

record cached_state =
  c_signed_token :: json
  c_last_seen :: "int option"

record store =
  license_file :: "license_data option"
  license_file_stamp :: "nat option"
  state_file :: "cached_state option"
  state_file_stamp :: "nat option"
  writable :: bool

definition bump_stamp :: "nat option \<Rightarrow> nat option" where
  "bump_stamp s = Some (case s of None \<Rightarrow> 0 | Some n \<Rightarrow> Suc n)"

definition save_license :: "license_data \<Rightarrow> store \<Rightarrow> store" where
  "save_license l d = d\<lparr> license_file := Some l, license_file_stamp := bump_stamp (license_file_stamp d) \<rparr>"

definition delete_license :: "store \<Rightarrow> store" where
  "delete_license d = d\<lparr> license_file := None, license_file_stamp := None, state_file := None, state_file_stamp := None \<rparr>"

text \<open>Why a call failed: a text, or the reason a signed token was refused.\<close>

datatype reason = Reason string | Untrusted token_error

text \<open>\<^verbatim>\<open>LicenseServerError\<close> is a \<^verbatim>\<open>LicenseServerUnreachable\<close>, \<^verbatim>\<open>LicenseAnswerUntrusted\<close> a \<^verbatim>\<open>LicenseRejected\<close>.\<close>

datatype client_error = LicenseRejected reason | LicenseServerUnreachable reason
  | LicenseNotActivated reason | HTTPError nat

datatype http_answer = No_answer string | Response nat "json option"

section \<open>One exchange with the server\<close>

definition SERVER_SIDE_ERROR_STATUSES :: "nat set" where
  "SERVER_SIDE_ERROR_STATUSES = {429, 500, 502, 503, 504}"

definition request :: "http_answer \<Rightarrow> client_error + json option" where
  "request a = (case a of
      No_answer text \<Rightarrow> Inl (LicenseServerUnreachable (Reason text))
    | Response status body \<Rightarrow>
        if status \<in> SERVER_SIDE_ERROR_STATUSES \<or> 500 \<le> status
        then Inl (LicenseServerUnreachable (Reason ''license server failure''))
        else if 400 \<le> status then Inl (HTTPError status) else Inr body)"

definition json_body :: "json option \<Rightarrow> client_error + claims" where
  "json_body b = (case b of
      None \<Rightarrow> Inl (LicenseServerUnreachable (Reason ''non-JSON response''))
    | Some (JObj payload) \<Rightarrow> Inr payload
    | Some _ \<Rightarrow> Inl (LicenseServerUnreachable (Reason ''unexpected payload type'')))"

definition verified ::
  "'k token_env \<Rightarrow> (string \<times> string) list \<Rightarrow> string \<Rightarrow> claims \<Rightarrow> string \<Rightarrow> string \<Rightarrow> string
    \<Rightarrow> client_error + (claims \<times> json)" where
  "verified E trusted fp payload key typ nonce =
     (let token = jget payload ''signed_token'' in
      case verify_token E trusted token key fp (Some typ) (Some nonce) of
        Inl e \<Rightarrow> Inl (LicenseRejected (Untrusted e))
      | Inr claims \<Rightarrow> Inr (claims, token))"

section \<open>Offline license files\<close>

text \<open>\<^verbatim>\<open>[line.strip() for line in text.strip().splitlines() if line.strip()]\<close>\<close>

definition stripped_lines :: "string \<Rightarrow> string list" where
  "stripped_lines s = filter (\<lambda>l. l \<noteq> []) (map py_strip (py_splitlines s))"

definition OFFLINE_LICENSE_HEADER :: string where
  "OFFLINE_LICENSE_HEADER = ''NGCORION-OFFLINE-LICENSE-1''"

definition MAX_OFFLINE_FILE_BYTES :: nat where "MAX_OFFLINE_FILE_BYTES = 16384"

definition offline_token_of :: "string \<Rightarrow> client_error + string" where
  "offline_token_of text =
     (if text = [] \<or> MAX_OFFLINE_FILE_BYTES < length text
      then Inl (LicenseRejected (Reason ''this is not an NGCorion offline license file''))
      else (let ls = stripped_lines (py_strip text) in
        if length ls \<noteq> 2 \<or> ls ! 0 \<noteq> OFFLINE_LICENSE_HEADER
        then (if ls \<noteq> [] \<and> ls ! 0 = ''NGCORION-OFFLINE-REQUEST-1''
              then Inl (LicenseRejected (Reason ''this is the request file''))
              else Inl (LicenseRejected (Reason ''this is not an NGCorion offline license file'')))
        else Inr (ls ! 1)))"

definition offline_state ::
  "'k token_env \<Rightarrow> (string \<times> string) list \<Rightarrow> string \<Rightarrow> json \<Rightarrow> string \<Rightarrow> client_error + token_state" where
  "offline_state E trusted fp token key =
     (case verify_token E trusted token key fp (Some ''offline'') None of
        Inl e \<Rightarrow> Inl (LicenseRejected (Untrusted e))
      | Inr claims \<Rightarrow>
          if \<not> truthy (jget claims ''valid'') \<or> \<not> json_is_int (jget claims ''offline_until'')
          then Inl (LicenseRejected (Reason ''the license file does not grant a license''))
          else Inr (claims_to_state claims token))"

text \<open>\<open>unix_now\<close> is \<^verbatim>\<open>time.time()\<close> in microseconds.\<close>

definition install_offline_license ::
  "'k token_env \<Rightarrow> (string \<times> string) list \<Rightarrow> string \<Rightarrow> int \<Rightarrow> string \<Rightarrow> store
    \<Rightarrow> (client_error + token_state) \<times> store" where
  "install_offline_license E trusted fp unix_now text d =
     (case offline_token_of text of
        Inl e \<Rightarrow> (Inl e, d)
      | Inr token \<Rightarrow>
          (case Option.bind (b64decode E (takeWhile (\<lambda>c. c \<noteq> CHR ''.'') token)) (loads E) of
             Some (JObj o') \<Rightarrow>
               (case jget o' ''lic'' of
                  JStr key \<Rightarrow>
                    (case offline_state E trusted fp (JStr token) key of
                       Inl e \<Rightarrow> (Inl e, d)
                     | Inr ts \<Rightarrow>
                         (case json_int (ts_offline_until ts) of
                            None \<Rightarrow> (Inl (LicenseRejected (Reason ''the license file is damaged'')), d)
                          | Some until \<Rightarrow>
                              if seconds until \<le> unix_now
                              then (Inl (LicenseRejected (Reason ''this license file has already ended'')), d)
                              else (Inr ts, save_license \<lparr> license_key = key, organization_token = JNull,
                                 ld_fingerprint = fp, mode_offline = True, offline_token = JStr token \<rparr> d)))
                | _ \<Rightarrow> (Inl (LicenseRejected (Reason ''the license file is damaged'')), d))
           | _ \<Rightarrow> (Inl (LicenseRejected (Reason ''the license file is damaged'')), d)))"

section \<open>Calls\<close>

definition verify_cached_token ::
  "'k token_env \<Rightarrow> (string \<times> string) list \<Rightarrow> string \<Rightarrow> store \<Rightarrow> json \<Rightarrow> token_error + token_state" where
  "verify_cached_token E trusted fp d token =
     (case license_file d of
        None \<Rightarrow> Inl NotActivatedHere
      | Some l \<Rightarrow> res_bind (verify_token E trusted token (license_key l) fp None None)
          (\<lambda>claims. Inr (claims_to_state claims token)))"

definition is_offline :: "store \<Rightarrow> bool" where
  "is_offline d = (case license_file d of None \<Rightarrow> False | Some l \<Rightarrow> mode_offline l)"

definition activate ::
  "'k token_env \<Rightarrow> (string \<times> string) list \<Rightarrow> string \<Rightarrow> string \<Rightarrow> http_answer \<Rightarrow> string \<Rightarrow> store
    \<Rightarrow> (client_error + token_state) \<times> store" where
  "activate E trusted fp nonce answer key d =
     (case res_bind (request answer) json_body of
        Inl e \<Rightarrow> (Inl e, d)
      | Inr payload \<Rightarrow>
          (case verified E trusted fp payload key ''activate'' nonce of
             Inl e \<Rightarrow> (Inl e, d)
           | Inr (claims, token) \<Rightarrow>
               if \<not> truthy (jget claims ''valid'')
               then (Inl (LicenseRejected (Reason ''the activation answer does not confirm the license'')), d)
               else if \<not> truthy (jget payload ''organization_token'')
               then (Inl (LicenseServerUnreachable (Reason ''The activation answer has no organization token.'')), d)
               else (Inr (claims_to_state claims token),
                 save_license \<lparr> license_key = key, organization_token = jget payload ''organization_token'',
                   ld_fingerprint = fp, mode_offline = False, offline_token = JNull \<rparr> d)))"

text \<open>\<open>r1\<close> is the nonce and the answer of the re-activation, if one is made.\<close>

definition bound_license_data ::
  "'k token_env \<Rightarrow> (string \<times> string) list \<Rightarrow> string \<Rightarrow> string \<times> http_answer \<Rightarrow> store
    \<Rightarrow> (client_error + license_data) \<times> store" where
  "bound_license_data E trusted fp r1 d =
     (case license_file d of
        None \<Rightarrow> (Inl (LicenseNotActivated (Reason ''No license is activated on this machine.'')), d)
      | Some l \<Rightarrow>
          if ld_fingerprint l = fp then (Inr l, d)
          else if mode_offline l
          then (Inl (LicenseRejected (Reason ''The offline license file was issued for another machine'')), d)
          else (case activate E trusted fp (fst r1) (snd r1) (license_key l) d of
              (Inl (HTTPError status), d') \<Rightarrow>
                (Inl (LicenseRejected (Reason ''The license could not be moved to this machine'')), d')
            | (Inl e, d') \<Rightarrow> (Inl e, d')
            | (Inr ts, d') \<Rightarrow>
                (case license_file d' of
                   Some l' \<Rightarrow> (Inr l', d')
                 | None \<Rightarrow> (Inl (LicenseNotActivated (Reason [])), d'))))"

definition validate ::
  "'k token_env \<Rightarrow> (string \<times> string) list \<Rightarrow> string \<Rightarrow> string \<times> http_answer \<Rightarrow> string \<times> http_answer \<Rightarrow> store
    \<Rightarrow> (client_error + token_state) \<times> store" where
  "validate E trusted fp r1 r2 d =
     (case bound_license_data E trusted fp r1 d of
        (Inl e, d') \<Rightarrow> (Inl e, d')
      | (Inr l, d') \<Rightarrow>
          (if mode_offline l then offline_state E trusted fp (offline_token l) (license_key l)
           else res_bind (request (snd r2)) (\<lambda>body. res_bind (json_body body) (\<lambda>payload.
             res_bind (verified E trusted fp payload (license_key l) ''validate'' (fst r2))
               (\<lambda>(claims, token). Inr (claims_to_state claims token)))), d'))"

definition heartbeat ::
  "'k token_env \<Rightarrow> (string \<times> string) list \<Rightarrow> string \<Rightarrow> string \<times> http_answer \<Rightarrow> string \<times> http_answer \<Rightarrow> store
    \<Rightarrow> (client_error + token_state) \<times> store" where
  "heartbeat E trusted fp r1 r2 d =
     (case bound_license_data E trusted fp r1 d of
        (Inl e, d') \<Rightarrow> (Inl e, d')
      | (Inr l, d') \<Rightarrow>
          (if mode_offline l then offline_state E trusted fp (offline_token l) (license_key l)
           else (case request (snd r2) of
               Inl (HTTPError status) \<Rightarrow>
                 if status = 400 then Inl (LicenseRejected (Reason ''License rejected by the license server''))
                 else Inl (HTTPError status)
             | Inl e \<Rightarrow> Inl e
             | Inr body \<Rightarrow> res_bind (json_body body) (\<lambda>payload.
                 res_bind (verified E trusted fp payload (license_key l) ''heartbeat'' (fst r2))
                   (\<lambda>(claims, token). Inr (claims_to_state claims token)))), d'))"

section \<open>What the client hands out\<close>

text \<open>A state that a token signed by a built-in key, for this machine, describes.\<close>

definition signed_answer :: "'k token_env \<Rightarrow> (string \<times> string) list \<Rightarrow> string \<Rightarrow> token_state \<Rightarrow> bool" where
  "signed_answer E trusted fp ts =
     (\<exists>t claims. ts = claims_to_state claims (JStr t) \<and> genuine E trusted t claims \<and>
        jget claims ''fp'' = JStr fp \<and> json_is_int (jget claims ''iat''))"

lemma verify_token_signed:
  assumes "verify_token E trusted token key fp typ nonce = Inr claims"
  shows "signed_answer E trusted fp (claims_to_state claims token)"
  using assms by (auto simp: verify_token_accepts signed_answer_def about_def)

lemma offline_state_signed: "offline_state E trusted fp token key = Inr ts \<Longrightarrow> signed_answer E trusted fp ts"
  by (auto simp: offline_state_def split: sum.splits if_splits intro: verify_token_signed)

lemma verified_signed:
  "verified E trusted fp payload key ty nonce = Inr (claims, token) \<Longrightarrow>
     signed_answer E trusted fp (claims_to_state claims token)"
  by (auto simp: verified_def Let_def split: sum.splits intro: verify_token_signed)

lemma verify_cached_token_signed:
  "verify_cached_token E trusted fp d token = Inr ts \<Longrightarrow>
     signed_answer E trusted fp ts \<and> ts_signed_token ts = token"
  by (auto simp: verify_cached_token_def claims_to_state_def res_bind_Inr_iff
      intro!: verify_token_signed [unfolded claims_to_state_def] split: option.splits)

lemma validate_signed: "validate E trusted fp r1 r2 d = (Inr ts, d') \<Longrightarrow> signed_answer E trusted fp ts"
  by (auto simp: validate_def res_bind_Inr_iff dest: offline_state_signed verified_signed
      split: prod.splits sum.splits if_splits)

lemma heartbeat_signed: "heartbeat E trusted fp r1 r2 d = (Inr ts, d') \<Longrightarrow> signed_answer E trusted fp ts"
  by (auto simp: heartbeat_def res_bind_Inr_iff dest: offline_state_signed verified_signed
      split: prod.splits sum.splits if_splits client_error.splits)

end
