(* ===== verification/License_State.thy ===== *)
theory License_State
  imports License_Client
begin

text \<open>
  The license state of a worker process and the storage the workers share:
  \<^verbatim>\<open>app/core/license_state.py\<close>.

  A process (\<open>proc\<close>) holds the module's globals; the storage (\<open>store\<close>) holds what
  \<^verbatim>\<open>SecureStorage\<close> keeps on disk for it. Every operation takes the time its
  \<^verbatim>\<open>datetime.utcnow()\<close> reads. A time in the cache is kept as the time itself, not as its
  ISO text; a file's stamp (inode, size, mtime) is a number that a write changes. Log
  lines are not modelled, message texts are constructors of \<open>license_message\<close>.
\<close>

section \<open>State\<close>

definition OFFLINE_GRACE :: timedelta where "OFFLINE_GRACE = hours 48"
definition PILOT_FALLBACK_DAYS :: int where "PILOT_FALLBACK_DAYS = 30"
definition PILOT_FALLBACK_ASSETS :: int where "PILOT_FALLBACK_ASSETS = 5"
definition CLOCK_ROLLBACK_TOLERANCE :: timedelta where "CLOCK_ROLLBACK_TOLERANCE = minutes 5"
definition SYNC_INTERVAL :: timedelta where "SYNC_INTERVAL = seconds 1"

datatype license_message = No_license_activated | Plain string | Answer json | Cached_ago timedelta
  | Clock_set_back | Clock_before_issue | License_expired | Offline_file_ended
  | Not_reached_since datetime | Running_as_pilot json datetime
  | Unreachable_using_last reason | Unreachable reason | Rejected_by_server reason
  | Not_activated reason | Validation_rejected nat

record license_state =
  valid :: bool
  plan_code :: json
  plan_name :: json
  is_pilot_mode :: bool
  max_assets :: "int option"
  addon_packs :: int
  expires_at :: "datetime option"
  message :: license_message
  last_validated_at :: "datetime option"
  offline :: bool
  issued_at :: "datetime option"
  offline_pilot :: bool
  offline_pilot_until :: "datetime option"
  offline_license :: bool
  offline_until :: "datetime option"

definition initial_state :: license_state where
  "initial_state = \<lparr> valid = False, plan_code = JNull, plan_name = JNull, is_pilot_mode = False,
     max_assets = None, addon_packs = 0, expires_at = None, message = No_license_activated,
     last_validated_at = None, offline = False, issued_at = None, offline_pilot = False,
     offline_pilot_until = None, offline_license = False, offline_until = None \<rparr>"

record proc =
  lstate :: license_state
  state_cache :: bool
  token_verifier :: "(store \<Rightarrow> json \<Rightarrow> token_error + token_state) option"
  sync_client :: bool
  signed_token :: json
  max_seen :: "datetime option"
  license_stamp :: "nat option"
  state_stamp :: "nat option"
  last_sync :: "int option"
  cache_enabled :: bool

text \<open>A process that has just started, before \<^verbatim>\<open>attach_state_cache\<close>.\<close>

definition initial_proc :: "bool \<Rightarrow> proc" where
  "initial_proc enabled = \<lparr> lstate = initial_state, state_cache = False, token_verifier = None,
     sync_client = False, signed_token = JNull, max_seen = None, license_stamp = None,
     state_stamp = None, last_sync = None, cache_enabled = enabled \<rparr>"

section \<open>Operations\<close>

definition attach_state_cache ::
  "(store \<Rightarrow> json \<Rightarrow> token_error + token_state) option \<Rightarrow> bool \<Rightarrow> proc \<Rightarrow> store \<Rightarrow> proc" where
  "attach_state_cache verifier client p d =
     p\<lparr> state_cache := True, token_verifier := verifier, sync_client := client,
        license_stamp := license_file_stamp d, state_stamp := state_file_stamp d, last_sync := None \<rparr>"

definition utc_from_epoch :: "json \<Rightarrow> datetime option" where
  "utc_from_epoch v = (case json_int v of None \<Rightarrow> None
     | Some n \<Rightarrow> if -62135596800 \<le> n \<and> n \<le> 253402300799 then Some (seconds n) else None)"

definition seen_now :: "datetime \<Rightarrow> proc \<Rightarrow> proc" where
  "seen_now now p = (case max_seen p of None \<Rightarrow> p\<lparr> max_seen := Some now \<rparr>
     | Some m \<Rightarrow> if m < now then p\<lparr> max_seen := Some now \<rparr> else p)"

definition save_state :: "cached_state \<Rightarrow> store \<Rightarrow> store" where
  "save_state c d = (if writable d
     then d\<lparr> state_file := Some c, state_file_stamp := bump_stamp (state_file_stamp d) \<rparr>
     else d)"

definition persist_state :: "datetime \<Rightarrow> proc \<times> store \<Rightarrow> proc \<times> store" where
  "persist_state now = (\<lambda>(p, d).
     if \<not> state_cache p \<or> \<not> cache_enabled p then (p, d)
     else let p' = seen_now now p in
       (p', save_state \<lparr> c_signed_token = (if valid (lstate p') then signed_token p' else JNull),
                         c_last_seen = max_seen p' \<rparr> d))"

definition max_assets_of :: "json \<Rightarrow> int option" where
  "max_assets_of limits = (case limits of
      JObj d \<Rightarrow> (case map_of d ''max_assets'' of
         None \<Rightarrow> Some PILOT_FALLBACK_ASSETS
       | Some JNull \<Rightarrow> None
       | Some v \<Rightarrow> (case json_int v of Some n \<Rightarrow> Some (max n 0) | None \<Rightarrow> Some PILOT_FALLBACK_ASSETS))
    | _ \<Rightarrow> Some PILOT_FALLBACK_ASSETS)"

definition addon_packs_of :: "json \<Rightarrow> int" where
  "addon_packs_of limits = (case limits of
      JObj d \<Rightarrow> (let v = jget d ''addon_packs'' in
         if truthy v then (case json_int v of Some n \<Rightarrow> n | None \<Rightarrow> 0) else 0)
    | _ \<Rightarrow> 0)"

definition apply_answer :: "token_state \<Rightarrow> license_state \<Rightarrow> license_state" where
  "apply_answer ts s = s\<lparr>
     valid := ts_valid ts, plan_code := ts_plan_code ts, plan_name := ts_plan_name ts,
     is_pilot_mode := ts_is_pilot_mode ts, max_assets := max_assets_of (ts_limits ts),
     addon_packs := addon_packs_of (ts_limits ts), expires_at := utc_from_epoch (ts_expires_at ts),
     offline_license := ts_offline_license ts, offline_until := utc_from_epoch (ts_offline_until ts) \<rparr>"

definition clear_entitlement :: "license_state \<Rightarrow> license_state" where
  "clear_entitlement s = s\<lparr> plan_code := JNull, plan_name := JNull, is_pilot_mode := False,
     max_assets := None, addon_packs := 0, expires_at := None, offline_license := False,
     offline_until := None \<rparr>"

definition no_license :: "string \<Rightarrow> proc \<Rightarrow> proc" where
  "no_license text p = p\<lparr>
     lstate := (clear_entitlement ((lstate p)\<lparr> valid := False, offline := False \<rparr>))
       \<lparr> issued_at := None, message := Plain text \<rparr>,
     signed_token := JNull \<rparr>"

text \<open>What this process already knows: its own answer, or when it was last told no.\<close>

definition known_since :: "license_state \<Rightarrow> datetime option" where
  "known_since s = (if \<not> valid s \<and> last_validated_at s \<noteq> None
     then (case issued_at s of None \<Rightarrow> last_validated_at s
           | Some i \<Rightarrow> Some (max i (the (last_validated_at s))))
     else issued_at s)"

definition adopt_cached_answer :: "proc \<Rightarrow> store \<Rightarrow> proc" where
  "adopt_cached_answer p d =
     (case token_verifier p of
        None \<Rightarrow> p
      | Some verifier \<Rightarrow>
          if \<not> cache_enabled p then p
          else (let token = (case state_file d of None \<Rightarrow> JNull | Some c \<Rightarrow> c_signed_token c) in
            if \<not> truthy token \<or> token = signed_token p then p
            else (case verifier d token of
                Inl e \<Rightarrow> p
              | Inr ts \<Rightarrow> (case utc_from_epoch (ts_issued_at ts) of
                    None \<Rightarrow> p
                  | Some issued \<Rightarrow>
                      if (\<exists>k \<in> set_option (known_since (lstate p)). issued \<le> k) then p
                      else p\<lparr> lstate := (apply_answer ts (lstate p))\<lparr> message := Answer (ts_message ts),
                               last_validated_at := Some issued, issued_at := Some issued, offline := False \<rparr>,
                             signed_token := token \<rparr>))))"

text \<open>\<^verbatim>\<open>restore_cached_state\<close>: the new process state and whether a state was restored.\<close>

definition note_last_seen :: "datetime option \<Rightarrow> proc \<Rightarrow> proc" where
  "note_last_seen seen p = (case seen of None \<Rightarrow> p | Some t \<Rightarrow> seen_now t p)"

definition restore_cached_state :: "datetime \<Rightarrow> proc \<Rightarrow> store \<Rightarrow> proc \<times> bool" where
  "restore_cached_state now p d =
     (if \<not> state_cache p \<or> \<not> cache_enabled p then (p, False)
      else case state_file d of
        None \<Rightarrow> (p, False)
      | Some c \<Rightarrow>
          (let p1 = note_last_seen (c_last_seen c) p; token = c_signed_token c in
           case token_verifier p of
             None \<Rightarrow> (p1, False)
           | Some verifier \<Rightarrow>
               if \<not> truthy token then (p1, False)
               else (case verifier d token of
                  Inl e \<Rightarrow> (p1, False)
                | Inr ts \<Rightarrow> (case utc_from_epoch (ts_issued_at ts) of
                     None \<Rightarrow> (p1, False)
                   | Some issued \<Rightarrow>
                       if now < issued - CLOCK_ROLLBACK_TOLERANCE \<or>
                          (\<exists>t \<in> set_option (c_last_seen c). now < t - CLOCK_ROLLBACK_TOLERANCE)
                       then (p1, False)
                       else (let until = (if ts_offline_license ts then utc_from_epoch (ts_offline_until ts) else None) in
                         if (case until of Some u \<Rightarrow> u < now
                             | None \<Rightarrow> now - issued > OFFLINE_GRACE + days PILOT_FALLBACK_DAYS)
                         then (p1, False)
                         else (p1\<lparr> lstate := (apply_answer ts (lstate p1))\<lparr>
                                   last_validated_at := Some issued, issued_at := Some issued, offline := True,
                                   message := Cached_ago (now - issued) \<rparr>,
                                 signed_token := token \<rparr>, True))))))"

definition get_license_state :: "datetime \<Rightarrow> proc \<Rightarrow> license_state \<times> proc" where
  "get_license_state now p =
     (let current = (lstate p)\<lparr> offline_pilot := False, offline_pilot_until := None \<rparr>;
          reference = (case issued_at (lstate p) of None \<Rightarrow> last_validated_at (lstate p) | Some i \<Rightarrow> Some i);
          previous_max = max_seen p; p' = seen_now now p
      in (if \<not> valid current then current
          else if (\<exists>m \<in> set_option previous_max. now < m - CLOCK_ROLLBACK_TOLERANCE)
          then current\<lparr> valid := False, message := Clock_set_back \<rparr>
          else if (\<exists>i \<in> set_option (issued_at current). now < i - CLOCK_ROLLBACK_TOLERANCE)
          then current\<lparr> valid := False, message := Clock_before_issue \<rparr>
          else if (\<exists>e \<in> set_option (expires_at current). e < now)
          then current\<lparr> valid := False, message := License_expired \<rparr>
          else if offline_license current
          then (if (case offline_until current of None \<Rightarrow> True | Some u \<Rightarrow> u < now)
                then current\<lparr> valid := False, message := Offline_file_ended \<rparr> else current)
          else case reference of None \<Rightarrow> current
            | Some r \<Rightarrow>
                if now - r \<le> OFFLINE_GRACE then current
                else (let fallback_until = r + OFFLINE_GRACE + days PILOT_FALLBACK_DAYS in
                  if fallback_until < now then current\<lparr> valid := False, message := Not_reached_since r \<rparr>
                  else current\<lparr> offline_pilot := True, offline_pilot_until := Some fallback_until,
                         is_pilot_mode := True,
                         max_assets := Some (case max_assets current of None \<Rightarrow> PILOT_FALLBACK_ASSETS
                            | Some n \<Rightarrow> min n PILOT_FALLBACK_ASSETS),
                         message := Running_as_pilot (plan_name current) fallback_until \<rparr>), p'))"

definition set_license_state :: "datetime \<Rightarrow> token_state \<Rightarrow> proc \<times> store \<Rightarrow> proc \<times> store" where
  "set_license_state now ts = (\<lambda>(p, d).
     persist_state now
      (p\<lparr> lstate := (apply_answer ts (lstate p))\<lparr> message := Answer (ts_message ts),
            last_validated_at := Some now, issued_at := utc_from_epoch (ts_issued_at ts), offline := False \<rparr>,
          signed_token := ts_signed_token ts \<rparr>, d))"

definition mark_license_server_offline :: "datetime \<Rightarrow> reason \<Rightarrow> proc \<times> store \<Rightarrow> proc \<times> store" where
  "mark_license_server_offline now err = (\<lambda>(p, d).
     persist_state now
      (p\<lparr> lstate := (lstate p)\<lparr> offline := True,
            message := (if valid (lstate p) then Unreachable_using_last err else Unreachable err) \<rparr> \<rparr>, d))"

definition mark_license_rejected :: "datetime \<Rightarrow> reason \<Rightarrow> proc \<times> store \<Rightarrow> proc \<times> store" where
  "mark_license_rejected now r = (\<lambda>(p, d).
     persist_state now
      (p\<lparr> lstate := (clear_entitlement ((lstate p)\<lparr> valid := False, offline := False \<rparr>))
            \<lparr> last_validated_at := Some now, issued_at := None, message := Rejected_by_server r \<rparr>,
          signed_token := JNull \<rparr>, d))"

text \<open>\<open>client_validate\<close> is the client's \<^verbatim>\<open>validate()\<close>, which reads and may rewrite the stored license.\<close>

type_synonym client = "store \<Rightarrow> (client_error + token_state) \<times> store"

definition refresh_license_state ::
  "datetime \<Rightarrow> client \<Rightarrow> proc \<times> store \<Rightarrow> (client_error + license_state) \<times> proc \<times> store" where
  "refresh_license_state now client_validate = (\<lambda>(p, d0).
     (case client_validate d0 of
        (Inr ts, d) \<Rightarrow> (let (p1, d1) = set_license_state now ts (p, d); (s, p2) = get_license_state now p1
                   in (Inr s, p2, d1))
      | (Inl (LicenseRejected r), d) \<Rightarrow> (let (p1, d1) = mark_license_rejected now r (p, d)
                   in (Inl (LicenseRejected r), p1, d1))
      | (Inl (LicenseServerUnreachable r), d) \<Rightarrow>
          (let (p1, d1) = mark_license_server_offline now r (p, d); (s, p2) = get_license_state now p1
           in (Inr s, p2, d1))
      | (Inl (LicenseNotActivated r), d) \<Rightarrow>
          (let p1 = p\<lparr> lstate := (clear_entitlement ((lstate p)\<lparr> valid := False, offline := False \<rparr>))
                        \<lparr> message := Not_activated r \<rparr> \<rparr>;
               (s, p2) = get_license_state now p1
           in (Inr s, p2, d))
      | (Inl (HTTPError status), d) \<Rightarrow>
          (Inl (HTTPError status),
           p\<lparr> lstate := (lstate p)\<lparr> valid := False, offline := False, message := Validation_rejected status \<rparr> \<rparr>, d)))"

text \<open>
  \<^verbatim>\<open>sync_with_storage\<close>: \<open>tick\<close> is \<^verbatim>\<open>time.monotonic()\<close>. An exception of the refresh is
  logged; what it did to the state stays.
\<close>

definition sync_with_storage :: "datetime \<Rightarrow> int \<Rightarrow> client \<Rightarrow> proc \<times> store \<Rightarrow> proc \<times> store" where
  "sync_with_storage now tick client_validate = (\<lambda>(p, d).
     if \<not> state_cache p \<or> \<not> sync_client p then (p, d)
     else if valid (lstate p) \<and> (\<exists>l \<in> set_option (last_sync p). tick - l < SYNC_INTERVAL) then (p, d)
     else (let p1 = p\<lparr> last_sync := Some tick \<rparr> in
       if license_file_stamp d = license_stamp p \<and> state_file_stamp d = state_stamp p then (p1, d)
       else (let changed = (license_file_stamp d \<noteq> license_stamp p);
                 p2 = p1\<lparr> license_stamp := license_file_stamp d, state_stamp := state_file_stamp d \<rparr> in
         if changed \<and> license_file_stamp d = None
         then (no_license ''No license is activated on this machine.'' p2, d)
         else if changed \<and> is_offline d then snd (refresh_license_state now client_validate (p2, d))
         else (adopt_cached_answer p2 d, d))))"

section \<open>What each operation changes\<close>

lemma seen_now_simps [simp]:
  "lstate (seen_now t p) = lstate p" "signed_token (seen_now t p) = signed_token p"
  "state_cache (seen_now t p) = state_cache p" "token_verifier (seen_now t p) = token_verifier p"
  "cache_enabled (seen_now t p) = cache_enabled p"
  "max_seen (seen_now t p) = Some (case max_seen p of None \<Rightarrow> t | Some m \<Rightarrow> max m t)"
  by (auto simp: seen_now_def split: option.splits)

lemma note_last_seen_simps [simp]:
  "lstate (note_last_seen t p) = lstate p" "signed_token (note_last_seen t p) = signed_token p"
  "token_verifier (note_last_seen t p) = token_verifier p" "state_cache (note_last_seen t p) = state_cache p"
  "cache_enabled (note_last_seen t p) = cache_enabled p"
  by (auto simp: note_last_seen_def split: option.splits)

lemma persist_state_fst [simp]:
  "lstate (fst (persist_state t x)) = lstate (fst x)" "signed_token (fst (persist_state t x)) = signed_token (fst x)"
  "token_verifier (fst (persist_state t x)) = token_verifier (fst x)"
  "state_cache (fst (persist_state t x)) = state_cache (fst x)"
  "cache_enabled (fst (persist_state t x)) = cache_enabled (fst x)"
  by (auto simp: persist_state_def Let_def split: prod.splits)

lemma get_license_state_snd [simp]: "snd (get_license_state now p) = seen_now now p"
  by (simp add: get_license_state_def Let_def)

text \<open>The exact condition under which \<^verbatim>\<open>get_license_state\<close> reports a valid license.\<close>

definition clock_ok :: "datetime \<Rightarrow> proc \<Rightarrow> bool" where
  "clock_ok now p = ((\<forall>m. max_seen p = Some m \<longrightarrow> m - CLOCK_ROLLBACK_TOLERANCE \<le> now) \<and>
     (\<forall>i. issued_at (lstate p) = Some i \<longrightarrow> i - CLOCK_ROLLBACK_TOLERANCE \<le> now))"

definition reference :: "license_state \<Rightarrow> datetime option" where
  "reference s = (case issued_at s of None \<Rightarrow> last_validated_at s | Some i \<Rightarrow> Some i)"

definition in_term :: "datetime \<Rightarrow> license_state \<Rightarrow> bool" where
  "in_term now s = ((\<forall>e. expires_at s = Some e \<longrightarrow> now \<le> e) \<and>
     (if offline_license s then (\<exists>u. offline_until s = Some u \<and> now \<le> u)
      else (\<forall>r. reference s = Some r \<longrightarrow> now \<le> r + OFFLINE_GRACE + days PILOT_FALLBACK_DAYS)))"

lemma get_license_state_valid_iff:
  "valid (fst (get_license_state now p)) \<longleftrightarrow> valid (lstate p) \<and> clock_ok now p \<and> in_term now (lstate p)"
  by (cases "max_seen p"; cases "issued_at (lstate p)"; cases "expires_at (lstate p)";
      cases "offline_until (lstate p)"; cases "last_validated_at (lstate p)")
    (auto simp: get_license_state_def clock_ok_def in_term_def reference_def Let_def
      OFFLINE_GRACE_def PILOT_FALLBACK_DAYS_def timedelta_defs)


section \<open>Where a valid license comes from\<close>

text \<open>
  A process's state is backed by a good answer when, if it is valid, all its entitlement
  fields are those of that answer (copying the answer again changes nothing), and it
  keeps the answer's token and issue time.
\<close>

definition backed_by :: "token_state \<Rightarrow> proc \<Rightarrow> bool" where
  "backed_by ts p = (ts_valid ts \<and> apply_answer ts (lstate p) = lstate p \<and>
     signed_token p = ts_signed_token ts \<and> issued_at (lstate p) = utc_from_epoch (ts_issued_at ts) \<and>
     last_validated_at (lstate p) \<noteq> None)"

definition backed ::
  "(token_state \<Rightarrow> bool) \<Rightarrow> (store \<Rightarrow> json \<Rightarrow> token_error + token_state) \<Rightarrow> proc \<Rightarrow> bool" where
  "backed good verifier p = ((valid (lstate p) \<longrightarrow> (\<exists>ts. good ts \<and> backed_by ts p)) \<and>
     (\<forall>v. token_verifier p = Some v \<longrightarrow> v = verifier))"

lemma apply_answer_again [simp]:
  "apply_answer ts (apply_answer ts s) = apply_answer ts s"
  "apply_answer ts (apply_answer ts s \<lparr>message := m, last_validated_at := l, issued_at := i, offline := b\<rparr>) =
   apply_answer ts s \<lparr>message := m, last_validated_at := l, issued_at := i, offline := b\<rparr>"
  "valid (apply_answer ts s) = ts_valid ts"
  by (simp_all add: apply_answer_def)

lemma backed_invalid: "\<not> valid (lstate p) \<Longrightarrow> token_verifier p = token_verifier q \<Longrightarrow> backed g v q \<Longrightarrow> backed g v p"
  by (simp add: backed_def)

lemma backed_same:
  "lstate p = lstate q \<Longrightarrow> signed_token p = signed_token q \<Longrightarrow> token_verifier p = token_verifier q \<Longrightarrow>
     backed g v q \<Longrightarrow> backed g v p"
  by (simp add: backed_def backed_by_def)

text \<open>What taking over a cached answer, in a running or in a starting process, amounts to.\<close>

definition take_answer :: "json \<Rightarrow> token_state \<Rightarrow> datetime \<Rightarrow> license_message \<Rightarrow> bool \<Rightarrow> proc \<Rightarrow> proc" where
  "take_answer token ts issued m off p = p\<lparr>
     lstate := (apply_answer ts (lstate p))\<lparr> message := m, last_validated_at := Some issued,
       issued_at := Some issued, offline := off \<rparr>, signed_token := token \<rparr>"

lemma adopt_cases:
  obtains "adopt_cached_answer p d = p"
  | v c ts issued where "token_verifier p = Some v" "state_file d = Some c"
      "v d (c_signed_token c) = Inr ts" "utc_from_epoch (ts_issued_at ts) = Some issued"
      "\<forall>k. known_since (lstate p) = Some k \<longrightarrow> k < issued"
      "adopt_cached_answer p d = take_answer (c_signed_token c) ts issued (Answer (ts_message ts)) False p"
proof (cases "adopt_cached_answer p d = p")
  case False
  obtain v where v: "token_verifier p = Some v"
    using False by (cases "token_verifier p") (auto simp: adopt_cached_answer_def)
  obtain c where c: "state_file d = Some c"
    using False v by (cases "state_file d") (auto simp: adopt_cached_answer_def)
  obtain ts where ts: "v d (c_signed_token c) = Inr ts"
    using False v c by (cases "v d (c_signed_token c)") (auto simp: adopt_cached_answer_def Let_def split: if_splits)
  obtain i where i: "utc_from_epoch (ts_issued_at ts) = Some i"
    using False v c ts by (cases "utc_from_epoch (ts_issued_at ts)")
      (auto simp: adopt_cached_answer_def Let_def split: if_splits)
  have "\<forall>k. known_since (lstate p) = Some k \<longrightarrow> k < i"
    "adopt_cached_answer p d = take_answer (c_signed_token c) ts i (Answer (ts_message ts)) False p"
    using False v c ts i by (auto simp: adopt_cached_answer_def take_answer_def Let_def split: if_splits)
  with v c ts i show ?thesis by (rule that(2))
qed (rule that(1))

lemma restore_cases:
  obtains (none) "snd (restore_cached_state now p d) = False"
      "lstate (fst (restore_cached_state now p d)) = lstate p"
      "signed_token (fst (restore_cached_state now p d)) = signed_token p"
      "token_verifier (fst (restore_cached_state now p d)) = token_verifier p"
  | (taken) v c ts issued where "snd (restore_cached_state now p d) = True"
      "token_verifier p = Some v" "state_file d = Some c" "truthy (c_signed_token c)"
      "v d (c_signed_token c) = Inr ts" "utc_from_epoch (ts_issued_at ts) = Some issued"
      "issued - CLOCK_ROLLBACK_TOLERANCE \<le> now"
      "\<forall>t. c_last_seen c = Some t \<longrightarrow> t - CLOCK_ROLLBACK_TOLERANCE \<le> now"
      "fst (restore_cached_state now p d) =
         take_answer (c_signed_token c) ts issued (Cached_ago (now - issued)) True (note_last_seen (c_last_seen c) p)"
proof (cases "snd (restore_cached_state now p d)")
  case True
  obtain c where c: "state_file d = Some c"
    using True by (cases "state_file d") (auto simp: restore_cached_state_def split: if_splits)
  obtain v where v: "token_verifier p = Some v"
    using True c by (cases "token_verifier p") (auto simp: restore_cached_state_def Let_def split: if_splits)
  obtain ts where ts: "v d (c_signed_token c) = Inr ts"
    using True v c by (cases "v d (c_signed_token c)") (auto simp: restore_cached_state_def Let_def split: if_splits)
  obtain i where i: "utc_from_epoch (ts_issued_at ts) = Some i"
    using True v c ts
    by (cases "utc_from_epoch (ts_issued_at ts)") (auto simp: restore_cached_state_def Let_def split: if_splits)
  note unfold = restore_cached_state_def Let_def v c ts i
  have "truthy (c_signed_token c)" "i - CLOCK_ROLLBACK_TOLERANCE \<le> now"
    "\<forall>t. c_last_seen c = Some t \<longrightarrow> t - CLOCK_ROLLBACK_TOLERANCE \<le> now"
    "fst (restore_cached_state now p d) =
       take_answer (c_signed_token c) ts i (Cached_ago (now - i)) True (note_last_seen (c_last_seen c) p)"
    using True by (auto simp: unfold take_answer_def split: if_splits)
  with True v c ts i show ?thesis by (intro taken [of v c ts i]) simp_all
next
  case False
  then show ?thesis
    by (intro none) (auto simp: restore_cached_state_def Let_def split: option.splits sum.splits if_splits)
qed

locale license_source =
  fixes good :: "token_state \<Rightarrow> bool" and client_validate :: client
    and verifier :: "store \<Rightarrow> json \<Rightarrow> token_error + token_state"
  assumes validate_good: "client_validate d = (Inr ts, d') \<Longrightarrow> good ts"
    and verifier_good: "verifier d token = Inr ts \<Longrightarrow> good ts \<and> ts_signed_token ts = token"
begin

lemma backed_answer:
  assumes "backed good verifier p" "good ts"
    and "lstate q = (apply_answer ts (lstate p))\<lparr> message := m, last_validated_at := Some l,
      issued_at := utc_from_epoch (ts_issued_at ts), offline := b \<rparr>"
    and "signed_token q = ts_signed_token ts" "token_verifier q = token_verifier p"
  shows "backed good verifier q"
  using assms by (auto simp: backed_def backed_by_def apply_answer_def)

lemma backed_get: "backed good verifier p \<Longrightarrow> backed good verifier (snd (get_license_state now p))"
  by (erule backed_same [rotated -1]) simp_all

lemma backed_set:
  assumes "backed good verifier p" "good ts"
  shows "backed good verifier (fst (set_license_state now ts (p, d)))"
  by (rule backed_answer [OF assms]) (simp_all add: set_license_state_def)

lemma backed_offline:
  assumes "backed good verifier p"
  shows "backed good verifier (fst (mark_license_server_offline now r (p, d)))"
proof -
  have "backed_by ts p \<Longrightarrow> backed_by ts (p\<lparr>lstate := (lstate p)\<lparr>offline := b, message := m\<rparr>\<rparr>)" for ts b m
    by (cases "lstate p") (auto simp: backed_by_def apply_answer_def)
  with assms have "backed good verifier (p\<lparr>lstate := (lstate p)\<lparr>offline := b, message := m\<rparr>\<rparr>)" for b m
    unfolding backed_def by auto
  then show ?thesis by (rule backed_same [rotated -1]) (simp_all add: mark_license_server_offline_def)
qed

lemma backed_rejected:
  "backed good verifier p \<Longrightarrow> backed good verifier (fst (mark_license_rejected now r (p, d)))"
  by (erule backed_invalid [rotated -1]) (simp_all add: mark_license_rejected_def clear_entitlement_def)

lemma backed_take:
  assumes "backed good verifier p" "token_verifier p = Some v" "v d token = Inr ts"
    "utc_from_epoch (ts_issued_at ts) = Some issued" "lstate q = lstate p" "token_verifier q = token_verifier p"
  shows "backed good verifier (take_answer token ts issued m off q)"
proof -
  have "good ts \<and> ts_signed_token ts = token"
    using assms(1,2,3) verifier_good by (auto simp: backed_def)
  with assms show ?thesis
    by (intro backed_answer [OF assms(1), of ts]) (auto simp: take_answer_def)
qed

lemma backed_adopt: "backed good verifier p \<Longrightarrow> backed good verifier (adopt_cached_answer p d)"
  by (rule adopt_cases [of p d]) (auto intro: backed_take)

lemma backed_restore:
  assumes "backed good verifier p"
  shows "backed good verifier (fst (restore_cached_state now p d))"
proof (cases rule: restore_cases [of now p d])
  case none
  with assms show ?thesis by (intro backed_same [OF _ _ _ assms])
next
  case (taken v c ts issued)
  with assms show ?thesis by (auto intro: backed_take)
qed

lemma backed_refresh:
  assumes "backed good verifier p" "refresh_license_state now client_validate (p, d) = (r, q, d')"
  shows "backed good verifier q"
proof -
  obtain a d1 where a: "client_validate d = (a, d1)" by (cases "client_validate d")
  have split: "(case x of (p1, d1) \<Rightarrow> (Inr s', snd (get_license_state now p1), d1)) = (r, q, d') \<Longrightarrow>
      q = seen_now now (fst x)" for x :: "proc \<times> store" and s'
    by (auto split: prod.splits)
  have get: "fst (case get_license_state now p1 of (s, p2) \<Rightarrow> (f s, p2, d2)) =
      f (fst (get_license_state now p1))" "fst (snd (case get_license_state now p1 of (s, p2) \<Rightarrow> (f s, p2, d2))) =
      seen_now now p1" for p1 d2 and f :: "license_state \<Rightarrow> client_error + license_state"
    by (auto simp: get_license_state_def Let_def)
  have q: "q = fst (snd (refresh_license_state now client_validate (p, d)))" using assms(2) by simp
  have same: "backed good verifier (seen_now now p1)" if "backed good verifier p1" for p1
    using that by (rule backed_same [rotated -1]) simp_all
  show ?thesis
  proof (cases a)
    case (Inr ts)
    with a have "q = seen_now now (fst (set_license_state now ts (p, d1)))"
      by (simp add: q refresh_license_state_def get split: prod.split)
    then show ?thesis using same backed_set assms(1) validate_good a Inr by simp
  next
    case (Inl e)
    show ?thesis
    proof (cases e)
      case (LicenseRejected x)
      with a Inl have "q = fst (mark_license_rejected now x (p, d1))"
        by (simp add: q refresh_license_state_def split: prod.split)
      then show ?thesis using backed_rejected assms(1) by simp
    next
      case (LicenseServerUnreachable x)
      with a Inl have "q = seen_now now (fst (mark_license_server_offline now x (p, d1)))"
        by (simp add: q refresh_license_state_def get split: prod.split)
      then show ?thesis using same backed_offline assms(1) by simp
    next
      case (LicenseNotActivated x)
      then show ?thesis using a Inl assms(1)
        by (intro backed_invalid [OF _ _ assms(1)])
          (simp_all add: q refresh_license_state_def get Let_def clear_entitlement_def)
    next
      case (HTTPError x)
      then show ?thesis using a Inl
        by (intro backed_invalid [OF _ _ assms(1)]) (simp_all add: q refresh_license_state_def)
    qed
  qed
qed

lemma backed_sync:
  assumes "backed good verifier p"
  shows "backed good verifier (fst (sync_with_storage now tick client_validate (p, d)))"
proof -
  let ?p2 = "p\<lparr> last_sync := Some tick, license_stamp := license_file_stamp d, state_stamp := state_file_stamp d \<rparr>"
  have p2: "backed good verifier ?p2" "backed good verifier (p\<lparr> last_sync := Some tick \<rparr>)"
    by (rule backed_same [OF _ _ _ assms]; simp)+
  have "backed good verifier (no_license x ?p2)" for x
    by (rule backed_invalid [OF _ _ assms]) (simp_all add: no_license_def clear_entitlement_def)
  moreover have "backed good verifier (fst (snd (refresh_license_state now client_validate (?p2, d))))"
    using backed_refresh [OF p2(1)] by (metis prod.collapse)
  ultimately show ?thesis
    using assms p2 backed_adopt [OF p2(1)] by (auto simp: sync_with_storage_def Let_def)
qed

end

end
