(* ===== verification/License_System.thy ===== *)
theory License_System
  imports License_State
begin

text \<open>
  The license across worker processes: the request gate of
  \<^verbatim>\<open>app/middleware/license_middleware.py\<close> and the runs of the system. Any number of workers
  share one storage; each step is one operation of one worker, or anything at all
  happening to the files (another program, an administrator, an attacker).

  Shown: a protected request is served only on the strength of a token the license server
  signed for this machine, within its windows, whatever happened to the files; the three
  offline windows; restarts keep the windows and rejections; a clock set back is refused.
\<close>

section \<open>The request gate\<close>

datatype gate = Call_next | Unreachable_503 license_message | Forbidden_403 license_message

definition PASSTHROUGH_PATHS :: "string list" where
  "PASSTHROUGH_PATHS = [''/auth/login'', ''/health'', ''/'', ''/api/license/activate'', ''/api/license/status'',
     ''/api/license/offline/request'', ''/api/license/offline/install'']"

definition dispatch :: "datetime \<Rightarrow> int \<Rightarrow> client \<Rightarrow> string \<Rightarrow> proc \<times> store \<Rightarrow> gate \<times> proc \<times> store" where
  "dispatch now tick client_validate path = (\<lambda>(p, d).
     if path \<in> set PASSTHROUGH_PATHS then (Call_next, p, d)
     else if \<not> prefix ''/api/'' path then (Call_next, p, d)
     else (let (p1, d1) = sync_with_storage now tick client_validate (p, d); (s, p2) = get_license_state now p1 in
       if \<not> valid s
       then (if offline s then (Unreachable_503 (message s), p2, d1) else (Forbidden_403 (message s), p2, d1))
       else (Call_next, p2, d1)))"

section \<open>Runs\<close>

record system =
  workers :: "nat \<Rightarrow> proc"
  disk :: store

text \<open>One operation of a running worker on its own state and the shared storage.\<close>

inductive worker_step ::
  "'k token_env \<Rightarrow> (string \<times> string) list \<Rightarrow> string \<Rightarrow> proc \<times> store \<Rightarrow> proc \<times> store \<Rightarrow> bool"
  for E trusted fp where
  refresh: "refresh_license_state now (validate E trusted fp r1 r2) x = (res, p, d) \<Longrightarrow>
    worker_step E trusted fp x (p, d)"
| request: "dispatch now tick (validate E trusted fp r1 r2) path x = (g, p, d) \<Longrightarrow>
    worker_step E trusted fp x (p, d)"
| read: "get_license_state now (fst x) = (s, p) \<Longrightarrow> worker_step E trusted fp x (p, snd x)"
| heartbeat_outage: "worker_step E trusted fp x (mark_license_server_offline now r x)"
| heartbeat_rejected: "worker_step E trusted fp x (mark_license_rejected now r x)"

inductive sys_step :: "'k token_env \<Rightarrow> (string \<times> string) list \<Rightarrow> string \<Rightarrow> system \<Rightarrow> system \<Rightarrow> bool"
  for E trusted fp where
  start: "p0 = attach_state_cache (Some (verify_cached_token E trusted fp)) True (initial_proc enabled) (disk s) \<Longrightarrow>
    sys_step E trusted fp s (s\<lparr> workers := (workers s)(i := fst (restore_cached_state now p0 (disk s))) \<rparr>)"
| work: "worker_step E trusted fp (workers s i, disk s) (p, d) \<Longrightarrow>
    sys_step E trusted fp s (s\<lparr> workers := (workers s)(i := p), disk := d \<rparr>)"
| files: "sys_step E trusted fp s (s\<lparr> disk := d \<rparr>)"

definition sys_init :: "system \<Rightarrow> bool" where
  "sys_init s = (\<forall>i. \<exists>enabled. workers s i = initial_proc enabled)"

interpretation lic: license_source "signed_answer E trusted fp" "validate E trusted fp r1 r2"
    "verify_cached_token E trusted fp" for E trusted fp r1 r2
  by unfold_locales (auto dest: validate_signed verify_cached_token_signed)

definition sys_backed :: "'k token_env \<Rightarrow> (string \<times> string) list \<Rightarrow> string \<Rightarrow> system \<Rightarrow> bool" where
  "sys_backed E trusted fp s =
     (\<forall>i. backed (signed_answer E trusted fp) (verify_cached_token E trusted fp) (workers s i))"

lemma backed_fresh:
  "backed g v (initial_proc enabled)" "backed g v (attach_state_cache (Some v) True (initial_proc enabled) d)"
  by (simp_all add: backed_def initial_proc_def initial_state_def attach_state_cache_def)

lemma dispatch_proc:
  "fst (snd (dispatch now tick V path (p, d))) =
     (if path \<in> set PASSTHROUGH_PATHS \<or> \<not> prefix ''/api/'' path then p
      else seen_now now (fst (sync_with_storage now tick V (p, d))))"
proof -
  obtain p1 d1 where a: "sync_with_storage now tick V (p, d) = (p1, d1)" by fastforce
  obtain s p2 where g: "get_license_state now p1 = (s, p2)" by fastforce
  then have "p2 = seen_now now p1" using get_license_state_snd [of now p1] by simp
  then show ?thesis by (simp add: dispatch_def a g)
qed

lemma dispatch_protected:
  assumes "path \<notin> set PASSTHROUGH_PATHS" "prefix ''/api/'' path"
  shows "fst (dispatch now tick V path (p, d)) =
    (let s = fst (get_license_state now (fst (sync_with_storage now tick V (p, d)))) in
     if valid s then Call_next else if offline s then Unreachable_503 (message s) else Forbidden_403 (message s))"
proof -
  obtain p1 d1 where a: "sync_with_storage now tick V (p, d) = (p1, d1)" by fastforce
  obtain s p2 where g: "get_license_state now p1 = (s, p2)" by fastforce
  show ?thesis using assms by (simp add: dispatch_def a g)
qed

lemma sys_backed_upd:
  "sys_backed E trusted fp s \<Longrightarrow> backed (signed_answer E trusted fp) (verify_cached_token E trusted fp) p \<Longrightarrow>
     sys_backed E trusted fp (s\<lparr> workers := (workers s)(i := p), disk := d \<rparr>)"
  by (simp add: sys_backed_def)

lemma worker_step_backed:
  assumes "worker_step E trusted fp x y"
    and w: "backed (signed_answer E trusted fp) (verify_cached_token E trusted fp) (fst x)"
  shows "backed (signed_answer E trusted fp) (verify_cached_token E trusted fp) (fst y)"
  using assms(1)
proof (cases rule: worker_step.cases)
  case (refresh now r1 r2 res p d)
  then show ?thesis using lic.backed_refresh [OF w, of now r1 r2 "snd x"] by auto
next
  case (request now tick r1 r2 path g p d)
  then have p: "p = fst (snd (dispatch now tick (validate E trusted fp r1 r2) path (fst x, snd x)))" by simp
  have "backed (signed_answer E trusted fp) (verify_cached_token E trusted fp) (seen_now now q)"
    if "backed (signed_answer E trusted fp) (verify_cached_token E trusted fp) q" for q
    using that by (rule backed_same [rotated -1]) simp_all
  then have "backed (signed_answer E trusted fp) (verify_cached_token E trusted fp) p"
    unfolding p dispatch_proc using w lic.backed_sync [OF w] by (simp del: prod.collapse)
  then show ?thesis using request(1) by simp
next
  case (read now s p)
  then show ?thesis using lic.backed_get [OF w, of now] by simp
next
  case (heartbeat_outage now r)
  then show ?thesis using lic.backed_offline [OF w, of now r "snd x"] by simp
next
  case (heartbeat_rejected now r)
  then show ?thesis using lic.backed_rejected [OF w, of now r "snd x"] by simp
qed

interpretation sys: invariant sys_init "sys_step E trusted fp" "sys_backed E trusted fp" for E trusted fp
proof
  fix s assume "sys_init s"
  then have "\<exists>e. workers s i = initial_proc e" for i by (simp add: sys_init_def)
  then show "sys_backed E trusted fp s" unfolding sys_backed_def by (metis backed_fresh(1))
next
  fix s t assume inv: "sys_backed E trusted fp s" and "sys_step E trusted fp s t"
  have w: "backed (signed_answer E trusted fp) (verify_cached_token E trusted fp) (workers s i)" for i
    using inv by (simp add: sys_backed_def)
  from \<open>sys_step E trusted fp s t\<close> show "sys_backed E trusted fp t"
  proof (cases rule: sys_step.cases)
    case (start p0 enabled i now)
    have "backed (signed_answer E trusted fp) (verify_cached_token E trusted fp)
        (fst (restore_cached_state now p0 (disk s)))"
      unfolding start(2) by (rule lic.backed_restore [OF backed_fresh(2)])
    then show ?thesis using inv start(1) by (simp add: sys_backed_def)
  next
    case (work i p d)
    then show ?thesis using sys_backed_upd [OF inv] worker_step_backed [OF work(2)] w by simp
  next
    case (files d)
    then show ?thesis using inv by (simp add: sys_backed_def)
  qed
qed

section \<open>Properties\<close>

text \<open>What a valid, backed state grants is what the signed claims grant.\<close>

definition claims_in_force :: "datetime \<Rightarrow> claims \<Rightarrow> bool" where
  "claims_in_force now claims =
     (truthy (jget claims ''valid'') \<and>
      (\<forall>e. utc_from_epoch (jget claims ''exp'') = Some e \<longrightarrow> now \<le> e) \<and>
      (\<forall>i. utc_from_epoch (jget claims ''iat'') = Some i \<longrightarrow> i - CLOCK_ROLLBACK_TOLERANCE \<le> now) \<and>
      (if jget claims ''typ'' = JStr ''offline''
       then (\<exists>u. utc_from_epoch (jget claims ''offline_until'') = Some u \<and> now \<le> u)
       else (\<forall>i. utc_from_epoch (jget claims ''iat'') = Some i \<longrightarrow>
              now \<le> i + OFFLINE_GRACE + days PILOT_FALLBACK_DAYS)))"

lemma backed_in_force:
  assumes "backed (signed_answer E trusted fp) v p" "valid (fst (get_license_state now p))"
  shows "\<exists>t claims. genuine E trusted t claims \<and> jget claims ''fp'' = JStr fp \<and> signed_token p = JStr t \<and>
    claims_in_force now claims \<and> max_assets (lstate p) = max_assets_of (jget claims ''limits'')"
proof -
  have v: "valid (lstate p)" "clock_ok now p" "in_term now (lstate p)"
    using assms(2) by (simp_all add: get_license_state_valid_iff)
  then obtain ts where ts: "signed_answer E trusted fp ts" "backed_by ts p"
    using assms(1) by (auto simp: backed_def)
  then obtain t claims where c: "ts = claims_to_state claims (JStr t)" "genuine E trusted t claims"
      "jget claims ''fp'' = JStr fp" by (auto simp: signed_answer_def)
  define l where "l = lstate p"
  have l: "l = apply_answer ts l" "issued_at l = utc_from_epoch (ts_issued_at ts)"
    using ts(2) by (simp_all add: backed_by_def l_def)
  have f: "expires_at l = utc_from_epoch (jget claims ''exp'')" "offline_license l = (jget claims ''typ'' = JStr ''offline'')"
    "offline_until l = utc_from_epoch (jget claims ''offline_until'')" "issued_at l = utc_from_epoch (jget claims ''iat'')"
    "max_assets l = max_assets_of (jget claims ''limits'')"
    using l(2) by (subst l(1); simp add: apply_answer_def c(1) claims_to_state_def)+
  have "truthy (jget claims ''valid'')" "signed_token p = JStr t"
    using ts(2) by (simp_all add: backed_by_def c(1) claims_to_state_def)
  moreover have "claims_in_force now claims"
    using v f calculation(1) by (auto simp: claims_in_force_def clock_ok_def in_term_def reference_def l_def [symmetric])
  ultimately show ?thesis using c f(5) by (auto simp: l_def)
qed


text \<open>
  C1. Whatever the workers did before and whatever was done to the license files, a
  request to a protected path is let through only if the license server signed, for this
  machine, claims that say valid and are in force at this moment: not expired, not used
  before their issue time (the clock), within the offline windows, or within the end date
  of an offline license file.
\<close>

theorem served_only_when_signed:
  assumes "reach sys_init (sys_step E trusted fp) s"
    and "path \<notin> set PASSTHROUGH_PATHS" "prefix ''/api/'' path"
    and "fst (dispatch now tick (validate E trusted fp r1 r2) path (workers s i, disk s)) = Call_next"
  shows "\<exists>t claims. genuine E trusted t claims \<and> jget claims ''fp'' = JStr fp \<and> claims_in_force now claims"
proof -
  let ?p = "fst (sync_with_storage now tick (validate E trusted fp r1 r2) (workers s i, disk s))"
  have "sys_backed E trusted fp s" using assms(1) by (rule sys.reach_inv)
  then have "backed (signed_answer E trusted fp) (verify_cached_token E trusted fp) ?p"
    by (auto simp: sys_backed_def intro: lic.backed_sync)
  moreover have "valid (fst (get_license_state now ?p))"
    using assms(4) unfolding dispatch_protected [OF assms(2,3)] Let_def by (auto split: if_splits)
  ultimately show ?thesis using backed_in_force by blast
qed

definition demo_disk :: store where
  "demo_disk = \<lparr> license_file = Some \<lparr> license_key = ''AAAA-BBBB-CCCC-DDDD'', organization_token = JStr ''o'',
       ld_fingerprint = ''fp1'', mode_offline = False, offline_token = JNull \<rparr>,
     license_file_stamp = Some 0,
     state_file = Some \<lparr> c_signed_token = JStr ''body.sign'', c_last_seen = None \<rparr>,
     state_file_stamp = Some 0, writable = True \<rparr>"

definition demo_start :: "datetime \<Rightarrow> proc" where
  "demo_start now = fst (restore_cached_state now
     (attach_state_cache (Some (verify_cached_token demo_env TRUSTED_LICENSE_KEYS ''fp1'')) True
        (initial_proc True) demo_disk) demo_disk)"

definition demo_system :: "datetime \<Rightarrow> system" where
  "demo_system now = \<lparr> workers = (\<lambda>_. initial_proc True)(0 := demo_start now), disk = demo_disk \<rparr>"

lemma demo_reach: "reach sys_init (sys_step demo_env TRUSTED_LICENSE_KEYS ''fp1'') (demo_system now)"
proof -
  let ?s = "\<lparr> workers = (\<lambda>_. initial_proc True), disk = demo_disk \<rparr>"
  have "reach sys_init (sys_step demo_env TRUSTED_LICENSE_KEYS ''fp1'') ?s"
    by (rule reach_init) (auto simp: sys_init_def)
  moreover have "sys_step demo_env TRUSTED_LICENSE_KEYS ''fp1'' ?s (demo_system now)"
    using sys_step.start [where s = ?s and i = 0 and now = now and enabled = True, OF refl]
    by (simp add: demo_system_def demo_start_def)
  ultimately show ?thesis by (rule reach_step)
qed

theorem served_only_when_signed_witness:
  "fst (dispatch (seconds 1700003600) 0 (validate demo_env TRUSTED_LICENSE_KEYS ''fp1'' ([], No_answer []) ([], No_answer []))
      ''/api/assets'' (workers (demo_system (seconds 1700000060)) 0, disk (demo_system (seconds 1700000060)))) = Call_next \<and>
   (\<exists>t claims. genuine demo_env TRUSTED_LICENSE_KEYS t claims \<and> jget claims ''fp'' = JStr ''fp1'' \<and>
      claims_in_force (seconds 1700003600) claims)"
proof -
  have "fst (dispatch (seconds 1700003600) 0 (validate demo_env TRUSTED_LICENSE_KEYS ''fp1'' ([], No_answer []) ([], No_answer []))
      ''/api/assets'' (demo_start (seconds 1700000060), demo_disk)) = Call_next" by code_simp
  then have served: "fst (dispatch (seconds 1700003600) 0
      (validate demo_env TRUSTED_LICENSE_KEYS ''fp1'' ([], No_answer []) ([], No_answer [])) ''/api/assets''
      (workers (demo_system (seconds 1700000060)) 0, disk (demo_system (seconds 1700000060)))) = Call_next"
    by (simp add: demo_system_def)
  moreover have "''/api/assets'' \<notin> set PASSTHROUGH_PATHS" "prefix ''/api/'' ''/api/assets''" by code_simp+
  ultimately show ?thesis using served_only_when_signed [OF demo_reach _ _ served] by simp
qed

text \<open>
  The offline windows of a valid online license, with the clock running forward and
  the license's own term not over: until 48 hours after the signed issue time the plan is
  served unchanged; for 30 days more the license stays valid as a pilot of at most 5
  assets and never more than the plan's; after that it is not valid.
\<close>

theorem offline_windows:
  assumes "valid (lstate p)" "\<not> offline_license (lstate p)" "issued_at (lstate p) = Some r" "r \<le> now"
    and "\<forall>m. max_seen p = Some m \<longrightarrow> m \<le> now" "\<forall>e. expires_at (lstate p) = Some e \<longrightarrow> now \<le> e"
  defines "s \<equiv> fst (get_license_state now p)"
  shows "(now \<le> r + hours 48 \<longrightarrow> valid s \<and> max_assets s = max_assets (lstate p) \<and> plan_code s = plan_code (lstate p)
            \<and> is_pilot_mode s = is_pilot_mode (lstate p) \<and> \<not> offline_pilot s) \<and>
    (r + hours 48 < now \<and> now \<le> r + hours 48 + days 30 \<longrightarrow> valid s \<and> is_pilot_mode s \<and> offline_pilot s \<and>
       offline_pilot_until s = Some (r + hours 48 + days 30) \<and>
       (\<exists>n \<le> 5. max_assets s = Some n \<and> (\<forall>k. max_assets (lstate p) = Some k \<longrightarrow> n = min k 5))) \<and>
    (r + hours 48 + days 30 < now \<longrightarrow> \<not> valid s)"
proof -
  have c: "\<not> (\<exists>m \<in> set_option (max_seen p). now < m - CLOCK_ROLLBACK_TOLERANCE)"
    "\<not> now < r - CLOCK_ROLLBACK_TOLERANCE" "\<not> (\<exists>e \<in> set_option (expires_at (lstate p)). e < now)"
    using assms(4-6) by (auto simp: CLOCK_ROLLBACK_TOLERANCE_def timedelta_defs)
  have s: "s = (let current = (lstate p)\<lparr> offline_pilot := False, offline_pilot_until := None \<rparr> in
      if now - r \<le> OFFLINE_GRACE then current
      else (let fallback_until = r + OFFLINE_GRACE + days PILOT_FALLBACK_DAYS in
        if fallback_until < now then current\<lparr> valid := False, message := Not_reached_since r \<rparr>
        else current\<lparr> offline_pilot := True, offline_pilot_until := Some fallback_until, is_pilot_mode := True,
               max_assets := Some (case max_assets current of None \<Rightarrow> PILOT_FALLBACK_ASSETS
                  | Some n \<Rightarrow> min n PILOT_FALLBACK_ASSETS),
               message := Running_as_pilot (plan_name current) fallback_until \<rparr>))"
    using assms(1-3) c unfolding s_def get_license_state_def Let_def by simp
  show ?thesis unfolding s using assms(1)
    by (auto simp: Let_def OFFLINE_GRACE_def PILOT_FALLBACK_DAYS_def PILOT_FALLBACK_ASSETS_def timedelta_defs
        split: option.splits)
qed

theorem offline_windows_witness:
  "valid (fst (get_license_state (seconds 1700500000) (demo_start (seconds 1700000060)))) \<and>
   max_assets (fst (get_license_state (seconds 1700500000) (demo_start (seconds 1700000060)))) = Some 5 \<and>
   \<not> valid (fst (get_license_state (seconds 1703000000) (demo_start (seconds 1700000060))))"
proof -
  let ?p = "demo_start (seconds 1700000060)"
  have p: "valid (lstate ?p)" "\<not> offline_license (lstate ?p)" "issued_at (lstate ?p) = Some (seconds 1700000000)"
    "max_seen ?p = None" "expires_at (lstate ?p) = None" "max_assets (lstate ?p) = Some 250" by code_simp+
  note w = offline_windows [OF p(1,2,3), unfolded p(4-6)]
  show ?thesis using w [of "seconds 1700500000"] w [of "seconds 1703000000"]
    by (simp add: timedelta_defs)
qed


subsection \<open>The latest time seen\<close>

definition seen_at_least :: "datetime \<Rightarrow> proc \<Rightarrow> bool" where
  "seen_at_least t p = (\<exists>m. max_seen p = Some m \<and> t \<le> m)"

lemma seen_at_least_now [simp]:
  "seen_at_least t (seen_now now p) \<longleftrightarrow> seen_at_least t p \<or> t \<le> now"
  by (auto simp: seen_at_least_def split: option.splits)

lemma seen_at_least_upd [simp]:
  "seen_at_least t (p\<lparr> lstate := l \<rparr>) = seen_at_least t p"
  "seen_at_least t (p\<lparr> signed_token := k \<rparr>) = seen_at_least t p"
  "seen_at_least t (p\<lparr> last_sync := y \<rparr>) = seen_at_least t p"
  "seen_at_least t (p\<lparr> license_stamp := a \<rparr>) = seen_at_least t p"
  "seen_at_least t (p\<lparr> state_stamp := a \<rparr>) = seen_at_least t p"
  by (simp_all add: seen_at_least_def)

lemma seen_persist: "seen_at_least t (fst x) \<Longrightarrow> seen_at_least t (fst (persist_state now x))"
  by (auto simp: persist_state_def Let_def split: prod.splits)

lemma seen_marks:
  "seen_at_least t p \<Longrightarrow> seen_at_least t (fst (set_license_state now ts (p, d)))"
  "seen_at_least t p \<Longrightarrow> seen_at_least t (fst (mark_license_server_offline now r (p, d)))"
  "seen_at_least t p \<Longrightarrow> seen_at_least t (fst (mark_license_rejected now r (p, d)))"
  by (simp_all add: set_license_state_def mark_license_server_offline_def mark_license_rejected_def seen_persist)

lemma seen_adopt: "seen_at_least t p \<Longrightarrow> seen_at_least t (adopt_cached_answer p d)"
  by (rule adopt_cases [of p d]) (auto simp: take_answer_def)

lemma get_pair: "(case get_license_state now p of (s, q) \<Rightarrow> f s q) =
    f (fst (get_license_state now p)) (seen_now now p)"
  by (metis (mono_tags, lifting) case_prod_beta get_license_state_snd)

lemma seen_refresh:
  assumes "seen_at_least t p"
  shows "seen_at_least t (fst (snd (refresh_license_state now V (p, d))))"
  using assms seen_marks [OF assms, of now _ "snd (V d)"]
  by (auto simp: refresh_license_state_def get_pair Let_def case_prod_beta split: sum.split client_error.split)

lemma seen_sync:
  assumes "seen_at_least t p"
  shows "seen_at_least t (fst (sync_with_storage now tick V (p, d)))"
proof -
  let ?p2 = "p\<lparr> last_sync := Some tick, license_stamp := license_file_stamp d, state_stamp := state_file_stamp d \<rparr>"
  have "seen_at_least t ?p2" using assms by simp
  then show ?thesis
    using assms seen_refresh [of t ?p2 now V d] seen_adopt [of t ?p2 d]
    by (auto simp: sync_with_storage_def Let_def no_license_def)
qed

lemma seen_worker_step:
  assumes "worker_step E trusted fp x y" "seen_at_least t (fst x)"
  shows "seen_at_least t (fst y)"
proof -
  obtain p d where x: "x = (p, d)" by (cases x)
  from assms(1) show ?thesis
  proof (cases rule: worker_step.cases)
    case (refresh now r1 r2 res q d')
    then show ?thesis using seen_refresh [of t p now _ d] assms(2) x by (metis fst_conv snd_conv)
  next
    case (request now tick r1 r2 path g q d')
    then have q: "q = fst (snd (dispatch now tick (validate E trusted fp r1 r2) path (p, d)))" using x by simp
    have "seen_at_least t q" unfolding q dispatch_proc using assms(2) x seen_sync [of t p] by simp
    then show ?thesis using request by simp
  next
    case (read now s q)
    then have "q = seen_now now p" using x get_license_state_snd [of now p] by simp
    then show ?thesis using read assms(2) x by simp
  next
    case (heartbeat_outage now r)
    then show ?thesis using assms(2) x seen_marks(2) by simp
  next
    case (heartbeat_rejected now r)
    then show ?thesis using assms(2) x seen_marks(3) by simp
  qed
qed

interpretation clock: invariant "\<lambda>x. seen_at_least since (fst x)" "worker_step E trusted fp"
    "\<lambda>x. seen_at_least since (fst x)" for since E trusted fp
  by unfold_locales (auto intro: seen_worker_step)

lemma persist_cache:
  "state_cache p \<Longrightarrow> cache_enabled p \<Longrightarrow> writable d \<Longrightarrow>
     state_file (snd (persist_state now (p, d))) =
       Some \<lparr> c_signed_token = (if valid (lstate p) then signed_token p else JNull),
              c_last_seen = max_seen (seen_now now p) \<rparr>"
  by (simp add: persist_state_def save_state_def Let_def)




subsection \<open>Verdicts and outages\<close>

lemma restore_no_token:
  assumes "state_file d = Some c" "\<not> truthy (c_signed_token c)"
  shows "snd (restore_cached_state now p d) = False \<and> lstate (fst (restore_cached_state now p d)) = lstate p"
  by (cases rule: restore_cases [of now p d]) (use assms in auto)

lemma rejected_store:
  assumes "state_cache p" "cache_enabled p" "writable d"
  shows "\<exists>seen. state_file (snd (mark_license_rejected now r (p, d))) =
    Some \<lparr> c_signed_token = JNull, c_last_seen = seen \<rparr>"
  using assms by (simp add: mark_license_rejected_def persist_cache clear_entitlement_def)

text \<open>
  A rejection by the license server holds across restarts and workers: it
  invalidates the worker's license at once, and when the cache could be written, no
  worker started afterwards restores a license from it and no running worker adopts one.
\<close>

theorem rejection_survives_restart:
  assumes "state_cache p" "cache_enabled p" "writable d"
  shows "\<not> valid (lstate (fst (mark_license_rejected now r (p, d)))) \<and>
    (let d' = snd (mark_license_rejected now r (p, d));
         (w, restored) = restore_cached_state later (attach_state_cache v c (initial_proc en) d') d'
     in \<not> restored \<and> \<not> valid (lstate w) \<and> adopt_cached_answer other d' = other)"
proof -
  let ?d = "snd (mark_license_rejected now r (p, d))"
  obtain seen where "state_file ?d = Some \<lparr> c_signed_token = JNull, c_last_seen = seen \<rparr>"
    using rejected_store [OF assms] by blast
  then have "adopt_cached_answer other ?d = other"
    "snd (restore_cached_state later q ?d) = False" "lstate (fst (restore_cached_state later q ?d)) = lstate q" for q
    using restore_no_token [of ?d _ later q]
    by (auto simp: adopt_cached_answer_def Let_def split: option.split)
  then show ?thesis
    by (auto simp: mark_license_rejected_def clear_entitlement_def attach_state_cache_def initial_proc_def
        initial_state_def case_prod_beta Let_def)
qed

theorem rejection_survives_restart_witness:
  "\<not> valid (lstate (fst (mark_license_rejected (seconds 1700003600) (Reason ''revoked'')
      (demo_start (seconds 1700000060), demo_disk)))) \<and>
   snd (restore_cached_state (seconds 1700003700)
     (attach_state_cache (Some (verify_cached_token demo_env TRUSTED_LICENSE_KEYS ''fp1'')) True (initial_proc True) demo_disk)
     (snd (mark_license_rejected (seconds 1700003600) (Reason ''revoked'') (demo_start (seconds 1700000060), demo_disk)))) = False"
proof -
  have "state_cache (demo_start (seconds 1700000060))" "cache_enabled (demo_start (seconds 1700000060))"
    "writable demo_disk" by code_simp+
  note r = rejection_survives_restart [OF this]
  have "snd (restore_cached_state (seconds 1700003700)
     (attach_state_cache (Some (verify_cached_token demo_env TRUSTED_LICENSE_KEYS ''fp1'')) True (initial_proc True) demo_disk)
     (snd (mark_license_rejected (seconds 1700003600) (Reason ''revoked'') (demo_start (seconds 1700000060), demo_disk)))) = False"
    by code_simp
  then show ?thesis using r by blast
qed

text \<open>
  A worker that was told no is not turned back on by an older answer: after a
  rejection at time \<open>t\<close>, a cached answer another worker left makes the license valid
  only if it verifies and was issued after \<open>t\<close>.
\<close>

theorem rejection_not_undone_by_older_answer:
  assumes "valid (lstate (adopt_cached_answer (fst (mark_license_rejected t r (p, d))) d2))"
  shows "\<exists>v c ts issued. token_verifier p = Some v \<and> state_file d2 = Some c \<and>
    v d2 (c_signed_token c) = Inr ts \<and> utc_from_epoch (ts_issued_at ts) = Some issued \<and> t < issued"
proof -
  let ?q = "fst (mark_license_rejected t r (p, d))"
  have q: "\<not> valid (lstate ?q)" "known_since (lstate ?q) = Some t" "token_verifier ?q = token_verifier p"
    by (simp_all add: mark_license_rejected_def clear_entitlement_def known_since_def)
  show ?thesis
  proof (cases rule: adopt_cases [of ?q d2])
    case 1
    with assms q show ?thesis by simp
  next
    case (2 v c ts issued)
    with q have "token_verifier p = Some v" "t < issued" by auto
    with 2 show ?thesis by blast
  qed
qed

theorem rejection_not_undone_by_older_answer_witness:
  "valid (lstate (adopt_cached_answer
     (fst (mark_license_rejected (seconds 1699999000) (Reason []) (demo_start (seconds 1700000060), demo_disk))) demo_disk)) \<and>
   (\<exists>issued. utc_from_epoch (JInt 1700000000) = Some issued \<and> seconds 1699999000 < issued)"
proof -
  have a: "valid (lstate (adopt_cached_answer
     (fst (mark_license_rejected (seconds 1699999000) (Reason []) (demo_start (seconds 1700000060), demo_disk))) demo_disk))"
    by code_simp
  have "token_verifier (demo_start (seconds 1700000060)) = Some (verify_cached_token demo_env TRUSTED_LICENSE_KEYS ''fp1'')"
    by (simp add: demo_start_def restore_cached_state_def attach_state_cache_def Let_def split: option.split sum.split)
  moreover have "verify_cached_token demo_env TRUSTED_LICENSE_KEYS ''fp1'' demo_disk (JStr ''body.sign'') =
      Inr (claims_to_state demo_claims (JStr ''body.sign''))" by code_simp
  ultimately show ?thesis using a rejection_not_undone_by_older_answer [OF a]
    by (auto simp: demo_disk_def claims_to_state_def demo_claims_def jget_def)
qed

text \<open>The license server failing to answer: nothing, a 429 or 5xx, or not a JSON object.\<close>

definition outage :: "http_answer \<Rightarrow> bool" where
  "outage a = (case a of No_answer _ \<Rightarrow> True
     | Response status body \<Rightarrow> status = 429 \<or> 500 \<le> status \<or> status < 400 \<and> (\<forall>x. body \<noteq> Some (JObj x)))"

lemma validate_outage:
  assumes "license_file d = Some l" "ld_fingerprint l = fp" "\<not> mode_offline l" "outage (snd r2)"
  shows "\<exists>why. validate E trusted fp r1 r2 d = (Inl (LicenseServerUnreachable why), d)"
  using assms
  by (auto simp: validate_def bound_license_data_def outage_def request_def json_body_def SERVER_SIDE_ERROR_STATUSES_def
      split: http_answer.splits option.splits json.splits)

text \<open>
  C33. An outage is not a verdict and a bad answer is not an outage. While the server
  cannot be reached, fails (429, 5xx) or sends something that is not a JSON object, a
  validation leaves the worker's license as it was and only marks it offline; an answer
  whose token does not verify ends the license at once.
\<close>

theorem outage_keeps_license_untrusted_ends_it:
  fixes E :: "'k token_env" and trusted :: "(string \<times> string) list" and r1 r2 :: "string \<times> http_answer"
    and now :: datetime and p :: proc
  assumes "license_file d = Some l" "ld_fingerprint l = fp" "\<not> mode_offline l"
  defines "q \<equiv> fst (snd (refresh_license_state now (validate E trusted fp r1 r2) (p, d)))"
  shows "(outage (snd r2) \<longrightarrow> signed_token q = signed_token p \<and>
      lstate q = (lstate p)\<lparr> offline := True, message := message (lstate q) \<rparr>) \<and>
    (snd r2 = Response 200 (Some (JObj payload)) \<and>
     verify_token E trusted (jget payload ''signed_token'') (license_key l) fp (Some ''validate'') (Some (fst r2)) = Inl e \<longrightarrow>
      \<not> valid (lstate q) \<and> signed_token q = JNull \<and> message (lstate q) = Rejected_by_server (Untrusted e))"
proof (intro conjI impI)
  assume "outage (snd r2)"
  then obtain why where v: "validate E trusted fp r1 r2 d = (Inl (LicenseServerUnreachable why), d)"
    using validate_outage assms by blast
  have q: "q = seen_now now (fst (mark_license_server_offline now why (p, d)))"
    unfolding q_def by (simp add: refresh_license_state_def v get_pair case_prod_beta)
  show "signed_token q = signed_token p"
    "lstate q = (lstate p)\<lparr> offline := True, message := message (lstate q) \<rparr>"
    unfolding q by (simp_all add: mark_license_server_offline_def)
next
  assume a: "snd r2 = Response 200 (Some (JObj payload)) \<and>
     verify_token E trusted (jget payload ''signed_token'') (license_key l) fp (Some ''validate'') (Some (fst r2)) = Inl e"
  then have v: "validate E trusted fp r1 r2 d = (Inl (LicenseRejected (Untrusted e)), d)"
    using assms(1-3) by (simp add: validate_def bound_license_data_def request_def json_body_def verified_def
        SERVER_SIDE_ERROR_STATUSES_def)
  have q: "q = fst (mark_license_rejected now (Untrusted e) (p, d))"
    unfolding q_def by (simp add: refresh_license_state_def v case_prod_beta)
  show "\<not> valid (lstate q)" "signed_token q = JNull" "message (lstate q) = Rejected_by_server (Untrusted e)"
    unfolding q by (simp_all add: mark_license_rejected_def clear_entitlement_def)
qed

theorem outage_keeps_license_untrusted_ends_it_witness:
  "signed_token (fst (snd (refresh_license_state (seconds 1700003600) (validate demo_env TRUSTED_LICENSE_KEYS ''fp1''
      ([], No_answer []) (''n1'', Response 503 None)) (demo_start (seconds 1700000060), demo_disk)))) = JStr ''body.sign''"
proof -
  have l: "license_file demo_disk = Some \<lparr> license_key = ''AAAA-BBBB-CCCC-DDDD'', organization_token = JStr ''o'',
       ld_fingerprint = ''fp1'', mode_offline = False, offline_token = JNull \<rparr>" (is "_ = Some ?l")
    by (simp add: demo_disk_def)
  have "outage (snd (''n1'', Response 503 None))" "ld_fingerprint ?l = ''fp1''" "\<not> mode_offline ?l"
    by (simp_all add: outage_def)
  moreover have "signed_token (demo_start (seconds 1700000060)) = JStr ''body.sign''" by code_simp
  ultimately show ?thesis
    using outage_keeps_license_untrusted_ends_it [OF l, where fp = "''fp1''" and p = "demo_start (seconds 1700000060)"
        and ?r2.0 = "(''n1'', Response 503 None)" and ?r1.0 = "([], No_answer [])" and E = demo_env
        and trusted = TRUSTED_LICENSE_KEYS and now = "seconds 1700003600"] by simp
qed

text \<open>
  A refusal that \<^verbatim>\<open>validate()\<close> reports as an HTTP 4xx error ends the license in this
  worker only: nothing is written, so a worker started afterwards restores from the cache
  exactly what it would have restored without the refusal.
\<close>

theorem http_refusal_not_recorded:
  assumes "validate E trusted fp r1 r2 d = (Inl (HTTPError status), d)"
  shows "\<not> valid (lstate (fst (snd (refresh_license_state now (validate E trusted fp r1 r2) (p, d))))) \<and>
    snd (snd (refresh_license_state now (validate E trusted fp r1 r2) (p, d))) = d"
  using assms by (simp add: refresh_license_state_def)

theorem http_refusal_not_recorded_witness:
  "validate demo_env TRUSTED_LICENSE_KEYS ''fp1'' ([], No_answer []) (''n1'', Response 403 None) demo_disk =
      (Inl (HTTPError 403), demo_disk) \<and>
   \<not> valid (lstate (fst (snd (refresh_license_state (seconds 1700003600) (validate demo_env TRUSTED_LICENSE_KEYS ''fp1''
      ([], No_answer []) (''n1'', Response 403 None)) (demo_start (seconds 1700000060), demo_disk))))) \<and>
   valid (lstate (demo_start (seconds 1700003700)))"
proof -
  have v: "validate demo_env TRUSTED_LICENSE_KEYS ''fp1'' ([], No_answer []) (''n1'', Response 403 None) demo_disk =
      (Inl (HTTPError 403), demo_disk)" by code_simp
  moreover have "valid (lstate (demo_start (seconds 1700003700)))" by code_simp
  ultimately show ?thesis using http_refusal_not_recorded [OF v] by blast
qed

end
