(* ===== verification/Asset_Entitlement.thy ===== *)
theory Asset_Entitlement
  imports License_State
begin

text \<open>
  How many assets the license lets NGCorion manage: \<^verbatim>\<open>app/core/asset_entitlement.py\<close>. The
  asset table is the list of its ids (distinct); \<open>s\<close> is the license state
  \<^verbatim>\<open>get_license_state()\<close> returns to the call.

  Shown: under a finite limit exactly the oldest assets up to it are licensed, and the
  number the license page shows as the last covered id says the same; no accepted insert
  takes the inventory past the limit, and what the checks promise the guard accepts.
\<close>

section \<open>The code\<close>

type_synonym asset_table = "int list"

text \<open>\<^verbatim>\<open>AssetLimitExceeded\<close> (403), one constructor per message.\<close>

datatype asset_limit = No_license_audit | Not_in_inventory | Beyond_limit int int
  | No_license_add | Capacity int int int | Flush_refused int int int

definition entitlement :: "license_state \<Rightarrow> bool \<times> int option" where
  "entitlement s = (valid s, if valid s then max_assets s else Some 0)"

definition count_assets :: "asset_table \<Rightarrow> int" where
  "count_assets db = int (length db)"

text \<open>\<^verbatim>\<open>db.query(Asset.id).order_by(Asset.id).offset(k).limit(1).scalar()\<close>\<close>

definition nth_id :: "asset_table \<Rightarrow> int \<Rightarrow> int option" where
  "nth_id db k = (if k < count_assets db then Some (sort db ! nat k) else None)"

record usage =
  used :: int
  u_max_assets :: "int option"
  unlimited :: bool
  over_limit :: bool
  remaining :: "int option"
  licensed_through_id :: "int option"

definition usage :: "license_state \<Rightarrow> asset_table \<Rightarrow> usage" where
  "usage s db =
     (let (licensed, limit) = entitlement s; n = count_assets db;
          over = (case limit of None \<Rightarrow> False | Some l \<Rightarrow> licensed \<and> n > l);
          through = (if over then (if the limit > 0 then nth_id db (max (the limit - 1) 0) else Some 0) else None)
      in \<lparr> used = n, u_max_assets = (if licensed then limit else Some 0),
           unlimited = (licensed \<and> limit = None), over_limit = over,
           remaining = (if licensed \<and> limit = None then None
             else Some (max ((case limit of None \<Rightarrow> 0 | Some l \<Rightarrow> l) - n) 0)),
           licensed_through_id = through \<rparr>)"

definition position :: "asset_table \<Rightarrow> int \<Rightarrow> int" where
  "position db a = int (length (filter (\<lambda>x. x \<le> a) db))"

definition is_asset_licensed :: "license_state \<Rightarrow> asset_table \<Rightarrow> int option \<Rightarrow> bool" where
  "is_asset_licensed s db asset_id =
     (let (licensed, limit) = entitlement s in
      if \<not> licensed then False
      else case limit of None \<Rightarrow> True
        | Some l \<Rightarrow> (case asset_id of None \<Rightarrow> False | Some a \<Rightarrow> position db a \<le> l))"

definition require_licensed_asset :: "license_state \<Rightarrow> asset_table \<Rightarrow> int option \<Rightarrow> asset_limit + unit" where
  "require_licensed_asset s db asset_id =
     (let (licensed, limit) = entitlement s in
      if \<not> licensed then Inl No_license_audit
      else case limit of None \<Rightarrow> Inr ()
        | Some l \<Rightarrow> (case asset_id of None \<Rightarrow> Inl Not_in_inventory
            | Some a \<Rightarrow> if position db a > l then Inl (Beyond_limit l (count_assets db)) else Inr ()))"

definition check_asset_capacity :: "license_state \<Rightarrow> asset_table \<Rightarrow> int \<Rightarrow> asset_limit + unit" where
  "check_asset_capacity s db adding =
     (let (licensed, limit) = entitlement s in
      if \<not> licensed then Inl No_license_add
      else case limit of None \<Rightarrow> Inr ()
        | Some l \<Rightarrow> if adding \<le> 0 then Inr ()
            else if count_assets db + adding > l
              then Inl (Capacity l (count_assets db) (max (l - count_assets db) 0)) else Inr ())"

definition remaining_capacity :: "license_state \<Rightarrow> asset_table \<Rightarrow> int option" where
  "remaining_capacity s db =
     (let (licensed, limit) = entitlement s in
      if \<not> licensed then Some 0 else case limit of None \<Rightarrow> None | Some l \<Rightarrow> Some (max (l - count_assets db) 0))"

text \<open>
  The \<^verbatim>\<open>before_flush\<close> guard, and the flush it guards: the new assets are inserted unless
  the guard raises.
\<close>

definition refuse_assets_beyond_the_license :: "license_state \<Rightarrow> asset_table \<Rightarrow> int list \<Rightarrow> asset_limit + unit" where
  "refuse_assets_beyond_the_license s db new =
     (if new = [] then Inr ()
      else let (licensed, limit) = entitlement s in
        if \<not> licensed then Inr ()
        else case limit of None \<Rightarrow> Inr ()
          | Some l \<Rightarrow> if count_assets db + int (length new) > l
              then Inl (Flush_refused l (count_assets db) (int (length new))) else Inr ())"

definition flush :: "license_state \<Rightarrow> asset_table \<Rightarrow> int list \<Rightarrow> asset_limit + asset_table" where
  "flush s db new = res_bind (refuse_assets_beyond_the_license s db new) (\<lambda>_. Inr (db @ new))"

section \<open>Properties\<close>

text \<open>In a sorted list without repetitions, an element's position counts those up to it.\<close>

lemma filter_le_sorted:
  "sorted xs \<Longrightarrow> distinct xs \<Longrightarrow> k < length xs \<Longrightarrow> filter (\<lambda>x. x \<le> xs ! k) xs = take (Suc k) xs"
proof (induction xs arbitrary: k)
  case (Cons x xs)
  show ?case
  proof (cases k)
    case 0
    have "\<forall>y \<in> set xs. x < y" using Cons.prems(1,2) by (auto simp: less_le)
    then have "filter (\<lambda>y. y \<le> x) xs = []" by (auto simp: filter_empty_conv)
    with 0 show ?thesis by simp
  next
    case (Suc j)
    then have "x \<le> xs ! j" using Cons.prems by simp
    with Suc Cons show ?thesis by simp
  qed
qed simp

lemma position_nth:
  assumes "distinct db" "k < length db"
  shows "position db (sort db ! k) = int (Suc k)"
proof -
  have "length (filter (\<lambda>x. x \<le> sort db ! k) db) = length (filter (\<lambda>x. x \<le> sort db ! k) (sort db))"
    by (simp add: filter_sort)
  also have "\<dots> = Suc k"
    using assms by (subst filter_le_sorted) auto
  finally show ?thesis by (simp add: position_def)
qed

lemma position_mono: "a \<le> b \<Longrightarrow> position db a \<le> position db b"
  by (induction db) (auto simp: position_def)

lemma position_le_iff:
  assumes "distinct db" "a \<in> set db" "0 \<le> l"
  shows "position db a \<le> l \<longleftrightarrow> a \<in> set (take (nat l) (sort db))"
proof -
  obtain k where k: "k < length db" "a = sort db ! k"
    using assms(2) by (metis in_set_conv_nth length_sort set_sort)
  have "a \<in> set (take (nat l) (sort db)) \<longleftrightarrow> k < nat l"
  proof
    assume "a \<in> set (take (nat l) (sort db))"
    then obtain j where "j < nat l" "j < length db" "sort db ! j = a"
      by (auto simp: in_set_conv_nth)
    then show "k < nat l" using k assms(1) by (metis distinct_sort length_sort nth_eq_iff_index_eq)
  qed (use k in \<open>auto simp: in_set_conv_nth intro!: exI [of _ k]\<close>)
  then show ?thesis using position_nth [OF assms(1) k(1)] k(2) assms(3) by auto
qed

text \<open>
  Under a valid license for \<open>l\<close> assets, audits and hardening run on exactly the \<open>l\<close>
  oldest assets of the inventory (all of them when there are fewer); a target that is not
  in the inventory is refused; and while the inventory is over the limit, the covered
  assets are exactly those up to the id the license page shows as the last covered one.
\<close>

theorem licensed_assets_are_the_oldest:
  assumes "distinct db" "valid s" "max_assets s = Some l" "0 \<le> l" "\<forall>a \<in> set db. 0 < a"
  shows "{a \<in> set db. is_asset_licensed s db (Some a)} = set (take (nat l) (sort db)) \<and>
    (\<forall>a. require_licensed_asset s db a = Inr () \<longleftrightarrow> is_asset_licensed s db a) \<and>
    \<not> is_asset_licensed s db None \<and>
    (\<forall>t. licensed_through_id (usage s db) = Some t \<longrightarrow>
      (\<forall>a. a \<in> set db \<longrightarrow> is_asset_licensed s db (Some a) = (a \<le> t))) \<and>
    (licensed_through_id (usage s db) = None \<longrightarrow> (\<forall>a. a \<in> set db \<longrightarrow> is_asset_licensed s db (Some a)))"
proof (intro conjI allI impI)
  have lic: "is_asset_licensed s db (Some a) \<longleftrightarrow> position db a \<le> l" for a
    using assms(2,3) by (simp add: is_asset_licensed_def entitlement_def)
  show "{a \<in> set db. is_asset_licensed s db (Some a)} = set (take (nat l) (sort db))"
    using position_le_iff [OF assms(1) _ assms(4)] set_take_subset [of "nat l" "sort db"] by (auto simp: lic)
  show "require_licensed_asset s db a = Inr () \<longleftrightarrow> is_asset_licensed s db a" for a
    using assms(2,3) by (auto simp: require_licensed_asset_def is_asset_licensed_def entitlement_def split: option.split)
  show "\<not> is_asset_licensed s db None"
    using assms(2,3) by (simp add: is_asset_licensed_def entitlement_def)
  show "is_asset_licensed s db (Some a) = (a \<le> t)"
    if t: "licensed_through_id (usage s db) = Some t" and a: "a \<in> set db" for t a
  proof (cases "l = 0")
    case True
    have "0 < position db a" using a by (auto simp: position_def filter_empty_conv)
    moreover have "t = 0" using t True assms(2,3) by (auto simp: usage_def entitlement_def Let_def split: if_splits)
    ultimately show ?thesis using True a assms(5) by (auto simp: lic)
  next
    case False
    then have l: "0 < l" "int (length db) > l"
      using t assms(2-4) by (auto simp: usage_def entitlement_def Let_def count_assets_def split: if_splits)
    then have k: "nat (l - 1) < length db" and tt: "t = sort db ! nat (l - 1)"
      using t assms(2,3) by (auto simp: usage_def entitlement_def Let_def nth_id_def count_assets_def)
    have pt: "position db t = l" using position_nth [OF assms(1) k] l tt by simp
    obtain j where j: "j < length db" "a = sort db ! j"
      using a by (metis in_set_conv_nth length_sort set_sort)
    have pa: "position db a = int (Suc j)" using position_nth [OF assms(1) j(1)] j(2) by simp
    have "a \<le> t" if "position db a \<le> l"
      using that pa j k tt by (auto intro: sorted_nth_mono)
    then show ?thesis using position_mono [of a t db] pt by (auto simp: lic)
  qed
  show "is_asset_licensed s db (Some a)" if n: "licensed_through_id (usage s db) = None" and a: "a \<in> set db" for a
  proof -
    have "int (length db) \<le> l"
      using n assms(2-4) by (auto simp: usage_def entitlement_def Let_def nth_id_def count_assets_def split: if_splits)
    moreover have "length (filter (\<lambda>x. x \<le> a) db) \<le> length db" by (rule length_filter_le)
    ultimately show ?thesis unfolding lic position_def by linarith
  qed
qed

theorem licensed_assets_are_the_oldest_witness:
  "{a \<in> set [7, 3, 12::int]. is_asset_licensed (initial_state\<lparr> valid := True, max_assets := Some 2 \<rparr>) [7, 3, 12] (Some a)} = {3, 7} \<and>
   licensed_through_id (usage (initial_state\<lparr> valid := True, max_assets := Some 2 \<rparr>) [7, 3, 12]) = Some 7"
proof -
  have "set (take (nat 2) (sort [7, 3, 12::int])) = {3, 7}" by code_simp
  moreover have "licensed_through_id (usage (initial_state\<lparr> valid := True, max_assets := Some 2 \<rparr>) [7, 3, 12]) = Some 7"
    by code_simp
  ultimately show ?thesis
    using licensed_assets_are_the_oldest [of "[7, 3, 12]" "initial_state\<lparr> valid := True, max_assets := Some 2 \<rparr>" 2] by simp
qed

text \<open>
  The inventory never grows past a valid license's limit: an accepted flush with new
  assets leaves at most the limit; a refused one changes nothing; and what the callers
  checked first (\<^verbatim>\<open>check_asset_capacity\<close>, or the room \<^verbatim>\<open>remaining_capacity\<close> reported) the
  guard accepts.
\<close>

theorem flush_respects_limit:
  assumes "valid s" "max_assets s = Some l"
  shows "(\<forall>db'. flush s db new = Inr db' \<longrightarrow> db' = db @ new \<and> (new \<noteq> [] \<longrightarrow> count_assets db' \<le> l)) \<and>
    (check_asset_capacity s db (int (length new)) = Inr () \<longrightarrow> flush s db new = Inr (db @ new)) \<and>
    (\<forall>room. remaining_capacity s db = Some room \<longrightarrow> int (length new) \<le> room \<longrightarrow> flush s db new = Inr (db @ new))"
proof -
  have "0 < length new" if "new \<noteq> []" using that by simp
  then show ?thesis using assms
    by (auto simp: flush_def refuse_assets_beyond_the_license_def check_asset_capacity_def remaining_capacity_def
        entitlement_def count_assets_def max_def split: if_splits)
qed

theorem flush_respects_limit_witness:
  "flush (initial_state\<lparr> valid := True, max_assets := Some 2 \<rparr>) [3] [4] = Inr [3, 4] \<and>
   count_assets [3, 4] \<le> 2"
proof -
  have "flush (initial_state\<lparr> valid := True, max_assets := Some 2 \<rparr>) [3] [4] = Inr [3, 4]" by code_simp
  then show ?thesis using flush_respects_limit [of "initial_state\<lparr> valid := True, max_assets := Some 2 \<rparr>" 2 "[3]" "[4]"] by simp
qed

end
