(* ===== verification/Param_Security.thy ===== *)
theory Param_Security
  imports Prelude
begin

text \<open>
  Validation and escaping of the values substituted into hardening commands:
  \<^verbatim>\<open>app/core/hardening_param_security.py\<close>. A validator returns the text to insert or the
  error; the \<^verbatim>\<open>value\<close> argument is the text \<^verbatim>\<open>str(value)\<close>.

  What each primitive is for is stated against a reader of the target language: a POSIX
  shell word, a here-document, a PowerShell literal, a T-SQL bracketed name or string. The
  readers are specifications; the code does not contain them.
\<close>

section \<open>The code\<close>

datatype param_reason = Too_long nat nat | Control_char nat | Nul_byte | Heredoc_line string
  | Delimiter_inside string | Unsupported string | Must_not_be_empty | Must_contain_only string
  | Not_a_number string | Below int int | Above int int | Not_an_option string

datatype param_error = ParameterSecurityError (pe_field: string) (pe_reason: param_reason)

type_synonym 'a checked = "param_error + 'a"

definition check_length :: "string \<Rightarrow> string \<Rightarrow> nat \<Rightarrow> unit checked" where
  "check_length value field max_length =
     raise_if (length value > max_length) (ParameterSecurityError field (Too_long (length value) max_length)) (Inr ())"

definition control_char :: "char \<Rightarrow> bool" where
  "control_char c = (ord_c c < 32 \<or> ord_c c = 127)"

definition newline_char :: "char \<Rightarrow> bool" where
  "newline_char c = (c = CHR 0x0A \<or> c = CHR 0x0D)"

definition reject_control_chars :: "string \<Rightarrow> string \<Rightarrow> bool \<Rightarrow> unit checked" where
  "reject_control_chars value field allow_newlines =
     (case List.find (\<lambda>c. control_char c \<and> \<not> (allow_newlines \<and> newline_char c)) value of
        Some c \<Rightarrow> Inl (ParameterSecurityError field (Control_char (ord_c c))) | None \<Rightarrow> Inr ())"

definition validate_cli_line :: "string \<Rightarrow> string \<Rightarrow> nat \<Rightarrow> string checked" where
  "validate_cli_line value field max_length =
     res_bind (check_length value field max_length) (\<lambda>_.
       res_bind (reject_control_chars value field False) (\<lambda>_. Inr value))"

definition validate_heredoc_body :: "string \<Rightarrow> string \<Rightarrow> string \<Rightarrow> nat \<Rightarrow> string checked" where
  "validate_heredoc_body value field delimiter max_length =
     res_bind (check_length value field max_length) (\<lambda>_.
       raise_if (CHR 0x00 \<in> set value) (ParameterSecurityError field Nul_byte)
         (raise_if (\<exists>line \<in> set (py_splitlines value). py_strip line = delimiter)
            (ParameterSecurityError field (Heredoc_line delimiter)) (Inr value)))"

definition validate_delimited_text :: "string \<Rightarrow> string \<Rightarrow> string \<Rightarrow> nat \<Rightarrow> string checked" where
  "validate_delimited_text value field delimiter max_length =
     res_bind (check_length value field max_length) (\<lambda>_.
       raise_if (CHR 0x00 \<in> set value) (ParameterSecurityError field Nul_byte)
         (raise_if (delimiter \<noteq> [] \<and> py_contains delimiter value)
            (ParameterSecurityError field (Delimiter_inside delimiter)) (Inr value)))"

text \<open>The loop over denied characters or sequences: the first one that occurs is reported.\<close>

definition deny :: "string list \<Rightarrow> string \<Rightarrow> string \<Rightarrow> unit checked" where
  "deny bad value field = (case List.find (\<lambda>b. py_contains b value) bad of
     Some b \<Rightarrow> Inl (ParameterSecurityError field (Unsupported b)) | None \<Rightarrow> Inr ())"

definition SHELL_BREAKOUT_CHARS :: "string list" where
  "SHELL_BREAKOUT_CHARS = [[CHR 0x27], ''`'', ''$'', [CHR 0x5C], '';'', [CHR 0x0A], [CHR 0x0D], [CHR 0x00]]"

definition reject_shell_breakout_chars :: "string \<Rightarrow> string \<Rightarrow> string list \<Rightarrow> nat \<Rightarrow> string checked" where
  "reject_shell_breakout_chars value field extra max_length =
     res_bind (check_length value field max_length) (\<lambda>_.
       res_bind (deny (SHELL_BREAKOUT_CHARS @ extra) value field) (\<lambda>_. Inr value))"

text \<open>\<^verbatim>\<open>shlex.quote\<close> of the standard library, which \<^verbatim>\<open>quote_shell\<close> calls.\<close>

definition shlex_safe :: "char \<Rightarrow> bool" where
  "shlex_safe c = (ascii_alpha c \<or> ascii_digit c \<or> c \<in> set ''_@%+=:,./-'')"

definition quote_shell :: "string \<Rightarrow> string" where
  "quote_shell s = (if s = [] then [CHR 0x27, CHR 0x27]
     else if list_all shlex_safe s then s
     else CHR 0x27 # py_replace [CHR 0x27] [CHR 0x27, CHR 0x22, CHR 0x27, CHR 0x22, CHR 0x27] s @ [CHR 0x27])"

definition escape_single_quoted_shell_literal :: "string \<Rightarrow> string \<Rightarrow> string list \<Rightarrow> nat \<Rightarrow> string checked" where
  "escape_single_quoted_shell_literal value field denied max_length =
     res_bind (check_length value field max_length) (\<lambda>_.
       raise_if (CHR 0x00 \<in> set value) (ParameterSecurityError field Nul_byte)
         (res_bind (deny denied value field) (\<lambda>_.
            Inr (py_replace [CHR 0x27] [CHR 0x27, CHR 0x5C, CHR 0x27, CHR 0x27] value))))"

definition reject_single_quoted_literal_breakout :: "string \<Rightarrow> string \<Rightarrow> string list \<Rightarrow> nat \<Rightarrow> string checked" where
  "reject_single_quoted_literal_breakout value field extra max_length =
     res_bind (check_length value field max_length) (\<lambda>_.
       res_bind (deny ([[CHR 0x27], [CHR 0x0A], [CHR 0x0D], [CHR 0x00]] @ extra) value field) (\<lambda>_. Inr value))"

definition restrict_to_charset :: "string \<Rightarrow> string \<Rightarrow> (char \<Rightarrow> bool) \<Rightarrow> string \<Rightarrow> nat \<Rightarrow> string checked" where
  "restrict_to_charset value field allowed description max_length =
     raise_if (value = []) (ParameterSecurityError field Must_not_be_empty)
       (res_bind (check_length value field max_length) (\<lambda>_.
          raise_if (\<not> list_all allowed value) (ParameterSecurityError field (Must_contain_only description))
            (Inr value)))"

definition path_char :: "char \<Rightarrow> bool" where
  "path_char c = (ascii_alpha c \<or> ascii_digit c \<or> c \<in> set ''_./:-'')"

definition identifier_char :: "char \<Rightarrow> bool" where
  "identifier_char c = (ascii_alpha c \<or> ascii_digit c \<or> c \<in> set ''_-'')"

definition host_list_char :: "char \<Rightarrow> bool" where
  "host_list_char c = (ascii_alpha c \<or> ascii_digit c \<or> c \<in> set ''_.:,-'')"

definition validate_path :: "string \<Rightarrow> string \<Rightarrow> nat \<Rightarrow> string checked" where
  "validate_path value field max_length =
     restrict_to_charset value field path_char (''letters, digits, '.', '_', '/', ':', '-'' @ [CHR 0x27]) max_length"

definition validate_identifier :: "string \<Rightarrow> string \<Rightarrow> nat \<Rightarrow> string checked" where
  "validate_identifier value field max_length =
     restrict_to_charset value field identifier_char (''letters, digits, '_', '-'' @ [CHR 0x27]) max_length"

definition validate_host_list :: "string \<Rightarrow> string \<Rightarrow> nat \<Rightarrow> string checked" where
  "validate_host_list value field max_length =
     restrict_to_charset value field host_list_char (''letters, digits, '.', ':', ',', '-'' @ [CHR 0x27]) max_length"

definition escape_powershell_single_quoted :: "string \<Rightarrow> string \<Rightarrow> nat \<Rightarrow> string checked" where
  "escape_powershell_single_quoted value field max_length =
     res_bind (check_length value field max_length) (\<lambda>_.
       res_bind (reject_control_chars value field False) (\<lambda>_.
         Inr (py_replace [CHR 0x27] [CHR 0x27, CHR 0x27] value)))"

definition SQL_UNSAFE_CHARS :: "string list" where
  "SQL_UNSAFE_CHARS = [[CHR 0x27], '']'', '';'', [CHR 0x0A], [CHR 0x0D]]"

definition escape_sql_identifier_text :: "string \<Rightarrow> string \<Rightarrow> nat \<Rightarrow> string checked" where
  "escape_sql_identifier_text value field max_length =
     res_bind (check_length value field max_length) (\<lambda>_.
       res_bind (deny SQL_UNSAFE_CHARS value field) (\<lambda>_.
         raise_if (py_contains ''--'' value) (ParameterSecurityError field (Unsupported ''--'')) (Inr value)))"

definition validate_integer :: "string \<Rightarrow> string \<Rightarrow> int option \<Rightarrow> int option \<Rightarrow> string checked" where
  "validate_integer value field min_value max_value =
     (let raw = py_strip value in
      case py_int raw of
        None \<Rightarrow> Inl (ParameterSecurityError field (Not_a_number raw))
      | Some number \<Rightarrow>
          if (\<exists>m \<in> set_option min_value. number < m)
          then Inl (ParameterSecurityError field (Below number (the min_value)))
          else if (\<exists>m \<in> set_option max_value. number > m)
          then Inl (ParameterSecurityError field (Above number (the max_value)))
          else Inr (str_of_int number))"

definition validate_powershell_bare_integer :: "string \<Rightarrow> string \<Rightarrow> int option \<Rightarrow> int option \<Rightarrow> string checked" where
  "validate_powershell_bare_integer value field min_value max_value = validate_integer value field min_value max_value"

definition validate_select :: "string \<Rightarrow> string \<Rightarrow> string list \<Rightarrow> string checked" where
  "validate_select value field options =
     raise_if (value \<notin> set options) (ParameterSecurityError field (Not_an_option value)) (Inr value)"

section \<open>Readers of the target languages\<close>

text \<open>
  A POSIX shell word: its literal text and what follows it. \<open>None\<close> when the word is not
  closed or would be expanded, that is, when its text is not literal.
\<close>

definition sh_meta :: "char \<Rightarrow> bool" where
  "sh_meta c = (c \<in> set '' ;&|<>()'' \<or> c = CHR 0x09 \<or> c = CHR 0x0A)"

definition sh_expands :: "char \<Rightarrow> bool" where
  "sh_expands c = (c \<in> set ''$`*?[]{}~#!'')"

fun sh_bare :: "string \<Rightarrow> string \<Rightarrow> (string \<times> string) option"
  and sh_single :: "string \<Rightarrow> string \<Rightarrow> (string \<times> string) option"
  and sh_double :: "string \<Rightarrow> string \<Rightarrow> (string \<times> string) option" where
  "sh_bare acc [] = Some (acc, [])"
| "sh_bare acc (c # cs) =
     (if c = CHR 0x27 then sh_single acc cs
      else if c = CHR 0x22 then sh_double acc cs
      else if c = CHR 0x5C then (case cs of [] \<Rightarrow> None | d # ds \<Rightarrow> if d = CHR 0x0A then sh_bare acc ds else sh_bare (acc @ [d]) ds)
      else if sh_meta c then Some (acc, c # cs)
      else if sh_expands c then None
      else sh_bare (acc @ [c]) cs)"
| "sh_single acc [] = None"
| "sh_single acc (c # cs) = (if c = CHR 0x27 then sh_bare acc cs else sh_single (acc @ [c]) cs)"
| "sh_double acc [] = None"
| "sh_double acc (c # cs) =
     (if c = CHR 0x22 then sh_bare acc cs
      else if c \<in> {CHR ''$'', CHR ''`'', CHR 0x5C} then None
      else sh_double (acc @ [c]) cs)"

definition sh_word :: "string \<Rightarrow> (string \<times> string) option" where
  "sh_word s = sh_bare [] s"

text \<open>Where a word ends: at the end of the command or before a separator.\<close>

definition word_end :: "string \<Rightarrow> bool" where
  "word_end s = (s = [] \<or> sh_meta (hd s))"

text \<open>A here-document: the lines before the first one that is the delimiter.\<close>

fun nl_lines :: "string \<Rightarrow> string \<Rightarrow> string list" where
  "nl_lines cur [] = [cur]"
| "nl_lines cur (c # cs) = (if c = CHR 0x0A then cur # nl_lines [] cs else nl_lines (cur @ [c]) cs)"

definition heredoc :: "string \<Rightarrow> string \<Rightarrow> string list \<times> string list" where
  "heredoc delimiter text = (takeWhile (\<lambda>l. l \<noteq> delimiter) (nl_lines [] text),
     tl (dropWhile (\<lambda>l. l \<noteq> delimiter) (nl_lines [] text)))"

text \<open>Inside a quoted literal whose quote character is written doubled: its text and the rest.\<close>

fun doubled :: "char \<Rightarrow> string \<Rightarrow> string \<Rightarrow> (string \<times> string) option" where
  "doubled q acc [] = None"
| "doubled q acc [c] = (if c = q then Some (acc, []) else None)"
| "doubled q acc (c # d # cs) =
     (if c = q then (if d = q then doubled q (acc @ [q]) cs else Some (acc, d # cs))
      else doubled q (acc @ [c]) (d # cs))"


section \<open>Properties\<close>

lemma check_length_Inr [res_simps]: "check_length v f n = Inr u \<longleftrightarrow> length v \<le> n"
  by (auto simp: check_length_def raise_if_def)

lemma find_None_iff_all: "List.find P xs = None \<longleftrightarrow> (\<forall>x \<in> set xs. \<not> P x)"
  by (auto simp: find_None_iff)

lemma deny_Inr [res_simps]: "deny bad v f = Inr u \<longleftrightarrow> (\<forall>b \<in> set bad. \<not> py_contains b v)"
  unfolding find_None_iff_all [symmetric] by (auto simp: deny_def split: option.split)

lemma reject_control_Inr [res_simps]:
  "reject_control_chars v f b = Inr u \<longleftrightarrow> (\<forall>c \<in> set v. control_char c \<longrightarrow> b \<and> newline_char c)"
  using find_None_iff_all [of "\<lambda>c. control_char c \<and> \<not> (b \<and> newline_char c)" v]
  by (auto simp: reject_control_chars_def split: option.split)

lemmas checked_defs = check_length_Inr deny_Inr reject_control_Inr res_bind_Inr_iff raise_if_Inr_iff

subsection \<open>Shell words\<close>

lemma shlex_safe_plain:
  "shlex_safe c \<Longrightarrow> c \<noteq> CHR 0x27 \<and> c \<noteq> CHR 0x22 \<and> c \<noteq> CHR 0x5C \<and> \<not> sh_meta c \<and> \<not> sh_expands c"
  by (auto simp: shlex_safe_def sh_meta_def sh_expands_def ascii_alpha_def ascii_digit_def)

lemma sh_bare_safe: "list_all shlex_safe s \<Longrightarrow> sh_bare acc (s @ rest) = sh_bare (acc @ s) rest"
  by (induction s arbitrary: acc) (auto dest!: shlex_safe_plain)

lemma sh_bare_end: "word_end rest \<Longrightarrow> sh_bare acc rest = Some (acc, rest)"
  by (cases rest) (auto simp: word_end_def sh_meta_def)

lemma sh_single_plain:
  "CHR 0x27 \<notin> set s \<Longrightarrow> sh_single acc (s @ CHR 0x27 # rest) = sh_bare (acc @ s) rest"
  by (induction s arbitrary: acc) auto

text \<open>The two ways of writing a quote inside a single-quoted region.\<close>

lemma sh_single_shlex:
  "sh_single acc (py_replace [CHR 0x27] [CHR 0x27, CHR 0x22, CHR 0x27, CHR 0x22, CHR 0x27] s @ CHR 0x27 # rest) =
     sh_bare (acc @ s) rest"
  unfolding py_replace_char by (induction s arbitrary: acc) auto

lemma sh_single_posix:
  "sh_single acc (py_replace [CHR 0x27] [CHR 0x27, CHR 0x5C, CHR 0x27, CHR 0x27] s @ CHR 0x27 # rest) =
     sh_bare (acc @ s) rest"
  unfolding py_replace_char by (induction s arbitrary: acc) auto

lemma charset_safe: "path_char c \<or> identifier_char c \<or> host_list_char c \<Longrightarrow> shlex_safe c"
  by (auto simp: path_char_def identifier_char_def host_list_char_def shlex_safe_def)

lemma charset_value:
  "restrict_to_charset v f P d n = Inr w \<Longrightarrow> w = v \<and> v \<noteq> [] \<and> list_all P v"
  by (auto simp: restrict_to_charset_def checked_defs)

lemma charset_shlex:
  assumes "validate_path v f n = Inr w \<or> validate_identifier v f n = Inr w \<or> validate_host_list v f n = Inr w"
  shows "w = v \<and> list_all shlex_safe w"
proof -
  have "w = v \<and> (list_all path_char w \<or> list_all identifier_char w \<or> list_all host_list_char w)"
    using assms charset_value unfolding validate_path_def validate_identifier_def validate_host_list_def by blast
  then show ?thesis by (auto simp: list_all_iff intro: charset_safe)
qed

text \<open>
  C4. A value that passed a shell primitive is read by the shell as exactly that value,
  one word, and the command goes on where the template's own text does: quoted by
  \<^verbatim>\<open>quote_shell\<close> in a bare position; escaped by \<^verbatim>\<open>escape_single_quoted_shell_literal\<close>, or
  accepted by either single-quote deny list, between the template's single quotes;
  accepted by a restricted character set (path, identifier, host list) in either position.
\<close>

theorem shell_values_stay_literal:
  assumes "word_end rest"
  shows "sh_word (quote_shell v @ rest) = Some (v, rest) \<and>
    (escape_single_quoted_shell_literal v f ds n = Inr w \<longrightarrow>
       sh_word (CHR 0x27 # w @ CHR 0x27 # rest) = Some (v, rest)) \<and>
    (reject_single_quoted_literal_breakout v f ds n = Inr w \<or> reject_shell_breakout_chars v f ds n = Inr w \<longrightarrow>
       sh_word (CHR 0x27 # w @ CHR 0x27 # rest) = Some (v, rest)) \<and>
    (validate_path v f n = Inr w \<or> validate_identifier v f n = Inr w \<or> validate_host_list v f n = Inr w \<longrightarrow>
       sh_word (w @ rest) = Some (v, rest) \<and> sh_word (CHR 0x27 # w @ CHR 0x27 # rest) = Some (v, rest))"
proof (intro conjI impI)
  show "sh_word (quote_shell v @ rest) = Some (v, rest)"
    using sh_single_shlex [of "[]" v rest] sh_bare_safe [of v "[]" rest] sh_bare_end [OF assms]
    by (auto simp: sh_word_def quote_shell_def)
  show "sh_word (CHR 0x27 # w @ CHR 0x27 # rest) = Some (v, rest)"
    if "escape_single_quoted_shell_literal v f ds n = Inr w"
    using that sh_single_posix [of "[]" v rest] sh_bare_end [OF assms]
    by (auto simp: sh_word_def escape_single_quoted_shell_literal_def checked_defs)
  show "sh_word (CHR 0x27 # w @ CHR 0x27 # rest) = Some (v, rest)"
    if "reject_single_quoted_literal_breakout v f ds n = Inr w \<or> reject_shell_breakout_chars v f ds n = Inr w"
  proof -
    have "w = v \<and> CHR 0x27 \<notin> set v" using that
      by (auto simp: reject_single_quoted_literal_breakout_def reject_shell_breakout_chars_def
          SHELL_BREAKOUT_CHARS_def checked_defs)
    then show ?thesis using sh_single_plain [of v "[]" rest] sh_bare_end [OF assms] by (simp add: sh_word_def)
  qed
  assume "validate_path v f n = Inr w \<or> validate_identifier v f n = Inr w \<or> validate_host_list v f n = Inr w"
  then have w: "w = v" "list_all shlex_safe w" using charset_shlex by blast+
  then have "CHR 0x27 \<notin> set w" using shlex_safe_plain by (auto simp: list_all_iff)
  with w show "sh_word (w @ rest) = Some (v, rest)" "sh_word (CHR 0x27 # w @ CHR 0x27 # rest) = Some (v, rest)"
    using sh_bare_safe [of w "[]" rest] sh_single_plain [of w "[]" rest] sh_bare_end [OF assms]
    by (simp_all add: sh_word_def)
qed

theorem shell_values_stay_literal_witness:
  "sh_word (quote_shell ''it's; reboot'' @ '' -f'') = Some (''it's; reboot'', '' -f'') \<and>
   sh_word (''/etc/ssl/a.pem'' @ '' -f'') = Some (''/etc/ssl/a.pem'', '' -f'')"
proof -
  have "word_end '' -f''" "validate_path ''/etc/ssl/a.pem'' ''P'' 255 = Inr ''/etc/ssl/a.pem''" by code_simp+
  then show ?thesis
    using shell_values_stay_literal [of "'' -f''" "''it's; reboot''"]
      shell_values_stay_literal [of "'' -f''" "''/etc/ssl/a.pem''" "''P''" "[]" 255 "''/etc/ssl/a.pem''"] by blast
qed

text \<open>
  The shell deny list is not enough for a bare word: \<^verbatim>\<open>reject_shell_breakout_chars\<close>
  accepts every value made of the characters it does not name, in particular one with a
  pipe or an ampersand, and there the shell ends the word and starts another command.
\<close>

theorem breakout_denylist_misses_operators:
  "reject_shell_breakout_chars ''x|reboot'' f [] 4096 = Inr ''x|reboot'' \<and> sh_word ''x|reboot'' = Some (''x'', ''|reboot'') \<and>
   reject_shell_breakout_chars ''x&reboot'' f [] 4096 = Inr ''x&reboot'' \<and> sh_word ''x&reboot'' = Some (''x'', ''&reboot'')"
  by (simp add: reject_shell_breakout_chars_def check_length_def deny_def SHELL_BREAKOUT_CHARS_def sh_word_def
      sh_meta_def sh_expands_def)

subsection \<open>Here-documents\<close>

lemma nl_lines_append: "nl_lines cur (s @ CHR 0x0A # t) = nl_lines cur s @ nl_lines [] t"
  by (induction s arbitrary: cur) auto

lemma nl_lines_single: "CHR 0x0A \<notin> set s \<Longrightarrow> nl_lines cur s = [cur @ s]"
  by (induction s arbitrary: cur) auto

lemma nl_line_in_splitlines:
  assumes "l \<in> set (nl_lines cur s)" "\<forall>c \<in> set l. \<not> line_break c" "l \<noteq> []"
    and "cur = cur' \<or> (\<exists>c \<in> set cur. line_break c)"
  shows "l \<in> set (splitlines_from cur' s)"
  using assms
proof (induction cur' s arbitrary: cur rule: splitlines_from.induct)
  case (3 cur' c d cs)
  have nl: "line_break (CHR 0x0A)" by (simp add: line_break_def)
  show ?case
  proof (cases "line_break c")
    case False
    then have "c \<noteq> CHR 0x0A" using nl by auto
    then have "l \<in> set (nl_lines (cur @ [c]) (d # cs))" using 3(4) by (simp only: nl_lines.simps if_False)
    then have "l \<in> set (splitlines_from (cur' @ [c]) (d # cs))"
      by (rule 3(3) [OF False]) (use 3(5-7) in auto)
    with False show ?thesis by simp
  next
    case True
    show ?thesis
    proof (cases "c = CHR 0x0A")
      case c: True
      then have "l = cur \<or> l \<in> set (nl_lines [] (d # cs))" using 3(4) by simp
      then show ?thesis using 3(2) [OF True, of "[]"] 3(5-7) True c by auto
    next
      case c: False
      then have l: "l \<in> set (nl_lines (cur @ [c]) (d # cs))" using 3(4) by simp
      show ?thesis
      proof (cases "c = CHR 0x0D \<and> d = CHR 0x0A")
        case crlf: True
        have "l \<noteq> cur @ [c]" using 3(5) True by auto
        with l crlf have "l \<in> set (nl_lines [] cs)" by simp
        then have "l \<in> set (splitlines_from [] cs)"
          by (rule 3(1) [OF True crlf]) (use 3(5,6) in auto)
        with crlf True show ?thesis by simp
      next
        case no: False
        have "l \<in> set (splitlines_from [] (d # cs))"
          by (rule 3(2) [OF True no l]) (use 3(5,6) True in auto)
        with no True show ?thesis by auto
      qed
    qed
  qed
qed (auto simp: line_break_def split: if_splits)

text \<open>A here-document word: one line, without surrounding white space.\<close>

definition delimiter_word :: "string \<Rightarrow> bool" where
  "delimiter_word w = (w \<noteq> [] \<and> py_strip w = w \<and> list_all (\<lambda>c. \<not> line_break c) w)"

text \<open>
  A here-document body that passed validation is the whole body: in
  \<^verbatim>\<open>cat > file << 'EOF'\<close> followed by the value, the delimiter line and the rest of the
  command, the shell takes exactly the value's lines and continues after the template's
  own delimiter line.
\<close>

theorem heredoc_body_is_the_value:
  assumes "validate_heredoc_body v f delim n = Inr w" "delimiter_word delim"
  shows "heredoc delim (w @ CHR 0x0A # delim @ CHR 0x0A # rest) = (nl_lines [] v, nl_lines [] rest)"
proof -
  have w: "w = v" "\<forall>line \<in> set (py_splitlines v). py_strip line \<noteq> delim"
    using assms(1) by (auto simp: validate_heredoc_body_def checked_defs)
  have d: "\<forall>c \<in> set delim. \<not> line_break c" "delim \<noteq> []" "py_strip delim = delim"
    using assms(2) by (auto simp: delimiter_word_def list_all_iff)
  have "delim \<notin> set (nl_lines [] v)"
    using nl_line_in_splitlines [of delim "[]" v "[]"] w(2) d by (auto simp: py_splitlines_def)
  then have tw: "takeWhile (\<lambda>l. l \<noteq> delim) (nl_lines [] v @ delim # ls) = nl_lines [] v"
    "dropWhile (\<lambda>l. l \<noteq> delim) (nl_lines [] v @ delim # ls) = delim # ls" for ls
    by (subst takeWhile_append2 dropWhile_append2; auto)+
  have "CHR 0x0A \<notin> set delim" using d(1) by (auto simp: line_break_def)
  then have "nl_lines [] (w @ CHR 0x0A # delim @ CHR 0x0A # rest) = nl_lines [] v @ delim # nl_lines [] rest"
    by (simp add: nl_lines_append nl_lines_single w(1))
  then show ?thesis by (simp add: heredoc_def tw)
qed

theorem heredoc_body_is_the_value_witness:
  "heredoc ''EOF'' (''Welcome'' @ CHR 0x0A # ''EOF'' @ CHR 0x0A # ''reboot'') = ([''Welcome''], [''reboot''])"
proof -
  have "validate_heredoc_body ''Welcome'' ''MOTD_TEXT'' ''EOF'' 8192 = Inr ''Welcome''" "delimiter_word ''EOF''"
    by code_simp+
  from heredoc_body_is_the_value [OF this, of "''reboot''"] show ?thesis by simp
qed


subsection \<open>Quoted literals and integers\<close>

lemma doubled_plain:
  "q \<notin> set s \<Longrightarrow> rest = [] \<or> hd rest \<noteq> q \<Longrightarrow> doubled q acc (s @ q # rest) = Some (acc @ s, rest)"
proof (induction s arbitrary: acc)
  case Nil
  then show ?case by (cases rest) auto
next
  case (Cons c s)
  then show ?case by (cases s) auto
qed

lemma doubled_escaped:
  "rest = [] \<or> hd rest \<noteq> q \<Longrightarrow> doubled q acc (py_replace [q] [q, q] s @ q # rest) = Some (acc @ s, rest)"
proof (induction s arbitrary: acc)
  case Nil
  then show ?case by (cases rest) auto
next
  case (Cons c s)
  have ne: "py_replace [q] [q, q] s @ q # rest \<noteq> []" by simp
  then obtain d ds where d: "py_replace [q] [q, q] s @ q # rest = d # ds" by (cases "py_replace [q] [q, q] s @ q # rest") auto
  show ?case
  proof (cases "c = q")
    case True
    then have "doubled q acc (py_replace [q] [q, q] (c # s) @ q # rest) =
        doubled q (acc @ [q]) (py_replace [q] [q, q] s @ q # rest)" by simp
    then show ?thesis using Cons True by simp
  next
    case False
    then have "doubled q acc (py_replace [q] [q, q] (c # s) @ q # rest) =
        doubled q (acc @ [c]) (py_replace [q] [q, q] s @ q # rest)" using d by simp
    then show ?thesis using Cons False by simp
  qed
qed

lemma str_of_int_no_bad: "c \<in> set (str_of_int n) \<Longrightarrow> shlex_safe c"
  by (auto simp: shlex_safe_def dest: str_of_int_chars)

text \<open>
  A value placed in a quoted literal stays inside it. Escaped for a PowerShell
  single-quoted string it is read back exactly; accepted for T-SQL it is exactly the text
  of a bracketed name and of a string literal alike, with no statement or line separator;
  both for the ASCII quote character.
\<close>

theorem quoted_literals_hold_the_value:
  assumes "rest = [] \<or> hd rest \<noteq> CHR 0x27 \<and> hd rest \<noteq> CHR '']''"
  shows "(escape_powershell_single_quoted v f n = Inr w \<longrightarrow>
      doubled (CHR 0x27) [] (w @ CHR 0x27 # rest) = Some (v, rest)) \<and>
    (escape_sql_identifier_text v f n = Inr w \<longrightarrow> w = v \<and>
      doubled (CHR 0x27) [] (w @ CHR 0x27 # rest) = Some (v, rest) \<and>
      doubled (CHR '']'') [] (w @ CHR '']'' # rest) = Some (v, rest) \<and>
      CHR '';'' \<notin> set w \<and> CHR 0x0A \<notin> set w \<and> CHR 0x0D \<notin> set w)"
proof (intro conjI impI)
  show "doubled (CHR 0x27) [] (w @ CHR 0x27 # rest) = Some (v, rest)"
    if "escape_powershell_single_quoted v f n = Inr w"
    using that assms doubled_escaped [of rest "CHR 0x27" "[]" v]
    by (auto simp: escape_powershell_single_quoted_def checked_defs)
  assume "escape_sql_identifier_text v f n = Inr w"
  then have w: "w = v" "CHR 0x27 \<notin> set v" "CHR '']'' \<notin> set v" "CHR '';'' \<notin> set v" "CHR 0x0A \<notin> set v" "CHR 0x0D \<notin> set v"
    by (auto simp: escape_sql_identifier_text_def SQL_UNSAFE_CHARS_def checked_defs)
  show "w = v" "CHR '';'' \<notin> set w" "CHR 0x0A \<notin> set w" "CHR 0x0D \<notin> set w" using w by auto
  show "doubled (CHR 0x27) [] (w @ CHR 0x27 # rest) = Some (v, rest)"
    "doubled (CHR '']'') [] (w @ CHR '']'' # rest) = Some (v, rest)"
    using w assms doubled_plain [of "CHR 0x27" v rest "[]"] doubled_plain [of "CHR '']''" v rest "[]"] by auto
qed

theorem quoted_literals_hold_the_value_witness:
  "doubled (CHR 0x27) [] (''O'' @ [CHR 0x27, CHR 0x27] @ ''Brien'' @ CHR 0x27 # '' -Force'') = Some (''O'' @ CHR 0x27 # ''Brien'', '' -Force'')"
proof -
  have "escape_powershell_single_quoted (''O'' @ CHR 0x27 # ''Brien'') ''P'' 1024 =
      Inr (''O'' @ [CHR 0x27, CHR 0x27] @ ''Brien'')" by code_simp
  then show ?thesis
    using quoted_literals_hold_the_value [of "'' -Force''" "''O'' @ CHR 0x27 # ''Brien''" "''P''" 1024
        "''O'' @ [CHR 0x27, CHR 0x27] @ ''Brien''"] by simp
qed

text \<open>
  An accepted integer is inserted in its canonical form, not as it was typed: only
  digits and at most a leading minus, inert in every target language, the number the text
  means, and within the bounds given.
\<close>

theorem validated_integer_is_canonical:
  assumes "validate_integer v f lo hi = Inr w"
  shows "\<exists>number. py_int (py_strip v) = Some number \<and> w = str_of_int number \<and>
    (\<forall>m. lo = Some m \<longrightarrow> m \<le> number) \<and> (\<forall>m. hi = Some m \<longrightarrow> number \<le> m) \<and>
    (\<forall>c. c \<in> set w \<longrightarrow> ascii_digit c \<or> c = CHR ''-'') \<and> list_all shlex_safe w"
proof -
  obtain number where n: "py_int (py_strip v) = Some number"
    using assms by (cases "py_int (py_strip v)") (auto simp: validate_integer_def)
  with assms have "w = str_of_int number" "\<forall>m. lo = Some m \<longrightarrow> m \<le> number" "\<forall>m. hi = Some m \<longrightarrow> number \<le> m"
    by (auto simp: validate_integer_def split: if_splits)
  with n show ?thesis
    using str_of_int_no_bad [of _ number] str_of_int_chars [of _ number] by (auto simp: list_all_iff)
qed

theorem validated_integer_is_canonical_witness:
  "validate_integer '' 007 '' ''AGE'' (Some 1) (Some 365) = Inr ''7'' \<and>
   (\<exists>number. py_int (py_strip '' 007 '') = Some number \<and> ''7'' = str_of_int number)"
proof -
  have "validate_integer '' 007 '' ''AGE'' (Some 1) (Some 365) = Inr ''7''" by code_simp
  with validated_integer_is_canonical [OF this] show ?thesis by blast
qed

end
