(* ===== verification/Device_Templates.thy ===== *)
theory Device_Templates
  imports Param_Security
begin

text \<open>
  Substitution of parameter values into the command templates of the device modules:
  \<^verbatim>\<open>_substitute_params\<close> of \<^verbatim>\<open>modules/linux/hardening/command_templates.py\<close>,
  \<^verbatim>\<open>_validated_value\<close> and the substitution loops of the apache and mongodb modules, and
  \<^verbatim>\<open>_validated_value\<close>, \<^verbatim>\<open>extract_parameters\<close> and \<^verbatim>\<open>substitute_parameters\<close> of the cisco and
  fortinet \<^verbatim>\<open>command_parser.py\<close>. The command templates and parameter registries themselves
  are data; they are arguments.

  Shown: where every inserted value is free of a character, substitution neither adds nor
  removes it, so the command structure stays the template's; and where a value may bring
  quotes or newlines, that structure can be broken.
\<close>

section \<open>Shared: parameter metadata and the substitution loop\<close>

record param_meta =
  pm_name :: string
  input_type :: string
  required :: bool
  default_value :: "string option"
  validation :: "string option"
  options :: "string list option"
  min_value :: "int option"
  max_value :: "int option"

type_synonym registry = "(string \<times> param_meta) list"

definition placeholder :: "string \<Rightarrow> string" where
  "placeholder name = CHR ''{'' # name @ ''}''"

text \<open>\<^verbatim>\<open>for name, value in parameters.items(): cmd = cmd.replace("{name}", insert(name, value))\<close>\<close>

fun substitute :: "(string \<Rightarrow> string \<Rightarrow> 'e + string) \<Rightarrow> (string \<times> string) list \<Rightarrow> string \<Rightarrow> 'e + string" where
  "substitute ins [] cmd = Inr cmd"
| "substitute ins ((name, value) # ps) cmd =
     res_bind (ins name value) (\<lambda>w. substitute ins ps (py_replace (placeholder name) w cmd))"

text \<open>\<^verbatim>\<open>map\<close> over the commands, stopping at the first error.\<close>

fun res_map :: "('a \<Rightarrow> 'e + 'b) \<Rightarrow> 'a list \<Rightarrow> 'e + 'b list" where
  "res_map f [] = Inr []"
| "res_map f (x # xs) = res_bind (f x) (\<lambda>y. res_bind (res_map f xs) (\<lambda>ys. Inr (y # ys)))"

lemma res_map_Inr: "res_map f xs = Inr ys \<longleftrightarrow> list_all2 (\<lambda>x y. f x = Inr y) xs ys"
  by (induction xs arbitrary: ys) (auto simp: res_bind_Inr_iff list_all2_Cons1)

section \<open>Linux\<close>

definition HEREDOC_PARAMS :: "string list" where
  "HEREDOC_PARAMS = [''MOTD_TEXT'', ''BANNER_TEXT'', ''SSH_BANNER_TEXT'']"

definition linux_insert :: "string \<Rightarrow> string \<Rightarrow> string checked" where
  "linux_insert name value =
     (if name \<in> set HEREDOC_PARAMS then validate_heredoc_body value name ''EOF'' 8192
      else Inr (quote_shell value))"

definition substitute_params :: "string \<Rightarrow> (string \<times> string) list \<Rightarrow> string checked" where
  "substitute_params cmd parameters = substitute linux_insert parameters cmd"

section \<open>Apache and MongoDB\<close>

definition apache_validated_value :: "registry \<Rightarrow> string \<Rightarrow> string \<Rightarrow> string checked" where
  "apache_validated_value reg name value =
     (if name \<in> {''SSL_CERT_FILE'', ''SSL_KEY_FILE''} then validate_path value name 255
      else if name = ''LISTEN_IP'' then validate_host_list value name 255
      else let fallback = reject_shell_breakout_chars value name
                 (if name = ''RESTRICTED_EXTENSIONS'' then [[CHR 0x22]] else []) 4096 in
        case map_of reg name of
          None \<Rightarrow> fallback
        | Some meta \<Rightarrow>
            if input_type meta = ''number'' then validate_integer value name (min_value meta) (max_value meta)
            else if input_type meta = ''select'' \<and> options meta \<noteq> None \<and> the (options meta) \<noteq> []
            then validate_select value name (the (options meta))
            else fallback)"

text \<open>The registry of \<^verbatim>\<open>modules/apache/hardening/parameter_metadata.py\<close> (labels and help texts apart).\<close>

definition text_param :: "string \<Rightarrow> bool \<Rightarrow> string option \<Rightarrow> string \<times> param_meta" where
  "text_param name req dflt = (name, \<lparr> pm_name = name, input_type = ''text'', required = req, default_value = dflt,
     validation = None, options = None, min_value = None, max_value = None \<rparr>)"

definition APACHE_PARAMETER_REGISTRY :: registry where
  "APACHE_PARAMETER_REGISTRY =
     [text_param ''SSL_PROTOCOLS'' False (Some ''all -SSLv3 -TLSv1 -TLSv1.1''),
      text_param ''SSL_CIPHER_SUITE'' False (Some (''ECDHE-ECDSA-AES128-GCM-SHA256:ECDHE-RSA-AES128-GCM-SHA256:'' @
        ''ECDHE-ECDSA-AES256-GCM-SHA384:ECDHE-RSA-AES256-GCM-SHA384:'' @ ''!aNULL:!eNULL:!EXP:!LOW:!RC4:!3DES:!IDEA'')),
      (''HSTS_MAX_AGE'', \<lparr> pm_name = ''HSTS_MAX_AGE'', input_type = ''number'', required = False,
        default_value = Some ''31536000'', validation = None, options = None,
        min_value = Some 86400, max_value = Some 63072000 \<rparr>),
      (''X_FRAME_OPTIONS'', \<lparr> pm_name = ''X_FRAME_OPTIONS'', input_type = ''select'', required = False,
        default_value = Some ''SAMEORIGIN'', validation = None, options = Some [''SAMEORIGIN'', ''DENY''],
        min_value = None, max_value = None \<rparr>),
      text_param ''SSL_CERT_FILE'' True None, text_param ''SSL_KEY_FILE'' True None,
      text_param ''RESTRICTED_EXTENSIONS'' False (Some ''bak|old|orig|save|inc|sql|ini|log|sh''),
      (''LISTEN_IP'', \<lparr> pm_name = ''LISTEN_IP'', input_type = ''ip'', required = True, default_value = None,
        validation = None, options = None, min_value = None, max_value = None \<rparr>)]"

definition apache_substitute_parameters :: "registry \<Rightarrow> string list \<Rightarrow> (string \<times> string) list \<Rightarrow> string list checked" where
  "apache_substitute_parameters reg commands parameters =
     (if parameters = [] then Inr commands
      else res_map (substitute (apache_validated_value reg) parameters) commands)"

definition mongodb_validated_value :: "registry \<Rightarrow> string \<Rightarrow> string \<Rightarrow> string checked" where
  "mongodb_validated_value reg name value =
     (if name \<in> {''KEYFILE_PATH'', ''TLS_CERT_FILE'', ''TLS_CA_FILE'', ''AUDIT_LOG_PATH''} then validate_path value name 255
      else if name = ''MONGO_SERVICE_USER'' then validate_identifier value name 64
      else if name = ''MONGO_BIND_IP'' then validate_host_list value name 255
      else if name = ''AUDIT_FILTER'' then escape_single_quoted_shell_literal value name [[CHR 0x22]] 8192
      else let fallback = reject_shell_breakout_chars value name [] 4096 in
        case map_of reg name of
          None \<Rightarrow> fallback
        | Some meta \<Rightarrow>
            if input_type meta = ''number'' then validate_integer value name (min_value meta) (max_value meta)
            else if input_type meta = ''select'' \<and> options meta \<noteq> None \<and> the (options meta) \<noteq> []
            then validate_select value name (the (options meta))
            else fallback)"

definition mongodb_template_commands :: "registry \<Rightarrow> string list \<Rightarrow> (string \<times> string) list \<Rightarrow> string list checked" where
  "mongodb_template_commands reg commands parameters =
     res_map (substitute (mongodb_validated_value reg) parameters) commands"

section \<open>Cisco and Fortinet\<close>

definition cisco_validated_value :: "registry \<Rightarrow> string \<Rightarrow> string \<Rightarrow> string checked" where
  "cisco_validated_value reg name value =
     (case map_of reg name of
        None \<Rightarrow> validate_cli_line value name 1024
      | Some meta \<Rightarrow>
          if input_type meta = ''textarea'' then validate_delimited_text value name ''^'' 8192
          else if input_type meta = ''number'' then validate_integer value name None None
          else validate_cli_line value name 1024)"

text \<open>The one multi-line parameter of the cisco registry.\<close>

definition CISCO_BANNER_REGISTRY :: registry where
  "CISCO_BANNER_REGISTRY = [(''BANNER_TEXT'', \<lparr> pm_name = ''BANNER_TEXT'', input_type = ''textarea'', required = True,
     default_value = None, validation = Some ''min_length:10'', options = None, min_value = None, max_value = None \<rparr>)]"

definition fortinet_validated_value :: "registry \<Rightarrow> string \<Rightarrow> string \<Rightarrow> string checked" where
  "fortinet_validated_value reg name value =
     (case map_of reg name of
        None \<Rightarrow> validate_cli_line value name 1024
      | Some meta \<Rightarrow> if input_type meta = ''number'' then validate_integer value name None None
          else validate_cli_line value name 1024)"

definition upper_or_underscore :: "char \<Rightarrow> bool" where
  "upper_or_underscore c = (65 \<le> ord_c c \<and> ord_c c \<le> 90 \<or> c = CHR ''_'')"

definition name_char :: "char \<Rightarrow> bool" where
  "name_char c = (upper_or_underscore c \<or> ascii_digit c)"

text \<open>\<^verbatim>\<open>findall\<close> of an opening character, a name and a closing character.\<close>

function find_names :: "(char \<Rightarrow> bool) \<Rightarrow> char \<Rightarrow> char \<Rightarrow> string \<Rightarrow> string list" where
  "find_names first op cl [] = []"
| "find_names first op cl (c # cs) =
     (let name = takeWhile name_char cs; after = dropWhile name_char cs in
      if c = op \<and> name \<noteq> [] \<and> first (hd name) \<and> after \<noteq> [] \<and> hd after = cl
      then name # find_names first op cl (tl after) else find_names first op cl cs)"
  by pat_completeness auto
termination
proof (relation "measure (\<lambda>(f, a, b, s). length s)")
  fix first :: "char \<Rightarrow> bool" and op cl c :: char and cs after :: string
  assume "after = dropWhile name_char cs"
  then show "((first, op, cl, tl after), (first, op, cl, c # cs)) \<in> measure (\<lambda>(f, a, b, s). length s)"
    using length_dropWhile_le [of name_char cs] by simp
qed auto

definition extract_parameters :: "string \<Rightarrow> string list" where
  "extract_parameters text = sorted_list_of_set (set (find_names upper_or_underscore CHR ''<'' CHR ''>'' text) \<union>
     set (find_names upper_or_underscore CHR ''{'' CHR ''}'' text))"

datatype device_error = Must_be_number string | Must_be_at_least int string | Missing_parameters "string list"
  | Param_error param_error

definition validate_parameter_values :: "(string \<times> string) list \<Rightarrow> device_error + unit" where
  "validate_parameter_values parameters =
     (case map_of parameters ''MODULUS'' of
        None \<Rightarrow> Inr ()
      | Some v \<Rightarrow> (let raw = py_strip v in
          if raw = [] then Inr ()
          else if \<not> list_all py_isdigit raw then Inl (Must_be_number raw)
          else case py_int raw of
              None \<Rightarrow> Inl (Must_be_number raw)
            | Some n \<Rightarrow> if n < 2048 then Inl (Must_be_at_least 2048 raw) else Inr ()))"

fun cli_substitute :: "(string \<Rightarrow> string \<Rightarrow> string checked) \<Rightarrow> (string \<times> string) list \<Rightarrow> string \<Rightarrow> string checked" where
  "cli_substitute ins [] cmd = Inr cmd"
| "cli_substitute ins ((name, value) # ps) cmd =
     res_bind (ins name value) (\<lambda>w.
       cli_substitute ins ps (py_replace (placeholder name) w (py_replace (CHR ''<'' # name @ ''>'') w cmd)))"

definition lift_param :: "'a checked \<Rightarrow> device_error + 'a" where
  "lift_param r = (case r of Inl e \<Rightarrow> Inl (Param_error e) | Inr x \<Rightarrow> Inr x)"

definition cisco_substitute_parameters ::
  "registry \<Rightarrow> string list \<Rightarrow> (string \<times> string) list \<Rightarrow> device_error + string list" where
  "cisco_substitute_parameters reg commands parameters =
     res_bind (validate_parameter_values parameters) (\<lambda>_.
       res_map (\<lambda>cmd.
         let missing = filter (\<lambda>p. case map_of parameters p of None \<Rightarrow> True | Some v \<Rightarrow> py_strip v = [])
               (extract_parameters cmd) in
         if missing \<noteq> [] then Inl (Missing_parameters missing)
         else lift_param (cli_substitute (cisco_validated_value reg) parameters cmd)) commands)"

definition fortinet_substitute_parameters ::
  "registry \<Rightarrow> string list \<Rightarrow> (string \<times> string) list \<Rightarrow> device_error + string list" where
  "fortinet_substitute_parameters reg commands parameters =
     res_map (\<lambda>cmd.
       let missing = filter (\<lambda>p. map_of parameters p = None) (extract_parameters cmd) in
       if missing \<noteq> [] then Inl (Missing_parameters missing)
       else lift_param (cli_substitute (fortinet_validated_value reg) parameters cmd)) commands"

section \<open>Substitution that keeps the template's structure\<close>

text \<open>
  The contract of a validator with respect to a class of characters: no accepted value
  contains one. Then no substitution loop over it changes how often one occurs.
\<close>

locale neutral =
  fixes ins :: "string \<Rightarrow> string \<Rightarrow> string checked" and bad :: "char \<Rightarrow> bool"
  assumes neutral: "ins name v = Inr w \<Longrightarrow> c \<in> set w \<Longrightarrow> \<not> bad c"
begin

lemma substitute_count:
  assumes "substitute ins ps cmd = Inr out" "bad c" "\<forall>p \<in> set ps. c \<notin> set (placeholder (fst p))"
  shows "count_list out c = count_list cmd c"
  using assms
proof (induction ps arbitrary: cmd)
  case (Cons p ps)
  obtain name v where p: "p = (name, v)" by (cases p)
  with Cons.prems(1) obtain w where w: "ins name v = Inr w"
    "substitute ins ps (py_replace (placeholder name) w cmd) = Inr out"
    by (auto simp: res_bind_Inr_iff)
  have "c \<notin> set w" using neutral [OF w(1)] Cons.prems(2) by blast
  then have "count_list (py_replace (placeholder name) w cmd) c = count_list cmd c"
    using Cons.prems(3) p by (intro count_py_replace) auto
  then show ?case using Cons.IH [OF w(2)] Cons.prems by simp
qed simp

lemma cli_substitute_count:
  assumes "cli_substitute ins ps cmd = Inr out" "bad c"
    "\<forall>p \<in> set ps. c \<notin> set (placeholder (fst p)) \<and> c \<noteq> CHR ''<'' \<and> c \<noteq> CHR ''>''"
  shows "count_list out c = count_list cmd c"
  using assms
proof (induction ps arbitrary: cmd)
  case (Cons p ps)
  obtain name v where p: "p = (name, v)" by (cases p)
  with Cons.prems(1) obtain w where w: "ins name v = Inr w"
    "cli_substitute ins ps (py_replace (placeholder name) w (py_replace (CHR ''<'' # name @ ''>'') w cmd)) = Inr out"
    by (auto simp: res_bind_Inr_iff)
  have c: "c \<notin> set w" using neutral [OF w(1)] Cons.prems(2) by blast
  have n: "c \<notin> set (placeholder name)" "c \<notin> set (CHR ''<'' # name @ ''>'')"
    using Cons.prems(3) p by (auto simp: placeholder_def)
  show ?case
    using Cons.IH [OF w(2)] Cons.prems count_py_replace [OF n(1) c] count_py_replace [OF n(2) c] by simp
qed simp

end

text \<open>The characters each validator keeps out.\<close>

definition shell_breakout :: "char \<Rightarrow> bool" where
  "shell_breakout c = ([c] \<in> set SHELL_BREAKOUT_CHARS)"

lemma shlex_safe_not_breakout: "shlex_safe c \<Longrightarrow> \<not> shell_breakout c"
  by (auto simp: shell_breakout_def SHELL_BREAKOUT_CHARS_def shlex_safe_def ascii_alpha_def ascii_digit_def)

text \<open>A registry whose select options bring none of them (the options are the module's own data).\<close>

definition clean_options :: "registry \<Rightarrow> bool" where
  "clean_options reg = (\<forall>m \<in> snd ` set reg. \<forall>os. options m = Some os \<longrightarrow>
     (\<forall>v \<in> set os. \<forall>c \<in> set v. \<not> shell_breakout c))"

lemma reject_shell_value:
  assumes "reject_shell_breakout_chars v f e n = Inr w" "c \<in> set w"
  shows "\<not> shell_breakout c"
proof
  assume "shell_breakout c"
  then have "[c] \<in> set (SHELL_BREAKOUT_CHARS @ e)" by (simp add: shell_breakout_def)
  moreover have "w = v" "\<forall>b \<in> set (SHELL_BREAKOUT_CHARS @ e). \<not> py_contains b v"
    using assms(1) unfolding reject_shell_breakout_chars_def checked_defs by auto
  ultimately show False using assms(2) py_contains_single by blast
qed

lemma charset_value_ok:
  "validate_path v f n = Inr w \<Longrightarrow> c \<in> set w \<Longrightarrow> \<not> shell_breakout c"
  "validate_identifier v f n = Inr w \<Longrightarrow> c \<in> set w \<Longrightarrow> \<not> shell_breakout c"
  "validate_host_list v f n = Inr w \<Longrightarrow> c \<in> set w \<Longrightarrow> \<not> shell_breakout c"
  using charset_shlex [of v f n w] shlex_safe_not_breakout [of c] by (auto simp: list_all_iff)

lemma integer_value_ok: "validate_integer v f lo hi = Inr w \<Longrightarrow> \<exists>n. w = str_of_int n"
  by (auto simp: validate_integer_def Let_def split: option.splits if_splits)

lemma integer_value_safe: "validate_integer v f lo hi = Inr w \<Longrightarrow> c \<in> set w \<Longrightarrow> \<not> shell_breakout c"
  using integer_value_ok str_of_int_no_bad shlex_safe_not_breakout by blast

lemma select_value_ok:
  assumes "clean_options reg" "map_of reg name = Some meta" "options meta = Some os"
    "validate_select v f os = Inr w" "c \<in> set w"
  shows "\<not> shell_breakout c"
proof -
  have "w \<in> set os" using assms(4) by (auto simp: validate_select_def raise_if_def split: if_splits)
  moreover have "meta \<in> snd ` set reg" using map_of_SomeD [OF assms(2)] by force
  ultimately show ?thesis using assms(1,3,5) by (auto simp: clean_options_def)
qed

lemmas value_ok = charset_value_ok reject_shell_value integer_value_safe

lemma apache_value_ok:
  assumes "clean_options reg" "apache_validated_value reg name v = Inr w" "c \<in> set w"
  shows "\<not> shell_breakout c"
proof -
  have opt: "\<not> shell_breakout c"
    if "map_of reg name = Some meta" "options meta = Some os" "validate_select v name os = Inr w" for meta os
    using select_value_ok [OF assms(1) that assms(3)] .
  show ?thesis
  proof (cases "map_of reg name")
    case None
    then show ?thesis using assms(2,3)
      by (auto simp: apache_validated_value_def Let_def dest: value_ok split: if_splits)
  next
    case (Some meta)
    then show ?thesis using assms(2,3) opt [OF Some]
      by (auto simp: apache_validated_value_def Let_def dest: value_ok split: if_splits)
  qed
qed

interpretation apache: neutral "apache_validated_value APACHE_PARAMETER_REGISTRY" shell_breakout
proof
  have "clean_options APACHE_PARAMETER_REGISTRY"
    by (auto simp: clean_options_def APACHE_PARAMETER_REGISTRY_def text_param_def shell_breakout_def SHELL_BREAKOUT_CHARS_def)
  then show "apache_validated_value APACHE_PARAMETER_REGISTRY name v = Inr w \<Longrightarrow> c \<in> set w \<Longrightarrow> \<not> shell_breakout c"
    for name v w c by (rule apache_value_ok)
qed

lemma cli_line_value: "validate_cli_line v f n = Inr w \<Longrightarrow> c \<in> set w \<Longrightarrow> \<not> newline_char c"
  by (auto simp: validate_cli_line_def checked_defs control_char_def newline_char_def)

lemma integer_no_newline: "validate_integer v f lo hi = Inr w \<Longrightarrow> c \<in> set w \<Longrightarrow> \<not> newline_char c"
  using integer_value_ok [of v f lo hi w] str_of_int_chars [of c]
  by (auto simp: newline_char_def ascii_digit_def)

interpretation fortinet: neutral "fortinet_validated_value reg" newline_char for reg
  by unfold_locales
    (auto simp: fortinet_validated_value_def dest: cli_line_value integer_no_newline split: option.splits if_splits)

section \<open>Properties\<close>

text \<open>The parameter names of the templates: upper-case letters, digits, underscores.\<close>

definition plain_names :: "(string \<times> string) list \<Rightarrow> bool" where
  "plain_names ps = list_all (\<lambda>(name, _). list_all name_char name) ps"

lemma plain_names_placeholder:
  assumes "plain_names ps" "\<not> name_char c" "c \<noteq> CHR ''{''" "c \<noteq> CHR ''}''"
  shows "\<forall>p \<in> set ps. c \<notin> set (placeholder (fst p))"
  using assms by (auto simp: plain_names_def placeholder_def list_all_iff)

lemma breakout_not_name: "shell_breakout c \<Longrightarrow> \<not> name_char c \<and> c \<noteq> CHR ''{'' \<and> c \<noteq> CHR ''}''"
  by (auto simp: shell_breakout_def SHELL_BREAKOUT_CHARS_def name_char_def upper_or_underscore_def ascii_digit_def)

lemma newline_not_name: "newline_char c \<Longrightarrow> \<not> name_char c \<and> c \<noteq> CHR ''{'' \<and> c \<noteq> CHR ''}'' \<and> c \<noteq> CHR ''<'' \<and> c \<noteq> CHR ''>''"
  by (auto simp: newline_char_def name_char_def upper_or_underscore_def ascii_digit_def)

text \<open>
  An Apache hardening command keeps its template's shell structure: every quote,
  dollar, backtick, backslash, semicolon, newline, carriage return and NUL of the command
  that runs is one of the template's own, whatever values the operator gave.
\<close>

theorem apache_commands_keep_structure:
  assumes "apache_substitute_parameters APACHE_PARAMETER_REGISTRY commands ps = Inr outs" "plain_names ps"
  shows "list_all2 (\<lambda>cmd out. \<forall>c. shell_breakout c \<longrightarrow> count_list out c = count_list cmd c) commands outs"
proof (cases "ps = []")
  case True
  then show ?thesis using assms(1) by (auto simp: apache_substitute_parameters_def list.rel_refl)
next
  case False
  then have "list_all2 (\<lambda>cmd out. substitute (apache_validated_value APACHE_PARAMETER_REGISTRY) ps cmd = Inr out) commands outs"
    using assms(1) by (simp add: apache_substitute_parameters_def res_map_Inr)
  then show ?thesis
  proof (rule list_all2_mono)
    fix cmd out assume "substitute (apache_validated_value APACHE_PARAMETER_REGISTRY) ps cmd = Inr out"
    then show "\<forall>c. shell_breakout c \<longrightarrow> count_list out c = count_list cmd c"
      using apache.substitute_count plain_names_placeholder [OF assms(2)] breakout_not_name by blast
  qed
qed

theorem apache_commands_keep_structure_witness:
  "apache_substitute_parameters APACHE_PARAMETER_REGISTRY [''test -f {SSL_CERT_FILE}''] [(''SSL_CERT_FILE'', ''/etc/a.pem'')] =
     Inr [''test -f /etc/a.pem''] \<and>
   list_all2 (\<lambda>cmd out. \<forall>c. shell_breakout c \<longrightarrow> count_list out c = count_list cmd c)
     [''test -f {SSL_CERT_FILE}''] [''test -f /etc/a.pem'']"
proof -
  have "apache_substitute_parameters APACHE_PARAMETER_REGISTRY [''test -f {SSL_CERT_FILE}''] [(''SSL_CERT_FILE'', ''/etc/a.pem'')] =
     Inr [''test -f /etc/a.pem'']" "plain_names [(''SSL_CERT_FILE'', ''/etc/a.pem'')]" by code_simp+
  with apache_commands_keep_structure [OF this] show ?thesis by blast
qed

text \<open>
  A FortiGate command stays one command: no value brings a line break, so each
  command sent has exactly the line breaks of its template.
\<close>

theorem fortinet_commands_stay_single:
  assumes "fortinet_substitute_parameters reg commands ps = Inr outs" "plain_names ps"
  shows "list_all2 (\<lambda>cmd out. \<forall>c. newline_char c \<longrightarrow> count_list out c = count_list cmd c) commands outs"
proof -
  have "list_all2 (\<lambda>cmd out. cli_substitute (fortinet_validated_value reg) ps cmd = Inr out) commands outs"
    using assms(1) unfolding fortinet_substitute_parameters_def res_map_Inr
    by (rule list_all2_mono) (auto simp: lift_param_def Let_def split: if_splits sum.splits)
  then show ?thesis
  proof (rule list_all2_mono)
    fix cmd out assume "cli_substitute (fortinet_validated_value reg) ps cmd = Inr out"
    then show "\<forall>c. newline_char c \<longrightarrow> count_list out c = count_list cmd c"
      using fortinet.cli_substitute_count plain_names_placeholder [OF assms(2)] newline_not_name by blast
  qed
qed

theorem fortinet_commands_stay_single_witness:
  "list_all2 (\<lambda>cmd out. \<forall>c. newline_char c \<longrightarrow> count_list out c = count_list cmd c)
     [''set admintimeout {ADMIN_TIMEOUT}''] [''set admintimeout 10'']"
proof -
  have "fortinet_substitute_parameters [] [''set admintimeout {ADMIN_TIMEOUT}''] [(''ADMIN_TIMEOUT'', ''10'')] =
     Inr [''set admintimeout 10'']" "plain_names [(''ADMIN_TIMEOUT'', ''10'')]" by code_simp+
  then show ?thesis by (rule fortinet_commands_stay_single)
qed

text \<open>
  Two ways in which a substituted value leaves its place. A Linux value is quoted
  with \<^verbatim>\<open>shlex.quote\<close> also where the template has already opened a single quote, as in the
  sed programs: the value's quotes then close the template's, and the shell ends the
  command at a semicolon in the value. A Cisco single-line value may name the banner
  parameter, whose multi-line text the next replacement puts into the command line.
\<close>

theorem substituted_values_break_out:
  "substitute_params ''sed -i 's/^#*MaxAuthTries.*/MaxAuthTries {SSH_MAX_AUTH_TRIES}/' /etc/ssh/sshd_config''
      [(''SSH_MAX_AUTH_TRIES'', ''4; reboot #'')] =
    Inr ''sed -i 's/^#*MaxAuthTries.*/MaxAuthTries '4; reboot #'/' /etc/ssh/sshd_config'' \<and>
   sh_word (CHR 0x27 # ''s/^#*MaxAuthTries.*/MaxAuthTries '4; reboot #'/' /etc/ssh/sshd_config'') =
    Some (''s/^#*MaxAuthTries.*/MaxAuthTries 4'', ''; reboot #'/' /etc/ssh/sshd_config'') \<and>
   cisco_substitute_parameters CISCO_BANNER_REGISTRY [''hostname {HOSTNAME}'']
      [(''HOSTNAME'', ''r1{BANNER_TEXT}''), (''BANNER_TEXT'', CHR 0x0A # ''reload'')] =
    Inr [''hostname r1'' @ CHR 0x0A # ''reload'']"
proof -
  have "substitute_params ''sed -i 's/^#*MaxAuthTries.*/MaxAuthTries {SSH_MAX_AUTH_TRIES}/' /etc/ssh/sshd_config''
      [(''SSH_MAX_AUTH_TRIES'', ''4; reboot #'')] =
    Inr ''sed -i 's/^#*MaxAuthTries.*/MaxAuthTries '4; reboot #'/' /etc/ssh/sshd_config''" by code_simp
  moreover have "sh_word (CHR 0x27 # ''s/^#*MaxAuthTries.*/MaxAuthTries '4; reboot #'/' /etc/ssh/sshd_config'') =
    Some (''s/^#*MaxAuthTries.*/MaxAuthTries 4'', ''; reboot #'/' /etc/ssh/sshd_config'')" by code_simp
  moreover have "cisco_substitute_parameters CISCO_BANNER_REGISTRY [''hostname {HOSTNAME}'']
      [(''HOSTNAME'', ''r1{BANNER_TEXT}''), (''BANNER_TEXT'', CHR 0x0A # ''reload'')] =
    Inr [''hostname r1'' @ CHR 0x0A # ''reload'']" by code_simp
  ultimately show ?thesis by blast
qed

end
