(* ===== verification/Benchmark_Templates.thy ===== *)
theory Benchmark_Templates
  imports Device_Templates
begin

text \<open>
  Remediation templates of the benchmark modules and one run of a fix:
  \<^verbatim>\<open>modules/benchmark/templates.py\<close> (\<^verbatim>\<open>TemplateSet\<close>) and \<^verbatim>\<open>run_template\<close> of
  \<^verbatim>\<open>modules/benchmark/hardening_service.py\<close>. Dictionaries are association lists in insertion
  order; \<open>fullmatch\<close> is \<^verbatim>\<open>re.fullmatch\<close> on a parameter's own pattern, an argument. The
  connection is an argument as well: \<open>execute\<close> maps the device state and a statement to the
  new state and either an error text or the output.

  Shown: rendering adds no metacharacter and leaves no way for one value to smuggle in
  another; nothing reaches the device unless the fix is complete and valid; a reported
  success means every statement ran and verification said PASS, where there is one.
\<close>

section \<open>The template set\<close>

record hardening_template =
  check_id :: string
  description :: string
  statements :: "string list"
  verify_statements :: "string list"
  requires_restart :: bool
  manual_only :: bool
  parameters :: "string list"

record template_set =
  templates :: "(string \<times> hardening_template) list"
  ts_params :: registry

definition ts_add :: "hardening_template \<Rightarrow> template_set \<Rightarrow> template_set" where
  "ts_add t s = s\<lparr> templates := AList.update (check_id t) t (templates s) \<rparr>"

definition ts_manual :: "string \<Rightarrow> string \<Rightarrow> template_set \<Rightarrow> template_set" where
  "ts_manual cid desc s = ts_add \<lparr> check_id = cid, description = desc, statements = [], verify_statements = [],
     requires_restart = False, manual_only = True, parameters = [] \<rparr> s"

definition ts_param :: "param_meta \<Rightarrow> template_set \<Rightarrow> template_set" where
  "ts_param m s = s\<lparr> ts_params := AList.update (pm_name m) m (ts_params s) \<rparr>"

definition ts_get :: "template_set \<Rightarrow> string \<Rightarrow> hardening_template option" where
  "ts_get s cid = map_of (templates s) cid"

definition supported :: "template_set \<Rightarrow> string list" where
  "supported s = sort (map fst (templates s))"

definition params_for :: "template_set \<Rightarrow> string \<Rightarrow> param_meta list" where
  "params_for s cid = (case ts_get s cid of None \<Rightarrow> []
     | Some t \<Rightarrow> List.map_filter (map_of (ts_params s)) (parameters t))"

definition has_fix :: "template_set \<Rightarrow> string \<Rightarrow> bool" where
  "has_fix s cid = (case ts_get s cid of None \<Rightarrow> False | Some t \<Rightarrow> \<not> manual_only t)"

definition auto_fixable :: "template_set \<Rightarrow> string \<Rightarrow> bool" where
  "auto_fixable s cid = (has_fix s cid \<and> list_all (\<lambda>p. default_value p \<noteq> None) (params_for s cid))"

definition dict_of :: "(string \<times> 'v) list \<Rightarrow> (string \<times> 'v) list" where
  "dict_of kvs = fold (\<lambda>(k, v) d. AList.update k v d) kvs []"

definition defaults :: "template_set \<Rightarrow> string \<Rightarrow> (string \<times> string) list" where
  "defaults s cid = dict_of (List.map_filter (\<lambda>p. map_option (\<lambda>d. (pm_name p, d)) (default_value p)) (params_for s cid))"

text \<open>A caller's value is \<open>None\<close> or the text \<^verbatim>\<open>str(v)\<close>.\<close>

definition merged :: "template_set \<Rightarrow> string \<Rightarrow> (string \<times> string option) list \<Rightarrow> (string \<times> string) list" where
  "merged s cid ps = fold (\<lambda>(k, v) d. case v of None \<Rightarrow> d
     | Some t \<Rightarrow> if py_strip t = [] then d else AList.update k t d) ps (defaults s cid)"

definition categorize :: "template_set \<Rightarrow> string list \<Rightarrow> string list \<times> string list \<times> string list" where
  "categorize s cids = foldl (\<lambda>(auto, needs, unsupported) cid.
     if \<not> has_fix s cid then (auto, needs, unsupported @ [cid])
     else if auto_fixable s cid then (auto @ [cid], needs, unsupported)
     else (auto, needs @ [cid], unsupported)) ([], [], []) cids"

definition missing :: "template_set \<Rightarrow> string \<Rightarrow> (string \<times> string option) list \<Rightarrow> string list" where
  "missing s cid ps = (let m = merged s cid ps in
     map pm_name (filter (\<lambda>p. required p \<and> default_value p = None \<and>
       (case map_of m (pm_name p) of None \<Rightarrow> True | Some v \<Rightarrow> v = [])) (params_for s cid)))"

section \<open>Validation and substitution\<close>

definition UNSAFE_TEXT_CHARS :: "char list" where
  "UNSAFE_TEXT_CHARS = [CHR 0x27, CHR 0x22, CHR ''`'', CHR ''$'', CHR '';'', CHR ''|'', CHR ''&'', CHR ''<'', CHR ''>'',
     CHR 0x0A, CHR 0x0D, CHR ''{'', CHR ''}'', CHR 0x5C]"

datatype value_error = Not_in_options string string | Value_not_number string string | Value_below string int int
  | Value_above string int int | Unsupported_character string char | Not_expected_format string string

definition value_error_of :: "(string \<Rightarrow> string \<Rightarrow> bool) \<Rightarrow> param_meta \<Rightarrow> string \<Rightarrow> string \<Rightarrow> value_error option" where
  "value_error_of fullmatch meta name value =
     (case options meta of
        Some (x # xs) \<Rightarrow> if value \<in> set (x # xs) then None else Some (Not_in_options name value)
      | _ \<Rightarrow>
          if input_type meta = ''number'' then
            (case py_int value of
               None \<Rightarrow> Some (Value_not_number name value)
             | Some n \<Rightarrow>
                 if (\<exists>m \<in> set_option (min_value meta). n < m) then Some (Value_below name n (the (min_value meta)))
                 else if (\<exists>m \<in> set_option (max_value meta). n > m) then Some (Value_above name n (the (max_value meta)))
                 else None)
          else (case List.find (\<lambda>c. c \<in> set value) UNSAFE_TEXT_CHARS of
              Some c \<Rightarrow> Some (Unsupported_character name c)
            | None \<Rightarrow> (case validation meta of
                 None \<Rightarrow> None
               | Some pat \<Rightarrow> if pat \<noteq> [] \<and> \<not> fullmatch pat value then Some (Not_expected_format name value) else None)))"

definition allowed :: "template_set \<Rightarrow> string \<Rightarrow> (string \<times> param_meta) list" where
  "allowed s cid = dict_of (map (\<lambda>p. (pm_name p, p)) (params_for s cid))"

fun first_error :: "('a \<Rightarrow> 'e option) \<Rightarrow> 'a list \<Rightarrow> 'e option" where
  "first_error f [] = None"
| "first_error f (x # xs) = (case f x of Some e \<Rightarrow> Some e | None \<Rightarrow> first_error f xs)"

definition validate_values ::
  "(string \<Rightarrow> string \<Rightarrow> bool) \<Rightarrow> template_set \<Rightarrow> string \<Rightarrow> (string \<times> string) list \<Rightarrow> value_error option" where
  "validate_values fullmatch s cid ps = first_error (\<lambda>(name, value).
     case map_of (allowed s cid) name of None \<Rightarrow> None | Some meta \<Rightarrow> value_error_of fullmatch meta name value) ps"

text \<open>The text inserted for a parameter: a number in its canonical form.\<close>

definition render_value :: "param_meta \<Rightarrow> string \<Rightarrow> string" where
  "render_value meta value =
     (if input_type meta = ''number'' \<and> (case options meta of Some (x # xs) \<Rightarrow> False | _ \<Rightarrow> True)
      then (case py_int value of Some n \<Rightarrow> str_of_int n | None \<Rightarrow> value) else value)"

definition render_values :: "template_set \<Rightarrow> string \<Rightarrow> (string \<times> string) list \<Rightarrow> (string \<times> string) list" where
  "render_values s cid params = List.map_filter (\<lambda>(name, meta).
     map_option (\<lambda>v. (name, render_value meta v)) (map_of params name)) (allowed s cid)"

definition render_statement :: "(string \<times> string) list \<Rightarrow> string \<Rightarrow> string" where
  "render_statement values stmt = fold (\<lambda>(name, value) st. py_replace (placeholder name) value st) values stmt"

definition render ::
  "(string \<Rightarrow> string \<Rightarrow> bool) \<Rightarrow> template_set \<Rightarrow> string list \<Rightarrow> string \<Rightarrow> (string \<times> string option) list
    \<Rightarrow> value_error + string list" where
  "render fullmatch s stmts cid ps =
     (let params = merged s cid ps in
      case validate_values fullmatch s cid params of
        Some e \<Rightarrow> Inl e
      | None \<Rightarrow> Inr (map (render_statement (render_values s cid params)) stmts))"

definition ts_statements where
  "ts_statements fullmatch s cid ps = (case ts_get s cid of None \<Rightarrow> Inr [] | Some t \<Rightarrow> render fullmatch s (statements t) cid ps)"

definition ts_verify_statements where
  "ts_verify_statements fullmatch s cid ps =
     (case ts_get s cid of None \<Rightarrow> Inr [] | Some t \<Rightarrow> render fullmatch s (verify_statements t) cid ps)"

section \<open>One run of a fix\<close>

datatype run_error = No_template | Manual_remediation | Missing_params "string list" | Bad_value value_error
  | No_signal | Statement_failed "string list"

record run_result =
  success :: bool
  executed :: "string list"
  outputs :: "(string \<times> string) list"
  verification_result :: "string option"
  error_message :: "run_error option"
  r_requires_restart :: bool
  r_manual_only :: bool

type_synonym 's connection = "'s \<Rightarrow> string \<Rightarrow> 's \<times> (string + string)"

definition placeholders :: "string \<Rightarrow> string list" where
  "placeholders stmt = find_names (\<lambda>c. 65 \<le> ord_c c \<and> ord_c c \<le> 90) CHR ''{'' CHR ''}'' stmt"

text \<open>The statement loop: stops at the first error. Returns state, executed, outputs, errors.\<close>

fun run_statements :: "'s connection \<Rightarrow> 's \<Rightarrow> string list \<Rightarrow> string list \<Rightarrow> (string \<times> string) list
    \<Rightarrow> 's \<times> string list \<times> (string \<times> string) list \<times> string list" where
  "run_statements execute dev [] ex outs = (dev, ex, outs, [])"
| "run_statements execute dev (stmt # rest) ex outs =
     (case execute dev stmt of
        (dev', Inr out) \<Rightarrow> run_statements execute dev' rest (ex @ [stmt]) (AList.update (take 100 stmt) out outs)
      | (dev', Inl err) \<Rightarrow> (dev', ex, AList.update (take 100 stmt) (''ERROR: '' @ take 200 err) outs, [take 200 err]))"

fun run_verify :: "'s connection \<Rightarrow> 's \<Rightarrow> string list \<Rightarrow> 's \<times> string list" where
  "run_verify execute dev [] = (dev, [])"
| "run_verify execute dev (v # vs) =
     (case execute dev v of (dev', r) \<Rightarrow>
        (case run_verify execute dev' vs of (dev'', outs) \<Rightarrow>
           (dev'', (case r of Inr out \<Rightarrow> out | Inl err \<Rightarrow> ''ERROR: '' @ take 200 err) # outs)))"

fun join_lines :: "string list \<Rightarrow> string" where
  "join_lines [] = []"
| "join_lines [x] = x"
| "join_lines (x # xs) = x @ CHR 0x0A # join_lines xs"

definition empty_result :: run_result where
  "empty_result = \<lparr> success = False, executed = [], outputs = [], verification_result = None,
     error_message = None, r_requires_restart = False, r_manual_only = False \<rparr>"

definition run_checked :: "'s connection \<Rightarrow> 's \<Rightarrow> string list \<Rightarrow> string list \<Rightarrow> run_result \<Rightarrow> run_result \<times> 's" where
  "run_checked execute dev stmts verify base =
     (case run_statements execute dev stmts [] [] of (dev1, ex, outs, errors) \<Rightarrow>
        (let r = base\<lparr> executed := ex, outputs := outs \<rparr>;
             (r, dev2) =
               (if verify \<noteq> [] then
                  (case run_verify execute dev1 verify of (d, vouts) \<Rightarrow>
                     (let text = join_lines vouts; r = r\<lparr> verification_result := Some text \<rparr> in
                      (if py_contains ''FAIL'' text then r\<lparr> success := False \<rparr>
                       else if py_contains ''PASS'' text then r\<lparr> success := (errors = []) \<rparr>
                       else r\<lparr> error_message := Some No_signal \<rparr>, d)))
                else (r\<lparr> success := (errors = []) \<rparr>, dev1))
         in (if errors \<noteq> [] \<and> \<not> success r then r\<lparr> error_message := Some (Statement_failed (take 3 errors)) \<rparr> else r, dev2)))"

definition run_template ::
  "(string \<Rightarrow> string \<Rightarrow> bool) \<Rightarrow> template_set \<Rightarrow> 's connection \<Rightarrow> 's \<Rightarrow> string \<Rightarrow> (string \<times> string option) list
    \<Rightarrow> run_result \<times> 's" where
  "run_template fullmatch s execute dev cid ps =
     (case ts_get s cid of
        None \<Rightarrow> (empty_result\<lparr> error_message := Some No_template \<rparr>, dev)
      | Some t \<Rightarrow>
          (let base = empty_result\<lparr> r_requires_restart := requires_restart t, r_manual_only := manual_only t \<rparr> in
           if manual_only t then (base\<lparr> error_message := Some Manual_remediation \<rparr>, dev)
           else if missing s cid ps \<noteq> [] then (base\<lparr> error_message := Some (Missing_params (missing s cid ps)) \<rparr>, dev)
           else case ts_statements fullmatch s cid ps of
               Inl e \<Rightarrow> (base\<lparr> error_message := Some (Bad_value e) \<rparr>, dev)
             | Inr stmts \<Rightarrow> (case ts_verify_statements fullmatch s cid ps of
                   Inl e \<Rightarrow> (base\<lparr> error_message := Some (Bad_value e) \<rparr>, dev)
                 | Inr verify \<Rightarrow>
                     (let leftover = sorted_list_of_set (placeholder ` set (concat (map placeholders (stmts @ verify)))) in
                      if leftover \<noteq> [] then (base\<lparr> error_message := Some (Missing_params leftover) \<rparr>, dev)
                      else run_checked execute dev stmts verify base))))"


section \<open>Properties\<close>

subsection \<open>Rendering\<close>

definition unsafe_text :: "char \<Rightarrow> bool" where
  "unsafe_text c = (c \<in> set UNSAFE_TEXT_CHARS)"

text \<open>What the module's own parameter data has to satisfy: plain names, harmless options.\<close>

definition clean_params :: "template_set \<Rightarrow> string \<Rightarrow> bool" where
  "clean_params s cid = list_all (\<lambda>p. list_all name_char (pm_name p) \<and>
     (case options p of None \<Rightarrow> True | Some os \<Rightarrow> list_all (list_all (\<lambda>c. \<not> unsafe_text c)) os)) (params_for s cid)"

lemma dict_of_distinct: "distinct (map fst (dict_of kvs))"
proof -
  have "distinct (map fst d) \<Longrightarrow> distinct (map fst (fold (\<lambda>(k, v) d. AList.update k v d) kvs d))" for d
    by (induction kvs arbitrary: d) (auto intro: distinct_update)
  then show ?thesis by (simp add: dict_of_def)
qed

lemma set_update_subset: "set (AList.update k v d) \<subseteq> insert (k, v) (set d)"
  by (induction d) auto

lemma dict_of_subset: "set (dict_of kvs) \<subseteq> set kvs"
proof -
  have "set (fold (\<lambda>(k, v) d. AList.update k v d) kvs d) \<subseteq> set d \<union> set kvs" for d
  proof (induction kvs arbitrary: d)
    case (Cons kv kvs)
    then show ?case using set_update_subset [of "fst kv" "snd kv" d] by (cases kv) fastforce
  qed simp
  from this [of "[]"] show ?thesis by (simp add: dict_of_def)
qed

lemma allowed_meta: "(name, meta) \<in> set (allowed s cid) \<Longrightarrow> meta \<in> set (params_for s cid) \<and> pm_name meta = name"
  using dict_of_subset by (fastforce simp: allowed_def)

lemma first_error_None: "first_error f xs = None \<longleftrightarrow> (\<forall>x \<in> set xs. f x = None)"
  by (induction xs) (auto split: option.splits)

lemma str_of_int_not_unsafe: "c \<in> set (str_of_int n) \<Longrightarrow> \<not> unsafe_text c"
  by (auto simp: unsafe_text_def UNSAFE_TEXT_CHARS_def ascii_digit_def dest!: str_of_int_chars)

lemma render_value_safe:
  assumes "value_error_of fullmatch meta name v = None"
    and "case options meta of None \<Rightarrow> True | Some os \<Rightarrow> list_all (list_all (\<lambda>c. \<not> unsafe_text c)) os"
    and "c \<in> set (render_value meta v)"
  shows "\<not> unsafe_text c"
proof (cases "\<exists>x xs. options meta = Some (x # xs)")
  case True
  then show ?thesis using assms
    by (auto simp: value_error_of_def render_value_def list_all_iff split: if_splits)
next
  case False
  then have opt: "(case options meta of Some (x # xs) \<Rightarrow> a | _ \<Rightarrow> b) = b" for a b :: 'z
    by (auto split: option.split list.split)
  have opt2: "(case options meta of Some (x # xs) \<Rightarrow> f x xs | _ \<Rightarrow> b) = b" for f and b :: "value_error option"
    using False by (auto split: option.split list.split)
  show ?thesis
  proof (cases "input_type meta = ''number''")
    case True
    then obtain n where "py_int v = Some n"
      using assms(1) opt2 by (cases "py_int v") (auto simp: value_error_of_def)
    then have "render_value meta v = str_of_int n"
      using True False by (auto simp: render_value_def split: option.split list.split)
    then show ?thesis using assms(3) str_of_int_not_unsafe by simp
  next
    case no: False
    then have "List.find (\<lambda>c. c \<in> set v) UNSAFE_TEXT_CHARS = None"
      using assms(1) opt2 unfolding value_error_of_def by (auto split: option.splits)
    then have "\<forall>c \<in> set UNSAFE_TEXT_CHARS. c \<notin> set v" by (simp add: find_None_iff_all)
    moreover have "render_value meta v = v" using no by (simp add: render_value_def)
    ultimately show ?thesis using assms(3) by (auto simp: unsafe_text_def)
  qed
qed

lemma render_values_safe:
  assumes "validate_values fullmatch s cid params = None" "clean_params s cid"
    and "(name, w) \<in> set (render_values s cid params)"
  shows "list_all name_char name \<and> (\<forall>c \<in> set w. \<not> unsafe_text c)"
proof -
  obtain meta v where m: "(name, meta) \<in> set (allowed s cid)" "map_of params name = Some v" "w = render_value meta v"
    using assms(3) by (auto simp: render_values_def List.map_filter_def)
  have "map_of (allowed s cid) name = Some meta"
    using m(1) dict_of_distinct by (auto simp: allowed_def intro!: map_of_is_SomeI)
  moreover have "(name, v) \<in> set params" using m(2) by (rule map_of_SomeD)
  ultimately have "value_error_of fullmatch meta name v = None"
    using assms(1) by (auto simp: validate_values_def first_error_None)
  moreover have "list_all name_char (pm_name meta) \<and>
      (case options meta of None \<Rightarrow> True | Some os \<Rightarrow> list_all (list_all (\<lambda>c. \<not> unsafe_text c)) os)"
    using assms(2) allowed_meta [OF m(1)] by (auto simp: clean_params_def list_all_iff)
  ultimately show ?thesis using render_value_safe m(3) allowed_meta [OF m(1)] by blast
qed

lemma render_statement_count:
  assumes "\<forall>(name, w) \<in> set vals. c \<notin> set (placeholder name) \<and> c \<notin> set w"
  shows "count_list (render_statement vals stmt) c = count_list stmt c"
  using assms unfolding render_statement_def
  by (induction vals arbitrary: stmt) (auto simp: count_py_replace)

text \<open>
  A rendered remediation statement has exactly its template's quotes, backticks,
  dollars, semicolons, pipes, ampersands, redirections, backslashes and line breaks: every
  accepted value, text, number or option, is free of them. A value that is not accepted
  renders nothing.
\<close>

theorem rendered_statements_keep_structure:
  assumes "render fullmatch s stmts cid ps = Inr outs" "clean_params s cid"
    and "unsafe_text c" "c \<noteq> CHR ''{''" "c \<noteq> CHR ''}''"
  shows "map (\<lambda>st. count_list st c) outs = map (\<lambda>st. count_list st c) stmts"
proof -
  let ?params = "merged s cid ps" and ?vals = "render_values s cid (merged s cid ps)"
  have v: "validate_values fullmatch s cid ?params = None" and o: "outs = map (render_statement ?vals) stmts"
    using assms(1) by (auto simp: render_def Let_def split: option.splits)
  have "\<not> name_char c"
    using assms(3) by (auto simp: unsafe_text_def UNSAFE_TEXT_CHARS_def name_char_def upper_or_underscore_def ascii_digit_def)
  then have "c \<notin> set (placeholder name) \<and> c \<notin> set w" if "(name, w) \<in> set ?vals" for name w
    using render_values_safe [OF v assms(2) that] assms(3-5) by (auto simp: placeholder_def list_all_iff)
  then have "\<forall>(name, w) \<in> set ?vals. c \<notin> set (placeholder name) \<and> c \<notin> set w" by blast
  from render_statement_count [OF this] show ?thesis by (simp add: o)
qed

text \<open>A small template set: one number, one text parameter.\<close>

definition demo_ts :: template_set where
  "demo_ts = ts_param \<lparr> pm_name = ''AGE'', input_type = ''number'', required = True, default_value = Some ''90'',
       validation = None, options = None, min_value = Some 1, max_value = Some 365 \<rparr>
     (ts_add \<lparr> check_id = ''X-1'', description = ''d'', statements = [''net accounts /maxpwage:{AGE}''],
        verify_statements = [''check {AGE}''], requires_restart = False, manual_only = False, parameters = [''AGE''] \<rparr>
     \<lparr> templates = [], ts_params = [] \<rparr>)"

theorem rendered_statements_keep_structure_witness:
  "render (\<lambda>_ _. True) demo_ts [''net accounts /maxpwage:{AGE}''] ''X-1'' [(''AGE'', Some '' 060 '')] =
     Inr [''net accounts /maxpwage:60''] \<and>
   map (\<lambda>st. count_list st CHR '';'') [''net accounts /maxpwage:60''] =
     map (\<lambda>st. count_list st CHR '';'') [''net accounts /maxpwage:{AGE}'']"
proof -
  have "render (\<lambda>_ _. True) demo_ts [''net accounts /maxpwage:{AGE}''] ''X-1'' [(''AGE'', Some '' 060 '')] =
     Inr [''net accounts /maxpwage:60'']" "clean_params demo_ts ''X-1''" "unsafe_text CHR '';''" by code_simp+
  with rendered_statements_keep_structure [OF this] show ?thesis by simp
qed


subsection \<open>Running\<close>

lemma run_statements_all:
  "run_statements execute dev stmts ex outs = (dev', ex', outs', []) \<Longrightarrow> ex' = ex @ stmts"
  by (induction stmts arbitrary: dev ex outs) (fastforce split: prod.splits sum.splits)+

lemma run_checked_success:
  assumes "run_checked execute dev stmts verify base = (r, dev')" "success r" "\<not> success base"
  shows "executed r = stmts \<and> (verify \<noteq> [] \<longrightarrow> (\<exists>text. verification_result r = Some text \<and>
    py_contains ''PASS'' text \<and> \<not> py_contains ''FAIL'' text))"
proof -
  obtain dev1 ex outs errors where rs: "run_statements execute dev stmts [] [] = (dev1, ex, outs, errors)"
    by (cases "run_statements execute dev stmts [] []")
  obtain d vouts where rv: "run_verify execute dev1 verify = (d, vouts)" by fastforce
  have "errors = []" "executed r = ex" and v: "verify \<noteq> [] \<longrightarrow> (\<exists>text. verification_result r = Some text \<and>
      py_contains ''PASS'' text \<and> \<not> py_contains ''FAIL'' text)"
    using assms by (auto simp: run_checked_def rs rv Let_def split: if_splits)
  then show ?thesis using run_statements_all rs by fastforce
qed

lemma run_checked_error:
  assumes "run_checked execute dev stmts verify base = (r, dev')" "error_message base = None"
  shows "error_message r \<in> {None, Some No_signal} \<or> (\<exists>es. error_message r = Some (Statement_failed es))"
proof -
  obtain dev1 ex outs errors where rs: "run_statements execute dev stmts [] [] = (dev1, ex, outs, errors)"
    by (cases "run_statements execute dev stmts [] []")
  obtain d vouts where rv: "run_verify execute dev1 verify = (d, vouts)" by fastforce
  show ?thesis using assms by (auto simp: run_checked_def rs rv Let_def split: if_splits)
qed

lemma run_template_cases:
  obtains (refused) "snd (run_template fullmatch s execute dev cid ps) = dev"
      "success (fst (run_template fullmatch s execute dev cid ps)) = False"
      "executed (fst (run_template fullmatch s execute dev cid ps)) = []"
      "\<exists>e. error_message (fst (run_template fullmatch s execute dev cid ps)) = Some e \<and>
         e \<noteq> No_signal \<and> (\<forall>es. e \<noteq> Statement_failed es)"
  | (run) t stmts verify where "ts_get s cid = Some t" "\<not> manual_only t" "missing s cid ps = []"
      "render fullmatch s (statements t) cid ps = Inr stmts" "render fullmatch s (verify_statements t) cid ps = Inr verify"
      "concat (map placeholders (stmts @ verify)) = []"
      "run_template fullmatch s execute dev cid ps =
        run_checked execute dev stmts verify (empty_result\<lparr> r_requires_restart := requires_restart t, r_manual_only := manual_only t \<rparr>)"
proof (cases "\<exists>t stmts verify. ts_get s cid = Some t \<and> \<not> manual_only t \<and> missing s cid ps = [] \<and>
      render fullmatch s (statements t) cid ps = Inr stmts \<and> render fullmatch s (verify_statements t) cid ps = Inr verify \<and>
      concat (map placeholders (stmts @ verify)) = []")
  case True
  then obtain t stmts verify where "ts_get s cid = Some t" "\<not> manual_only t" "missing s cid ps = []"
      "render fullmatch s (statements t) cid ps = Inr stmts" "render fullmatch s (verify_statements t) cid ps = Inr verify"
      "concat (map placeholders (stmts @ verify)) = []" by blast
  moreover from this have "run_template fullmatch s execute dev cid ps =
        run_checked execute dev stmts verify (empty_result\<lparr> r_requires_restart := requires_restart t, r_manual_only := manual_only t \<rparr>)"
    by (simp add: run_template_def ts_statements_def ts_verify_statements_def)
  ultimately show ?thesis by (rule run)
next
  case False
  then show ?thesis
    by (intro refused)
      (auto simp: run_template_def ts_statements_def ts_verify_statements_def empty_result_def Let_def
        split: option.split sum.split)
qed


text \<open>A device that remembers what it ran and answers every verification with PASS.\<close>

definition demo_execute :: "string list connection" where
  "demo_execute dev stmt = (dev @ [stmt], Inr ''PASS'')"


text \<open>
  A refused fix does not touch the device: without a template, for a manual check,
  with a required parameter missing, a value that does not validate or a placeholder left
  over, the device state is unchanged and no statement is reported as executed; and the
  outcomes are exclusive, the device being used exactly when there is a complete fix.
\<close>

theorem refused_fix_leaves_device:
  assumes "run_template fullmatch s execute dev cid ps = (r, dev')"
    and "error_message r = Some e" "e \<noteq> No_signal" "\<forall>es. e \<noteq> Statement_failed es"
  shows "dev' = dev \<and> executed r = [] \<and> \<not> success r"
proof (cases rule: run_template_cases [of fullmatch s execute dev cid ps])
  case refused
  with assms(1) show ?thesis by simp
next
  case (run t stmts verify)
  then have "run_checked execute dev stmts verify (empty_result\<lparr> r_requires_restart := requires_restart t, r_manual_only := manual_only t \<rparr>) = (r, dev')"
    using assms(1) by simp
  from run_checked_error [OF this] assms(2-4) show ?thesis by (auto simp: empty_result_def)
qed

theorem refused_fix_leaves_device_witness:
  "snd (run_template (\<lambda>_ _. True) demo_ts demo_execute [] ''X-1'' [(''AGE'', Some ''9;reboot'')]) = [] \<and>
   \<not> success (fst (run_template (\<lambda>_ _. True) demo_ts demo_execute [] ''X-1'' [(''AGE'', Some ''9;reboot'')]))"
proof -
  have "error_message (fst (run_template (\<lambda>_ _. True) demo_ts demo_execute [] ''X-1'' [(''AGE'', Some ''9;reboot'')])) =
     Some (Bad_value (Value_not_number ''AGE'' ''9;reboot''))" by code_simp
  from refused_fix_leaves_device [OF prod.collapse [symmetric] this] show ?thesis by simp
qed

text \<open>
  Without verification statements a fix counts as soon as its statements ran: the run
  is reported successful although nothing printed PASS.
\<close>

theorem unverified_fix_counts:
  assumes "run_statements execute dev stmts [] [] = (dev', ex, outs, [])"
  shows "success (fst (run_checked execute dev stmts [] base)) \<and>
    verification_result (fst (run_checked execute dev stmts [] base)) = verification_result base"
  using assms by (simp add: run_checked_def)

theorem unverified_fix_counts_witness:
  "success (fst (run_checked demo_execute [] [''set x''] [] empty_result)) \<and>
   verification_result (fst (run_checked demo_execute [] [''set x''] [] empty_result)) = None"
proof -
  have "run_statements demo_execute [] [''set x''] [] [] = ([''set x''], [''set x''], [(''set x'', ''PASS'')], [])" by code_simp
  from unverified_fix_counts [OF this, of empty_result] show ?thesis by (simp add: empty_result_def)
qed

end
