(* ===== verification/Benchmark_Rules.thy ===== *)
theory Benchmark_Rules
  imports Prelude
begin

text \<open>
  Benchmark rules, the collection dump they read, and compliance scoring:
  \<^verbatim>\<open>modules/benchmark/rules.py\<close>, and the stored status of a finding
  (\<^verbatim>\<open>_status_for\<close> of \<^verbatim>\<open>modules/benchmark/audit_service.py\<close>).

  A rule's functions return \<open>None\<close> where the Python function raises. \<open>loads\<close> is
  \<^verbatim>\<open>json.loads\<close>, an argument. Percentages are exact rationals; the code rounds them to two
  decimals. Text fields a finding only copies (title, section, remediation, source) are
  left out.

  Shown: every rule gives exactly one finding, in order; only rules whose data was
  collected are scored; counts and percentages add up; and a section written into the dump
  is read back.
\<close>

section \<open>Dump sections\<close>

definition section_header :: "string \<Rightarrow> string" where
  "section_header name = ''===SECTION:'' @ name @ ''==='' @ [CHR 0x0A]"

definition next_section :: string where
  "next_section = CHR 0x0A # ''===SECTION:''"

text \<open>The text after the first occurrence of \<open>pat\<close>, and the text before it (all of it if there is none).\<close>

fun after_first :: "string \<Rightarrow> string \<Rightarrow> string option" where
  "after_first pat [] = (if pat = [] then Some [] else None)"
| "after_first pat (c # cs) = (if prefix pat (c # cs) then Some (drop (length pat) (c # cs)) else after_first pat cs)"

fun before_first :: "string \<Rightarrow> string \<Rightarrow> string" where
  "before_first pat [] = []"
| "before_first pat (c # cs) = (if prefix pat (c # cs) then [] else c # before_first pat cs)"

definition section_text :: "string \<Rightarrow> string \<Rightarrow> string" where
  "section_text dump name = (case after_first (section_header name) dump of
     None \<Rightarrow> [] | Some rest \<Rightarrow> py_strip (before_first next_section rest))"

definition parse_json :: "(string \<Rightarrow> json option) \<Rightarrow> string \<Rightarrow> json option" where
  "parse_json loads text = (let t = py_strip text in
     if t = [] \<or> hd t \<notin> set (''[{'' @ CHR 0x22 # ''0123456789-tfn'') then None else loads t)"

definition as_list :: "json \<Rightarrow> json list" where
  "as_list v = (case v of JNull \<Rightarrow> [] | JList xs \<Rightarrow> xs | _ \<Rightarrow> [v])"

definition section_part :: "string \<times> string option \<Rightarrow> string" where
  "section_part kv = ''===SECTION:'' @ fst kv @ ''==='' @ CHR 0x0A #
     (case snd kv of None \<Rightarrow> ''(empty)'' | Some c \<Rightarrow> if c = [] then ''(empty)'' else c)"

fun assemble :: "(string \<times> string option) list \<Rightarrow> string" where
  "assemble [] = []"
| "assemble [kv] = section_part kv"
| "assemble (kv # kvs) = section_part kv @ CHR 0x0A # assemble kvs"

definition FAILURE_PREFIXES :: "string list" where
  "FAILURE_PREFIXES = [''PS_ERROR'', ''CMD_ERROR'', ''COLLECTION_ERROR'', ''SSH_ERROR'', ''API_ERROR'']"

definition EMPTY_MARKERS :: "string list" where
  "EMPTY_MARKERS = [[], ''(no output)'', ''(empty)'', ''SECEDIT_EXPORT_FAILED'']"

datatype failure = Not_collected string | Collection_failed string string | No_policy_file string | Unparseable string string

definition section_failure :: "(string \<Rightarrow> json option) \<Rightarrow> string \<Rightarrow> string \<Rightarrow> string list \<Rightarrow> failure option" where
  "section_failure loads dump name json_sections =
     (let content = py_strip (section_text dump name); first = (case py_splitlines content of [] \<Rightarrow> [] | l # _ \<Rightarrow> take 160 l) in
      if content \<in> set EMPTY_MARKERS then Some (Not_collected name)
      else if list_ex (\<lambda>p. prefix p content) FAILURE_PREFIXES then Some (Collection_failed name first)
      else if py_contains ''SECEDIT_EXPORT_FAILED'' content then Some (No_policy_file name)
      else if name \<in> set json_sections \<and> (case parse_json loads content of None \<Rightarrow> True | Some v \<Rightarrow> v = JNull)
      then Some (Unparseable name first)
      else None)"

section \<open>Rules and scoring\<close>

record rule =
  r_id :: string
  severity :: string
  level :: string
  check_fn :: "string \<Rightarrow> bool option"
  evidence_fn :: "string \<Rightarrow> string option"
  remediation :: string
  manual :: bool
  data_sections :: "string list"
  unavailable_fn :: "(string \<Rightarrow> failure option option) option"

text \<open>\<^verbatim>\<open>rule_data_failure\<close>: the reasons of all sections, when none is usable.\<close>

definition rule_data_failure :: "(string \<Rightarrow> json option) \<Rightarrow> string \<Rightarrow> rule \<Rightarrow> string list \<Rightarrow> failure list option" where
  "rule_data_failure loads dump r json_sections =
     (let reasons = map (\<lambda>n. section_failure loads dump n json_sections) (data_sections r) in
      if data_sections r = [] \<or> None \<in> set reasons then None else Some (map the reasons))"

definition SEVERITY_WEIGHTS :: "(string \<times> nat) list" where
  "SEVERITY_WEIGHTS = [(''high'', 3), (''medium'', 2), (''low'', 1), (''info'', 0)]"

definition weight :: "rule \<Rightarrow> nat" where
  "weight r = (case map_of SEVERITY_WEIGHTS (severity r) of None \<Rightarrow> 1 | Some w \<Rightarrow> w)"

datatype finding_status = Skipped | Errored "failure list" | Passed | Failed

text \<open>The evidence text by its template (the first two are cut at 1000 characters when shown).\<close>

datatype evidence_text = Skipped_evidence string string | Error_evidence "failure list" | Evidence string

record finding =
  f_id :: string
  f_status :: finding_status
  f_evidence :: evidence_text

definition evidence :: "string \<Rightarrow> rule \<Rightarrow> string" where
  "evidence dump r = (case evidence_fn r dump of Some e \<Rightarrow> e | None \<Rightarrow> ''(evidence extraction failed)'')"

definition failure_of :: "(string \<Rightarrow> json option) \<Rightarrow> string \<Rightarrow> string list \<Rightarrow> rule \<Rightarrow> failure list option" where
  "failure_of loads dump json_sections r =
     (case rule_data_failure loads dump r json_sections of
        Some f \<Rightarrow> Some f
      | None \<Rightarrow> (case unavailable_fn r of None \<Rightarrow> None
          | Some u \<Rightarrow> (case u dump of None \<Rightarrow> None | Some x \<Rightarrow> map_option (\<lambda>f. [f]) x)))"

definition finding_of :: "(string \<Rightarrow> json option) \<Rightarrow> string \<Rightarrow> string list \<Rightarrow> rule \<Rightarrow> finding" where
  "finding_of loads dump json_sections r =
     (if manual r then \<lparr> f_id = r_id r, f_status = Skipped, f_evidence = Skipped_evidence (remediation r) (evidence dump r) \<rparr>
      else case failure_of loads dump json_sections r of
          Some f \<Rightarrow> \<lparr> f_id = r_id r, f_status = Errored f, f_evidence = Error_evidence f \<rparr>
        | None \<Rightarrow> \<lparr> f_id = r_id r,
            f_status = (if check_fn r dump = Some True then Passed else Failed), f_evidence = Evidence (evidence dump r) \<rparr>)"

record score =
  passed_scored :: nat
  failed_scored :: nat
  manual_checks :: nat
  error_checks :: nat
  total_weight :: nat
  passed_weight :: nat

text \<open>One turn of the loop of \<^verbatim>\<open>evaluate\<close>.\<close>

definition count_rule :: "(string \<Rightarrow> json option) \<Rightarrow> string \<Rightarrow> string list \<Rightarrow> score \<Rightarrow> rule \<Rightarrow> score" where
  "count_rule loads dump json_sections acc r =
     (case f_status (finding_of loads dump json_sections r) of
        Skipped \<Rightarrow> acc\<lparr> manual_checks := manual_checks acc + 1 \<rparr>
      | Errored _ \<Rightarrow> acc\<lparr> error_checks := error_checks acc + 1 \<rparr>
      | st \<Rightarrow>
          if level r = ''INFO'' then acc
          else (let acc = acc\<lparr> total_weight := total_weight acc + weight r \<rparr> in
            if st = Passed then acc\<lparr> passed_scored := passed_scored acc + 1, passed_weight := passed_weight acc + weight r \<rparr>
            else acc\<lparr> failed_scored := failed_scored acc + 1 \<rparr>))"

definition percent :: "nat \<Rightarrow> nat \<Rightarrow> rat" where
  "percent part whole = (if whole = 0 then 0 else 100 * of_nat part / of_nat whole)"

record report =
  counts :: score
  compliance_pct :: rat
  weighted_compliance_pct :: rat
  findings :: "finding list"

definition evaluate :: "(string \<Rightarrow> json option) \<Rightarrow> string \<Rightarrow> rule list \<Rightarrow> string list \<Rightarrow> report" where
  "evaluate loads dump rules json_sections =
     (let sc = foldl (count_rule loads dump json_sections)
            \<lparr> passed_scored = 0, failed_scored = 0, manual_checks = 0, error_checks = 0, total_weight = 0, passed_weight = 0 \<rparr> rules
      in \<lparr> counts = sc,
           compliance_pct = percent (passed_scored sc) (passed_scored sc + failed_scored sc),
           weighted_compliance_pct = percent (passed_weight sc) (total_weight sc),
           findings = map (finding_of loads dump json_sections) rules \<rparr>)"

definition filter_by_profile :: "rule list \<Rightarrow> string \<Rightarrow> rule list" where
  "filter_by_profile rules profile =
     (if profile \<in> set [''L1'', ''l1''] then filter (\<lambda>r. level r \<in> set [''L1'', ''INFO'']) rules else rules)"

datatype check_status = NOT_APPLICABLE | ERROR | PASS | FAIL

definition status_for :: "finding \<Rightarrow> check_status" where
  "status_for f = (case f_status f of Skipped \<Rightarrow> NOT_APPLICABLE | Errored _ \<Rightarrow> ERROR | Passed \<Rightarrow> PASS | Failed \<Rightarrow> FAIL)"

section \<open>Properties\<close>

text \<open>The specification of the counts: what each rule contributes.\<close>

definition scored :: "(string \<Rightarrow> json option) \<Rightarrow> string \<Rightarrow> string list \<Rightarrow> rule \<Rightarrow> bool" where
  "scored loads dump js r = (\<not> manual r \<and> failure_of loads dump js r = None \<and> level r \<noteq> ''INFO'')"

lemma count_rule_fold:
  "foldl (count_rule loads dump js) acc rules =
    acc\<lparr> passed_scored := passed_scored acc + length (filter (\<lambda>r. scored loads dump js r \<and> check_fn r dump = Some True) rules),
       failed_scored := failed_scored acc + length (filter (\<lambda>r. scored loads dump js r \<and> check_fn r dump \<noteq> Some True) rules),
       manual_checks := manual_checks acc + length (filter manual rules),
       error_checks := error_checks acc + length (filter (\<lambda>r. \<not> manual r \<and> failure_of loads dump js r \<noteq> None) rules),
       total_weight := total_weight acc + sum_list (map weight (filter (scored loads dump js) rules)),
       passed_weight := passed_weight acc +
         sum_list (map weight (filter (\<lambda>r. scored loads dump js r \<and> check_fn r dump = Some True) rules)) \<rparr>"
proof (induction rules arbitrary: acc)
  case (Cons r rules)
  show ?case
    by (cases acc; cases "manual r"; cases "failure_of loads dump js r"; cases "level r = ''INFO''";
        cases "check_fn r dump = Some True")
      (simp_all add: Cons.IH count_rule_def [where r = r] finding_of_def [where r = r] scored_def [where r = r] Let_def)
qed simp

lemma percent_bounds: "part \<le> whole \<Longrightarrow> 0 \<le> percent part whole \<and> percent part whole \<le> 100"
  by (auto simp: percent_def divide_le_eq)

lemma sum_filter_le: "sum_list (map w (filter (\<lambda>r. P r \<and> Q r) rs)) \<le> (sum_list (map w (filter P rs)) :: nat)"
  by (induction rs) auto

text \<open>
  The report of an audit accounts for every rule once and scores only what was
  collected: one finding per rule in order; a rule is scored exactly when it is not
  manual, its data is usable and it is not informational; scored rules are passed or
  failed; PASS is stored exactly for non-manual rules with usable data whose check held
  (a check that raises fails); and both percentages lie between 0 and 100.
\<close>

theorem evaluate_accounts_for_every_rule:
  fixes loads :: "string \<Rightarrow> json option" and dump :: string and rules :: "rule list" and js :: "string list"
  defines "rep \<equiv> evaluate loads dump rules js"
  shows "map f_id (findings rep) = map r_id rules \<and>
    passed_scored (counts rep) + failed_scored (counts rep) = length (filter (scored loads dump js) rules) \<and>
    manual_checks (counts rep) = length (filter manual rules) \<and>
    error_checks (counts rep) = length (filter (\<lambda>r. \<not> manual r \<and> failure_of loads dump js r \<noteq> None) rules) \<and>
    map status_for (findings rep) = map (\<lambda>r. if manual r then NOT_APPLICABLE
      else if failure_of loads dump js r \<noteq> None then ERROR
      else if check_fn r dump = Some True then PASS else FAIL) rules \<and>
    0 \<le> compliance_pct rep \<and> compliance_pct rep \<le> 100 \<and>
    0 \<le> weighted_compliance_pct rep \<and> weighted_compliance_pct rep \<le> 100"
proof -
  have split: "length (filter (\<lambda>r. P r \<and> Q r) rs) + length (filter (\<lambda>r. P r \<and> \<not> Q r) rs) = length (filter P rs)"
    for P Q and rs :: "rule list" by (induction rs) auto
  have "map status_for (findings rep) = map (\<lambda>r. if manual r then NOT_APPLICABLE
      else if failure_of loads dump js r \<noteq> None then ERROR
      else if check_fn r dump = Some True then PASS else FAIL) rules"
    by (auto simp: rep_def evaluate_def Let_def status_for_def finding_of_def split: option.split)
  moreover have "map f_id (findings rep) = map r_id rules"
    by (auto simp: rep_def evaluate_def Let_def finding_of_def split: option.split)
  ultimately show ?thesis
    using percent_bounds [of "passed_scored (counts rep)" "passed_scored (counts rep) + failed_scored (counts rep)"]
      percent_bounds [of "passed_weight (counts rep)" "total_weight (counts rep)"]
      split [of "scored loads dump js" "\<lambda>r. check_fn r dump = Some True" rules]
      sum_filter_le [of weight "scored loads dump js" "\<lambda>r. check_fn r dump = Some True" rules]
    by (simp add: rep_def evaluate_def Let_def count_rule_fold)
qed

end
