(* ===== verification/Rate_Limits.thy ===== *)
theory Rate_Limits
  imports Prelude
begin

text \<open>
  The limits counted from log tables: failed sign-ins and password-reset requests
  (\<^verbatim>\<open>app/core/auth_rate_limiter.py\<close>), discovery scans (\<^verbatim>\<open>app/core/rate_limiter.py\<close>) and audits
  (\<^verbatim>\<open>app/core/audit_rate_limiter.py\<close>); with the part of \<^verbatim>\<open>login\<close> in
  \<^verbatim>\<open>modules/auth/router.py\<close> that writes the sign-in log. A table is the list of its rows,
  oldest first.

  All are gates over a time window. The contract and what follows from it, that no window
  of the limit's length ever holds more admitted rows than the limit, is the locale
  \<open>window_gate\<close>, interpreted for each of them.
\<close>

section \<open>The code\<close>

record login_row =
  l_time :: datetime
  l_success :: bool
  l_ip :: string
  l_username :: string
  l_limited :: bool

record reset_row =
  p_time :: datetime
  p_ip :: string
  p_email :: string

record run_row =
  run_user :: int
  run_status :: string
  started_at :: datetime

datatype limit_error = Too_many_from_ip | Too_many_for_account | Reset_from_ip | Reset_for_account
  | Concurrent_limit | Hourly_limit | Daily_limit

definition recent_failures :: "datetime \<Rightarrow> (login_row \<Rightarrow> bool) \<Rightarrow> login_row list \<Rightarrow> nat" where
  "recent_failures now P rows = length (filter (\<lambda>r. \<not> l_success r \<and> now - minutes 15 \<le> l_time r \<and> P r) rows)"

definition check_login_rate_limit :: "datetime \<Rightarrow> login_row list \<Rightarrow> string \<Rightarrow> string \<Rightarrow> limit_error + unit" where
  "check_login_rate_limit now rows ip username =
     (if ip \<noteq> [] \<and> recent_failures now (\<lambda>r. l_ip r = ip) rows \<ge> 5 then Inl Too_many_from_ip
      else if username \<noteq> [] \<and> recent_failures now (\<lambda>r. l_username r = username) rows \<ge> 10 then Inl Too_many_for_account
      else Inr ())"

text \<open>
  One password attempt as the sign-in route handles it: an attempt the limit refuses is
  logged as a failure too; an admitted one is logged with its outcome \<open>good\<close>.
\<close>

definition login_attempt ::
  "datetime \<Rightarrow> string \<Rightarrow> string \<Rightarrow> bool \<Rightarrow> login_row list \<Rightarrow> (limit_error + bool) \<times> login_row list" where
  "login_attempt now ip username good rows =
     (case check_login_rate_limit now rows ip username of
        Inl e \<Rightarrow> (Inl e, rows @ [\<lparr> l_time = now, l_success = False, l_ip = ip, l_username = username, l_limited = True \<rparr>])
      | Inr _ \<Rightarrow> (Inr good, rows @ [\<lparr> l_time = now, l_success = good, l_ip = ip, l_username = username, l_limited = False \<rparr>]))"

definition check_password_reset_rate_limit :: "datetime \<Rightarrow> reset_row list \<Rightarrow> string \<Rightarrow> string \<Rightarrow> limit_error + unit" where
  "check_password_reset_rate_limit now rows ip email =
     (let recent = filter (\<lambda>r. now - minutes 15 \<le> p_time r) rows in
      if ip \<noteq> [] \<and> length (filter (\<lambda>r. p_ip r = ip) recent) \<ge> 5 then Inl Reset_from_ip
      else if email \<noteq> [] \<and> length (filter (\<lambda>r. p_email r = email) recent) \<ge> 3 then Inl Reset_for_account
      else Inr ())"

text \<open>
  A reset request: the limit, then a code row if an active local account has this e-mail
  address (\<open>accounts\<close>); the answer is the same either way.
\<close>

definition forgot_password ::
  "datetime \<Rightarrow> string list \<Rightarrow> string \<Rightarrow> string \<Rightarrow> reset_row list \<Rightarrow> (limit_error + unit) \<times> reset_row list" where
  "forgot_password now accounts ip email rows =
     (case check_password_reset_rate_limit now rows ip email of
        Inl e \<Rightarrow> (Inl e, rows)
      | Inr _ \<Rightarrow> (Inr (), if email \<in> set accounts
          then rows @ [\<lparr> p_time = now, p_ip = ip, p_email = email \<rparr>] else rows))"

definition running :: "int \<Rightarrow> run_row list \<Rightarrow> nat" where
  "running user rows = length (filter (\<lambda>r. run_user r = user \<and> run_status r = ''running'') rows)"

definition started_since :: "int \<Rightarrow> datetime \<Rightarrow> run_row list \<Rightarrow> nat" where
  "started_since user since rows = length (filter (\<lambda>r. run_user r = user \<and> since < started_at r) rows)"

definition check_scan_limit :: "datetime \<Rightarrow> int \<Rightarrow> run_row list \<Rightarrow> limit_error + unit" where
  "check_scan_limit now user rows =
     (if running user rows \<ge> 10 then Inl Concurrent_limit
      else if started_since user (now - hours 1) rows \<ge> 40 then Inl Hourly_limit
      else Inr ())"

record audit_limits =
  max_concurrent :: nat
  max_per_hour :: nat
  max_per_day :: nat

definition default_limits :: audit_limits where
  "default_limits = \<lparr> max_concurrent = 5, max_per_hour = 20, max_per_day = 100 \<rparr>"

definition configure :: "nat option \<Rightarrow> nat option \<Rightarrow> nat option \<Rightarrow> audit_limits \<Rightarrow> audit_limits" where
  "configure concurrent hourly daily l =
     (let l = (case concurrent of None \<Rightarrow> l | Some n \<Rightarrow> l\<lparr> max_concurrent := n \<rparr>);
          l = (case hourly of None \<Rightarrow> l | Some n \<Rightarrow> l\<lparr> max_per_hour := n \<rparr>)
      in case daily of None \<Rightarrow> l | Some n \<Rightarrow> l\<lparr> max_per_day := n \<rparr>)"

definition check_audit_limit :: "audit_limits \<Rightarrow> datetime \<Rightarrow> int \<Rightarrow> run_row list \<Rightarrow> limit_error + unit" where
  "check_audit_limit l now user rows =
     (if running user rows \<ge> max_concurrent l then Inl Concurrent_limit
      else if started_since user (now - hours 1) rows \<ge> max_per_hour l then Inl Hourly_limit
      else if started_since user (now - days 1) rows \<ge> max_per_day l then Inl Daily_limit
      else Inr ())"

record audit_stats =
  concurrent_audits :: nat
  concurrent_available :: int
  audits_last_hour :: nat
  hourly_available :: int
  audits_last_day :: nat
  daily_available :: int

definition get_user_audit_stats :: "audit_limits \<Rightarrow> datetime \<Rightarrow> int \<Rightarrow> run_row list \<Rightarrow> audit_stats" where
  "get_user_audit_stats l now user rows =
     \<lparr> concurrent_audits = running user rows,
       concurrent_available = max 0 (int (max_concurrent l) - int (running user rows)),
       audits_last_hour = started_since user (now - hours 1) rows,
       hourly_available = max 0 (int (max_per_hour l) - int (started_since user (now - hours 1) rows)),
       audits_last_day = started_since user (now - days 1) rows,
       daily_available = max 0 (int (max_per_day l) - int (started_since user (now - days 1) rows)) \<rparr>"

text \<open>Starting an audit: the check, then a session row with status running.\<close>

definition start_audit :: "audit_limits \<Rightarrow> datetime \<Rightarrow> int \<Rightarrow> run_row list \<Rightarrow> (limit_error + unit) \<times> run_row list" where
  "start_audit l now user rows =
     (case check_audit_limit l now user rows of
        Inl e \<Rightarrow> (Inl e, rows)
      | Inr _ \<Rightarrow> (Inr (), rows @ [\<lparr> run_user = user, run_status = ''running'', started_at = now \<rparr>]))"

section \<open>The window contract\<close>

text \<open>
  A log grows by rows; \<open>admitted\<close> rows are those that went through the gate, which was open
  at their time, that is, held fewer than \<open>limit\<close> counted rows inside the window.
\<close>

locale window_gate =
  fixes time :: "'r \<Rightarrow> datetime" and counted admitted :: "'r \<Rightarrow> bool"
    and inside :: "datetime \<Rightarrow> datetime \<Rightarrow> bool" and limit :: nat and grow :: "'r list \<Rightarrow> 'r list \<Rightarrow> bool"
  assumes admitted_counted: "admitted r \<Longrightarrow> counted r"
    and inside_mono: "t \<le> t' \<Longrightarrow> inside t' x \<Longrightarrow> inside t x"
    and grow_gate: "grow rows rows' \<Longrightarrow> rows' = rows \<or> (\<exists>r. rows' = rows @ [r] \<and>
      (admitted r \<longrightarrow> length (filter (\<lambda>x. counted x \<and> inside (time r) (time x)) rows) < limit))"
begin

text \<open>The admitted rows of the window that ends at \<open>t\<close>.\<close>

definition window :: "datetime \<Rightarrow> 'r list \<Rightarrow> 'r list" where
  "window t rows = filter (\<lambda>r. admitted r \<and> inside t (time r) \<and> time r \<le> t) rows"

lemma window_bound: "reach (\<lambda>rows. rows = []) grow rows \<Longrightarrow> length (window t rows) \<le> limit"
proof (induction rule: reach.induct)
  case (reach_init rows)
  then show ?case by (simp add: window_def)
next
  case (reach_step rows rows')
  from grow_gate [OF reach_step.hyps(2)] show ?case
  proof
    assume "rows' = rows"
    with reach_step.IH show ?case by simp
  next
    assume "\<exists>r. rows' = rows @ [r] \<and>
      (admitted r \<longrightarrow> length (filter (\<lambda>x. counted x \<and> inside (time r) (time x)) rows) < limit)"
    then obtain r where r: "rows' = rows @ [r]"
      "admitted r \<Longrightarrow> length (filter (\<lambda>x. counted x \<and> inside (time r) (time x)) rows) < limit" by blast
    show ?case
    proof (cases "admitted r \<and> inside t (time r) \<and> time r \<le> t")
      case True
      have "length (window t rows) \<le> length (filter (\<lambda>x. counted x \<and> inside (time r) (time x)) rows)"
        unfolding window_def using True inside_mono [of "time r" t] admitted_counted
        by (induction rows) auto
      then show ?thesis using r True by (simp add: window_def)
    next
      case False
      then show ?thesis using r(1) reach_step.IH by (auto simp: window_def)
    qed
  qed
qed

end

section \<open>Properties\<close>

text \<open>The ways the logs grow.\<close>

inductive login_grow :: "login_row list \<Rightarrow> login_row list \<Rightarrow> bool" where
  "login_grow rows (snd (login_attempt now ip username good rows))"

inductive audit_grow :: "audit_limits \<Rightarrow> run_row list \<Rightarrow> run_row list \<Rightarrow> bool" for l where
  "audit_grow l rows (snd (start_audit l now user rows))"

text \<open>Wrong passwords that were really tried (not refused by the limit).\<close>

definition tried_from :: "string \<Rightarrow> login_row \<Rightarrow> bool" where
  "tried_from ip r = (\<not> l_success r \<and> \<not> l_limited r \<and> l_ip r = ip \<and> ip \<noteq> [])"

definition tried_as :: "string \<Rightarrow> login_row \<Rightarrow> bool" where
  "tried_as username r = (\<not> l_success r \<and> \<not> l_limited r \<and> l_username r = username \<and> username \<noteq> [])"

lemma login_grow_row:
  assumes "login_grow rows rows'"
  shows "\<exists>r. rows' = rows @ [r] \<and>
    (\<not> l_limited r \<longrightarrow> check_login_rate_limit (l_time r) rows (l_ip r) (l_username r) = Inr ())"
  using assms by (cases rule: login_grow.cases) (auto simp: login_attempt_def split: sum.splits)

lemma login_open:
  assumes "check_login_rate_limit now rows ip username = Inr ()"
  shows "ip \<noteq> [] \<Longrightarrow> recent_failures now (\<lambda>r. l_ip r = ip) rows < 5"
    and "username \<noteq> [] \<Longrightarrow> recent_failures now (\<lambda>r. l_username r = username) rows < 10"
  using assms by (auto simp: check_login_rate_limit_def split: if_splits)

interpretation by_ip: window_gate l_time "\<lambda>r. \<not> l_success r \<and> l_ip r = ip" "tried_from ip"
    "\<lambda>now t. now - minutes 15 \<le> t" 5 login_grow for ip
proof
  fix rows rows' assume "login_grow rows rows'"
  then obtain r where r: "rows' = rows @ [r]"
    "\<not> l_limited r \<Longrightarrow> check_login_rate_limit (l_time r) rows (l_ip r) (l_username r) = Inr ()"
    using login_grow_row by blast
  have "length (filter (\<lambda>x. (\<not> l_success x \<and> l_ip x = ip) \<and> l_time r - minutes 15 \<le> l_time x) rows) < 5"
    if "tried_from ip r"
    using that login_open(1) [OF r(2)] by (auto simp: tried_from_def recent_failures_def conj_ac)
  with r(1) show "rows' = rows \<or> (\<exists>r. rows' = rows @ [r] \<and> (tried_from ip r \<longrightarrow>
      length (filter (\<lambda>x. (\<not> l_success x \<and> l_ip x = ip) \<and> l_time r - minutes 15 \<le> l_time x) rows) < 5))" by blast
qed (auto simp: tried_from_def)

interpretation by_user: window_gate l_time "\<lambda>r. \<not> l_success r \<and> l_username r = username" "tried_as username"
    "\<lambda>now t. now - minutes 15 \<le> t" 10 login_grow for username
proof
  fix rows rows' assume "login_grow rows rows'"
  then obtain r where r: "rows' = rows @ [r]"
    "\<not> l_limited r \<Longrightarrow> check_login_rate_limit (l_time r) rows (l_ip r) (l_username r) = Inr ()"
    using login_grow_row by blast
  have "length (filter (\<lambda>x. (\<not> l_success x \<and> l_username x = username) \<and> l_time r - minutes 15 \<le> l_time x) rows) < 10"
    if "tried_as username r"
    using that login_open(2) [OF r(2)] by (auto simp: tried_as_def recent_failures_def conj_ac)
  with r(1) show "rows' = rows \<or> (\<exists>r. rows' = rows @ [r] \<and> (tried_as username r \<longrightarrow>
      length (filter (\<lambda>x. (\<not> l_success x \<and> l_username x = username) \<and> l_time r - minutes 15 \<le> l_time x) rows) < 10))" by blast
qed (auto simp: tried_as_def)

lemma audit_grow_row:
  assumes "audit_grow l rows rows'"
  obtains "rows' = rows" | now user where "rows' = rows @ [\<lparr> run_user = user, run_status = ''running'', started_at = now \<rparr>]"
    "check_audit_limit l now user rows = Inr ()"
  using assms by (cases rule: audit_grow.cases) (auto simp: start_audit_def split: sum.splits)

lemma audit_open:
  assumes "check_audit_limit l now user rows = Inr ()"
  shows "running user rows < max_concurrent l" "started_since user (now - hours 1) rows < max_per_hour l"
    "started_since user (now - days 1) rows < max_per_day l"
  using assms by (auto simp: check_audit_limit_def split: if_splits)

interpretation hourly: window_gate started_at "\<lambda>r. run_user r = user" "\<lambda>r. run_user r = user"
    "\<lambda>now t. now - hours 1 < t" "max_per_hour l" "audit_grow l" for user l
proof
  fix rows rows' assume "audit_grow l rows rows'"
  then show "rows' = rows \<or> (\<exists>r. rows' = rows @ [r] \<and> (run_user r = user \<longrightarrow>
      length (filter (\<lambda>x. run_user x = user \<and> started_at r - hours 1 < started_at x) rows) < max_per_hour l))"
    by (cases rule: audit_grow_row) (auto dest: audit_open(2) simp: started_since_def)
qed auto

interpretation daily: window_gate started_at "\<lambda>r. run_user r = user" "\<lambda>r. run_user r = user"
    "\<lambda>now t. now - days 1 < t" "max_per_day l" "audit_grow l" for user l
proof
  fix rows rows' assume "audit_grow l rows rows'"
  then show "rows' = rows \<or> (\<exists>r. rows' = rows @ [r] \<and> (run_user r = user \<longrightarrow>
      length (filter (\<lambda>x. run_user x = user \<and> started_at r - days 1 < started_at x) rows) < max_per_day l))"
    by (cases rule: audit_grow_row) (auto dest: audit_open(3) simp: started_since_def)
qed auto


definition demo_login :: "login_row list" where
  "demo_login = snd (login_attempt (seconds 30) ''10.0.0.1'' ''ali'' False
     (snd (login_attempt (seconds 10) ''10.0.0.1'' ''ali'' False [])))"


text \<open>
  One account starts at most its hourly number of audits in any hour and its daily
  number in any day, under whatever limits are configured; and the statistics shown to the
  user predict the gate: an audit is admitted exactly when all three remaining counts are
  positive.
\<close>

theorem audits_bounded:
  assumes "reach (\<lambda>rows. rows = []) (audit_grow l) rows"
  shows "length (filter (\<lambda>r. run_user r = user \<and> t - hours 1 < started_at r \<and> started_at r \<le> t) rows) \<le> max_per_hour l \<and>
    length (filter (\<lambda>r. run_user r = user \<and> t - days 1 < started_at r \<and> started_at r \<le> t) rows) \<le> max_per_day l \<and>
    (let s = get_user_audit_stats l now user rows in
     check_audit_limit l now user rows = Inr () \<longleftrightarrow>
       0 < concurrent_available s \<and> 0 < hourly_available s \<and> 0 < daily_available s)"
proof -
  have "check_audit_limit l now user rows = Inr () \<longleftrightarrow> running user rows < max_concurrent l \<and>
      started_since user (now - hours 1) rows < max_per_hour l \<and> started_since user (now - days 1) rows < max_per_day l"
    by (auto simp: check_audit_limit_def)
  then show ?thesis
    using hourly.window_bound [OF assms, of user t] daily.window_bound [OF assms, of user t]
    by (auto simp: hourly.window_def daily.window_def get_user_audit_stats_def Let_def)
qed

theorem audits_bounded_witness:
  "length (filter (\<lambda>r. run_user r = 7 \<and> seconds 60 - hours 1 < started_at r \<and> started_at r \<le> seconds 60)
     (snd (start_audit default_limits (seconds 5) 7 []))) \<le> max_per_hour default_limits"
proof -
  have "reach (\<lambda>rows. rows = []) (audit_grow default_limits) (snd (start_audit default_limits (seconds 5) 7 []))"
    by (rule reach_step [OF reach_init]) (simp, rule audit_grow.intros)
  from audits_bounded [OF this] show ?thesis by blast
qed

text \<open>
  The reset limit counts codes, not requests. Requests for an address without an
  account write nothing and are never refused, however many there are; for an address with
  an account the fourth within the window is refused. The two answers tell them apart.
\<close>

theorem reset_limit_reveals_accounts:
  assumes "\<forall>r \<in> set rows. p_time r < now - minutes 15" "email \<noteq> []"
  shows "(email \<notin> set accounts \<longrightarrow> forgot_password now accounts ip email rows = (Inr (), rows)) \<and>
    (email \<in> set accounts \<longrightarrow>
      (let req = (\<lambda>rows. forgot_password now accounts ip email rows) in
       fst (req (snd (req (snd (req (snd (req rows))))))) = Inl Reset_for_account))"
proof -
  let ?row = "\<lparr> p_time = now, p_ip = ip, p_email = email \<rparr>"
  have none: "filter (\<lambda>r. now - minutes 15 \<le> p_time r) rows = []" using assms(1) by (auto simp: filter_empty_conv)
  have recent: "filter (\<lambda>r. now - minutes 15 \<le> p_time r) (rows @ replicate k ?row) = replicate k ?row" for k
    using none by (simp add: timedelta_defs)
  have step: "forgot_password now accounts ip email (rows @ replicate k ?row) = (Inr (), rows @ replicate (Suc k) ?row)"
    if "email \<in> set accounts" "k < 3" for k
    using that recent [of k]
    by (simp add: forgot_password_def check_password_reset_rate_limit_def Let_def replicate_append_same)
  have full: "fst (forgot_password now accounts ip email (rows @ replicate 3 ?row)) = Inl Reset_for_account"
    using recent [of 3] assms(2) by (simp add: forgot_password_def check_password_reset_rate_limit_def Let_def)
  have "forgot_password now accounts ip email rows = (Inr (), rows)" if "email \<notin> set accounts"
    using that recent [of 0] by (simp add: forgot_password_def check_password_reset_rate_limit_def Let_def)
  moreover have "fst (forgot_password now accounts ip email (snd (forgot_password now accounts ip email
      (snd (forgot_password now accounts ip email (snd (forgot_password now accounts ip email rows))))))) = Inl Reset_for_account"
    if a: "email \<in> set accounts"
    using step [OF a, of 0] step [OF a, of 1] step [OF a, of 2] full by (simp add: eval_nat_numeral)
  ultimately show ?thesis unfolding Let_def by blast
qed

theorem reset_limit_reveals_accounts_witness:
  "forgot_password 0 [''a@b.c''] ''10.0.0.1'' ''x@y.z'' [] = (Inr (), []) \<and>
   (let req = (\<lambda>rows. forgot_password 0 [''a@b.c''] ''10.0.0.1'' ''a@b.c'' rows) in
       fst (req (snd (req (snd (req (snd (req []))))))) = Inl Reset_for_account)"
  using reset_limit_reveals_accounts [of "[]" 0 "''x@y.z''" "[''a@b.c'']" "''10.0.0.1''"]
    reset_limit_reveals_accounts [of "[]" 0 "''a@b.c''" "[''a@b.c'']" "''10.0.0.1''"] by simp

end
