(* ===== verification/Bytes.thy ===== *)
theory Bytes
  imports Prelude "HOL-Library.Word"
begin

text \<open>
  Bytes as the program handles them: \<^verbatim>\<open>struct.pack\<close> and \<^verbatim>\<open>struct.unpack\<close> of unsigned integers
  with the most significant byte first, UTF-8 of Latin-1 text, and cutting a byte string
  into pieces of a fixed length.
\<close>

type_synonym byte = "8 word"

named_theorems bytes_simps \<open>lengths and values of packed data\<close>

section \<open>Unsigned integers\<close>

fun be :: "nat \<Rightarrow> nat \<Rightarrow> byte list" where
  "be 0 n = []"
| "be (Suc k) n = be k (n div 256) @ [of_nat n]"

definition be_val :: "byte list \<Rightarrow> nat" where
  "be_val bs = foldl (\<lambda>v b. v * 256 + unat b) 0 bs"

lemma length_be [simp, bytes_simps]: "length (be k n) = k"
  by (induction k arbitrary: n) auto

lemma be_val_snoc [simp]: "be_val (bs @ [b]) = be_val bs * 256 + unat b"
  by (simp add: be_val_def)

lemma be_val_be [bytes_simps]: "n < 256 ^ k \<Longrightarrow> be_val (be k n) = n"
proof (induction k arbitrary: n)
  case 0
  then show ?case by (simp add: be_val_def)
next
  case (Suc k)
  then have "n div 256 < 256 ^ k" by (simp add: less_mult_imp_div_less)
  then show ?case using Suc.IH [of "n div 256"] by (simp add: unat_of_nat)
qed

lemma be_inj: "be k m = be k n \<Longrightarrow> m < 256 ^ k \<Longrightarrow> n < 256 ^ k \<Longrightarrow> m = n"
  by (metis be_val_be)

lemma unat_byte: "unat (b :: byte) < 256"
  using unsigned_less [of b, where ?'a = nat] by simp

lemma be_val_bound: "be_val bs < 256 ^ length bs"
proof (induction bs rule: rev_induct)
  case (snoc b bs)
  have "unat b < 256" by (rule unat_byte)
  then show ?case using snoc by simp
qed (simp add: be_val_def)

lemma be_be_val: "be (length bs) (be_val bs) = bs"
proof (induction bs rule: rev_induct)
  case (snoc b bs)
  have u: "unat b < 256" by (rule unat_byte)
  then have "(be_val bs * 256 + unat b) div 256 = be_val bs" by simp
  moreover have "word_of_nat (be_val bs * 256 + unat b) = b"
    by (rule unsigned_word_eqI [where ?'a = nat]) (simp add: u unat_of_nat del: of_nat_add of_nat_mult)
  ultimately show ?case using snoc by simp
qed simp

section \<open>UTF-8\<close>

text \<open>Code points below 256 take one byte or two; others are outside the model.\<close>

definition utf8_char :: "char \<Rightarrow> byte list" where
  "utf8_char c = (if ord_c c < 128 then [of_nat (ord_c c)] else [of_nat (192 + ord_c c div 64), of_nat (128 + ord_c c mod 64)])"

definition utf8 :: "string \<Rightarrow> byte list" where
  "utf8 s = concat (map utf8_char s)"

fun utf8_decode :: "byte list \<Rightarrow> string option" where
  "utf8_decode [] = Some []"
| "utf8_decode (a # bs) =
     (if unat a < 128 then map_option ((#) (char_of (unat a))) (utf8_decode bs)
      else case bs of
          b # cs \<Rightarrow> if unat a \<in> {194, 195} \<and> 128 \<le> unat b \<and> unat b < 192
            then map_option ((#) (char_of ((unat a - 192) * 64 + (unat b - 128)))) (utf8_decode cs) else None
        | [] \<Rightarrow> None)"

lemma utf8_decode_char: "utf8_decode (utf8_char c @ bs) = map_option ((#) c) (utf8_decode bs)"
proof -
  have c: "ord_c c < 256" "char_of (ord_c c) = c" by simp_all
  show ?thesis
  proof (cases "ord_c c < 128")
    case True
    then show ?thesis using c by (simp add: utf8_char_def unat_of_nat)
  next
    case False
    define n where "n = ord_c c"
    have "n < 256" "128 \<le> n" using False c(1) by (simp_all add: n_def)
    then have "2 \<le> n div 64" "n div 64 < 4" by (simp_all add: less_eq_div_iff_mult_less_eq div_less_iff_less_mult)
    then have q: "192 + n div 64 = 194 \<or> 192 + n div 64 = 195" by auto
    define a b where "a = (of_nat (192 + n div 64) :: byte)" and "b = (of_nat (128 + n mod 64) :: byte)"
    have "192 + n div 64 < 256" using q by auto
    then have a: "unat a = 192 + n div 64" unfolding a_def unat_of_nat by simp
    have "128 + n mod 64 < 256" using pos_mod_bound [of 64 n] by simp
    then have b: "unat b = 128 + n mod 64" unfolding b_def unat_of_nat by simp
    have "utf8_char c = [a, b]" using False by (simp add: utf8_char_def a_def b_def n_def)
    moreover have "(unat a - 192) * 64 + (unat b - 128) = n" using a b by simp
    moreover have "unat a \<in> {194, 195}" "\<not> unat a < 128" "128 \<le> unat b" using a b q by auto
    moreover have "unat b < 192" using b by simp
    ultimately show ?thesis using c(2) by (simp add: n_def)
  qed
qed

lemma utf8_decode_utf8 [bytes_simps]: "utf8_decode (utf8 s) = Some s"
  by (induction s) (auto simp: utf8_def utf8_decode_char)

section \<open>Pieces\<close>

function pieces :: "nat \<Rightarrow> 'a list \<Rightarrow> 'a list list" where
  "pieces n xs = (if xs = [] \<or> n = 0 then [] else take n xs # pieces n (drop n xs))"
  by pat_completeness auto
termination by (relation "measure (\<lambda>(n, xs). length xs)") auto

declare pieces.simps [simp del]

lemma pieces_Nil [simp]: "pieces n [] = []"
  by (simp add: pieces.simps)

lemma pieces_short: "xs \<noteq> [] \<Longrightarrow> length xs \<le> n \<Longrightarrow> pieces n xs = [xs]"
  by (cases "n = 0") (simp_all add: pieces.simps)

lemma concat_pieces: "0 < n \<Longrightarrow> concat (pieces n xs) = xs"
  by (induction n xs rule: pieces.induct) (subst pieces.simps, simp)

lemma length_pieces: "p \<in> set (pieces n xs) \<Longrightarrow> p \<noteq> [] \<and> length p \<le> n"
  by (induction n xs rule: pieces.induct) (subst (asm) pieces.simps, auto split: if_splits)

end
