(* ===== verification/Two_Step.thy ===== *)
theory Two_Step
  imports Rate_Limits Bytes
begin

unbundle bit_operations_syntax

text \<open>
  Two-step sign-in: one-time passwords and recovery codes (\<^verbatim>\<open>app/core/totp.py\<close>), the policy
  and one user's row (\<^verbatim>\<open>app/core/mfa.py\<close>), and the handlers that change that row
  (\<^verbatim>\<open>app/modules/auth/mfa_router.py\<close>, the password step of \<^verbatim>\<open>modules/auth/router.py\<close>).

  The cryptographic primitives are parameters (\<open>totp_env\<close>): HMAC-SHA1, base32, PBKDF2 and
  the encryption of \<^verbatim>\<open>app/core/credential_crypto.py\<close> (Fernet). Everything the program does
  with them, the truncation of a MAC to six digits included, is written out on bytes.
\<close>

section \<open>One-time passwords\<close>

record totp_env =
  hmac_sha1 :: "byte list \<Rightarrow> byte list \<Rightarrow> byte list"
  b32decode :: "string \<Rightarrow> byte list option"
  pbkdf2_sha256 :: "string \<Rightarrow> string \<Rightarrow> int \<Rightarrow> string option"
  cc_encrypt :: "string \<Rightarrow> string"
  cc_decrypt :: "string \<Rightarrow> string option"

datatype mfa_error = Limited limit_error | Directory_unreachable | Wrong_password | Code_missing
  | Wrong_code | Setup_again | Two_step_not_on | Role_must_use | Own_account | Bad_policy
  | Type_error | Struct_error | Binascii_error | Decrypt_error

definition DIGITS :: nat where "DIGITS = 6"
definition DRIFT_STEPS :: int where "DRIFT_STEPS = 1"

text \<open>\<^verbatim>\<open>str.upper\<close> on Latin-1 (the micro sign and y with diaeresis, whose capitals are outside it, stay).\<close>

definition py_upper :: "string \<Rightarrow> string" where
  "py_upper s = concat (map (\<lambda>c.
     if 97 \<le> ord_c c \<and> ord_c c \<le> 122 \<or> 224 \<le> ord_c c \<and> ord_c c \<le> 254 \<and> ord_c c \<noteq> 247
     then [char_of (ord_c c - 32)] else if ord_c c = 223 then ''SS'' else [c]) s)"

definition totp_key :: "totp_env \<Rightarrow> string \<Rightarrow> (mfa_error, byte list) result" where
  "totp_key env secret_b32 =
     (let cleaned = py_upper (py_replace '' '' [] secret_b32) in
      case b32decode env (cleaned @ replicate (nat ((- int (length cleaned)) mod 8)) CHR ''='') of
        None \<Rightarrow> Inl Binascii_error | Some k \<Rightarrow> Inr k)"

text \<open>\<^verbatim>\<open>struct.pack(">Q", counter)\<close>: eight bytes, the most significant first.\<close>

definition pack_Q :: "int \<Rightarrow> byte list" where
  "pack_Q counter = map (\<lambda>k. word_of_int (counter div 2 ^ (8 * k))) (rev [0..<8])"

definition unpack_I :: "byte list \<Rightarrow> 32 word" where
  "unpack_I bs = foldl (\<lambda>v b. push_bit 8 v OR ucast b) 0 bs"

definition zfill :: "nat \<Rightarrow> string \<Rightarrow> string" where
  "zfill n s = replicate (n - length s) CHR ''0'' @ s"

definition hotp :: "totp_env \<Rightarrow> byte list \<Rightarrow> int \<Rightarrow> (mfa_error, string) result" where
  "hotp env key counter =
     (if counter < 0 \<or> 2 ^ 64 \<le> counter then Inl Struct_error
      else let mac = hmac_sha1 env key (pack_Q counter);
               offset = unat (last mac AND 0x0F);
               quad = take 4 (drop offset mac)
           in if length quad \<noteq> 4 then Inl Struct_error
              else let v = unpack_I quad AND 0x7FFFFFFF
                   in Inr (zfill DIGITS (str_of_nat (unat v mod 10 ^ DIGITS))))"

definition step_at :: "datetime \<Rightarrow> int" where "step_at now = now div seconds 30"

text \<open>\<^verbatim>\<open>hmac.compare_digest\<close> of two strings: a TypeError when one is not ASCII.\<close>

definition compare_digest :: "string \<Rightarrow> string \<Rightarrow> (mfa_error, bool) result" where
  "compare_digest a b = (if list_all is_ascii a \<and> list_all is_ascii b then Inr (a = b) else Inl Type_error)"

fun verify_steps :: "totp_env \<Rightarrow> byte list \<Rightarrow> string \<Rightarrow> int option \<Rightarrow> int list \<Rightarrow> (mfa_error, int option) result" where
  "verify_steps env key code last_used [] = Inr None"
| "verify_steps env key code last_used (step # steps) =
     (if (case last_used of None \<Rightarrow> False | Some l \<Rightarrow> step \<le> l) then verify_steps env key code last_used steps
      else res_bind (hotp env key step) (\<lambda>h.
           res_bind (compare_digest h code) (\<lambda>same.
             if same then Inr (Some step) else verify_steps env key code last_used steps)))"

definition clean_code :: "string \<Rightarrow> string" where
  "clean_code code = py_replace '' '' [] (py_strip code)"

definition verify :: "totp_env \<Rightarrow> string \<Rightarrow> string \<Rightarrow> int option \<Rightarrow> datetime \<Rightarrow> (mfa_error, int option) result" where
  "verify env secret_b32 code last_used now =
     (let code = clean_code code in
      if length code \<noteq> DIGITS \<or> \<not> list_all py_isdigit code then Inr None
      else res_bind (totp_key env secret_b32) (\<lambda>key.
             verify_steps env key code last_used [step_at now - DRIFT_STEPS..step_at now + DRIFT_STEPS]))"

section \<open>Recovery codes\<close>

definition normal_code :: "string \<Rightarrow> string" where
  "normal_code code = py_replace ''-'' [] (py_replace '' '' [] (py_upper (py_strip code)))"

fun split_char :: "char \<Rightarrow> string \<Rightarrow> string list" where
  "split_char sep [] = [[]]"
| "split_char sep (c # cs) = (case split_char sep cs of
     [] \<Rightarrow> [] | t # ts \<Rightarrow> if c = sep then [] # t # ts else (c # t) # ts)"

definition PBKDF2_ROUNDS :: int where "PBKDF2_ROUNDS = 120000"

text \<open>The stored form of a code under a salt (given in hexadecimal).\<close>

definition hash_recovery_code :: "totp_env \<Rightarrow> string \<Rightarrow> string \<Rightarrow> string option" where
  "hash_recovery_code env salt code =
     map_option (\<lambda>digest. ''pbkdf2$'' @ str_of_int PBKDF2_ROUNDS @ ''$'' @ salt @ ''$'' @ digest)
       (pbkdf2_sha256 env (normal_code code) salt PBKDF2_ROUNDS)"

definition recovery_code_matches :: "totp_env \<Rightarrow> string \<Rightarrow> string \<Rightarrow> (mfa_error, bool) result" where
  "recovery_code_matches env code stored =
     (case split_char CHR ''$'' stored of
        [_, rounds, salt, digest] \<Rightarrow>
          (case py_int rounds of
             None \<Rightarrow> Inr False
           | Some n \<Rightarrow> (case pbkdf2_sha256 env (normal_code code) salt n of
               None \<Rightarrow> Inr False
             | Some mine \<Rightarrow> compare_digest mine digest))
      | _ \<Rightarrow> Inr False)"

section \<open>The policy and a user's row\<close>

datatype UserRole = ADMIN | USER | MANAGER | GUEST

fun role_value :: "UserRole \<Rightarrow> string" where
  "role_value ADMIN = ''admin''"
| "role_value USER = ''user''"
| "role_value MANAGER = ''manager''"
| "role_value GUEST = ''guest''"

record user =
  u_id :: int
  username :: string
  email :: string
  hashed_password :: string
  is_active :: bool
  must_change_password :: bool
  role :: UserRole
  auth_source :: string
  phone :: "string option"
  language :: "string option"
  disabled_by_directory :: bool

record mfa_policy =
  required_roles :: "string list"
  grace_days :: int

record mfa_row =
  enabled :: bool
  secret :: "string option"
  pending_secret :: "string option"
  last_used_step :: "int option"
  recovery_codes :: "string list"
  version :: int
  enabled_at :: "datetime option"
  deadline :: "datetime option"

definition ROLES :: "string list" where "ROLES = [''admin'', ''manager'', ''user'', ''guest'']"
definition MAX_GRACE_DAYS :: int where "MAX_GRACE_DAYS = 90"

text \<open>\<^verbatim>\<open>r in (roles or [])\<close> on a stored JSON value.\<close>

fun json_has :: "string \<Rightarrow> json \<Rightarrow> (mfa_error, bool) result" where
  "json_has r (JList xs) = Inr (JStr r \<in> set xs)"
| "json_has r (JStr s) = Inr (s \<noteq> [] \<and> py_contains r s)"
| "json_has r (JObj d) = Inr (r \<in> fst ` set d)"
| "json_has r v = (if truthy v then Inl Bad_policy else Inr False)"

fun filter_roles :: "json \<Rightarrow> string list \<Rightarrow> (mfa_error, string list) result" where
  "filter_roles v [] = Inr []"
| "filter_roles v (r # rs) = res_bind (json_has r v) (\<lambda>b.
     res_bind (filter_roles v rs) (\<lambda>out. Inr (if b then r # out else out)))"

text \<open>\<open>stored\<close> is the \<^verbatim>\<open>config_json\<close> object of the section, empty when there is none.\<close>

definition get_policy :: "(string \<times> json) list \<Rightarrow> (mfa_error, mfa_policy) result" where
  "get_policy stored =
     (let roles = (case map_of stored ''required_roles'' of None \<Rightarrow> JList [JStr ''admin'', JStr ''manager''] | Some v \<Rightarrow> v);
          grace = (case map_of stored ''grace_days'' of None \<Rightarrow> JInt 7 | Some v \<Rightarrow> v)
      in res_bind (filter_roles roles ROLES) (\<lambda>rs.
         case json_int grace of
           None \<Rightarrow> Inl Bad_policy
         | Some g \<Rightarrow> Inr \<lparr> required_roles = rs, grace_days = max 0 (min MAX_GRACE_DAYS g) \<rparr>))"

definition save_policy :: "mfa_policy \<Rightarrow> (string \<times> json) list" where
  "save_policy p = [(''required_roles'', JList (map JStr (filter (\<lambda>r. r \<in> set (required_roles p)) ROLES))),
     (''grace_days'', JInt (grace_days p))]"

definition is_required :: "mfa_policy \<Rightarrow> user \<Rightarrow> bool" where
  "is_required policy u = (role_value (role u) \<in> set (required_roles policy))"

definition new_row :: mfa_row where
  "new_row = \<lparr> enabled = False, secret = None, pending_secret = None, last_used_step = None,
     recovery_codes = [], version = 0, enabled_at = None, deadline = None \<rparr>"

definition get_or_create_row :: "mfa_row option \<Rightarrow> mfa_row" where
  "get_or_create_row r = (case r of None \<Rightarrow> new_row | Some row \<Rightarrow> row)"

definition version_of :: "mfa_row option \<Rightarrow> int" where
  "version_of r = (case r of None \<Rightarrow> 0 | Some row \<Rightarrow> version row)"

definition bump :: "mfa_row \<Rightarrow> mfa_row" where
  "bump row = row\<lparr> version := version_of (Some row) + 1 \<rparr>"

definition row_enabled :: "mfa_row option \<Rightarrow> bool" where
  "row_enabled r = (case r of None \<Rightarrow> False | Some row \<Rightarrow> enabled row)"

definition enrolment_due :: "mfa_policy \<Rightarrow> user \<Rightarrow> mfa_row option \<Rightarrow> datetime \<Rightarrow> bool" where
  "enrolment_due policy u r now =
     (if row_enabled r \<or> \<not> is_required policy u then False
      else if role u = ADMIN \<or> grace_days policy = 0 then True
      else case Option.bind r deadline of None \<Rightarrow> False | Some d \<Rightarrow> d \<le> now)"

definition start_grace :: "mfa_policy \<Rightarrow> user \<Rightarrow> datetime \<Rightarrow> mfa_row option \<Rightarrow> mfa_row option" where
  "start_grace policy u now r =
     (if \<not> is_required policy u then r
      else let row = get_or_create_row r in
           Some (if \<not> enabled row \<and> deadline row = None
                 then row\<lparr> deadline := Some (now + days (if role u = ADMIN then 0 else grace_days policy)) \<rparr>
                 else row))"

record mfa_status =
  s_enabled :: bool
  s_required :: bool
  s_enrolment_due :: bool
  s_deadline :: "datetime option"
  s_enabled_at :: "datetime option"
  s_recovery_codes_left :: nat

definition status_of :: "mfa_policy \<Rightarrow> user \<Rightarrow> mfa_row option \<Rightarrow> datetime \<Rightarrow> mfa_status" where
  "status_of policy u r now =
     (let required = is_required policy u in
      \<lparr> s_enabled = row_enabled r, s_required = required, s_enrolment_due = enrolment_due policy u r now,
        s_deadline = (if r \<noteq> None \<and> required \<and> \<not> row_enabled r then Option.bind r deadline else None),
        s_enabled_at = (if row_enabled r then Option.bind r enabled_at else None),
        s_recovery_codes_left = (if row_enabled r then length (recovery_codes (get_or_create_row r)) else 0) \<rparr>)"

section \<open>Checking a code\<close>

datatype how = Totp | Recovery

definition secret_of :: "totp_env \<Rightarrow> string \<Rightarrow> (mfa_error, string) result" where
  "secret_of env s = (case cc_decrypt env s of None \<Rightarrow> Inl Decrypt_error | Some p \<Rightarrow> Inr p)"

fun first_match :: "totp_env \<Rightarrow> string \<Rightarrow> string list \<Rightarrow> (mfa_error, string option) result" where
  "first_match env code [] = Inr None"
| "first_match env code (stored # rest) =
     res_bind (recovery_code_matches env code stored) (\<lambda>m. if m then Inr (Some stored) else first_match env code rest)"

definition check_code :: "totp_env \<Rightarrow> datetime \<Rightarrow> mfa_row option \<Rightarrow> string \<Rightarrow> (mfa_error, (how \<times> mfa_row) option) result" where
  "check_code env now r code =
     (let code = py_strip code in
      case r of
        None \<Rightarrow> Inr None
      | Some row \<Rightarrow>
        (case secret row of
           None \<Rightarrow> Inr None
         | Some s \<Rightarrow>
           if \<not> enabled row \<or> s = [] then Inr None
           else res_bind (secret_of env s) (\<lambda>plain.
                res_bind (verify env plain code (last_used_step row) now) (\<lambda>step.
                  case step of
                    Some k \<Rightarrow> Inr (Some (Totp, row\<lparr> last_used_step := Some k \<rparr>))
                  | None \<Rightarrow> res_bind (first_match env code (recovery_codes row)) (\<lambda>hit.
                      case hit of
                        None \<Rightarrow> Inr None
                      | Some stored \<Rightarrow>
                          Inr (Some (Recovery, row\<lparr> recovery_codes := remove1 stored (recovery_codes row) \<rparr>)))))))"

section \<open>The handlers\<close>

text \<open>
  What a request of one user finds: the user's row (None when there is none) and the
  sign-in log. A request that raises leaves the row as it was (the transaction is rolled
  back); its log entries are committed.
\<close>

record account =
  a_row :: "mfa_row option"
  a_log :: "login_row list"

type_synonym 'a handled = "(mfa_error, 'a) result \<times> account"

definition log_login_attempt :: "datetime \<Rightarrow> string \<Rightarrow> string \<Rightarrow> bool \<Rightarrow> bool \<Rightarrow> account \<Rightarrow> account" where
  "log_login_attempt now ip name success limited a =
     a\<lparr> a_log := a_log a @ [\<lparr> l_time = now, l_success = success, l_ip = ip, l_username = name, l_limited = limited \<rparr>] \<rparr>"

definition bind_h :: "'a handled \<Rightarrow> ('a \<Rightarrow> account \<Rightarrow> 'b handled) \<Rightarrow> 'b handled" where
  "bind_h h f = (case h of (Inl e, a) \<Rightarrow> (Inl e, a) | (Inr x, a) \<Rightarrow> f x a)"

text \<open>
  \<open>good\<close> is what checking the password gives (bcrypt or the directory); None when the
  directory cannot be reached.
\<close>

definition check_password :: "datetime \<Rightarrow> string \<Rightarrow> user \<Rightarrow> bool option \<Rightarrow> account \<Rightarrow> unit handled" where
  "check_password now ip u good a =
     (case check_login_rate_limit now (a_log a) ip (username u) of
        Inl e \<Rightarrow> (Inl (Limited e), a)
      | Inr _ \<Rightarrow>
        (case good of
           None \<Rightarrow> (Inl Directory_unreachable, a)
         | Some True \<Rightarrow> (Inr (), a)
         | Some False \<Rightarrow> (Inl Wrong_password, log_login_attempt now ip (username u) False False a)))"

definition handler_check_code :: "totp_env \<Rightarrow> datetime \<Rightarrow> string \<Rightarrow> user \<Rightarrow> mfa_row option \<Rightarrow> string \<Rightarrow> account \<Rightarrow>
    (how \<times> mfa_row) handled" where
  "handler_check_code env now ip u r code a =
     (case check_code env now r code of
        Inl e \<Rightarrow> (Inl e, a)
      | Inr None \<Rightarrow> (Inl Wrong_code, log_login_attempt now ip (username u) False False a)
      | Inr (Some hit) \<Rightarrow> (Inr hit, a))"

text \<open>The password step, once the password is accepted and the account is active.\<close>

datatype password_answer = Mfa_challenge int | Session_for int

definition password_step :: "datetime \<Rightarrow> string \<Rightarrow> user \<Rightarrow> mfa_policy \<Rightarrow> account \<Rightarrow> password_answer handled" where
  "password_step now ip u policy a =
     (let r = start_grace policy u now (a_row a); a = a\<lparr> a_row := r \<rparr> in
      if row_enabled r then (Inr (Mfa_challenge (version_of r)), a)
      else (Inr (Session_for (version_of r)), log_login_attempt now ip (username u) True False a))"

text \<open>The second step, for the user \<^verbatim>\<open>read_mfa_token\<close> found: the session's version and the way in.\<close>

definition login_mfa :: "totp_env \<Rightarrow> datetime \<Rightarrow> string \<Rightarrow> user \<Rightarrow> string \<Rightarrow> account \<Rightarrow> (int \<times> how) handled" where
  "login_mfa env now ip u code a =
     (case check_login_rate_limit now (a_log a) ip (username u) of
        Inl e \<Rightarrow> (Inl (Limited e), log_login_attempt now ip (username u) False True a)
      | Inr _ \<Rightarrow> bind_h (handler_check_code env now ip u (a_row a) code a) (\<lambda>(how, row) a.
          (Inr (version row, how), log_login_attempt now ip (username u) True False (a\<lparr> a_row := Some row \<rparr>))))"

text \<open>A new secret to scan; \<open>fresh\<close> is what \<^verbatim>\<open>totp.new_secret\<close> draws. The answer says whether an app is replaced.\<close>

definition start_setup :: "totp_env \<Rightarrow> datetime \<Rightarrow> string \<Rightarrow> user \<Rightarrow> bool option \<Rightarrow> string \<Rightarrow> string \<Rightarrow> account \<Rightarrow>
    (string \<times> bool) handled" where
  "start_setup env now ip u good code fresh a =
     bind_h (check_password now ip u good a) (\<lambda>_ a.
       let row = get_or_create_row (a_row a) in
       if enabled row then
         (if code = [] then (Inl Code_missing, a)
          else bind_h (handler_check_code env now ip u (Some row) code a) (\<lambda>(_, row) a.
            (Inr (fresh, True), a\<lparr> a_row := Some (row\<lparr> pending_secret := Some (cc_encrypt env fresh) \<rparr>) \<rparr>)))
       else (Inr (fresh, False), a\<lparr> a_row := Some (row\<lparr> pending_secret := Some (cc_encrypt env fresh) \<rparr>) \<rparr>))"

text \<open>The first code of the new secret; \<open>hashes\<close> are the new recovery codes as stored.\<close>

definition confirm_setup :: "totp_env \<Rightarrow> datetime \<Rightarrow> string \<Rightarrow> string list \<Rightarrow> account \<Rightarrow> int handled" where
  "confirm_setup env now code hashes a =
     (case a_row a of
        None \<Rightarrow> (Inl Setup_again, a)
      | Some row \<Rightarrow>
        (case pending_secret row of
           None \<Rightarrow> (Inl Setup_again, a)
         | Some p \<Rightarrow>
           if p = [] then (Inl Setup_again, a)
           else (case res_bind (secret_of env p) (\<lambda>pending. verify env pending code None now) of
                   Inl e \<Rightarrow> (Inl e, a)
                 | Inr None \<Rightarrow> (Inl Wrong_code, a)
                 | Inr (Some step) \<Rightarrow>
                     (let row = bump (row\<lparr> secret := Some p, pending_secret := None, enabled := True,
                            last_used_step := Some step, deadline := None, enabled_at := Some now,
                            recovery_codes := hashes \<rparr>)
                      in (Inr (version row), a\<lparr> a_row := Some row \<rparr>)))))"

definition new_codes :: "totp_env \<Rightarrow> datetime \<Rightarrow> string \<Rightarrow> user \<Rightarrow> bool option \<Rightarrow> string \<Rightarrow> string list \<Rightarrow> account \<Rightarrow> unit handled" where
  "new_codes env now ip u good code hashes a =
     bind_h (check_password now ip u good a) (\<lambda>_ a.
       if \<not> row_enabled (a_row a) then (Inl Two_step_not_on, a)
       else bind_h (handler_check_code env now ip u (a_row a) code a) (\<lambda>(_, row) a.
         (Inr (), a\<lparr> a_row := Some (row\<lparr> recovery_codes := hashes \<rparr>) \<rparr>)))"

definition clear_row :: "mfa_row \<Rightarrow> mfa_row" where
  "clear_row row = bump (row\<lparr> enabled := False, secret := None, pending_secret := None,
     last_used_step := None, enabled_at := None, recovery_codes := [], deadline := None \<rparr>)"

definition disable :: "totp_env \<Rightarrow> datetime \<Rightarrow> string \<Rightarrow> user \<Rightarrow> mfa_policy \<Rightarrow> bool option \<Rightarrow> string \<Rightarrow> account \<Rightarrow> int handled" where
  "disable env now ip u policy good code a =
     (if is_required policy u then (Inl Role_must_use, a)
      else bind_h (check_password now ip u good a) (\<lambda>_ a.
        if \<not> row_enabled (a_row a) then (Inl Two_step_not_on, a)
        else bind_h (handler_check_code env now ip u (a_row a) code a) (\<lambda>(_, row) a.
          (Inr (version (clear_row row)), a\<lparr> a_row := Some (clear_row row) \<rparr>))))"

text \<open>A system administrator (\<open>actor\<close>, a user id) resets the account of \<open>u\<close>.\<close>

definition reset_user_mfa :: "datetime \<Rightarrow> int \<Rightarrow> user \<Rightarrow> mfa_policy \<Rightarrow> account \<Rightarrow> unit handled" where
  "reset_user_mfa now actor u policy a =
     (if u_id u = actor then (Inl Own_account, a)
      else let row = clear_row (get_or_create_row (a_row a)) in
           (Inr (), a\<lparr> a_row := Some (if is_required policy u then row\<lparr> deadline := Some now \<rparr> else row) \<rparr>))"


section \<open>What a code is\<close>

lemma zfill_shape: "length s \<le> n \<Longrightarrow> list_all ascii_digit s \<Longrightarrow>
  length (zfill n s) = n \<and> list_all ascii_digit (zfill n s)"
  by (auto simp: zfill_def list_all_iff ascii_digit_def)

lemma hotp_shape:
  assumes "hotp env key k = Inr c"
  shows "length c = DIGITS \<and> list_all ascii_digit c"
proof -
  obtain v where c: "c = zfill DIGITS (str_of_nat (v mod 10 ^ DIGITS))"
    using assms by (auto simp: hotp_def Let_def split: if_splits)
  have "length (str_of_nat (v mod 10 ^ DIGITS)) \<le> DIGITS"
    by (rule length_str_of_nat) (simp_all add: DIGITS_def)
  then show ?thesis using c zfill_shape by simp
qed

lemma hotp_total:
  assumes "\<And>m. length (hmac_sha1 env key m) = 20" "0 \<le> k" "k < 2 ^ 64"
  shows "\<exists>c. hotp env key k = Inr c"
proof -
  let ?mac = "hmac_sha1 env key (pack_Q k)"
  have "unat (last ?mac AND 0x0F) \<le> 15"
    using unat_mono [of "last ?mac AND 0x0F" 16] word_and_le1 [of "last ?mac" "0x0F"]
    by (simp add: word_le_nat_alt)
  with assms show ?thesis by (simp add: hotp_def Let_def)
qed

lemma ascii_digit_is_ascii: "list_all ascii_digit c \<Longrightarrow> list_all is_ascii c"
  by (auto simp: list_all_iff ascii_digit_def is_ascii_def)

text \<open>The steps a code is compared with: those of the window that no accepted code used.\<close>

definition unused :: "int option \<Rightarrow> int \<Rightarrow> bool" where
  "unused last_used k = (case last_used of None \<Rightarrow> True | Some l \<Rightarrow> l < k)"

lemma verify_steps_hit:
  "verify_steps env key code l ks = Inr (Some k) \<Longrightarrow> k \<in> set ks \<and> unused l k \<and> hotp env key k = Inr code"
  by (induction ks)
    (auto simp: unused_def res_simps compare_digest_def split: if_splits option.splits)

lemma verify_steps_finds:
  assumes "\<And>k. k \<in> set ks \<Longrightarrow> \<exists>c. hotp env key k = Inr c" "list_all is_ascii code"
    "k \<in> set ks" "unused l k" "hotp env key k = Inr code"
  shows "\<exists>k'. verify_steps env key code l ks = Inr (Some k')"
  using assms
proof (induction ks)
  case (Cons j js)
  obtain c where c: "hotp env key j = Inr c" using Cons.prems(1) by auto
  then have "list_all is_ascii c" using hotp_shape ascii_digit_is_ascii by blast
  with Cons c show ?case by (cases "unused l j"; cases "c = code")
      (auto simp: unused_def compare_digest_def split: option.splits)
qed simp

lemma verify_hit:
  assumes "verify env sec code l now = Inr (Some k)"
  obtains key where "totp_key env sec = Inr key" "\<bar>k - step_at now\<bar> \<le> DRIFT_STEPS" "unused l k"
    "hotp env key k = Inr (clean_code code)"
  using assms by (auto simp: verify_def Let_def res_simps DRIFT_STEPS_def split: if_splits dest!: verify_steps_hit)


text \<open>
  A one-time password is accepted exactly when it is the code of the current 30-second
  step or of one of its two neighbours, and no code of that or a later step was accepted
  before; spaces in what the user typed do not matter. (HMAC-SHA1 gives 20 bytes; the
  clock is between 1970-01-01 00:00:30 and the end of the 64-bit counter.)
\<close>

theorem verify_accepts_exactly:
  assumes "\<And>m. length (hmac_sha1 env key m) = 20" "totp_key env sec = Inr key"
    "1 \<le> step_at now" "step_at now < 2 ^ 64 - 1"
  shows "(\<exists>k. verify env sec code l now = Inr (Some k)) \<longleftrightarrow>
    (\<exists>k \<in> {step_at now - 1 .. step_at now + 1}. unused l k \<and> hotp env key k = Inr (clean_code code))"
    (is "?L = ?R")
proof
  assume ?L
  then obtain k where "verify env sec code l now = Inr (Some k)" by blast
  then show ?R using assms(2) by (elim verify_hit) (auto simp: DRIFT_STEPS_def intro!: bexI [of _ k])
next
  assume ?R
  then obtain k where k: "k \<in> {step_at now - 1 .. step_at now + 1}" "unused l k"
    "hotp env key k = Inr (clean_code code)" by blast
  have shape: "length (clean_code code) = DIGITS" "list_all ascii_digit (clean_code code)"
    using hotp_shape [OF k(3)] by auto
  then have "list_all py_isdigit (clean_code code)" by (auto simp: list_all_iff py_isdigit_def)
  moreover have "\<exists>c. hotp env key j = Inr c" if "j \<in> set [step_at now - 1..step_at now + 1]" for j
    using hotp_total [OF assms(1)] that assms(3,4) by auto
  ultimately show ?L
    using shape ascii_digit_is_ascii k assms(2)
      verify_steps_finds [of "[step_at now - 1..step_at now + 1]" env key "clean_code code" k l]
    by (auto simp: verify_def Let_def DRIFT_STEPS_def)
qed

text \<open>A concrete environment: a MAC of 20 bytes that depends on the counter, decoding by character code.\<close>

definition demo_totp :: totp_env where
  "demo_totp = \<lparr> hmac_sha1 = (\<lambda>k m. [0, 0, 0, last m] @ replicate 16 0),
     b32decode = (\<lambda>s. Some (map (\<lambda>c. of_nat (ord_c c)) s)),
     pbkdf2_sha256 = (\<lambda>p s n. Some (rev p)), cc_encrypt = id, cc_decrypt = Some \<rparr>"

lemma demo_totp_mac: "length (hmac_sha1 demo_totp key m) = 20"
  by (simp add: demo_totp_def)

theorem verify_accepts_exactly_witness:
  "(\<exists>k. verify demo_totp ''JBSW'' ''000 002'' (Some 1) (seconds 60) = Inr (Some k)) \<longleftrightarrow>
    (\<exists>k \<in> {step_at (seconds 60) - 1 .. step_at (seconds 60) + 1}. unused (Some 1) k \<and>
      hotp demo_totp (map (\<lambda>c. of_nat (ord_c c)) ''JBSW===='') k = Inr (clean_code ''000 002''))"
proof -
  have key: "totp_key demo_totp ''JBSW'' = Inr (map (\<lambda>c. of_nat (ord_c c)) ''JBSW===='')" by code_simp
  have now: "1 \<le> step_at (seconds 60)" "step_at (seconds 60) < 2 ^ 64 - 1" by code_simp+
  show ?thesis by (rule verify_accepts_exactly [OF demo_totp_mac key now])
qed

definition demo_user :: user where
  "demo_user = \<lparr> u_id = 1, username = ''alice'', email = ''alice@example.org'', hashed_password = ''h'', is_active = True,
     must_change_password = False, role = MANAGER, auth_source = ''local'', phone = None, language = None,
     disabled_by_directory = False \<rparr>"

definition demo_row :: mfa_row where
  "demo_row = \<lparr> enabled = True, secret = Some ''JBSW'', pending_secret = None, last_used_step = None,
     recovery_codes = [], version = 1, enabled_at = Some 0, deadline = None \<rparr>"

lemma demo_pack: "pack_Q 0 = [0,0,0,0,0,0,0,0]" "pack_Q 1 = [0,0,0,0,0,0,0,1]" "pack_Q 2 = [0,0,0,0,0,0,0,2]"
  "pack_Q 3 = [0,0,0,0,0,0,0,3]" "pack_Q 4 = [0,0,0,0,0,0,0,4]"
  by (simp_all add: pack_Q_def upt_rec)

lemma demo_text: "zfill DIGITS (str_of_nat 0) = ''000000''" "zfill DIGITS (str_of_nat 1) = ''000001''"
  "zfill DIGITS (str_of_nat 2) = ''000002''" "zfill DIGITS (str_of_nat 3) = ''000003''" "zfill DIGITS (str_of_nat 4) = ''000004''"
  by code_simp+

lemma demo_hotp: "hotp demo_totp k 0 = Inr ''000000''" "hotp demo_totp k 1 = Inr ''000001''"
  "hotp demo_totp k 2 = Inr ''000002''" "hotp demo_totp k 3 = Inr ''000003''" "hotp demo_totp k 4 = Inr ''000004''"
  by (simp_all add: hotp_def demo_pack demo_text demo_totp_def Let_def unpack_I_def)
    (simp_all add: DIGITS_def demo_text [unfolded DIGITS_def One_nat_def])
lemma demo_key: "totp_key demo_totp ''JBSW'' = Inr (map (\<lambda>c. of_nat (ord_c c)) ''JBSW===='')"
  by (simp add: totp_key_def demo_totp_def Let_def py_upper_def numeral_eq_Suc)

lemma demo_clean: "clean_code ''000001'' = ''000001''" "clean_code ''000003'' = ''000003''"
  by code_simp+

lemma demo_step: "step_at (seconds 30) = 1" "step_at (seconds 90) = 3" by code_simp+
lemma demo_upto: "[0..2::int] = [0,1,2]" "[2..4::int] = [2,3,4]" by code_simp+

lemma demo_verify:
  "verify demo_totp ''JBSW'' ''000001'' None (seconds 30) = Inr (Some 1)"
  "verify demo_totp ''JBSW'' ''000003'' (Some 1) (seconds 90) = Inr (Some 3)"
  by (simp_all add: verify_def demo_key demo_clean demo_step demo_upto DRIFT_STEPS_def DIGITS_def
    demo_hotp compare_digest_def char_class_defs)

lemma demo_codes:
  "check_code demo_totp (seconds 30) (Some demo_row) ''000001'' = Inr (Some (Totp, demo_row\<lparr> last_used_step := Some 1 \<rparr>))"
  "check_code demo_totp (seconds 90) (Some (demo_row\<lparr> last_used_step := Some 1 \<rparr>)) ''000003'' =
     Inr (Some (Totp, demo_row\<lparr> last_used_step := Some 3 \<rparr>))"
proof -
  have strip: "py_strip ''000001'' = ''000001''" "py_strip ''000003'' = ''000003''" by code_simp+
  have secret: "secret_of demo_totp ''JBSW'' = Inr ''JBSW''" by (simp add: secret_of_def demo_totp_def)
  show "check_code demo_totp (seconds 30) (Some demo_row) ''000001'' = Inr (Some (Totp, demo_row\<lparr> last_used_step := Some 1 \<rparr>))"
    using demo_verify(1) by (simp add: check_code_def Let_def strip secret demo_row_def)
  show "check_code demo_totp (seconds 90) (Some (demo_row\<lparr> last_used_step := Some 1 \<rparr>)) ''000003'' =
     Inr (Some (Totp, demo_row\<lparr> last_used_step := Some 3 \<rparr>))"
    using demo_verify(2) by (simp add: check_code_def Let_def strip secret demo_row_def)
qed

section \<open>The life of a row\<close>

text \<open>
  Every request on an account, by whom it can be made; \<open>used\<close> are stored recovery codes
  that new sets never repeat (they are hashed under fresh random salts). Entries of the
  sign-in log may also come from other accounts.
\<close>

inductive mfa_step :: "totp_env \<Rightarrow> user \<Rightarrow> string set \<Rightarrow> account \<Rightarrow> account \<Rightarrow> bool" for env u used where
  Password: "mfa_step env u used a (snd (password_step now ip u policy a))"
| Login: "mfa_step env u used a (snd (login_mfa env now ip u code a))"
| Setup: "mfa_step env u used a (snd (start_setup env now ip u good code fresh a))"
| Confirm: "set hashes \<inter> used = {} \<Longrightarrow> mfa_step env u used a (snd (confirm_setup env now code hashes a))"
| New_codes: "set hashes \<inter> used = {} \<Longrightarrow>
    mfa_step env u used a (snd (new_codes env now ip u good code hashes a))"
| Disable: "mfa_step env u used a (snd (disable env now ip u policy good code a))"
| Reset: "mfa_step env u used a (snd (reset_user_mfa now actor u policy a))"
| Log: "mfa_step env u used a (a\<lparr> a_log := rows \<rparr>)"

text \<open>
  How a row may develop: its version never falls, and while it stays the same so do the
  secret and whether two-step sign-in is on, the last used step does not fall and
  used recovery codes do not come back.
\<close>

definition row_adv :: "string set \<Rightarrow> mfa_row \<Rightarrow> mfa_row \<Rightarrow> bool" where
  "row_adv used x y \<longleftrightarrow> version x < version y \<or>
     version x = version y \<and> secret y = secret x \<and> enabled y = enabled x
     \<and> (\<forall>s. last_used_step x = Some s \<longrightarrow> (\<exists>t \<ge> s. last_used_step y = Some t))
     \<and> set (recovery_codes y) \<inter> used \<subseteq> set (recovery_codes x) \<inter> used"

definition adv :: "string set \<Rightarrow> mfa_row option \<Rightarrow> mfa_row option \<Rightarrow> bool" where
  "adv used r r' \<longleftrightarrow> (\<forall>x. r = Some x \<longrightarrow> (\<exists>y. r' = Some y \<and> row_adv used x y))
     \<and> version_of r \<le> version_of r'"

lemma row_adv_refl [simp]: "row_adv used x x"
  by (simp add: row_adv_def)

lemma row_adv_trans: "row_adv used x y \<Longrightarrow> row_adv used y z \<Longrightarrow> row_adv used x z"
  unfolding row_adv_def by (elim disjE; clarsimp) (fastforce intro: order_trans)+

lemma row_adv_version: "row_adv used x y \<Longrightarrow> version x \<le> version y"
  by (auto simp: row_adv_def)

lemma adv_refl [simp]: "adv used r r"
  by (auto simp: adv_def)

lemma adv_trans: "adv used r s \<Longrightarrow> adv used s t \<Longrightarrow> adv used r t"
  unfolding adv_def by (auto intro: row_adv_trans) (metis row_adv_trans)

lemma adv_Some: "row_adv used (get_or_create_row r) y \<Longrightarrow> adv used r (Some y)"
  using row_adv_version by (fastforce simp: adv_def get_or_create_row_def version_of_def new_row_def
      split: option.splits)

lemma adv_bump: "version (get_or_create_row r) < version y \<Longrightarrow> adv used r (Some y)"
  by (rule adv_Some) (simp add: row_adv_def)


lemma first_match_in: "first_match env code rs = Inr (Some h) \<Longrightarrow>
  h \<in> set rs \<and> recovery_code_matches env code h = Inr True"
  by (induction rs) (auto simp: res_simps split: if_splits)

lemma check_code_cases:
  assumes "check_code env now r code = Inr (Some (how, row'))"
  obtains (totp) row s plain k where "r = Some row" "enabled row" "secret row = Some s" "secret_of env s = Inr plain"
      "verify env plain (py_strip code) (last_used_step row) now = Inr (Some k)" "how = Totp"
      "row' = row\<lparr> last_used_step := Some k \<rparr>"
  | (recovery) row h where "r = Some row" "enabled row" "h \<in> set (recovery_codes row)"
      "recovery_code_matches env (py_strip code) h = Inr True" "how = Recovery"
      "row' = row\<lparr> recovery_codes := remove1 h (recovery_codes row) \<rparr>"
proof -
  obtain row s where r: "r = Some row" "secret row = Some s" "enabled row" "s \<noteq> []"
    using assms by (auto simp: check_code_def Let_def split: option.splits if_splits)
  obtain plain where p: "secret_of env s = Inr plain"
    using assms r by (auto simp: check_code_def Let_def res_simps)
  obtain k where v: "verify env plain (py_strip code) (last_used_step row) now = Inr k"
    using assms r p by (auto simp: check_code_def Let_def res_simps)
  show thesis
  proof (cases k)
    case None
    then obtain h where "first_match env (py_strip code) (recovery_codes row) = Inr (Some h)"
      "how = Recovery" "row' = row\<lparr> recovery_codes := remove1 h (recovery_codes row) \<rparr>"
      using assms r p v by (auto simp: check_code_def Let_def res_simps split: option.splits)
    with r first_match_in recovery show thesis by blast
  next
    case (Some step)
    with assms r p v totp show thesis by (auto simp: check_code_def Let_def)
  qed
qed

lemma check_code_adv: "check_code env now r code = Inr (Some (how, row')) \<Longrightarrow>
  \<exists>row. r = Some row \<and> enabled row \<and> row_adv used row row' \<and> version row' = version row"
  by (erule check_code_cases)
    (auto simp: row_adv_def unused_def elim!: verify_hit dest: subsetD [OF set_remove1_subset] split: option.splits
      intro: less_imp_le)

lemma handler_check_code_cases:
  "(\<exists>e. handler_check_code env now ip u r code a = (Inl e, a))
   \<or> (\<exists>e. handler_check_code env now ip u r code a = (Inl e, log_login_attempt now ip (username u) False False a))
   \<or> (\<exists>how row row'. r = Some row \<and> enabled row \<and> row_adv used row row' \<and> version row' = version row
        \<and> handler_check_code env now ip u r code a = (Inr (how, row'), a))"
proof (cases "check_code env now r code")
  case (Inr hit)
  then show ?thesis
    using check_code_adv [of env now r code _ _ used]
    by (cases hit) (auto simp: handler_check_code_def)
qed (simp add: handler_check_code_def)

lemma check_password_cases:
  "(\<exists>e a'. check_password now ip u good a = (Inl e, a') \<and> a_row a' = a_row a)
   \<or> check_password now ip u good a = (Inr (), a)"
  by (auto simp: check_password_def log_login_attempt_def split: sum.splits option.splits bool.splits)

lemma a_row_log [simp]: "a_row (log_login_attempt now ip name s l a) = a_row a"
  by (simp add: log_login_attempt_def)

lemma row_adv_pending [simp]: "row_adv used x (y\<lparr> pending_secret := p \<rparr>) = row_adv used x y"
  by (simp add: row_adv_def)

lemma row_adv_deadline [simp]: "row_adv used x (y\<lparr> deadline := p \<rparr>) = row_adv used x y"
  by (simp add: row_adv_def)

lemma version_clear [simp]: "version (clear_row x) = version x + 1"
  by (simp add: clear_row_def bump_def version_of_def)

lemma password_step_adv: "adv used (a_row a) (a_row (snd (password_step now ip u policy a)))"
  by (auto simp: password_step_def Let_def start_grace_def intro!: adv_Some)

lemma login_mfa_adv: "adv used (a_row a) (a_row (snd (login_mfa env now ip u code a)))"
  using handler_check_code_cases [of env now ip u "a_row a" code a used]
  by (elim disjE) (auto simp: login_mfa_def bind_h_def get_or_create_row_def intro!: adv_Some split: sum.splits)

lemma start_setup_adv: "adv used (a_row a) (a_row (snd (start_setup env now ip u good code fresh a)))"
  using check_password_cases [of now ip u good a]
    handler_check_code_cases [of env now ip u "Some (get_or_create_row (a_row a))" code a used]
  by (elim disjE) (auto simp: start_setup_def bind_h_def Let_def intro!: adv_Some)

lemma confirm_setup_adv: "adv used (a_row a) (a_row (snd (confirm_setup env now code hashes a)))"
  by (auto simp: confirm_setup_def Let_def bump_def version_of_def get_or_create_row_def
      intro!: adv_bump split: option.splits sum.splits)

lemma new_codes_adv:
  assumes "set hashes \<inter> used = {}"
  shows "adv used (a_row a) (a_row (snd (new_codes env now ip u good code hashes a)))"
proof -
  have "row_adv used x (y\<lparr> recovery_codes := hashes \<rparr>)" if "row_adv used x y" for x y
    using that assms by (auto simp: row_adv_def)
  then show ?thesis
    using check_password_cases [of now ip u good a] handler_check_code_cases [of env now ip u "a_row a" code a used]
    by (elim disjE) (auto simp: new_codes_def bind_h_def get_or_create_row_def intro!: adv_Some)
qed

lemma disable_adv: "adv used (a_row a) (a_row (snd (disable env now ip u policy good code a)))"
  using check_password_cases [of now ip u good a] handler_check_code_cases [of env now ip u "a_row a" code a used]
  by (elim disjE) (auto simp: disable_def bind_h_def get_or_create_row_def intro!: adv_bump)

lemma reset_adv: "adv used (a_row a) (a_row (snd (reset_user_mfa now actor u policy a)))"
  by (auto simp: reset_user_mfa_def Let_def intro!: adv_bump)

lemmas handler_advs = password_step_adv login_mfa_adv start_setup_adv confirm_setup_adv new_codes_adv
  disable_adv reset_adv

lemma mfa_step_adv: "mfa_step env u used a b \<Longrightarrow> adv used (a_row a) (a_row b)"
  by (induction rule: mfa_step.induct) (simp_all add: handler_advs)

lemma mfa_steps_adv: "(mfa_step env u used)\<^sup>*\<^sup>* a b \<Longrightarrow> adv used (a_row a) (a_row b)"
  by (induction rule: rtranclp_induct) (auto intro: adv_trans mfa_step_adv)


text \<open>
  C8. A second-step code works once. After a code was accepted, whatever requests follow on
  the account (sign-ins, set-ups, new recovery codes, switching off, an administrator's
  reset) and as long as the set-up is still the same one (its version), a one-time password
  accepted later belongs to a strictly later step; and a recovery code that was used up is
  not among the stored ones again (stored codes are distinct, new ones are under fresh
  salts).
\<close>

theorem two_step_code_used_once:
  assumes "check_code env now (Some row) code = Inr (Some (how, row1))"
    "(mfa_step env u used)\<^sup>*\<^sup>* a b" "a_row a = Some row1" "version_of (a_row b) = version row"
    "check_code env later (a_row b) code' = Inr (Some (how', row2))"
    "set (recovery_codes row) \<subseteq> used" "distinct (recovery_codes row)"
  shows "(how = Totp \<and> how' = Totp \<longrightarrow> (\<exists>k k'. last_used_step row1 = Some k \<and> last_used_step row2 = Some k' \<and> k < k'))
    \<and> (how = Recovery \<longrightarrow> (\<exists>h \<in> set (recovery_codes row). recovery_code_matches env (py_strip code) h = Inr True
          \<and> h \<notin> set (recovery_codes (the (a_row b)))))"
proof -
  obtain y where b: "a_row b = Some y" "row_adv used row1 y"
    using mfa_steps_adv [OF assms(2)] assms(3) by (auto simp: adv_def)
  have v: "version y = version row1"
    using assms(1,4) b(1) by (auto simp: version_of_def elim: check_code_cases)
  show ?thesis using assms(1)
  proof (cases rule: check_code_cases)
    case (totp x s plain k)
    with b v obtain t where t: "t \<ge> k" "last_used_step y = Some t" by (auto simp: row_adv_def)
    from assms(5) b(1) t have "how' = Totp \<longrightarrow> (\<exists>k'. last_used_step row2 = Some k' \<and> k < k')"
      by (elim check_code_cases) (auto simp: unused_def elim!: verify_hit)
    with totp show ?thesis by simp
  next
    case (recovery x h)
    then have "h \<notin> set (recovery_codes row1)" using assms(7) by simp
    moreover have "h \<in> used" using recovery assms(6) by auto
    ultimately have "h \<notin> set (recovery_codes y)" using b(2) v by (auto simp: row_adv_def)
    with recovery b(1) show ?thesis by auto
  qed
qed

theorem two_step_code_used_once_witness:
  "\<exists>k k'. last_used_step (demo_row\<lparr> last_used_step := Some 1 \<rparr>) = Some k
     \<and> last_used_step (demo_row\<lparr> last_used_step := Some 3 \<rparr>) = Some k' \<and> k < k'"
proof -
  let ?r1 = "demo_row\<lparr> last_used_step := Some 1 \<rparr>" and ?r2 = "demo_row\<lparr> last_used_step := Some 3 \<rparr>"
  let ?a = "\<lparr> a_row = Some ?r1, a_log = [] \<rparr>"
  have later: "check_code demo_totp (seconds 90) (a_row ?a) ''000003'' = Inr (Some (Totp, ?r2))"
    using demo_codes(2) by simp
  have same: "version_of (a_row ?a) = version demo_row" "set (recovery_codes demo_row) \<subseteq> {}"
    "distinct (recovery_codes demo_row)" by (simp_all add: version_of_def demo_row_def)
  have steps: "(mfa_step demo_totp demo_user {})\<^sup>*\<^sup>* ?a ?a" by (rule rtranclp.rtrancl_refl)
  have row: "a_row ?a = Some ?r1" by simp
  show ?thesis
    using two_step_code_used_once [OF demo_codes(1) steps row same(1) later same(2,3)] by blast
qed

end
