(* ===== verification/Sign_In.thy ===== *)
theory Sign_In
  imports Two_Step
begin

text \<open>
  Who is calling: access tokens and their idle timeout (\<^verbatim>\<open>app/core/sessions.py\<close>), API keys
  (\<^verbatim>\<open>app/core/api_keys.py\<close>), the guard for a full disk (\<^verbatim>\<open>app/core/storage_guard.py\<close>), the
  dependencies every route goes through (\<^verbatim>\<open>app/core/dependencies.py\<close>), and the sign-in,
  sign-out and password-reset handlers (\<^verbatim>\<open>app/modules/auth/router.py\<close>, \<^verbatim>\<open>service.py\<close>).

  The database is a record of its tables. PyJWT, bcrypt, SHA-256 and \<^verbatim>\<open>ipaddress\<close> are the
  parameters \<open>auth_env\<close>; so are the settings the handlers read. A token's payload is the
  record \<open>claims\<close> of the fields the program puts in and reads.
\<close>

section \<open>State\<close>

record claims =
  c_sub :: "string option"
  c_purpose :: "string option"
  c_jti :: "string option"
  c_pwv :: "string option"
  c_mfv :: "int option"
  c_exp :: int

datatype jwt_answer = Expired_signature | Invalid_signature | Claims claims

record session_row =
  s_user :: int
  s_created :: datetime
  s_last_seen :: datetime
  s_expires :: datetime

record api_key =
  key_id :: string
  secret_hash :: string
  key_user :: int
  key_expires :: datetime
  key_revoked :: "datetime option"
  allowed_ips :: "string list"
  last_used_at :: "datetime option"
  last_used_ip :: "string option"

record reset_token =
  t_user :: int
  t_hash :: string
  t_created :: datetime
  t_expires :: datetime
  t_used :: "datetime option"
  t_attempts :: int

record permission_row =
  p_user :: int
  p_module :: string
  can_read :: bool
  can_write :: bool
  can_delete :: bool

record storage =
  st_checked :: int
  st_free :: "int option"
  st_critical :: bool

record db =
  users :: "user list"
  mfa_rows :: "int \<Rightarrow> mfa_row option"
  auth_config :: "(string \<times> json) list"
  sessions :: "string \<Rightarrow> session_row option"
  revoked :: "string \<Rightarrow> datetime option"
  api_keys :: "api_key list"
  reset_tokens :: "reset_token list"
  permissions :: "permission_row list"
  login_log :: "login_row list"
  storage_cache :: storage

record request =
  r_method :: string
  r_path :: string
  r_ip :: "string option"

record auth_env =
  jwt_decode :: "datetime \<Rightarrow> string \<Rightarrow> jwt_answer"
  sha256_hex :: "string \<Rightarrow> string"
  bcrypt_verify :: "string \<Rightarrow> string \<Rightarrow> bool"
  bcrypt_hash :: "string \<Rightarrow> string"
  ip_parses :: "string \<Rightarrow> bool"
  ip_in_network :: "string \<Rightarrow> string \<Rightarrow> bool"
  idle_minutes :: int
  storage_critical_mb :: int
  reset_expire_minutes :: int
  reset_max_attempts :: int
  disk_free :: "int option list"

datatype auth_error = Missing_subject | Token_expired | Invalid_token | Session_ended | Session_invalid
  | Account_disabled | Idle_ended | Password_change_required | Enrolment_required | Storage_full
  | Invalid_api_key | Api_key_expired | Address_not_allowed | Mfa_failed mfa_error | Login_limited limit_error
  | Incorrect_credentials | Account_inactive | Directory_down | Step_expired | Uncaught
  | Admin_required | Manager_required | Session_not_found | Result_not_found | Action_not_found
  | No_permission | Insufficient_permission | Password_too_long

type_synonym 'a answered = "(auth_error, 'a) result \<times> db"

definition find_user :: "(user \<Rightarrow> bool) \<Rightarrow> db \<Rightarrow> user option" where
  "find_user P db = find P (users db)"

definition password_fingerprint :: "auth_env \<Rightarrow> string \<Rightarrow> string" where
  "password_fingerprint env h = take 16 (sha256_hex env h)"

text \<open>UTF-8 length of Latin-1 text: two bytes from code point 128 on.\<close>

definition utf8_length :: "string \<Rightarrow> nat" where
  "utf8_length s = length s + length (filter (\<lambda>c. \<not> is_ascii c) s)"

definition get_password_hash :: "auth_env \<Rightarrow> string \<Rightarrow> (auth_error, string) result" where
  "get_password_hash env p = (if 72 < utf8_length p then Inl Password_too_long else Inr (bcrypt_hash env p))"

section \<open>Sessions\<close>

definition SEEN_RESOLUTION :: timedelta where "SEEN_RESOLUTION = seconds 60"

definition session_expiry :: "claims \<Rightarrow> datetime" where "session_expiry c = seconds (c_exp c)"

definition open_session :: "datetime \<Rightarrow> claims \<Rightarrow> string \<Rightarrow> int \<Rightarrow> db \<Rightarrow> db" where
  "open_session now c jti uid d =
     d\<lparr> sessions := (\<lambda>j. case sessions d j of None \<Rightarrow> None | Some s \<Rightarrow> if s_expires s < now then None else Some s)
          (jti \<mapsto> \<lparr> s_user = uid, s_created = now, s_last_seen = now, s_expires = session_expiry c \<rparr>) \<rparr>"

definition touch :: "auth_env \<Rightarrow> datetime \<Rightarrow> claims \<Rightarrow> int \<Rightarrow> db \<Rightarrow> unit answered" where
  "touch env now c uid d =
     (case c_jti c of
        None \<Rightarrow> (Inr (), d)
      | Some jti \<Rightarrow>
        if jti = [] then (Inr (), d)
        else (case sessions d jti of
          None \<Rightarrow> (Inr (), d\<lparr> sessions := (sessions d)(jti \<mapsto>
              \<lparr> s_user = uid, s_created = now, s_last_seen = now, s_expires = session_expiry c \<rparr>) \<rparr>)
        | Some s \<Rightarrow>
          if now - s_last_seen s > minutes (idle_minutes env)
          then (Inl Idle_ended, if revoked d jti = None
                then d\<lparr> revoked := (revoked d)(jti \<mapsto> s_expires s) \<rparr> else d)
          else if now - s_last_seen s \<ge> SEEN_RESOLUTION
          then (Inr (), d\<lparr> sessions := (sessions d)(jti \<mapsto> s\<lparr> s_last_seen := now \<rparr>) \<rparr>)
          else (Inr (), d)))"

section \<open>Storage guard\<close>

definition WRITE_METHODS :: "string list" where "WRITE_METHODS = [''POST'', ''PUT'', ''PATCH'', ''DELETE'']"
definition ALWAYS_ALLOWED :: "string list" where "ALWAYS_ALLOWED = [''/auth/logout'']"

text \<open>The least free space of the disks that can be read (\<open>None\<close>: an OSError on that path).\<close>

fun lowest_free :: "int option \<Rightarrow> int option list \<Rightarrow> int option" where
  "lowest_free lowest [] = lowest"
| "lowest_free lowest (None # ds) = lowest_free lowest ds"
| "lowest_free lowest (Some f # ds) =
     lowest_free (case lowest of None \<Rightarrow> Some f | Some l \<Rightarrow> if f < l then Some f else Some l) ds"

definition storage_state :: "auth_env \<Rightarrow> int \<Rightarrow> bool \<Rightarrow> storage \<Rightarrow> storage" where
  "storage_state env now force st =
     (let limit = max 0 (storage_critical_mb env) * 1024 * 1024 in
      if force \<or> now - st_checked st \<ge> seconds 30
      then let free = lowest_free None (disk_free env);
               critical = (limit \<noteq> 0 \<and> (case free of None \<Rightarrow> False | Some f \<Rightarrow> f < limit))
           in \<lparr> st_checked = now, st_free = free, st_critical = critical \<rparr>
      else st)"

definition check_storage :: "auth_env \<Rightarrow> datetime \<Rightarrow> request option \<Rightarrow> user \<Rightarrow> db \<Rightarrow> unit answered" where
  "check_storage env now req u d =
     (case req of
        None \<Rightarrow> (Inr (), d)
      | Some q \<Rightarrow>
        if r_method q \<notin> set WRITE_METHODS \<or> r_path q \<in> set ALWAYS_ALLOWED then (Inr (), d)
        else if role u = ADMIN then (Inr (), d)
        else let st = storage_state env now False (storage_cache d); d = d\<lparr> storage_cache := st \<rparr>
             in if st_critical st then (Inl Storage_full, d) else (Inr (), d))"

section \<open>API keys\<close>

definition PREFIX :: string where "PREFIX = ''ngk_''"
definition KEY_ID_LENGTH :: nat where "KEY_ID_LENGTH = 10"

definition is_api_key :: "string \<Rightarrow> bool" where "is_api_key token = prefix PREFIX token"

definition token_of :: "string \<Rightarrow> string \<Rightarrow> string" where
  "token_of kid sec = PREFIX @ kid @ ''_'' @ sec"

definition parse_key :: "string \<Rightarrow> (string \<times> string) option" where
  "parse_key token =
     (if \<not> is_api_key token then None
      else let rest = drop (length PREFIX) token; (kid, sec) = split_first CHR ''_'' rest in
           if CHR ''_'' \<notin> set rest \<or> length kid \<noteq> KEY_ID_LENGTH \<or> sec = [] \<or> 200 < length sec
           then None else Some (kid, sec))"

definition ip_allowed :: "auth_env \<Rightarrow> string option \<Rightarrow> string list \<Rightarrow> bool" where
  "ip_allowed env ip allowed =
     (if allowed = [] then True
      else let a = (case ip of None \<Rightarrow> [] | Some s \<Rightarrow> s) in
           ip_parses env a \<and> list_ex (ip_in_network env a) allowed)"

definition zeros64 :: string where "zeros64 = replicate 64 CHR ''0''"

definition update_key :: "string \<Rightarrow> (api_key \<Rightarrow> api_key) \<Rightarrow> api_key list \<Rightarrow> api_key list" where
  "update_key kid f ks = map (\<lambda>k. if key_id k = kid then f k else k) ks"

definition authenticate_key :: "auth_env \<Rightarrow> datetime \<Rightarrow> string \<Rightarrow> request option \<Rightarrow> db \<Rightarrow> user answered" where
  "authenticate_key env now token req d =
     (case parse_key token of
        None \<Rightarrow> (Inl Invalid_api_key, d)
      | Some (kid, sec) \<Rightarrow>
        (let found = find (\<lambda>k. key_id k = kid) (api_keys d);
             expected = (case found of None \<Rightarrow> zeros64 | Some k \<Rightarrow> secret_hash k)
         in if expected \<noteq> sha256_hex env sec then (Inl Invalid_api_key, d)
            else (case found of
              None \<Rightarrow> (Inl Invalid_api_key, d)
            | Some k \<Rightarrow>
              if key_revoked k \<noteq> None then (Inl Invalid_api_key, d)
              else if key_expires k \<le> now then (Inl Api_key_expired, d)
              else (case find_user (\<lambda>u. u_id u = key_user k) d of
                None \<Rightarrow> (Inl Invalid_api_key, d)
              | Some u \<Rightarrow>
                if \<not> is_active u \<or> auth_source u \<noteq> ''apikey'' then (Inl Invalid_api_key, d)
                else let ip = Option.bind req r_ip in
                     if \<not> ip_allowed env ip (allowed_ips k) then (Inl Address_not_allowed, d)
                     else (Inr u,
                       if (case last_used_at k of None \<Rightarrow> True | Some t \<Rightarrow> last_used_ip k \<noteq> ip \<or> t < now - seconds 60)
                       then d\<lparr> api_keys := update_key kid (\<lambda>k. k\<lparr> last_used_at := Some now, last_used_ip := ip \<rparr>) (api_keys d) \<rparr>
                       else d)))))"

section \<open>The current user\<close>

definition PASSWORD_CHANGE_ALLOWED :: "string list" where
  "PASSWORD_CHANGE_ALLOWED = [''/auth/me'', ''/auth/me/password'', ''/auth/me/language'', ''/auth/logout'']"

definition ENROLMENT_ALLOWED :: "string list" where
  "ENROLMENT_ALLOWED = [''/auth/me'', ''/auth/me/password'', ''/auth/me/language'', ''/auth/logout'',
     ''/auth/me/mfa'', ''/auth/me/mfa/setup'', ''/auth/me/mfa/confirm'']"

definition bind_a :: "'a answered \<Rightarrow> ('a \<Rightarrow> db \<Rightarrow> 'b answered) \<Rightarrow> 'b answered" where
  "bind_a r f = (case r of (Inl e, d) \<Rightarrow> (Inl e, d) | (Inr x, d) \<Rightarrow> f x d)"

definition is_revoked :: "db \<Rightarrow> claims \<Rightarrow> bool" where
  "is_revoked d c = (case c_jti c of None \<Rightarrow> False | Some jti \<Rightarrow> jti \<noteq> [] \<and> revoked d jti \<noteq> None)"

definition mfv_of :: "claims \<Rightarrow> int" where
  "mfv_of c = (case c_mfv c of None \<Rightarrow> 0 | Some v \<Rightarrow> v)"

text \<open>What the token itself shows: the user of a session that is still valid.\<close>

definition token_user :: "auth_env \<Rightarrow> datetime \<Rightarrow> string \<Rightarrow> db \<Rightarrow> (auth_error, claims \<times> user) result" where
  "token_user env now token d =
     (case jwt_decode env now token of
        Expired_signature \<Rightarrow> Inl Token_expired
      | Invalid_signature \<Rightarrow> Inl Invalid_token
      | Claims c \<Rightarrow>
        (case c_sub c of
           None \<Rightarrow> Inl Missing_subject
         | Some sub \<Rightarrow>
           if c_purpose c \<noteq> None \<and> c_purpose c \<noteq> Some [] then Inl Invalid_token
           else if is_revoked d c then Inl Session_ended
           else (case find_user (\<lambda>u. username u = sub) d of
             None \<Rightarrow> Inl Session_invalid
           | Some u \<Rightarrow>
             if c_pwv c \<noteq> Some (password_fingerprint env (hashed_password u))
                \<or> mfv_of c \<noteq> version_of (mfa_rows d (u_id u)) then Inl Session_invalid
             else if \<not> is_active u then Inl Account_disabled
             else Inr (c, u))))"

text \<open>The two gates on the path, then the storage guard.\<close>

definition gates :: "auth_env \<Rightarrow> datetime \<Rightarrow> request option \<Rightarrow> user \<Rightarrow> db \<Rightarrow> user answered" where
  "gates env now req u d =
     (let row = mfa_rows d (u_id u) in
      case req of
        None \<Rightarrow> (Inr u, d)
      | Some q \<Rightarrow>
        if must_change_password u \<and> r_path q \<notin> set PASSWORD_CHANGE_ALLOWED then (Inl Password_change_required, d)
        else if r_path q \<notin> set ENROLMENT_ALLOWED \<and> \<not> row_enabled row
        then (case get_policy (auth_config d) of
                Inl e \<Rightarrow> (Inl (Mfa_failed e), d)
              | Inr policy \<Rightarrow> if enrolment_due policy u row now then (Inl Enrolment_required, d)
                  else bind_a (check_storage env now req u d) (\<lambda>_ d. (Inr u, d)))
        else bind_a (check_storage env now req u d) (\<lambda>_ d. (Inr u, d)))"

definition get_current_user :: "auth_env \<Rightarrow> datetime \<Rightarrow> string \<Rightarrow> request option \<Rightarrow> db \<Rightarrow> user answered" where
  "get_current_user env now token req d =
     (if is_api_key token
      then bind_a (authenticate_key env now token req d) (\<lambda>u d.
             bind_a (check_storage env now req u d) (\<lambda>_ d. (Inr u, d)))
      else (case token_user env now token d of
              Inl e \<Rightarrow> (Inl e, d)
            | Inr (c, u) \<Rightarrow> bind_a (touch env now c (u_id u) d) (\<lambda>_ d. gates env now req u d)))"


section \<open>Roles, ownership and permissions\<close>

definition require_admin :: "user \<Rightarrow> (auth_error, user) result" where
  "require_admin u = (if role_value (role u) \<noteq> ''admin'' then Inl Admin_required else Inr u)"

definition require_admin_or_manager :: "user \<Rightarrow> (auth_error, user) result" where
  "require_admin_or_manager u =
     (if role_value (role u) \<notin> {''admin'', ''manager''} then Inl Manager_required else Inr u)"

record audit_session =
  as_id :: int
  as_user :: "int option"

record audit_result =
  ar_id :: int
  ar_session :: "audit_session option"

record hardening_action =
  ha_id :: int
  ha_user :: "int option"

definition assert_session_access :: "audit_session option \<Rightarrow> user \<Rightarrow> (auth_error, audit_session) result" where
  "assert_session_access session u =
     (case session of
        None \<Rightarrow> Inl Session_not_found
      | Some s \<Rightarrow> if role_value (role u) \<noteq> ''admin'' \<and> as_user s \<noteq> Some (u_id u) then Inl Session_not_found else Inr s)"

definition require_own_session :: "audit_session list \<Rightarrow> int option \<Rightarrow> user \<Rightarrow> (auth_error, audit_session option) result" where
  "require_own_session table sid u =
     (case sid of
        None \<Rightarrow> Inr None
      | Some i \<Rightarrow> res_bind (assert_session_access (find (\<lambda>s. as_id s = i) table) u) (\<lambda>s. Inr (Some s)))"

definition require_own_result :: "audit_result list \<Rightarrow> int option \<Rightarrow> user \<Rightarrow> (auth_error, audit_result option) result" where
  "require_own_result table rid u =
     (case rid of
        None \<Rightarrow> Inr None
      | Some i \<Rightarrow> (case find (\<lambda>r. ar_id r = i) table of
          None \<Rightarrow> Inl Result_not_found
        | Some r \<Rightarrow> res_bind (assert_session_access (ar_session r) u) (\<lambda>_. Inr (Some r))))"

definition require_own_action :: "hardening_action list \<Rightarrow> int \<Rightarrow> user \<Rightarrow> (auth_error, hardening_action) result" where
  "require_own_action table aid u =
     (case find (\<lambda>a. ha_id a = aid) table of
        None \<Rightarrow> Inl Action_not_found
      | Some a \<Rightarrow> if role_value (role u) \<noteq> ''admin'' \<and> ha_user a \<noteq> Some (u_id u) then Inl Action_not_found else Inr a)"

definition owner_scope :: "user \<Rightarrow> int option" where
  "owner_scope u = (if role_value (role u) = ''admin'' then None else Some (u_id u))"

definition owned_sessions :: "audit_session list \<Rightarrow> int option \<Rightarrow> audit_session list" where
  "owned_sessions query owner = (case owner of None \<Rightarrow> query | Some i \<Rightarrow> filter (\<lambda>s. as_user s = Some i) query)"

definition require_permission :: "string \<Rightarrow> string \<Rightarrow> user \<Rightarrow> db \<Rightarrow> (auth_error, user) result" where
  "require_permission mname kind u d =
     (if role_value (role u) = ''admin'' then Inr u
      else case find (\<lambda>p. p_user p = u_id u \<and> p_module p = mname) (permissions d) of
        None \<Rightarrow> Inl No_permission
      | Some p \<Rightarrow>
        if (kind = ''read'' \<and> can_read p) \<or> (kind = ''write'' \<and> can_write p) \<or> (kind = ''delete'' \<and> can_delete p)
        then Inr u else Inl Insufficient_permission)"

section \<open>Signing in and out\<close>

definition authenticate_user :: "auth_env \<Rightarrow> string \<Rightarrow> string \<Rightarrow> db \<Rightarrow> user option" where
  "authenticate_user env name password d =
     (case find_user (\<lambda>u. username u = name) d of
        None \<Rightarrow> None
      | Some u \<Rightarrow> if auth_source u = ''apikey'' then None
          else if \<not> bcrypt_verify env password (hashed_password u) then None else Some u)"

definition log_attempt :: "datetime \<Rightarrow> string \<Rightarrow> string \<Rightarrow> bool \<Rightarrow> bool \<Rightarrow> db \<Rightarrow> db" where
  "log_attempt now ip name success limited d =
     d\<lparr> login_log := login_log d @ [\<lparr> l_time = now, l_success = success, l_ip = ip, l_username = name, l_limited = limited \<rparr>] \<rparr>"

text \<open>The payload of an access token; \<open>jti\<close> is the random id, \<open>expires\<close> the configured life in minutes.\<close>

definition access_claims :: "auth_env \<Rightarrow> datetime \<Rightarrow> int \<Rightarrow> string \<Rightarrow> user \<Rightarrow> db \<Rightarrow> claims" where
  "access_claims env now expires jti u d =
     \<lparr> c_sub = Some (username u), c_purpose = None, c_jti = Some jti,
       c_pwv = Some (password_fingerprint env (hashed_password u)),
       c_mfv = Some (version_of (mfa_rows d (u_id u))), c_exp = (now + minutes expires) div seconds 1 \<rparr>"

definition issue_session :: "auth_env \<Rightarrow> datetime \<Rightarrow> int \<Rightarrow> string \<Rightarrow> user \<Rightarrow> db \<Rightarrow> claims \<times> db" where
  "issue_session env now expires jti u d =
     (let c = access_claims env now expires jti u d in (c, open_session now c jti (u_id u) d))"

definition MFA_TOKEN_MINUTES :: int where "MFA_TOKEN_MINUTES = 5"

definition issue_mfa_token :: "auth_env \<Rightarrow> datetime \<Rightarrow> user \<Rightarrow> mfa_row option \<Rightarrow> claims" where
  "issue_mfa_token env now u r =
     \<lparr> c_sub = Some (username u), c_purpose = Some ''mfa'', c_jti = None,
       c_pwv = Some (password_fingerprint env (hashed_password u)), c_mfv = Some (version_of r),
       c_exp = (now + minutes MFA_TOKEN_MINUTES) div seconds 1 \<rparr>"

text \<open>
  \<^verbatim>\<open>login\<close>: \<open>directory\<close> is None when directory sign-in is off or the name is a local account;
  otherwise what the directory answered (None: not reachable, \<open>Some None\<close>: refused). The answer
  is the payload of the token the client gets.
\<close>

definition login :: "auth_env \<Rightarrow> datetime \<Rightarrow> int \<Rightarrow> string \<Rightarrow> string \<Rightarrow> string \<Rightarrow> string \<Rightarrow>
    user option option option \<Rightarrow> db \<Rightarrow> claims answered" where
  "login env now expires jti ip name password directory d =
     (case check_login_rate_limit now (login_log d) ip name of
        Inl e \<Rightarrow> (Inl (Login_limited e), log_attempt now ip name False True d)
      | Inr _ \<Rightarrow>
        (case (case directory of None \<Rightarrow> Some (authenticate_user env name password d) | Some answer \<Rightarrow> answer) of
           None \<Rightarrow> (Inl Directory_down, log_attempt now ip name False False d)
         | Some None \<Rightarrow> (Inl Incorrect_credentials, log_attempt now ip name False False d)
         | Some (Some u) \<Rightarrow>
           if \<not> is_active u then (Inl Account_inactive, log_attempt now ip name False False d)
           else (case get_policy (auth_config d) of
             Inl e \<Rightarrow> (Inl (Mfa_failed e), d)
           | Inr policy \<Rightarrow>
             (let r = start_grace policy u now (mfa_rows d (u_id u));
                  d = d\<lparr> mfa_rows := (mfa_rows d)(u_id u := r) \<rparr>
              in if row_enabled r then (Inr (issue_mfa_token env now u r), d)
                 else let (c, d) = issue_session env now expires jti u (log_attempt now ip (username u) True False d)
                      in (Inr c, d)))))"

definition read_mfa_token :: "auth_env \<Rightarrow> datetime \<Rightarrow> string \<Rightarrow> db \<Rightarrow> (auth_error, user) result" where
  "read_mfa_token env now token d =
     (case jwt_decode env now token of
        Claims c \<Rightarrow>
          if c_purpose c \<noteq> Some ''mfa'' then Inl Step_expired
          else (case find_user (\<lambda>u. Some (username u) = c_sub c) d of
             None \<Rightarrow> Inl Step_expired
           | Some u \<Rightarrow>
             if \<not> is_active u \<or> c_pwv c \<noteq> Some (password_fingerprint env (hashed_password u))
                \<or> c_mfv c \<noteq> Some (version_of (mfa_rows d (u_id u))) then Inl Step_expired
             else Inr u)
      | _ \<Rightarrow> Inl Step_expired)"

definition second_step :: "totp_env \<Rightarrow> auth_env \<Rightarrow> datetime \<Rightarrow> int \<Rightarrow> string \<Rightarrow> string \<Rightarrow> string \<Rightarrow> string \<Rightarrow> db \<Rightarrow>
    claims answered" where
  "second_step tenv env now expires jti ip token code d =
     (case read_mfa_token env now token d of
        Inl e \<Rightarrow> (Inl e, d)
      | Inr u \<Rightarrow>
        (case login_mfa tenv now ip u code \<lparr> a_row = mfa_rows d (u_id u), a_log = login_log d \<rparr> of
           (Inl e, a) \<Rightarrow> (Inl (Mfa_failed e), d\<lparr> login_log := a_log a \<rparr>)
         | (Inr _, a) \<Rightarrow>
           (let d = d\<lparr> login_log := a_log a, mfa_rows := (mfa_rows d)(u_id u := a_row a) \<rparr>;
                (c, d) = issue_session env now expires jti u d
            in (Inr c, d))))"

definition prune_revoked :: "datetime \<Rightarrow> db \<Rightarrow> db" where
  "prune_revoked now d =
     d\<lparr> revoked := (\<lambda>j. case revoked d j of None \<Rightarrow> None | Some x \<Rightarrow> if x < now then None else Some x) \<rparr>"

definition revoke :: "claims \<Rightarrow> db \<Rightarrow> db" where
  "revoke c d = (case c_jti c of
     None \<Rightarrow> d
   | Some jti \<Rightarrow> if jti = [] then d else d\<lparr> revoked := (revoked d)(jti \<mapsto> session_expiry c) \<rparr>)"

definition logout :: "auth_env \<Rightarrow> datetime \<Rightarrow> string \<Rightarrow> db \<Rightarrow> unit answered" where
  "logout env now token d =
     bind_a (get_current_user env now token None d) (\<lambda>u d.
       case jwt_decode env now token of
         Claims c \<Rightarrow> (Inr (), revoke c (prune_revoked now d))
       | _ \<Rightarrow> (Inl Uncaught, d))"

section \<open>Password reset\<close>

definition create_password_reset_otp :: "auth_env \<Rightarrow> datetime \<Rightarrow> string \<Rightarrow> string \<Rightarrow> db \<Rightarrow> (string \<times> user) option \<times> db" where
  "create_password_reset_otp env now address otp d =
     (case find_user (\<lambda>u. email u = address) d of
        None \<Rightarrow> (None, d)
      | Some u \<Rightarrow>
        if \<not> is_active u \<or> auth_source u \<noteq> ''local'' then (None, d)
        else (Some (otp, u), d\<lparr> reset_tokens :=
          map (\<lambda>t. if t_user t = u_id u \<and> t_used t = None then t\<lparr> t_used := Some now \<rparr> else t) (reset_tokens d) @
          [\<lparr> t_user = u_id u, t_hash = sha256_hex env otp, t_created = now,
             t_expires = now + minutes (reset_expire_minutes env), t_used = None, t_attempts = 0 \<rparr>] \<rparr>))"

text \<open>The newest row of those a query selects, and its update in the table.\<close>

fun newest_index :: "(reset_token \<Rightarrow> bool) \<Rightarrow> reset_token list \<Rightarrow> nat \<Rightarrow> (nat \<times> reset_token) option" where
  "newest_index P [] i = None"
| "newest_index P (t # ts) i =
     (case newest_index P ts (Suc i) of
        None \<Rightarrow> if P t then Some (i, t) else None
      | Some (j, s) \<Rightarrow> if P t \<and> t_created s < t_created t then Some (i, t) else Some (j, s))"

definition set_token :: "nat \<Rightarrow> reset_token \<Rightarrow> db \<Rightarrow> db" where
  "set_token i t d = d\<lparr> reset_tokens := (reset_tokens d)[i := t] \<rparr>"

definition reset_password_with_otp :: "auth_env \<Rightarrow> datetime \<Rightarrow> string \<Rightarrow> string \<Rightarrow> string \<Rightarrow> db \<Rightarrow> user option answered" where
  "reset_password_with_otp env now address otp new_password d =
     (case find_user (\<lambda>u. email u = address) d of
        None \<Rightarrow> (Inr None, d)
      | Some u \<Rightarrow>
        if \<not> is_active u then (Inr None, d)
        else (case newest_index (\<lambda>t. t_user t = u_id u \<and> t_used t = None \<and> now < t_expires t) (reset_tokens d) 0 of
          None \<Rightarrow> (Inr None, d)
        | Some (i, t) \<Rightarrow>
          if t_attempts t \<ge> reset_max_attempts env then (Inr None, set_token i (t\<lparr> t_used := Some now \<rparr>) d)
          else if sha256_hex env otp \<noteq> t_hash t
          then (let t = t\<lparr> t_attempts := t_attempts t + 1 \<rparr>;
                    t = (if t_attempts t \<ge> reset_max_attempts env then t\<lparr> t_used := Some now \<rparr> else t)
                in (Inr None, set_token i t d))
          else (case get_password_hash env new_password of
              Inl e \<Rightarrow> (Inl e, d)
            | Inr h \<Rightarrow>
              (let u' = u\<lparr> hashed_password := h \<rparr>;
                   d = set_token i (t\<lparr> t_used := Some now \<rparr>) d
               in (Inr (Some u'), d\<lparr> users := map (\<lambda>v. if u_id v = u_id u then v\<lparr> hashed_password := h \<rparr> else v) (users d) \<rparr>)))))"


section \<open>Who gets in\<close>

lemma bind_a_Inr: "bind_a r f = (Inr y, d') \<longleftrightarrow> (\<exists>x d. r = (Inr x, d) \<and> f x d = (Inr y, d'))"
  by (cases r; cases "fst r") (auto simp: bind_a_def)

lemma token_user_Inr:
  assumes "token_user env now token d = Inr (c, u)"
  shows "jwt_decode env now token = Claims c \<and> c_sub c = Some (username u) \<and> c_purpose c \<in> {None, Some []}
    \<and> \<not> is_revoked d c \<and> find_user (\<lambda>v. username v = username u) d = Some u
    \<and> c_pwv c = Some (password_fingerprint env (hashed_password u))
    \<and> mfv_of c = version_of (mfa_rows d (u_id u)) \<and> is_active u"
proof -
  obtain sub where c: "jwt_decode env now token = Claims c" "c_sub c = Some sub"
    "c_purpose c \<in> {None, Some []}" "\<not> is_revoked d c" "find_user (\<lambda>v. username v = sub) d = Some u"
    and rest: "c_pwv c = Some (password_fingerprint env (hashed_password u))"
      "mfv_of c = version_of (mfa_rows d (u_id u))" "is_active u"
    using assms by (auto simp: token_user_def split: jwt_answer.splits option.splits if_splits)
  moreover have "username u = sub" using c(5) by (auto simp: find_user_def find_Some_iff)
  ultimately show ?thesis by simp
qed

lemma touch_frame:
  "touch env now c uid d = (r, d') \<Longrightarrow>
     users d' = users d \<and> mfa_rows d' = mfa_rows d \<and> auth_config d' = auth_config d \<and> storage_cache d' = storage_cache d
     \<and> (r = Inr () \<longrightarrow> revoked d' = revoked d)"
  by (auto simp: touch_def split: option.splits if_splits)

lemma check_storage_Inr:
  "check_storage env now req u d = (Inr (), d') \<Longrightarrow>
     (\<forall>q. req = Some q \<longrightarrow> r_method q \<in> set WRITE_METHODS \<longrightarrow> r_path q \<notin> set ALWAYS_ALLOWED \<longrightarrow> role u \<noteq> ADMIN
        \<longrightarrow> \<not> st_critical (storage_state env now False (storage_cache d)))"
  by (auto simp: check_storage_def Let_def split: option.splits if_splits)

lemma gates_Inr:
  assumes "gates env now req u d = (Inr v, d')"
  shows "v = u \<and> (\<forall>q. req = Some q \<longrightarrow>
      (must_change_password u \<longrightarrow> r_path q \<in> set PASSWORD_CHANGE_ALLOWED)
    \<and> (\<forall>policy. get_policy (auth_config d) = Inr policy \<longrightarrow> enrolment_due policy u (mfa_rows d (u_id u)) now
          \<longrightarrow> r_path q \<in> set ENROLMENT_ALLOWED)
    \<and> (r_method q \<in> set WRITE_METHODS \<longrightarrow> r_path q \<notin> set ALWAYS_ALLOWED \<longrightarrow> role u \<noteq> ADMIN
          \<longrightarrow> \<not> st_critical (storage_state env now False (storage_cache d))))"
proof (cases req)
  case None
  with assms show ?thesis by (simp add: gates_def)
next
  case (Some q)
  have "\<not> enrolment_due policy u r now" if "row_enabled r" for policy r
    using that by (simp add: enrolment_due_def)
  with assms Some show ?thesis
    by (auto simp: gates_def Let_def bind_a_Inr dest!: check_storage_Inr split: sum.splits if_splits)
qed

text \<open>
  C3. A request with an access token is served only to the account the token names, and only
  while all of this holds: the token is signed and unexpired and not a step token; it was not
  revoked; the account exists and is active; its password and its two-step set-up are those the
  token was issued under; an account whose password someone else chose is at the password
  pages, one that must set up two-step sign-in is at the set-up; and on a full disk a change
  is made by an administrator or is a sign-out.
\<close>

theorem current_user_is_entitled:
  assumes "\<not> is_api_key token" "get_current_user env now token (Some q) d = (Inr u, d')"
  shows "\<exists>c. jwt_decode env now token = Claims c \<and> c_sub c = Some (username u) \<and> c_purpose c \<in> {None, Some []}
    \<and> \<not> is_revoked d c \<and> u \<in> set (users d) \<and> is_active u
    \<and> c_pwv c = Some (password_fingerprint env (hashed_password u))
    \<and> mfv_of c = version_of (mfa_rows d (u_id u))
    \<and> (must_change_password u \<longrightarrow> r_path q \<in> set PASSWORD_CHANGE_ALLOWED)
    \<and> (\<forall>policy. get_policy (auth_config d) = Inr policy \<longrightarrow> enrolment_due policy u (mfa_rows d (u_id u)) now
          \<longrightarrow> r_path q \<in> set ENROLMENT_ALLOWED)
    \<and> (r_method q \<in> set WRITE_METHODS \<longrightarrow> r_path q \<noteq> ''/auth/logout'' \<longrightarrow> role u \<noteq> ADMIN
          \<longrightarrow> \<not> st_critical (storage_state env now False (storage_cache d)))"
proof -
  obtain c v where tu: "token_user env now token d = Inr (c, v)"
    using assms by (cases "token_user env now token d") (auto simp: get_current_user_def)
  then obtain d1 where t: "touch env now c (u_id v) d = (Inr (), d1)"
    and g: "gates env now (Some q) v d1 = (Inr u, d')"
    using assms by (auto simp: get_current_user_def bind_a_Inr)
  have "u = v" using gates_Inr [OF g] by simp
  moreover have "v \<in> set (users d)"
    using token_user_Inr [OF tu] by (auto simp: find_user_def find_Some_iff)
  ultimately show ?thesis
    using token_user_Inr [OF tu] gates_Inr [OF g] touch_frame [OF t] by (auto simp: ALWAYS_ALLOWED_def)
qed


text \<open>An environment in which the token \<open>T\<close> has given claims until it expires, and everything else is invalid.\<close>

definition demo_auth :: "claims \<Rightarrow> auth_env" where
  "demo_auth c = \<lparr> jwt_decode = (\<lambda>now t. if t = ''T'' then (if now < seconds (c_exp c) then Claims c else Expired_signature)
       else Invalid_signature),
     sha256_hex = id, bcrypt_verify = (\<lambda>p h. p = h), bcrypt_hash = id, ip_parses = (\<lambda>_. True),
     ip_in_network = (\<lambda>a n. prefix n a), idle_minutes = 30, storage_critical_mb = 500,
     reset_expire_minutes = 10, reset_max_attempts = 5, disk_free = [Some 9999999999] \<rparr>"

definition demo_claims :: claims where
  "demo_claims = \<lparr> c_sub = Some ''alice'', c_purpose = None, c_jti = Some ''j'', c_pwv = Some ''h'', c_mfv = Some 1, c_exp = 7200 \<rparr>"

definition demo_db :: db where
  "demo_db = \<lparr> users = [demo_user], mfa_rows = (\<lambda>i. if i = 1 then Some demo_row else None), auth_config = [],
     sessions = Map.empty, revoked = Map.empty, api_keys = [], reset_tokens = [], permissions = [], login_log = [],
     storage_cache = \<lparr> st_checked = 0, st_free = None, st_critical = False \<rparr> \<rparr>"

definition demo_request :: request where
  "demo_request = \<lparr> r_method = ''GET'', r_path = ''/api/assets'', r_ip = Some ''10.0.0.1'' \<rparr>"

lemmas demo_auth_defs = demo_auth_def demo_claims_def demo_db_def demo_request_def demo_user_def demo_row_def

lemma demo_token_user: "token_user (demo_auth demo_claims) 0 ''T'' demo_db = Inr (demo_claims, demo_user)"
  by (simp add: token_user_def demo_auth_defs is_revoked_def find_user_def password_fingerprint_def mfv_of_def
      version_of_def seconds_def)

lemma demo_current:
  "\<exists>d'. get_current_user (demo_auth demo_claims) 0 ''T'' (Some demo_request) demo_db = (Inr demo_user, d')"
proof -
  have "\<not> is_api_key ''T''" by (simp add: is_api_key_def PREFIX_def)
  moreover obtain d1 where "touch (demo_auth demo_claims) 0 demo_claims (u_id demo_user) demo_db = (Inr (), d1)"
    and "mfa_rows d1 = mfa_rows demo_db"
    by (simp add: touch_def demo_auth_defs)
  moreover from this have "\<exists>d'. gates (demo_auth demo_claims) 0 (Some demo_request) demo_user d1 = (Inr demo_user, d')"
    by (simp add: gates_def demo_auth_defs row_enabled_def check_storage_def WRITE_METHODS_def bind_a_def)
  ultimately show ?thesis by (simp add: get_current_user_def demo_token_user bind_a_def)
qed

theorem current_user_is_entitled_witness:
  "\<exists>c. jwt_decode (demo_auth demo_claims) 0 ''T'' = Claims c \<and> c_sub c = Some ''alice'' \<and> \<not> is_revoked demo_db c"
proof -
  obtain d' where g: "get_current_user (demo_auth demo_claims) 0 ''T'' (Some demo_request) demo_db = (Inr demo_user, d')"
    using demo_current by blast
  have "\<not> is_api_key ''T''" by (simp add: is_api_key_def PREFIX_def)
  from current_user_is_entitled [OF this g] show ?thesis by (auto simp: demo_user_def)
qed

lemma start_grace_enabled: "row_enabled r \<Longrightarrow> start_grace policy u now r = r"
  by (cases r) (auto simp: start_grace_def row_enabled_def get_or_create_row_def)

text \<open>
  With two-step sign-in on, the password alone opens nothing: whatever token the sign-in
  with the right password answers is refused by every route, at any time, in any later state
  of the database.
\<close>

theorem password_alone_opens_nothing:
  assumes "authenticate_user env name password d = Some u" "row_enabled (mfa_rows d (u_id u))"
    "login env now expires jti ip name password None d = (Inr c, d1)"
    "jwt_decode env later token = Claims c" "\<not> is_api_key token"
  shows "\<exists>e. fst (get_current_user env later token req d2) = Inl e"
proof -
  have "c_purpose c = Some ''mfa''"
    using assms(1-3) by (auto simp: login_def Let_def start_grace_enabled issue_mfa_token_def
        split: sum.splits if_splits)
  then have "\<exists>e. token_user env later token d2 = Inl e"
    using assms(4) by (auto simp: token_user_def split: option.splits)
  then show ?thesis using assms(5) by (auto simp: get_current_user_def)
qed

definition demo_mfa_claims :: claims where
  "demo_mfa_claims = \<lparr> c_sub = Some ''alice'', c_purpose = Some ''mfa'', c_jti = None, c_pwv = Some ''h'', c_mfv = Some 1, c_exp = 300 \<rparr>"

theorem password_alone_opens_nothing_witness:
  "\<exists>e. fst (get_current_user (demo_auth demo_mfa_claims) 1 ''T'' None demo_db) = Inl e"
proof -
  let ?env = "demo_auth demo_mfa_claims"
  have u: "authenticate_user ?env ''alice'' ''h'' demo_db = Some demo_user"
    by (simp add: authenticate_user_def demo_auth_defs find_user_def)
  have r: "row_enabled (mfa_rows demo_db (u_id demo_user))" by (simp add: demo_auth_defs row_enabled_def)
  have "get_policy (auth_config demo_db) = Inr \<lparr> required_roles = [''admin'', ''manager''], grace_days = 7 \<rparr>"
    by code_simp
  then have "\<exists>d1. login ?env 0 120 ''j'' ''ip'' ''alice'' ''h'' None demo_db = (Inr demo_mfa_claims, d1)"
    using r by (simp add: login_def u start_grace_enabled check_login_rate_limit_def recent_failures_def)
      (simp add: demo_auth_defs issue_mfa_token_def demo_mfa_claims_def version_of_def password_fingerprint_def
        MFA_TOKEN_MINUTES_def timedelta_defs)
  then obtain d1 where l: "login ?env 0 120 ''j'' ''ip'' ''alice'' ''h'' None demo_db = (Inr demo_mfa_claims, d1)" ..
  have j: "jwt_decode ?env 1 ''T'' = Claims demo_mfa_claims" by (simp add: demo_auth_def demo_mfa_claims_def seconds_def)
  have k: "\<not> is_api_key ''T''" by (simp add: is_api_key_def PREFIX_def)
  show ?thesis by (rule password_alone_opens_nothing [OF u r l j k])
qed


section \<open>Sessions that end\<close>

text \<open>A request that turned two-step sign-in on, moved it to another app, turned it off or reset it.\<close>

definition two_step_changed :: "totp_env \<Rightarrow> user \<Rightarrow> account \<Rightarrow> account \<Rightarrow> bool" where
  "two_step_changed tenv u a b \<longleftrightarrow>
     (\<exists>now code hashes v. confirm_setup tenv now code hashes a = (Inr v, b))
   \<or> (\<exists>now ip policy good code v. disable tenv now ip u policy good code a = (Inr v, b))
   \<or> (\<exists>now actor policy. reset_user_mfa now actor u policy a = (Inr (), b))"

lemma bind_h_Inr: "bind_h r f = (Inr y, b) \<longleftrightarrow> (\<exists>x a. r = (Inr x, a) \<and> f x a = (Inr y, b))"
  by (cases r; cases "fst r") (auto simp: bind_h_def)

lemma confirm_bumps: "confirm_setup tenv now code hashes a = (Inr v, b) \<Longrightarrow> version_of (a_row a) < version_of (a_row b)"
  by (auto simp: confirm_setup_def Let_def version_of_def bump_def split: option.splits sum.splits if_splits)

lemma disable_bumps:
  assumes "disable tenv now ip u policy good code a = (Inr v, b)"
  shows "version_of (a_row a) < version_of (a_row b)"
proof -
  have pw: "check_password now ip u good a = (Inr (), a1) \<Longrightarrow> a1 = a" for a1
    using check_password_cases [of now ip u good a] by auto
  obtain how row a2 where "handler_check_code tenv now ip u (a_row a) code a = (Inr (how, row), a2)"
    "a_row b = Some (clear_row row)"
    using assms by (auto simp: disable_def bind_h_Inr split: if_splits dest!: pw)
  then show ?thesis
    using handler_check_code_cases [of tenv now ip u "a_row a" code a "{}"] by (auto simp: version_of_def)
qed

lemma reset_bumps: "reset_user_mfa now actor u policy a = (Inr (), b) \<Longrightarrow> version_of (a_row a) < version_of (a_row b)"
  by (auto simp: reset_user_mfa_def Let_def version_of_def get_or_create_row_def new_row_def split: if_splits option.splits)

lemma two_step_changed_bumps: "two_step_changed tenv u a b \<Longrightarrow> version_of (a_row a) < version_of (a_row b)"
  by (auto simp: two_step_changed_def dest: confirm_bumps disable_bumps reset_bumps)

text \<open>
  Turning two-step sign-in on, moving it to another app, turning it off or having it reset
  ends every session issued before, for good: whatever requests come before and after the
  change, a token that carries the version of an earlier moment is refused.
\<close>

theorem two_step_change_ends_sessions:
  assumes "(mfa_step tenv u used)\<^sup>*\<^sup>* a b" "two_step_changed tenv u b b'" "(mfa_step tenv u used)\<^sup>*\<^sup>* b' z"
    "jwt_decode env now token = Claims c" "mfv_of c = version_of (a_row a)" "\<not> is_api_key token"
    "c_sub c = Some (username u)" "find_user (\<lambda>v. username v = username u) d = Some u"
    "mfa_rows d (u_id u) = a_row z"
  shows "\<exists>e. get_current_user env now token req d = (Inl e, d)"
proof -
  have "version_of (a_row a) \<le> version_of (a_row b)" "version_of (a_row b') \<le> version_of (a_row z)"
    using mfa_steps_adv assms(1,3) by (auto simp: adv_def)
  then have "mfv_of c \<noteq> version_of (mfa_rows d (u_id u))"
    using two_step_changed_bumps [OF assms(2)] assms(5,9) by simp
  then have "\<exists>e. token_user env now token d = Inl e"
    using assms(4,7,8) by (auto simp: token_user_def)
  then show ?thesis using assms(6) by (auto simp: get_current_user_def)
qed

theorem two_step_change_ends_sessions_witness:
  "\<exists>e. get_current_user (demo_auth demo_claims) 0 ''T'' None
     (demo_db\<lparr> mfa_rows := (\<lambda>i. Some (clear_row demo_row)) \<rparr>) =
     (Inl e, demo_db\<lparr> mfa_rows := (\<lambda>i. Some (clear_row demo_row)) \<rparr>)"
proof -
  let ?a = "\<lparr> a_row = Some demo_row, a_log = [] \<rparr>" and ?b = "\<lparr> a_row = Some (clear_row demo_row), a_log = [] \<rparr>"
  let ?d = "demo_db\<lparr> mfa_rows := (\<lambda>i. Some (clear_row demo_row)) \<rparr>"
  have "reset_user_mfa 0 2 demo_user \<lparr> required_roles = [], grace_days = 0 \<rparr> ?a = (Inr (), ?b)"
    by (simp add: reset_user_mfa_def demo_user_def is_required_def get_or_create_row_def)
  then have ch: "two_step_changed demo_totp demo_user ?a ?b" unfolding two_step_changed_def by blast
  have steps: "(mfa_step demo_totp demo_user {})\<^sup>*\<^sup>* x x" for x by (rule rtranclp.rtrancl_refl)
  have jwt: "jwt_decode (demo_auth demo_claims) 0 ''T'' = Claims demo_claims" by (simp add: demo_auth_defs seconds_def)
  have mfv: "mfv_of demo_claims = version_of (a_row ?a)" by (simp add: demo_auth_defs mfv_of_def version_of_def)
  have k: "\<not> is_api_key ''T''" by (simp add: is_api_key_def PREFIX_def)
  have sub: "c_sub demo_claims = Some (username demo_user)" by (simp add: demo_auth_defs)
  have fu: "find_user (\<lambda>v. username v = username demo_user) ?d = Some demo_user" by (simp add: demo_auth_defs find_user_def)
  have rows: "mfa_rows ?d (u_id demo_user) = a_row ?b" by simp
  show ?thesis by (rule two_step_change_ends_sessions [OF steps ch steps jwt mfv k sub fu rows])
qed

text \<open>
  What the program relies on of PyJWT and of its own random token ids: a token's claims are
  fixed, they are only returned before the expiry, and two tokens with one id are one token.
\<close>

definition jwt_ok :: "auth_env \<Rightarrow> bool" where
  "jwt_ok env \<longleftrightarrow> (\<forall>now t c. jwt_decode env now t = Claims c \<longrightarrow> now < session_expiry c)
     \<and> (\<forall>now now' t t' c c'. jwt_decode env now t = Claims c \<longrightarrow> jwt_decode env now' t' = Claims c' \<longrightarrow>
          (t = t' \<longrightarrow> c = c') \<and> (c_jti c = c_jti c' \<longrightarrow> c_jti c \<noteq> None \<longrightarrow> c_exp c = c_exp c'))"

text \<open>
  The database and the clock move on: a request is authenticated, someone signs out, a
  session is opened for a token the server signed, or anything else changes (users, two-step
  rows, keys, tables) that is not the session or revocation table.
\<close>

inductive session_step :: "auth_env \<Rightarrow> datetime \<times> db \<Rightarrow> datetime \<times> db \<Rightarrow> bool" for env where
  Request: "now \<le> now' \<Longrightarrow> session_step env (now, d) (now', snd (get_current_user env now' t req d))"
| Logout: "now \<le> now' \<Longrightarrow> session_step env (now, d) (now', snd (logout env now' t d))"
| Open: "now \<le> now' \<Longrightarrow> jwt_decode env now' t = Claims c \<Longrightarrow> c_jti c = Some jti \<Longrightarrow>
    session_step env (now, d) (now', open_session now' c jti uid d)"
| Other: "now \<le> now' \<Longrightarrow> sessions d' = sessions d \<Longrightarrow> revoked d' = revoked d \<Longrightarrow> session_step env (now, d) (now', d')"

definition sessions_ok :: "auth_env \<Rightarrow> db \<Rightarrow> bool" where
  "sessions_ok env d \<longleftrightarrow> (\<forall>now t c jti. jwt_decode env now t = Claims c \<longrightarrow> c_jti c = Some jti \<longrightarrow>
     (\<forall>s. sessions d jti = Some s \<longrightarrow> s_expires s = session_expiry c)
   \<and> (\<forall>x. revoked d jti = Some x \<longrightarrow> x = session_expiry c))"

text \<open>The token with this id has ended: it is on the revocation list or past its expiry.\<close>

definition ended :: "string \<Rightarrow> datetime \<Rightarrow> datetime \<times> db \<Rightarrow> bool" where
  "ended jti expiry st \<longleftrightarrow> revoked (snd st) jti \<noteq> None \<or> expiry < fst st"


lemma jwt_ok_expiry: "jwt_ok env \<Longrightarrow> jwt_decode env now t = Claims c \<Longrightarrow> now < session_expiry c"
  by (auto simp: jwt_ok_def)

lemma jwt_ok_same: "jwt_ok env \<Longrightarrow> jwt_decode env now t = Claims c \<Longrightarrow> jwt_decode env now' t = Claims c' \<Longrightarrow> c = c'"
  unfolding jwt_ok_def by blast

lemma jwt_ok_jti: "jwt_ok env \<Longrightarrow> jwt_decode env now t = Claims c \<Longrightarrow> jwt_decode env now' t' = Claims c' \<Longrightarrow>
  c_jti c = Some j \<Longrightarrow> c_jti c' = Some j \<Longrightarrow> session_expiry c = session_expiry c'"
  unfolding jwt_ok_def session_expiry_def by (metis option.distinct(1))

lemma sessions_okD:
  "sessions_ok env d \<Longrightarrow> jwt_decode env now t = Claims c \<Longrightarrow> c_jti c = Some j \<Longrightarrow> sessions d j = Some s \<Longrightarrow> s_expires s = session_expiry c"
  "sessions_ok env d \<Longrightarrow> jwt_decode env now t = Claims c \<Longrightarrow> c_jti c = Some j \<Longrightarrow> revoked d j = Some x \<Longrightarrow> x = session_expiry c"
  unfolding sessions_ok_def by blast+

lemma sessions_ok_cong: "sessions d' = sessions d \<Longrightarrow> revoked d' = revoked d \<Longrightarrow> sessions_ok env d' = sessions_ok env d"
  by (simp add: sessions_ok_def)

text \<open>Authenticating a request writes the session tables only through \<open>touch\<close>.\<close>

lemma check_storage_tables: "check_storage env now req u d = (r, d') \<Longrightarrow> sessions d' = sessions d \<and> revoked d' = revoked d"
  by (auto simp: check_storage_def Let_def split: option.splits if_splits)

lemma authenticate_key_tables:
  "authenticate_key env now t req d = (r, d') \<Longrightarrow> sessions d' = sessions d \<and> revoked d' = revoked d"
  by (auto simp: authenticate_key_def Let_def split: option.splits if_splits prod.splits)

lemma gates_tables: "gates env now req u d = (r, d') \<Longrightarrow> sessions d' = sessions d \<and> revoked d' = revoked d"
  by (auto simp: gates_def Let_def bind_a_def split: option.splits if_splits sum.splits prod.splits
      dest!: check_storage_tables)

lemma current_user_tables:
  "(\<exists>d1. (d1 = d \<or> (\<exists>c uid. jwt_decode env now t = Claims c \<and> d1 = snd (touch env now c uid d)))
     \<and> sessions (snd (get_current_user env now t req d)) = sessions d1
     \<and> revoked (snd (get_current_user env now t req d)) = revoked d1)"
proof (cases "is_api_key t")
  case True
  obtain r d1 where a: "authenticate_key env now t req d = (r, d1)" by fastforce
  have "sessions (snd (bind_a (check_storage env now req u d1) (\<lambda>_ d. (Inr u, d)))) = sessions d1
      \<and> revoked (snd (bind_a (check_storage env now req u d1) (\<lambda>_ d. (Inr u, d)))) = revoked d1" for u
    by (cases "check_storage env now req u d1"; cases "fst (check_storage env now req u d1)")
      (auto simp: bind_a_def dest: check_storage_tables)
  with a authenticate_key_tables [OF a] True show ?thesis
    by (cases r) (auto simp: get_current_user_def bind_a_def)
next
  case False
  show ?thesis
  proof (cases "token_user env now t d")
    case (Inl e)
    with False show ?thesis by (auto simp: get_current_user_def)
  next
    case (Inr cu)
    obtain c u where cu: "cu = (c, u)" by fastforce
    obtain r d1 where t: "touch env now c (u_id u) d = (r, d1)" by fastforce
    have g: "sessions (snd (gates env now req u d1)) = sessions d1 \<and> revoked (snd (gates env now req u d1)) = revoked d1"
      using gates_tables by (metis prod.collapse)
    have "jwt_decode env now t = Claims c" using token_user_Inr Inr cu by blast
    moreover have "d1 = snd (touch env now c (u_id u) d)" by (simp add: t)
    moreover have "snd (get_current_user env now t req d) = (case r of Inl e \<Rightarrow> d1 | Inr _ \<Rightarrow> snd (gates env now req u d1))"
      using False Inr cu t by (simp add: get_current_user_def bind_a_def split: sum.splits)
    ultimately show ?thesis using g by (intro exI [of _ d1]) (auto split: sum.splits)
  qed
qed

lemma touch_keeps_ended: "ended j e (now, d) \<Longrightarrow> ended j e (now, snd (touch env now c uid d))"
  by (auto simp: touch_def ended_def split: option.splits)

lemma ended_mono: "ended j e (now, d) \<Longrightarrow> now \<le> now' \<Longrightarrow> revoked d' = revoked d \<Longrightarrow> ended j e (now', d')"
  by (auto simp: ended_def)



text \<open>Every operation keeps the tables in agreement with the tokens, and an ended token ended.\<close>

lemma prune_sessions_ok: "sessions_ok env d \<Longrightarrow> sessions_ok env (prune_revoked now d)"
  unfolding sessions_ok_def prune_revoked_def by (auto split: option.splits if_splits)

lemma sessions_okI:
  assumes "jwt_ok env" "sessions_ok env d" "jwt_decode env now t = Claims c" "c_jti c = Some j"
    "\<And>k s. sessions d' k = Some s \<Longrightarrow> sessions d k = Some s \<or> k = j \<and> s_expires s = session_expiry c"
    "\<And>k x. revoked d' k = Some x \<Longrightarrow> revoked d k = Some x \<or> k = j \<and> x = session_expiry c"
  shows "sessions_ok env d'"
  unfolding sessions_ok_def
proof (intro allI impI conjI)
  fix n t' c' k s
  assume k: "jwt_decode env n t' = Claims c'" "c_jti c' = Some k" "sessions d' k = Some s"
  from assms(5) [OF k(3)] show "s_expires s = session_expiry c'"
    using sessions_okD(1) [OF assms(2) k(1,2)] jwt_ok_jti [OF assms(1,3) k(1) assms(4)] k(2) by auto
next
  fix n t' c' k x
  assume k: "jwt_decode env n t' = Claims c'" "c_jti c' = Some k" "revoked d' k = Some x"
  from assms(6) [OF k(3)] show "x = session_expiry c'"
    using sessions_okD(2) [OF assms(2) k(1,2)] jwt_ok_jti [OF assms(1,3) k(1) assms(4)] k(2) by auto
qed

lemma touch_sessions_ok:
  assumes "jwt_ok env" "sessions_ok env d" "jwt_decode env now t = Claims c"
  shows "sessions_ok env (snd (touch env now c uid d))"
proof (cases "c_jti c")
  case (Some j)
  show ?thesis
    by (rule sessions_okI [OF assms Some])
      (auto simp: touch_def Some sessions_okD(1) [OF assms(2,3) Some] split: option.splits if_splits)
qed (simp add: touch_def assms)

lemma revoke_sessions_ok:
  assumes "jwt_ok env" "sessions_ok env d" "jwt_decode env now t = Claims c"
  shows "sessions_ok env (revoke c d)"
proof (cases "c_jti c")
  case (Some j)
  show ?thesis
    by (rule sessions_okI [OF assms Some]) (auto simp: revoke_def Some split: if_splits)
qed (simp add: revoke_def assms)

lemma open_sessions_ok:
  assumes "jwt_ok env" "sessions_ok env d" "jwt_decode env now t = Claims c" "c_jti c = Some j"
  shows "sessions_ok env (open_session now' c j uid d)"
  by (rule sessions_okI [OF assms]) (auto simp: open_session_def split: if_splits option.splits)

lemma prune_keeps_ended:
  assumes "sessions_ok env d" "jwt_decode env n t = Claims c" "c_jti c = Some j" "ended j (session_expiry c) (now, d)"
  shows "ended j (session_expiry c) (now, prune_revoked now d)"
  using assms sessions_okD(2) [OF assms(1-3)] by (auto simp: ended_def prune_revoked_def split: option.splits)

lemma revoke_keeps_ended: "ended j e (now, d) \<Longrightarrow> ended j e (now, revoke c d)"
  by (auto simp: ended_def revoke_def split: option.splits)

lemma ended_cong: "revoked d' = revoked d \<Longrightarrow> ended j e (now, d') = ended j e (now, d)"
  by (simp add: ended_def)

lemma request_sessions_ok:
  assumes "jwt_ok env" "sessions_ok env d"
  shows "sessions_ok env (snd (get_current_user env now t req d))"
  using current_user_tables [of d env now t req] touch_sessions_ok [OF assms, of now t] assms(2) sessions_ok_cong
  by metis

lemma request_keeps_ended:
  assumes "ended j e (now, d)"
  shows "ended j e (now, snd (get_current_user env now t req d))"
  using current_user_tables [of d env now t req] touch_keeps_ended [OF assms] assms ended_cong by metis

lemma logout_result:
  "snd (logout env now t d) = snd (get_current_user env now t None d) \<or>
   (\<exists>c. jwt_decode env now t = Claims c \<and>
      snd (logout env now t d) = revoke c (prune_revoked now (snd (get_current_user env now t None d))))"
  by (cases "get_current_user env now t None d"; cases "fst (get_current_user env now t None d)";
      cases "jwt_decode env now t") (auto simp: logout_def bind_a_def)

lemma logout_sessions_ok:
  assumes "jwt_ok env" "sessions_ok env d"
  shows "sessions_ok env (snd (logout env now t d))"
  using logout_result [of env now t d] request_sessions_ok [OF assms, of now t None]
    revoke_sessions_ok [OF assms(1) prune_sessions_ok] by auto

lemma logout_keeps_ended:
  assumes "jwt_ok env" "sessions_ok env d" "jwt_decode env n t' = Claims c" "c_jti c = Some j"
    "ended j (session_expiry c) (now, d)"
  shows "ended j (session_expiry c) (now, snd (logout env now t d))"
  using logout_result [of env now t d] request_keeps_ended [OF assms(5), of env t None]
    prune_keeps_ended [OF request_sessions_ok [OF assms(1,2)] assms(3,4)] revoke_keeps_ended by metis

lemma session_step_ok: "session_step env s s' \<Longrightarrow> jwt_ok env \<Longrightarrow> sessions_ok env (snd s) \<Longrightarrow> sessions_ok env (snd s')"
  by (induction rule: session_step.induct)
    (auto simp: request_sessions_ok logout_sessions_ok intro: open_sessions_ok dest: sessions_ok_cong)

lemma session_step_ended:
  assumes "session_step env s s'" "jwt_ok env" "jwt_decode env n t' = Claims c" "c_jti c = Some j"
    "sessions_ok env (snd s)" "ended j (session_expiry c) s"
  shows "ended j (session_expiry c) s'"
  using assms
proof (induction rule: session_step.induct)
  case (Request now now' d t req)
  then have "ended j (session_expiry c) (now', d)" by (auto intro: ended_mono)
  then show ?case by (rule request_keeps_ended)
next
  case (Logout now now' d t)
  then have "ended j (session_expiry c) (now', d)" by (auto intro: ended_mono)
  with Logout show ?case by (auto intro: logout_keeps_ended)
next
  case (Open now now' t ca jti d uid)
  then show ?case by (auto simp: open_session_def intro: ended_mono)
next
  case (Other now now' d' d)
  then show ?case by (auto intro: ended_mono)
qed


definition fresh_tables :: "datetime \<times> db \<Rightarrow> bool" where
  "fresh_tables s \<longleftrightarrow> sessions (snd s) = Map.empty \<and> revoked (snd s) = Map.empty"

lemma reach_sessions_ok: "reach fresh_tables (session_step env) s \<Longrightarrow> jwt_ok env \<Longrightarrow> sessions_ok env (snd s)"
proof (induction rule: reach.induct)
  case (reach_init s)
  then show ?case by (simp add: fresh_tables_def sessions_ok_def)
qed (blast intro: session_step_ok)

lemma session_steps_ended:
  assumes "(session_step env)\<^sup>*\<^sup>* s s'" "jwt_ok env" "jwt_decode env n t = Claims c" "c_jti c = Some j"
    "sessions_ok env (snd s)" "ended j (session_expiry c) s"
  shows "ended j (session_expiry c) s'"
proof -
  from assms(1) have "sessions_ok env (snd s') \<and> ended j (session_expiry c) s'"
  proof (induction rule: rtranclp_induct)
    case (step y z)
    then show ?case using session_step_ok session_step_ended [OF step(2) assms(2-4)] assms(2) by blast
  qed (use assms in blast)
  then show ?thesis by blast
qed

lemma ended_refused:
  assumes "jwt_ok env" "jwt_decode env n t = Claims c" "c_jti c = Some j" "j \<noteq> []" "\<not> is_api_key t"
    "ended j (session_expiry c) (now, d)"
  shows "\<exists>e. fst (get_current_user env now t req d) = Inl e"
proof -
  have "\<exists>e. token_user env now t d = Inl e"
  proof (cases "jwt_decode env now t")
    case (Claims c')
    have "c' = c" using jwt_ok_same [OF assms(1) Claims assms(2)] .
    moreover have "now < session_expiry c'" using jwt_ok_expiry [OF assms(1) Claims] .
    ultimately have "is_revoked d c'" using assms(3,4,6) by (auto simp: ended_def is_revoked_def)
    then show ?thesis by (auto simp: token_user_def Claims split: option.splits)
  qed (auto simp: token_user_def)
  then show ?thesis using assms(5) by (auto simp: get_current_user_def)
qed

lemma logout_ends:
  assumes "fst (logout env now t d) = Inr ()" "jwt_decode env now t = Claims c" "c_jti c = Some j" "j \<noteq> []"
  shows "ended j e (now, snd (logout env now t d))"
  using assms by (cases "get_current_user env now t None d"; cases "fst (get_current_user env now t None d)")
    (auto simp: logout_def bind_a_def ended_def revoke_def)

lemma idle_ends:
  assumes "fst (get_current_user env now t req d) = Inl Idle_ended" "jwt_decode env now t = Claims c" "c_jti c = Some j"
    "\<not> is_api_key t"
  shows "j \<noteq> [] \<and> ended j e (now, snd (get_current_user env now t req d))"
proof -
  have gates: "fst (gates env now req u d1) \<noteq> Inl Idle_ended" for u d1
    by (auto simp: gates_def check_storage_def bind_a_def Let_def split: option.splits sum.splits if_splits)
  have "token_user env now t d \<noteq> Inl Idle_ended"
    by (auto simp: token_user_def split: jwt_answer.splits option.splits)
  then obtain c' u where tu: "token_user env now t d = Inr (c', u)"
    using assms(1,4) by (cases "token_user env now t d") (auto simp: get_current_user_def)
  then have c': "c' = c" using token_user_Inr assms(2) by fastforce
  obtain r d1 where t: "touch env now c (u_id u) d = (r, d1)" by fastforce
  have "r = Inl Idle_ended" using assms(1,4) tu c' t gates
    by (cases r) (auto simp: get_current_user_def bind_a_def)
  then have "j \<noteq> [] \<and> revoked d1 j \<noteq> None"
    using t assms(3) by (auto simp: touch_def split: option.splits if_splits)
  then show ?thesis using assms(4) tu c' t \<open>r = Inl Idle_ended\<close> by (simp add: get_current_user_def bind_a_def ended_def)
qed

text \<open>
  C7. A session that ended stays ended. After its owner signed out, or a request found it
  idle for longer than the limit, its token is refused from then on: whatever requests,
  sign-ins, sign-outs (which prune the revocation list) and other changes follow, and at
  whatever later time.
\<close>

theorem ended_session_stays_ended:
  assumes "jwt_ok env" "reach fresh_tables (session_step env) (now, d)"
    "jwt_decode env now token = Claims c" "c_jti c = Some jti" "jti \<noteq> []" "\<not> is_api_key token"
    "fst (logout env now token d) = Inr () \<and> d1 = snd (logout env now token d)
     \<or> fst (get_current_user env now token req d) = Inl Idle_ended \<and> d1 = snd (get_current_user env now token req d)"
    "(session_step env)\<^sup>*\<^sup>* (now, d1) (later, d2)"
  shows "\<exists>e. fst (get_current_user env later token req' d2) = Inl e"
proof -
  have ok: "sessions_ok env d" using reach_sessions_ok [OF assms(2,1)] by simp
  have "sessions_ok env d1" using assms(7) request_sessions_ok [OF assms(1) ok] logout_sessions_ok [OF assms(1) ok] by blast
  moreover have "ended jti (session_expiry c) (now, d1)"
    using assms(7) logout_ends [OF _ assms(3,4,5)] idle_ends [OF _ assms(3,4,6)] by blast
  ultimately have "ended jti (session_expiry c) (later, d2)"
    using session_steps_ended [OF assms(8,1,3,4)] by simp
  then show ?thesis by (rule ended_refused [OF assms(1,3-6)])
qed

lemma demo_jwt_ok: "jwt_ok (demo_auth c)"
  by (auto simp: jwt_ok_def demo_auth_def session_expiry_def split: if_splits)

theorem ended_session_stays_ended_witness:
  "\<exists>e. fst (get_current_user (demo_auth demo_claims) 0 ''T'' None
     (snd (logout (demo_auth demo_claims) 0 ''T'' demo_db))) = Inl e"
proof -
  let ?env = "demo_auth demo_claims"
  have k: "\<not> is_api_key ''T''" by (simp add: is_api_key_def PREFIX_def)
  have jwt: "jwt_decode ?env 0 ''T'' = Claims demo_claims" by (simp add: demo_auth_defs seconds_def)
  have jti: "c_jti demo_claims = Some ''j''" "''j'' \<noteq> []" by (simp_all add: demo_claims_def)
  have "reach fresh_tables (session_step ?env) (0, demo_db)"
    by (rule reach_init) (simp add: fresh_tables_def demo_db_def)
  moreover have "\<exists>d'. get_current_user ?env 0 ''T'' None demo_db = (Inr demo_user, d')"
  proof -
    have "\<exists>d1. touch ?env 0 demo_claims (u_id demo_user) demo_db = (Inr (), d1)" by (simp add: touch_def demo_auth_defs)
    then show ?thesis by (auto simp: get_current_user_def k demo_token_user bind_a_def gates_def)
  qed
  then have "fst (logout ?env 0 ''T'' demo_db) = Inr ()" by (auto simp: logout_def bind_a_def jwt)
  ultimately show ?thesis
    using ended_session_stays_ended [OF demo_jwt_ok _ jwt jti k, of demo_db "snd (logout ?env 0 ''T'' demo_db)" None 0]
    by blast
qed

end
