(* ===== verification/Access_Rules.thy ===== *)
theory Access_Rules
  imports Sign_In
begin

text \<open>
  What the definitions of \<^verbatim>\<open>Sign_In\<close> promise about API keys, password-reset codes and the
  ownership of audit sessions.
\<close>

section \<open>API keys\<close>

lemma split_first_at: "sep \<notin> set a \<Longrightarrow> split_first sep (a @ sep # b) = (a, b)"
  by (induction a) (auto simp: split_first_def)

lemma parse_token_of:
  assumes "length kid = KEY_ID_LENGTH" "CHR ''_'' \<notin> set kid" "sec \<noteq> []" "length sec \<le> 200"
  shows "is_api_key (token_of kid sec) \<and> parse_key (token_of kid sec) = Some (kid, sec)"
  using assms by (simp add: parse_key_def is_api_key_def token_of_def PREFIX_def split_first_at)

definition forget_use :: "api_key \<Rightarrow> api_key" where
  "forget_use k = k\<lparr> last_used_at := None, last_used_ip := None \<rparr>"

lemma update_key_forget: "map forget_use (update_key kid (\<lambda>k. k\<lparr> last_used_at := t, last_used_ip := ip \<rparr>) ks) = map forget_use ks"
  by (simp add: update_key_def forget_use_def)

text \<open>
  A key made by the program is parsed back into its id and secret, and a request with it is
  authenticated exactly when that id exists with the hash of that secret, the key is neither
  revoked nor expired, its service account exists, is active and is a key's account, and the
  address is one the key allows. The account authenticated is the key's, and apart from the note of
  the last use nothing in the key table changes.
\<close>

theorem api_key_accepted_exactly:
  assumes "length kid = KEY_ID_LENGTH" "CHR ''_'' \<notin> set kid" "sec \<noteq> []" "length sec \<le> 200"
  shows "((\<exists>d'. authenticate_key env now (token_of kid sec) req d = (Inr u, d')) \<longleftrightarrow>
      (\<exists>k. find (\<lambda>k. key_id k = kid) (api_keys d) = Some k \<and> secret_hash k = sha256_hex env sec \<and> key_revoked k = None
         \<and> now < key_expires k \<and> find_user (\<lambda>v. u_id v = key_user k) d = Some u \<and> is_active u \<and> auth_source u = ''apikey''
         \<and> ip_allowed env (Option.bind req r_ip) (allowed_ips k)))
    \<and> map forget_use (api_keys (snd (authenticate_key env now (token_of kid sec) req d))) = map forget_use (api_keys d)"
proof
  note parsed = conjunct2 [OF parse_token_of [OF assms]]
  show "(\<exists>d'. authenticate_key env now (token_of kid sec) req d = (Inr u, d')) \<longleftrightarrow>
      (\<exists>k. find (\<lambda>k. key_id k = kid) (api_keys d) = Some k \<and> secret_hash k = sha256_hex env sec \<and> key_revoked k = None
         \<and> now < key_expires k \<and> find_user (\<lambda>v. u_id v = key_user k) d = Some u \<and> is_active u \<and> auth_source u = ''apikey''
         \<and> ip_allowed env (Option.bind req r_ip) (allowed_ips k))"
    by (auto simp: authenticate_key_def parsed Let_def split: option.splits if_splits)
  show "map forget_use (api_keys (snd (authenticate_key env now (token_of kid sec) req d))) = map forget_use (api_keys d)"
    by (simp add: authenticate_key_def parsed Let_def update_key_forget split: option.splits)
qed

definition demo_key :: api_key where
  "demo_key = \<lparr> key_id = ''abcdefghij'', secret_hash = ''s_3'', key_user = 7, key_expires = 100, key_revoked = None,
     allowed_ips = [''10.''], last_used_at = None, last_used_ip = None \<rparr>"

definition demo_service :: user where
  "demo_service = demo_user\<lparr> u_id := 7, role := USER, auth_source := ''apikey'' \<rparr>"

theorem api_key_accepted_exactly_witness:
  "\<exists>d'. authenticate_key (demo_auth demo_claims) 50 (token_of ''abcdefghij'' ''s_3'') (Some demo_request)
     (demo_db\<lparr> api_keys := [demo_key], users := [demo_service] \<rparr>) = (Inr demo_service, d')"
proof -
  have "length ''abcdefghij'' = KEY_ID_LENGTH" "CHR ''_'' \<notin> set ''abcdefghij''" "''s_3'' \<noteq> []" "length ''s_3'' \<le> 200"
    by (simp_all add: KEY_ID_LENGTH_def)
  from api_key_accepted_exactly [OF this, of "demo_auth demo_claims" 50 "Some demo_request"
      "demo_db\<lparr> api_keys := [demo_key], users := [demo_service] \<rparr>" demo_service]
  show ?thesis
    by (simp add: demo_key_def demo_service_def demo_auth_defs find_user_def ip_allowed_def)
qed

section \<open>Password-reset codes\<close>

lemma newest_index_append:
  "(\<forall>t \<in> set ts. \<not> P t) \<Longrightarrow> newest_index P (ts @ [t]) i = (if P t then Some (i + length ts, t) else None)"
  by (induction ts arbitrary: i) auto

lemma newest_index_none: "(\<forall>t \<in> set ts. \<not> P t) \<Longrightarrow> newest_index P ts i = None"
  by (induction ts arbitrary: i) auto

text \<open>The table while the newest code of user \<open>u\<close> has had \<open>n\<close> wrong guesses.\<close>

definition guessed :: "auth_env \<Rightarrow> user \<Rightarrow> string \<Rightarrow> datetime \<Rightarrow> nat \<Rightarrow> user list \<Rightarrow> db \<Rightarrow> bool" where
  "guessed env u h expiry n us d \<longleftrightarrow> users d = us \<and> (\<exists>ts tok. reset_tokens d = ts @ [tok]
     \<and> (\<forall>t \<in> set ts. t_user t = u_id u \<longrightarrow> t_used t \<noteq> None)
     \<and> t_user tok = u_id u \<and> t_hash tok = h \<and> t_expires tok = expiry
     \<and> (int n < reset_max_attempts env \<longrightarrow> t_used tok = None \<and> t_attempts tok = int n)
     \<and> (reset_max_attempts env \<le> int n \<longrightarrow> t_used tok \<noteq> None \<or> reset_max_attempts env \<le> t_attempts tok))"

type_synonym guess = "datetime \<times> string \<times> string"

definition try_guess :: "auth_env \<Rightarrow> string \<Rightarrow> db \<Rightarrow> guess \<Rightarrow> db" where
  "try_guess env address d g = (case g of (t, otp, pw) \<Rightarrow> snd (reset_password_with_otp env t address otp pw d))"

lemma create_guessed:
  assumes "create_password_reset_otp env now address otp d = (Some (otp', u), d1)"
  shows "guessed env u (sha256_hex env otp) (now + minutes (reset_expire_minutes env)) 0 (users d) d1
    \<and> find_user (\<lambda>u. email u = address) d = Some u \<and> is_active u"
  using assms by (auto simp: create_password_reset_otp_def guessed_def split: option.splits if_splits)

lemma query_guessed:
  assumes "guessed env u h expiry n us d" "now < expiry"
  obtains ts tok where "reset_tokens d = ts @ [tok]" "t_user tok = u_id u" "t_hash tok = h"
    "\<forall>t \<in> set ts. t_user t = u_id u \<longrightarrow> t_used t \<noteq> None" "t_expires tok = expiry"
    "newest_index (\<lambda>t. t_user t = u_id u \<and> t_used t = None \<and> now < t_expires t) (reset_tokens d) 0 =
       (if t_used tok = None then Some (length ts, tok) else None)"
    "int n < reset_max_attempts env \<longrightarrow> t_used tok = None \<and> t_attempts tok = int n"
    "reset_max_attempts env \<le> int n \<longrightarrow> t_used tok \<noteq> None \<or> reset_max_attempts env \<le> t_attempts tok"
  using assms newest_index_append [where P = "\<lambda>t. t_user t = u_id u \<and> t_used t = None \<and> now < t_expires t"]
  unfolding guessed_def by (auto 0 3)

lemma wrong_guess:
  assumes "guessed env u h expiry n us d" "find (\<lambda>u. email u = address) us = Some u"
    "now < expiry" "sha256_hex env otp \<noteq> h" "is_active u"
  shows "guessed env u h expiry (Suc n) us (snd (reset_password_with_otp env now address otp pw d))"
proof -
  obtain ts tok where q: "reset_tokens d = ts @ [tok]" "t_user tok = u_id u" "t_hash tok = h"
    "\<forall>t \<in> set ts. t_user t = u_id u \<longrightarrow> t_used t \<noteq> None" "t_expires tok = expiry"
    "newest_index (\<lambda>t. t_user t = u_id u \<and> t_used t = None \<and> now < t_expires t) (reset_tokens d) 0 =
       (if t_used tok = None then Some (length ts, tok) else None)"
    "int n < reset_max_attempts env \<longrightarrow> t_used tok = None \<and> t_attempts tok = int n"
    "reset_max_attempts env \<le> int n \<longrightarrow> t_used tok \<noteq> None \<or> reset_max_attempts env \<le> t_attempts tok"
    using query_guessed [OF assms(1,3)] by blast
  have us: "users d = us" using assms(1) by (simp add: guessed_def)
  show ?thesis
    using assms(2,4,5) q us
    by (auto simp: reset_password_with_otp_def find_user_def guessed_def Let_def set_token_def)
qed


lemma wrong_guesses:
  assumes "guessed env u h expiry n us d" "find (\<lambda>u. email u = address) us = Some u" "is_active u"
    "\<forall>(t, otp, pw) \<in> set gs. t < expiry \<and> sha256_hex env otp \<noteq> h"
  shows "guessed env u h expiry (n + length gs) us (foldl (try_guess env address) d gs)"
  using assms
proof (induction gs arbitrary: n d)
  case (Cons g gs)
  obtain t otp pw where g: "g = (t, otp, pw)" by (cases g)
  have "guessed env u h expiry (Suc n) us (try_guess env address d g)"
    using wrong_guess [OF Cons.prems(1,2)] Cons.prems(3,4) by (auto simp: g try_guess_def)
  from Cons.IH [OF this Cons.prems(2,3)] Cons.prems(4) show ?case by simp
qed simp

lemma find_map_keeps: "(\<And>x. P (f x) = P x) \<Longrightarrow> find P (map f xs) = map_option f (find P xs)"
  by (induction xs) auto

lemma right_guess:
  assumes "guessed env u h expiry n us d" "find (\<lambda>u. email u = address) us = Some u" "is_active u"
    "now < expiry" "sha256_hex env otp = h" "utf8_length pw \<le> 72"
  shows "(if int n < reset_max_attempts env
     then \<exists>d'. reset_password_with_otp env now address otp pw d = (Inr (Some (u\<lparr> hashed_password := bcrypt_hash env pw \<rparr>)), d')
        \<and> (\<forall>t otp' pw'. reset_password_with_otp env t address otp' pw' d' = (Inr None, d'))
     else fst (reset_password_with_otp env now address otp pw d) = Inr None)"
proof -
  obtain ts tok where q: "reset_tokens d = ts @ [tok]" "t_user tok = u_id u" "t_hash tok = h"
    "\<forall>t \<in> set ts. t_user t = u_id u \<longrightarrow> t_used t \<noteq> None" "t_expires tok = expiry"
    "newest_index (\<lambda>t. t_user t = u_id u \<and> t_used t = None \<and> now < t_expires t) (reset_tokens d) 0 =
       (if t_used tok = None then Some (length ts, tok) else None)"
    "int n < reset_max_attempts env \<longrightarrow> t_used tok = None \<and> t_attempts tok = int n"
    "reset_max_attempts env \<le> int n \<longrightarrow> t_used tok \<noteq> None \<or> reset_max_attempts env \<le> t_attempts tok"
    using query_guessed [OF assms(1,4)] by blast
  have us: "users d = us" using assms(1) by (simp add: guessed_def)
  let ?u = "u\<lparr> hashed_password := bcrypt_hash env pw \<rparr>"
  let ?f = "\<lambda>v. if u_id v = u_id u then v\<lparr> hashed_password := bcrypt_hash env pw \<rparr> else v"
  show ?thesis
  proof (cases "int n < reset_max_attempts env")
    case False
    with q us assms show ?thesis by (auto simp: reset_password_with_otp_def find_user_def)
  next
    case True
    let ?d' = "(set_token (length ts) (tok\<lparr> t_used := Some now \<rparr>) d)\<lparr> users := map ?f (users d) \<rparr>"
    have "reset_password_with_otp env now address otp pw d = (Inr (Some ?u), ?d')"
      using True q us assms
      by (simp add: reset_password_with_otp_def find_user_def get_password_hash_def set_token_def)
    moreover have "reset_password_with_otp env t address otp' pw' ?d' = (Inr None, ?d')" for t otp' pw'
    proof -
      have "find (\<lambda>u. email u = address) (users ?d') = Some ?u"
        using assms(2) us by (simp add: find_map_keeps)
      moreover have "newest_index (\<lambda>r. t_user r = u_id u \<and> t_used r = None \<and> t < t_expires r) (reset_tokens ?d') 0 = None"
        using q by (intro newest_index_none) (auto simp: set_token_def)
      ultimately show ?thesis using assms(3) by (simp add: reset_password_with_otp_def find_user_def)
    qed
    ultimately show ?thesis using True by auto
  qed
qed

text \<open>
  A reset code works exactly while fewer wrong codes than the limit were tried, and once:
  after the code was e-mailed and any sequence of wrong guesses for that address before its
  expiry, the right code sets the new password if and only if the guesses are fewer than the
  limit; and after it did, no code whatever is accepted for that address until a new one is asked
  for.
\<close>

theorem reset_code_guesses:
  assumes "create_password_reset_otp env now address otp d = (Some (otp, u), d1)"
    "\<forall>(t, guess, pw) \<in> set gs. t < now + minutes (reset_expire_minutes env) \<and> sha256_hex env guess \<noteq> sha256_hex env otp"
    "t < now + minutes (reset_expire_minutes env)" "utf8_length pw \<le> 72"
    "d2 = foldl (try_guess env address) d1 gs"
  shows "if int (length gs) < reset_max_attempts env
     then \<exists>d3. reset_password_with_otp env t address otp pw d2 = (Inr (Some (u\<lparr> hashed_password := bcrypt_hash env pw \<rparr>)), d3)
        \<and> (\<forall>t' otp' pw'. reset_password_with_otp env t' address otp' pw' d3 = (Inr None, d3))
     else fst (reset_password_with_otp env t address otp pw d2) = Inr None"
proof -
  have c: "guessed env u (sha256_hex env otp) (now + minutes (reset_expire_minutes env)) 0 (users d) d1"
    "find (\<lambda>u. email u = address) (users d) = Some u" "is_active u"
    using create_guessed [OF assms(1)] by (auto simp: find_user_def)
  show ?thesis
    using right_guess [OF wrong_guesses [OF c assms(2)] c(2,3) assms(3) refl assms(4)] assms(5) by simp
qed

theorem reset_code_guesses_witness:
  "\<exists>d3. reset_password_with_otp (demo_auth demo_claims) 1 ''alice@example.org'' ''123456'' ''new''
     (foldl (try_guess (demo_auth demo_claims) ''alice@example.org'')
       (snd (create_password_reset_otp (demo_auth demo_claims) 0 ''alice@example.org'' ''123456'' demo_db))
       [(0, ''000000'', ''x'')]) = (Inr (Some (demo_user\<lparr> hashed_password := ''new'' \<rparr>)), d3)"
proof -
  let ?env = "demo_auth demo_claims"
  let ?d1 = "snd (create_password_reset_otp ?env 0 ''alice@example.org'' ''123456'' demo_db)"
  have "create_password_reset_otp ?env 0 ''alice@example.org'' ''123456'' demo_db = (Some (''123456'', demo_user), ?d1)"
    by (simp add: create_password_reset_otp_def find_user_def demo_auth_defs)
  from reset_code_guesses [OF this, of "[(0, ''000000'', ''x'')]" 1 "''new''"]
  show ?thesis by (auto simp: demo_auth_def timedelta_defs utf8_length_def is_ascii_def)
qed

section \<open>Ownership\<close>

lemma find_unique: "distinct (map key xs) \<Longrightarrow> find (\<lambda>x. key x = k) xs = Some x \<longleftrightarrow> x \<in> set xs \<and> key x = k"
  by (induction xs) (auto simp: rev_image_eqI)

text \<open>
  What a user can open is what the listings show them, and nothing about other users' audits
  can be told from the answers: opening a session by its number succeeds exactly for the
  sessions in the user's listing, and every answer is the same as if the other users' sessions
  did not exist.
\<close>

theorem listing_matches_access:
  assumes "distinct (map as_id table)"
  shows "(require_own_session table (Some i) u = Inr (Some s) \<longleftrightarrow>
      s \<in> set (owned_sessions table (owner_scope u)) \<and> as_id s = i)
    \<and> require_own_session table sid u = require_own_session (owned_sessions table (owner_scope u)) sid u"
proof -
  let ?own = "owned_sessions table (owner_scope u)"
  have own: "x \<in> set ?own \<longleftrightarrow> x \<in> set table \<and> (role u = ADMIN \<or> as_user x = Some (u_id u))" for x
    by (cases "role u") (auto simp: owned_sessions_def owner_scope_def)
  have dist: "distinct (map as_id ?own)"
    using assms by (auto simp: owned_sessions_def distinct_map_filter split: option.splits)
  have open_iff: "require_own_session tab (Some j) u = Inr (Some x) \<longleftrightarrow>
      x \<in> set tab \<and> as_id x = j \<and> (role u = ADMIN \<or> as_user x = Some (u_id u))" if "distinct (map as_id tab)" for tab j x
    using find_unique [OF that, of j x]
    by (cases "find (\<lambda>s. as_id s = j) tab"; cases "role u") (auto simp: require_own_session_def assert_session_access_def)
  have err: "(\<exists>x. require_own_session tab (Some j) u = Inr (Some x)) \<or> require_own_session tab (Some j) u = Inl Session_not_found" for tab j
    by (auto simp: require_own_session_def assert_session_access_def split: option.splits)
  have "require_own_session table (Some j) u = require_own_session ?own (Some j) u" for j
    using err [of table j] err [of ?own j] open_iff [OF assms] open_iff [OF dist] own by metis
  then have "require_own_session table sid u = require_own_session ?own sid u"
    by (cases sid) (simp_all add: require_own_session_def)
  then show ?thesis using open_iff [OF assms] own by auto
qed

theorem listing_matches_access_witness:
  "require_own_session [\<lparr> as_id = 1, as_user = Some 1 \<rparr>, \<lparr> as_id = 2, as_user = Some 9 \<rparr>] (Some 2) demo_user =
   require_own_session [\<lparr> as_id = 1, as_user = Some 1 \<rparr>] (Some 2) demo_user"
proof -
  have "distinct (map as_id [\<lparr> as_id = 1, as_user = Some 1 \<rparr>, \<lparr> as_id = 2, as_user = Some 9 \<rparr>])" by simp
  from listing_matches_access [OF this, of 0 demo_user undefined "Some 2"]
  show ?thesis by (simp add: owned_sessions_def owner_scope_def demo_user_def)
qed

end
