(* ===== verification/User_Admin.thy ===== *)
theory User_Admin
  imports Sign_In
begin

text \<open>
  User administration (\<^verbatim>\<open>app/modules/users/service.py\<close>) over the tables of \<^verbatim>\<open>Sign_In\<close>: creating,
  changing and deleting accounts, temporary passwords, permissions
  (\<^verbatim>\<open>app/models/user_permission.py\<close>), and the delegation guards that keep someone with the
  right to manage users from reaching rights they do not hold.

  An operation that raises leaves the database as it was: nothing is committed.
\<close>

section \<open>Modules and permissions\<close>

definition all_modules :: "string list" where
  "all_modules = [''dashboard'', ''asset_requirement'', ''asset_list'', ''asset_auto_discovery'', ''user_management'',
     ''auditing'', ''hardening'', ''risk'', ''system_config'', ''logs'', ''backup'', ''cve'', ''topology'',
     ''architecture_validation'', ''design_configuration'', ''deployment'', ''drift'', ''noc'', ''remediation'',
     ''reports'', ''credential_profiles'']"

record grant =
  g_module :: string
  g_read :: bool
  g_write :: bool
  g_delete :: bool

definition get_default_permissions :: "grant list" where
  "get_default_permissions = map (\<lambda>m. \<lparr> g_module = m, g_read = (m \<in> {''dashboard'', ''asset_list''}),
     g_write = False, g_delete = False \<rparr>) all_modules"

datatype user_error = User_not_found | Role_out_of_reach | Cannot_grant string string | Username_exists | Email_exists
  | Invalid_role | Invalid_module | Integrity_error | Contact_of_stronger_user | Directory_account
  | Current_password_required | Current_password_wrong | Only_admins_change_roles | Own_role | Deactivate_self
  | Last_admin | Delete_self | Only_admins | Own_password | Signs_in_through_directory | Too_long

definition get_user_permissions :: "int \<Rightarrow> db \<Rightarrow> permission_row list" where
  "get_user_permissions uid d = filter (\<lambda>p. p_user p = uid) (permissions d)"

definition get_user_by_id :: "int \<Rightarrow> db \<Rightarrow> (user_error, user) result" where
  "get_user_by_id uid d = (case find_user (\<lambda>u. u_id u = uid) d of
     None \<Rightarrow> Inl User_not_found
   | Some u \<Rightarrow> if auth_source u = ''apikey'' then Inl User_not_found else Inr u)"

definition get_all_users :: "db \<Rightarrow> user list" where
  "get_all_users d = filter (\<lambda>u. auth_source u \<noteq> ''apikey'') (users d)"

definition check_permission :: "int \<Rightarrow> string \<Rightarrow> string \<Rightarrow> db \<Rightarrow> bool" where
  "check_permission uid mname action d =
     (case find_user (\<lambda>u. u_id u = uid) d of
        None \<Rightarrow> False
      | Some u \<Rightarrow>
        if role u = ADMIN then True
        else if mname \<notin> set all_modules then False
        else (case find (\<lambda>p. p_user p = uid \<and> p_module p = mname) (permissions d) of
            None \<Rightarrow> False
          | Some p \<Rightarrow> if action = ''read'' then can_read p else if action = ''write'' then can_write p
              else if action = ''delete'' then can_delete p else False))"

section \<open>Delegation guards\<close>

fun role_rank :: "UserRole \<Rightarrow> nat" where
  "role_rank GUEST = 0"
| "role_rank USER = 1"
| "role_rank MANAGER = 2"
| "role_rank ADMIN = 3"

definition assert_role_within_reach :: "user option \<Rightarrow> UserRole \<Rightarrow> (user_error, unit) result" where
  "assert_role_within_reach actor r =
     (case actor of
        None \<Rightarrow> Inr ()
      | Some a \<Rightarrow> if role a = ADMIN then Inr ()
          else if r = ADMIN \<or> role_rank r > role_rank (role a) then Inl Role_out_of_reach else Inr ())"

text \<open>The first flag of a grant that the row \<open>mine\<close> does not have.\<close>

definition missing_flag :: "grant \<Rightarrow> permission_row option \<Rightarrow> string option" where
  "missing_flag g mine =
     (if g_read g \<and> \<not> (\<exists>m. mine = Some m \<and> can_read m) then Some ''read''
      else if g_write g \<and> \<not> (\<exists>m. mine = Some m \<and> can_write m) then Some ''write''
      else if g_delete g \<and> \<not> (\<exists>m. mine = Some m \<and> can_delete m) then Some ''delete''
      else None)"

fun check_grants :: "(string \<Rightarrow> permission_row option) \<Rightarrow> grant list \<Rightarrow> (user_error, unit) result" where
  "check_grants held [] = Inr ()"
| "check_grants held (g # gs) = (case missing_flag g (held (g_module g)) of
     Some flag \<Rightarrow> Inl (Cannot_grant flag (g_module g)) | None \<Rightarrow> check_grants held gs)"

definition held_by :: "int \<Rightarrow> db \<Rightarrow> string \<Rightarrow> permission_row option" where
  "held_by uid d = map_of (rev (map (\<lambda>p. (p_module p, p)) (get_user_permissions uid d)))"

definition assert_can_grant :: "user option \<Rightarrow> grant list option \<Rightarrow> db \<Rightarrow> (user_error, unit) result" where
  "assert_can_grant actor grants d =
     (case (actor, grants) of
        (Some a, Some gs) \<Rightarrow> if role a = ADMIN \<or> gs = [] then Inr () else check_grants (held_by (u_id a) d) gs
      | _ \<Rightarrow> Inr ())"

section \<open>Writing permissions\<close>

definition row_of :: "int \<Rightarrow> grant \<Rightarrow> permission_row" where
  "row_of uid g = \<lparr> p_user = uid, p_module = g_module g, can_read = g_read g, can_write = g_write g, can_delete = g_delete g \<rparr>"

definition unique_permissions :: "permission_row list \<Rightarrow> bool" where
  "unique_permissions ps = distinct (map (\<lambda>p. (p_user p, p_module p)) ps)"

definition add_rows :: "int \<Rightarrow> grant list \<Rightarrow> permission_row list \<Rightarrow> (user_error, permission_row list) result" where
  "add_rows uid gs ps =
     (if list_ex (\<lambda>g. g_module g \<notin> set all_modules) gs then Inl Invalid_module
      else if \<not> unique_permissions (ps @ map (row_of uid) gs) then Inl Integrity_error
      else Inr (ps @ map (row_of uid) gs))"

definition create_user_permissions :: "int \<Rightarrow> grant list option \<Rightarrow> permission_row list \<Rightarrow> (user_error, permission_row list) result" where
  "create_user_permissions uid grants ps =
     add_rows uid (case grants of None \<Rightarrow> get_default_permissions | Some gs \<Rightarrow> gs) ps"

definition update_user_permissions :: "int \<Rightarrow> grant list \<Rightarrow> permission_row list \<Rightarrow> (user_error, permission_row list) result" where
  "update_user_permissions uid gs ps = add_rows uid gs (filter (\<lambda>p. p_user p \<noteq> uid) ps)"

section \<open>Creating an account\<close>

record user_create =
  uc_username :: string
  uc_email :: string
  uc_phone :: "string option"
  uc_password :: string
  uc_role :: string
  uc_active :: bool
  uc_permissions :: "grant list option"

definition parse_role :: "string \<Rightarrow> UserRole option" where
  "parse_role s = find (\<lambda>r. role_value r = s) [ADMIN, USER, MANAGER, GUEST]"

definition hash_password :: "auth_env \<Rightarrow> string \<Rightarrow> (user_error, string) result" where
  "hash_password env p = (case get_password_hash env p of Inl _ \<Rightarrow> Inl Too_long | Inr h \<Rightarrow> Inr h)"

text \<open>\<open>new_id\<close> is the id the database assigns.\<close>

definition create_user :: "auth_env \<Rightarrow> int \<Rightarrow> user_create \<Rightarrow> user option \<Rightarrow> db \<Rightarrow> (user_error, user \<times> db) result" where
  "create_user env new_id data actor d =
     (if find_user (\<lambda>u. username u = uc_username data) d \<noteq> None then Inl Username_exists
      else if find_user (\<lambda>u. email u = uc_email data) d \<noteq> None then Inl Email_exists
      else (case parse_role (uc_role data) of
        None \<Rightarrow> Inl Invalid_role
      | Some r \<Rightarrow>
        res_bind (assert_role_within_reach actor r) (\<lambda>_.
        res_bind (if r \<noteq> ADMIN then assert_can_grant actor (uc_permissions data) d else Inr ()) (\<lambda>_.
        res_bind (hash_password env (uc_password data)) (\<lambda>h.
        let u = \<lparr> u_id = new_id, username = uc_username data, email = uc_email data, hashed_password = h,
                  is_active = uc_active data, must_change_password = True, role = r, auth_source = ''local'',
                  phone = uc_phone data, language = None, disabled_by_directory = False \<rparr>
        in res_bind (if r \<noteq> ADMIN then create_user_permissions new_id (uc_permissions data) (permissions d)
                     else Inr (permissions d)) (\<lambda>ps.
           Inr (u, d\<lparr> users := users d @ [u], permissions := ps \<rparr>)))))))"

section \<open>Changing an account\<close>

record user_update =
  uu_username :: "string option"
  uu_email :: "string option"
  uu_phone :: "string option"
  uu_language :: "string option"
  uu_password :: "string option"
  uu_current_password :: "string option"
  uu_role :: "string option"
  uu_active :: "bool option"
  uu_permissions :: "grant list option"

definition some_nonempty :: "string \<Rightarrow> string option" where
  "some_nonempty s = (if s = [] then None else Some s)"

definition grants_of :: "int \<Rightarrow> db \<Rightarrow> grant list" where
  "grants_of uid d = map (\<lambda>p. \<lparr> g_module = p_module p, g_read = can_read p, g_write = can_write p, g_delete = can_delete p \<rparr>)
     (get_user_permissions uid d)"

definition contact_change :: "user_update \<Rightarrow> user \<Rightarrow> bool" where
  "contact_change data u \<longleftrightarrow> (\<exists>e. uu_email data = Some e \<and> e \<noteq> email u)
     \<or> (\<exists>p. uu_phone data = Some p \<and> some_nonempty p \<noteq> phone u)"

text \<open>Everything that is checked before the first change. \<open>me\<close> is the caller's id, \<open>cur\<close> its row.\<close>

definition update_guards :: "user_update \<Rightarrow> user \<Rightarrow> int option \<Rightarrow> user option \<Rightarrow> db \<Rightarrow> (user_error, unit) result" where
  "update_guards data u me cur d =
     res_bind (if me \<noteq> Some (u_id u) then assert_role_within_reach cur (role u) else Inr ()) (\<lambda>_.
     res_bind (assert_can_grant cur (uu_permissions data) d) (\<lambda>_.
     res_bind (if me \<noteq> Some (u_id u) \<and> contact_change data u
               then (case assert_can_grant cur (Some (grants_of (u_id u) d)) d of
                       Inl _ \<Rightarrow> Inl Contact_of_stronger_user | Inr x \<Rightarrow> Inr x)
               else Inr ()) (\<lambda>_.
     if auth_source u \<noteq> ''local'' \<and>
        ((\<exists>n. uu_username data = Some n \<and> n \<noteq> username u) \<or> uu_password data \<noteq> None
         \<or> (\<exists>r. uu_role data = Some r \<and> r \<noteq> role_value (role u)) \<or> uu_permissions data \<noteq> None)
     then Inl Directory_account else Inr ())))"

definition set_username :: "user_update \<Rightarrow> db \<Rightarrow> user \<Rightarrow> (user_error, user) result" where
  "set_username data d u = (case uu_username data of
     None \<Rightarrow> Inr u
   | Some n \<Rightarrow> if find_user (\<lambda>v. username v = n \<and> u_id v \<noteq> u_id u) d \<noteq> None then Inl Username_exists
       else Inr (u\<lparr> username := n \<rparr>))"

definition set_email :: "user_update \<Rightarrow> db \<Rightarrow> user \<Rightarrow> (user_error, user) result" where
  "set_email data d u = (case uu_email data of
     None \<Rightarrow> Inr u
   | Some e \<Rightarrow> if find_user (\<lambda>v. email v = e \<and> u_id v \<noteq> u_id u) d \<noteq> None then Inl Email_exists
       else Inr (u\<lparr> email := e \<rparr>))"

definition set_contact :: "user_update \<Rightarrow> user \<Rightarrow> user" where
  "set_contact data u =
     (let u = (case uu_phone data of None \<Rightarrow> u | Some p \<Rightarrow> u\<lparr> phone := some_nonempty p \<rparr>)
      in case uu_language data of None \<Rightarrow> u | Some l \<Rightarrow> u\<lparr> language := some_nonempty l \<rparr>)"

definition set_password :: "auth_env \<Rightarrow> user_update \<Rightarrow> user \<Rightarrow> (user_error, user) result" where
  "set_password env data u = (case uu_password data of
     None \<Rightarrow> Inr u
   | Some p \<Rightarrow>
     (case uu_current_password data of
        None \<Rightarrow> Inl Current_password_required
      | Some c \<Rightarrow>
        if c = [] then Inl Current_password_required
        else if \<not> bcrypt_verify env c (hashed_password u) then Inl Current_password_wrong
        else res_bind (hash_password env p) (\<lambda>h. Inr (u\<lparr> hashed_password := h \<rparr>))))"

definition set_role :: "user_update \<Rightarrow> int option \<Rightarrow> user option \<Rightarrow> user \<Rightarrow> permission_row list \<Rightarrow>
    (user_error, user \<times> permission_row list) result" where
  "set_role data me cur u ps = (case uu_role data of
     None \<Rightarrow> Inr (u, ps)
   | Some value \<Rightarrow>
     if \<exists>a. cur = Some a \<and> role a \<noteq> ADMIN then Inl Only_admins_change_roles
     else if me = Some (u_id u) then Inl Own_role
     else (case parse_role value of
       None \<Rightarrow> Inl Invalid_role
     | Some r \<Rightarrow>
       res_bind (if role u = r then Inr ps
                 else if r = ADMIN then Inr (filter (\<lambda>p. p_user p \<noteq> u_id u) ps)
                 else if role u = ADMIN then create_user_permissions (u_id u) None ps
                 else Inr ps) (\<lambda>ps. Inr (u\<lparr> role := r \<rparr>, ps))))"

definition put_user :: "user \<Rightarrow> user list \<Rightarrow> user list" where
  "put_user u us = map (\<lambda>v. if u_id v = u_id u then u else v) us"

definition active_admin_count :: "user list \<Rightarrow> nat" where
  "active_admin_count us = length (filter (\<lambda>u. role u = ADMIN \<and> is_active u) us)"

definition set_active :: "user_update \<Rightarrow> int option \<Rightarrow> db \<Rightarrow> user \<Rightarrow> (user_error, user) result" where
  "set_active data me d u = (case uu_active data of
     None \<Rightarrow> Inr u
   | Some b \<Rightarrow>
     if \<not> b \<and> is_active u \<and> me = Some (u_id u) then Inl Deactivate_self
     else if \<not> b \<and> is_active u \<and> role u = ADMIN \<and> active_admin_count (put_user u (users d)) \<le> 1 then Inl Last_admin
     else Inr (u\<lparr> is_active := b \<rparr>))"

definition current_user_of :: "int option \<Rightarrow> db \<Rightarrow> user option" where
  "current_user_of me d = (case me of None \<Rightarrow> None | Some i \<Rightarrow> if i = 0 then None else find_user (\<lambda>u. u_id u = i) d)"

definition update_user :: "auth_env \<Rightarrow> int \<Rightarrow> user_update \<Rightarrow> int option \<Rightarrow> db \<Rightarrow> (user_error, user \<times> db) result" where
  "update_user env uid data me d =
     res_bind (get_user_by_id uid d) (\<lambda>u.
     let cur = current_user_of me d in
     res_bind (update_guards data u me cur d) (\<lambda>_.
     let u = (if uu_active data = Some True then u\<lparr> disabled_by_directory := False \<rparr> else u) in
     res_bind (set_username data d u) (\<lambda>u.
     res_bind (set_email data d u) (\<lambda>u.
     res_bind (set_password env data (set_contact data u)) (\<lambda>u.
     res_bind (set_role data me cur u (permissions d)) (\<lambda>(u, ps).
     res_bind (set_active data me d u) (\<lambda>u.
     res_bind (case uu_permissions data of
         None \<Rightarrow> Inr ps
       | Some gs \<Rightarrow> if role u \<noteq> ADMIN then update_user_permissions uid gs ps else Inr ps) (\<lambda>ps.
     Inr (u, d\<lparr> users := put_user u (users d), permissions := ps \<rparr>)))))))))"

section \<open>Temporary passwords and deletion\<close>

definition reset_password :: "auth_env \<Rightarrow> int \<Rightarrow> string \<Rightarrow> user option \<Rightarrow> db \<Rightarrow> (user_error, user \<times> db) result" where
  "reset_password env uid new actor d =
     (case actor of
        None \<Rightarrow> Inl Only_admins
      | Some a \<Rightarrow>
        if role a \<noteq> ADMIN then Inl Only_admins
        else if u_id a = uid then Inl Own_password
        else res_bind (get_user_by_id uid d) (\<lambda>u.
          if auth_source u \<noteq> ''local'' then Inl Signs_in_through_directory
          else res_bind (hash_password env new) (\<lambda>h.
            let u = u\<lparr> hashed_password := h, must_change_password := True \<rparr>
            in Inr (u, d\<lparr> users := put_user u (users d) \<rparr>))))"

text \<open>Deleting an account also deletes the rows that refer to it: permissions and the two-step row.\<close>

definition delete_user :: "int \<Rightarrow> int option \<Rightarrow> db \<Rightarrow> (user_error, db) result" where
  "delete_user uid me d =
     res_bind (get_user_by_id uid d) (\<lambda>u.
     if me = Some uid \<and> uid \<noteq> 0 then Inl Delete_self
     else res_bind (assert_role_within_reach (current_user_of me d) (role u)) (\<lambda>_.
       if role u = ADMIN \<and> active_admin_count (users d) \<le> 1 then Inl Last_admin
       else Inr (d\<lparr> users := filter (\<lambda>v. u_id v \<noteq> uid) (users d),
              permissions := filter (\<lambda>p. p_user p \<noteq> uid) (permissions d),
              mfa_rows := (mfa_rows d)(uid := None) \<rparr>)))"


section \<open>What a user may do\<close>

text \<open>The rights the routes grant a user (\<^verbatim>\<open>require_permission\<close>).\<close>

definition rights :: "db \<Rightarrow> user \<Rightarrow> (string \<times> string) set" where
  "rights d u = {(m, k). require_permission m k u d = Inr u}"

definition flag :: "string \<Rightarrow> permission_row \<Rightarrow> bool" where
  "flag k p = (k = ''read'' \<and> can_read p \<or> k = ''write'' \<and> can_write p \<or> k = ''delete'' \<and> can_delete p)"

definition default_rights :: "(string \<times> string) set" where
  "default_rights = {(''dashboard'', ''read''), (''asset_list'', ''read'')}"

lemma role_value_admin [simp]: "role_value r = ''admin'' \<longleftrightarrow> r = ADMIN"
  by (cases r) auto

lemma find_row:
  assumes "unique_permissions ps"
  shows "find (\<lambda>p. p_user p = i \<and> p_module p = m) ps = Some p \<longleftrightarrow> p \<in> set ps \<and> p_user p = i \<and> p_module p = m"
  using assms by (induction ps) (auto simp: unique_permissions_def rev_image_eqI)

lemma rights_iff:
  assumes "unique_permissions (permissions d)"
  shows "(m, k) \<in> rights d u \<longleftrightarrow> role u = ADMIN \<or>
    (\<exists>p \<in> set (permissions d). p_user p = u_id u \<and> p_module p = m \<and> flag k p)"
proof -
  have "(m, k) \<in> rights d u \<longleftrightarrow> role u = ADMIN \<or>
      (\<exists>p. find (\<lambda>p. p_user p = u_id u \<and> p_module p = m) (permissions d) = Some p \<and> flag k p)"
    by (cases "find (\<lambda>p. p_user p = u_id u \<and> p_module p = m) (permissions d)")
      (simp_all add: rights_def require_permission_def flag_def)
  then show ?thesis using find_row [OF assms] by blast
qed

lemma check_grants_Inr: "check_grants held gs = Inr () \<longleftrightarrow> (\<forall>g \<in> set gs. missing_flag g (held (g_module g)) = None)"
  by (induction gs) (auto split: option.splits)

lemma held_by_row: "held_by i d m = Some p \<Longrightarrow> p \<in> set (permissions d) \<and> p_user p = i \<and> p_module p = m"
  by (auto simp: held_by_def get_user_permissions_def dest!: map_of_SomeD)

text \<open>A grant the guard lets through gives nothing the actor does not hold.\<close>

lemma granted_rights:
  assumes "unique_permissions (permissions d)" "assert_can_grant (Some a) (Some gs) d = Inr ()" "role a \<noteq> ADMIN"
    "g \<in> set gs" "flag k (row_of i g)"
  shows "(g_module g, k) \<in> rights d a"
proof -
  have "missing_flag g (held_by (u_id a) d (g_module g)) = None"
    using assms(2-4) by (auto simp: assert_can_grant_def check_grants_Inr split: if_splits)
  then obtain p where "held_by (u_id a) d (g_module g) = Some p" "flag k p"
    using assms(5) by (auto simp: missing_flag_def flag_def row_of_def split: if_splits)
  then show ?thesis using held_by_row rights_iff [OF assms(1)] by blast
qed

lemma add_rows_Inr: "add_rows i gs ps = Inr qs \<Longrightarrow> qs = ps @ map (row_of i) gs \<and> unique_permissions qs"
  by (auto simp: add_rows_def split: if_splits)

lemma default_flag: "g \<in> set get_default_permissions \<Longrightarrow> flag k (row_of i g) \<Longrightarrow> (g_module g, k) \<in> default_rights"
  by (auto simp: get_default_permissions_def flag_def row_of_def default_rights_def)

lemma reach_not_admin: "assert_role_within_reach (Some a) r = Inr () \<Longrightarrow> role a \<noteq> ADMIN \<Longrightarrow>
  r \<noteq> ADMIN \<and> role_rank r \<le> role_rank (role a)"
  by (auto simp: assert_role_within_reach_def split: if_splits)

section \<open>The operations by case\<close>

lemma create_user_Inr:
  assumes "create_user env new_id data actor d = Inr (u, d')"
  obtains r ps where "parse_role (uc_role data) = Some r" "assert_role_within_reach actor r = Inr ()"
    "r \<noteq> ADMIN \<Longrightarrow> assert_can_grant actor (uc_permissions data) d = Inr ()"
    "role u = r" "u_id u = new_id" "must_change_password u"
    "if r \<noteq> ADMIN then create_user_permissions new_id (uc_permissions data) (permissions d) = Inr ps else ps = permissions d"
    "d' = d\<lparr> users := users d @ [u], permissions := ps \<rparr>"
proof -
  obtain r where r: "parse_role (uc_role data) = Some r"
    using assms by (cases "parse_role (uc_role data)") (simp_all add: create_user_def split: if_splits)
  obtain x where reach: "assert_role_within_reach actor r = Inr x"
    using assms r by (cases "assert_role_within_reach actor r") (simp_all add: create_user_def split: if_splits)
  obtain y where grant: "(if r \<noteq> ADMIN then assert_can_grant actor (uc_permissions data) d else Inr ()) = Inr y"
    using assms r reach by (cases "if r \<noteq> ADMIN then assert_can_grant actor (uc_permissions data) d else Inr ()")
      (simp_all add: create_user_def split: if_splits)
  obtain h where h: "hash_password env (uc_password data) = Inr h"
    using assms r reach grant by (cases "hash_password env (uc_password data)") (simp_all add: create_user_def split: if_splits)
  obtain ps where ps: "(if r \<noteq> ADMIN then create_user_permissions new_id (uc_permissions data) (permissions d)
      else Inr (permissions d)) = Inr ps"
    using assms r reach grant h
    by (cases "if r \<noteq> ADMIN then create_user_permissions new_id (uc_permissions data) (permissions d) else Inr (permissions d)")
      (simp_all add: create_user_def Let_def split: if_splits)
  have "u = \<lparr> u_id = new_id, username = uc_username data, email = uc_email data, hashed_password = h,
        is_active = uc_active data, must_change_password = True, role = r, auth_source = ''local'',
        phone = uc_phone data, language = None, disabled_by_directory = False \<rparr>"
    "d' = d\<lparr> users := users d @ [u], permissions := ps \<rparr>"
    using assms r reach grant h ps by (auto simp: create_user_def Let_def split: if_splits)
  then show thesis using that [of r ps] r reach grant ps by (simp split: if_splits)
qed

text \<open>What one request changes in the row of its target.\<close>

lemma set_username_Inr: "set_username data d u = Inr v \<Longrightarrow> \<exists>n. v = u\<lparr> username := n \<rparr>"
  by (auto simp: set_username_def split: option.splits if_splits intro: exI [of _ "username u"])

lemma set_email_Inr: "set_email data d u = Inr v \<Longrightarrow> v = u\<lparr> email := (case uu_email data of None \<Rightarrow> email u | Some e \<Rightarrow> e) \<rparr>"
  by (auto simp: set_email_def split: option.splits if_splits)

lemma set_contact_eq: "set_contact data u = u\<lparr> phone := (case uu_phone data of None \<Rightarrow> phone u | Some p \<Rightarrow> some_nonempty p),
    language := (case uu_language data of None \<Rightarrow> language u | Some l \<Rightarrow> some_nonempty l) \<rparr>"
  by (simp add: set_contact_def split: option.splits)

lemma set_password_Inr:
  assumes "set_password env data u = Inr v"
  shows "(v = u \<or> (\<exists>h c. v = u\<lparr> hashed_password := h \<rparr> \<and> uu_current_password data = Some c \<and> bcrypt_verify env c (hashed_password u)))"
  using assms by (auto simp: set_password_def res_simps split: option.splits if_splits)

lemma set_active_Inr:
  assumes "set_active data me d u = Inr v"
  shows "\<exists>b. v = u\<lparr> is_active := b \<rparr> \<and> (me = Some (u_id u) \<longrightarrow> is_active u \<longrightarrow> b)"
proof (cases "uu_active data")
  case None
  with assms show ?thesis by (intro exI [of _ "is_active u"]) (simp add: set_active_def)
next
  case (Some b)
  with assms show ?thesis by (auto simp: set_active_def split: if_splits)
qed


lemma set_role_Inr:
  assumes "set_role data me cur u ps = Inr (v, qs)"
  shows "v = u \<and> qs = ps \<and> uu_role data = None \<or>
    (\<exists>r. v = u\<lparr> role := r \<rparr> \<and> me \<noteq> Some (u_id u) \<and> (\<forall>a. cur = Some a \<longrightarrow> role a = ADMIN) \<and>
      (unique_permissions ps \<longrightarrow> unique_permissions qs))"
proof (cases "uu_role data")
  case None
  with assms show ?thesis by (simp add: set_role_def)
next
  case (Some rv)
  then obtain r where "parse_role rv = Some r" and g: "me \<noteq> Some (u_id u)" "\<forall>a. cur = Some a \<longrightarrow> role a = ADMIN"
    using assms by (auto simp: set_role_def split: if_splits option.splits)
  then have "v = u\<lparr> role := r \<rparr>" and ps: "qs = ps \<or> qs = filter (\<lambda>p. p_user p \<noteq> u_id u) ps \<or>
      create_user_permissions (u_id u) None ps = Inr qs"
    using assms Some by (auto simp: set_role_def res_simps split: if_splits)
  moreover have "unique_permissions ps \<longrightarrow> unique_permissions qs"
    using ps by (auto simp: create_user_permissions_def unique_permissions_def distinct_map_filter
        dest!: add_rows_Inr)
  ultimately show ?thesis using g by blast
qed

lemma get_user_by_id_Inr: "get_user_by_id i d = Inr u \<Longrightarrow> find_user (\<lambda>v. u_id v = i) d = Some u \<and> u \<in> set (users d) \<and> u_id u = i"
  by (auto simp: get_user_by_id_def find_user_def find_Some_iff split: option.splits if_splits)

text \<open>A change of an account: the guards held, and what may differ in the target's row.\<close>

lemma update_user_Inr:
  assumes "update_user env i data me d = Inr (w, d')"
  obtains u ps qs where "get_user_by_id i d = Inr u" "update_guards data u me (current_user_of me d) d = Inr ()"
    "u_id w = i" "email w = (case uu_email data of None \<Rightarrow> email u | Some e \<Rightarrow> e)"
    "phone w = (case uu_phone data of None \<Rightarrow> phone u | Some p \<Rightarrow> some_nonempty p)"
    "hashed_password w = hashed_password u \<or>
       (\<exists>c. uu_current_password data = Some c \<and> bcrypt_verify env c (hashed_password u))"
    "role w = role u \<and> ps = permissions d \<or> me \<noteq> Some i \<and> (\<forall>a. current_user_of me d = Some a \<longrightarrow> role a = ADMIN)"
    "unique_permissions (permissions d) \<longrightarrow> unique_permissions ps"
    "me = Some i \<longrightarrow> is_active u \<longrightarrow> is_active w"
    "(case uu_permissions data of None \<Rightarrow> Inr ps
       | Some gs \<Rightarrow> if role w \<noteq> ADMIN then update_user_permissions i gs ps else Inr ps) = Inr qs"
    "d' = d\<lparr> users := put_user w (users d), permissions := qs \<rparr>"
proof -
  let ?cur = "current_user_of me d"
  obtain u where u: "get_user_by_id i d = Inr u" using assms by (auto simp: update_user_def res_simps)
  have i: "u_id u = i" using get_user_by_id_Inr [OF u] by simp
  obtain x where g: "update_guards data u me ?cur d = Inr x" using assms u by (auto simp: update_user_def Let_def res_simps)
  define u0 where "u0 = (if uu_active data = Some True then u\<lparr> disabled_by_directory := False \<rparr> else u)"
  obtain u1 u2 u3 u4 ps qs where st: "set_username data d u0 = Inr u1" "set_email data d u1 = Inr u2"
    "set_password env data (set_contact data u2) = Inr u3" "set_role data me ?cur u3 (permissions d) = Inr (u4, ps)"
    "set_active data me d u4 = Inr w"
    "(case uu_permissions data of None \<Rightarrow> Inr ps
       | Some gs \<Rightarrow> if role w \<noteq> ADMIN then update_user_permissions i gs ps else Inr ps) = Inr qs"
    "d' = d\<lparr> users := put_user w (users d), permissions := qs \<rparr>"
    using assms u g unfolding update_user_def Let_def u0_def by (auto simp: res_bind_Inr_iff)
  have u0: "u_id u0 = i" "role u0 = role u" "email u0 = email u" "phone u0 = phone u"
    "hashed_password u0 = hashed_password u" "is_active u0 = is_active u"
    by (simp_all add: u0_def i)
  obtain n where u1: "u1 = u0\<lparr> username := n \<rparr>" using set_username_Inr [OF st(1)] by blast
  note u2 = set_email_Inr [OF st(2)] and u3 = set_password_Inr [OF st(3)] and u4 = set_role_Inr [OF st(4)]
  have id3: "u_id u3 = i" "is_active u3 = is_active u" using u3 u2 u1 u0 by (auto simp: set_contact_eq)
  obtain b where b: "w = u4\<lparr> is_active := b \<rparr>" "me = Some (u_id u4) \<longrightarrow> is_active u4 \<longrightarrow> b"
    using set_active_Inr [OF st(5)] by blast
  have id4: "u_id u4 = i" "is_active u4 = is_active u" using u4 id3 by auto
  have same: "email w = email u3" "phone w = phone u3" "hashed_password w = hashed_password u3" "role w = role u4"
    using b(1) u4 by auto
  have c2: "email (set_contact data u2) = (case uu_email data of None \<Rightarrow> email u | Some e \<Rightarrow> e)"
    "phone (set_contact data u2) = (case uu_phone data of None \<Rightarrow> phone u | Some p \<Rightarrow> some_nonempty p)"
    "hashed_password (set_contact data u2) = hashed_password u" "role (set_contact data u2) = role u"
    using u2 u1 u0 by (simp_all add: set_contact_eq split: option.splits)
  show thesis
  proof (rule that [OF u, of ps qs])
    show "update_guards data u me ?cur d = Inr ()" using g by simp
    show "u_id w = i" "me = Some i \<longrightarrow> is_active u \<longrightarrow> is_active w" using b id4 by simp_all
    show "email w = (case uu_email data of None \<Rightarrow> email u | Some e \<Rightarrow> e)"
      "phone w = (case uu_phone data of None \<Rightarrow> phone u | Some p \<Rightarrow> some_nonempty p)"
      "hashed_password w = hashed_password u \<or> (\<exists>c. uu_current_password data = Some c \<and> bcrypt_verify env c (hashed_password u))"
      using u3 c2 unfolding same by auto
    show "role w = role u \<and> ps = permissions d \<or> me \<noteq> Some i \<and> (\<forall>a. ?cur = Some a \<longrightarrow> role a = ADMIN)"
      using u4 u3 c2 id3 unfolding same by auto
    show "unique_permissions (permissions d) \<longrightarrow> unique_permissions ps" using u4 by blast
  qed (fact st(6,7))+
qed


section \<open>Management by any account\<close>

text \<open>
  One request of the account \<open>a\<close>, found in the database by its id. New ids come from the
  database's sequence: positive and never used.
\<close>

inductive manage :: "auth_env \<Rightarrow> user \<Rightarrow> db \<Rightarrow> db \<Rightarrow> bool" for env a where
  Create: "create_user env new_id data (Some a) d = Inr (u, d') \<Longrightarrow> 0 < new_id \<Longrightarrow> new_id \<notin> u_id ` set (users d) \<Longrightarrow>
    (\<forall>p \<in> set (permissions d). p_user p \<noteq> new_id) \<Longrightarrow> manage env a d d'"
| Update: "update_user env i data (Some (u_id a)) d = Inr (u, d') \<Longrightarrow> manage env a d d'"
| Reset: "reset_password env i new (Some a) d = Inr (u, d') \<Longrightarrow> manage env a d d'"
| Delete: "delete_user i (Some (u_id a)) d = Inr d' \<Longrightarrow> manage env a d d'"

definition tables_ok :: "db \<Rightarrow> bool" where
  "tables_ok d \<longleftrightarrow> distinct (map u_id (users d)) \<and> unique_permissions (permissions d) \<and> (\<forall>u \<in> set (users d). 0 < u_id u)"

lemma tables_okD:
  assumes "tables_ok d" "u \<in> set (users d)"
  shows "find_user (\<lambda>v. u_id v = u_id u) d = Some u" "current_user_of (Some (u_id u)) d = Some u"
proof -
  have "find (\<lambda>v. u_id v = i) us = Some x \<longleftrightarrow> x \<in> set us \<and> u_id x = i" if "distinct (map u_id us)" for us i x
    using that by (induction us) (auto simp: rev_image_eqI)
  then show "find_user (\<lambda>v. u_id v = u_id u) d = Some u"
    using assms by (auto simp: tables_ok_def find_user_def)
  then show "current_user_of (Some (u_id u)) d = Some u"
    using assms by (auto simp: current_user_of_def tables_ok_def)
qed

lemma tables_ok_inj: "tables_ok d \<Longrightarrow> u \<in> set (users d) \<Longrightarrow> v \<in> set (users d) \<Longrightarrow> u_id u = u_id v \<Longrightarrow> u = v"
  by (auto simp: tables_ok_def distinct_map inj_on_def)

lemma put_user_ids [simp]: "map u_id (put_user w us) = map u_id us"
  by (simp add: put_user_def)

lemma set_put_user: "v \<in> set (put_user w us) \<longleftrightarrow> v \<in> set us \<and> u_id v \<noteq> u_id w \<or> v = w \<and> (\<exists>x \<in> set us. u_id x = u_id w)"
  by (auto simp: put_user_def)

lemma put_user_positive: "(\<forall>v \<in> set (put_user w us). 0 < u_id v) = (\<forall>v \<in> set us. 0 < u_id v)"
  by (induction us) (auto simp: put_user_def)

lemma update_permissions_rows: "update_user_permissions i gs ps = Inr qs \<Longrightarrow>
  unique_permissions qs \<and> qs = filter (\<lambda>p. p_user p \<noteq> i) ps @ map (row_of i) gs"
  by (auto simp: update_user_permissions_def dest: add_rows_Inr)

lemma reset_password_Inr:
  assumes "reset_password env i new actor d = Inr (w, d')"
  obtains u h where "get_user_by_id i d = Inr u" "w = u\<lparr> hashed_password := h, must_change_password := True \<rparr>"
    "d' = d\<lparr> users := put_user w (users d) \<rparr>" "\<exists>a. actor = Some a \<and> role a = ADMIN"
  using assms by (auto simp: reset_password_def Let_def res_simps split: option.splits if_splits)

lemma delete_user_Inr:
  assumes "delete_user i me d = Inr d'"
  obtains u where "get_user_by_id i d = Inr u" "i \<noteq> 0 \<Longrightarrow> me \<noteq> Some i"
    "assert_role_within_reach (current_user_of me d) (role u) = Inr ()"
    "users d' = filter (\<lambda>v. u_id v \<noteq> i) (users d)" "permissions d' = filter (\<lambda>p. p_user p \<noteq> i) (permissions d)"
  using assms by (auto simp: delete_user_def res_simps split: if_splits)

lemma unique_filter: "unique_permissions ps \<Longrightarrow> unique_permissions (filter P ps)"
  by (simp add: unique_permissions_def distinct_map_filter)

lemma manage_tables_ok: "manage env a d d' \<Longrightarrow> tables_ok d \<Longrightarrow> tables_ok d'"
proof (induction rule: manage.induct)
  case (Create new_id data d u d')
  then show ?case
    by (elim create_user_Inr) (auto simp: tables_ok_def create_user_permissions_def split: if_splits dest!: add_rows_Inr)
next
  case (Update i data d u d')
  then show ?case
  proof (elim update_user_Inr)
    fix v ps qs
    assume a: "get_user_by_id i d = Inr v" "u_id u = i" "unique_permissions (permissions d) \<longrightarrow> unique_permissions ps"
      "(case uu_permissions data of None \<Rightarrow> Inr ps
         | Some gs \<Rightarrow> if role u \<noteq> ADMIN then update_user_permissions i gs ps else Inr ps) = Inr qs"
      "d' = d\<lparr> users := put_user u (users d), permissions := qs \<rparr>" "tables_ok d"
    have "unique_permissions qs"
      using a(3,4,6) by (auto simp: tables_ok_def split: option.splits if_splits dest: update_permissions_rows)
    then show "tables_ok d'" using a(5,6) by (simp add: tables_ok_def put_user_positive)
  qed
next
  case (Reset i new d u d')
  then show ?case by (elim reset_password_Inr) (simp add: tables_ok_def put_user_positive)
next
  case (Delete i d d')
  then show ?case by (elim delete_user_Inr) (auto simp: tables_ok_def distinct_map_filter unique_filter)
qed


lemma update_target_reach:
  assumes "update_guards data u (Some i) (Some a) d = Inr ()" "role a \<noteq> ADMIN" "i \<noteq> u_id u"
  shows "role u \<noteq> ADMIN"
  using assms reach_not_admin [of a "role u"] by (auto simp: update_guards_def res_simps split: if_splits)

lemma admin_survives:
  assumes "b \<in> set (users d)" "role b = ADMIN" "is_active b" "u_id b \<noteq> u_id w"
  shows "\<exists>c \<in> set (put_user w (users d)). role c = ADMIN \<and> is_active c"
  using assms by (auto simp: set_put_user)

definition some_admin :: "db \<Rightarrow> bool" where
  "some_admin d \<longleftrightarrow> (\<exists>u \<in> set (users d). role u = ADMIN \<and> is_active u)"

lemma update_keeps_admin:
  assumes "update_user env i data (Some (u_id a)) d = Inr (w, d')" "tables_ok d" "a \<in> set (users d)" "is_active a" "some_admin d"
  shows "some_admin d'"
  using assms(1)
proof (cases rule: update_user_Inr)
  case (1 u ps qs)
  have u: "u \<in> set (users d)" "u_id u = i" using get_user_by_id_Inr [OF 1(1)] by auto
  note a = tables_okD [OF assms(2,3)]
  have d': "users d' = put_user w (users d)" using 1(11) by simp
  show ?thesis
  proof (cases "u_id a = i")
    case True
    then have "u = a" using a(1) get_user_by_id_Inr [OF 1(1)] by simp
    moreover have "role w = role u" using 1(7) True by auto
    moreover have "is_active w" using 1(9) True assms(4) \<open>u = a\<close> by simp
    moreover have "w \<in> set (users d')" using 1(3) u d' by (auto simp: set_put_user)
    moreover have "u_id b \<noteq> i" if "b \<in> set (users d)" "role b \<noteq> role a" for b
      using tables_ok_inj [OF assms(2) that(1) assms(3)] that(2) True by auto
    moreover obtain b where "b \<in> set (users d)" "role b = ADMIN" "is_active b" using assms(5) by (auto simp: some_admin_def)
    ultimately show ?thesis using admin_survives [of b d w] 1(3) d' unfolding some_admin_def
      by (cases "role a = ADMIN") auto
  next
    case False
    obtain b where b: "b \<in> set (users d)" "role b = ADMIN" "is_active b" using assms(5) by (auto simp: some_admin_def)
    show ?thesis
    proof (cases "role a = ADMIN")
      case True
      then show ?thesis using admin_survives [OF assms(3)] assms(4) False 1(3) d' by (auto simp: some_admin_def)
    next
      case nonadmin: False
      then have "role u \<noteq> ADMIN" using update_target_reach [OF _ nonadmin, of data u "u_id a" d] 1(2) a(2) False u by simp
      then have "u_id b \<noteq> i" using tables_ok_inj [OF assms(2) b(1) u(1)] u(2) b(2) by auto
      then show ?thesis using admin_survives [OF b] 1(3) d' by (auto simp: some_admin_def)
    qed
  qed
qed

lemma delete_keeps_admin:
  assumes "delete_user i (Some (u_id a)) d = Inr d'" "tables_ok d" "a \<in> set (users d)" "is_active a" "some_admin d"
  shows "some_admin d'"
  using assms(1)
proof (cases rule: delete_user_Inr)
  case (1 u)
  have u: "find_user (\<lambda>v. u_id v = i) d = Some u" "u_id u = i" "u \<in> set (users d)" using get_user_by_id_Inr [OF 1(1)] by auto
  then have "u_id a \<noteq> i" using 1(2) assms(2) by (auto simp: tables_ok_def)
  note a = tables_okD [OF assms(2,3)]
  obtain b where b: "b \<in> set (users d)" "role b = ADMIN" "is_active b" using assms(5) by (auto simp: some_admin_def)
  show ?thesis
  proof (cases "role a = ADMIN")
    case True
    with assms(3,4) \<open>u_id a \<noteq> i\<close> 1(4) show ?thesis by (auto simp: some_admin_def)
  next
    case False
    then have "role u \<noteq> ADMIN" using 1(3) a(2) reach_not_admin by auto
    then have "u_id b \<noteq> i" using tables_ok_inj [OF assms(2) b(1) u(3)] u(2) b(2) by auto
    with b 1(4) show ?thesis by (auto simp: some_admin_def)
  qed
qed

definition manage_ok :: "db \<Rightarrow> bool" where "manage_ok d \<longleftrightarrow> tables_ok d \<and> some_admin d"

definition manage_step :: "auth_env \<Rightarrow> db \<Rightarrow> db \<Rightarrow> bool" where
  "manage_step env d d' \<longleftrightarrow> (\<exists>a \<in> set (users d). is_active a \<and> manage env a d d')"

lemma manage_keeps_admin:
  "manage env a d d' \<Longrightarrow> tables_ok d \<Longrightarrow> a \<in> set (users d) \<Longrightarrow> is_active a \<Longrightarrow> some_admin d \<Longrightarrow> some_admin d'"
proof (induction rule: manage.induct)
  case (Create new_id data d u d')
  then show ?case by (elim create_user_Inr) (auto simp: some_admin_def)
next
  case (Reset i new d u d')
  then obtain v h where v: "get_user_by_id i d = Inr v" "u = v\<lparr> hashed_password := h, must_change_password := True \<rparr>"
    "d' = d\<lparr> users := put_user u (users d) \<rparr>" by (elim reset_password_Inr)
  obtain b where b: "b \<in> set (users d)" "role b = ADMIN" "is_active b" using Reset by (auto simp: some_admin_def)
  show ?case
  proof (cases "u_id b = u_id u")
    case True
    then have "b = v" using tables_ok_inj [OF Reset(2) b(1)] get_user_by_id_Inr [OF v(1)] v(2) by simp
    then have "u \<in> set (users d')" using b(1) v by (auto simp: set_put_user)
    then show ?thesis using b v(2) \<open>b = v\<close> unfolding some_admin_def by (intro bexI [of _ u]) simp_all
  qed (use admin_survives [OF b] v(3) in \<open>auto simp: some_admin_def\<close>)
qed (blast intro: update_keeps_admin delete_keeps_admin)+

interpretation adm: invariant manage_ok "manage_step env" manage_ok for env
  by unfold_locales (auto simp: manage_ok_def manage_step_def intro: manage_tables_ok manage_keeps_admin)


section \<open>The theorems\<close>

text \<open>
  C6. There is always an administrator. Starting from tables with unique ids, one permission row
  per user and module and an active administrator, any sequence of creations, changes,
  temporary passwords and deletions, each by an account that is active at that moment, keeps
  all three: nobody can delete, demote or switch off the last active administrator.
\<close>

theorem an_admin_remains:
  assumes "reach manage_ok (manage_step env) d"
  shows "distinct (map u_id (users d)) \<and> unique_permissions (permissions d)
    \<and> (\<exists>u \<in> set (users d). role u = ADMIN \<and> is_active u)"
  using adm.reach_inv [OF assms] by (simp add: manage_ok_def tables_ok_def some_admin_def)

definition demo_admin :: user where "demo_admin = demo_user\<lparr> u_id := 2, username := ''root'', email := ''r'', role := ADMIN \<rparr>"

definition admin_db :: db where
  "admin_db = demo_db\<lparr> users := [demo_admin, demo_user],
     permissions := [\<lparr> p_user = 1, p_module = ''user_management'', can_read = True, can_write = True, can_delete = False \<rparr>] \<rparr>"

lemma admin_db_ok: "manage_ok admin_db"
  by (simp add: manage_ok_def tables_ok_def some_admin_def admin_db_def unique_permissions_def demo_admin_def demo_user_def)

theorem an_admin_remains_witness:
  "\<exists>u \<in> set (users admin_db). role u = ADMIN \<and> is_active u"
proof -
  have "reach manage_ok (manage_step (demo_auth demo_claims)) admin_db" by (rule reach_init) (rule admin_db_ok)
  from an_admin_remains [OF this] show ?thesis by blast
qed

text \<open>Rights of the accounts a request does not name, and of the one it names.\<close>

lemma rights_rows_cong:
  assumes "unique_permissions (permissions d)" "unique_permissions (permissions d')" "u_id w = u_id v" "role w = role v"
    "\<And>p. p_user p = u_id v \<Longrightarrow> p \<in> set (permissions d') \<Longrightarrow> p \<in> set (permissions d)"
  shows "rights d' w \<subseteq> rights d v"
  using assms by (auto simp: rights_iff)

lemma create_rights:
  assumes "create_user env new_id data (Some a) d = Inr (u, d')" "tables_ok d" "role a \<noteq> ADMIN"
    "\<forall>p \<in> set (permissions d). p_user p \<noteq> new_id"
  shows "rights d' u \<subseteq> rights d a \<union> default_rights \<and> role u \<noteq> ADMIN \<and> role_rank (role u) \<le> role_rank (role a)
    \<and> (\<forall>v \<in> set (users d). u_id v \<noteq> new_id \<longrightarrow> rights d' v \<subseteq> rights d v)"
  using assms(1)
proof (cases rule: create_user_Inr)
  case (1 r ps)
  let ?gs = "case uc_permissions data of None \<Rightarrow> get_default_permissions | Some gs \<Rightarrow> gs"
  have r: "r \<noteq> ADMIN" "role_rank r \<le> role_rank (role a)" using reach_not_admin [OF 1(2) assms(3)] by auto
  then have "add_rows new_id ?gs (permissions d) = Inr ps" using 1(7) by (simp add: create_user_permissions_def)
  note rows = add_rows_Inr [OF this]
  have d': "permissions d' = permissions d @ map (row_of new_id) ?gs" "unique_permissions (permissions d')" using 1(8) rows by auto
  have uniq: "unique_permissions (permissions d)" using assms(2) by (simp add: tables_ok_def)
  have "(m, k) \<in> rights d a \<union> default_rights" if mk: "(m, k) \<in> rights d' u" for m k
  proof -
    obtain p where p: "p \<in> set (permissions d')" "p_user p = new_id" "p_module p = m" "flag k p"
      using mk r 1(4,5) by (auto simp: rights_iff [OF d'(2)])
    then obtain g where g: "g \<in> set ?gs" "p = row_of new_id g" using assms(4) d'(1) by auto
    then have m: "m = g_module g" using p(3) by (simp add: row_of_def)
    show ?thesis
    proof (cases "uc_permissions data")
      case None
      then show ?thesis using default_flag [of g k new_id] g p(4) m by simp
    next
      case (Some gs)
      then show ?thesis using granted_rights [OF uniq _ assms(3), of gs g k new_id] 1(3) r(1) g p(4) m by simp
    qed
  qed
  moreover have "rights d' v \<subseteq> rights d v" if "u_id v \<noteq> new_id" for v
    by (rule rights_rows_cong [OF uniq d'(2)]) (use that d'(1) in \<open>auto simp: row_of_def\<close>)
  ultimately show ?thesis using r 1(4) by auto
qed

lemma update_rights:
  assumes "update_user env i data (Some (u_id a)) d = Inr (w, d')" "tables_ok d" "a \<in> set (users d)" "role a \<noteq> ADMIN"
  shows "\<exists>u \<in> set (users d). u_id u = i \<and> u_id w = i \<and> role w = role u \<and> rights d' w \<subseteq> rights d u \<union> rights d a
    \<and> (\<forall>v \<in> set (users d). u_id v \<noteq> i \<longrightarrow> rights d' v \<subseteq> rights d v)"
  using assms(1)
proof (cases rule: update_user_Inr)
  case (1 u ps qs)
  note a = tables_okD [OF assms(2,3)]
  have u: "u \<in> set (users d)" "u_id u = i" using get_user_by_id_Inr [OF 1(1)] by auto
  have uniq: "unique_permissions (permissions d)" using assms(2) by (simp add: tables_ok_def)
  have role: "role w = role u" and ps: "ps = permissions d" using 1(7) a(2) assms(4) by auto
  have grant: "assert_can_grant (Some a) (uu_permissions data) d = Inr ()"
    using 1(2) a(2) by (auto simp: update_guards_def res_simps)
  have cases: "permissions d' = permissions d \<or> (\<exists>gs. uu_permissions data = Some gs \<and> role w \<noteq> ADMIN \<and> unique_permissions (permissions d')
      \<and> permissions d' = filter (\<lambda>p. p_user p \<noteq> i) (permissions d) @ map (row_of i) gs)"
    using 1(10,11) ps by (cases "uu_permissions data"; cases "role w = ADMIN") (auto dest: update_permissions_rows)
  then have d': "unique_permissions (permissions d')" using uniq by auto
  have "rights d' w \<subseteq> rights d u \<union> rights d a"
  proof (cases "permissions d' = permissions d")
    case True
    have "rights d' w \<subseteq> rights d u" by (rule rights_rows_cong [OF uniq d']) (use True role u 1(3) in auto)
    then show ?thesis by blast
  next
    case False
    then obtain gs where gs: "uu_permissions data = Some gs" "role w \<noteq> ADMIN"
      "permissions d' = filter (\<lambda>p. p_user p \<noteq> i) (permissions d) @ map (row_of i) gs" using cases by blast
    have "(m, k) \<in> rights d a" if mk: "(m, k) \<in> rights d' w" for m k
    proof -
      obtain g where "g \<in> set gs" "m = g_module g" "flag k (row_of i g)"
        using mk gs(2,3) 1(3) by (auto simp: rights_iff [OF d'] row_of_def)
      then show ?thesis using granted_rights [OF uniq _ assms(4), of gs g k i] grant gs(1) by simp
    qed
    then show ?thesis by auto
  qed
  moreover have "rights d' v \<subseteq> rights d v" if "u_id v \<noteq> i" for v
    by (rule rights_rows_cong [OF uniq d']) (use that cases in \<open>auto simp: row_of_def\<close>)
  ultimately show ?thesis using u role 1(3) by blast
qed

text \<open>
  C5. Managing users gives no one more than the manager has. A request of an active account
  that is not an administrator leaves every existing account its role, and every account in the
  result holds at most what it held before together with what the manager holds; a new account
  is no administrator, has a role no higher than the manager's, and holds at most the
  manager's rights and the two default ones.
\<close>

theorem no_privilege_escalation:
  assumes "manage env a d d'" "tables_ok d" "a \<in> set (users d)" "role a \<noteq> ADMIN" "w \<in> set (users d')"
  shows "(\<exists>v \<in> set (users d). u_id v = u_id w \<and> role v = role w \<and> rights d' w \<subseteq> rights d v \<union> rights d a)
    \<or> u_id w \<notin> u_id ` set (users d) \<and> role w \<noteq> ADMIN \<and> role_rank (role w) \<le> role_rank (role a)
      \<and> rights d' w \<subseteq> rights d a \<union> default_rights"
  using assms
proof (induction rule: manage.induct)
  case (Create new_id data d u d')
  have "users d' = users d @ [u]" "u_id u = new_id" using Create(1) by (elim create_user_Inr; simp)+
  note new = this and r = create_rights [OF Create(1,5,7,4)]
  show ?case
  proof (cases "w = u")
    case True
    then show ?thesis using new(2) Create(3) r by simp
  next
    case False
    then have w: "w \<in> set (users d)" using Create(8) new(1) by simp
    then have "rights d' w \<subseteq> rights d w" using r Create(3) by auto
    with w show ?thesis by blast
  qed
next
  case (Update i data d u d')
  have "users d' = put_user u (users d)" using Update(1) by (elim update_user_Inr) simp
  then have "w = u \<or> w \<in> set (users d) \<and> u_id w \<noteq> u_id u" using Update(5) by (auto simp: set_put_user)
  moreover obtain v where v: "v \<in> set (users d)" "u_id v = i" "u_id u = i" "role u = role v"
      "rights d' u \<subseteq> rights d v \<union> rights d a" "\<forall>x \<in> set (users d). u_id x \<noteq> i \<longrightarrow> rights d' x \<subseteq> rights d x"
    using update_rights [OF Update(1-4)] by blast
  ultimately show ?case
  proof (elim disjE)
    assume "w = u"
    then show ?thesis using v(1-5) by (intro disjI1 bexI [of _ v]) simp_all
  next
    assume w: "w \<in> set (users d) \<and> u_id w \<noteq> u_id u"
    then have "rights d' w \<subseteq> rights d w" using v(3,6) by simp
    then show ?thesis using w by (intro disjI1 bexI [of _ w]) auto
  qed
next
  case (Reset i new d u d')
  then show ?case by (elim reset_password_Inr) auto
next
  case (Delete i d d')
  have uniq: "unique_permissions (permissions d)" "unique_permissions (permissions d')"
    using Delete manage_tables_ok [OF manage.Delete [of i a d d']] by (auto simp: tables_ok_def)
  have "w \<in> set (users d)" "permissions d' = filter (\<lambda>p. p_user p \<noteq> i) (permissions d)"
    using Delete(1,5) by (elim delete_user_Inr; simp)+
  then show ?case using rights_rows_cong [OF uniq, of w w] by auto
qed


lemma demo_manage:
  "\<exists>u d'. create_user (demo_auth demo_claims) 3 \<lparr> uc_username = ''carol'', uc_email = ''c'', uc_phone = None, uc_password = ''p'',
     uc_role = ''user'', uc_active = True, uc_permissions = Some [\<lparr> g_module = ''user_management'', g_read = True,
       g_write = False, g_delete = False \<rparr>] \<rparr> (Some demo_user) admin_db = Inr (u, d') \<and> u \<in> set (users d')"
  by (simp add: create_user_def find_user_def admin_db_def demo_admin_def demo_user_def parse_role_def
      assert_role_within_reach_def assert_can_grant_def held_by_def get_user_permissions_def missing_flag_def
      hash_password_def get_password_hash_def utf8_length_def is_ascii_def create_user_permissions_def add_rows_def
      all_modules_def unique_permissions_def row_of_def demo_db_def Let_def)

theorem no_privilege_escalation_witness:
  "\<exists>d' w. w \<in> set (users d') \<and> ((\<exists>v \<in> set (users admin_db). u_id v = u_id w \<and> role v = role w \<and>
       rights d' w \<subseteq> rights admin_db v \<union> rights admin_db demo_user)
    \<or> u_id w \<notin> u_id ` set (users admin_db) \<and> role w \<noteq> ADMIN \<and> role_rank (role w) \<le> role_rank (role demo_user)
      \<and> rights d' w \<subseteq> rights admin_db demo_user \<union> default_rights)"
proof -
  obtain data u d' where c: "create_user (demo_auth demo_claims) 3 data (Some demo_user) admin_db = Inr (u, d')"
    "u \<in> set (users d')" using demo_manage by blast
  have "manage (demo_auth demo_claims) demo_user admin_db d'"
    by (rule manage.Create [OF c(1)]) (simp_all add: admin_db_def demo_admin_def demo_user_def)
  moreover have "tables_ok admin_db" using admin_db_ok by (simp add: manage_ok_def)
  moreover have "demo_user \<in> set (users admin_db)" "role demo_user \<noteq> ADMIN" by (simp_all add: admin_db_def demo_user_def)
  ultimately show ?thesis using no_privilege_escalation [OF _ _ _ _ c(2)] c(2) by blast
qed

text \<open>
  Managing users is no way into a stronger account. When an account that is not an
  administrator changes another account, that one is no administrator; its e-mail address or
  mobile number, where reset codes go, changes only if it holds nothing the manager does not
  hold; and its password changes only with its current password.
\<close>

theorem contact_change_needs_rights:
  assumes "update_user env i data (Some (u_id a)) d = Inr (w, d')" "tables_ok d" "a \<in> set (users d)" "role a \<noteq> ADMIN" "u_id a \<noteq> i"
  shows "\<exists>u \<in> set (users d). u_id u = i \<and> role u \<noteq> ADMIN
    \<and> (email w \<noteq> email u \<or> phone w \<noteq> phone u \<longrightarrow> rights d u \<subseteq> rights d a)
    \<and> (hashed_password w \<noteq> hashed_password u \<longrightarrow>
        (\<exists>c. uu_current_password data = Some c \<and> bcrypt_verify env c (hashed_password u)))"
  using assms(1)
proof (cases rule: update_user_Inr)
  case (1 u ps qs)
  have u: "u \<in> set (users d)" "u_id u = i" using get_user_by_id_Inr [OF 1(1)] by auto
  note a = tables_okD [OF assms(2,3)]
  have uniq: "unique_permissions (permissions d)" using assms(2) by (simp add: tables_ok_def)
  have role: "role u \<noteq> ADMIN" using update_target_reach [OF _ assms(4), of data u "u_id a" d] 1(2) a(2) assms(5) u(2) by simp
  have "rights d u \<subseteq> rights d a" if "email w \<noteq> email u \<or> phone w \<noteq> phone u"
  proof -
    have "contact_change data u" using that 1(4,5) by (auto simp: contact_change_def split: option.splits)
    then have grant: "assert_can_grant (Some a) (Some (grants_of i d)) d = Inr ()"
      using 1(2) a(2) assms(5) u(2) by (auto simp: update_guards_def res_simps split: sum.splits)
    have "(m, k) \<in> rights d a" if mk: "(m, k) \<in> rights d u" for m k
    proof -
      obtain p where p: "p \<in> set (permissions d)" "p_user p = i" "p_module p = m" "flag k p"
        using mk role u(2) by (auto simp: rights_iff [OF uniq])
      let ?g = "\<lparr> g_module = p_module p, g_read = can_read p, g_write = can_write p, g_delete = can_delete p \<rparr>"
      have "?g \<in> set (grants_of i d)" using p(1,2) by (auto simp: grants_of_def get_user_permissions_def)
      moreover have "flag k (row_of i ?g)" using p(4) by (simp add: flag_def row_of_def)
      ultimately show ?thesis using granted_rights [OF uniq grant assms(4)] p(3) by fastforce
    qed
    then show ?thesis by auto
  qed
  then show ?thesis using u role 1(6) by auto
qed


definition carol :: user where "carol = demo_user\<lparr> u_id := 5, username := ''carol'', email := ''c'', role := USER \<rparr>"

definition carol_db :: db where "carol_db = admin_db\<lparr> users := [demo_admin, demo_user, carol] \<rparr>"

definition new_email :: user_update where
  "new_email = \<lparr> uu_username = None, uu_email = Some ''d'', uu_phone = None, uu_language = None, uu_password = None,
     uu_current_password = None, uu_role = None, uu_active = None, uu_permissions = None \<rparr>"

lemma carol_update: "\<exists>d'. update_user (demo_auth demo_claims) 5 new_email (Some (u_id demo_user)) carol_db =
    Inr (carol\<lparr> email := ''d'' \<rparr>, d')"
proof -
  have users: "users carol_db = [demo_admin, demo_user, carol]" by (simp add: carol_db_def)
  have u: "get_user_by_id 5 carol_db = Inr carol"
    by (simp add: get_user_by_id_def find_user_def users demo_admin_def carol_def demo_user_def)
  have cur: "current_user_of (Some (u_id demo_user)) carol_db = Some demo_user"
    by (simp add: current_user_of_def find_user_def users demo_admin_def carol_def demo_user_def)
  have guards: "update_guards new_email carol (Some (u_id demo_user)) (Some demo_user) carol_db = Inr ()"
    by (simp add: update_guards_def carol_def demo_user_def new_email_def assert_role_within_reach_def assert_can_grant_def
        grants_of_def get_user_permissions_def carol_db_def admin_db_def)
  have sel: "uu_username new_email = None" "uu_email new_email = Some ''d''" "uu_phone new_email = None" "uu_language new_email = None"
    "uu_password new_email = None" "uu_role new_email = None" "uu_active new_email = None" "uu_permissions new_email = None"
    by (simp_all add: new_email_def)
  have free: "find_user (\<lambda>v. email v = ''d'' \<and> u_id v \<noteq> u_id carol) carol_db = None"
    by (simp add: find_user_def users demo_admin_def carol_def demo_user_def)
  show ?thesis
    by (simp add: update_user_def u cur guards sel set_username_def set_email_def free set_contact_def set_password_def
        set_role_def set_active_def)
qed

theorem contact_change_needs_rights_witness:
  "\<exists>u \<in> set (users carol_db). u_id u = 5 \<and> role u \<noteq> ADMIN \<and>
     (email (carol\<lparr> email := ''d'' \<rparr>) \<noteq> email u \<or> phone (carol\<lparr> email := ''d'' \<rparr>) \<noteq> phone u \<longrightarrow>
       rights carol_db u \<subseteq> rights carol_db demo_user)"
proof -
  obtain d' where up: "update_user (demo_auth demo_claims) 5 new_email (Some (u_id demo_user)) carol_db =
      Inr (carol\<lparr> email := ''d'' \<rparr>, d')" using carol_update by blast
  have ok: "tables_ok carol_db"
    by (simp add: tables_ok_def carol_db_def admin_db_def demo_admin_def carol_def demo_user_def unique_permissions_def)
  have mem: "demo_user \<in> set (users carol_db)" "role demo_user \<noteq> ADMIN" "u_id demo_user \<noteq> 5"
    by (simp_all add: carol_db_def demo_user_def)
  from contact_change_needs_rights [OF up ok mem] show ?thesis by blast
qed

end
