(* ===== verification/Cve_Versions.thy ===== *)
theory Cve_Versions
  imports Prelude "HOL-Library.Product_Lexorder"
begin

text \<open>
  Versions in CVE data, \<^verbatim>\<open>modules/cve/versions.py\<close>: vendor versions split into runs of
  digits and letters, compared element by element, and the test whether an installed
  version falls in the range of a CPE criterion. The comparison is \<open>lexz\<close> of the key, a
  missing element counting as 0, which makes it a total preorder; a criterion then always
  covers an interval of versions.
\<close>

section \<open>Keys\<close>

text \<open>
  The elements of a key are the tuples (0, word), (1, empty), (2, number) and (3, word):
  pre-release words, the end of the version, numbers and other words.
\<close>

datatype elem = Pre string | End | Num nat | Letters string

definition PRE_RELEASE :: "string list" where
  "PRE_RELEASE = [''dev'', ''alpha'', ''beta'', ''pre'', ''preview'', ''rc'']"

text \<open>\<^verbatim>\<open>re.sub("^\d+:", "", v)\<close>: one epoch at the start.\<close>

definition drop_epoch :: "string \<Rightarrow> string" where
  "drop_epoch v = (case (takeWhile ascii_digit v, dropWhile ascii_digit v) of
       (_ # _, c # rest) \<Rightarrow> if c = CHR '':'' then rest else v
     | _ \<Rightarrow> v)"

definition az :: "char \<Rightarrow> bool" where "az c = (97 \<le> ord_c c \<and> ord_c c \<le> 122)"

text \<open>\<^verbatim>\<open>_TOKENS.findall(v)\<close>: the maximal runs of digits and of small letters, from the left.\<close>

function findall_tokens :: "string \<Rightarrow> string list" where
  "findall_tokens v = (case v of [] \<Rightarrow> []
     | c # cs \<Rightarrow> if ascii_digit c then takeWhile ascii_digit v # findall_tokens (dropWhile ascii_digit v)
               else if az c then takeWhile az v # findall_tokens (dropWhile az v)
               else findall_tokens cs)"
  by pat_completeness auto
termination
  by (relation "measure length") (auto simp: le_imp_less_Suc length_dropWhile_le)

declare findall_tokens.simps [simp del]

text \<open>\<^verbatim>\<open>int\<close> of more than 4300 digits is a ValueError, here \<open>None\<close>.\<close>

definition elem_of :: "string \<Rightarrow> elem option" where
  "elem_of tok = (if list_all py_isdigit tok then map_option (\<lambda>n. Num (nat n)) (py_int tok)
     else if tok \<in> set PRE_RELEASE then Some (Pre tok) else Some (Letters tok))"

definition version_key :: "string \<Rightarrow> elem list option" where
  "version_key version = those (map elem_of (findall_tokens (drop_epoch (py_lower (py_strip version)))))"

section \<open>Comparison\<close>

text \<open>Tuples compare by kind and then by value; the order of the elements is that order.\<close>

fun elem_tuple :: "elem \<Rightarrow> nat \<times> nat \<times> string" where
  "elem_tuple (Pre w) = (0, 0, w)"
| "elem_tuple End = (1, 0, [])"
| "elem_tuple (Num n) = (2, n, [])"
| "elem_tuple (Letters w) = (3, 0, w)"

lemma elem_tuple_inj [simp]: "elem_tuple x = elem_tuple y \<longleftrightarrow> x = y"
  by (cases x; cases y) auto

instantiation elem :: linorder
begin

definition less_eq_elem :: "elem \<Rightarrow> elem \<Rightarrow> bool" where
  "less_eq_elem x y = (elem_tuple x \<le> elem_tuple y)"

definition less_elem :: "elem \<Rightarrow> elem \<Rightarrow> bool" where
  "less_elem x y = (elem_tuple x < elem_tuple y)"

instance
  by standard (auto simp: less_eq_elem_def less_elem_def order.strict_iff_order)

end

text \<open>The loop of \<^verbatim>\<open>compare\<close> over the zipped keys.\<close>

fun compare_loop :: "(elem \<times> elem) list \<Rightarrow> int" where
  "compare_loop [] = 0"
| "compare_loop ((x, y) # ps) =
     (if {x, y} = {End, Num 0} then compare_loop ps
      else if x \<noteq> y then (if x < y then -1 else 1)
      else compare_loop ps)"

definition compare_keys :: "elem list \<Rightarrow> elem list \<Rightarrow> int" where
  "compare_keys ka kb = (let n = max (length ka) (length kb) in
     compare_loop (zip (ka @ replicate (n - length ka) End) (kb @ replicate (n - length kb) End)))"

definition compare_versions :: "string \<Rightarrow> string \<Rightarrow> int option" where
  "compare_versions a b = (case (version_key a, version_key b) of
       (Some ka, Some kb) \<Rightarrow> Some (compare_keys ka kb) | _ \<Rightarrow> None)"

definition is_known :: "string option \<Rightarrow> bool" where
  "is_known version = (case version of None \<Rightarrow> False
     | Some v \<Rightarrow> v \<noteq> [] \<and> v \<notin> {''*'', ''-''} \<and> (\<exists>c \<in> set (py_lower v). ascii_digit c \<or> az c))"

record criterion =
  exact :: "string option"
  start_incl :: "string option"
  start_excl :: "string option"
  end_incl :: "string option"
  end_excl :: "string option"

text \<open>One bound of a range: nothing to check when it is missing or empty.\<close>

definition bound_ok :: "string \<Rightarrow> string option \<Rightarrow> (int \<Rightarrow> bool) \<Rightarrow> bool option" where
  "bound_ok version bound ok = (case bound of None \<Rightarrow> Some True
     | Some b \<Rightarrow> if b = [] then Some True else map_option ok (compare_versions version b))"

fun all_bounds :: "bool option list \<Rightarrow> bool option" where
  "all_bounds [] = Some True"
| "all_bounds (b # bs) = (case b of None \<Rightarrow> None | Some False \<Rightarrow> Some False | Some True \<Rightarrow> all_bounds bs)"

definition given :: "string option \<Rightarrow> bool" where
  "given b = (b \<noteq> None \<and> b \<noteq> Some [])"

definition cpe_matches :: "string option \<Rightarrow> criterion \<Rightarrow> bool option" where
  "cpe_matches version c =
     (if is_known (exact c)
      then (if is_known version then map_option (\<lambda>r. r = 0) (compare_versions (the version) (the (exact c)))
            else Some False)
      else if \<not> (given (start_incl c) \<or> given (start_excl c) \<or> given (end_incl c) \<or> given (end_excl c)) then Some True
      else if \<not> is_known version then Some False
      else let v = the version in all_bounds
        [bound_ok v (start_incl c) (\<lambda>r. \<not> r < 0), bound_ok v (start_excl c) (\<lambda>r. \<not> r \<le> 0),
         bound_ok v (end_incl c) (\<lambda>r. \<not> r > 0), bound_ok v (end_excl c) (\<lambda>r. \<not> r \<ge> 0)])"

section \<open>The order it computes\<close>

text \<open>End and 0 sit at the same place among the elements a key can hold.\<close>

lemma end_like_zero:
  "x \<noteq> End \<Longrightarrow> (x < Num 0) = (x < End)" "x \<noteq> End \<Longrightarrow> x \<noteq> Num 0 \<Longrightarrow> (Num 0 < x) = (End < x)"
  by (cases x; auto simp: less_elem_def)+

lemma elem_doubleton: "x \<noteq> End \<Longrightarrow> {x, End} = {End, Num 0} \<longleftrightarrow> x = Num 0" "x \<noteq> End \<Longrightarrow> {End, x} = {End, Num 0} \<longleftrightarrow> x = Num 0"
  "x \<noteq> End \<Longrightarrow> y \<noteq> End \<Longrightarrow> {x, y} \<noteq> {End, Num 0}"
  by (auto simp: doubleton_eq_iff)

definition proper :: "elem list \<Rightarrow> bool" where "proper k \<longleftrightarrow> End \<notin> set k"

lemma compare_loop_left: "proper ka \<Longrightarrow> compare_loop (zip ka (replicate (length ka) End)) = lexz (Num 0) ka []"
  by (induction ka) (auto simp: proper_def elem_doubleton end_like_zero not_less_iff_gr_or_eq)

lemma compare_loop_right: "proper kb \<Longrightarrow> compare_loop (zip (replicate (length kb) End) kb) = lexz (Num 0) [] kb"
  by (induction kb) (auto simp: proper_def elem_doubleton end_like_zero not_less_iff_gr_or_eq)

lemma compare_keys_Cons: "compare_keys (x # ka) (y # kb) =
    (if {x, y} = {End, Num 0} then compare_keys ka kb else if x \<noteq> y then (if x < y then -1 else 1) else compare_keys ka kb)"
  by (simp add: compare_keys_def Let_def)

lemma compare_keys_lexz: "proper ka \<Longrightarrow> proper kb \<Longrightarrow> compare_keys ka kb = lexz (Num 0) ka kb"
proof (induction "Num 0" ka kb rule: lexz.induct)
  case (2 x xs)
  then show ?case using compare_loop_left [of "x # xs"] by (simp add: compare_keys_def)
next
  case (3 y ys)
  then show ?case using compare_loop_right [of "y # ys"] by (simp add: compare_keys_def)
next
  case (4 x xs y ys)
  then show ?case by (auto simp: compare_keys_Cons elem_doubleton proper_def)
qed (simp add: compare_keys_def)

lemma elem_of_proper: "elem_of tok = Some e \<Longrightarrow> e \<noteq> End"
  by (auto simp: elem_of_def split: if_splits)

lemma those_set: "those xs = Some ys \<Longrightarrow> y \<in> set ys \<Longrightarrow> Some y \<in> set xs"
  by (induction xs arbitrary: ys) (auto split: option.splits)

lemma version_key_proper: "version_key v = Some k \<Longrightarrow> proper k"
  unfolding version_key_def proper_def by (auto dest!: those_set dest: elem_of_proper [OF sym])

definition key_or_empty :: "string \<Rightarrow> elem list" where
  "key_or_empty v = (case version_key v of None \<Rightarrow> [] | Some k \<Rightarrow> k)"

definition version_cmp :: "string \<Rightarrow> string \<Rightarrow> int" where
  "version_cmp a b = compare_keys (key_or_empty a) (key_or_empty b)"

lemma proper_key_or_empty [simp]: "proper (key_or_empty v)"
  using version_key_proper by (auto simp: key_or_empty_def proper_def split: option.splits)

interpretation cve: lex_keyed version_cmp key_or_empty "Num 0"
  by unfold_locales (simp add: version_cmp_def compare_keys_lexz)

definition has_key :: "string \<Rightarrow> bool" where "has_key v \<longleftrightarrow> version_key v \<noteq> None"

lemma compare_versions_eq:
  "compare_versions a b = (if has_key a \<and> has_key b then Some (version_cmp a b) else None)"
  by (auto simp: compare_versions_def has_key_def version_cmp_def key_or_empty_def split: option.splits)

lemma all_bounds_True: "all_bounds bs = Some True \<longleftrightarrow> (\<forall>b \<in> set bs. b = Some True)"
  by (induction bs) (auto split: option.splits bool.splits)

declare all_bounds.simps [simp del]

lemma bound_ok_True: "bound_ok v bound ok = Some True \<longleftrightarrow>
    (given bound \<longrightarrow> has_key v \<and> has_key (the bound) \<and> ok (version_cmp v (the bound)))"
  by (auto simp: bound_ok_def given_def compare_versions_eq split: option.splits)

text \<open>Everything a range lets through lies between its bounds, and the ends are read as written.\<close>

definition in_range :: "criterion \<Rightarrow> string \<Rightarrow> bool" where
  "in_range c v \<longleftrightarrow>
     (given (start_incl c) \<longrightarrow> has_key (the (start_incl c)) \<and> version_cmp (the (start_incl c)) v \<le> 0) \<and>
     (given (start_excl c) \<longrightarrow> has_key (the (start_excl c)) \<and> version_cmp (the (start_excl c)) v < 0) \<and>
     (given (end_incl c) \<longrightarrow> has_key (the (end_incl c)) \<and> version_cmp v (the (end_incl c)) \<le> 0) \<and>
     (given (end_excl c) \<longrightarrow> has_key (the (end_excl c)) \<and> version_cmp v (the (end_excl c)) < 0)"

lemma cpe_matches_range:
  assumes "\<not> is_known (exact c)" "is_known (Some v)" "has_key v"
  shows "cpe_matches (Some v) c = Some True \<longleftrightarrow> in_range c v"
  using assms cve.cmp_antisym [of v "the (start_incl c)"] cve.cmp_antisym [of v "the (start_excl c)"]
  by (auto simp: cpe_matches_def in_range_def all_bounds_True bound_ok_True Let_def)

lemma in_range_convex:
  assumes "in_range c a" "in_range c b" "version_cmp a v \<le> 0" "version_cmp v b \<le> 0"
  shows "in_range c v"
  using assms unfolding in_range_def
  by (meson cve.cmp_trans cve.cmp_lt_le_trans cve.cmp_le_lt_trans)

text \<open>
  A CPE criterion covers an interval of the version order: when two versions match a
  criterion, so does every known version that compares between them, whichever mixture of
  exact version and inclusive or exclusive ends the criterion has, and the test answers for
  it instead of failing.
\<close>

theorem cve_range_is_interval:
  assumes "cpe_matches (Some a) c = Some True" "cpe_matches (Some b) c = Some True"
    and "compare_versions a v = Some r" "r \<le> 0" "compare_versions v b = Some s" "s \<le> 0"
    and "is_known (Some v)"
  shows "cpe_matches (Some v) c = Some True"
proof -
  have keys: "has_key a" "has_key v" "has_key b" and av: "version_cmp a v \<le> 0" and vb: "version_cmp v b \<le> 0"
    using assms(3-6) by (auto simp: compare_versions_eq split: if_splits)
  consider (exact) "is_known (exact c)" | (any) "cpe_matches None c = Some True" "\<not> is_known (exact c)"
    | (range) "\<not> is_known (exact c)" "is_known (Some a)" "is_known (Some b)"
    using assms(1,2) by (fastforce simp: cpe_matches_def split: if_splits)
  then show ?thesis
  proof cases
    case exact
    then have "has_key (the (exact c))" "version_cmp a (the (exact c)) = 0" "version_cmp b (the (exact c)) = 0"
      using assms(1,2) by (auto simp: cpe_matches_def compare_versions_eq split: if_splits)
    moreover from this have "version_cmp v (the (exact c)) = 0"
      using av vb cve.cmp_trans [of v b "the (exact c)"] cve.cmp_trans [of "the (exact c)" a v]
        cve.cmp_antisym [of a "the (exact c)"] cve.cmp_antisym [of v "the (exact c)"] by linarith
    ultimately show ?thesis
      using exact assms(7) keys by (simp add: cpe_matches_def compare_versions_eq)
  next
    case any
    then show ?thesis by (simp add: cpe_matches_def is_known_def split: if_splits)
  next
    case range
    then show ?thesis
      using assms(1,2,7) keys in_range_convex [OF _ _ av vb] by (simp add: cpe_matches_range)
  qed
qed

text \<open>FortiOS 7.2.5 lies between 7.2.0 and 7.2.8 of a criterion that ends before 7.2.9.\<close>

definition forti_range :: criterion where
  "forti_range = \<lparr> exact = Some ''*'', start_incl = Some ''7.2.0'', start_excl = None, end_incl = None,
     end_excl = Some ''7.2.9'' \<rparr>"

theorem cve_range_is_interval_witness:
  "cpe_matches (Some ''7.2.5'') forti_range = Some True"
proof (rule cve_range_is_interval [where a = "''7.2''" and b = "''7.2.8''" and r = "-1" and s = "-1"])
qed code_simp+

end
