(* ===== verification/Scheduling.thy ===== *)
theory Scheduling
  imports Prelude
begin

text \<open>
  Scheduled jobs, \<^verbatim>\<open>modules/scheduling\<close>: the next run of a recurrence (\<^verbatim>\<open>recurrence.py\<close>),
  creating and changing jobs, claiming the due ones and recording a run (\<^verbatim>\<open>service.py\<close>).
  Several server processes may sweep at once: a sweep reads the due jobs and then claims
  them one by one with a conditional update, and \<open>sched_step\<close> interleaves the claims of any
  number of sweeps with runs that finish, changes of the jobs and the passing of time.
\<close>

section \<open>Recurrence\<close>

datatype sched_error = ValueError string | KeyError

text \<open>
  Days start at multiples of 24 hours since 1970-01-01, a Thursday;
  \<^verbatim>\<open>datetime.weekday()\<close> counts from Monday.
\<close>

definition day_of :: "datetime \<Rightarrow> int" where "day_of t = t div days 1"

definition weekday :: "datetime \<Rightarrow> int" where "weekday t = (day_of t + 3) mod 7"

text \<open>\<^verbatim>\<open>now.replace(minute=\<dots>, second=0, microsecond=0)\<close>, with or without an hour; a field out
  of range is a ValueError.\<close>

definition replace_minute :: "int \<Rightarrow> datetime \<Rightarrow> (sched_error, datetime) result" where
  "replace_minute minute now = (if 0 \<le> minute \<and> minute \<le> 59
     then Inr (now div hours 1 * hours 1 + minutes minute) else Inl (ValueError ''minute''))"

definition replace_hour_minute :: "int \<Rightarrow> int \<Rightarrow> datetime \<Rightarrow> (sched_error, datetime) result" where
  "replace_hour_minute hour minute now =
     (if \<not> (0 \<le> hour \<and> hour \<le> 23) then Inl (ValueError ''hour'')
      else if 0 \<le> minute \<and> minute \<le> 59
      then Inr (day_of now * days 1 + hours hour + minutes minute) else Inl (ValueError ''minute''))"

definition compute_next_run_at ::
  "string \<Rightarrow> int option \<Rightarrow> int \<Rightarrow> int option \<Rightarrow> datetime \<Rightarrow> (sched_error, datetime) result" where
  "compute_next_run_at recurrence hour minute day_of_week now =
     (if recurrence = ''hourly'' then
        res_bind (replace_minute minute now) (\<lambda>candidate.
          Inr (if candidate \<le> now then candidate + hours 1 else candidate))
      else if recurrence \<in> {''daily'', ''once''} then
        let h = (case hour of None \<Rightarrow> 0 | Some h \<Rightarrow> h) in
        res_bind (replace_hour_minute h minute now) (\<lambda>candidate.
          Inr (if candidate \<le> now then candidate + days 1 else candidate))
      else if recurrence = ''weekly'' then
        let h = (case hour of None \<Rightarrow> 0 | Some h \<Rightarrow> h);
            dow = (case day_of_week of None \<Rightarrow> 0 | Some d \<Rightarrow> d) in
        res_bind (replace_hour_minute h minute now) (\<lambda>candidate0.
          let days_ahead = (dow - weekday candidate0) mod 7;
              candidate = candidate0 + days days_ahead in
          Inr (if candidate \<le> now then candidate + days 7 else candidate))
      else Inl (ValueError ''Unknown recurrence''))"

text \<open>The instants a schedule names, said without computing the next one.\<close>

definition fires :: "string \<Rightarrow> int option \<Rightarrow> int \<Rightarrow> int option \<Rightarrow> datetime \<Rightarrow> bool" where
  "fires recurrence hour minute day_of_week t \<longleftrightarrow>
     (if recurrence = ''hourly'' then t mod hours 1 = minutes minute
      else t mod days 1 = hours (case hour of None \<Rightarrow> 0 | Some h \<Rightarrow> h) + minutes minute \<and>
        (recurrence = ''weekly'' \<longrightarrow> weekday t = (case day_of_week of None \<Rightarrow> 0 | Some d \<Rightarrow> d)))"

text \<open>The fields as the request schemas bound them.\<close>

definition schedule_ok :: "string \<Rightarrow> int option \<Rightarrow> int \<Rightarrow> int option \<Rightarrow> bool" where
  "schedule_ok recurrence hour minute day_of_week \<longleftrightarrow>
     recurrence \<in> {''once'', ''hourly'', ''daily'', ''weekly''} \<and>
     (case hour of None \<Rightarrow> True | Some h \<Rightarrow> 0 \<le> h \<and> h \<le> 23) \<and> 0 \<le> minute \<and> minute \<le> 59 \<and>
     (case day_of_week of None \<Rightarrow> True | Some d \<Rightarrow> 0 \<le> d \<and> d \<le> 6)"

text \<open>Within one period of length \<open>p\<close> the instants at offset \<open>o\<close>.\<close>

lemma next_in_period:
  fixes p now t :: int
  assumes "0 < p" "0 \<le> off" "off < p"
  defines "c \<equiv> now div p * p + off"
  defines "n \<equiv> (if c \<le> now then c + p else c)"
  shows "now < n" "n mod p = off" "now < t \<Longrightarrow> t mod p = off \<Longrightarrow> n \<le> t"
proof -
  have now: "now div p * p \<le> now" "now < now div p * p + p"
    using assms(1) pos_mod_bound [of p now] by (simp_all add: div_mult_mod_eq flip: minus_mod_eq_div_mult)
  show "now < n" using now assms(2) by (simp add: n_def c_def)
  show "n mod p = off" using assms(1-3) by (simp add: n_def c_def)
  assume t: "now < t" "t mod p = off"
  define q where "q = now div p"
  have tq: "t = t div p * p + off" using t(2) by (metis div_mult_mod_eq)
  show "n \<le> t"
  proof (cases "c \<le> now")
    case True
    then have "q * p < t div p * p" using t(1) tq by (simp add: c_def q_def)
    then have "q + 1 \<le> t div p" using assms(1) by (simp add: mult_less_cancel_right)
    then have "(q + 1) * p \<le> t div p * p" using assms(1) by (intro mult_right_mono) auto
    then show ?thesis using True tq by (simp add: n_def c_def q_def algebra_simps)
  next
    case False
    have "q \<le> t div p" using t(1) assms(1) by (simp add: q_def zdiv_mono1)
    then have "q * p \<le> t div p * p" using assms(1) by (intro mult_right_mono) auto
    then show ?thesis using False tq by (simp add: n_def c_def q_def)
  qed
qed

lemma days_ahead_residue:
  assumes "0 \<le> dow" "dow \<le> 6"
  shows "((q::int) + (dow - (q + 3) mod 7) mod 7 + 3) mod 7 = dow"
proof -
  have "(q + (dow - (q + 3) mod 7) mod 7 + 3) mod 7 = (q + 3 + (dow - (q + 3)) mod 7) mod 7"
    by (simp add: mod_diff_right_eq ac_simps)
  also have "\<dots> = (q + 3 + (dow - (q + 3))) mod 7" by (rule mod_add_right_eq)
  also have "\<dots> = dow" using assms by simp
  finally show ?thesis .
qed

lemma same_residue_after:
  fixes e f :: int
  assumes "(e + 3) mod 7 = (f + 3) mod 7" "f - 6 \<le> e"
  shows "e = f \<or> f + 7 \<le> e"
proof -
  obtain k where "e = f + 7 * k"
    using assms(1) by (metis add_diff_cancel_right diff_add_cancel add.commute mod_eq_dvd_iff dvdE)
  then show ?thesis using assms(2) by presburger
qed

lemma next_weekday:
  fixes day now t :: int
  assumes "0 < day" "0 \<le> off" "off < day" "0 \<le> dow" "dow \<le> 6"
  defines "a \<equiv> (dow - (now div day + 3) mod 7) mod 7"
  defines "c \<equiv> now div day * day + off + a * day"
  defines "n \<equiv> (if c \<le> now then c + 7 * day else c)"
  shows "now < n" "n mod day = off" "(n div day + 3) mod 7 = dow"
    "now < t \<Longrightarrow> t mod day = off \<Longrightarrow> (t div day + 3) mod 7 = dow \<Longrightarrow> n \<le> t"
proof -
  define q where "q = now div day"
  have now: "q * day \<le> now" "now < q * day + day"
    using assms(1) pos_mod_bound [of day now] by (simp_all add: q_def div_mult_mod_eq flip: minus_mod_eq_div_mult)
  have a: "0 \<le> a" "a \<le> 6" "(q + a + 3) mod 7 = dow"
    using days_ahead_residue [OF assms(4,5)] by (auto simp: a_def q_def)
  have c: "c = (q + a) * day + off" by (simp add: c_def q_def algebra_simps)
  have far: "0 < a \<Longrightarrow> now < c"
  proof -
    assume "0 < a"
    then have "(q + 1) * day \<le> (q + a) * day" using assms(1) by (intro mult_right_mono) auto
    then show "now < c" using now(2) assms(2) c by (simp add: algebra_simps)
  qed
  show "now < n"
    using far now(2) a(1) assms(1,2) by (cases "0 < a") (auto simp: n_def c)
  have n: "n = (q + a + (if c \<le> now then 7 else 0)) * day + off" by (simp add: n_def c algebra_simps)
  then have nd: "n div day = q + a + (if c \<le> now then 7 else 0)" using assms(1-3) by simp
  show "n mod day = off" using n assms(1-3) by simp
  have "(q + a + 7 + 3) mod 7 = (q + a + 3) mod 7" using mod_add_self2 [of "q + a + 3" 7] by (simp add: add.assoc)
  then show "(n div day + 3) mod 7 = dow" using nd a(3) by simp
  assume t: "now < t" "t mod day = off" "(t div day + 3) mod 7 = dow"
  define e where "e = t div day"
  have te: "t = e * day + off" using t(2) by (metis div_mult_mod_eq e_def)
  have "q \<le> e" using t(1) assms(1) by (simp add: q_def e_def zdiv_mono1)
  moreover have "(e + 3) mod 7 = (q + a + 3) mod 7" using t(3) a(3) by (simp add: e_def)
  ultimately have step: "e = q + a \<or> q + a + 7 \<le> e"
    using same_residue_after [of e "q + a"] a(1,2) by simp
  have "q + a + (if c \<le> now then 7 else 0) \<le> e"
    using step t(1) te c by auto
  then show "n \<le> t" unfolding n te using assms(1) by (simp add: mult_right_mono)
qed

lemma time_of_day:
  assumes "0 \<le> h" "h \<le> 23" "0 \<le> m" "m \<le> 59"
  shows "0 \<le> hours h + minutes m" "hours h + minutes m < days 1" "0 \<le> minutes m" "minutes m < hours 1"
  using assms by (auto simp: timedelta_defs)

lemma compute_next_first:
  assumes "schedule_ok recurrence hour minute day_of_week"
  shows "\<exists>n. compute_next_run_at recurrence hour minute day_of_week now = Inr n \<and> now < n \<and>
    fires recurrence hour minute day_of_week n \<and>
    (\<forall>t. now < t \<and> fires recurrence hour minute day_of_week t \<longrightarrow> n \<le> t)"
proof -
  define h where "h = (case hour of None \<Rightarrow> 0 | Some h \<Rightarrow> h)"
  define dow where "dow = (case day_of_week of None \<Rightarrow> 0 | Some d \<Rightarrow> d)"
  have ok: "0 \<le> h" "h \<le> 23" "0 \<le> minute" "minute \<le> 59" "0 \<le> dow" "dow \<le> 6"
    using assms by (auto simp: schedule_ok_def h_def dow_def split: option.splits)
  note tod = time_of_day [OF ok(1-4)]
  have pos: "0 < hours 1" "0 < days 1" by (simp_all add: timedelta_defs)
  consider "recurrence = ''hourly''" | "recurrence = ''daily'' \<or> recurrence = ''once''" | "recurrence = ''weekly''"
    using assms by (auto simp: schedule_ok_def)
  then show ?thesis
  proof cases
    case 1
    then show ?thesis
      using ok next_in_period [OF pos(1) tod(3,4), of now]
      by (auto simp: compute_next_run_at_def replace_minute_def fires_def Let_def split del: if_split)
  next
    case 2
    then show ?thesis
      using ok next_in_period [OF pos(2) tod(1,2), of now]
      by (auto simp: compute_next_run_at_def replace_hour_minute_def fires_def Let_def day_of_def add.assoc
          simp flip: h_def split del: if_split)
  next
    case 3
    have cand: "weekday (now div days 1 * days 1 + (hours h + minutes minute)) = (now div days 1 + 3) mod 7"
      using tod(1,2) pos(2) by (simp add: weekday_def day_of_def)
    let ?c = "now div days 1 * days 1 + (hours h + minutes minute) + (dow - (now div days 1 + 3) mod 7) mod 7 * days 1"
    have scale: "days 7 = 7 * days 1" "days ((dow - w) mod 7) = (dow - w) mod 7 * days 1" for w
      by (simp_all add: timedelta_defs)
    have "compute_next_run_at recurrence hour minute day_of_week now = Inr (if ?c \<le> now then ?c + 7 * days 1 else ?c)"
      using 3 ok cand scale
      by (simp add: compute_next_run_at_def replace_hour_minute_def Let_def day_of_def add.assoc flip: h_def dow_def)
    moreover have "fires recurrence hour minute day_of_week t \<longleftrightarrow>
        t mod days 1 = hours h + minutes minute \<and> (t div days 1 + 3) mod 7 = dow" for t
      using 3 by (simp add: fires_def weekday_def day_of_def flip: h_def dow_def)
    ultimately show ?thesis
      using next_weekday [OF pos(2) tod(1,2) ok(5,6), of now]
      by (intro exI [of _ "if ?c \<le> now then ?c + 7 * days 1 else ?c"]) (simp only: simp_thms, blast)
  qed
qed

text \<open>
  A job's next run is the first instant strictly after now that its schedule names: for a
  schedule within the bounds of the request schema the computation never fails, and its answer
  lies after now, is at the minute of the hour, the time of day or the weekday and time of day
  the recurrence asks for, and no earlier instant after now is.
\<close>

theorem next_run_is_first:
  assumes "schedule_ok recurrence hour minute day_of_week"
  shows "\<exists>n. compute_next_run_at recurrence hour minute day_of_week now = Inr n \<and> now < n \<and>
    fires recurrence hour minute day_of_week n \<and>
    (\<forall>t. now < t \<and> fires recurrence hour minute day_of_week t \<longrightarrow> n \<le> t)"
  using compute_next_first [OF assms] .

text \<open>2024-01-01 was a Monday; a weekly job on Mondays at 08:30 seen at 09:00 that day runs a week later.\<close>

theorem next_run_is_first_witness:
  "compute_next_run_at ''weekly'' (Some 8) 30 (Some 0) (days 19723 + hours 9) = Inr (days 19730 + hours 8 + minutes 30) \<and>
   days 19723 + hours 9 < days 19730 + hours 8 + minutes 30"
proof -
  obtain n where "compute_next_run_at ''weekly'' (Some 8) 30 (Some 0) (days 19723 + hours 9) = Inr n"
      "days 19723 + hours 9 < n"
    using next_run_is_first [of "''weekly''" "Some 8" 30 "Some 0" "days 19723 + hours 9"]
    by (auto simp: schedule_ok_def)
  then show ?thesis by (auto simp: compute_next_run_at_def replace_hour_minute_def weekday_def day_of_def timedelta_defs)
qed

section \<open>Jobs\<close>

text \<open>
  A row of \<^verbatim>\<open>scheduled_jobs\<close>; \<open>params\<close> is the content of the encrypted column.
\<close>

record job =
  j_id :: int
  job_name :: string
  job_type :: string
  technology :: "string option"
  asset_id :: "int option"
  group_id :: "int option"
  credential_profile_id :: "int option"
  concurrency :: "int option"
  params :: "(string \<times> json) list"
  recurrence :: string
  hour :: "int option"
  minute :: int
  day_of_week :: "int option"
  enabled :: bool
  next_run_at :: datetime
  last_run_at :: "datetime option"
  last_run_status :: "string option"
  last_run_message :: "string option"
  created_by :: "int option"

text \<open>
  What the service takes from other modules: the technologies with their required
  parameters (\<^verbatim>\<open>audit_dispatch\<close>, filled from the registry of benchmark modules), the device
  families with backups, the scan request's own validation and the execution of a job.
\<close>

record sched_env =
  required_params :: "string \<Rightarrow> string list option"
  families :: "string list"
  scan_request_error :: "(string \<times> json) list \<Rightarrow> string option"

record job_create =
  c_job_name :: string
  c_job_type :: string
  c_recurrence :: string
  c_hour :: "int option"
  c_minute :: int
  c_day_of_week :: "int option"
  c_enabled :: bool
  c_target :: "string option"
  c_scan_type :: "string option"
  c_ports :: "string option"
  c_protocol :: "string option"
  c_version_detection :: "bool option"
  c_technology :: "string option"
  c_asset_id :: "int option"
  c_audit_params :: "(string \<times> json) list option"
  c_group_id :: "int option"
  c_credential_profile_id :: "int option"
  c_concurrency :: "int option"
  c_audit_profile :: "string option"

text \<open>\<^verbatim>\<open>if x\<close> for an optional integer or text: given and not 0 or empty.\<close>

definition int_given :: "int option \<Rightarrow> bool" where "int_given x = (x \<noteq> None \<and> x \<noteq> Some 0)"

definition text_given :: "string option \<Rightarrow> bool" where "text_given x = (x \<noteq> None \<and> x \<noteq> Some [])"

definition jtext :: "string option \<Rightarrow> json" where
  "jtext x = (case x of None \<Rightarrow> JNull | Some s \<Rightarrow> JStr s)"

definition text_or :: "string option \<Rightarrow> string \<Rightarrow> string" where
  "text_or x d = (if text_given x then the x else d)"

definition discovery_params :: "job_create \<Rightarrow> (string \<times> json) list" where
  "discovery_params data =
     [(''job_name'', JStr (c_job_name data)), (''target'', jtext (c_target data)),
      (''scan_type'', JStr (text_or (c_scan_type data) ''well_known_ports'')), (''ports'', jtext (c_ports data)),
      (''protocol'', JStr (text_or (c_protocol data) ''TCP'')),
      (''version_detection'', JBool (c_version_detection data = Some True))]"

definition check_params :: "sched_env \<Rightarrow> string option \<Rightarrow> (string \<times> json) list \<Rightarrow> (sched_error, unit) result" where
  "check_params env tech ps =
     (case (case tech of None \<Rightarrow> None | Some t \<Rightarrow> required_params env t) of
        None \<Rightarrow> Inl KeyError
      | Some req \<Rightarrow> if \<exists>k \<in> set req. k \<notin> fst ` set ps
          then Inl (ValueError ''audit_params missing required field(s)'') else Inr ())"

definition validate_create :: "sched_env \<Rightarrow> job_create \<Rightarrow> (sched_error, unit) result" where
  "validate_create env data =
     res_bind
      (if c_job_type data = ''discovery'' then
         (if \<not> text_given (c_target data) then Inl (ValueError ''target is required for a discovery job'') else Inr ())
       else if c_job_type data = ''audit'' then
         (if \<not> text_given (c_technology data) \<or> required_params env (the (c_technology data)) = None
          then Inl (ValueError ''technology must be supported'')
          else if int_given (c_group_id data) then
            (if \<not> int_given (c_credential_profile_id data)
             then Inl (ValueError ''credential_profile_id is required for a group audit job'') else Inr ())
          else if \<not> int_given (c_asset_id data) then Inl (ValueError ''asset_id is required for an audit job'')
          else check_params env (c_technology data) (case c_audit_params data of None \<Rightarrow> [] | Some p \<Rightarrow> p))
       else if c_job_type data = ''backup'' then
         (if c_technology data = None \<or> the (c_technology data) \<notin> set (families env)
          then Inl (ValueError ''technology must be supported'')
          else if \<not> int_given (c_group_id data) \<or> \<not> int_given (c_credential_profile_id data)
          then Inl (ValueError ''group_id and credential_profile_id are required for a backup job'') else Inr ())
       else Inr ())
      (\<lambda>_. if c_recurrence data = ''weekly'' \<and> c_day_of_week data = None
        then Inl (ValueError ''day_of_week is required for a weekly recurrence'') else Inr ())"

definition create_params :: "sched_env \<Rightarrow> job_create \<Rightarrow>
    (sched_error, (string \<times> json) list \<times> string option \<times> int option) result" where
  "create_params env data =
     (if c_job_type data = ''discovery'' then
        (case scan_request_error env (discovery_params data) of
           Some e \<Rightarrow> Inl (ValueError e) | None \<Rightarrow> Inr (discovery_params data, None, None))
      else if c_job_type data = ''backup'' then Inr ([], c_technology data, None)
      else if int_given (c_group_id data) then
        Inr (if text_given (c_audit_profile data) then [(''profile'', jtext (c_audit_profile data))] else [],
          c_technology data, None)
      else Inr (case c_audit_params data of None \<Rightarrow> [] | Some p \<Rightarrow> p, c_technology data, c_asset_id data))"

definition create_job :: "sched_env \<Rightarrow> int \<Rightarrow> job_create \<Rightarrow> int \<Rightarrow> datetime \<Rightarrow> (sched_error, job) result" where
  "create_job env new_id data user_id now =
     res_bind (validate_create env data) (\<lambda>_.
     res_bind (create_params env data) (\<lambda>(ps, tech, asset).
     res_bind (compute_next_run_at (c_recurrence data) (c_hour data) (c_minute data) (c_day_of_week data) now) (\<lambda>n.
       Inr \<lparr> j_id = new_id, job_name = c_job_name data, job_type = c_job_type data, technology = tech,
         asset_id = asset,
         group_id = (if c_job_type data \<in> {''audit'', ''backup''} then c_group_id data else None),
         credential_profile_id = (if int_given (c_group_id data) then c_credential_profile_id data else None),
         concurrency = (if int_given (c_group_id data)
           then Some (if int_given (c_concurrency data) then the (c_concurrency data) else 10) else None),
         params = ps, recurrence = c_recurrence data, hour = c_hour data, minute = c_minute data,
         day_of_week = c_day_of_week data, enabled = c_enabled data, next_run_at = n,
         last_run_at = None, last_run_status = None, last_run_message = None, created_by = Some user_id \<rparr>)))"

record job_update =
  u_job_name :: "string option"
  u_recurrence :: "string option"
  u_hour :: "int option"
  u_minute :: "int option"
  u_day_of_week :: "int option"
  u_enabled :: "bool option"
  u_target :: "string option"
  u_scan_type :: "string option"
  u_ports :: "string option"
  u_protocol :: "string option"
  u_version_detection :: "bool option"
  u_audit_params :: "(string \<times> json) list option"
  u_credential_profile_id :: "int option"
  u_concurrency :: "int option"

definition given_or :: "'a option \<Rightarrow> 'a \<Rightarrow> 'a" where
  "given_or x d = (case x of None \<Rightarrow> d | Some y \<Rightarrow> y)"

definition schedule_changed :: "job_update \<Rightarrow> bool" where
  "schedule_changed data \<longleftrightarrow> u_recurrence data \<noteq> None \<or> u_hour data \<noteq> None \<or> u_minute data \<noteq> None \<or>
     u_day_of_week data \<noteq> None"

definition set_schedule :: "job_update \<Rightarrow> job \<Rightarrow> job" where
  "set_schedule data j = j\<lparr>
     job_name := given_or (u_job_name data) (job_name j), enabled := given_or (u_enabled data) (enabled j),
     recurrence := given_or (u_recurrence data) (recurrence j),
     hour := (if u_hour data = None then hour j else u_hour data),
     minute := given_or (u_minute data) (minute j),
     day_of_week := (if u_day_of_week data = None then day_of_week j else u_day_of_week data) \<rparr>"

definition put_text :: "string \<Rightarrow> string option \<Rightarrow> (string \<times> json) list \<Rightarrow> (string \<times> json) list" where
  "put_text k x ps = (case x of None \<Rightarrow> ps | Some s \<Rightarrow> AList.update k (JStr s) ps)"

definition update_discovery :: "sched_env \<Rightarrow> job_update \<Rightarrow> job \<Rightarrow> (sched_error, job) result" where
  "update_discovery env data j =
     (if job_type j = ''discovery'' \<and> (u_target data \<noteq> None \<or> u_scan_type data \<noteq> None \<or> u_ports data \<noteq> None \<or>
          u_protocol data \<noteq> None \<or> u_version_detection data \<noteq> None)
      then let cur = AList.update ''job_name'' (JStr (job_name j))
             ((case u_version_detection data of None \<Rightarrow> id | Some b \<Rightarrow> AList.update ''version_detection'' (JBool b))
               (put_text ''protocol'' (u_protocol data) (put_text ''ports'' (u_ports data)
                 (put_text ''scan_type'' (u_scan_type data) (put_text ''target'' (u_target data) (params j))))))
           in case scan_request_error env cur of Some e \<Rightarrow> Inl (ValueError e) | None \<Rightarrow> Inr (j\<lparr> params := cur \<rparr>)
      else Inr j)"

definition update_sign_in :: "sched_env \<Rightarrow> job_update \<Rightarrow> job \<Rightarrow> (sched_error, job) result" where
  "update_sign_in env data j =
     (if int_given (group_id j) then
        Inr (j\<lparr> credential_profile_id := (if u_credential_profile_id data = None then credential_profile_id j
                  else u_credential_profile_id data),
                concurrency := (if u_concurrency data = None then concurrency j else u_concurrency data) \<rparr>)
      else if job_type j = ''audit'' \<and> u_audit_params data \<noteq> None then
        let cur = AList.updates (map fst (the (u_audit_params data))) (map snd (the (u_audit_params data))) (params j)
        in res_bind (check_params env (technology j) cur) (\<lambda>_. Inr (j\<lparr> params := cur \<rparr>))
      else Inr j)"

definition update_job :: "sched_env \<Rightarrow> job_update \<Rightarrow> datetime \<Rightarrow> job \<Rightarrow> (sched_error, job) result" where
  "update_job env data now j0 =
     (let j = set_schedule data j0 in
      if recurrence j = ''weekly'' \<and> day_of_week j = None
      then Inl (ValueError ''day_of_week is required for a weekly recurrence'')
      else res_bind (update_discovery env data j) (\<lambda>j1. res_bind (update_sign_in env data j1) (\<lambda>j2.
        if schedule_changed data
        then res_bind (compute_next_run_at (recurrence j2) (hour j2) (minute j2) (day_of_week j2) now)
          (\<lambda>n. Inr (j2\<lparr> next_run_at := n \<rparr>))
        else Inr j2)))"

definition get_job :: "job list \<Rightarrow> int \<Rightarrow> job option" where
  "get_job jobs i = find (\<lambda>j. j_id j = i) jobs"

definition delete_job :: "job list \<Rightarrow> int \<Rightarrow> job list" where
  "delete_job jobs i = filter (\<lambda>j. j_id j \<noteq> i) jobs"

section \<open>Sweeps and runs\<close>

definition due_jobs :: "job list \<Rightarrow> datetime \<Rightarrow> job list" where
  "due_jobs jobs now = filter (\<lambda>j. enabled j \<and> next_run_at j \<le> now) jobs"

text \<open>What a claim writes, computed from the job as the sweep read it.\<close>

definition claim_values :: "datetime \<Rightarrow> job \<Rightarrow> (sched_error, job \<Rightarrow> job) result" where
  "claim_values now j =
     (if recurrence j = ''once'' then Inr (\<lambda>r. r\<lparr> enabled := False \<rparr>)
      else res_bind (compute_next_run_at (recurrence j) (hour j) (minute j) (day_of_week j) now)
        (\<lambda>n. Inr (\<lambda>r. r\<lparr> next_run_at := n \<rparr>)))"

text \<open>The conditional update: the rows it changes are those nobody moved since they were read.\<close>

definition untouched :: "job \<Rightarrow> job \<Rightarrow> bool" where
  "untouched j r \<longleftrightarrow> j_id r = j_id j \<and> enabled r \<and> next_run_at r = next_run_at j"

definition claim_one :: "datetime \<Rightarrow> job \<Rightarrow> job list \<Rightarrow> (sched_error, job list \<times> bool) result" where
  "claim_one now j jobs = res_bind (claim_values now j) (\<lambda>f.
     Inr (map (\<lambda>r. if untouched j r then f r else r) jobs, length (filter (untouched j) jobs) = 1))"

fun claim_all :: "datetime \<Rightarrow> job list \<Rightarrow> job list \<Rightarrow> int list \<Rightarrow> (sched_error, job list \<times> int list) result" where
  "claim_all now [] jobs claimed = Inr (jobs, claimed)"
| "claim_all now (j # js) jobs claimed = res_bind (claim_one now j jobs) (\<lambda>(jobs', won).
     claim_all now js jobs' (if won then claimed @ [j_id j] else claimed))"

definition claim_due_jobs :: "datetime \<Rightarrow> job list \<Rightarrow> (sched_error, job list \<times> int list) result" where
  "claim_due_jobs now jobs = claim_all now (due_jobs jobs now) jobs []"

text \<open>
  \<^verbatim>\<open>run_job_now\<close> from the job as it was loaded: the outcome of the execution is the
  reference of what it produced or the message of the exception. What is written to the
  row at the end, and the row of the run's history.
\<close>

record job_run =
  run_job_id :: int
  run_status :: string
  run_message :: "string option"
  result_ref :: "string option"
  finished_at :: datetime

definition run_record :: "datetime \<Rightarrow> string + string \<Rightarrow> job \<Rightarrow> job_run" where
  "run_record now outcome j = (case outcome of
       Inr ref \<Rightarrow> \<lparr> run_job_id = j_id j, run_status = ''success'', run_message = None, result_ref = Some ref, finished_at = now \<rparr>
     | Inl msg \<Rightarrow> \<lparr> run_job_id = j_id j, run_status = ''failed'', run_message = Some msg, result_ref = None, finished_at = now \<rparr>)"

definition run_job_now :: "datetime \<Rightarrow> string + string \<Rightarrow> job \<Rightarrow> (sched_error, (job \<Rightarrow> job) \<times> job_run) result" where
  "run_job_now now outcome j =
     res_bind (if recurrence j = ''once'' then Inr (\<lambda>r. r\<lparr> enabled := False \<rparr>)
         else res_bind (compute_next_run_at (recurrence j) (hour j) (minute j) (day_of_week j) now)
           (\<lambda>n. Inr (\<lambda>r. r\<lparr> next_run_at := n \<rparr>)))
       (\<lambda>f. Inr (\<lambda>r. f (r\<lparr> last_run_status := Some (run_status (run_record now outcome j)),
            last_run_message := run_message (run_record now outcome j), last_run_at := Some now \<rparr>),
          run_record now outcome j))"

section \<open>Any number of sweeps\<close>

text \<open>
  The table, the clock, the next id of the table's sequence, the sweeps under way (what
  each read and has not claimed yet, with the time it started at) and, as a record for the
  proofs, every claim made so far with the due time it was for.
\<close>

record sched =
  jobs :: "job list"
  clock :: datetime
  next_id :: int
  sweeps :: "nat \<Rightarrow> (datetime \<times> job list) option"
  claims :: "(int \<times> datetime) list"

definition create_data_ok :: "job_create \<Rightarrow> bool" where
  "create_data_ok data \<longleftrightarrow> schedule_ok (c_recurrence data) (c_hour data) (c_minute data) (c_day_of_week data)"

definition update_data_ok :: "job_update \<Rightarrow> bool" where
  "update_data_ok data \<longleftrightarrow>
     schedule_ok (given_or (u_recurrence data) ''daily'') (u_hour data) (given_or (u_minute data) 0) (u_day_of_week data)"

text \<open>A one-off job that has fired is switched on again only together with a new time.\<close>

definition rearms :: "job_update \<Rightarrow> job \<Rightarrow> bool" where
  "rearms data j \<longleftrightarrow> recurrence j = ''once'' \<and> \<not> enabled j \<and> u_enabled data = Some True \<and> \<not> schedule_changed data"

inductive sched_step :: "sched_env \<Rightarrow> sched \<Rightarrow> sched \<Rightarrow> bool" for env where
  tick: "clock s \<le> t \<Longrightarrow> sched_step env s (s\<lparr> clock := t \<rparr>)"
| sweep_reads: "sched_step env s (s\<lparr> sweeps := (sweeps s)(p \<mapsto> (clock s, due_jobs (jobs s) (clock s))) \<rparr>)"
| sweep_claims: "sweeps s p = Some (now, j # js) \<Longrightarrow> claim_one now j (jobs s) = Inr (rows, won) \<Longrightarrow>
    sched_step env s (s\<lparr> jobs := rows, sweeps := (sweeps s)(p \<mapsto> (now, js)),
      claims := claims s @ (if won then [(j_id j, next_run_at j)] else []) \<rparr>)"
| run_ends: "run_job_now (clock s) outcome j = Inr (f, r) \<Longrightarrow> schedule_ok (recurrence j) (hour j) (minute j) (day_of_week j) \<Longrightarrow>
    sched_step env s (s\<lparr> jobs := map (\<lambda>r. if j_id r = j_id j then f r else r) (jobs s) \<rparr>)"
| create: "create_data_ok data \<Longrightarrow> create_job env (next_id s) data user (clock s) = Inr j \<Longrightarrow>
    sched_step env s (s\<lparr> jobs := jobs s @ [j], next_id := next_id s + 1 \<rparr>)"
| update: "update_data_ok data \<Longrightarrow> j \<in> set (jobs s) \<Longrightarrow> \<not> rearms data j \<Longrightarrow> update_job env data (clock s) j = Inr j' \<Longrightarrow>
    sched_step env s (s\<lparr> jobs := map (\<lambda>r. if j_id r = j_id j then j' else r) (jobs s) \<rparr>)"
| delete: "sched_step env s (s\<lparr> jobs := delete_job (jobs s) i \<rparr>)"

definition sched_init :: "sched \<Rightarrow> bool" where
  "sched_init s \<longleftrightarrow> jobs s = [] \<and> claims s = [] \<and> (\<forall>p. sweeps s p = None)"

subsection \<open>Every stored job can be scheduled\<close>

definition job_ok :: "job \<Rightarrow> bool" where
  "job_ok j \<longleftrightarrow> schedule_ok (recurrence j) (hour j) (minute j) (day_of_week j) \<and>
     (recurrence j = ''weekly'' \<longrightarrow> day_of_week j \<noteq> None)"

lemma compute_later:
  assumes "schedule_ok rec h m d" "compute_next_run_at rec h m d now = Inr n"
  shows "now < n"
  using compute_next_first [OF assms(1), of now] assms(2) by auto

lemma create_job_Inr:
  assumes "create_job env i data user now = Inr j" "create_data_ok data"
  shows "j_id j = i" "job_ok j" "now < next_run_at j"
proof -
  obtain ps tech asset n where ok: "validate_create env data = Inr ()"
      and n: "compute_next_run_at (c_recurrence data) (c_hour data) (c_minute data) (c_day_of_week data) now = Inr n"
      and j: "j_id j = i" "recurrence j = c_recurrence data" "hour j = c_hour data" "minute j = c_minute data"
        "day_of_week j = c_day_of_week data" "next_run_at j = n"
    using assms(1) by (auto simp: create_job_def res_bind_Inr_iff)
  have weekly: "c_recurrence data = ''weekly'' \<Longrightarrow> c_day_of_week data \<noteq> None"
    using ok by (auto simp: validate_create_def res_bind_Inr_iff split: if_splits)
  show "j_id j = i" by (rule j)
  show "job_ok j" using weekly j assms(2) by (simp add: job_ok_def create_data_ok_def)
  show "now < next_run_at j"
    using compute_later [OF _ n] j assms(2) by (simp add: create_data_ok_def)
qed

text \<open>The last two stages of a change touch neither the schedule nor the identity.\<close>

definition same_schedule :: "job \<Rightarrow> job \<Rightarrow> bool" where
  "same_schedule a b \<longleftrightarrow> j_id a = j_id b \<and> recurrence a = recurrence b \<and> hour a = hour b \<and> minute a = minute b \<and>
     day_of_week a = day_of_week b \<and> enabled a = enabled b \<and> next_run_at a = next_run_at b"

lemma update_stages_schedule:
  "update_discovery env data j = Inr j' \<Longrightarrow> same_schedule j' j"
  "update_sign_in env data j = Inr j' \<Longrightarrow> same_schedule j' j"
  by (auto simp: update_discovery_def update_sign_in_def same_schedule_def Let_def res_bind_Inr_iff
      split: if_splits option.splits)

lemma set_schedule_ok:
  "update_data_ok data \<Longrightarrow> job_ok j \<Longrightarrow> recurrence (set_schedule data j) = ''weekly'' \<longrightarrow> day_of_week (set_schedule data j) \<noteq> None \<Longrightarrow>
   job_ok (set_schedule data j)"
  by (auto simp: update_data_ok_def job_ok_def set_schedule_def schedule_ok_def given_or_def split: option.splits)

lemma update_job_Inr:
  assumes "update_job env data now j = Inr j'" "update_data_ok data" "job_ok j"
  shows "j_id j' = j_id j" "job_ok j'"
    "schedule_changed data \<Longrightarrow> now < next_run_at j'"
    "\<not> schedule_changed data \<Longrightarrow> next_run_at j' = next_run_at j \<and> recurrence j' = recurrence j"
    "enabled j' = given_or (u_enabled data) (enabled j)"
proof -
  let ?j = "set_schedule data j"
  have w: "\<not> (recurrence ?j = ''weekly'' \<and> day_of_week ?j = None)"
    using assms(1) unfolding update_job_def Let_def by (metis Inl_Inr_False)
  with assms(1) have "res_bind (update_discovery env data ?j) (\<lambda>j1. res_bind (update_sign_in env data j1) (\<lambda>j2.
      if schedule_changed data
      then res_bind (compute_next_run_at (recurrence j2) (hour j2) (minute j2) (day_of_week j2) now)
        (\<lambda>n. Inr (j2\<lparr> next_run_at := n \<rparr>)) else Inr j2)) = Inr j'"
    unfolding update_job_def Let_def by (simp only: if_False)
  then obtain j1 j2 where st: "update_discovery env data ?j = Inr j1" "update_sign_in env data j1 = Inr j2"
      and last: "(if schedule_changed data
        then res_bind (compute_next_run_at (recurrence j2) (hour j2) (minute j2) (day_of_week j2) now)
          (\<lambda>n. Inr (j2\<lparr> next_run_at := n \<rparr>)) else Inr j2) = Inr j'"
    unfolding res_bind_Inr_iff [of "update_discovery env data ?j"] res_bind_Inr_iff [of "update_sign_in env data _"] by blast
  have same: "same_schedule j2 ?j"
    using update_stages_schedule(1) [OF st(1)] update_stages_schedule(2) [OF st(2)] by (simp add: same_schedule_def)
  have ok: "job_ok ?j" by (rule set_schedule_ok [OF assms(2,3)]) (use w in simp)
  have fields: "j_id ?j = j_id j" "next_run_at ?j = next_run_at j" "enabled ?j = given_or (u_enabled data) (enabled j)"
    "\<not> schedule_changed data \<Longrightarrow> recurrence ?j = recurrence j"
    by (simp_all add: set_schedule_def schedule_changed_def given_or_def)
  obtain n where j': "j' = (if schedule_changed data then j2\<lparr> next_run_at := n \<rparr> else j2)"
      and n: "schedule_changed data \<Longrightarrow> compute_next_run_at (recurrence j2) (hour j2) (minute j2) (day_of_week j2) now = Inr n"
    using last by (cases "schedule_changed data") (auto simp: res_bind_Inr_iff)
  show "j_id j' = j_id j" "job_ok j'" "enabled j' = given_or (u_enabled data) (enabled j)"
    using same ok fields(1-3) by (simp_all add: j' same_schedule_def job_ok_def)
  show "\<not> schedule_changed data \<Longrightarrow> next_run_at j' = next_run_at j \<and> recurrence j' = recurrence j"
    using same fields by (simp add: j' same_schedule_def)
  show "schedule_changed data \<Longrightarrow> now < next_run_at j'"
    using compute_later [OF _ n] same ok by (simp add: j' same_schedule_def job_ok_def)
qed

lemma claim_one_Inr:
  assumes "claim_one now j rows = Inr (rows', won)" "job_ok j"
  obtains f where "rows' = map (\<lambda>r. if untouched j r then f r else r) rows" "won = (length (filter (untouched j) rows) = 1)"
    "\<And>r. j_id (f r) = j_id r \<and> recurrence (f r) = recurrence r \<and> hour (f r) = hour r \<and> minute (f r) = minute r \<and>
       day_of_week (f r) = day_of_week r"
    "\<And>r. recurrence j = ''once'' \<Longrightarrow> next_run_at (f r) = next_run_at r \<and> \<not> enabled (f r)"
    "\<And>r. recurrence j \<noteq> ''once'' \<Longrightarrow> now < next_run_at (f r)"
proof -
  obtain f where f: "claim_values now j = Inr f"
      and r: "rows' = map (\<lambda>r. if untouched j r then f r else r) rows" "won = (length (filter (untouched j) rows) = 1)"
    using assms(1) by (auto simp: claim_one_def res_bind_Inr_iff)
  show thesis
  proof (cases "recurrence j = ''once''")
    case True
    then have "f = (\<lambda>r. r\<lparr> enabled := False \<rparr>)" using f by (simp add: claim_values_def)
    with True show thesis by (intro that [OF r]) simp_all
  next
    case False
    then obtain n where "compute_next_run_at (recurrence j) (hour j) (minute j) (day_of_week j) now = Inr n"
        "f = (\<lambda>r. r\<lparr> next_run_at := n \<rparr>)"
      using f by (auto simp: claim_values_def res_bind_Inr_iff)
    moreover from this(1) have "now < n" by (rule compute_later [rotated]) (use assms(2) in \<open>simp add: job_ok_def\<close>)
    ultimately show thesis using False by (intro that [OF r]) simp_all
  qed
qed

lemma run_job_now_Inr:
  assumes "run_job_now now outcome j = Inr (f, run)" "schedule_ok (recurrence j) (hour j) (minute j) (day_of_week j)"
  shows "j_id (f r) = j_id r \<and> recurrence (f r) = recurrence r \<and> hour (f r) = hour r \<and> minute (f r) = minute r \<and>
       day_of_week (f r) = day_of_week r"
    "next_run_at (f r) = next_run_at r \<and> \<not> enabled (f r) \<or> now < next_run_at (f r) \<and> enabled (f r) = enabled r"
  using assms compute_later [OF assms(2), of now]
  by (auto simp: run_job_now_def res_bind_Inr_iff split: if_splits)

subsection \<open>The invariant\<close>

text \<open>A row after the claims made for its job: it is due later, or it is a one-off that is switched off.\<close>

definition after_claims :: "(int \<times> datetime) list \<Rightarrow> job \<Rightarrow> bool" where
  "after_claims cs r \<longleftrightarrow> (\<forall>t. (j_id r, t) \<in> set cs \<longrightarrow>
     t < next_run_at r \<or> t = next_run_at r \<and> \<not> enabled r \<and> recurrence r = ''once'')"

definition rows_ok :: "sched \<Rightarrow> bool" where
  "rows_ok s \<longleftrightarrow> distinct (map j_id (jobs s)) \<and> (\<forall>r \<in> set (jobs s). job_ok r \<and> j_id r < next_id s \<and> after_claims (claims s) r)"

definition claims_ok :: "sched \<Rightarrow> bool" where
  "claims_ok s \<longleftrightarrow> distinct (claims s) \<and> (\<forall>(i, t) \<in> set (claims s). i < next_id s \<and> t \<le> clock s)"

text \<open>What a sweep has read: due when it was read, and since then its row was moved forward or
  is due at the same time with the same recurrence.\<close>

definition read_ok :: "datetime \<Rightarrow> job list \<Rightarrow> int \<Rightarrow> job \<Rightarrow> bool" where
  "read_ok now rows nid j \<longleftrightarrow> job_ok j \<and> next_run_at j \<le> now \<and> j_id j < nid \<and>
     (\<forall>r \<in> set rows. j_id r = j_id j \<longrightarrow> next_run_at j < next_run_at r \<or>
        next_run_at r = next_run_at j \<and> recurrence r = recurrence j)"

definition sweeps_ok :: "sched \<Rightarrow> bool" where
  "sweeps_ok s \<longleftrightarrow> (\<forall>p now js. sweeps s p = Some (now, js) \<longrightarrow> now \<le> clock s \<and>
     (\<forall>j \<in> set js. read_ok now (jobs s) (next_id s) j))"

definition sched_ok :: "sched \<Rightarrow> bool" where
  "sched_ok s \<longleftrightarrow> rows_ok s \<and> claims_ok s \<and> sweeps_ok s"

text \<open>
  One lemma for every change of rows: each keeps its id, and either keeps its due time and
  recurrence - and is not a fired one-off switched on - or is due after now.
\<close>

definition row_change :: "datetime \<Rightarrow> job \<Rightarrow> job \<Rightarrow> bool" where
  "row_change now r r' \<longleftrightarrow> j_id r' = j_id r \<and> job_ok r' \<and>
     (now < next_run_at r' \<or> next_run_at r' = next_run_at r \<and> recurrence r' = recurrence r \<and>
       (recurrence r = ''once'' \<and> \<not> enabled r \<longrightarrow> \<not> enabled r'))"

lemma after_claims_change:
  assumes "after_claims cs r" "row_change now r r'" "\<forall>(i, t) \<in> set cs. t \<le> now"
  shows "after_claims cs r'"
  using assms by (fastforce simp: after_claims_def row_change_def)

lemma map_rows_ids: "(\<And>r. r \<in> set rs \<Longrightarrow> j_id (g r) = j_id r) \<Longrightarrow> map j_id (map g rs) = map j_id rs"
  by simp

lemma change_rows_ok:
  assumes ok: "sched_ok s" and g: "\<And>r. r \<in> set (jobs s) \<Longrightarrow> row_change (clock s) r (g r)"
  shows "sched_ok (s\<lparr> jobs := map g (jobs s) \<rparr>)"
proof -
  have past: "\<forall>(i, t) \<in> set (claims s). t \<le> clock s" using ok by (auto simp: sched_ok_def claims_ok_def)
  have ids: "map j_id (map g (jobs s)) = map j_id (jobs s)" using g by (simp add: row_change_def)
  have rows: "job_ok (g r) \<and> j_id (g r) < next_id s \<and> after_claims (claims s) (g r)" if "r \<in> set (jobs s)" for r
    using that ok g [OF that] after_claims_change [OF _ g [OF that] past]
    by (auto simp: sched_ok_def rows_ok_def row_change_def)
  have reads: "read_ok now (map g (jobs s)) (next_id s) j"
    if "sweeps s p = Some (now, js)" "j \<in> set js" for p now js j
  proof -
    have j: "read_ok now (jobs s) (next_id s) j" "now \<le> clock s"
      using ok that by (auto simp: sched_ok_def sweeps_ok_def)
    have "next_run_at j < next_run_at (g r) \<or> next_run_at (g r) = next_run_at j \<and> recurrence (g r) = recurrence j"
      if "r \<in> set (jobs s)" "j_id (g r) = j_id j" for r
      using g [OF that(1)] j that by (fastforce simp: row_change_def read_ok_def)
    with j(1) show ?thesis by (auto simp: read_ok_def)
  qed
  show ?thesis
    using ok ids rows reads unfolding sched_ok_def rows_ok_def claims_ok_def sweeps_ok_def
    by (simp del: map_map)
qed

lemma delete_ok: "sched_ok s \<Longrightarrow> sched_ok (s\<lparr> jobs := delete_job (jobs s) i \<rparr>)"
  by (auto simp: sched_ok_def rows_ok_def claims_ok_def sweeps_ok_def read_ok_def delete_job_def distinct_map_filter)

lemma create_ok:
  assumes ok: "sched_ok s" and j: "j_id j = next_id s" "job_ok j" "clock s < next_run_at j"
  shows "sched_ok (s\<lparr> jobs := jobs s @ [j], next_id := next_id s + 1 \<rparr>)"
proof -
  have new: "after_claims (claims s) j" "j_id j \<notin> j_id ` set (jobs s)"
    using ok j(1) by (fastforce simp: after_claims_def sched_ok_def claims_ok_def rows_ok_def)+
  have "read_ok now (jobs s @ [j]) (next_id s + 1) k" if "read_ok now (jobs s) (next_id s) k" "now \<le> clock s" for now k
    using that j(3) by (auto simp: read_ok_def)
  then have "sweeps_ok (s\<lparr> jobs := jobs s @ [j], next_id := next_id s + 1 \<rparr>)"
    using ok by (simp add: sched_ok_def sweeps_ok_def)
  moreover have "rows_ok (s\<lparr> jobs := jobs s @ [j], next_id := next_id s + 1 \<rparr>)"
    using ok j new by (auto simp: sched_ok_def rows_ok_def)
  moreover have "claims_ok (s\<lparr> jobs := jobs s @ [j], next_id := next_id s + 1 \<rparr>)"
    using ok by (auto simp: sched_ok_def claims_ok_def)
  ultimately show ?thesis by (simp add: sched_ok_def)
qed

lemma untouched_one: "length (filter (untouched j) rows) = 1 \<Longrightarrow> \<exists>r \<in> set rows. untouched j r"
  by (cases "filter (untouched j) rows") (auto simp: filter_eq_Cons_iff)

text \<open>What a claim does to each row: nothing, or it moves the row past the due time it was read with.\<close>

definition moved :: "job \<Rightarrow> job \<Rightarrow> bool" where
  "moved j r' \<longleftrightarrow> next_run_at j < next_run_at r' \<or> next_run_at r' = next_run_at j \<and> \<not> enabled r' \<and> recurrence r' = ''once''"

lemma claim_change:
  assumes rd: "read_ok now rs nid j" and cl: "claim_one now j rs = Inr (rows, won)" and ok: "\<forall>r \<in> set rs. job_ok r"
  obtains g where "rows = map g rs" "won \<Longrightarrow> \<exists>r \<in> set rs. untouched j r"
    "\<And>r. r \<in> set rs \<Longrightarrow> j_id (g r) = j_id r \<and> job_ok (g r) \<and> recurrence (g r) = recurrence r \<and>
       (if untouched j r then moved j (g r) else g r = r)"
proof -
  have j: "job_ok j" "next_run_at j \<le> now" "\<And>r. r \<in> set rs \<Longrightarrow> untouched j r \<Longrightarrow> recurrence r = recurrence j"
    using rd by (auto simp: read_ok_def untouched_def)
  show thesis
  proof (rule claim_one_Inr [OF cl j(1)])
    fix f
    assume rows: "rows = map (\<lambda>r. if untouched j r then f r else r) rs" "won = (length (filter (untouched j) rs) = 1)"
      and f: "\<And>r. j_id (f r) = j_id r \<and> recurrence (f r) = recurrence r \<and> hour (f r) = hour r \<and> minute (f r) = minute r \<and>
         day_of_week (f r) = day_of_week r"
      "\<And>r. recurrence j = ''once'' \<Longrightarrow> next_run_at (f r) = next_run_at r \<and> \<not> enabled (f r)"
      "\<And>r. recurrence j \<noteq> ''once'' \<Longrightarrow> now < next_run_at (f r)"
    have fok: "job_ok (f r)" if "r \<in> set rs" for r
      using ok that f(1) [of r] by (auto simp: job_ok_def)
    have mv: "moved j (f r)" if "r \<in> set rs" "untouched j r" for r
      using f(1,2) [of r] f(3) [of r] j(2) j(3) [OF that] that(2)
      by (cases "recurrence j = ''once''") (auto simp: untouched_def moved_def)
    show thesis
      by (rule that [OF rows(1)]) (use untouched_one rows(2) fok mv f(1) ok in auto)
  qed
qed

lemma read_ok_claim:
  assumes "read_ok n rs nid k"
    and "\<And>r. r \<in> set rs \<Longrightarrow> j_id (g r) = j_id r \<and> recurrence (g r) = recurrence r \<and> (if untouched j r then moved j (g r) else g r = r)"
  shows "read_ok n (map g rs) nid k"
  using assms by (fastforce simp: read_ok_def moved_def untouched_def split: if_splits)

text \<open>A claim that wins is the first for its job and due time, and leaves the row behind all of them.\<close>

lemma claim_step_ok:
  assumes ok: "sched_ok s" and sw: "sweeps s p = Some (now, j # js)" and cl: "claim_one now j (jobs s) = Inr (rows, won)"
  shows "sched_ok (s\<lparr> jobs := rows, sweeps := (sweeps s)(p \<mapsto> (now, js)),
      claims := claims s @ (if won then [(j_id j, next_run_at j)] else []) \<rparr>)" (is "sched_ok ?t")
proof -
  have rd: "read_ok now (jobs s) (next_id s) j" and nc: "now \<le> clock s"
    using ok sw by (auto simp: sched_ok_def sweeps_ok_def)
  have dis: "distinct (map j_id (jobs s))"
    and row: "\<And>r. r \<in> set (jobs s) \<Longrightarrow> job_ok r \<and> j_id r < next_id s \<and> after_claims (claims s) r"
    using ok by (auto simp: sched_ok_def rows_ok_def)
  obtain g where rows: "rows = map g (jobs s)" and won: "won \<Longrightarrow> \<exists>r \<in> set (jobs s). untouched j r"
    and g: "\<And>r. r \<in> set (jobs s) \<Longrightarrow> j_id (g r) = j_id r \<and> job_ok (g r) \<and> recurrence (g r) = recurrence r \<and>
       (if untouched j r then moved j (g r) else g r = r)"
    using row by (auto intro: claim_change [OF rd cl])
  have fresh: "won \<Longrightarrow> (j_id j, next_run_at j) \<notin> set (claims s)"
    using won row by (fastforce simp: after_claims_def untouched_def)
  have after: "after_claims (claims ?t) (g r)" if r: "r \<in> set (jobs s)" for r
  proof -
    have "after_claims (claims s) (g r)"
      using g [OF r] row [OF r] by (fastforce simp: after_claims_def untouched_def moved_def split: if_splits)
    moreover have "moved j (g r)" if w: "won" and i: "j_id r = j_id j"
    proof -
      obtain q where "q \<in> set (jobs s)" "untouched j q" using won [OF w] by blast
      then have "untouched j r" using dis r i by (metis distinct_map inj_onD untouched_def)
      then show ?thesis using g [OF r] by simp
    qed
    ultimately show ?thesis using g [OF r] by (auto simp: after_claims_def moved_def)
  qed
  have "map j_id rows = map j_id (jobs s)" using g rows by simp
  then have "distinct (map j_id rows)" using dis by simp
  moreover have "\<forall>r \<in> set rows. job_ok r \<and> j_id r < next_id s \<and> after_claims (claims ?t) r"
    using after g row by (auto simp: rows)
  ultimately have "rows_ok ?t" by (simp add: rows_ok_def)
  moreover have "claims_ok ?t"
    using ok fresh rd nc by (auto simp: sched_ok_def claims_ok_def read_ok_def)
  moreover have "sweeps_ok ?t"
    using ok sw read_ok_claim [of _ "jobs s" "next_id s" _ g j] g
    by (auto simp: sched_ok_def sweeps_ok_def rows)
  ultimately show ?thesis by (simp add: sched_ok_def)
qed

lemma sched_step_ok: "sched_step env s t \<Longrightarrow> sched_ok s \<Longrightarrow> sched_ok t"
proof (induction rule: sched_step.induct)
  case (tick s t)
  then show ?case by (fastforce simp: sched_ok_def rows_ok_def claims_ok_def sweeps_ok_def)
next
  case (sweep_reads s p)
  then have "read_ok (clock s) (jobs s) (next_id s) j" if "j \<in> set (due_jobs (jobs s) (clock s))" for j
    using that by (auto simp: read_ok_def due_jobs_def sched_ok_def rows_ok_def distinct_map dest: inj_onD)
  with sweep_reads show ?case by (auto simp: sched_ok_def rows_ok_def claims_ok_def sweeps_ok_def)
next
  case (sweep_claims s p now j js rows won)
  then show ?case by (intro claim_step_ok)
next
  case (run_ends s outcome j f r)
  then have "row_change (clock s) r (if j_id r = j_id j then f r else r)" if "r \<in> set (jobs s)" for r
    using that run_job_now_Inr [OF run_ends(1,2), of r]
    by (auto simp: row_change_def sched_ok_def rows_ok_def job_ok_def)
  with run_ends show ?case by (intro change_rows_ok)
next
  case (create data s user j)
  then show ?case using create_job_Inr by (intro create_ok) blast+
next
  case (update data j s j')
  have j: "job_ok j" using update by (auto simp: sched_ok_def rows_ok_def)
  note u = update_job_Inr [OF update(4,1) j]
  have "row_change (clock s) r (if j_id r = j_id j then j' else r)" if "r \<in> set (jobs s)" for r
  proof (cases "j_id r = j_id j")
    case True
    then have "r = j" using that update by (auto simp: sched_ok_def rows_ok_def distinct_map dest: inj_onD)
    with u update(3) show ?thesis
      by (cases "schedule_changed data") (auto simp: row_change_def rearms_def given_or_def split: option.splits)
  qed (use that update in \<open>auto simp: row_change_def sched_ok_def rows_ok_def\<close>)
  with update show ?case by (intro change_rows_ok)
next
  case (delete s i)
  then show ?case by (intro delete_ok)
qed

interpretation schedule: invariant sched_init "sched_step env" sched_ok for env
proof
  show "sched_init s \<Longrightarrow> sched_ok s" for s
    by (simp add: sched_init_def sched_ok_def rows_ok_def claims_ok_def sweeps_ok_def)
qed (rule sched_step_ok)

text \<open>
  C10. A job is started at most once for each time it is due. Whatever sweeps several server
  processes run at the same time, interleaved with runs that end, with jobs that are created,
  changed and deleted and with the passing of time, no two claims are for the same job and due
  time - as long as a one-off job that has fired is switched on again only with a new time.
\<close>

theorem job_claimed_once:
  assumes "reach sched_init (sched_step env) s"
  shows "distinct (claims s)"
  using schedule.reach_inv [OF assms] by (simp add: sched_ok_def claims_ok_def)

text \<open>Two processes read the same due job; the second claim finds it moved.\<close>

definition demo_env :: sched_env where
  "demo_env = \<lparr> required_params = (\<lambda>_. None), families = [], scan_request_error = (\<lambda>_. None) \<rparr>"

definition demo_create :: job_create where
  "demo_create = \<lparr> c_job_name = ''nightly'', c_job_type = ''discovery'', c_recurrence = ''hourly'', c_hour = None,
     c_minute = 15, c_day_of_week = None, c_enabled = True, c_target = Some ''10.0.0.0/24'', c_scan_type = None,
     c_ports = None, c_protocol = None, c_version_detection = None, c_technology = None, c_asset_id = None,
     c_audit_params = None, c_group_id = None, c_credential_profile_id = None, c_concurrency = None,
     c_audit_profile = None \<rparr>"

definition demo_job :: job where
  "demo_job = \<lparr> j_id = 1, job_name = ''nightly'', job_type = ''discovery'', technology = None, asset_id = None,
     group_id = None, credential_profile_id = None, concurrency = None, params = discovery_params demo_create,
     recurrence = ''hourly'', hour = None, minute = 15, day_of_week = None, enabled = True,
     next_run_at = minutes 15, last_run_at = None, last_run_status = None, last_run_message = None, created_by = Some 7 \<rparr>"

definition start_sched :: sched where
  "start_sched = \<lparr> jobs = [], clock = 0, next_id = 1, sweeps = (\<lambda>_. None), claims = [] \<rparr>"

definition two_sweeps :: sched where
  "two_sweeps = \<lparr> jobs = [demo_job\<lparr> next_run_at := minutes 75 \<rparr>], clock = minutes 20, next_id = 2,
     sweeps = [0 \<mapsto> (minutes 20, []), 1 \<mapsto> (minutes 20, [])], claims = [(1, minutes 15)] \<rparr>"

lemma minutes_cancel [simp]: "minutes a = minutes b \<longleftrightarrow> a = b" "minutes a \<le> minutes b \<longleftrightarrow> a \<le> b" "0 \<le> minutes b \<longleftrightarrow> 0 \<le> b"
  by (auto simp: timedelta_defs)

lemma demo_job_simps [simp]: "j_id demo_job = 1" "recurrence demo_job = ''hourly''" "hour demo_job = None" "minute demo_job = 15"
  "day_of_week demo_job = None" "enabled demo_job" "next_run_at demo_job = minutes 15"
  by (simp_all add: demo_job_def)

lemma demo_created: "create_job demo_env 1 demo_create 7 0 = Inr demo_job"
  by (simp add: create_job_def validate_create_def create_params_def demo_create_def demo_env_def demo_job_def
      text_given_def int_given_def compute_next_run_at_def replace_minute_def timedelta_defs discovery_params_def)

lemma demo_next: "compute_next_run_at ''hourly'' None 15 None (minutes 20) = Inr (minutes 75)"
  by (simp add: compute_next_run_at_def replace_minute_def timedelta_defs)

lemma two_sweeps_reached: "reach sched_init (sched_step demo_env) two_sweeps"
proof -
  let ?R = "reach sched_init (sched_step demo_env)"
  let ?s = "\<lambda>rows t n w c. \<lparr> jobs = rows, clock = t, next_id = n, sweeps = w, claims = c \<rparr>"
  have "?R (?s [] 0 1 (\<lambda>_. None) [])" by (rule reach_init) (simp add: sched_init_def)
  then have "?R (?s [demo_job] 0 2 (\<lambda>_. None) [])"
    by (rule reach_step) (use sched_step.create [of demo_create demo_env "?s [] 0 1 (\<lambda>_. None) []" 7 demo_job] demo_created in
      \<open>simp add: create_data_ok_def schedule_ok_def demo_create_def\<close>)
  then have "?R (?s [demo_job] (minutes 20) 2 (\<lambda>_. None) [])"
    by (rule reach_step) (use sched_step.tick [of "?s [demo_job] 0 2 (\<lambda>_. None) []" "minutes 20" demo_env] in
      simp)
  then have "?R (?s [demo_job] (minutes 20) 2 [0 \<mapsto> (minutes 20, [demo_job])] [])"
    by (rule reach_step) (use sched_step.sweep_reads [of demo_env "?s [demo_job] (minutes 20) 2 (\<lambda>_. None) []" 0] in
      \<open>simp add: due_jobs_def\<close>)
  then have "?R (?s [demo_job] (minutes 20) 2 [0 \<mapsto> (minutes 20, [demo_job]), 1 \<mapsto> (minutes 20, [demo_job])] [])"
    by (rule reach_step) (use sched_step.sweep_reads [of demo_env "?s [demo_job] (minutes 20) 2 [0 \<mapsto> (minutes 20, [demo_job])] []" 1] in
      \<open>simp add: due_jobs_def\<close>)
  then have "?R (?s [demo_job\<lparr> next_run_at := minutes 75 \<rparr>] (minutes 20) 2
      [0 \<mapsto> (minutes 20, []), 1 \<mapsto> (minutes 20, [demo_job])] [(1, minutes 15)])"
    by (rule reach_step) (use sched_step.sweep_claims [of "?s [demo_job] (minutes 20) 2 [0 \<mapsto> (minutes 20, [demo_job]), 1 \<mapsto> (minutes 20, [demo_job])] []"
        0 "minutes 20" demo_job "[]" "[demo_job\<lparr> next_run_at := minutes 75 \<rparr>]" True demo_env] in
      \<open>simp add: claim_one_def claim_values_def demo_next untouched_def fun_upd_twist\<close>)
  then have "?R (?s [demo_job\<lparr> next_run_at := minutes 75 \<rparr>] (minutes 20) 2
      [0 \<mapsto> (minutes 20, []), 1 \<mapsto> (minutes 20, [])] [(1, minutes 15)])"
    by (rule reach_step) (use sched_step.sweep_claims [of "?s [demo_job\<lparr> next_run_at := minutes 75 \<rparr>] (minutes 20) 2 [0 \<mapsto> (minutes 20, []), 1 \<mapsto> (minutes 20, [demo_job])] [(1, minutes 15)]"
        1 "minutes 20" demo_job "[]" "[demo_job\<lparr> next_run_at := minutes 75 \<rparr>]" False demo_env] in
      \<open>simp add: claim_one_def claim_values_def demo_next untouched_def\<close>)
  then show ?thesis by (simp add: two_sweeps_def)
qed

theorem job_claimed_once_witness: "distinct (claims two_sweeps) \<and> claims two_sweeps = [(1, minutes 15)]"
  using job_claimed_once [OF two_sweeps_reached] by (simp add: two_sweeps_def)

subsection \<open>A sweep starts everything that is due\<close>

lemma filter_self: "distinct xs \<Longrightarrow> x \<in> set xs \<Longrightarrow> filter (\<lambda>y. y = x) xs = [x]"
  by (induction xs) (auto simp: filter_empty_conv)

lemma filter_untouched:
  assumes "distinct (map j_id rows)" "j \<in> set rows" "enabled j"
  shows "filter (untouched j) rows = [j]"
proof -
  have "filter (untouched j) rows = filter (\<lambda>r. r = j) rows"
    using assms by (intro filter_cong) (auto simp: untouched_def distinct_map dest: inj_onD)
  then show ?thesis using assms(1,2) filter_self by (auto simp: distinct_map)
qed

lemma claim_values_defined: "job_ok j \<Longrightarrow> \<exists>f. claim_values now j = Inr f"
  using compute_next_first [of "recurrence j" "hour j" "minute j" "day_of_week j" now]
  by (auto simp: claim_values_def job_ok_def)

lemma claim_values_moves:
  assumes "claim_values now j = Inr f" "job_ok j"
  shows "j_id (f r) = j_id r" "\<not> (enabled (f r) \<and> next_run_at (f r) \<le> now)"
  using assms compute_later [of "recurrence j" "hour j" "minute j" "day_of_week j" now]
  by (auto simp: claim_values_def res_bind_Inr_iff job_ok_def split: if_splits)

lemma claim_all_due:
  assumes "distinct (map j_id rows)" "distinct (map j_id js)"
    and "\<forall>j \<in> set js. j \<in> set rows \<and> enabled j \<and> next_run_at j \<le> now \<and> job_ok j"
  shows "\<exists>rows'. claim_all now js rows acc = Inr (rows', acc @ map j_id js) \<and>
    (\<forall>r \<in> set (due_jobs rows' now). r \<in> set rows \<and> r \<notin> set js)"
  using assms
proof (induction js arbitrary: rows acc)
  case (Cons j js)
  have j: "j \<in> set rows" "enabled j" "next_run_at j \<le> now" "job_ok j" using Cons.prems by auto
  obtain f where f: "claim_values now j = Inr f" using claim_values_defined [OF j(4)] by blast
  let ?rows = "map (\<lambda>r. if untouched j r then f r else r) rows"
  have one: "claim_one now j rows = Inr (?rows, True)"
    using f filter_untouched [OF Cons.prems(1) j(1,2)] by (simp add: claim_one_def)
  note fj = claim_values_moves [OF f j(4)]
  have only: "untouched j r \<longleftrightarrow> r = j" if "r \<in> set rows" for r
    using that Cons.prems(1) j by (auto simp: untouched_def distinct_map dest: inj_onD)
  have "distinct (map j_id ?rows)"
    using Cons.prems(1) fj(1) by (simp add: comp_def if_distrib cong: if_cong)
  moreover have "\<forall>k \<in> set js. k \<in> set ?rows \<and> enabled k \<and> next_run_at k \<le> now \<and> job_ok k"
    using Cons.prems(2,3) only by (force simp: image_iff)
  ultimately obtain rows' where r': "claim_all now js ?rows (acc @ [j_id j]) = Inr (rows', (acc @ [j_id j]) @ map j_id js)"
      "\<forall>r \<in> set (due_jobs rows' now). r \<in> set ?rows \<and> r \<notin> set js"
    using Cons.IH [of ?rows "acc @ [j_id j]"] Cons.prems(2) by auto
  have "r \<in> set rows \<and> r \<noteq> j" if "r \<in> set (due_jobs rows' now)" for r
    using that r'(2) only fj(2) j(1) by (fastforce simp: due_jobs_def)
  with r' show ?case by (auto simp: one)
qed (auto simp: due_jobs_def)

text \<open>
  A sweep starts every due job. In every state the system reaches, a sweep that is not
  disturbed never fails - the schedules stored are always computable - and claims exactly
  the enabled jobs whose time has come, in the order of the table; afterwards no job is due.
\<close>

theorem sweep_starts_all_due:
  assumes "reach sched_init (sched_step env) s"
  shows "\<exists>rows. claim_due_jobs (clock s) (jobs s) = Inr (rows, map j_id (due_jobs (jobs s) (clock s))) \<and>
    due_jobs rows (clock s) = []"
proof -
  have ok: "distinct (map j_id (jobs s))" "\<forall>j \<in> set (jobs s). job_ok j"
    using schedule.reach_inv [OF assms] by (auto simp: sched_ok_def rows_ok_def)
  have mem: "\<forall>j \<in> set (due_jobs (jobs s) (clock s)). j \<in> set (jobs s) \<and> enabled j \<and> next_run_at j \<le> clock s \<and> job_ok j"
    using ok(2) by (simp add: due_jobs_def)
  have "distinct (map j_id (due_jobs (jobs s) (clock s)))" using ok(1) by (simp add: due_jobs_def distinct_map_filter)
  then obtain rows where rows: "claim_due_jobs (clock s) (jobs s) = Inr (rows, map j_id (due_jobs (jobs s) (clock s)))"
      "\<forall>r \<in> set (due_jobs rows (clock s)). r \<in> set (jobs s) \<and> r \<notin> set (due_jobs (jobs s) (clock s))"
    using claim_all_due [OF ok(1), of "due_jobs (jobs s) (clock s)" "clock s" "[]"] mem
    unfolding claim_due_jobs_def append_Nil by blast
  then have "set (due_jobs rows (clock s)) = {}" by (auto simp: due_jobs_def)
  with rows(1) show ?thesis by simp
qed

theorem sweep_starts_all_due_witness:
  "\<exists>rows. claim_due_jobs (minutes 20) [demo_job\<lparr> next_run_at := minutes 75 \<rparr>] = Inr (rows, []) \<and> due_jobs rows (minutes 20) = []"
proof -
  have "due_jobs [demo_job\<lparr> next_run_at := minutes 75 \<rparr>] (minutes 20) = []" by (simp add: due_jobs_def)
  moreover have "clock two_sweeps = minutes 20" "jobs two_sweeps = [demo_job\<lparr> next_run_at := minutes 75 \<rparr>]"
    by (simp_all add: two_sweeps_def)
  ultimately show ?thesis using sweep_starts_all_due [OF two_sweeps_reached] by simp
qed

end
