(* ===== verification/Remediation.thy ===== *)
theory Remediation
  imports Two_Step
begin

text \<open>
  Remediation tracking, \<^verbatim>\<open>modules/remediation/service.py\<close>: one item per problem that any
  module reports, kept in line with the reports by \<open>sync\<close>, and risk acceptances that
  someone requests and someone else approves. What the modules report at one moment is the
  record \<open>report\<close>, an argument of \<open>sync\<close>. \<open>rem_step\<close> is every request on items and
  acceptances, every run of the synchronisation and the deletion of assets and accounts.
\<close>

section \<open>Data\<close>

datatype item_status = OPEN | IN_PROGRESS | PENDING_VERIFICATION | RESOLVED | ITEM_ACCEPTED

datatype acceptance_status = PENDING | APPROVED | REJECTED | EXPIRED | REVOKED

datatype scope = SCOPE_ITEM | SCOPE_REF

record item =
  it_id :: int
  it_key :: string
  it_source :: string
  it_ref :: string
  it_asset :: "int option"
  it_title :: string
  it_severity :: string
  it_kev :: bool
  it_status :: item_status
  it_owner :: "int option"
  it_due :: datetime
  it_due_custom :: bool
  it_acceptance :: "int option"
  it_first_seen :: datetime
  it_last_seen :: datetime
  it_resolved_at :: "datetime option"
  it_closed_reason :: "string option"
  it_reopened :: nat

record acceptance =
  ac_id :: int
  ac_scope :: scope
  ac_source :: string
  ac_ref :: string
  ac_item :: "int option"
  ac_asset :: "int option"
  ac_severity :: string
  ac_kev :: bool
  ac_justification :: string
  ac_expires :: datetime
  ac_status :: acceptance_status
  ac_requested_by :: "int option"
  ac_requested_at :: datetime
  ac_decided_by :: "int option"
  ac_decided_at :: "datetime option"
  ac_ended_by :: "int option"
  ac_ended_at :: "datetime option"

record event =
  ev_item :: int
  ev_kind :: string
  ev_user :: "int option"
  ev_at :: datetime

text \<open>A finding as the synchronisation sees it.\<close>

record found =
  fd_key :: string
  fd_source :: string
  fd_ref :: string
  fd_asset :: int
  fd_title :: string
  fd_severity :: string
  fd_kev :: bool
  fd_hardened :: bool
  fd_source_accepted :: bool

record report =
  cve_found :: "found list option"
  audit_found :: "found list"
  audited_assets :: "int list"
  by_policy :: "string list"
  arch_found :: "found list"
  eol_found :: "found list"
  tls_found :: "found list"
  owner_map :: "int \<Rightarrow> int option"
  asset_ids :: "int list"
  arch_rule_codes :: "string list"

record rem_db =
  items :: "item list"
  acceptances :: "acceptance list"
  events :: "event list"
  next_item :: int
  next_acceptance :: int
  sla_stored :: "(string \<times> int) list"
  accept_stored :: "(string \<times> int) list"
  user_ids :: "int list"

datatype rem_error = RemediationError string nat

section \<open>Settings\<close>

definition SEVERITIES :: "string list" where
  "SEVERITIES = [''critical'', ''high'', ''medium'', ''low'']"

definition DEFAULT_SLA :: "(string \<times> int) list" where
  "DEFAULT_SLA = [(''kev'', 7), (''critical'', 15), (''high'', 30), (''medium'', 90), (''low'', 180)]"

definition DEFAULT_ACCEPT_MAX :: "(string \<times> int) list" where
  "DEFAULT_ACCEPT_MAX = [(''kev'', 30), (''critical'', 30), (''high'', 90), (''medium'', 180), (''low'', 365)]"

definition over_defaults :: "(string \<times> int) list \<Rightarrow> (string \<times> int) list \<Rightarrow> string \<Rightarrow> int" where
  "over_defaults stored defaults k = (case map_of stored k of Some v \<Rightarrow> v | None \<Rightarrow> the (map_of defaults k))"

record settings =
  sla :: "string \<Rightarrow> int"
  accept_max :: "string \<Rightarrow> int"

definition get_settings :: "rem_db \<Rightarrow> settings" where
  "get_settings d = \<lparr> sla = over_defaults (sla_stored d) DEFAULT_SLA,
     accept_max = over_defaults (accept_stored d) DEFAULT_ACCEPT_MAX \<rparr>"

definition save_settings :: "(string \<times> int) list \<Rightarrow> (string \<times> int) list \<Rightarrow> rem_db \<Rightarrow> rem_db" where
  "save_settings sla_payload accept_payload d = d\<lparr> sla_stored := sla_payload, accept_stored := accept_payload \<rparr>"

definition band :: "string \<Rightarrow> bool \<Rightarrow> string" where
  "band severity kev = (if kev then ''kev'' else if severity \<in> set SEVERITIES then severity else ''medium'')"

definition sla_due :: "datetime \<Rightarrow> string \<Rightarrow> bool \<Rightarrow> settings \<Rightarrow> datetime" where
  "sla_due first_seen severity kev st = first_seen + days (sla st (band severity kev))"

definition accept_max_days :: "string \<Rightarrow> bool \<Rightarrow> settings \<Rightarrow> int" where
  "accept_max_days severity kev st = accept_max st (band severity kev)"

definition severity_of :: "string option \<Rightarrow> string" where
  "severity_of value = (let v = py_lower (py_strip (case value of None \<Rightarrow> [] | Some s \<Rightarrow> s)) in
     if v \<in> set SEVERITIES then v else if v = ''very_high'' then ''critical''
     else if v \<in> {''info'', ''informational'', ''none''} then ''low'' else ''medium'')"

section \<open>Synchronisation\<close>

definition ev :: "item \<Rightarrow> string \<Rightarrow> int option \<Rightarrow> datetime \<Rightarrow> event" where
  "ev it kind user t = \<lparr> ev_item = it_id it, ev_kind = kind, ev_user = user, ev_at = t \<rparr>"

text \<open>The later of two acceptances of one item or reference replaces the earlier, as in a dictionary.\<close>

definition active :: "datetime \<Rightarrow> acceptance \<Rightarrow> bool" where
  "active now a \<longleftrightarrow> ac_status a = APPROVED \<and> now < ac_expires a"

definition active_by_item :: "datetime \<Rightarrow> acceptance list \<Rightarrow> int \<Rightarrow> acceptance option" where
  "active_by_item now accs i = find (\<lambda>a. active now a \<and> ac_scope a = SCOPE_ITEM \<and> ac_item a = Some i \<and> i \<noteq> 0) (rev accs)"

definition active_by_ref :: "datetime \<Rightarrow> acceptance list \<Rightarrow> string \<Rightarrow> string \<Rightarrow> acceptance option" where
  "active_by_ref now accs src ref = find (\<lambda>a. active now a \<and> ac_scope a = SCOPE_REF \<and> ac_source a = src \<and> ac_ref a = ref) (rev accs)"

definition covering :: "datetime \<Rightarrow> acceptance list \<Rightarrow> item \<Rightarrow> acceptance option" where
  "covering now accs it = (case active_by_item now accs (it_id it) of
     Some a \<Rightarrow> Some a | None \<Rightarrow> active_by_ref now accs (it_source it) (it_ref it))"

definition expire_acceptances :: "datetime \<Rightarrow> acceptance list \<Rightarrow> acceptance list" where
  "expire_acceptances now accs = map (\<lambda>a. if ac_status a = APPROVED \<and> ac_expires a \<le> now
     then a\<lparr> ac_status := EXPIRED, ac_ended_at := Some now \<rparr> else a) accs"

definition new_item :: "settings \<Rightarrow> report \<Rightarrow> datetime \<Rightarrow> int \<Rightarrow> found \<Rightarrow> item" where
  "new_item st rep now i f =
     \<lparr> it_id = i, it_key = fd_key f, it_source = fd_source f, it_ref = fd_ref f, it_asset = Some (fd_asset f),
       it_title = fd_title f, it_severity = fd_severity f, it_kev = fd_kev f, it_status = OPEN,
       it_owner = owner_map rep (fd_asset f), it_due = sla_due now (fd_severity f) (fd_kev f) st,
       it_due_custom = False, it_acceptance = None, it_first_seen = now, it_last_seen = now,
       it_resolved_at = None, it_closed_reason = None, it_reopened = 0 \<rparr>"

definition new_events :: "datetime \<Rightarrow> item \<Rightarrow> event list" where
  "new_events now it = ev it ''created'' None now # (if it_owner it \<noteq> None then [ev it ''assigned'' None now] else [])"

definition reopen :: "settings \<Rightarrow> datetime \<Rightarrow> found \<Rightarrow> item \<Rightarrow> item" where
  "reopen st now f it =
     (if it_status it = RESOLVED
      then it\<lparr> it_status := OPEN, it_resolved_at := None, it_closed_reason := None, it_reopened := it_reopened it + 1,
             it_due := (if it_due_custom it then it_due it else sla_due now (fd_severity f) (fd_kev f) st) \<rparr>
      else it)"

definition reclassify :: "settings \<Rightarrow> found \<Rightarrow> item \<Rightarrow> item" where
  "reclassify st f it =
     (if (it_severity it, it_kev it) \<noteq> (fd_severity f, fd_kev f) \<and> \<not> it_due_custom it
      then it\<lparr> it_due := sla_due (it_first_seen it) (fd_severity f) (fd_kev f) st \<rparr> else it)"

definition refresh :: "settings \<Rightarrow> datetime \<Rightarrow> found \<Rightarrow> item \<Rightarrow> item" where
  "refresh st now f it = (reclassify st f (reopen st now f it))\<lparr>
     it_title := fd_title f, it_severity := fd_severity f, it_kev := fd_kev f, it_last_seen := now \<rparr>"

definition refresh_events :: "datetime \<Rightarrow> item \<Rightarrow> event list" where
  "refresh_events now it = (if it_status it = RESOLVED then [ev it ''reopened'' None now] else [])"

text \<open>The acceptance of a reported item: taken on, ended, or left alone; the events, and whether
  the risk score of the asset has to be recalculated.\<close>

definition settle :: "settings \<Rightarrow> datetime \<Rightarrow> acceptance list \<Rightarrow> found \<Rightarrow> item \<Rightarrow> item \<times> event list \<times> bool" where
  "settle st now accs f it =
     (case covering now accs it of
        Some a \<Rightarrow>
          if it_status it \<noteq> ITEM_ACCEPTED \<or> it_acceptance it \<noteq> Some (ac_id a)
          then (it\<lparr> it_status := ITEM_ACCEPTED, it_acceptance := Some (ac_id a) \<rparr>, [ev it ''accepted'' None now], True)
          else (it, [], False)
      | None \<Rightarrow>
          if fd_source_accepted f then
            (if it_status it \<noteq> ITEM_ACCEPTED \<or> it_acceptance it \<noteq> None
             then (it\<lparr> it_status := ITEM_ACCEPTED, it_acceptance := None \<rparr>, [ev it ''accepted_in_source'' None now], False)
             else (it, [], False))
          else if it_status it = ITEM_ACCEPTED then
            (it\<lparr> it_status := OPEN, it_acceptance := None,
               it_due := (if it_due_custom it then it_due it
                 else max (sla_due (it_first_seen it) (it_severity it) (it_kev it) st) now) \<rparr>,
             [ev it ''acceptance_ended'' None now], True)
          else if fd_hardened f \<and> it_status it \<in> {OPEN, IN_PROGRESS} then
            (it\<lparr> it_status := PENDING_VERIFICATION \<rparr>, [ev it ''hardened'' None now], False)
          else (it, [], False))"

record loop =
  l_items :: "item list"
  l_events :: "event list"
  l_next :: int
  l_touched :: "int option list"
  l_seen :: "string list"

definition put_item :: "item \<Rightarrow> item list \<Rightarrow> item list" where
  "put_item it its = (if \<exists>x \<in> set its. it_key x = it_key it
     then map (\<lambda>x. if it_key x = it_key it then it else x) its else its @ [it])"

definition sync_found :: "settings \<Rightarrow> report \<Rightarrow> datetime \<Rightarrow> acceptance list \<Rightarrow> found \<Rightarrow> loop \<Rightarrow> loop" where
  "sync_found st rep now accs f l =
     (if fd_key f \<in> set (l_seen l) then l
      else let (it, evs, n) = (case find (\<lambda>x. it_key x = fd_key f) (l_items l) of
                 None \<Rightarrow> (let it = new_item st rep now (l_next l) f in (it, new_events now it, l_next l + 1))
               | Some x \<Rightarrow> (refresh st now f x, refresh_events now x, l_next l));
               (it', evs', touched) = settle st now accs f it
           in l\<lparr> l_items := put_item it' (l_items l), l_events := l_events l @ evs @ evs', l_next := n,
                 l_touched := (if touched then it_asset it' # l_touched l else l_touched l),
                 l_seen := fd_key f # l_seen l \<rparr>)"

definition all_found :: "report \<Rightarrow> found list" where
  "all_found rep = (case cve_found rep of None \<Rightarrow> [] | Some fs \<Rightarrow> fs) @ audit_found rep @ arch_found rep @ eol_found rep @ tls_found rep"

definition checked :: "report \<Rightarrow> string list" where
  "checked rep = (if cve_found rep = None then [] else [''cve'']) @ [''audit'', ''arch'', ''eol'', ''tls'']"

text \<open>Why an item that is no longer reported is closed; \<open>None\<close>: its source was not asked.\<close>

definition close_reason :: "report \<Rightarrow> item \<Rightarrow> string option" where
  "close_reason rep it =
     (if it_asset it = None \<or> the (it_asset it) \<notin> set (asset_ids rep) then Some ''asset_deleted''
      else if it_source it \<notin> set (checked rep) then None
      else if it_source it = ''audit'' \<and> the (it_asset it) \<notin> set (audited_assets rep) then Some ''no_data''
      else if it_key it \<in> set (by_policy rep) then Some ''by_policy''
      else if it_source it = ''arch'' \<and> it_ref it \<notin> set (arch_rule_codes rep) then Some ''rule_retired''
      else Some ''fixed'')"

definition close_item :: "report \<Rightarrow> datetime \<Rightarrow> string list \<Rightarrow> item \<Rightarrow> item" where
  "close_item rep now seen it =
     (if it_key it \<in> set seen \<or> it_status it = RESOLVED then it
      else case close_reason rep it of None \<Rightarrow> it
      | Some reason \<Rightarrow> it\<lparr> it_status := RESOLVED, it_resolved_at := Some now, it_closed_reason := Some reason,
          it_acceptance := None \<rparr>)"

definition close_events :: "report \<Rightarrow> datetime \<Rightarrow> string list \<Rightarrow> item \<Rightarrow> event list" where
  "close_events rep now seen it = (if close_item rep now seen it = it then [] else [ev it ''resolved'' None now])"

definition sync_loop :: "report \<Rightarrow> datetime \<Rightarrow> rem_db \<Rightarrow> loop" where
  "sync_loop rep now d = fold (sync_found (get_settings d) rep now (expire_acceptances now (acceptances d))) (all_found rep)
     \<lparr> l_items = items d, l_events = [], l_next = next_item d, l_touched = [], l_seen = [] \<rparr>"

text \<open>The new tables and the assets whose risk score is recalculated.\<close>

definition sync :: "report \<Rightarrow> datetime \<Rightarrow> rem_db \<Rightarrow> rem_db \<times> int list" where
  "sync rep now d =
     (let l = sync_loop rep now d;
          closed = filter (\<lambda>it. close_item rep now (l_seen l) it \<noteq> it \<and> it_status it = ITEM_ACCEPTED) (l_items l)
      in (d\<lparr> items := map (close_item rep now (l_seen l)) (l_items l),
             acceptances := expire_acceptances now (acceptances d),
             events := events d @ l_events l @ concat (map (close_events rep now (l_seen l)) (l_items l)),
             next_item := l_next l \<rparr>,
          filter (\<lambda>a. a \<noteq> 0) (remdups (List.map_filter id (l_touched l @ map it_asset closed)))))"

section \<open>Changes by hand\<close>

text \<open>
  The arguments of \<^verbatim>\<open>update_item\<close>; \<open>None\<close> where the caller left one out (\<^verbatim>\<open>\<dots>\<close>).
\<close>

record item_change =
  ch_owner :: "int option option"
  ch_due :: "datetime option option"
  ch_status :: "item_status option"
  ch_note :: string

definition change_owner :: "rem_db \<Rightarrow> item_change \<Rightarrow> user \<Rightarrow> datetime \<Rightarrow> item \<Rightarrow> (rem_error, item \<times> event list) result" where
  "change_owner d ch u now it = (case ch_owner ch of None \<Rightarrow> Inr (it, [])
     | Some own \<Rightarrow>
         if own \<noteq> None \<and> the own \<notin> set (user_ids d) then Inl (RemediationError ''That user does not exist'' 400)
         else if own \<noteq> it_owner it then Inr (it\<lparr> it_owner := own \<rparr>, [ev it ''assigned'' (Some (u_id u)) now])
         else Inr (it, []))"

definition change_due :: "settings \<Rightarrow> item_change \<Rightarrow> user \<Rightarrow> datetime \<Rightarrow> item \<Rightarrow> item \<times> event list" where
  "change_due st ch u now it = (case ch_due ch of None \<Rightarrow> (it, [])
     | Some None \<Rightarrow> (it\<lparr> it_due_custom := False, it_due := sla_due (it_first_seen it) (it_severity it) (it_kev it) st \<rparr>,
         [ev it ''due_changed'' (Some (u_id u)) now])
     | Some (Some t) \<Rightarrow> (it\<lparr> it_due_custom := True, it_due := t \<rparr>, [ev it ''due_changed'' (Some (u_id u)) now]))"

definition change_status :: "item_change \<Rightarrow> user \<Rightarrow> datetime \<Rightarrow> item \<Rightarrow> (rem_error, item \<times> event list) result" where
  "change_status ch u now it = (case ch_status ch of None \<Rightarrow> Inr (it, [])
     | Some st \<Rightarrow>
         if st = it_status it then Inr (it, [])
         else if it_status it \<in> {RESOLVED, ITEM_ACCEPTED}
         then Inl (RemediationError ''This finding is closed; its status follows its source or its risk acceptance'' 400)
         else if st \<notin> {OPEN, IN_PROGRESS, PENDING_VERIFICATION}
         then Inl (RemediationError ''A finding is resolved by the next audit or CVE check, not by hand'' 400)
         else Inr (it\<lparr> it_status := st \<rparr>, [ev it ''status'' (Some (u_id u)) now]))"

definition update_item :: "item_change \<Rightarrow> user \<Rightarrow> datetime \<Rightarrow> item \<Rightarrow> rem_db \<Rightarrow> (rem_error, rem_db) result" where
  "update_item ch u now it d =
     res_bind (change_owner d ch u now it) (\<lambda>(it1, e1).
       let (it2, e2) = change_due (get_settings d) ch u now it1 in
       res_bind (change_status ch u now it2) (\<lambda>(it3, e3).
         let e4 = (if ch_note ch \<noteq> [] then [ev it3 ''note'' (Some (u_id u)) now] else []) in
         Inr (d\<lparr> items := map (\<lambda>x. if it_id x = it_id it then it3 else x) (items d),
                events := events d @ e1 @ e2 @ e3 @ e4 \<rparr>)))"

section \<open>Risk acceptance\<close>

definition covering_pending :: "item \<Rightarrow> scope \<Rightarrow> rem_db \<Rightarrow> acceptance option" where
  "covering_pending it sc d = find (\<lambda>a. ac_status a \<in> {PENDING, APPROVED} \<and> ac_scope a = sc \<and>
     (if sc = SCOPE_ITEM then ac_item a = Some (it_id it)
      else ac_source a = it_source it \<and> ac_ref a = it_ref it)) (acceptances d)"

definition request_acceptance ::
  "item \<Rightarrow> user \<Rightarrow> scope \<Rightarrow> string \<Rightarrow> datetime \<Rightarrow> datetime \<Rightarrow> rem_db \<Rightarrow> (rem_error, rem_db) result" where
  "request_acceptance it u sc justification expires now d =
     (if it_status it = RESOLVED then Inl (RemediationError ''This finding is already resolved'' 400)
      else if py_strip justification = [] then Inl (RemediationError ''A justification is required'' 400)
      else let max_days = accept_max_days (it_severity it) (it_kev it) (get_settings d) in
      if expires \<le> now then Inl (RemediationError ''The end date must be in the future'' 400)
      else if expires > now + (days max_days + hours 12)
      then Inl (RemediationError ''This finding can be accepted for a limited time only'' 400)
      else if covering_pending it sc d \<noteq> None
      then Inl (RemediationError ''A risk acceptance for this is already pending or active'' 409)
      else Inr (d\<lparr> acceptances := acceptances d @ [\<lparr> ac_id = next_acceptance d, ac_scope = sc, ac_source = it_source it,
               ac_ref = it_ref it, ac_item = (if sc = SCOPE_ITEM then Some (it_id it) else None),
               ac_asset = (if sc = SCOPE_ITEM then it_asset it else None), ac_severity = it_severity it,
               ac_kev = it_kev it, ac_justification = take 4000 (py_strip justification), ac_expires = expires,
               ac_status = PENDING, ac_requested_by = Some (u_id u), ac_requested_at = now, ac_decided_by = None,
               ac_decided_at = None, ac_ended_by = None, ac_ended_at = None \<rparr>],
             next_acceptance := next_acceptance d + 1,
             events := events d @ [ev it ''acceptance_requested'' (Some (u_id u)) now] \<rparr>))"

definition can_decide :: "user \<Rightarrow> acceptance \<Rightarrow> string option" where
  "can_decide u a =
     (if role u \<notin> {ADMIN, MANAGER} then Some ''Only administrators and managers can decide on a risk acceptance''
      else if ac_requested_by a = Some (u_id u) then Some ''You cannot decide on your own request''
      else if (ac_kev a \<or> ac_severity a = ''critical'') \<and> role u \<noteq> ADMIN
      then Some ''Only an administrator can accept a critical or known-exploited finding''
      else None)"

definition items_of :: "acceptance \<Rightarrow> rem_db \<Rightarrow> item list" where
  "items_of a d = (if ac_scope a = SCOPE_ITEM
     then (case ac_item a of None \<Rightarrow> [] | Some i \<Rightarrow> if i = 0 then [] else filter (\<lambda>it. it_id it = i) (items d))
     else filter (\<lambda>it. it_source it = ac_source a \<and> it_ref it = ac_ref a) (items d))"

definition put_acceptance :: "acceptance \<Rightarrow> acceptance list \<Rightarrow> acceptance list" where
  "put_acceptance a accs = map (\<lambda>x. if ac_id x = ac_id a then a else x) accs"

text \<open>The decision at time \<open>now\<close> and, after an approval, the synchronisation at time \<open>later\<close>
  with what the modules then report.\<close>

definition decide_acceptance ::
  "acceptance \<Rightarrow> user \<Rightarrow> bool \<Rightarrow> datetime \<Rightarrow> report \<Rightarrow> datetime \<Rightarrow> rem_db \<Rightarrow> (rem_error, rem_db) result" where
  "decide_acceptance a u approve now rep later d =
     (if ac_status a \<noteq> PENDING then Inl (RemediationError ''This request has already been decided'' 400)
      else case can_decide u a of Some reason \<Rightarrow> Inl (RemediationError reason 403)
      | None \<Rightarrow>
        if approve \<and> ac_expires a \<le> now
        then Inl (RemediationError ''The requested end date has already passed; ask for a new request'' 400)
        else let a' = a\<lparr> ac_status := (if approve then APPROVED else REJECTED), ac_decided_by := Some (u_id u),
                   ac_decided_at := Some now \<rparr>;
                 d' = d\<lparr> acceptances := put_acceptance a' (acceptances d),
                   events := events d @ map (\<lambda>it. ev it (if approve then ''acceptance_approved'' else ''acceptance_rejected'')
                     (Some (u_id u)) now) (items_of a d) \<rparr>
             in Inr (if approve then fst (sync rep later d') else d'))"

definition can_withdraw :: "user \<Rightarrow> acceptance \<Rightarrow> bool" where
  "can_withdraw u a = (if ac_requested_by a = Some (u_id u) then ac_status a \<in> {PENDING, APPROVED}
     else ac_status a = APPROVED \<and> role u \<in> {ADMIN, MANAGER})"

definition end_acceptance ::
  "acceptance \<Rightarrow> user \<Rightarrow> datetime \<Rightarrow> report \<Rightarrow> datetime \<Rightarrow> rem_db \<Rightarrow> (rem_error, rem_db) result" where
  "end_acceptance a u now rep later d =
     (if ac_status a \<notin> {APPROVED, PENDING}
      then Inl (RemediationError ''Only a pending or active risk acceptance can be withdrawn'' 400)
      else if \<not> can_withdraw u a then
        (if ac_status a = PENDING
         then Inl (RemediationError ''Only the requester can cancel a pending request; reject it instead'' 403)
         else Inl (RemediationError ''Only the requester, an administrator or a manager can withdraw this'' 403))
      else let a' = a\<lparr> ac_status := REVOKED, ac_ended_by := Some (u_id u), ac_ended_at := Some now \<rparr>;
               d' = d\<lparr> acceptances := put_acceptance a' (acceptances d) \<rparr>
           in Inr (if ac_status a = APPROVED then fst (sync rep later d') else d'))"

text \<open>Refs of an asset that an approved acceptance keeps out of its risk score.\<close>

definition accepted_refs :: "int \<Rightarrow> string \<Rightarrow> rem_db \<Rightarrow> string list" where
  "accepted_refs asset source d = map (\<lambda>it. drop (length (source @ '':'' @ str_of_int asset @ '':'')) (it_key it))
     (filter (\<lambda>it. it_asset it = Some asset \<and> it_source it = source \<and> it_status it = ITEM_ACCEPTED \<and>
        it_acceptance it \<noteq> None) (items d))"

text \<open>What the tables' foreign keys do when an asset or an account is deleted.\<close>

definition asset_deleted :: "int \<Rightarrow> rem_db \<Rightarrow> rem_db" where
  "asset_deleted a d =
     (let gone = map ac_id (filter (\<lambda>x. ac_asset x = Some a) (acceptances d)) in
      d\<lparr> acceptances := filter (\<lambda>x. ac_asset x \<noteq> Some a) (acceptances d),
         items := map (\<lambda>it. it\<lparr> it_asset := (if it_asset it = Some a then None else it_asset it),
           it_acceptance := (case it_acceptance it of None \<Rightarrow> None | Some i \<Rightarrow> if i \<in> set gone then None else Some i) \<rparr>) (items d) \<rparr>)"

definition user_deleted :: "int \<Rightarrow> rem_db \<Rightarrow> rem_db" where
  "user_deleted u d =
     (let forget = (\<lambda>x. if x = Some u then None else x) in
      d\<lparr> user_ids := filter (\<lambda>x. x \<noteq> u) (user_ids d),
         acceptances := map (\<lambda>a. a\<lparr> ac_requested_by := forget (ac_requested_by a), ac_decided_by := forget (ac_decided_by a),
           ac_ended_by := forget (ac_ended_by a) \<rparr>) (acceptances d),
         items := map (\<lambda>it. it\<lparr> it_owner := forget (it_owner it) \<rparr>) (items d),
         events := map (\<lambda>e. e\<lparr> ev_user := forget (ev_user e) \<rparr>) (events d) \<rparr>)"

section \<open>What the synchronisation achieves\<close>

text \<open>An item is closed exactly while it has a closing time and reason, and names an acceptance only while accepted.\<close>

definition item_wf :: "item \<Rightarrow> bool" where
  "item_wf it \<longleftrightarrow> (it_status it = RESOLVED \<longleftrightarrow> it_resolved_at it \<noteq> None) \<and>
     (it_resolved_at it = None \<longleftrightarrow> it_closed_reason it = None) \<and> (it_acceptance it \<noteq> None \<longrightarrow> it_status it = ITEM_ACCEPTED)"

definition same_item :: "item \<Rightarrow> item \<Rightarrow> bool" where
  "same_item a b \<longleftrightarrow> it_id a = it_id b \<and> it_key a = it_key b \<and> it_source a = it_source b \<and> it_ref a = it_ref b"

lemma same_item_refl [simp]: "same_item a a"
  by (simp add: same_item_def)

lemma covering_same: "same_item a b \<Longrightarrow> covering now accs a = covering now accs b"
  by (auto simp: covering_def same_item_def split: option.split)

lemma refresh_item: "same_item (refresh st now f it) it" "it_status (refresh st now f it) \<noteq> RESOLVED"
  "item_wf it \<Longrightarrow> item_wf (refresh st now f it)"
  by (auto simp: refresh_def reclassify_def reopen_def same_item_def item_wf_def)

text \<open>A reported item after its turn: not closed, accepted exactly while something covers it.\<close>

definition settled :: "datetime \<Rightarrow> acceptance list \<Rightarrow> found \<Rightarrow> item \<Rightarrow> bool" where
  "settled now accs f x \<longleftrightarrow> it_status x \<noteq> RESOLVED \<and>
     (it_status x = ITEM_ACCEPTED \<longleftrightarrow> covering now accs x \<noteq> None \<or> fd_source_accepted f) \<and>
     it_acceptance x = map_option ac_id (covering now accs x)"

lemma settle_item:
  assumes "settle st now accs f it = (x, evs, touched)"
  shows "same_item x it" "it_status it \<noteq> RESOLVED \<Longrightarrow> item_wf it \<Longrightarrow> item_wf x \<and> settled now accs f x"
proof -
  show same: "same_item x it"
    using assms by (auto simp: settle_def same_item_def split: if_splits option.splits)
  assume "it_status it \<noteq> RESOLVED" "item_wf it"
  then show "item_wf x \<and> settled now accs f x"
    using assms unfolding settled_def covering_same [OF same]
    by (cases "covering now accs it") (auto simp: settle_def item_wf_def split: if_splits)
qed

lemma find_key:
  assumes "distinct (map it_key its)"
  shows "find (\<lambda>x. it_key x = k) its = Some y \<longleftrightarrow> y \<in> set its \<and> it_key y = k"
  using assms by (induction its) (auto simp: image_iff)

text \<open>The table while the reports are worked off: \<open>fin\<close> are those done, \<open>old\<close> the rows at the start.\<close>

definition loop_ok :: "datetime \<Rightarrow> acceptance list \<Rightarrow> item list \<Rightarrow> found list \<Rightarrow> loop \<Rightarrow> bool" where
  "loop_ok now accs old fin l \<longleftrightarrow> set (l_seen l) = fd_key ` set fin \<and>
     distinct (map it_key (l_items l)) \<and> distinct (map it_id (l_items l)) \<and>
     (\<forall>x \<in> set (l_items l). it_id x < l_next l \<and> item_wf x \<and>
       (case find (\<lambda>f. fd_key f = it_key x) fin of None \<Rightarrow> x \<in> set old | Some f \<Rightarrow> settled now accs f x)) \<and>
     (\<forall>f \<in> set fin. \<exists>x \<in> set (l_items l). it_key x = fd_key f)"

lemma find_append: "find P (xs @ ys) = (case find P xs of None \<Rightarrow> find P ys | Some x \<Rightarrow> Some x)"
  by (induction xs) auto

lemma set_put_item: "distinct (map it_key its) \<Longrightarrow> x \<in> set (put_item it its) \<longleftrightarrow> x = it \<or> x \<in> set its \<and> it_key x \<noteq> it_key it"
  by (auto simp: put_item_def)

lemma put_item_keys: "map it_key (put_item it its) = (if it_key it \<in> it_key ` set its then map it_key its else map it_key its @ [it_key it])"
  by (auto simp: put_item_def intro: rev_image_eqI)

lemma put_item_ids:
  assumes "distinct (map it_key its)" "y \<in> set its" "it_key it = it_key y" "it_id it = it_id y"
  shows "map it_id (put_item it its) = map it_id its"
proof -
  have "x = y" if "x \<in> set its" "it_key x = it_key it" for x
    using that assms by (auto simp: distinct_map dest: inj_onD)
  then show ?thesis using assms(2-4) by (auto simp: put_item_def)
qed

lemma loop_step:
  assumes l: "loop_ok now accs old fin l"
  shows "loop_ok now accs old (fin @ [f]) (sync_found st rep now accs f l)"
proof (cases "fd_key f \<in> set (l_seen l)")
  case True
  then obtain g where "g \<in> set fin" "fd_key g = fd_key f" using l by (auto simp: loop_ok_def)
  with l True show ?thesis
    by (auto simp: loop_ok_def sync_found_def find_append find_None_iff split: option.splits)
next
  case False
  define P where "P \<longleftrightarrow> find (\<lambda>x. it_key x = fd_key f) (l_items l) = None"
  define it where "it = (case find (\<lambda>x. it_key x = fd_key f) (l_items l) of
     None \<Rightarrow> new_item st rep now (l_next l) f | Some x \<Rightarrow> refresh st now f x)"
  define n where "n = (if P then l_next l + 1 else l_next l)"
  obtain x evs t where x: "settle st now accs f it = (x, evs, t)" by (metis prod_cases3)
  have dk: "distinct (map it_key (l_items l))" and di: "distinct (map it_id (l_items l))"
    and rows: "\<And>y. y \<in> set (l_items l) \<Longrightarrow> it_id y < l_next l \<and> item_wf y \<and>
       (case find (\<lambda>f. fd_key f = it_key y) fin of None \<Rightarrow> y \<in> set old | Some f \<Rightarrow> settled now accs f y)"
    using l by (auto simp: loop_ok_def)
  have it: "it_key it = fd_key f \<and> it_status it \<noteq> RESOLVED \<and> item_wf it \<and> it_id it < n \<and>
      (\<forall>y \<in> set (l_items l). it_key y = fd_key f \<longrightarrow> it_id it = it_id y) \<and> (P \<longrightarrow> it_id it = l_next l)"
  proof (cases "find (\<lambda>x. it_key x = fd_key f) (l_items l)")
    case None
    then have "\<forall>y \<in> set (l_items l). it_key y \<noteq> fd_key f" by (auto simp: find_None_iff)
    with None show ?thesis by (simp add: it_def n_def P_def new_item_def item_wf_def)
  next
    case (Some y)
    then have y: "y \<in> set (l_items l)" "it_key y = fd_key f" by (auto simp: find_key [OF dk])
    then have "\<forall>z \<in> set (l_items l). it_key z = fd_key f \<longrightarrow> z = y"
      using dk by (metis distinct_map inj_onD)
    moreover have "it = refresh st now f y" "n = l_next l" "\<not> P" using Some by (simp_all add: it_def n_def P_def)
    moreover have "same_item it y" "it_status it \<noteq> RESOLVED" "item_wf it" "it_id y < n"
      using calculation refresh_item rows [OF y(1)] by metis+
    ultimately show ?thesis using y(2) by (auto simp: same_item_def)
  qed
  have xs: "same_item x it" "item_wf x" "settled now accs f x" using settle_item [OF x] it by auto
  have fresh: "find (\<lambda>g. fd_key g = fd_key f) fin = None"
    using False l by (auto simp: loop_ok_def find_None_iff image_iff)
  have items: "l_items (sync_found st rep now accs f l) = put_item x (l_items l)"
    "l_next (sync_found st rep now accs f l) = n" "l_seen (sync_found st rep now accs f l) = fd_key f # l_seen l"
    using False x by (auto simp: sync_found_def it_def n_def P_def Let_def split: option.splits)
  have key: "it_key x = fd_key f" "it_id x = it_id it" using xs(1) it by (auto simp: same_item_def)
  have "distinct (map it_key (put_item x (l_items l)))" using dk by (auto simp: put_item_keys)
  moreover have "distinct (map it_id (put_item x (l_items l)))"
  proof (cases P)
    case True
    then have "put_item x (l_items l) = l_items l @ [x]"
      using key by (auto simp: P_def put_item_def find_None_iff)
    moreover have "l_next l \<notin> it_id ` set (l_items l)" using rows by force
    ultimately show ?thesis using di key it True by simp
  next
    case False
    then obtain y where "y \<in> set (l_items l)" "it_key y = fd_key f" by (auto simp: P_def find_None_iff)
    then show ?thesis using put_item_ids [OF dk, of y x] di key it by simp
  qed
  moreover have "it_id y < n \<and> item_wf y \<and> (case find (\<lambda>g. fd_key g = it_key y) (fin @ [f]) of
      None \<Rightarrow> y \<in> set old | Some g \<Rightarrow> settled now accs g y)" if "y \<in> set (put_item x (l_items l))" for y
  proof (cases "y = x")
    case True
    then show ?thesis using xs key it fresh by (simp add: find_append)
  next
    case False
    then have "y \<in> set (l_items l)" "it_key y \<noteq> fd_key f" using that key by (auto simp: set_put_item [OF dk])
    then show ?thesis using rows [of y] by (auto simp: find_append n_def split: option.splits)
  qed
  moreover have "\<exists>y \<in> set (put_item x (l_items l)). it_key y = fd_key g" if g: "g \<in> set (fin @ [f])" for g
  proof (cases "fd_key g = fd_key f")
    case True
    then show ?thesis using key by (auto simp: set_put_item [OF dk])
  next
    case False
    then obtain y where "y \<in> set (l_items l)" "it_key y = fd_key g" using g l by (auto simp: loop_ok_def)
    with False key show ?thesis by (auto simp: set_put_item [OF dk])
  qed
  ultimately show ?thesis
    using l items by (auto simp: loop_ok_def)
qed

lemma loop_fold: "loop_ok now accs old fin l \<Longrightarrow> loop_ok now accs old (fin @ fs) (fold (sync_found st rep now accs) fs l)"
proof (induction fs arbitrary: fin l)
  case (Cons f fs)
  then show ?case using Cons.IH [OF loop_step [OF Cons.prems]] by simp
qed simp

text \<open>The tables between two synchronisations.\<close>

definition items_ok :: "rem_db \<Rightarrow> bool" where
  "items_ok d \<longleftrightarrow> distinct (map it_key (items d)) \<and> distinct (map it_id (items d)) \<and>
     (\<forall>x \<in> set (items d). it_id x < next_item d \<and> item_wf x)"

lemma sync_loop_ok:
  "items_ok d \<Longrightarrow> loop_ok now (expire_acceptances now (acceptances d)) (items d) (all_found rep) (sync_loop rep now d)"
  unfolding sync_loop_def by (rule loop_fold [where fin = "[]", simplified]) (auto simp: loop_ok_def items_ok_def)

lemma close_item_same: "same_item (close_item rep now seen x) x" "item_wf x \<Longrightarrow> item_wf (close_item rep now seen x)"
  by (auto simp: close_item_def same_item_def item_wf_def split: option.splits)

lemma sync_items: "items (fst (sync rep now d)) = map (close_item rep now (l_seen (sync_loop rep now d))) (l_items (sync_loop rep now d))"
  by (simp add: sync_def Let_def)

lemma sync_rest: "acceptances (fst (sync rep now d)) = expire_acceptances now (acceptances d)"
  "next_acceptance (fst (sync rep now d)) = next_acceptance d" "user_ids (fst (sync rep now d)) = user_ids d"
  "next_item (fst (sync rep now d)) = l_next (sync_loop rep now d)"
  by (simp_all add: sync_def Let_def)

text \<open>Every row after a synchronisation is a reported one that is settled, one that was closed, or
  one whose source was not asked.\<close>

lemma sync_row:
  assumes "items_ok d" "y \<in> set (items (fst (sync rep now d)))"
  defines "accs \<equiv> expire_acceptances now (acceptances d)"
  obtains f where "find (\<lambda>f. fd_key f = it_key y) (all_found rep) = Some f" "settled now accs f y"
  | "\<forall>f \<in> set (all_found rep). fd_key f \<noteq> it_key y" "it_status y = RESOLVED"
  | "\<forall>f \<in> set (all_found rep). fd_key f \<noteq> it_key y" "y \<in> set (items d)" "close_reason rep y = None"
proof -
  note l = sync_loop_ok [OF assms(1), of now rep]
  obtain x where x: "x \<in> set (l_items (sync_loop rep now d))" "y = close_item rep now (l_seen (sync_loop rep now d)) x"
    using assms(2) by (auto simp: sync_items)
  have key: "it_key y = it_key x" using x(2) close_item_same(1) by (simp add: same_item_def)
  have seen: "it_key x \<in> set (l_seen (sync_loop rep now d)) \<longleftrightarrow> (\<exists>f \<in> set (all_found rep). fd_key f = it_key x)"
    using l by (auto simp: loop_ok_def intro: rev_image_eqI)
  show thesis
  proof (cases "find (\<lambda>f. fd_key f = it_key x) (all_found rep)")
    case None
    then have no: "\<forall>f \<in> set (all_found rep). fd_key f \<noteq> it_key x" by (simp add: find_None_iff)
    have "x \<in> set (items d)" using l x(1) None unfolding loop_ok_def by (auto split: option.splits)
    then show thesis using no seen x(2) key that(2,3)
      by (auto simp: close_item_def split: if_splits option.splits)
  next
    case (Some f)
    then have "settled now accs f x" using l x(1) unfolding loop_ok_def accs_def by auto
    moreover have "y = x" using Some seen x(2) by (auto simp: close_item_def find_Some_iff)
    ultimately show thesis using that(1) Some by blast
  qed
qed

lemma sync_items_ok: "items_ok d \<Longrightarrow> items_ok (fst (sync rep now d))"
proof -
  assume d: "items_ok d"
  let ?c = "close_item rep now (l_seen (sync_loop rep now d))" and ?l = "sync_loop rep now d"
  have l: "distinct (map it_key (l_items ?l))" "distinct (map it_id (l_items ?l))"
    "\<forall>x \<in> set (l_items ?l). it_id x < l_next ?l \<and> item_wf x"
    using sync_loop_ok [OF d] by (auto simp: loop_ok_def)
  have "map it_key (map ?c (l_items ?l)) = map it_key (l_items ?l)" "map it_id (map ?c (l_items ?l)) = map it_id (l_items ?l)"
    using close_item_same(1) by (simp_all add: same_item_def)
  then show ?thesis
    using l close_item_same unfolding items_ok_def sync_items sync_rest
    by (auto simp del: map_map simp: same_item_def)
qed

section \<open>Every history\<close>

text \<open>
  The state of the proofs is the tables together with a log of the approvals: the request as
  it stood and the account that approved it.
\<close>

type_synonym rem_state = "rem_db \<times> (acceptance \<times> user) list"

inductive rem_step :: "rem_state \<Rightarrow> rem_state \<Rightarrow> bool" where
  syncs: "rem_step (d, lg) (fst (sync rep now d), lg)"
| updates: "it \<in> set (items d) \<Longrightarrow> update_item ch u now it d = Inr d' \<Longrightarrow> rem_step (d, lg) (d', lg)"
| requests: "it \<in> set (items d) \<Longrightarrow> request_acceptance it u sc why expires now d = Inr d' \<Longrightarrow> rem_step (d, lg) (d', lg)"
| approves: "a \<in> set (acceptances d) \<Longrightarrow> decide_acceptance a u True now rep later d = Inr d' \<Longrightarrow>
    rem_step (d, lg) (d', (a, u) # lg)"
| rejects: "a \<in> set (acceptances d) \<Longrightarrow> decide_acceptance a u False now rep later d = Inr d' \<Longrightarrow> rem_step (d, lg) (d', lg)"
| ends: "a \<in> set (acceptances d) \<Longrightarrow> end_acceptance a u now rep later d = Inr d' \<Longrightarrow> rem_step (d, lg) (d', lg)"
| saves: "rem_step (d, lg) (save_settings sla_payload accept_payload d, lg)"
| asset_goes: "rem_step (d, lg) (asset_deleted aid d, lg)"
| user_goes: "rem_step (d, lg) (user_deleted uid d, lg)"
| user_comes: "rem_step (d, lg) (d\<lparr> user_ids := uid # user_ids d \<rparr>, lg)"

definition rem_init :: "rem_state \<Rightarrow> bool" where
  "rem_init s \<longleftrightarrow> items (fst s) = [] \<and> acceptances (fst s) = [] \<and> snd s = []"

definition covers :: "acceptance \<Rightarrow> item \<Rightarrow> bool" where
  "covers a it \<longleftrightarrow> (case ac_scope a of SCOPE_ITEM \<Rightarrow> ac_item a = Some (it_id it)
     | SCOPE_REF \<Rightarrow> ac_source a = it_source it \<and> ac_ref a = it_ref it)"

definition same_scope :: "acceptance \<Rightarrow> acceptance \<Rightarrow> bool" where
  "same_scope a b \<longleftrightarrow> ac_id a = ac_id b \<and> ac_scope a = ac_scope b \<and> ac_item a = ac_item b \<and>
     ac_source a = ac_source b \<and> ac_ref a = ac_ref b"

definition accs_ok :: "(acceptance \<times> user) list \<Rightarrow> rem_db \<Rightarrow> bool" where
  "accs_ok lg d \<longleftrightarrow> distinct (map ac_id (acceptances d)) \<and> (\<forall>a \<in> set (acceptances d). ac_id a < next_acceptance d) \<and>
     (\<forall>a \<in> set (acceptances d). ac_status a = APPROVED \<longrightarrow>
        (\<exists>(b, u) \<in> set lg. same_scope b a \<and> can_decide u b = None))"

definition backed :: "(acceptance \<times> user) list \<Rightarrow> item \<Rightarrow> bool" where
  "backed lg it \<longleftrightarrow> (\<forall>i. it_acceptance it = Some i \<longrightarrow>
     (\<exists>(b, u) \<in> set lg. ac_id b = i \<and> covers b it \<and> can_decide u b = None))"

definition rem_ok :: "rem_state \<Rightarrow> bool" where
  "rem_ok s \<longleftrightarrow> items_ok (fst s) \<and> accs_ok (snd s) (fst s) \<and> (\<forall>it \<in> set (items (fst s)). backed (snd s) it)"

lemma covering_Some:
  assumes "covering now accs it = Some a"
  shows "a \<in> set accs \<and> active now a \<and> covers a it"
proof -
  have *: "find P (rev xs) = Some a \<Longrightarrow> a \<in> set xs \<and> P a" for P and xs :: "acceptance list"
    by (auto simp: find_Some_iff in_set_conv_nth) (metis length_rev nth_mem set_rev in_set_conv_nth)
  show ?thesis
    using assms by (auto simp: covering_def covers_def active_by_item_def active_by_ref_def dest!: *
        split: option.splits scope.splits)
qed

lemma accs_ok_cong: "acceptances d' = acceptances d \<Longrightarrow> next_acceptance d' = next_acceptance d \<Longrightarrow> accs_ok lg d' = accs_ok lg d"
  by (simp add: accs_ok_def)

lemma sync_accs_ok:
  assumes "accs_ok lg d"
  shows "accs_ok lg (fst (sync rep now d))"
proof -
  have "map ac_id (expire_acceptances now (acceptances d)) = map ac_id (acceptances d)"
    by (simp add: expire_acceptances_def)
  then have "distinct (map ac_id (expire_acceptances now (acceptances d)))" using assms by (simp add: accs_ok_def)
  moreover have "\<forall>a \<in> set (expire_acceptances now (acceptances d)). ac_id a < next_acceptance d \<and>
      (ac_status a = APPROVED \<longrightarrow> a \<in> set (acceptances d))"
    using assms by (auto simp: expire_acceptances_def accs_ok_def)
  ultimately show ?thesis using assms unfolding accs_ok_def sync_rest by blast
qed

lemma sync_rem_ok:
  assumes "items_ok d" "accs_ok lg d" "\<forall>it \<in> set (items d). backed lg it"
  shows "rem_ok (fst (sync rep now d), lg)"
proof -
  have "backed lg y" if y: "y \<in> set (items (fst (sync rep now d)))" for y
  proof (rule sync_row [OF assms(1) y])
    fix f
    assume st: "settled now (expire_acceptances now (acceptances d)) f y"
    show "backed lg y"
      unfolding backed_def
    proof (intro allI impI)
      fix i
      assume "it_acceptance y = Some i"
      then obtain a where a: "covering now (expire_acceptances now (acceptances d)) y = Some a" "ac_id a = i"
        using st by (cases "covering now (expire_acceptances now (acceptances d)) y") (auto simp: settled_def)
      then have "a \<in> set (acceptances (fst (sync rep now d)))" "active now a" "covers a y"
        using covering_Some by (auto simp: sync_rest)
      then obtain b u where b: "(b, u) \<in> set lg" "same_scope b a" "can_decide u b = None"
        using sync_accs_ok [OF assms(2), of rep now] by (auto simp: accs_ok_def active_def)
      then have "ac_id b = i" "covers b y" using \<open>covers a y\<close> a(2) by (auto simp: same_scope_def covers_def split: scope.splits)
      with b show "\<exists>(b, u) \<in> set lg. ac_id b = i \<and> covers b y \<and> can_decide u b = None" by blast
    qed
  next
    assume "it_status y = RESOLVED"
    then show "backed lg y"
      using sync_items_ok [OF assms(1), of rep now] y by (auto simp: items_ok_def item_wf_def backed_def)
  qed (use assms(3) in auto)
  then show ?thesis using sync_items_ok sync_accs_ok assms by (auto simp: rem_ok_def)
qed

subsection \<open>One lemma per operation\<close>

lemma change_owner_Inr: "change_owner d ch u now it = Inr (x, e) \<Longrightarrow> x = it\<lparr> it_owner := it_owner x \<rparr>"
  by (auto simp: change_owner_def split: if_splits option.splits)

lemma change_due_eq: "change_due st ch u now it = (x, e) \<Longrightarrow> x = it\<lparr> it_due_custom := it_due_custom x, it_due := it_due x \<rparr>"
  by (auto simp: change_due_def split: option.splits)

lemma change_status_Inr:
  "change_status ch u now it = Inr (x, e) \<Longrightarrow> x = it \<or>
   (\<exists>st \<in> {OPEN, IN_PROGRESS, PENDING_VERIFICATION}. x = it\<lparr> it_status := st \<rparr>) \<and> it_status it \<notin> {RESOLVED, ITEM_ACCEPTED}"
  by (auto simp: change_status_def split: if_splits option.splits)

text \<open>A change by hand keeps what the item is, and moves it only between the states of open work.\<close>

lemma update_item_Inr:
  assumes "update_item ch u now it d = Inr d'"
  obtains x where "items d' = map (\<lambda>y. if it_id y = it_id it then x else y) (items d)" "same_item x it"
    "item_wf it \<Longrightarrow> item_wf x" "it_acceptance x = it_acceptance it"
    "it_status x = it_status it \<or> it_status it \<notin> {RESOLVED, ITEM_ACCEPTED} \<and> it_status x \<notin> {RESOLVED, ITEM_ACCEPTED}"
    "acceptances d' = acceptances d" "next_acceptance d' = next_acceptance d" "next_item d' = next_item d"
proof -
  obtain i1 e1 where s1: "change_owner d ch u now it = Inr (i1, e1)"
    using assms by (cases "change_owner d ch u now it") (auto simp: update_item_def)
  obtain i2 e2 where s2: "change_due (get_settings d) ch u now i1 = (i2, e2)" by fastforce
  obtain i3 e3 where s3: "change_status ch u now i2 = Inr (i3, e3)"
    using assms by (cases "change_status ch u now i2") (auto simp: update_item_def s1 s2)
  have d': "d' = d\<lparr> items := map (\<lambda>y. if it_id y = it_id it then i3 else y) (items d),
      events := events d @ e1 @ e2 @ e3 @ (if ch_note ch \<noteq> [] then [ev i3 ''note'' (Some (u_id u)) now] else []) \<rparr>"
    using assms by (simp add: update_item_def s1 s2 s3 Let_def)
  obtain own where i1: "i1 = it\<lparr> it_owner := own \<rparr>" using change_owner_Inr [OF s1] by blast
  obtain c t where i2_eq: "i2 = i1\<lparr> it_due_custom := c, it_due := t \<rparr>" using change_due_eq [OF s2] by blast
  have i2: "same_item i2 it" "item_wf i2 = item_wf it" "it_acceptance i2 = it_acceptance it" "it_status i2 = it_status it"
    by (simp_all add: i1 i2_eq same_item_def item_wf_def)
  have i3: "same_item i3 it \<and> (item_wf it \<longrightarrow> item_wf i3) \<and> it_acceptance i3 = it_acceptance it \<and>
      (it_status i3 = it_status it \<or> it_status it \<notin> {RESOLVED, ITEM_ACCEPTED} \<and> it_status i3 \<notin> {RESOLVED, ITEM_ACCEPTED})"
  proof (cases "i3 = i2")
    case True
    then show ?thesis using i2 by simp
  next
    case False
    then obtain st where "st \<in> {OPEN, IN_PROGRESS, PENDING_VERIFICATION}" "i3 = i2\<lparr> it_status := st \<rparr>"
        "it_status it \<notin> {RESOLVED, ITEM_ACCEPTED}"
      using change_status_Inr [OF s3] i2(4) by auto
    then show ?thesis using i2 by (auto simp: same_item_def item_wf_def)
  qed
  show thesis by (rule that [of i3]) (use i3 d' in simp_all)
qed

lemma items_ok_map:
  assumes "items_ok d" "items d' = map g (items d)" "next_item d' = next_item d"
    and "\<And>x. x \<in> set (items d) \<Longrightarrow> same_item (g x) x \<and> item_wf (g x)"
  shows "items_ok d'"
proof -
  have "map it_key (items d') = map it_key (items d)" "map it_id (items d') = map it_id (items d)"
    using assms(2,4) by (simp_all add: same_item_def)
  then show ?thesis using assms by (auto simp: items_ok_def same_item_def simp del: map_map)
qed

lemma item_backed_same: "backed lg it \<Longrightarrow> same_item x it \<Longrightarrow> it_acceptance x = None \<or> it_acceptance x = it_acceptance it \<Longrightarrow> backed lg x"
  by (fastforce simp: backed_def same_item_def covers_def split: scope.splits)

lemma update_ok:
  assumes ok: "rem_ok (d, lg)" and it: "it \<in> set (items d)" and up: "update_item ch u now it d = Inr d'"
  shows "rem_ok (d', lg)"
proof -
  have wf: "\<And>x. x \<in> set (items d) \<Longrightarrow> item_wf x \<and> backed lg x" and ids: "\<And>x. x \<in> set (items d) \<Longrightarrow> it_id x = it_id it \<Longrightarrow> x = it"
    using ok it by (auto simp: rem_ok_def items_ok_def distinct_map dest: inj_onD)
  show ?thesis
  proof (rule update_item_Inr [OF up])
    fix x
    assume x: "items d' = map (\<lambda>y. if it_id y = it_id it then x else y) (items d)" "same_item x it"
      "item_wf it \<Longrightarrow> item_wf x" "it_acceptance x = it_acceptance it"
      and d': "acceptances d' = acceptances d" "next_acceptance d' = next_acceptance d" "next_item d' = next_item d"
    have each: "same_item (if it_id y = it_id it then x else y) y \<and> item_wf (if it_id y = it_id it then x else y) \<and>
        backed lg (if it_id y = it_id it then x else y)" if "y \<in> set (items d)" for y
      using wf [OF that] ids [OF that] x item_backed_same [of lg it x] by (cases "it_id y = it_id it") auto
    have "items_ok d'" using items_ok_map [OF _ x(1) d'(3)] ok each by (auto simp: rem_ok_def)
    moreover have "accs_ok lg d'" using ok accs_ok_cong [OF d'(1,2)] by (simp add: rem_ok_def)
    moreover have "\<forall>y \<in> set (items d'). backed lg y" using each unfolding x(1) set_map by blast
    ultimately show ?thesis by (simp add: rem_ok_def)
  qed
qed

lemma put_acceptance_ok:
  assumes ok: "accs_ok lg d" and a: "a \<in> set (acceptances d)" "same_scope a' a"
    and ap: "ac_status a' = APPROVED \<Longrightarrow> \<exists>(b, u) \<in> set lg'. same_scope b a \<and> can_decide u b = None"
    and lg: "set lg \<subseteq> set lg'"
  shows "accs_ok lg' (d\<lparr> acceptances := put_acceptance a' (acceptances d), events := evs \<rparr>)"
proof -
  have "map ac_id (put_acceptance a' (acceptances d)) = map ac_id (acceptances d)"
    by (auto simp: put_acceptance_def)
  moreover have "\<exists>(b, u) \<in> set lg'. same_scope b x \<and> can_decide u b = None"
    if "x \<in> set (put_acceptance a' (acceptances d))" "ac_status x = APPROVED" for x
    using that ok ap a lg by (fastforce simp: put_acceptance_def accs_ok_def same_scope_def split: if_splits)
  moreover have "\<forall>x \<in> set (put_acceptance a' (acceptances d)). ac_id x < next_acceptance d"
    using ok a by (auto simp: accs_ok_def put_acceptance_def same_scope_def)
  ultimately show ?thesis using ok by (simp add: accs_ok_def)
qed

lemma item_backed_more: "backed lg it \<Longrightarrow> set lg \<subseteq> set lg' \<Longrightarrow> backed lg' it"
  unfolding backed_def by fast

lemma decide_ok:
  assumes ok: "rem_ok (d, lg)" and a: "a \<in> set (acceptances d)" and de: "decide_acceptance a u approve now rep later d = Inr d'"
  shows "rem_ok (d', if approve then (a, u) # lg else lg)"
proof -
  let ?lg = "if approve then (a, u) # lg else lg"
  define a' where "a' = a\<lparr> ac_status := (if approve then APPROVED else REJECTED), ac_decided_by := Some (u_id u), ac_decided_at := Some now \<rparr>"
  define evs where "evs = events d @ map (\<lambda>it. ev it (if approve then ''acceptance_approved'' else ''acceptance_rejected'')
     (Some (u_id u)) now) (items_of a d)"
  define dd where "dd = d\<lparr> acceptances := put_acceptance a' (acceptances d), events := evs \<rparr>"
  have can: "can_decide u a = None" and d': "d' = (if approve then fst (sync rep later dd) else dd)"
    using de by (auto simp: decide_acceptance_def dd_def a'_def evs_def Let_def split: if_splits option.splits)
  have "accs_ok ?lg dd"
    unfolding dd_def
  proof (rule put_acceptance_ok)
    show "accs_ok lg d" using ok by (simp add: rem_ok_def)
    show "same_scope a' a" by (simp add: a'_def same_scope_def)
    show "\<exists>(b, w) \<in> set ?lg. same_scope b a \<and> can_decide w b = None" if "ac_status a' = APPROVED"
      using that can by (auto simp: a'_def same_scope_def split: if_splits)
  qed (use a in auto)
  moreover have "items_ok dd" using ok by (simp add: rem_ok_def dd_def items_ok_def)
  moreover have "\<forall>it \<in> set (items dd). backed ?lg it" using ok by (auto simp: rem_ok_def dd_def intro: item_backed_more)
  ultimately show ?thesis
    using sync_rem_ok [of dd ?lg rep later] by (cases approve) (simp_all add: d' rem_ok_def)
qed

lemma end_ok:
  assumes ok: "rem_ok (d, lg)" and a: "a \<in> set (acceptances d)" and en: "end_acceptance a u now rep later d = Inr d'"
  shows "rem_ok (d', lg)"
proof -
  define a' where "a' = a\<lparr> ac_status := REVOKED, ac_ended_by := Some (u_id u), ac_ended_at := Some now \<rparr>"
  define dd where "dd = d\<lparr> acceptances := put_acceptance a' (acceptances d), events := events d \<rparr>"
  have d': "d' = (if ac_status a = APPROVED then fst (sync rep later dd) else dd)"
    using en by (auto simp: end_acceptance_def dd_def a'_def Let_def split: if_splits)
  have "accs_ok lg dd"
    unfolding dd_def by (rule put_acceptance_ok) (use ok a in \<open>auto simp: rem_ok_def a'_def same_scope_def\<close>)
  moreover have "items_ok dd" "\<forall>it \<in> set (items dd). backed lg it" using ok by (auto simp: rem_ok_def dd_def items_ok_def)
  ultimately show ?thesis using sync_rem_ok [of dd lg rep later] by (auto simp: d' rem_ok_def)
qed

lemma request_ok:
  assumes ok: "rem_ok (d, lg)" and re: "request_acceptance it u sc why expires now d = Inr d'"
  shows "rem_ok (d', lg)"
proof -
  define a where "a = last (acceptances d')"
  have a: "ac_id a = next_acceptance d" "ac_status a = PENDING"
    and d': "acceptances d' = acceptances d @ [a]" "next_acceptance d' = next_acceptance d + 1" "items d' = items d"
      "next_item d' = next_item d"
    using re unfolding a_def by (auto simp: request_acceptance_def Let_def split: if_splits)
  have "accs_ok lg d'" using ok a unfolding rem_ok_def accs_ok_def d'(1,2) by fastforce
  then show ?thesis using ok d'(3,4) by (simp add: rem_ok_def items_ok_def)
qed

lemma asset_deleted_ok:
  assumes "rem_ok (d, lg)"
  shows "rem_ok (asset_deleted i d, lg)"
proof -
  obtain g where g: "items (asset_deleted i d) = map g (items d)"
      "\<And>x. same_item (g x) x \<and> (it_acceptance (g x) = None \<or> it_acceptance (g x) = it_acceptance x) \<and> (item_wf x \<longrightarrow> item_wf (g x))"
    by (rule that [of "\<lambda>it. it\<lparr> it_asset := (if it_asset it = Some i then None else it_asset it),
        it_acceptance := (case it_acceptance it of None \<Rightarrow> None
          | Some k \<Rightarrow> if k \<in> set (map ac_id (filter (\<lambda>x. ac_asset x = Some i) (acceptances d))) then None else Some k) \<rparr>"])
      (auto simp: asset_deleted_def Let_def same_item_def item_wf_def split: option.splits)
  have "items_ok (asset_deleted i d)"
    by (rule items_ok_map [OF _ g(1)]) (use assms g(2) in \<open>auto simp: rem_ok_def items_ok_def asset_deleted_def Let_def\<close>)
  moreover have "accs_ok lg (asset_deleted i d)"
    using assms by (auto simp: rem_ok_def accs_ok_def asset_deleted_def Let_def distinct_map_filter)
  moreover have "\<forall>y \<in> set (items (asset_deleted i d)). backed lg y"
    using assms g item_backed_same by (auto simp: rem_ok_def)
  ultimately show ?thesis by (simp add: rem_ok_def)
qed

lemma user_deleted_ok:
  assumes "rem_ok (d, lg)"
  shows "rem_ok (user_deleted w d, lg)"
proof -
  have "items_ok (user_deleted w d)"
    by (rule items_ok_map [of d _ "\<lambda>it. it\<lparr> it_owner := (if it_owner it = Some w then None else it_owner it) \<rparr>"])
      (use assms in \<open>auto simp: rem_ok_def items_ok_def user_deleted_def Let_def same_item_def item_wf_def\<close>)
  moreover have "accs_ok lg (user_deleted w d)"
    using assms by (auto simp: rem_ok_def accs_ok_def user_deleted_def Let_def same_scope_def comp_def)
  moreover have "\<forall>y \<in> set (items (user_deleted w d)). backed lg y"
    using assms item_backed_same [of lg] by (auto simp: rem_ok_def user_deleted_def Let_def same_item_def)
  ultimately show ?thesis by (simp add: rem_ok_def)
qed

lemma rem_step_ok: "rem_step s t \<Longrightarrow> rem_ok s \<Longrightarrow> rem_ok t"
proof (induction rule: rem_step.induct)
  case (syncs d lg rep now)
  then show ?case using sync_rem_ok [of d lg rep now] by (simp add: rem_ok_def)
next
  case (updates it d ch u now d' lg)
  show ?case by (rule update_ok [OF updates(3,1,2)])
next
  case (requests it d u sc why expires now d' lg)
  show ?case by (rule request_ok [OF requests(3,2)])
next
  case (approves a d u now rep later d' lg)
  then show ?case using decide_ok [OF approves(3,1,2)] by simp
next
  case (rejects a d u now rep later d' lg)
  then show ?case using decide_ok [OF rejects(3,1,2)] by simp
next
  case (ends a d u now rep later d' lg)
  show ?case by (rule end_ok [OF ends(3,1,2)])
next
  case (saves d lg sla_payload accept_payload)
  then show ?case by (simp add: save_settings_def rem_ok_def items_ok_def accs_ok_def)
next
  case (asset_goes d lg aid)
  show ?case by (rule asset_deleted_ok [OF asset_goes])
next
  case (user_goes d lg uid)
  show ?case by (rule user_deleted_ok [OF user_goes])
next
  case (user_comes d lg uid)
  then show ?case by (simp add: rem_ok_def items_ok_def accs_ok_def)
qed

interpretation tracking: invariant rem_init rem_step rem_ok
proof
  show "rem_init s \<Longrightarrow> rem_ok s" for s by (simp add: rem_init_def rem_ok_def items_ok_def accs_ok_def)
qed (rule rem_step_ok)

section \<open>Properties\<close>

text \<open>
  C13. A risk is never accepted by one person alone. Whatever is requested, decided, withdrawn,
  changed, synchronised or deleted, in any order: an item that stands as accepted under a risk
  acceptance was approved under that acceptance's id, for a request that covers this very item,
  by an account that did not make the request and was administrator or manager at that moment -
  an administrator where the request was for a critical or known-exploited finding.
\<close>

theorem accepted_by_four_eyes:
  assumes "reach rem_init rem_step (d, lg)" "it \<in> set (items d)" "it_acceptance it = Some i"
  shows "it_status it = ITEM_ACCEPTED \<and> (\<exists>(a, u) \<in> set lg. ac_id a = i \<and> covers a it \<and>
    ac_requested_by a \<noteq> Some (u_id u) \<and> role u \<in> {ADMIN, MANAGER} \<and>
    (ac_kev a \<or> ac_severity a = ''critical'' \<longrightarrow> role u = ADMIN))"
proof -
  have "item_wf it" "backed lg it"
    using tracking.reach_inv [OF assms(1)] assms(2) by (auto simp: rem_ok_def items_ok_def)
  then show ?thesis
    using assms(3) by (fastforce simp: item_wf_def backed_def can_decide_def split: if_splits)
qed

text \<open>
  C28. After a synchronisation the items say what the modules say. In every reachable state, for
  any report: every problem reported has an item; an item whose problem is reported is not
  closed, stands as accepted exactly if an approved acceptance that has not expired covers it or
  its source accepts it, and then names that acceptance; any other item is closed, unless its
  source could not be asked, in which case it is as it was.
\<close>

theorem sync_follows_reports:
  assumes "reach rem_init rem_step (d, lg)"
  shows "(\<forall>f \<in> set (all_found rep). \<exists>y \<in> set (items (fst (sync rep now d))). it_key y = fd_key f) \<and>
    (\<forall>y \<in> set (items (fst (sync rep now d))).
      case find (\<lambda>f. fd_key f = it_key y) (all_found rep) of
        Some f \<Rightarrow> it_status y \<noteq> RESOLVED \<and>
          (let c = covering now (acceptances (fst (sync rep now d))) y in
           (it_status y = ITEM_ACCEPTED \<longleftrightarrow> c \<noteq> None \<or> fd_source_accepted f) \<and> it_acceptance y = map_option ac_id c)
      | None \<Rightarrow> it_status y = RESOLVED \<or>
          y \<in> set (items d) \<and> it_source y \<notin> set (checked rep) \<and> it_asset y \<in> Some ` set (asset_ids rep))"
proof -
  have d: "items_ok d" using tracking.reach_inv [OF assms] by (simp add: rem_ok_def)
  have all: "\<exists>y \<in> set (items (fst (sync rep now d))). it_key y = fd_key f" if "f \<in> set (all_found rep)" for f
    using sync_loop_ok [OF d, of now rep] that close_item_same(1)
    by (fastforce simp: loop_ok_def sync_items same_item_def)
  have unasked: "close_reason rep y = None \<Longrightarrow> it_source y \<notin> set (checked rep) \<and> it_asset y \<in> Some ` set (asset_ids rep)" for y
    by (auto simp: close_reason_def split: if_splits)
  have "case find (\<lambda>f. fd_key f = it_key y) (all_found rep) of
        Some f \<Rightarrow> it_status y \<noteq> RESOLVED \<and>
          (let c = covering now (acceptances (fst (sync rep now d))) y in
           (it_status y = ITEM_ACCEPTED \<longleftrightarrow> c \<noteq> None \<or> fd_source_accepted f) \<and> it_acceptance y = map_option ac_id c)
      | None \<Rightarrow> it_status y = RESOLVED \<or>
          y \<in> set (items d) \<and> it_source y \<notin> set (checked rep) \<and> it_asset y \<in> Some ` set (asset_ids rep)"
    if "y \<in> set (items (fst (sync rep now d)))" for y
  proof (rule sync_row [OF d that], goal_cases)
    case (1 f)
    then show ?case by (simp add: settled_def sync_rest)
  next
    case 2
    then have "find (\<lambda>f. fd_key f = it_key y) (all_found rep) = None" by (simp add: find_None_iff)
    with 2 show ?case by simp
  next
    case 3
    then have "find (\<lambda>f. fd_key f = it_key y) (all_found rep) = None" by (simp add: find_None_iff)
    with 3 unasked show ?case by simp
  qed
  with all show ?thesis by blast
qed

text \<open>
  C40. The states of an item stay consistent: in every reachable state an item is closed exactly
  if it has a closing time and a reason, names an acceptance only while it stands as accepted,
  and keys and ids are unique.
\<close>

theorem items_well_formed:
  assumes "reach rem_init rem_step (d, lg)"
  shows "distinct (map it_key (items d)) \<and> distinct (map it_id (items d)) \<and> (\<forall>it \<in> set (items d).
    (it_status it = RESOLVED \<longleftrightarrow> it_resolved_at it \<noteq> None) \<and> (it_resolved_at it = None \<longleftrightarrow> it_closed_reason it = None) \<and>
    (it_acceptance it \<noteq> None \<longrightarrow> it_status it = ITEM_ACCEPTED))"
  using tracking.reach_inv [OF assms] by (auto simp: rem_ok_def items_ok_def item_wf_def)

subsection \<open>One history\<close>

text \<open>A certificate problem is found, its acceptance requested by a manager and approved by an administrator.\<close>

definition rem_user :: "int \<Rightarrow> UserRole \<Rightarrow> user" where
  "rem_user i r = \<lparr> u_id = i, username = ''u'', email = ''e'', hashed_password = ''h'', is_active = True,
     must_change_password = False, role = r, auth_source = ''local'', phone = None, language = None,
     disabled_by_directory = False \<rparr>"

definition tls_report :: report where
  "tls_report = \<lparr> cve_found = None, audit_found = [], audited_assets = [], by_policy = [], arch_found = [], eol_found = [],
     tls_found = [\<lparr> fd_key = ''tls:3'', fd_source = ''tls'', fd_ref = ''expired'', fd_asset = 3, fd_title = ''t'',
       fd_severity = ''critical'', fd_kev = False, fd_hardened = False, fd_source_accepted = False \<rparr>],
     owner_map = (\<lambda>_. None), asset_ids = [3], arch_rule_codes = [] \<rparr>"

definition db0 :: rem_db where
  "db0 = \<lparr> items = [], acceptances = [], events = [], next_item = 1, next_acceptance = 1, sla_stored = [],
     accept_stored = [], user_ids = [1, 2] \<rparr>"

definition db1 :: rem_db where "db1 = fst (sync tls_report 0 db0)"

definition asked :: "rem_error + rem_db" where
  "asked = request_acceptance (hd (items db1)) (rem_user 1 MANAGER) SCOPE_ITEM ''legacy'' (days 20) 10 db1"

definition approved :: "rem_error + rem_db" where
  "approved = (case asked of Inl e \<Rightarrow> Inl e | Inr d \<Rightarrow>
     decide_acceptance (hd (acceptances d)) (rem_user 2 ADMIN) True 20 tls_report 30 d)"

definition accepted_id :: "rem_error + rem_db \<Rightarrow> (int option \<times> item_status) list" where
  "accepted_id r = (case r of Inl _ \<Rightarrow> [] | Inr d \<Rightarrow> map (\<lambda>it. (it_acceptance it, it_status it)) (items d))"

lemma history_evaluates: "accepted_id approved = [(Some 1, ITEM_ACCEPTED)]" "items db1 \<noteq> []"
  "(case asked of Inl _ \<Rightarrow> False | Inr d \<Rightarrow> acceptances d \<noteq> [])"
  by code_simp+

lemma history_reached:
  obtains d lg where "approved = Inr d" "reach rem_init rem_step (d, lg)"
proof -
  obtain d2 where d2: "asked = Inr d2" "acceptances d2 \<noteq> []" using history_evaluates(3) by (auto split: sum.splits)
  obtain d3 where d3: "approved = Inr d3"
    using history_evaluates(1) by (auto simp: accepted_id_def split: sum.splits)
  have "reach rem_init rem_step (db0, [])" by (rule reach_init) (simp add: rem_init_def db0_def)
  then have "reach rem_init rem_step (db1, [])" unfolding db1_def by (rule reach_step) (rule rem_step.syncs)
  then have "reach rem_init rem_step (d2, [])"
    by (rule reach_step) (rule rem_step.requests, rule hd_in_set [OF history_evaluates(2)], rule d2(1) [unfolded asked_def])
  then have "reach rem_init rem_step (d3, [(hd (acceptances d2), rem_user 2 ADMIN)])"
    by (rule reach_step) (rule rem_step.approves, rule hd_in_set [OF d2(2)], rule d3 [unfolded approved_def d2(1) sum.case])
  with d3 that show thesis by blast
qed

theorem accepted_by_four_eyes_witness:
  "\<exists>d lg it (a :: acceptance) (u :: user). approved = Inr d \<and> it \<in> set (items d) \<and> it_status it = ITEM_ACCEPTED \<and> (a, u) \<in> set lg \<and>
    ac_requested_by a \<noteq> Some (u_id u)"
proof (rule history_reached)
  fix d lg
  assume d: "approved = Inr d" "reach rem_init rem_step (d, lg)"
  then obtain it where it: "it \<in> set (items d)" "it_acceptance it = Some 1"
    using history_evaluates(1) unfolding accepted_id_def d(1) by auto
  obtain a u where "(a, u) \<in> set lg" "ac_requested_by a \<noteq> Some (u_id u)" "it_status it = ITEM_ACCEPTED"
    using accepted_by_four_eyes [OF d(2) it] by blast
  with d(1) it(1) show ?thesis by blast
qed

theorem sync_follows_reports_witness:
  "\<exists>d. approved = Inr d \<and> (\<exists>y \<in> set (items (fst (sync tls_report (days 20) d))). it_key y = ''tls:3'')"
proof (rule history_reached)
  fix d lg
  assume d: "approved = Inr d" "reach rem_init rem_step (d, lg)"
  have "hd (tls_found tls_report) \<in> set (all_found tls_report)" "fd_key (hd (tls_found tls_report)) = ''tls:3''"
    by (simp_all add: tls_report_def all_found_def)
  with sync_follows_reports [OF d(2), of tls_report "days 20"] d(1) show ?thesis by metis
qed

theorem items_well_formed_witness: "\<exists>d. approved = Inr d \<and> distinct (map it_key (items d))"
  using items_well_formed history_reached by metis

end
