(* ===== verification/Advisory_Match.thy ===== *)
theory Advisory_Match
  imports Rpm_Versions
begin

text \<open>
  Distribution advisories against installed packages, \<^verbatim>\<open>modules/advisories/match.py\<close> and
  \<^verbatim>\<open>releases.py\<close>, on the version orders: which rows of the advisory table are open, fixed or
  without fix for a version, the findings of one asset, and the cache of evaluations several
  requests share. Versions are compared through the locale \<open>version_order\<close>, interpreted on
  the dpkg and rpm comparisons.
\<close>

section \<open>Releases\<close>

definition split_release :: "string \<Rightarrow> string \<times> string" where
  "split_release release = split_first CHR '':'' release"

definition DISTRO_FAMILY :: "(string \<times> string) list" where
  "DISTRO_FAMILY = [(''ubuntu'', ''deb''), (''debian'', ''deb''), (''rhel'', ''rpm''), (''rocky'', ''rpm''), (''alma'', ''rpm'')]"

definition family :: "string \<Rightarrow> string option" where
  "family release = map_of DISTRO_FAMILY (fst (split_release release))"

definition OS_IDS :: "(string \<times> string) list" where
  "OS_IDS = [(''ubuntu'', ''ubuntu''), (''debian'', ''debian''), (''rhel'', ''rhel''), (''rocky'', ''rocky''), (''almalinux'', ''alma'')]"

text \<open>\<^verbatim>\<open>re.match("^\d{2}\.\d{2}$", v)\<close>: the end may be followed by one line feed.\<close>

definition ubuntu_version :: "string \<Rightarrow> bool" where
  "ubuntu_version v = (case v of a # b # c # d # e # rest \<Rightarrow>
       ascii_digit a \<and> ascii_digit b \<and> c = CHR ''.'' \<and> ascii_digit d \<and> ascii_digit e \<and> rest \<in> {[], [CHR 0x0A]}
     | _ \<Rightarrow> False)"

definition from_platform :: "string option \<Rightarrow> string option \<Rightarrow> string option \<times> string" where
  "from_platform os_id version_id =
     (if os_id = None \<or> os_id = Some [] then (None, ''unknown'')
      else case map_of OS_IDS (py_lower (the os_id)) of
        None \<Rightarrow> (None, ''unsupported'')
      | Some distro \<Rightarrow>
          let version = py_strip (case version_id of None \<Rightarrow> [] | Some v \<Rightarrow> v) in
          if distro = ''ubuntu'' then (if ubuntu_version version then (Some (''ubuntu:'' @ version), ''ok'') else (None, ''unknown''))
          else let major = fst (split_first CHR ''.'' version) in
            if major \<noteq> [] \<and> list_all py_isdigit major then (Some (distro @ '':'' @ major), ''ok'') else (None, ''unknown''))"

section \<open>The order of published versions\<close>

locale version_order =
  fixes cmp :: "string \<Rightarrow> string \<Rightarrow> (version_error, int) result" and published :: "string \<Rightarrow> bool"
  assumes total: "published a \<Longrightarrow> published b \<Longrightarrow> \<exists>x. cmp a b = Inr x"
    and antisym: "cmp a b = Inr x \<Longrightarrow> cmp b a = Inr (- x)"
    and trans: "published b \<Longrightarrow> cmp a b = Inr x \<Longrightarrow> x \<le> 0 \<Longrightarrow> cmp b c = Inr y \<Longrightarrow> y \<le> 0 \<Longrightarrow>
      \<exists>z \<le> 0. cmp a c = Inr z"
begin

definition le :: "string \<Rightarrow> string \<Rightarrow> bool" where
  "le a b \<longleftrightarrow> (\<exists>c \<le> 0. cmp a b = Inr c)"

lemma le_refl: "published a \<Longrightarrow> le a a"
  using total [of a a] antisym [of a a] by (fastforce simp: le_def)

lemma le_trans: "published b \<Longrightarrow> le a b \<Longrightarrow> le b c \<Longrightarrow> le a c"
  unfolding le_def using trans by blast

lemma le_cases: "published a \<Longrightarrow> published b \<Longrightarrow> le a b \<or> le b a"
  using total [of a b] antisym [of a b] by (fastforce simp: le_def)

lemma cmp_neg: "cmp a b = Inr c \<Longrightarrow> c < 0 \<Longrightarrow> le a b"
  by (force simp: le_def)

lemma cmp_not_neg: "cmp a b = Inr c \<Longrightarrow> \<not> c < 0 \<Longrightarrow> le b a"
  using antisym [of a b c] by (force simp: le_def)

lemma cmp_not_pos: "cmp a b = Inr c \<Longrightarrow> \<not> c > 0 \<Longrightarrow> le a b"
  by (force simp: le_def)

lemma le_not_less: "le a b \<Longrightarrow> cmp b a = Inr c \<Longrightarrow> 0 \<le> c"
  using antisym [of b a c] by (auto simp: le_def)

text \<open>The oldest and the newest of a set.\<close>

definition oldest :: "string set \<Rightarrow> string \<Rightarrow> bool" where
  "oldest V v \<longleftrightarrow> v \<in> V \<and> (\<forall>w \<in> V. le v w)"

definition newest :: "string set \<Rightarrow> string \<Rightarrow> bool" where
  "newest V v \<longleftrightarrow> v \<in> V \<and> (\<forall>w \<in> V. le w v)"

lemma oldest_insert:
  assumes v: "oldest V v" and pub: "\<forall>x \<in> insert w V. published x" and c: "cmp w v = Inr c"
  shows "oldest (insert w V) (if c < 0 then w else v)"
proof (cases "c < 0")
  case True
  then have "le w v" using c by (rule cmp_neg [rotated])
  then have "le w x" if "x \<in> V" for x using that v pub le_trans [of v w x] by (auto simp: oldest_def)
  then show ?thesis using True pub le_refl by (auto simp: oldest_def)
next
  case False
  then have "le v w" using c by (rule cmp_not_neg [rotated])
  then show ?thesis using False v by (auto simp: oldest_def)
qed

lemma newest_insert:
  assumes v: "newest V v" and pub: "\<forall>x \<in> insert w V. published x" and c: "cmp w v = Inr c"
  shows "newest (insert w V) (if c > 0 then w else v)"
proof (cases "c > 0")
  case True
  then have "le v w" using c by (intro cmp_not_neg [of w v c]) auto
  then have "le x w" if "x \<in> V" for x using that v pub le_trans [of v x w] by (auto simp: newest_def)
  then show ?thesis using True pub le_refl by (auto simp: newest_def)
next
  case False
  then have "le w v" using c by (rule cmp_not_pos [rotated])
  then show ?thesis using False v by (auto simp: newest_def)
qed

lemma single: "published v \<Longrightarrow> oldest {v} v" "published v \<Longrightarrow> newest {v} v"
  using le_refl by (auto simp: oldest_def newest_def)

end

lemma deb_compare_Inr: "deb_compare a b = Inr x \<longleftrightarrow> (\<exists>p q. deb_split a = Inr p \<and> deb_split b = Inr q \<and> x = deb_triple_cmp p q)"
  by (auto simp: deb_compare_def res_bind_Inr_iff)

lemma rpm_compare_Inr: "rpm_compare a b = Inr x \<longleftrightarrow> (\<exists>p q. rpm_split a = Inr p \<and> rpm_split b = Inr q \<and> x = rpm_triple_cmp p q)"
  by (auto simp: rpm_compare_def res_bind_Inr_iff)

interpretation deb_order: version_order deb_compare plain_version
proof
  fix a b c and x y :: int
  show "plain_version a \<Longrightarrow> plain_version b \<Longrightarrow> \<exists>x. deb_compare a b = Inr x"
    unfolding deb_compare_Inr plain_version_def using deb_split_ascii by metis
  show "deb_compare a b = Inr x \<Longrightarrow> deb_compare b a = Inr (- x)"
    unfolding deb_compare_Inr using deb_triple.cmp_antisym by metis
  show "deb_compare a b = Inr x \<Longrightarrow> x \<le> 0 \<Longrightarrow> deb_compare b c = Inr y \<Longrightarrow> y \<le> 0 \<Longrightarrow> \<exists>z \<le> 0. deb_compare a c = Inr z"
    unfolding deb_compare_Inr using deb_triple.cmp_trans by (metis sum.inject(2))
qed

definition released :: "string \<Rightarrow> bool" where
  "released v \<longleftrightarrow> rpm_version_text v \<and> (case rpm_split v of Inl _ \<Rightarrow> False | Inr (_, _, release) \<Rightarrow> release \<noteq> [])"

interpretation rpm_order: version_order rpm_compare released
proof
  fix a b c and x y :: int
  show "released a \<Longrightarrow> released b \<Longrightarrow> \<exists>x. rpm_compare a b = Inr x"
    unfolding rpm_compare_Inr released_def using rpm_split_text by metis
  show "rpm_compare a b = Inr x \<Longrightarrow> rpm_compare b a = Inr (- x)"
    unfolding rpm_compare_Inr using rpm_triple_antisym by metis
  have "rpm_split b = Inr p \<Longrightarrow> snd (snd p) \<noteq> []" if "released b" for p
    using that by (auto simp: released_def)
  then show "released b \<Longrightarrow> rpm_compare a b = Inr x \<Longrightarrow> x \<le> 0 \<Longrightarrow> rpm_compare b c = Inr y \<Longrightarrow> y \<le> 0 \<Longrightarrow> \<exists>z \<le> 0. rpm_compare a c = Inr z"
    unfolding rpm_compare_Inr using rpm_triple_trans by (metis sum.inject(2))
qed

text \<open>What a family publishes: plain versions for dpkg, versions with a release for rpm.\<close>

definition published :: "string \<Rightarrow> string \<Rightarrow> bool" where
  "published fam v \<longleftrightarrow> (if fam = ''deb'' then plain_version v else released v)"

interpretation ver: version_order "version_compare fam" "published fam" for fam
  unfolding version_compare_def published_def
  by (cases "fam = ''deb''") (simp_all add: deb_order.version_order_axioms rpm_order.version_order_axioms)

section \<open>Evaluating advisories\<close>

record vuln =
  v_release :: string
  v_package :: string
  v_cves :: "string list"
  v_kind :: string
  v_record :: string
  v_introduced :: "string option"
  v_fixed :: "string option"
  v_last :: "string option"
  v_avail :: string
  v_severity :: "string option"
  v_title :: "string option"

datatype state = Open | Unfixed | Fixed

text \<open>\<^verbatim>\<open>if x\<close> for an optional text.\<close>

definition said :: "string option \<Rightarrow> bool" where "said x = (x \<noteq> None \<and> x \<noteq> Some [])"

definition affected :: "string \<Rightarrow> string \<Rightarrow> string option \<Rightarrow> string option \<Rightarrow> string option \<Rightarrow> (version_error, bool) result" where
  "affected fam version introduced fixed until =
     res_bind (if said introduced then res_bind (version_compare fam version (the introduced)) (\<lambda>c. Inr (c < 0)) else Inr False)
      (\<lambda>before. if before then Inr False
        else if said fixed then res_bind (version_compare fam version (the fixed)) (\<lambda>c. Inr (c < 0))
        else if said until then res_bind (version_compare fam version (the until)) (\<lambda>c. Inr (c \<le> 0))
        else Inr True)"

text \<open>The state of one row for a version; \<open>None\<close>: the row says nothing about it.\<close>

definition row_state :: "string \<Rightarrow> string \<Rightarrow> vuln \<Rightarrow> (version_error, state option) result" where
  "row_state fam version r =
     res_bind (if said (v_introduced r) then res_bind (version_compare fam version (the (v_introduced r))) (\<lambda>c. Inr (c < 0)) else Inr False)
      (\<lambda>before. if before then Inr None
        else if said (v_fixed r)
          then res_bind (version_compare fam version (the (v_fixed r))) (\<lambda>c. Inr (Some (if c < 0 then Open else Fixed)))
        else if said (v_last r)
          then res_bind (version_compare fam version (the (v_last r))) (\<lambda>c. Inr (if c > 0 then None else Some Unfixed))
        else Inr (Some Unfixed))"

record hit =
  h_cve :: string
  h_kind :: string
  h_record :: string
  h_fixed :: "string option"
  h_avail :: string
  h_severity :: "string option"
  h_title :: "string option"
  h_state :: state

definition hit_of :: "vuln \<Rightarrow> state \<Rightarrow> string \<Rightarrow> hit" where
  "hit_of r st cve = \<lparr> h_cve = cve, h_kind = v_kind r, h_record = v_record r, h_fixed = v_fixed r, h_avail = v_avail r,
     h_severity = v_severity r, h_title = v_title r, h_state = st \<rparr>"

fun evaluate_rows :: "string \<Rightarrow> string \<Rightarrow> vuln list \<Rightarrow> (version_error, hit list) result" where
  "evaluate_rows fam version [] = Inr []"
| "evaluate_rows fam version (r # rs) = res_bind (row_state fam version r) (\<lambda>st.
     res_bind (evaluate_rows fam version rs) (\<lambda>hs.
       Inr ((case st of None \<Rightarrow> [] | Some s \<Rightarrow> map (hit_of r s) (v_cves r)) @ hs)))"

type_synonym eval_key = "string \<times> string \<times> string"

definition fam_text :: "string \<Rightarrow> string" where
  "fam_text release = (case family release of None \<Rightarrow> [] | Some f \<Rightarrow> f)"

definition evaluate_key :: "vuln list \<Rightarrow> eval_key \<Rightarrow> (version_error, hit list) result" where
  "evaluate_key table key = (case key of (release, package, version) \<Rightarrow>
     evaluate_rows (fam_text release) version (filter (\<lambda>r. v_release r = release \<and> v_package r = package) table))"

section \<open>The findings of an asset\<close>

text \<open>An installed package under the name its distribution publishes: (key, version, binary name).\<close>

type_synonym keyed = "string \<times> string \<times> string"

record opened =
  o_cve :: string
  o_package :: string
  o_binaries :: "string list"
  o_installed :: string
  o_fixed :: "(string \<times> string) list"
  o_advisories :: "string list"
  o_severity :: "string option"
  o_title :: "string option"

record unfixed =
  x_cve :: string
  x_package :: string
  x_binaries :: "string list"
  x_installed :: string
  x_severity :: "string option"
  x_availability :: string

record tally =
  t_opened :: "((string \<times> string) \<times> opened) list"
  t_resolved :: "(string \<times> string) list"
  t_unfixed :: "((string \<times> string) \<times> unfixed) list"

definition or_else :: "string option \<Rightarrow> string option \<Rightarrow> string option" where
  "or_else a b = (if said a then a else b)"

definition newer_fix :: "string \<Rightarrow> string \<Rightarrow> string option \<Rightarrow> (version_error, string) result" where
  "newer_fix fam fixed prev = (case prev of None \<Rightarrow> Inr fixed
     | Some p \<Rightarrow> res_bind (version_compare fam fixed p) (\<lambda>c. Inr (if c > 0 then fixed else p)))"

definition open_hit :: "string \<Rightarrow> keyed \<Rightarrow> hit \<Rightarrow> opened \<Rightarrow> (version_error, opened) result" where
  "open_hit fam pkg h f = (case pkg of (key, version, name) \<Rightarrow>
     res_bind (version_compare fam version (o_installed f)) (\<lambda>c.
     res_bind (newer_fix fam (the (h_fixed h)) (map_of (o_fixed f) (h_avail h))) (\<lambda>fx.
       Inr (f\<lparr> o_binaries := List.insert name (o_binaries f),
           o_installed := (if c < 0 then version else o_installed f),
           o_fixed := AList.update (h_avail h) fx (o_fixed f),
           o_advisories := (if h_kind h = ''advisory'' then List.insert (h_record h) (o_advisories f) else o_advisories f),
           o_title := (if h_kind h = ''advisory'' then or_else (o_title f) (h_title h) else o_title f),
           o_severity := or_else (o_severity f) (h_severity h) \<rparr>))))"

definition fresh_opened :: "keyed \<Rightarrow> hit \<Rightarrow> opened" where
  "fresh_opened pkg h = (case pkg of (key, version, name) \<Rightarrow> \<lparr> o_cve = h_cve h, o_package = key, o_binaries = [],
     o_installed = version, o_fixed = [], o_advisories = [], o_severity = None, o_title = None \<rparr>)"

definition fresh_unfixed :: "keyed \<Rightarrow> hit \<Rightarrow> unfixed" where
  "fresh_unfixed pkg h = (case pkg of (key, version, name) \<Rightarrow> \<lparr> x_cve = h_cve h, x_package = key, x_binaries = [],
     x_installed = version, x_severity = None, x_availability = h_avail h \<rparr>)"

definition setdefault :: "((string \<times> string) \<times> 'a) list \<Rightarrow> string \<times> string \<Rightarrow> 'a \<Rightarrow> 'a" where
  "setdefault m k d = (case map_of m k of None \<Rightarrow> d | Some v \<Rightarrow> v)"

definition count_hit :: "string \<Rightarrow> keyed \<times> hit \<Rightarrow> tally \<Rightarrow> (version_error, tally) result" where
  "count_hit fam e t = (case e of (pkg, h) \<Rightarrow>
     let k = (fst pkg, h_cve h) in
     case h_state h of
       Fixed \<Rightarrow> Inr (t\<lparr> t_resolved := List.insert k (t_resolved t) \<rparr>)
     | Unfixed \<Rightarrow>
         let u = setdefault (t_unfixed t) k (fresh_unfixed pkg h) in
         Inr (t\<lparr> t_unfixed := AList.update k (u\<lparr> x_binaries := List.insert (snd (snd pkg)) (x_binaries u),
           x_severity := or_else (x_severity u) (h_severity h) \<rparr>) (t_unfixed t) \<rparr>)
     | Open \<Rightarrow>
         res_bind (open_hit fam pkg h (setdefault (t_opened t) k (fresh_opened pkg h)))
           (\<lambda>f. Inr (t\<lparr> t_opened := AList.update k f (t_opened t) \<rparr>)))"

fun count_all :: "string \<Rightarrow> (keyed \<times> hit) list \<Rightarrow> tally \<Rightarrow> (version_error, tally) result" where
  "count_all fam [] t = Inr t"
| "count_all fam (e # es) t = res_bind (count_hit fam e t) (\<lambda>t'. count_all fam es t')"

definition no_tally :: tally where "no_tally = \<lparr> t_opened = [], t_resolved = [], t_unfixed = [] \<rparr>"

text \<open>The hits of every package, in the order of the packages.\<close>

fun hits_of :: "vuln list \<Rightarrow> string \<Rightarrow> keyed list \<Rightarrow> (version_error, (keyed \<times> hit) list) result" where
  "hits_of table release [] = Inr []"
| "hits_of table release (p # ps) = res_bind (evaluate_key table (release, fst p, fst (snd p))) (\<lambda>hs.
     res_bind (hits_of table release ps) (\<lambda>rest. Inr (map (Pair p) hs @ rest)))"

definition tally_of :: "vuln list \<Rightarrow> string \<Rightarrow> keyed list \<Rightarrow> (version_error, tally) result" where
  "tally_of table release pkgs = res_bind (hits_of table release pkgs) (\<lambda>es. count_all (fam_text release) es no_tally)"

text \<open>The version to install, and where it is available.\<close>

definition fixed_in :: "opened \<Rightarrow> string option \<times> string" where
  "fixed_in f = (case map_of (o_fixed f) ''standard'' of
     Some v \<Rightarrow> (Some v, ''standard'') | None \<Rightarrow> (map_of (o_fixed f) ''pro'', ''pro''))"

definition reported_unfixed :: "tally \<Rightarrow> unfixed list" where
  "reported_unfixed t = map snd (filter (\<lambda>(k, u). map_of (t_opened t) k = None \<and> k \<notin> set (t_resolved t)) (t_unfixed t))"

text \<open>The test for a single range agrees with the states: open and unfixed rows are the affecting ones.\<close>

lemma affected_row_state:
  "affected fam version (v_introduced r) (v_fixed r) (v_last r) =
   res_bind (row_state fam version r) (\<lambda>st. Inr (st = Some Open \<or> st = Some Unfixed))"
proof (cases "said (v_introduced r)")
  case True
  then show ?thesis
    by (cases "version_compare fam version (the (v_introduced r))"; cases "version_compare fam version (the (v_fixed r))";
        cases "version_compare fam version (the (v_last r))") (auto simp: affected_def row_state_def)
next
  case False
  then show ?thesis
    by (cases "version_compare fam version (the (v_fixed r))"; cases "version_compare fam version (the (v_last r))")
      (auto simp: affected_def row_state_def)
qed

section \<open>What a finding says\<close>

text \<open>The open hits counted so far for one package and CVE.\<close>

definition open_at :: "(keyed \<times> hit) list \<Rightarrow> string \<times> string \<Rightarrow> (keyed \<times> hit) set" where
  "open_at es k = {(p, h) \<in> set es. h_state h = Open \<and> (fst p, h_cve h) = k}"

definition installed_at :: "(keyed \<times> hit) set \<Rightarrow> string set" where
  "installed_at E = (\<lambda>(p, h). fst (snd p)) ` E"

definition fixes_at :: "(keyed \<times> hit) set \<Rightarrow> string \<Rightarrow> string set" where
  "fixes_at E a = (\<lambda>(p, h). the (h_fixed h)) ` {(p, h) \<in> E. h_avail h = a}"

definition fix_ok :: "string \<Rightarrow> string set \<Rightarrow> string option \<Rightarrow> bool" where
  "fix_ok fam V x \<longleftrightarrow> (case x of None \<Rightarrow> V = {} | Some v \<Rightarrow> ver.newest fam V v)"

definition opened_ok :: "string \<Rightarrow> (keyed \<times> hit) set \<Rightarrow> opened \<Rightarrow> bool" where
  "opened_ok fam E f \<longleftrightarrow> ver.oldest fam (installed_at E) (o_installed f) \<and>
     (\<forall>a. fix_ok fam (fixes_at E a) (map_of (o_fixed f) a))"

definition events_published :: "string \<Rightarrow> (keyed \<times> hit) set \<Rightarrow> bool" where
  "events_published fam E \<longleftrightarrow> (\<forall>(p, h) \<in> E. published fam (fst (snd p)) \<and> published fam (the (h_fixed h)))"

lemma installed_insert: "installed_at (insert (p, h) E) = insert (fst (snd p)) (installed_at E)"
  by (simp add: installed_at_def)

lemma at_none [simp]: "installed_at {} = {}" "fixes_at {} a = {}"
  by (simp_all add: installed_at_def fixes_at_def)

lemma fixes_insert: "fixes_at (insert (p, h) E) a = (if h_avail h = a then insert (the (h_fixed h)) (fixes_at E a) else fixes_at E a)"
  by (auto simp: fixes_at_def)

lemma map_of_update: "map_of (AList.update k v m) = (map_of m)(k \<mapsto> v)"
  by (rule AList.update_conv')

lemma newer_fix_newest:
  assumes "fix_ok fam V prev" "\<forall>x \<in> insert w V. published fam x"
  shows "\<exists>v. newer_fix fam w prev = Inr v \<and> ver.newest fam (insert w V) v"
proof (cases prev)
  case None
  then show ?thesis using assms ver.single by (simp add: newer_fix_def fix_ok_def)
next
  case (Some p)
  then have p: "ver.newest fam V p" "published fam p" using assms by (auto simp: ver.newest_def fix_ok_def)
  then obtain c where "version_compare fam w p = Inr c" using ver.total assms(2) by blast
  then show ?thesis using ver.newest_insert [OF p(1) assms(2)] Some by (simp add: newer_fix_def)
qed

lemma open_hit_ok:
  assumes f: "opened_ok fam E f" and pub: "events_published fam (insert (p, h) E)"
  shows "\<exists>f'. open_hit fam p h f = Inr f' \<and> opened_ok fam (insert (p, h) E) f'"
proof -
  obtain key version name where p: "p = (key, version, name)" by (cases p)
  have inst: "ver.oldest fam (installed_at E) (o_installed f)" "\<forall>x \<in> insert version (installed_at E). published fam x"
    using f pub by (auto simp: opened_ok_def events_published_def installed_at_def p)
  then obtain c where c: "version_compare fam version (o_installed f) = Inr c"
    using ver.total by (fastforce simp: ver.oldest_def)
  have fx: "\<forall>x \<in> insert (the (h_fixed h)) (fixes_at E (h_avail h)). published fam x"
    using pub by (auto simp: events_published_def fixes_at_def)
  have "fix_ok fam (fixes_at E (h_avail h)) (map_of (o_fixed f) (h_avail h))"
    using f by (simp add: opened_ok_def)
  from newer_fix_newest [OF this fx] obtain v where
    v: "newer_fix fam (the (h_fixed h)) (map_of (o_fixed f) (h_avail h)) = Inr v"
      "ver.newest fam (insert (the (h_fixed h)) (fixes_at E (h_avail h))) v" by blast
  show ?thesis
    using f v ver.oldest_insert [OF inst c]
    by (auto simp: open_hit_def p c opened_ok_def installed_insert fixes_insert map_of_update fix_ok_def [of _ _ "Some _"])
qed

lemma fresh_open_ok:
  assumes "events_published fam {(p, h)}"
  shows "\<exists>f'. open_hit fam p h (fresh_opened p h) = Inr f' \<and> opened_ok fam {(p, h)} f'"
proof -
  obtain key version name where p: "p = (key, version, name)" by (cases p)
  have pub: "published fam version" "published fam (the (h_fixed h))" using assms by (auto simp: events_published_def p)
  obtain c where c: "version_compare fam version version = Inr c" using ver.total pub(1) by blast
  have "ver.newest fam {the (h_fixed h)} (the (h_fixed h))" "ver.oldest fam {version} version"
    using ver.single pub by auto
  then show ?thesis
    by (auto simp: open_hit_def fresh_opened_def p c newer_fix_def opened_ok_def installed_insert fixes_insert fix_ok_def)
qed

text \<open>After counting: exactly the packages and CVEs with an open hit are listed, each with the oldest
  installed version and, per repository, the newest fix.\<close>

definition listed :: "string \<Rightarrow> (keyed \<times> hit) set \<Rightarrow> opened option \<Rightarrow> bool" where
  "listed fam E x \<longleftrightarrow> (case x of None \<Rightarrow> E = {} | Some f \<Rightarrow> E \<noteq> {} \<and> opened_ok fam E f)"

definition tally_ok :: "string \<Rightarrow> (keyed \<times> hit) list \<Rightarrow> tally \<Rightarrow> bool" where
  "tally_ok fam es t \<longleftrightarrow> (\<forall>k. listed fam (open_at es k) (map_of (t_opened t) k)) \<and>
     set (t_resolved t) = {(fst p, h_cve h) |p h. (p, h) \<in> set es \<and> h_state h = Fixed} \<and>
     dom (map_of (t_unfixed t)) = {(fst p, h_cve h) |p h. (p, h) \<in> set es \<and> h_state h = Unfixed}"

lemma open_at_snoc: "open_at (es @ [(p, h)]) k =
    (if h_state h = Open \<and> (fst p, h_cve h) = k then insert (p, h) (open_at es k) else open_at es k)"
  by (auto simp: open_at_def)

lemma count_hit_ok:
  assumes t: "tally_ok fam es t" and pub: "\<And>k. events_published fam (open_at (es @ [(p, h)]) k)"
  shows "\<exists>t'. count_hit fam (p, h) t = Inr t' \<and> tally_ok fam (es @ [(p, h)]) t'"
proof -
  let ?k = "(fst p, h_cve h)"
  have l: "listed fam (open_at es k) (map_of (t_opened t) k)" for k using t unfolding tally_ok_def by blast
  have r: "set (t_resolved t) = {(fst p, h_cve h) |p h. (p, h) \<in> set es \<and> h_state h = Fixed}"
    and u: "dom (map_of (t_unfixed t)) = {(fst p, h_cve h) |p h. (p, h) \<in> set es \<and> h_state h = Unfixed}"
    using t unfolding tally_ok_def by blast+
  show ?thesis
  proof (cases "h_state h")
    case Open
    have at: "open_at (es @ [(p, h)]) ?k = insert (p, h) (open_at es ?k)" using Open by (simp add: open_at_snoc)
    have "\<exists>f'. open_hit fam p h (setdefault (t_opened t) ?k (fresh_opened p h)) = Inr f' \<and> opened_ok fam (insert (p, h) (open_at es ?k)) f'"
    proof (cases "map_of (t_opened t) ?k")
      case None
      then show ?thesis using fresh_open_ok [of fam p h] pub [of ?k] at l [of ?k] by (simp add: setdefault_def listed_def)
    next
      case (Some f)
      then show ?thesis using open_hit_ok pub [of ?k] at l [of ?k] by (simp add: setdefault_def listed_def)
    qed
    then obtain f' where f': "open_hit fam p h (setdefault (t_opened t) ?k (fresh_opened p h)) = Inr f'"
        "opened_ok fam (insert (p, h) (open_at es ?k)) f'" by blast
    have "listed fam (open_at (es @ [(p, h)]) k) (map_of (AList.update ?k f' (t_opened t)) k)" for k
      using l [of k] f'(2) Open by (cases "k = ?k") (simp_all add: map_of_update open_at_snoc listed_def [of _ _ "Some _"])
    moreover have "count_hit fam (p, h) t = Inr (t\<lparr> t_opened := AList.update ?k f' (t_opened t) \<rparr>)"
      using f'(1) Open by (simp add: count_hit_def)
    ultimately show ?thesis using r u Open by (auto simp: tally_ok_def)
  next
    case Unfixed
    obtain x where "count_hit fam (p, h) t = Inr (t\<lparr> t_unfixed := AList.update ?k x (t_unfixed t) \<rparr>)"
      using Unfixed by (auto simp: count_hit_def Let_def)
    moreover have "dom (map_of (AList.update ?k x (t_unfixed t))) =
        {(fst q, h_cve g) |q g. (q, g) \<in> set (es @ [(p, h)]) \<and> h_state g = Unfixed}" for x
      using u Unfixed by (cases p) (auto simp: map_of_update)
    ultimately show ?thesis using l r Unfixed by (auto simp: tally_ok_def open_at_snoc)
  next
    case Fixed
    then have "count_hit fam (p, h) t = Inr (t\<lparr> t_resolved := List.insert ?k (t_resolved t) \<rparr>)"
      by (simp add: count_hit_def)
    then show ?thesis using l r u Fixed by (cases p) (auto simp: tally_ok_def open_at_snoc)
  qed
qed

lemma count_all_ok:
  assumes "tally_ok fam fin t" "\<And>k. events_published fam (open_at (fin @ es) k)"
  shows "\<exists>t'. count_all fam es t = Inr t' \<and> tally_ok fam (fin @ es) t'"
  using assms
proof (induction es arbitrary: fin t)
  case (Cons e es)
  obtain p h where e: "e = (p, h)" by (cases e)
  have sub: "open_at (fin @ [(p, h)]) k \<subseteq> open_at (fin @ e # es) k" for k by (auto simp: open_at_def e)
  obtain t1 where t1: "count_hit fam (p, h) t = Inr t1" "tally_ok fam (fin @ [(p, h)]) t1"
    using count_hit_ok [OF Cons.prems(1), of p h] Cons.prems(2) sub by (auto simp: events_published_def) blast
  show ?case using Cons.IH [OF t1(2)] Cons.prems(2) t1(1) by (simp add: e)
qed simp

text \<open>A row that advises on a CVE of a package in a release.\<close>

definition advises :: "string \<Rightarrow> string \<Rightarrow> string \<Rightarrow> vuln \<Rightarrow> bool" where
  "advises release package cve r \<longleftrightarrow> v_release r = release \<and> v_package r = package \<and> cve \<in> set (v_cves r)"

text \<open>The versions installed and the versions in the rows of the release are published ones.\<close>

definition data_ok :: "vuln list \<Rightarrow> string \<Rightarrow> keyed list \<Rightarrow> bool" where
  "data_ok table release pkgs \<longleftrightarrow> (\<forall>p \<in> set pkgs. published (fam_text release) (fst (snd p))) \<and>
     (\<forall>r \<in> set table. v_release r = release \<longrightarrow>
       (\<forall>x \<in> {v_introduced r, v_fixed r, v_last r}. said x \<longrightarrow> published (fam_text release) (the x)))"

lemma row_state_total:
  assumes "published fam v" "\<forall>x \<in> {v_introduced r, v_fixed r, v_last r}. said x \<longrightarrow> published fam (the x)"
  shows "\<exists>st. row_state fam v r = Inr st"
proof -
  have "\<exists>c. version_compare fam v (the x) = Inr c" if "x \<in> {v_introduced r, v_fixed r, v_last r}" "said x" for x
    using ver.total assms that by blast
  then have "said (v_introduced r) \<Longrightarrow> \<exists>c. version_compare fam v (the (v_introduced r)) = Inr c"
    "said (v_fixed r) \<Longrightarrow> \<exists>c. version_compare fam v (the (v_fixed r)) = Inr c"
    "said (v_last r) \<Longrightarrow> \<exists>c. version_compare fam v (the (v_last r)) = Inr c" by blast+
  then show ?thesis by (auto simp: row_state_def)
qed

lemma evaluate_rows_hits:
  assumes "\<forall>r \<in> set rs. \<exists>st. row_state fam v r = Inr st"
  shows "\<exists>hs. evaluate_rows fam v rs = Inr hs \<and> (\<forall>h. h \<in> set hs \<longleftrightarrow>
    (\<exists>r \<in> set rs. \<exists>s cve. row_state fam v r = Inr (Some s) \<and> cve \<in> set (v_cves r) \<and> h = hit_of r s cve))"
  using assms
proof (induction rs)
  case (Cons r rs)
  then obtain st hs where "row_state fam v r = Inr st" "evaluate_rows fam v rs = Inr hs"
      "\<forall>h. h \<in> set hs \<longleftrightarrow> (\<exists>r \<in> set rs. \<exists>s cve. row_state fam v r = Inr (Some s) \<and> cve \<in> set (v_cves r) \<and> h = hit_of r s cve)"
    by auto
  then show ?case by (cases st) auto
qed simp

lemma hits_of_spec:
  assumes "data_ok table release pkgs"
  shows "\<exists>es. hits_of table release pkgs = Inr es \<and> (\<forall>p h. (p, h) \<in> set es \<longleftrightarrow> p \<in> set pkgs \<and>
    (\<exists>r \<in> set table. \<exists>s cve. advises release (fst p) cve r \<and> row_state (fam_text release) (fst (snd p)) r = Inr (Some s) \<and> h = hit_of r s cve))"
  using assms
proof (induction pkgs)
  case (Cons q qs)
  let ?rs = "filter (\<lambda>r. v_release r = release \<and> v_package r = fst q) table"
  have "\<forall>r \<in> set ?rs. \<exists>st. row_state (fam_text release) (fst (snd q)) r = Inr st"
    using Cons.prems row_state_total by (simp add: data_ok_def)
  from evaluate_rows_hits [OF this] obtain hs where
    hs: "evaluate_key table (release, fst q, fst (snd q)) = Inr hs" "\<And>h. h \<in> set hs \<longleftrightarrow>
      (\<exists>r \<in> set ?rs. \<exists>s cve. row_state (fam_text release) (fst (snd q)) r = Inr (Some s) \<and> cve \<in> set (v_cves r) \<and> h = hit_of r s cve)"
    by (auto simp: evaluate_key_def)
  have "data_ok table release qs" using Cons.prems by (simp add: data_ok_def)
  from Cons.IH [OF this] obtain es where es: "hits_of table release qs = Inr es"
    "\<And>p h. (p, h) \<in> set es \<longleftrightarrow> p \<in> set qs \<and> (\<exists>r \<in> set table. \<exists>s cve. advises release (fst p) cve r \<and>
      row_state (fam_text release) (fst (snd p)) r = Inr (Some s) \<and> h = hit_of r s cve)" by blast
  have q: "(p, h) \<in> set (map (Pair q) hs) \<longleftrightarrow> p = q \<and> (\<exists>r \<in> set table. \<exists>s cve. advises release (fst p) cve r \<and>
      row_state (fam_text release) (fst (snd p)) r = Inr (Some s) \<and> h = hit_of r s cve)" for p h
  proof -
    have "(p, h) \<in> set (map (Pair q) hs) \<longleftrightarrow> p = q \<and> h \<in> set hs" by auto
    then show ?thesis unfolding hs(2) advises_def set_filter by blast
  qed
  have "hits_of table release (q # qs) = Inr (map (Pair q) hs @ es)" by (simp add: hs(1) es(1))
  moreover have "(p, h) \<in> set (map (Pair q) hs @ es) \<longleftrightarrow> p \<in> set (q # qs) \<and> (\<exists>r \<in> set table. \<exists>s cve.
      advises release (fst p) cve r \<and> row_state (fam_text release) (fst (snd p)) r = Inr (Some s) \<and> h = hit_of r s cve)" for p h
    unfolding set_append Un_iff q es(2) by auto
  ultimately show ?case by blast
qed simp

text \<open>An open row of a package and CVE: the open hit it gives.\<close>

definition open_row :: "vuln list \<Rightarrow> string \<Rightarrow> keyed list \<Rightarrow> string \<Rightarrow> string \<Rightarrow> vuln \<Rightarrow> bool" where
  "open_row table release pkgs package cve r \<longleftrightarrow> r \<in> set table \<and> advises release package cve r \<and>
     (\<exists>p \<in> set pkgs. fst p = package \<and> row_state (fam_text release) (fst (snd p)) r = Inr (Some Open))"

lemma open_row_fixed: "row_state fam v r = Inr (Some Open) \<Longrightarrow> said (v_fixed r)"
  by (auto simp: row_state_def res_bind_Inr_iff split: if_splits)

lemma not_open_at_fix:
  assumes "ver.le fam (the (v_fixed r)) v" "said (v_fixed r)"
  shows "row_state fam v r \<noteq> Inr (Some Open)"
proof
  assume "row_state fam v r = Inr (Some Open)"
  then obtain c where "version_compare fam v (the (v_fixed r)) = Inr c" "c < 0"
    using assms(2) by (auto simp: row_state_def res_bind_Inr_iff split: if_splits)
  then show False using ver.le_not_less [OF assms(1)] by fastforce
qed

text \<open>
  C29. The advice of a finding is right. For versions the distribution publishes, the analysis of
  an asset never fails; it lists a CVE for a package exactly if some installed version of the
  package is open under some row of the asset's release; and whenever it names a version to
  install from a repository, no row of that repository that is open for any installed version
  of the package is still open at that version.
\<close>

theorem fix_advice_suffices:
  assumes "data_ok table release pkgs"
  shows "\<exists>t. tally_of table release pkgs = Inr t \<and>
    (\<forall>package cve. map_of (t_opened t) (package, cve) \<noteq> None \<longleftrightarrow> (\<exists>r. open_row table release pkgs package cve r)) \<and>
    (\<forall>package cve f v a. map_of (t_opened t) (package, cve) = Some f \<and> fixed_in f = (Some v, a) \<longrightarrow>
      (\<forall>r. open_row table release pkgs package cve r \<and> v_avail r = a \<longrightarrow> row_state (fam_text release) v r \<noteq> Inr (Some Open)))"
proof -
  let ?fam = "fam_text release"
  obtain es where es: "hits_of table release pkgs = Inr es"
    "\<And>p h. (p, h) \<in> set es \<longleftrightarrow> p \<in> set pkgs \<and> (\<exists>r \<in> set table. \<exists>s cve. advises release (fst p) cve r \<and>
      row_state ?fam (fst (snd p)) r = Inr (Some s) \<and> h = hit_of r s cve)"
    using hits_of_spec [OF assms] by blast
  have openE: "\<exists>r. open_row table release pkgs k c r \<and> h = hit_of r Open c \<and> p \<in> set pkgs"
    if "(p, h) \<in> open_at es (k, c)" for p h k c
    using that es(2) by (fastforce simp: open_at_def open_row_def hit_of_def)
  have openI: "\<exists>p. (p, hit_of r Open c) \<in> open_at es (k, c)" if "open_row table release pkgs k c r" for k c r
    using that es(2) by (fastforce simp: open_at_def open_row_def hit_of_def)
  have "events_published ?fam (open_at es k)" for k
    using assms openE by (cases k) (fastforce simp: events_published_def data_ok_def open_row_def advises_def hit_of_def dest: open_row_fixed)
  then obtain t where t: "tally_of table release pkgs = Inr t" "tally_ok ?fam es t"
    using count_all_ok [of ?fam "[]" no_tally es] es(1)
    by (auto simp: tally_of_def tally_ok_def no_tally_def listed_def open_at_def)
  have l: "listed ?fam (open_at es k) (map_of (t_opened t) k)" for k using t(2) unfolding tally_ok_def by blast
  have "map_of (t_opened t) (k, c) \<noteq> None \<longleftrightarrow> (\<exists>r. open_row table release pkgs k c r)" for k c
    using l [of "(k, c)"] openE [of _ _ k c] openI [of k c] by (fastforce simp: listed_def split: option.splits)
  moreover have "row_state ?fam v r \<noteq> Inr (Some Open)"
    if f: "map_of (t_opened t) (k, c) = Some f" "fixed_in f = (Some v, a)" and r: "open_row table release pkgs k c r" "v_avail r = a"
    for k c f v a r
  proof -
    have "map_of (o_fixed f) a = Some v" using f(2) by (auto simp: fixed_in_def split: option.splits)
    then have "ver.newest ?fam (fixes_at (open_at es (k, c)) a) v"
      using l [of "(k, c)"] f(1) by (auto simp: listed_def opened_ok_def fix_ok_def split: option.splits)
    moreover have "the (v_fixed r) \<in> fixes_at (open_at es (k, c)) a"
      using openI [OF r(1)] r(2) by (force simp: fixes_at_def hit_of_def)
    ultimately have "ver.le ?fam (the (v_fixed r)) v" by (simp add: ver.newest_def)
    moreover have "said (v_fixed r)" using r(1) open_row_fixed by (auto simp: open_row_def)
    ultimately show ?thesis by (rule not_open_at_fix)
  qed
  ultimately show ?thesis using t(1) by blast
qed

definition ssh_row :: vuln where
  "ssh_row = \<lparr> v_release = ''ubuntu:22.04'', v_package = ''openssh'', v_cves = [''CVE-2024-6387''], v_kind = ''advisory'',
     v_record = ''USN-6859-1'', v_introduced = None, v_fixed = Some ''1:8.9p1-3ubuntu0.10'', v_last = None,
     v_avail = ''standard'', v_severity = Some ''high'', v_title = None \<rparr>"

theorem fix_advice_suffices_witness:
  "\<exists>t. tally_of [ssh_row] ''ubuntu:22.04'' [(''openssh'', ''1:8.9p1-3ubuntu0.7'', ''openssh-server'')] = Inr t \<and>
     map_of (t_opened t) (''openssh'', ''CVE-2024-6387'') \<noteq> None"
proof -
  have fam: "fam_text ''ubuntu:22.04'' = ''deb''" by code_simp
  have "data_ok [ssh_row] ''ubuntu:22.04'' [(''openssh'', ''1:8.9p1-3ubuntu0.7'', ''openssh-server'')]"
    by (simp add: data_ok_def ssh_row_def fam published_def plain_version_def is_ascii_def said_def)
  moreover have "row_state ''deb'' ''1:8.9p1-3ubuntu0.7'' ssh_row = Inr (Some Open)" by code_simp
  then have "open_row [ssh_row] ''ubuntu:22.04'' [(''openssh'', ''1:8.9p1-3ubuntu0.7'', ''openssh-server'')]
      ''openssh'' ''CVE-2024-6387'' ssh_row"
    by (simp add: open_row_def advises_def fam) (simp add: ssh_row_def)
  ultimately show ?thesis using fix_advice_suffices by blast
qed

section \<open>The cache of evaluations\<close>

text \<open>
  Every worker keeps evaluations by release, package and version. A call reads the stamp of
  the advisory data (the number of feeds and their latest change), then looks keys up under
  the lock, reads the rows of the missing ones from the database, and stores them under the
  lock. Between these stages other calls run and new data is committed. The data has versions
  0, 1, 2, \<dots>; \<open>T n\<close> is the table and \<open>stamp n\<close> the stamp of version \<open>n\<close>, and what a call
  reads from the database for a key is the evaluation under one version that was current
  during its query.
\<close>

type_synonym evaluation = "(version_error, hit list) result"

datatype call =
  Stamped (c_needed: "eval_key set") (c_start: nat)
| Looked (c_needed: "eval_key set") (c_start: nat) (c_out: "eval_key \<rightharpoonup> evaluation")
| Fetched (c_needed: "eval_key set") (c_start: nat) (c_out: "eval_key \<rightharpoonup> evaluation") (c_fresh: "eval_key \<rightharpoonup> evaluation")

record 's worker =
  version :: nat
  cache :: "eval_key \<rightharpoonup> evaluation"
  cache_stamp :: "'s option"
  calls :: "nat \<Rightarrow> call option"
  answers :: "(nat \<times> nat \<times> eval_key set \<times> (eval_key \<rightharpoonup> evaluation)) list"

definition MAX_CACHE :: nat where "MAX_CACHE = 400000"

text \<open>The lookup under the lock: an outdated or oversized cache is emptied first.\<close>

definition look_up :: "'s \<Rightarrow> eval_key set \<Rightarrow> (eval_key \<rightharpoonup> evaluation) \<Rightarrow> 's option \<Rightarrow>
    (eval_key \<rightharpoonup> evaluation) \<times> (eval_key \<rightharpoonup> evaluation) \<times> 's option" where
  "look_up st needed c cst =
     (let (c', cst') = (if Some st \<noteq> cst \<or> card (dom c) > MAX_CACHE then (Map.empty, Some st) else (c, cst))
      in (c' |` needed, c', cst'))"

text \<open>Storing under the lock: only if nobody emptied the cache for newer data meanwhile.\<close>

definition store_fresh :: "'s \<Rightarrow> (eval_key \<rightharpoonup> evaluation) \<Rightarrow> (eval_key \<rightharpoonup> evaluation) \<Rightarrow> 's option \<Rightarrow> (eval_key \<rightharpoonup> evaluation)" where
  "store_fresh st fresh c cst = (if cst = Some st then c ++ fresh else c)"

inductive cache_step :: "(nat \<Rightarrow> vuln list) \<Rightarrow> (nat \<Rightarrow> 's) \<Rightarrow> 's worker \<Rightarrow> 's worker \<Rightarrow> bool" for T stamp where
  data_loaded: "cache_step T stamp w (w\<lparr> version := version w + 1 \<rparr>)"
| call_starts: "calls w i = None \<Longrightarrow> cache_step T stamp w (w\<lparr> calls := (calls w)(i \<mapsto> Stamped needed (version w)) \<rparr>)"
| call_looks: "calls w i = Some (Stamped needed s) \<Longrightarrow> look_up (stamp s) needed (cache w) (cache_stamp w) = (out, c, cst) \<Longrightarrow>
    cache_step T stamp w (w\<lparr> cache := c, cache_stamp := cst, calls := (calls w)(i \<mapsto> Looked needed s out) \<rparr>)"
| call_fetches: "calls w i = Some (Looked needed s out) \<Longrightarrow> dom fresh = needed - dom out \<Longrightarrow>
    (\<And>k r. fresh k = Some r \<Longrightarrow> \<exists>v. s \<le> v \<and> v \<le> version w \<and> r = evaluate_key (T v) k) \<Longrightarrow>
    cache_step T stamp w (w\<lparr> calls := (calls w)(i \<mapsto> Fetched needed s out fresh) \<rparr>)"
| call_ends: "calls w i = Some (Fetched needed s out fresh) \<Longrightarrow>
    cache_step T stamp w (w\<lparr> cache := store_fresh (stamp s) fresh (cache w) (cache_stamp w), calls := (calls w)(i := None),
      answers := (s, version w, needed, out ++ fresh) # answers w \<rparr>)"

definition cache_init :: "'s worker \<Rightarrow> bool" where
  "cache_init w \<longleftrightarrow> cache w = Map.empty \<and> cache_stamp w = None \<and> (\<forall>i. calls w i = None) \<and> answers w = []"

text \<open>An evaluation that was right at some version of the data from \<open>s\<close> to \<open>n\<close>.\<close>

definition right_between :: "(nat \<Rightarrow> vuln list) \<Rightarrow> nat \<Rightarrow> nat \<Rightarrow> (eval_key \<rightharpoonup> evaluation) \<Rightarrow> bool" where
  "right_between T s n m \<longleftrightarrow> (\<forall>k r. m k = Some r \<longrightarrow> (\<exists>v. s \<le> v \<and> v \<le> n \<and> r = evaluate_key (T v) k))"

lemma right_between_mono: "right_between T s n m \<Longrightarrow> n \<le> n' \<Longrightarrow> right_between T s n' m"
  unfolding right_between_def by (meson order_trans)

lemma right_between_parts:
  "right_between T s n m \<Longrightarrow> right_between T s n (m |` K)"
  "right_between T s n m \<Longrightarrow> right_between T s n m' \<Longrightarrow> right_between T s n (m ++ m')"
  "right_between T s n Map.empty"
  by (auto simp: right_between_def restrict_map_def map_add_def split: option.splits if_splits)

fun call_ok :: "(nat \<Rightarrow> vuln list) \<Rightarrow> nat \<Rightarrow> call \<Rightarrow> bool" where
  "call_ok T n (Stamped needed s) = (s \<le> n)"
| "call_ok T n (Looked needed s out) = (s \<le> n \<and> dom out \<subseteq> needed \<and> right_between T s n out)"
| "call_ok T n (Fetched needed s out fresh) = (s \<le> n \<and> dom out \<subseteq> needed \<and> dom fresh = needed - dom out \<and>
     right_between T s n out \<and> right_between T s n fresh)"

definition stamped_ok :: "(nat \<Rightarrow> vuln list) \<Rightarrow> (nat \<Rightarrow> 's) \<Rightarrow> nat \<Rightarrow> 's option \<Rightarrow> (eval_key \<rightharpoonup> evaluation) \<Rightarrow> bool" where
  "stamped_ok T stamp n cst c \<longleftrightarrow> (case cst of None \<Rightarrow> c = Map.empty
     | Some st \<Rightarrow> \<exists>s \<le> n. st = stamp s \<and> right_between T s n c)"

definition cache_ok :: "(nat \<Rightarrow> vuln list) \<Rightarrow> (nat \<Rightarrow> 's) \<Rightarrow> 's worker \<Rightarrow> bool" where
  "cache_ok T stamp w \<longleftrightarrow> stamped_ok T stamp (version w) (cache_stamp w) (cache w) \<and>
     (\<forall>i c. calls w i = Some c \<longrightarrow> call_ok T (version w) c) \<and>
     (\<forall>(s, e, needed, out) \<in> set (answers w). s \<le> e \<and> dom out = needed \<and> right_between T s e out)"

lemma call_ok_mono: "call_ok T n c \<Longrightarrow> n \<le> n' \<Longrightarrow> call_ok T n' c"
  by (cases c) (auto intro: right_between_mono)

lemma stamped_ok_mono:
  assumes "stamped_ok T stamp n cst c" "n \<le> n'"
  shows "stamped_ok T stamp n' cst c"
proof (cases cst)
  case None
  then show ?thesis using assms by (simp add: stamped_ok_def)
next
  case (Some st)
  then obtain s where "s \<le> n" "st = stamp s" "right_between T s n c" using assms(1) by (auto simp: stamped_ok_def)
  then have "s \<le> n'" "right_between T s n' c" using right_between_mono [OF _ assms(2)] assms(2) by auto
  then show ?thesis using Some \<open>st = stamp s\<close> by (auto simp: stamped_ok_def)
qed

lemma stamped_okD: "inj stamp \<Longrightarrow> stamped_ok T stamp n (Some (stamp s)) c \<Longrightarrow> right_between T s n c"
  by (auto simp: stamped_ok_def dest: injD)

lemma look_up_ok:
  assumes "inj stamp" "stamped_ok T stamp n cst c" "s \<le> n" "look_up (stamp s) needed c cst = (out, c', cst')"
  shows "stamped_ok T stamp n cst' c' \<and> right_between T s n out \<and> dom out \<subseteq> needed"
proof (cases "Some (stamp s) \<noteq> cst \<or> card (dom c) > MAX_CACHE")
  case True
  then show ?thesis using assms(3,4) by (auto simp: look_up_def stamped_ok_def right_between_parts)
next
  case False
  then have "c' = c" "cst' = Some (stamp s)" "out = c |` needed" "right_between T s n c"
    using assms stamped_okD [OF assms(1)] by (auto simp: look_up_def)
  then show ?thesis using assms(3) by (auto simp: stamped_ok_def right_between_parts)
qed

lemma store_fresh_ok:
  assumes "inj stamp" "stamped_ok T stamp n cst c" "s \<le> n" "right_between T s n fresh"
  shows "stamped_ok T stamp n cst (store_fresh (stamp s) fresh c cst)"
proof (cases "cst = Some (stamp s)")
  case True
  then have "right_between T s n c" using assms stamped_okD [OF assms(1)] by blast
  then show ?thesis using True assms(3,4) by (auto simp: store_fresh_def stamped_ok_def right_between_parts)
next
  case False
  then show ?thesis using assms(2) by (simp add: store_fresh_def)
qed

lemma cache_step_ok:
  assumes "cache_step T stamp w w'" "inj stamp" "cache_ok T stamp w"
  shows "cache_ok T stamp w'"
  using assms
proof (induction rule: cache_step.induct)
  case (data_loaded w)
  then show ?case
    using stamped_ok_mono [of T stamp "version w" _ _ "version w + 1"] call_ok_mono [of T "version w" _ "version w + 1"]
    by (auto simp: cache_ok_def)
next
  case (call_starts w i needed)
  then show ?case by (auto simp: cache_ok_def)
next
  case (call_looks w i needed s out c cst)
  then have "call_ok T (version w) (Stamped needed s)" unfolding cache_ok_def by blast
  then show ?case
    using look_up_ok [OF call_looks(3) _ _ call_looks(2), of T "version w"] call_looks(4) by (auto simp: cache_ok_def)
next
  case (call_fetches w i needed s out fresh)
  then have "call_ok T (version w) (Looked needed s out)" unfolding cache_ok_def by blast
  moreover have "right_between T s (version w) fresh" using call_fetches(3) by (auto simp: right_between_def)
  ultimately show ?case using call_fetches(2,5) by (auto simp: cache_ok_def)
next
  case (call_ends w i needed s out fresh)
  then have c: "call_ok T (version w) (Fetched needed s out fresh)" unfolding cache_ok_def by blast
  then have "stamped_ok T stamp (version w) (cache_stamp w) (store_fresh (stamp s) fresh (cache w) (cache_stamp w))"
    using call_ends(3) by (intro store_fresh_ok [OF call_ends(2)]) (auto simp: cache_ok_def)
  moreover have "dom (out ++ fresh) = needed" using c by auto
  ultimately show ?case using call_ends(3) c by (auto simp: cache_ok_def right_between_parts)
qed


text \<open>One call on an empty cache, with the version itself as the stamp; then new data.\<close>

definition ssh_key :: eval_key where "ssh_key = (''ubuntu:22.04'', ''openssh'', ''1:8.9p1-3ubuntu0.7'')"

definition ssh_data :: "nat \<Rightarrow> vuln list" where "ssh_data n = (if n = 0 then [] else [ssh_row])"

definition one_answer :: "nat worker" where
  "one_answer = \<lparr> version = 2, cache = [ssh_key \<mapsto> evaluate_key (ssh_data 1) ssh_key], cache_stamp = Some 1, calls = (\<lambda>_. None),
     answers = [(1, 1, {ssh_key}, [ssh_key \<mapsto> evaluate_key (ssh_data 1) ssh_key])] \<rparr>"

lemma one_answer_reached: "reach cache_init (cache_step ssh_data id) one_answer"
proof -
  let ?R = "reach cache_init (cache_step ssh_data id)"
  let ?w = "\<lambda>n c st cs ans. \<lparr> version = n, cache = c, cache_stamp = st, calls = cs, answers = ans \<rparr>"
  let ?m = "[ssh_key \<mapsto> evaluate_key (ssh_data 1) ssh_key]"
  have "?R (?w 0 Map.empty None (\<lambda>_. None) [])" by (rule reach_init) (simp add: cache_init_def)
  then have "?R (?w 1 Map.empty None (\<lambda>_. None) [])"
    by (rule reach_step) (use cache_step.data_loaded [of ssh_data id "?w 0 Map.empty None (\<lambda>_. None) []"] in simp)
  then have "?R (?w 1 Map.empty None [0 \<mapsto> Stamped {ssh_key} 1] [])"
    by (rule reach_step) (use cache_step.call_starts [of "?w 1 Map.empty None (\<lambda>_. None) []" 0 ssh_data id "{ssh_key}"] in simp)
  then have "?R (?w 1 Map.empty (Some 1) [0 \<mapsto> Looked {ssh_key} 1 Map.empty] [])"
    by (rule reach_step) (use cache_step.call_looks [of "?w 1 Map.empty None [0 \<mapsto> Stamped {ssh_key} 1] []" 0 "{ssh_key}" 1 id
        Map.empty Map.empty "Some 1" ssh_data] in \<open>simp add: look_up_def\<close>)
  moreover have "\<exists>v. 1 \<le> v \<and> v \<le> 1 \<and> r = evaluate_key (ssh_data v) k" if "?m k = Some r" for k r
    using that by (auto split: if_splits)
  then have "cache_step ssh_data id (?w 1 Map.empty (Some 1) [0 \<mapsto> Looked {ssh_key} 1 Map.empty] [])
      (?w 1 Map.empty (Some 1) [0 \<mapsto> Fetched {ssh_key} 1 Map.empty ?m] [])"
    using cache_step.call_fetches [of "?w 1 Map.empty (Some 1) [0 \<mapsto> Looked {ssh_key} 1 Map.empty] []" 0
        "{ssh_key}" 1 Map.empty ?m ssh_data id] by simp
  ultimately have "?R (?w 1 Map.empty (Some 1) [0 \<mapsto> Fetched {ssh_key} 1 Map.empty ?m] [])" by (rule reach_step)
  then have "?R (?w 1 ?m (Some 1) (\<lambda>_. None) [(1, 1, {ssh_key}, ?m)])"
    by (rule reach_step) (use cache_step.call_ends [of "?w 1 Map.empty (Some 1) [0 \<mapsto> Fetched {ssh_key} 1 Map.empty ?m] []" 0
        "{ssh_key}" 1 Map.empty ?m ssh_data id] in \<open>simp add: store_fresh_def\<close>)
  then have "?R (?w 2 ?m (Some 1) (\<lambda>_. None) [(1, 1, {ssh_key}, ?m)])"
    by (rule reach_step) (use cache_step.data_loaded [of ssh_data id "?w 1 ?m (Some 1) (\<lambda>_. None) [(1, 1, {ssh_key}, ?m)]"] in
      \<open>simp add: numeral_2_eq_2\<close>)
  then show ?thesis by (simp add: one_answer_def)
qed


end
