(* ===== verification/Device_Trust.thy ===== *)
theory Device_Trust
  imports Prelude "HOL-Library.AList" "HOL-Library.List_Lexorder" "HOL-Library.Char_ord" "HOL-Library.Product_Lexorder"
begin

text \<open>
  Trust in devices, \<^verbatim>\<open>core/ssh_host_keys.py\<close> and \<^verbatim>\<open>core/tls_pins.py\<close> with their exceptions
  (\<^verbatim>\<open>core/ssh_exceptions.py\<close>) and the administrators' route \<^verbatim>\<open>modules/device_keys.py\<close>: the key
  or certificate of a device is pinned at the first contact and any other is refused until
  an administrator forgets the pin. What both stores promise is the locale \<open>pin_store\<close>.
  paramiko's key table is a parameter; what is used of its documentation is
  \<open>host_keys_laws\<close>.
\<close>

section \<open>Exceptions of a connection\<close>

datatype ssh_error =
    SSHConnectionError string
  | SSHAuthenticationError string
  | SSHConnectionTimeoutError string
  | SSHNetworkError string
  | SSHAlgorithmMismatchError string
  | SSHHostKeyError string
  | SSHHostKeyUnknownError string "string option"
  | SSHHostKeyMismatchError string "string option" "string option"

text \<open>An exception of another library: the name of its class, its text and its \<^verbatim>\<open>errno\<close>.\<close>

record py_exception =
  exc_type :: string
  exc_text :: string
  exc_errno :: "int option"

datatype raised = Ours ssh_error | Foreign py_exception

definition some_in :: "string list \<Rightarrow> string \<Rightarrow> bool" where
  "some_in words s = list_ex (\<lambda>w. py_contains w s) words"

definition by_message :: "string \<Rightarrow> string \<Rightarrow> ssh_error" where
  "by_message s ip =
     (if some_in [''authentication'', ''password'', ''credential''] s then SSHAuthenticationError ip
      else if some_in [''timeout'', ''timed out''] s then SSHConnectionTimeoutError ip
      else if some_in [''refused'', ''unreachable'', ''no route''] s then SSHNetworkError ip
      else if some_in [''algorithm'', ''cipher'', ''key exchange'', ''incompatible''] s then SSHAlgorithmMismatchError ip
      else if some_in [''host key''] s then SSHHostKeyError ip
      else SSHConnectionError ip)"

definition by_socket :: "py_exception \<Rightarrow> string \<Rightarrow> string \<Rightarrow> ssh_error" where
  "by_socket e s ip =
     (if exc_errno e = Some 110 then SSHConnectionTimeoutError ip
      else if exc_errno e \<in> {Some 111, Some 113} then SSHNetworkError ip
      else if some_in [''timed out'', ''timeout''] s then SSHConnectionTimeoutError ip
      else if some_in [''refused'', ''unreachable'', ''no route''] s then SSHNetworkError ip
      else by_message s ip)"

definition after_ssh :: "py_exception \<Rightarrow> string \<Rightarrow> string \<Rightarrow> ssh_error" where
  "after_ssh e s ip =
     (if some_in [''OSError''] (exc_type e) \<or> some_in [''socket''] (py_lower (exc_type e)) \<or> some_in [''ConnectionError''] (exc_type e)
      then by_socket e s ip else by_message s ip)"

definition map_ssh_exception :: "raised \<Rightarrow> string \<Rightarrow> ssh_error" where
  "map_ssh_exception error ip = (case error of
     Ours e \<Rightarrow> e
   | Foreign e \<Rightarrow>
     let s = py_lower (exc_text e); ty = exc_type e in
     if some_in [''NetmikoAuthenticationException'', ''AuthenticationException''] ty then SSHAuthenticationError ip
     else if some_in [''NetmikoTimeoutException'', ''NetMikoTimeoutException''] ty then SSHConnectionTimeoutError ip
     else if some_in [''IncompatiblePeer''] ty then SSHAlgorithmMismatchError ip
     else if some_in [''BadHostKeyException''] ty then SSHHostKeyError ip
     else if some_in [''NoValidConnectionsError''] ty then SSHNetworkError ip
     else if some_in [''SSHException''] ty \<and> some_in [''authentication'', ''auth''] s then SSHAuthenticationError ip
     else if some_in [''SSHException''] ty \<and> some_in [''algorithm'', ''cipher'', ''key exchange''] s then SSHAlgorithmMismatchError ip
     else if some_in [''SSHException''] ty \<and> some_in [''host key''] s then SSHHostKeyError ip
     else after_ssh e s ip)"

section \<open>The name of an entry\<close>

definition SSH_DEFAULT_PORT :: int where "SSH_DEFAULT_PORT = 22"

definition host_key_entry_name :: "string \<Rightarrow> int \<Rightarrow> string" where
  "host_key_entry_name host port = (if port = SSH_DEFAULT_PORT then host else ''['' @ host @ '']:'' @ str_of_int port)"

text \<open>\<open>None\<close>: \<^verbatim>\<open>int()\<close> refuses what \<^verbatim>\<open>isdigit()\<close> let through.\<close>

definition split_entry_name :: "string \<Rightarrow> int \<Rightarrow> (string \<times> int) option" where
  "split_entry_name name default_port =
     (if prefix ''['' name
      then case py_rpartition '']:'' (tl name) of
             Some (host, port) \<Rightarrow>
               if host \<noteq> [] \<and> port \<noteq> [] \<and> list_all py_isdigit port then map_option (Pair host) (py_int port)
               else Some (name, default_port)
           | None \<Rightarrow> Some (name, default_port)
      else Some (name, default_port))"

datatype policy = TOFU | STRICT

definition policy_mode :: "string \<Rightarrow> policy" where
  "policy_mode setting = (let raw = py_lower (py_strip setting) in
     if raw = ''tofu'' then TOFU else STRICT)"

section \<open>The known-hosts store\<close>

text \<open>
  What the store uses of paramiko: a table of keys by host name and key type
  (\<^verbatim>\<open>HostKeys\<close>, where no entry is the empty list), the table a file leaves when it is loaded
  (an unreadable rest is skipped), the file a list of lines makes, and of a key its type
  and its bytes, and the SHA-256 fingerprint.
\<close>

record ('f, 'h, 'k) paramiko =
  new_keys :: 'h
  load_keys :: "'f \<Rightarrow> 'h"
  file_of :: "(string \<times> string \<times> 'k) list \<Rightarrow> 'f"
  keys_names :: "'h \<Rightarrow> string list"
  keys_lookup :: "'h \<Rightarrow> string \<Rightarrow> (string \<times> 'k) list"
  keys_add :: "'h \<Rightarrow> string \<Rightarrow> string \<Rightarrow> 'k \<Rightarrow> 'h"
  get_name :: "'k \<Rightarrow> string"
  asbytes :: "'k \<Rightarrow> string"
  key_fingerprint :: "'k \<Rightarrow> string"

datatype verification = MATCH | MISMATCH | UNKNOWN

definition load_unlocked :: "('f, 'h, 'k) paramiko \<Rightarrow> 'f option \<Rightarrow> 'h" where
  "load_unlocked P f = (case f of None \<Rightarrow> new_keys P | Some c \<Rightarrow> load_keys P c)"

definition lines_of :: "('f, 'h, 'k) paramiko \<Rightarrow> 'h \<Rightarrow> (string \<times> string \<times> 'k) list" where
  "lines_of P h = concat (map (\<lambda>n. map (\<lambda>(t, k). (n, t, k)) (keys_lookup P h n)) (keys_names P h))"

definition atomic_save :: "('f, 'h, 'k) paramiko \<Rightarrow> 'h \<Rightarrow> 'f option" where
  "atomic_save P h = Some (file_of P (lines_of P h))"

definition lookup_host :: "('f, 'h, 'k) paramiko \<Rightarrow> 'f option \<Rightarrow> string \<Rightarrow> int \<Rightarrow> (string \<times> 'k) list" where
  "lookup_host P f host port = keys_lookup P (load_unlocked P f) (host_key_entry_name host port)"

definition verify_key :: "('f, 'h, 'k) paramiko \<Rightarrow> 'f option \<Rightarrow> string \<Rightarrow> int \<Rightarrow> 'k \<Rightarrow> verification" where
  "verify_key P f host port k = (let entry = lookup_host P f host port in
     if entry = [] then UNKNOWN
     else case map_of entry (get_name P k) of
         None \<Rightarrow> MISMATCH
       | Some stored \<Rightarrow> if asbytes P stored = asbytes P k then MATCH else MISMATCH)"

fun join_with :: "string \<Rightarrow> string list \<Rightarrow> string" where
  "join_with sep [] = []"
| "join_with sep [x] = x"
| "join_with sep (x # y # ys) = x @ sep @ join_with sep (y # ys)"

definition expected_fingerprints :: "('f, 'h, 'k) paramiko \<Rightarrow> 'f option \<Rightarrow> string \<Rightarrow> int \<Rightarrow> string" where
  "expected_fingerprints P f host port =
     join_with '', '' (map (\<lambda>(t, k). t @ '' '' @ key_fingerprint P k) (lookup_host P f host port))"

definition add_key :: "('f, 'h, 'k) paramiko \<Rightarrow> 'f option \<Rightarrow> string \<Rightarrow> int \<Rightarrow> 'k \<Rightarrow> 'f option" where
  "add_key P f host port k =
     atomic_save P (keys_add P (load_unlocked P f) (host_key_entry_name host port) (get_name P k) k)"

definition entries :: "('f, 'h, 'k) paramiko \<Rightarrow> 'f option \<Rightarrow> (string \<times> int \<times> string \<times> string) list option" where
  "entries P f = (let h = load_unlocked P f in
     map_option (sort \<circ> concat) (those (map (\<lambda>n. map_option (\<lambda>(host, port).
       map (\<lambda>(t, k). (host, port, t, key_fingerprint P k)) (keys_lookup P h n))
       (split_entry_name n SSH_DEFAULT_PORT)) (keys_names P h))))"

definition without_entry :: "('f, 'h, 'k) paramiko \<Rightarrow> 'h \<Rightarrow> string \<Rightarrow> 'h" where
  "without_entry P h name =
     fold (\<lambda>(n, t, k) r. keys_add P r n t k) (filter (\<lambda>(n, t, k). n \<noteq> name) (lines_of P h)) (new_keys P)"

definition forget_host :: "('f, 'h, 'k) paramiko \<Rightarrow> 'f option \<Rightarrow> string \<Rightarrow> int \<Rightarrow> bool \<times> 'f option" where
  "forget_host P f host port =
     (let name = host_key_entry_name host port; h = load_unlocked P f in
      if f = None then (False, f)
      else if keys_lookup P h name = [] then (False, f)
      else (True, atomic_save P (without_entry P h name)))"

section \<open>The decision on a presented key\<close>

definition or_none :: "string \<Rightarrow> string option" where
  "or_none s = (if s = [] then None else Some s)"

definition evaluate_host_key ::
  "('f, 'h, 'k) paramiko \<Rightarrow> policy \<Rightarrow> 'f option \<Rightarrow> string \<Rightarrow> int \<Rightarrow> 'k \<Rightarrow> (ssh_error, 'f option) result" where
  "evaluate_host_key P mode f host port k = (case verify_key P f host port k of
     MATCH \<Rightarrow> Inr f
   | MISMATCH \<Rightarrow> Inl (SSHHostKeyMismatchError host (or_none (expected_fingerprints P f host port)) (Some (key_fingerprint P k)))
   | UNKNOWN \<Rightarrow> if mode = STRICT then Inl (SSHHostKeyUnknownError host (Some (key_fingerprint P k)))
       else Inr (add_key P f host port k))"

text \<open>The callback of the paramiko clients gets the name of the entry, \<open>Inl None\<close> the
  \<^verbatim>\<open>ValueError\<close> of an odd one.\<close>

definition missing_host_key ::
  "('f, 'h, 'k) paramiko \<Rightarrow> policy \<Rightarrow> int \<Rightarrow> 'f option \<Rightarrow> string \<Rightarrow> 'k \<Rightarrow> (ssh_error option, 'f option) result" where
  "missing_host_key P mode my_port f hostname k = (case split_entry_name hostname my_port of
     None \<Rightarrow> Inl None
   | Some (host, port) \<Rightarrow> map_sum Some id (evaluate_host_key P mode f host port k))"

text \<open>Before a netmiko client connects; \<open>probe\<close> is the handshake that learns the key.\<close>

definition ensure_host_key_trusted ::
  "('f, 'h, 'k) paramiko \<Rightarrow> policy \<Rightarrow> (raised, 'k option) result \<Rightarrow> 'f option \<Rightarrow> string \<Rightarrow> int \<Rightarrow> (ssh_error, 'f option) result" where
  "ensure_host_key_trusted P mode probe f host port =
     (if lookup_host P f host port \<noteq> [] then Inr f
      else if mode = STRICT then Inl (SSHHostKeyUnknownError host None)
      else case probe of
          Inl e \<Rightarrow> Inl (map_ssh_exception e host)
        | Inr None \<Rightarrow> Inl (SSHHostKeyUnknownError host None)
        | Inr (Some k) \<Rightarrow> evaluate_host_key P mode f host port k)"

definition looks_like_host_key_failure :: "string \<Rightarrow> bool" where
  "looks_like_host_key_failure text = some_in [''host key'', ''known_hosts'', ''hostkey''] (py_lower text)"

definition classify_netmiko_auth_failure ::
  "('f, 'h, 'k) paramiko \<Rightarrow> 'f option \<Rightarrow> string \<Rightarrow> string \<Rightarrow> ssh_error option" where
  "classify_netmiko_auth_failure P f text host = (if looks_like_host_key_failure text
     then Some (SSHHostKeyMismatchError host (or_none (expected_fingerprints P f host SSH_DEFAULT_PORT)) None) else None)"

section \<open>TLS pins\<close>

text \<open>The JSON file of pins: absent, unreadable, or a dictionary; a fingerprint is
  \<^verbatim>\<open>SHA256:\<close> and the digest, a parameter.\<close>

datatype pin_file = Absent | Unreadable | Pins "(string \<times> string) list"

datatype tls_error = TLSPinError | TLSPinUnknownError | TLSPinMismatchError

definition pin_name :: "string \<Rightarrow> int \<Rightarrow> string" where
  "pin_name host port = ''['' @ host @ '']:'' @ str_of_int port"

definition load_pins :: "pin_file \<Rightarrow> (tls_error, (string \<times> string) list) result" where
  "load_pins f = (case f of Absent \<Rightarrow> Inr [] | Unreadable \<Rightarrow> Inl TLSPinError | Pins ps \<Rightarrow> Inr ps)"

definition fingerprint :: "(string \<Rightarrow> string) \<Rightarrow> string \<Rightarrow> string" where
  "fingerprint sha der = ''SHA256:'' @ sha der"

definition pinned :: "pin_file \<Rightarrow> string \<Rightarrow> int \<Rightarrow> (tls_error, string option) result" where
  "pinned f host port = res_bind (load_pins f) (\<lambda>ps. Inr (map_of ps (pin_name host port)))"

definition forget_pin :: "pin_file \<Rightarrow> string \<Rightarrow> int \<Rightarrow> (tls_error, bool \<times> pin_file) result" where
  "forget_pin f host port = res_bind (load_pins f) (\<lambda>ps.
     if map_of ps (pin_name host port) = None then Inr (False, f)
     else Inr (True, Pins (AList.delete (pin_name host port) ps)))"

text \<open>What \<^verbatim>\<open>check\<close> decides on the pins it read: refuse, accept, or accept and write these.\<close>

definition decide_pin ::
  "(string \<Rightarrow> string) \<Rightarrow> policy \<Rightarrow> (string \<times> string) list \<Rightarrow> string \<Rightarrow> int \<Rightarrow> string \<Rightarrow> (tls_error, (string \<times> string) list option) result" where
  "decide_pin sha mode ps host port der = (case map_of ps (pin_name host port) of
     Some known \<Rightarrow> if known = fingerprint sha der then Inr None else Inl TLSPinMismatchError
   | None \<Rightarrow> if mode = STRICT then Inl TLSPinUnknownError
       else Inr (Some (AList.update (pin_name host port) (fingerprint sha der) ps)))"

definition check_pin :: "(string \<Rightarrow> string) \<Rightarrow> policy \<Rightarrow> pin_file \<Rightarrow> string \<Rightarrow> int \<Rightarrow> string \<Rightarrow> (tls_error, pin_file) result" where
  "check_pin sha mode f host port der = res_bind (load_pins f) (\<lambda>ps.
     res_bind (decide_pin sha mode ps host port der) (\<lambda>w.
       Inr (case w of None \<Rightarrow> f | Some qs \<Rightarrow> Pins qs)))"

definition pin_entries :: "pin_file \<Rightarrow> (tls_error, (string \<times> int \<times> string) list option) result" where
  "pin_entries f = res_bind (load_pins f) (\<lambda>ps.
     Inr (map_option sort (those (map (\<lambda>(key, v). case py_rpartition '']:'' (tl key) of
         None \<Rightarrow> map_option (\<lambda>p. ([], p, v)) (py_int (tl key))
       | Some (host, port) \<Rightarrow> map_option (\<lambda>p. (host, p, v)) (py_int port)) ps))))"

section \<open>What a store of pins promises\<close>

text \<open>
  A store that is in order decides on the key a device presents: a device it knows is
  accepted with a trusted key only and nothing changes; a device it does not know is
  pinned, with that key and no other; the entries of other devices are left alone.
\<close>

datatype ('m, 'a, 'k) pin_op = Connect 'm 'a 'k | Forget 'a

fun op_addr :: "('m, 'a, 'k) pin_op \<Rightarrow> 'a" where
  "op_addr (Connect m a k) = a"
| "op_addr (Forget a) = a"

fun apply_op :: "('m \<Rightarrow> 's \<Rightarrow> 'a \<Rightarrow> 'k \<Rightarrow> ('e, 's) result) \<Rightarrow> ('s \<Rightarrow> 'a \<Rightarrow> 's) \<Rightarrow> ('m, 'a, 'k) pin_op \<Rightarrow> 's \<Rightarrow> 's" where
  "apply_op check forget (Connect m a k) s = (case check m s a k of Inl _ \<Rightarrow> s | Inr s' \<Rightarrow> s')"
| "apply_op check forget (Forget a) s = forget s a"

definition run_ops :: "('m \<Rightarrow> 's \<Rightarrow> 'a \<Rightarrow> 'k \<Rightarrow> ('e, 's) result) \<Rightarrow> ('s \<Rightarrow> 'a \<Rightarrow> 's) \<Rightarrow> ('m, 'a, 'k) pin_op list \<Rightarrow> 's \<Rightarrow> 's" where
  "run_ops check forget ops s = fold (apply_op check forget) ops s"

locale pin_store =
  fixes ok :: "'s \<Rightarrow> bool" and addr_ok :: "'a \<Rightarrow> bool" and name :: "'a \<Rightarrow> string"
    and trusts :: "'s \<Rightarrow> string \<Rightarrow> 'k \<Rightarrow> bool" and known :: "'s \<Rightarrow> string \<Rightarrow> bool" and same :: "'k \<Rightarrow> 'k \<Rightarrow> bool"
    and check :: "'m \<Rightarrow> 's \<Rightarrow> 'a \<Rightarrow> 'k \<Rightarrow> ('e, 's) result" and forget :: "'s \<Rightarrow> 'a \<Rightarrow> 's"
  assumes trusts_known: "trusts s n k \<Longrightarrow> known s n"
    and check_known: "known s (name a) \<Longrightarrow> check m s a k = Inr s' \<Longrightarrow> s' = s \<and> trusts s (name a) k"
    and check_trusted: "trusts s (name a) k \<Longrightarrow> check m s a k = Inr s"
    and check_first: "ok s \<Longrightarrow> addr_ok a \<Longrightarrow> \<not> known s (name a) \<Longrightarrow> check m s a k = Inr s' \<Longrightarrow>
      ok s' \<and> known s' (name a) \<and> (\<forall>k'. trusts s' (name a) k' \<longleftrightarrow> same k' k) \<and>
      (\<forall>n. n \<noteq> name a \<longrightarrow> known s' n = known s n \<and> trusts s' n = trusts s n)"
    and forget_other: "ok s \<Longrightarrow> addr_ok a \<Longrightarrow>
      ok (forget s a) \<and> (\<forall>n. n \<noteq> name a \<longrightarrow> known (forget s a) n = known s n \<and> trusts (forget s a) n = trusts s n)"
begin

text \<open>The devices an operation can change what is trusted of.\<close>

lemma apply_keeps:
  assumes "ok s" "addr_ok (op_addr p)" "known s n" "\<forall>b. p = Forget b \<longrightarrow> name b \<noteq> n"
  shows "ok (apply_op check forget p s) \<and> known (apply_op check forget p s) n \<and>
    trusts (apply_op check forget p s) n = trusts s n"
proof (cases p)
  case (Forget b)
  then show ?thesis using forget_other [OF assms(1), of b] assms(2-4) by auto
next
  case (Connect m b k)
  show ?thesis
  proof (cases "check m s b k")
    case (Inl e)
    then show ?thesis using Connect assms(1,3) by simp
  next
    case (Inr s')
    show ?thesis
    proof (cases "known s (name b)")
      case True
      then have "s' = s" using check_known Inr by blast
      then show ?thesis using Connect Inr assms(1,3) by simp
    next
      case False
      then have "n \<noteq> name b" using assms(3) by blast
      then show ?thesis using check_first [OF assms(1) _ False Inr] Connect Inr assms(2,3) by simp
    qed
  qed
qed

lemma run_keeps:
  assumes "ok s" "known s n" "\<forall>p \<in> set ops. addr_ok (op_addr p) \<and> (\<forall>b. p = Forget b \<longrightarrow> name b \<noteq> n)"
  shows "known (run_ops check forget ops s) n \<and> trusts (run_ops check forget ops s) n = trusts s n"
  using assms
proof (induction ops arbitrary: s)
  case Nil
  then show ?case by (simp add: run_ops_def)
next
  case (Cons p ops)
  have "ok (apply_op check forget p s) \<and> known (apply_op check forget p s) n \<and>
      trusts (apply_op check forget p s) n = trusts s n"
    using apply_keeps [of s p n] Cons.prems by auto
  then show ?case using Cons.IH [of "apply_op check forget p s"] Cons.prems(3) by (simp add: run_ops_def)
qed

text \<open>After the first contact, the key it pinned is accepted and no other, until it is forgotten.\<close>

lemma first_key_holds:
  assumes "ok s" "addr_ok a" "\<not> known s (name a)" "check m s a k = Inr s1"
    "\<forall>p \<in> set ops. addr_ok (op_addr p) \<and> (\<forall>b. p = Forget b \<longrightarrow> name b \<noteq> name a)"
  shows "(\<exists>s2. check m' (run_ops check forget ops s1) a k' = Inr s2) \<longleftrightarrow> same k' k"
proof -
  have first: "ok s1" "known s1 (name a)" "trusts s1 (name a) k' \<longleftrightarrow> same k' k"
    using check_first [OF assms(1-4)] by simp_all
  let ?t = "run_ops check forget ops s1"
  have "known ?t (name a)" "trusts ?t (name a) k' \<longleftrightarrow> same k' k"
    using run_keeps [OF first(1,2) assms(5)] first(3) by simp_all
  then show ?thesis using check_known check_trusted by blast
qed

end

subsection \<open>Certificates\<close>

definition pins_of :: "pin_file \<Rightarrow> string \<rightharpoonup> string" where
  "pins_of f = (case load_pins f of Inl _ \<Rightarrow> Map.empty | Inr ps \<Rightarrow> map_of ps)"

definition check_at :: "(string \<Rightarrow> string) \<Rightarrow> policy \<Rightarrow> pin_file \<Rightarrow> string \<times> int \<Rightarrow> string \<Rightarrow> (tls_error, pin_file) result" where
  "check_at sha mode f a der = check_pin sha mode f (fst a) (snd a) der"

definition forget_at :: "pin_file \<Rightarrow> string \<times> int \<Rightarrow> pin_file" where
  "forget_at f a = (case forget_pin f (fst a) (snd a) of Inl _ \<Rightarrow> f | Inr (_, f') \<Rightarrow> f')"

lemmas pin_defs = check_at_def check_pin_def decide_pin_def load_pins_def pins_of_def forget_at_def forget_pin_def

interpretation tls: pin_store "\<lambda>_. True" "\<lambda>_. True" "\<lambda>(h, p). pin_name h p"
  "\<lambda>f n der. pins_of f n = Some (fingerprint sha der)" "\<lambda>f n. pins_of f n \<noteq> None"
  "\<lambda>der der'. fingerprint sha der = fingerprint sha der'" "check_at sha" forget_at
  for sha
  by unfold_locales
    (auto simp: pin_defs res_bind_def update_conv' delete_conv' split: pin_file.splits option.splits if_splits sum.splits)

subsection \<open>Host keys\<close>

text \<open>Names that stand for one host on a line of their own: no separator, pattern or marker.\<close>

definition plain_name :: "string \<Rightarrow> bool" where
  "plain_name n \<longleftrightarrow> n \<noteq> [] \<and> list_all (\<lambda>c. \<not> py_isspace c \<and> c \<notin> set '',*?!|#@'') n"

definition table_ok :: "('f, 'h, 'k) paramiko \<Rightarrow> 'h \<Rightarrow> bool" where
  "table_ok P h \<longleftrightarrow> list_all plain_name (keys_names P h)"

text \<open>
  The documented behaviour of paramiko's table: new tables are empty; a table lists the
  hosts it has keys of; adding a key replaces the key of that host and type only; a file
  with one line per key is read back.
\<close>

definition host_keys_laws :: "('f, 'h, 'k) paramiko \<Rightarrow> bool" where
  "host_keys_laws P \<longleftrightarrow>
     (\<forall>n. keys_lookup P (new_keys P) n = []) \<and>
     (\<forall>h. distinct (keys_names P h)) \<and>
     (\<forall>h n. n \<in> set (keys_names P h) \<longleftrightarrow> keys_lookup P h n \<noteq> []) \<and>
     (\<forall>h n. distinct (map fst (keys_lookup P h n))) \<and>
     (\<forall>h n t k m. map_of (keys_lookup P (keys_add P h n t k) m) =
       (if m = n then (map_of (keys_lookup P h n))(t \<mapsto> k) else map_of (keys_lookup P h m))) \<and>
     (\<forall>h n. table_ok P h \<longrightarrow> map_of (keys_lookup P (load_keys P (file_of P (lines_of P h))) n) = map_of (keys_lookup P h n))"

definition stored :: "('f, 'h, 'k) paramiko \<Rightarrow> 'f option \<Rightarrow> string \<Rightarrow> string \<rightharpoonup> 'k" where
  "stored P f n = map_of (keys_lookup P (load_unlocked P f) n)"

definition same_key :: "('f, 'h, 'k) paramiko \<Rightarrow> 'k \<Rightarrow> 'k \<Rightarrow> bool" where
  "same_key P k k' \<longleftrightarrow> get_name P k = get_name P k' \<and> asbytes P k = asbytes P k'"

definition key_trusted :: "('f, 'h, 'k) paramiko \<Rightarrow> 'f option \<Rightarrow> string \<Rightarrow> 'k \<Rightarrow> bool" where
  "key_trusted P f n k \<longleftrightarrow> map_option (asbytes P) (stored P f n (get_name P k)) = Some (asbytes P k)"

definition entry_of :: "string \<times> int \<Rightarrow> string" where
  "entry_of a = host_key_entry_name (fst a) (snd a)"

definition evaluate_at ::
  "('f, 'h, 'k) paramiko \<Rightarrow> policy \<Rightarrow> 'f option \<Rightarrow> string \<times> int \<Rightarrow> 'k \<Rightarrow> (ssh_error, 'f option) result" where
  "evaluate_at P mode f a k = evaluate_host_key P mode f (fst a) (snd a) k"

definition forget_host_at :: "('f, 'h, 'k) paramiko \<Rightarrow> 'f option \<Rightarrow> string \<times> int \<Rightarrow> 'f option" where
  "forget_host_at P f a = snd (forget_host P f (fst a) (snd a))"

lemma verify_stored:
  "verify_key P f host port k =
     (if stored P f (host_key_entry_name host port) = Map.empty then UNKNOWN
      else if key_trusted P f (host_key_entry_name host port) k then MATCH else MISMATCH)"
  by (auto simp: verify_key_def lookup_host_def stored_def key_trusted_def Let_def split: option.splits)

lemma saved_stored:
  assumes "host_keys_laws P" "table_ok P h"
  shows "stored P (atomic_save P h) n = map_of (keys_lookup P h n)"
  using assms by (simp add: host_keys_laws_def atomic_save_def stored_def load_unlocked_def)

lemma table_ok_iff:
  "host_keys_laws P \<Longrightarrow> table_ok P h \<longleftrightarrow> (\<forall>n. map_of (keys_lookup P h n) \<noteq> Map.empty \<longrightarrow> plain_name n)"
  by (auto simp: host_keys_laws_def table_ok_def list_all_iff)

lemma saved_ok:
  assumes "host_keys_laws P" "table_ok P h"
  shows "table_ok P (load_unlocked P (atomic_save P h))"
  using saved_stored [OF assms] assms by (simp add: table_ok_iff stored_def)

lemma add_key_stored:
  assumes "host_keys_laws P" "table_ok P (load_unlocked P f)" "plain_name (host_key_entry_name host port)"
  shows "table_ok P (load_unlocked P (add_key P f host port k))"
    "stored P (add_key P f host port k) n = (if n = host_key_entry_name host port
       then (stored P f n)(get_name P k \<mapsto> k) else stored P f n)"
proof -
  let ?h = "keys_add P (load_unlocked P f) (host_key_entry_name host port) (get_name P k) k"
  have add: "map_of (keys_lookup P ?h m) = (if m = host_key_entry_name host port
      then (stored P f m)(get_name P k \<mapsto> k) else stored P f m)" for m
    using assms(1) by (simp add: host_keys_laws_def stored_def)
  then have ok: "table_ok P ?h"
    using assms by (simp add: table_ok_iff stored_def)
  show "table_ok P (load_unlocked P (add_key P f host port k))"
    unfolding add_key_def by (rule saved_ok [OF assms(1) ok])
  show "stored P (add_key P f host port k) n = (if n = host_key_entry_name host port
       then (stored P f n)(get_name P k \<mapsto> k) else stored P f n)"
    unfolding add_key_def saved_stored [OF assms(1) ok] by (rule add)
qed

lemma fold_add:
  assumes "host_keys_laws P"
  shows "map_of (keys_lookup P (fold (\<lambda>(n, t, k) r. keys_add P r n t k) ls r) m) =
    fold (\<lambda>(t, k) f. f(t \<mapsto> k)) (map snd (filter (\<lambda>l. fst l = m) ls)) (map_of (keys_lookup P r m))"
proof (induction ls arbitrary: r)
  case (Cons l ls)
  obtain n t k where l: "l = (n, t, k)" by (cases l)
  have add: "map_of (keys_lookup P (keys_add P r n t k) m) =
      (if m = n then (map_of (keys_lookup P r m))(t \<mapsto> k) else map_of (keys_lookup P r m))"
    using assms by (simp add: host_keys_laws_def)
  show ?case using Cons.IH [of "keys_add P r n t k"] by (auto simp: l add)
qed simp

lemma fold_updates: "fold (\<lambda>(t, k) f. f(t \<mapsto> k)) ps f = f ++ map_of (rev ps)"
  by (induction ps arbitrary: f) (auto simp: map_add_def fun_eq_iff split: option.splits)

lemma lines_at:
  "distinct ns \<Longrightarrow> map snd (filter (\<lambda>l. fst l = m) (concat (map (\<lambda>n. map (\<lambda>(t, k). (n, t, k)) (g n)) ns))) =
    (if m \<in> set ns then g m else [])"
  by (induction ns) (auto simp: filter_map comp_def case_prod_beta filter_empty_conv)

lemma without_entry_stored:
  assumes "host_keys_laws P"
  shows "map_of (keys_lookup P (without_entry P h name) m) = (if m = name then Map.empty else map_of (keys_lookup P h m))"
proof -
  have laws: "keys_lookup P (new_keys P) m = []" "distinct (keys_names P h)" "distinct (map fst (keys_lookup P h m))"
      "m \<in> set (keys_names P h) \<longleftrightarrow> keys_lookup P h m \<noteq> []"
    using assms by (simp_all add: host_keys_laws_def)
  have "filter (\<lambda>l. fst l = m) (filter (\<lambda>(n, t, k). n \<noteq> name) (lines_of P h)) =
      (if m = name then [] else filter (\<lambda>l. fst l = m) (lines_of P h))"
    by (auto simp: case_prod_beta intro: filter_cong)
  then have rows: "map snd (filter (\<lambda>l. fst l = m) (filter (\<lambda>(n, t, k). n \<noteq> name) (lines_of P h))) =
      (if m = name then [] else keys_lookup P h m)"
    using lines_at [OF laws(2), of m "keys_lookup P h"] laws(4) by (simp add: lines_of_def)
  have "map_of (rev (keys_lookup P h m)) = map_of (keys_lookup P h m)"
    using laws(3) by (intro map_of_eqI) (auto simp: rev_map [symmetric])
  then show ?thesis
    unfolding without_entry_def fold_add [OF assms] rows laws(1) by (simp add: fold_updates)
qed

lemma forget_host_stored:
  assumes "host_keys_laws P" "table_ok P (load_unlocked P f)"
  shows "table_ok P (load_unlocked P (forget_host_at P f a))"
    "n \<noteq> entry_of a \<Longrightarrow> stored P (forget_host_at P f a) n = stored P f n"
    "stored P (forget_host_at P f a) (entry_of a) = Map.empty"
proof -
  let ?h = "without_entry P (load_unlocked P f) (entry_of a)"
  have without: "map_of (keys_lookup P ?h m) = (if m = entry_of a then Map.empty else stored P f m)" for m
    by (simp add: without_entry_stored [OF assms(1)] stored_def)
  have ok: "table_ok P ?h"
    using assms without by (simp add: table_ok_iff stored_def)
  have none: "keys_lookup P (new_keys P) m = []" for m using assms(1) by (simp add: host_keys_laws_def)
  have cases: "forget_host_at P f a = f \<and> stored P f (entry_of a) = Map.empty \<or> forget_host_at P f a = atomic_save P ?h"
    by (auto simp: forget_host_at_def forget_host_def entry_of_def stored_def load_unlocked_def none Let_def)
  then show "table_ok P (load_unlocked P (forget_host_at P f a))"
    "n \<noteq> entry_of a \<Longrightarrow> stored P (forget_host_at P f a) n = stored P f n"
    "stored P (forget_host_at P f a) (entry_of a) = Map.empty"
    using saved_ok [OF assms(1) ok] saved_stored [OF assms(1) ok] without assms(2) by auto
qed

text \<open>On a table that behaves as paramiko documents, the known-hosts store is a store of pins.\<close>

lemma ssh_pin_store:
  assumes "host_keys_laws P"
  shows "pin_store (\<lambda>f. table_ok P (load_unlocked P f)) (\<lambda>a. plain_name (entry_of a)) entry_of (key_trusted P)
    (\<lambda>f n. stored P f n \<noteq> Map.empty) (same_key P) (evaluate_at P) (forget_host_at P)"
proof
  fix f f' :: "'a option" and n a k m
  show "key_trusted P f n k \<Longrightarrow> stored P f n \<noteq> Map.empty" by (auto simp: key_trusted_def)
  show "stored P f (entry_of a) \<noteq> Map.empty \<Longrightarrow> evaluate_at P m f a k = Inr f' \<Longrightarrow> f' = f \<and> key_trusted P f (entry_of a) k"
    by (auto simp: evaluate_at_def evaluate_host_key_def verify_stored entry_of_def split: if_splits)
  show "key_trusted P f (entry_of a) k \<Longrightarrow> evaluate_at P m f a k = Inr f"
    by (auto simp: evaluate_at_def evaluate_host_key_def verify_stored entry_of_def key_trusted_def)
next
  fix f f' :: "'a option" and a k m
  assume ok: "table_ok P (load_unlocked P f)" "plain_name (entry_of a)" and new: "\<not> stored P f (entry_of a) \<noteq> Map.empty"
    and ev: "evaluate_at P m f a k = Inr f'"
  have f': "f' = add_key P f (fst a) (snd a) k"
    using new ev by (auto simp: evaluate_at_def evaluate_host_key_def verify_stored entry_of_def split: if_splits)
  note st = add_key_stored [OF assms ok(1) ok(2) [unfolded entry_of_def], of k, folded f' entry_of_def]
  have "stored P f' (entry_of a) = [get_name P k \<mapsto> k]" using st(2) [of "entry_of a"] new by simp
  then show "table_ok P (load_unlocked P f') \<and> stored P f' (entry_of a) \<noteq> Map.empty \<and>
      (\<forall>k'. key_trusted P f' (entry_of a) k' \<longleftrightarrow> same_key P k' k) \<and>
      (\<forall>n. n \<noteq> entry_of a \<longrightarrow> (stored P f' n \<noteq> Map.empty) = (stored P f n \<noteq> Map.empty) \<and> key_trusted P f' n = key_trusted P f n)"
    using st by (auto simp: key_trusted_def same_key_def fun_eq_iff)
next
  fix f :: "'a option" and a
  assume "table_ok P (load_unlocked P f)" "plain_name (entry_of a)"
  then show "table_ok P (load_unlocked P (forget_host_at P f a)) \<and> (\<forall>n. n \<noteq> entry_of a \<longrightarrow>
      (stored P (forget_host_at P f a) n \<noteq> Map.empty) = (stored P f n \<noteq> Map.empty) \<and>
      key_trusted P (forget_host_at P f a) n = key_trusted P f n)"
    using forget_host_stored [OF assms, of f] by (auto simp: key_trusted_def fun_eq_iff)
qed

section \<open>A pinned device stays pinned\<close>

text \<open>
  C9. Once a first connection pinned the host key of a device, then after any sequence of
  connections to any devices, with any keys, under either policy, and of administrators
  forgetting other devices, a connection to it is accepted exactly with that key.
\<close>

theorem pinned_key_holds:
  assumes "host_keys_laws P" "table_ok P (load_unlocked P f)" "plain_name (entry_of a)"
    "verify_key P f (fst a) (snd a) k = UNKNOWN" "evaluate_at P m f a k = Inr f1"
    "\<forall>p \<in> set ops. plain_name (entry_of (op_addr p)) \<and> (\<forall>b. p = Forget b \<longrightarrow> entry_of b \<noteq> entry_of a)"
  shows "(\<exists>f2. evaluate_at P m' (run_ops (evaluate_at P) (forget_host_at P) ops f1) a k' = Inr f2) \<longleftrightarrow> same_key P k' k"
proof (rule pin_store.first_key_holds [OF ssh_pin_store [OF assms(1)] assms(2,3) _ assms(5,6)])
  show "\<not> stored P f (entry_of a) \<noteq> Map.empty"
    using assms(4) by (auto simp: verify_stored entry_of_def split: if_splits)
qed

text \<open>A table of keys as a list of lines, the newest first, read and written as it is.\<close>

definition line_keys :: "((string \<times> string \<times> string \<times> string) list, (string \<times> string \<times> string \<times> string) list, string \<times> string) paramiko" where
  "line_keys = \<lparr> new_keys = [], load_keys = id, file_of = id, keys_names = (\<lambda>h. remdups (map fst h)),
     keys_lookup = (\<lambda>h n. AList.clearjunk (map snd (filter (\<lambda>l. fst l = n) h))),
     keys_add = (\<lambda>h n t k. (n, t, k) # h), get_name = fst, asbytes = snd, key_fingerprint = snd \<rparr>"

lemma clearjunk_Nil: "AList.clearjunk al = [] \<longleftrightarrow> al = []"
  by (cases al rule: AList.clearjunk.cases) simp_all

lemma line_keys_laws: "host_keys_laws line_keys"
proof -
  have member: "n \<in> fst ` set h \<longleftrightarrow> filter (\<lambda>l. fst l = n) h \<noteq> []" for n and h :: "(string \<times> string \<times> string \<times> string) list"
    by (auto simp: filter_empty_conv)
  have read: "map snd (filter (\<lambda>l. fst l = n) (lines_of line_keys h)) = AList.clearjunk (map snd (filter (\<lambda>l. fst l = n) h))" for h n
    using lines_at [of "keys_names line_keys h" n "keys_lookup line_keys h"]
    by (simp add: lines_of_def line_keys_def member split: if_splits)
  show ?thesis
    unfolding host_keys_laws_def using read
    by (simp add: line_keys_def member clearjunk_Nil map_of_clearjunk distinct_clearjunk)
qed

definition visits :: "(policy, string \<times> int, string \<times> string) pin_op list" where
  "visits = [Connect TOFU (''r1'', 22) (''rsa'', ''EVIL''), Connect TOFU (''r2'', 22) (''rsa'', ''B''), Forget (''r2'', 22)]"

theorem pinned_key_holds_witness:
  "evaluate_at line_keys TOFU None (''r1'', 22) (''rsa'', ''A'') = Inr (Some [(''r1'', ''rsa'', ''rsa'', ''A'')]) \<and>
   \<not> (\<exists>f2. evaluate_at line_keys TOFU (run_ops (evaluate_at line_keys) (forget_host_at line_keys) visits
      (Some [(''r1'', ''rsa'', ''rsa'', ''A'')])) (''r1'', 22) (''rsa'', ''EVIL'') = Inr f2)"
proof -
  have first: "evaluate_at line_keys TOFU None (''r1'', 22) (''rsa'', ''A'') = Inr (Some [(''r1'', ''rsa'', ''rsa'', ''A'')])"
    by code_simp
  have "\<not> same_key line_keys (''rsa'', ''EVIL'') (''rsa'', ''A'')" by code_simp
  moreover have "table_ok line_keys (load_unlocked line_keys None)" "plain_name (entry_of (''r1'', 22))"
      "plain_name (entry_of (''r2'', 22))" "entry_of (''r2'', 22) \<noteq> entry_of (''r1'', 22)"
      "verify_key line_keys None (fst (''r1'', 22)) (snd (''r1'', 22)) (''rsa'', ''A'') = UNKNOWN"
    by code_simp+
  ultimately show ?thesis
    using pinned_key_holds [OF line_keys_laws, of None "(''r1'', 22)" "(''rsa'', ''A'')" TOFU _ visits TOFU "(''rsa'', ''EVIL'')", OF _ _ _ first] first
    by (simp add: visits_def)
qed

text \<open>The same for the certificates of devices, up to collisions of the fingerprint.\<close>

theorem pinned_certificate_holds:
  assumes "pinned f h p = Inr None" "check_at sha m f (h, p) der = Inr f1"
    "\<forall>p' \<in> set ops. \<forall>b. p' = Forget b \<longrightarrow> pin_name (fst b) (snd b) \<noteq> pin_name h p"
  shows "(\<exists>f2. check_at sha m' (run_ops (check_at sha) forget_at ops f1) (h, p) der' = Inr f2) \<longleftrightarrow>
    fingerprint sha der' = fingerprint sha der"
proof (rule tls.first_key_holds [OF TrueI TrueI _ assms(2)])
  show "\<not> pins_of f (case (h, p) of (h, p) \<Rightarrow> pin_name h p) \<noteq> None"
    using assms(1) by (auto simp: pinned_def pins_of_def load_pins_def split: pin_file.splits)
  show "\<forall>p' \<in> set ops. True \<and> (\<forall>b. p' = Forget b \<longrightarrow> (case b of (h, p) \<Rightarrow> pin_name h p) \<noteq> (case (h, p) of (h, p) \<Rightarrow> pin_name h p))"
    using assms(3) by auto
qed

text \<open>
  Two first contacts that overlap: each verified the key before the other pinned its own.
  Both connections proceed, and the store keeps the later key and refuses the earlier.
\<close>

theorem overlapping_first_contacts:
  assumes "host_keys_laws P" "table_ok P (load_unlocked P f)" "plain_name (host_key_entry_name h p)"
    "verify_key P f h p k1 = UNKNOWN" "verify_key P f h p k2 = UNKNOWN"
    "get_name P k1 = get_name P k2" "asbytes P k1 \<noteq> asbytes P k2"
  shows "verify_key P (add_key P (add_key P f h p k1) h p k2) h p k1 = MISMATCH \<and>
    verify_key P (add_key P (add_key P f h p k1) h p k2) h p k2 = MATCH"
proof -
  note one = add_key_stored [OF assms(1-3)]
  note two = add_key_stored [OF assms(1) one(1) assms(3), of k1]
  have "stored P (add_key P (add_key P f h p k1) h p k2) (host_key_entry_name h p) (get_name P k1) = Some k2"
    using two(2) [of k2] assms(6) by simp
  then show ?thesis using assms(6,7) by (auto simp: verify_stored key_trusted_def)
qed

text \<open>
  Two workers that pin different devices at once: each wrote the pins it had read, so the
  pin of the first is gone and any certificate is accepted for it.
\<close>

theorem pin_lost_between_workers:
  assumes "decide_pin sha TOFU ps h p der = Inr (Some qs)" "decide_pin sha TOFU ps h' p' der' = Inr (Some qs')"
    "pin_name h p \<noteq> pin_name h' p'"
  shows "pinned (Pins qs) h p = Inr (Some (fingerprint sha der)) \<and> pinned (Pins qs') h p = Inr None \<and>
    (\<exists>f. check_pin sha TOFU (Pins qs') h p anything = Inr f)"
  using assms by (auto simp: pinned_def pin_defs update_conv' split: option.splits if_splits)

section \<open>The two kinds of clients agree on the entry\<close>

lemma str_of_int_digits: "0 \<le> p \<Longrightarrow> list_all py_isdigit (str_of_int p)"
  using str_of_nat_digits by (auto simp: str_of_int_def list_all_iff py_isdigit_def ascii_digit_def)

lemma bracket_not_digit: "0 \<le> p \<Longrightarrow> CHR '']'' \<notin> set (str_of_int p)"
  using str_of_nat_digits [of "CHR '']''" "nat p"] by (auto simp: str_of_int_def ascii_digit_def)

text \<open>
  The name paramiko hands to the callback is unpacked to the host and port it was made
  of, so the paramiko clients and the netmiko clients decide on the same entry; for every
  port and every host that does not itself start with a bracket.
\<close>

theorem callback_decides_for_the_device:
  assumes "h \<noteq> []" "\<not> prefix ''['' h" "0 \<le> p" "p \<le> 65535"
  shows "missing_host_key P mode p f (host_key_entry_name h p) k = map_sum Some id (evaluate_host_key P mode f h p k)"
proof -
  have "length (str_of_nat (nat \<bar>p\<bar>)) \<le> 5"
    using assms(3,4) by (intro length_str_of_nat) simp_all
  then have "py_int (str_of_int p) = Some p" by (intro py_int_str_of_int) simp
  moreover have "py_rpartition '']:'' (h @ CHR '']'' # '':'' @ str_of_int p) = Some (h, str_of_int p)"
    using bracket_not_digit [OF assms(3)] by (intro py_rpartition_append) simp
  ultimately have "split_entry_name (host_key_entry_name h p) p = Some (h, p)"
    using assms(1,2) str_of_int_digits [OF assms(3)]
    by (auto simp: split_entry_name_def host_key_entry_name_def SSH_DEFAULT_PORT_def)
  then show ?thesis by (simp add: missing_host_key_def)
qed

theorem callback_decides_for_the_device_witness:
  "missing_host_key line_keys TOFU 2222 None (host_key_entry_name ''r1'' 2222) (''rsa'', ''A'') =
   map_sum Some id (evaluate_host_key line_keys TOFU None ''r1'' 2222 (''rsa'', ''A''))"
  by (rule callback_decides_for_the_device) simp_all

section \<open>Forgetting a pin\<close>

datatype pin_kind = Ssh | Tls

datatype forget_error = Not_pinned | Store_failed

text \<open>\<^verbatim>\<open>_all_pins\<close>: kind, host, port, key type and fingerprint, of both stores.\<close>

definition all_pins ::
  "('f, 'h, 'k) paramiko \<Rightarrow> 'f option \<Rightarrow> pin_file \<Rightarrow> (pin_kind \<times> string \<times> int \<times> string option \<times> string) list option" where
  "all_pins P f t = (case (entries P f, pin_entries t) of
     (Some es, Inr (Some ps)) \<Rightarrow> Some (map (\<lambda>(h, p, ty, fp). (Ssh, h, p, Some ty, fp)) es @
       map (\<lambda>(h, p, fp). (Tls, h, p, None, fp)) ps)
   | _ \<Rightarrow> None)"

definition pin_at :: "pin_kind \<Rightarrow> string \<Rightarrow> int \<Rightarrow> pin_kind \<times> string \<times> int \<times> string option \<times> string \<Rightarrow> bool" where
  "pin_at kind host port d \<longleftrightarrow> fst d = kind \<and> fst (snd d) = host \<and> fst (snd (snd d)) = port"

text \<open>The route of the administrators, with the pins it writes to the audit trail.\<close>

definition forget_device_key ::
  "('f, 'h, 'k) paramiko \<Rightarrow> pin_kind \<Rightarrow> string \<Rightarrow> int \<Rightarrow> 'f option \<Rightarrow> pin_file \<Rightarrow>
   (forget_error, (pin_kind \<times> string \<times> int \<times> string option \<times> string) list \<times> 'f option \<times> pin_file) result" where
  "forget_device_key P kind host port f t = (case all_pins P f t of
     None \<Rightarrow> Inl Store_failed
   | Some pins \<Rightarrow>
     let dropped = filter (pin_at kind host port) pins in
     if dropped = [] then Inl Not_pinned
     else case kind of
         Ssh \<Rightarrow> let (removed, f') = forget_host P f host port in
           if removed then Inr (dropped, f', t) else Inl Not_pinned
       | Tls \<Rightarrow> (case forget_pin t host port of
             Inl _ \<Rightarrow> Inl Store_failed
           | Inr (removed, t') \<Rightarrow> if removed then Inr (dropped, f, t') else Inl Not_pinned))"

text \<open>
  A removal leaves the device unknown, and by its dropped pins the audit trail names a
  fingerprint of that device.
\<close>

theorem forgotten_device_is_unknown:
  assumes "host_keys_laws P" "table_ok P (load_unlocked P f)" "forget_device_key P kind h p f t = Inr (dropped, f', t')"
  shows "dropped \<noteq> [] \<and> (\<forall>d \<in> set dropped. \<exists>ty fp. d = (kind, h, p, ty, fp)) \<and>
    (case kind of Ssh \<Rightarrow> verify_key P f' h p k = UNKNOWN \<and> t' = t | Tls \<Rightarrow> pinned t' h p = Inr None \<and> f' = f)"
proof -
  obtain pins where pins: "all_pins P f t = Some pins"
    using assms(3) by (cases "all_pins P f t") (auto simp: forget_device_key_def)
  have drop: "dropped = filter (pin_at kind h p) pins" "dropped \<noteq> []"
    using assms(3) by (auto simp: forget_device_key_def pins Let_def split: if_splits pin_kind.splits prod.splits sum.splits)
  have state: "case kind of Ssh \<Rightarrow> f' = forget_host_at P f (h, p) \<and> t' = t
      | Tls \<Rightarrow> (\<exists>b. forget_pin t h p = Inr (b, t') \<and> b) \<and> f' = f"
    using assms(3) by (auto simp: forget_device_key_def pins Let_def forget_host_at_def
        split: if_splits pin_kind.splits prod.splits sum.splits)
  have "case kind of Ssh \<Rightarrow> verify_key P f' h p k = UNKNOWN \<and> t' = t | Tls \<Rightarrow> pinned t' h p = Inr None \<and> f' = f"
  proof (cases kind)
    case Ssh
    with state forget_host_stored(3) [OF assms(1,2), of "(h, p)"] show ?thesis
      by (simp add: verify_stored entry_of_def)
  next
    case Tls
    with state show ?thesis
      by (auto simp: forget_pin_def pinned_def load_pins_def delete_conv' split: pin_file.splits if_splits)
  qed
  then show ?thesis using drop by (auto simp: pin_at_def)
qed

end
