(* ===== verification/Ldap_Groups.thy ===== *)
theory Ldap_Groups
  imports Prelude
begin

text \<open>
  The session with a directory server, \<^verbatim>\<open>modules/directory/ldap.py\<close>: opening it on the first
  server that answers, finding a user, the groups of a user at any level, and checking a
  password. The answers of the servers are parameters.
\<close>

section \<open>Talking to the directory\<close>

datatype dir_kind = AD | LDAP

text \<open>An entry of a search for a user, its attributes as \<^verbatim>\<open>one()\<close> reads them.\<close>

record ldap_entry =
  l_dn :: string
  l_name :: "string option"
  l_mail :: "string option"
  l_uac :: "int option"

record directory_user =
  du_dn :: string
  du_name :: string
  du_email :: "string option"
  du_disabled :: bool

datatype bind_outcome = Bound | Bind_refused | Unreachable

datatype dir_error = DirectoryUnavailable | Role_unknown | Name_taken

text \<open>
  What the servers answer: how the connection of the service account to each configured
  server goes, the entries of a search by name, the groups a group filter finds for a DN
  (with Active Directory the ones of every level), and a bind with a DN and a password.
\<close>

record ldap =
  l_kind :: dir_kind
  l_servers :: "bind_outcome list"
  user_entries :: "string \<Rightarrow> ldap_entry list option"
  member_of :: "string \<Rightarrow> string list option"
  binds :: "string \<Rightarrow> string \<Rightarrow> bind_outcome"

fun open_session :: "bind_outcome list \<Rightarrow> bool" where
  "open_session [] = False"
| "open_session (Bound # _) = True"
| "open_session (Bind_refused # _) = False"
| "open_session (Unreachable # rest) = open_session rest"

definition AD_DISABLED_bit :: "int \<Rightarrow> bool" where
  "AD_DISABLED_bit uac \<longleftrightarrow> odd (uac div 2)"

definition find_directory_user :: "ldap \<Rightarrow> string \<Rightarrow> (dir_error, directory_user option) result" where
  "find_directory_user ds uname = (let n = py_strip uname in
     if n = [] \<or> length n > 256 then Inr None
     else case user_entries ds n of
         None \<Rightarrow> Inl DirectoryUnavailable
       | Some found \<Rightarrow> Inr (case found of
             [e] \<Rightarrow> Some \<lparr> du_dn = l_dn e, du_name = (case l_name e of None \<Rightarrow> n | Some m \<Rightarrow> m), du_email = l_mail e,
               du_disabled = (l_kind ds = AD \<and> (case l_uac e of None \<Rightarrow> False | Some u \<Rightarrow> AD_DISABLED_bit u)) \<rparr>
           | _ \<Rightarrow> None))"

fun split_at :: "char \<Rightarrow> string \<Rightarrow> string list" where
  "split_at sep [] = [[]]"
| "split_at sep (c # cs) = (case split_at sep cs of
     [] \<Rightarrow> [[c]]
   | p # ps \<Rightarrow> if c = sep then [] # p # ps else (c # p) # ps)"

fun join_at :: "char \<Rightarrow> string list \<Rightarrow> string" where
  "join_at sep [] = []"
| "join_at sep [p] = p"
| "join_at sep (p # q # qs) = p @ sep # join_at sep (q # qs)"

definition norm_dn :: "string \<Rightarrow> string" where
  "norm_dn dn = py_lower (join_at CHR '','' (map py_strip (split_at CHR '','' dn)))"

definition NESTING_DEPTH :: nat where "NESTING_DEPTH = 8"

text \<open>One search of the inner loop: the groups not seen before, in order, and what is now seen.\<close>

fun collect_new :: "string list \<Rightarrow> (string \<times> string) list \<Rightarrow> string list \<Rightarrow> (string \<times> string) list \<times> string list" where
  "collect_new [] seen nxt = (seen, nxt)"
| "collect_new (g # gs) seen nxt =
     (if map_of seen (norm_dn g) = None then collect_new gs ((norm_dn g, g) # seen) (nxt @ [g])
      else collect_new gs seen nxt)"

fun search_frontier :: "ldap \<Rightarrow> string list \<Rightarrow> (string \<times> string) list \<Rightarrow> string list \<Rightarrow>
    ((string \<times> string) list \<times> string list) option" where
  "search_frontier ds [] seen nxt = Some (seen, nxt)"
| "search_frontier ds (dn # dns) seen nxt = (case member_of ds dn of
     None \<Rightarrow> None
   | Some gs \<Rightarrow> (case collect_new gs seen nxt of (seen', nxt') \<Rightarrow> search_frontier ds dns seen' nxt'))"

fun nested_groups :: "ldap \<Rightarrow> nat \<Rightarrow> string list \<Rightarrow> (string \<times> string) list \<Rightarrow> (string \<times> string) list option" where
  "nested_groups ds 0 frontier seen = Some seen"
| "nested_groups ds (Suc depth) frontier seen = (case search_frontier ds frontier seen [] of
     None \<Rightarrow> None
   | Some (seen', nxt) \<Rightarrow> if nxt = [] then Some seen' else nested_groups ds depth nxt seen')"

definition groups_of :: "ldap \<Rightarrow> directory_user \<Rightarrow> (dir_error, string list) result" where
  "groups_of ds u = (case (if l_kind ds = AD then member_of ds (du_dn u)
       else map_option (map snd) (nested_groups ds NESTING_DEPTH [du_dn u] [])) of
     None \<Rightarrow> Inl DirectoryUnavailable | Some gs \<Rightarrow> Inr gs)"

definition check_directory_password :: "ldap \<Rightarrow> directory_user \<Rightarrow> string \<Rightarrow> (dir_error, bool) result" where
  "check_directory_password ds u password =
     (if password = [] then Inr False
      else case binds ds (du_dn u) password of
          Bound \<Rightarrow> Inr True | Bind_refused \<Rightarrow> Inr False | Unreachable \<Rightarrow> Inl DirectoryUnavailable)"

section \<open>Groups of groups\<close>

text \<open>
  Membership on normalised names, and the groups some name is in through at most \<open>k\<close>
  memberships: the meaning of the level by level search.
\<close>

definition membership :: "ldap \<Rightarrow> (string \<times> string) set" where
  "membership ds = {(norm_dn a, norm_dn g) |a g gs. member_of ds a = Some gs \<and> g \<in> set gs}"

fun reached_in :: "('n \<times> 'n) set \<Rightarrow> nat \<Rightarrow> 'n set \<Rightarrow> 'n set" where
  "reached_in E 0 F = {}"
| "reached_in E (Suc k) F = E `` F \<union> reached_in E k (E `` F)"

text \<open>The server compares names as the directory does: spelling and spaces do not matter.\<close>

definition compares_names :: "ldap \<Rightarrow> bool" where
  "compares_names ds \<longleftrightarrow> (\<forall>a b gs hs. norm_dn a = norm_dn b \<longrightarrow> member_of ds a = Some gs \<longrightarrow> member_of ds b = Some hs \<longrightarrow>
     norm_dn ` set gs = norm_dn ` set hs)"

lemma reached_in_Un: "reached_in E k (A \<union> B) = reached_in E k A \<union> reached_in E k B"
  by (induction k arbitrary: A B) (auto simp: Image_Un)

lemma reached_in_Suc: "reached_in E k F \<subseteq> reached_in E (Suc k) F"
proof (induction k arbitrary: F)
  case (Suc k)
  then show ?case using Suc.IH [of "E `` F"] by auto
qed simp

lemma reached_in_mono: "A \<subseteq> B \<Longrightarrow> reached_in E k A \<subseteq> reached_in E k B"
  by (metis sup.absorb_iff2 sup.cobounded1 reached_in_Un)

text \<open>What was seen and is not in the frontier needs no second visit.\<close>

lemma reached_in_closed:
  assumes "E `` S \<subseteq> S \<union> E `` F"
  shows "reached_in E k S \<subseteq> S \<union> reached_in E k F"
proof (induction k)
  case (Suc k)
  have "reached_in E k (E `` S) \<subseteq> reached_in E k S \<union> reached_in E k (E `` F)"
    using reached_in_mono [OF assms, of E k] by (simp add: reached_in_Un)
  then show ?case using Suc assms reached_in_Suc [of E k F] by auto
qed simp

lemma reached_in_next:
  assumes "E `` S \<subseteq> S \<union> E `` F"
  shows "E `` (S \<union> E `` F) \<subseteq> (S \<union> E `` F) \<union> E `` (E `` F - S)"
    "S \<union> E `` F \<union> reached_in E k (E `` F - S) = S \<union> reached_in E (Suc k) F"
proof -
  let ?S = "S \<union> E `` F" and ?F = "E `` F - S"
  show closed: "E `` ?S \<subseteq> ?S \<union> E `` ?F" using assms by blast
  have "reached_in E k (E `` F) \<subseteq> reached_in E k ?S" by (rule reached_in_mono) simp
  then have "reached_in E k (E `` F) \<subseteq> ?S \<union> reached_in E k ?F" using reached_in_closed [OF closed, of k] by blast
  moreover have "reached_in E k ?F \<subseteq> reached_in E k (E `` F)" by (rule reached_in_mono) blast
  ultimately show "?S \<union> reached_in E k ?F = S \<union> reached_in E (Suc k) F" by auto
qed

lemma membership_at:
  assumes "compares_names ds" "member_of ds a = Some gs"
  shows "membership ds `` {norm_dn a} = norm_dn ` set gs"
proof
  show "norm_dn ` set gs \<subseteq> membership ds `` {norm_dn a}" using assms(2) by (auto simp: membership_def)
  have "norm_dn g \<in> norm_dn ` set gs" if "norm_dn b = norm_dn a" "member_of ds b = Some hs" "g \<in> set hs" for b g hs
    using assms that unfolding compares_names_def by blast
  then show "membership ds `` {norm_dn a} \<subseteq> norm_dn ` set gs" by (auto simp: membership_def)
qed

definition keyed :: "(string \<times> string) list \<Rightarrow> bool" where
  "keyed seen \<longleftrightarrow> (\<forall>(k, g) \<in> set seen. k = norm_dn g)"

lemma collect_new_spec:
  assumes "collect_new gs seen nxt = (seen', nxt')" "keyed seen" "norm_dn ` set nxt = fst ` set seen - S" "S \<subseteq> fst ` set seen"
  shows "fst ` set seen' = fst ` set seen \<union> norm_dn ` set gs \<and> keyed seen' \<and> norm_dn ` set nxt' = fst ` set seen' - S"
  using assms
proof (induction gs seen nxt rule: collect_new.induct)
  case (1 seen nxt)
  then show ?case by simp
next
  case (2 g gs seen nxt)
  show ?case
  proof (cases "map_of seen (norm_dn g) = None")
    case True
    then have new: "norm_dn g \<notin> fst ` set seen" by (simp add: map_of_eq_None_iff)
    have "norm_dn ` set (nxt @ [g]) = fst ` set ((norm_dn g, g) # seen) - S"
      using new 2(5,6) by auto
    moreover have "keyed ((norm_dn g, g) # seen)" "S \<subseteq> fst ` set ((norm_dn g, g) # seen)"
      using 2(4,6) by (auto simp: keyed_def)
    ultimately show ?thesis using 2(1) [OF True] 2(3) True by auto
  next
    case False
    then have "norm_dn g \<in> fst ` set seen" by (simp add: map_of_eq_None_iff)
    then show ?thesis using 2(2) [OF False] 2(3-6) False by auto
  qed
qed

lemma search_frontier_spec:
  assumes "search_frontier ds F seen nxt = Some (seen', nxt')" "compares_names ds" "keyed seen"
    "norm_dn ` set nxt = fst ` set seen - S" "S \<subseteq> fst ` set seen"
  shows "fst ` set seen' = fst ` set seen \<union> membership ds `` (norm_dn ` set F) \<and> keyed seen' \<and> norm_dn ` set nxt' = fst ` set seen' - S"
  using assms
proof (induction F arbitrary: seen nxt)
  case (Cons a F)
  obtain gs seen1 nxt1 where a: "member_of ds a = Some gs" "collect_new gs seen nxt = (seen1, nxt1)"
      "search_frontier ds F seen1 nxt1 = Some (seen', nxt')"
    using Cons.prems(1) by (auto split: option.splits prod.splits)
  have one: "fst ` set seen1 = fst ` set seen \<union> norm_dn ` set gs" "keyed seen1" "norm_dn ` set nxt1 = fst ` set seen1 - S"
    using collect_new_spec [OF a(2) Cons.prems(3-5)] by auto
  have "membership ds `` (norm_dn ` set (a # F)) = norm_dn ` set gs \<union> membership ds `` (norm_dn ` set F)"
    using membership_at [OF Cons.prems(2) a(1)] by auto
  moreover have "S \<subseteq> fst ` set seen1" using one(1) Cons.prems(5) by blast
  ultimately show ?case
    using Cons.IH [OF a(3) Cons.prems(2) one(2,3)] one(1) by (simp add: Un_assoc)
qed simp

lemma nested_groups_spec:
  assumes "nested_groups ds k F seen = Some R" "compares_names ds" "keyed seen"
    "membership ds `` (fst ` set seen) \<subseteq> fst ` set seen \<union> membership ds `` (norm_dn ` set F)"
  shows "fst ` set R = fst ` set seen \<union> reached_in (membership ds) k (norm_dn ` set F) \<and> keyed R"
  using assms
proof (induction k arbitrary: F seen)
  case (Suc k)
  let ?E = "membership ds" and ?S = "fst ` set seen" and ?F = "norm_dn ` set F"
  obtain seen' nxt where one: "search_frontier ds F seen [] = Some (seen', nxt)"
    using Suc.prems(1) by (auto split: option.splits prod.splits)
  have level: "fst ` set seen' = ?S \<union> ?E `` ?F" "keyed seen'" "norm_dn ` set nxt = ?E `` ?F - ?S"
    using search_frontier_spec [OF one Suc.prems(2,3), of ?S] by auto
  note closed = reached_in_next [OF Suc.prems(4)]
  show ?case
  proof (cases "nxt = []")
    case True
    then have "?E `` ?F - ?S = {}" using level(3) by simp
    moreover have "reached_in ?E k {} = {}" by (induction k) auto
    ultimately have "?S \<union> ?E `` ?F = ?S \<union> reached_in ?E (Suc k) ?F" using closed(2) [of k] by (metis Un_empty_right)
    moreover have "R = seen'" using Suc.prems(1) one True by simp
    ultimately show ?thesis using level(1,2) by simp
  next
    case False
    then have "nested_groups ds k nxt seen' = Some R" using Suc.prems(1) one by simp
    from Suc.IH [OF this Suc.prems(2) level(2)] show ?thesis
      using closed(1) closed(2) [of k] level(1,3) by simp
  qed
qed simp

text \<open>
  C38. For a directory without a chain query, the groups of a user are exactly those it is in
  through at most eight memberships, whatever the order the server lists them in, and
  whether or not groups contain each other in a circle.
\<close>

theorem nested_groups_exact:
  assumes "groups_of ds u = Inr gs" "l_kind ds = LDAP" "compares_names ds"
  shows "norm_dn ` set gs = reached_in (membership ds) 8 {norm_dn (du_dn u)}"
proof -
  obtain R where R: "nested_groups ds 8 [du_dn u] [] = Some R" and gs: "gs = map snd R"
    using assms(1,2) by (auto simp: groups_of_def NESTING_DEPTH_def split: option.splits)
  have "fst ` set R = reached_in (membership ds) 8 {norm_dn (du_dn u)}" "keyed R"
    using nested_groups_spec [OF R assms(3)] by (auto simp: keyed_def)
  moreover have "norm_dn ` snd ` set R = fst ` set R" using \<open>keyed R\<close> by (force simp: keyed_def image_iff)
  ultimately show ?thesis by (simp add: gs)
qed

text \<open>Two groups that contain each other, spelled differently.\<close>

definition circle :: ldap where
  "circle = \<lparr> l_kind = LDAP, l_servers = [Bound], user_entries = (\<lambda>_. Some []),
     member_of = (\<lambda>a. Some (if norm_dn a = ''u'' then [''cn=A, o=x''] else if norm_dn a = ''cn=a,o=x'' then [''CN=b,o=x'']
       else if norm_dn a = ''cn=b,o=x'' then [''cn=a,O=x''] else [])), binds = (\<lambda>_ _. Bind_refused) \<rparr>"

theorem nested_groups_exact_witness:
  "groups_of circle \<lparr> du_dn = ''u'', du_name = ''u'', du_email = None, du_disabled = False \<rparr> = Inr [''CN=b,o=x'', ''cn=A, o=x''] \<and>
   norm_dn ` set [''CN=b,o=x'', ''cn=A, o=x''] = reached_in (membership circle) 8 {norm_dn ''u''}"
proof -
  have groups: "groups_of circle \<lparr> du_dn = ''u'', du_name = ''u'', du_email = None, du_disabled = False \<rparr> =
      Inr [''CN=b,o=x'', ''cn=A, o=x'']"
    by code_simp
  moreover have "l_kind circle = LDAP" by (simp add: circle_def)
  moreover have "compares_names circle" by (auto simp: compares_names_def circle_def)
  ultimately show ?thesis using nested_groups_exact [OF groups] by simp
qed

end
