(* ===== verification/Directory.thy ===== *)
theory Directory
  imports User_Admin Ldap_Groups
begin

text \<open>
  Sign-in with Active Directory or LDAP, \<^verbatim>\<open>modules/directory/service.py\<close>: what the groups of
  a user give, the account that is made and kept up to date at sign-in, and the periodic
  check of every directory account, over the tables of \<^verbatim>\<open>User_Admin\<close> and the session of
  \<^verbatim>\<open>Ldap_Groups\<close>.
\<close>

section \<open>What the groups give\<close>

record mapping =
  group_dn :: string
  map_role :: string
  map_permissions :: "grant list"

record granted =
  gr_role :: string
  gr_permissions :: "grant list"

definition role_rank_of :: "string \<Rightarrow> int" where
  "role_rank_of r = (if r = ''guest'' then 0 else if r = ''user'' then 1 else if r = ''manager'' then 2
     else if r = ''admin'' then 3 else -1)"

fun highest_role :: "string \<Rightarrow> string list \<Rightarrow> string" where
  "highest_role r [] = r"
| "highest_role r (s # ss) = highest_role (if role_rank_of r < role_rank_of s then s else r) ss"

text \<open>The dictionary from module to flags, in the order of first mention.\<close>

fun merge_grant :: "grant \<Rightarrow> grant list \<Rightarrow> grant list" where
  "merge_grant p [] = [p]"
| "merge_grant p (g # gs) = (if g_module g = g_module p
     then g\<lparr> g_read := g_read g \<or> g_read p, g_write := g_write g \<or> g_write p, g_delete := g_delete g \<or> g_delete p \<rparr> # gs
     else g # merge_grant p gs)"

definition resolve :: "mapping list \<Rightarrow> string list \<Rightarrow> granted option" where
  "resolve mappings groups =
     (let hits = filter (\<lambda>m. norm_dn (group_dn m) \<in> set (map norm_dn groups)) mappings in
      case hits of
        [] \<Rightarrow> None
      | h # hs \<Rightarrow> (let r = highest_role (map_role h) (map map_role hs) in
          Some \<lparr> gr_role = r, gr_permissions = (if r = ''admin'' then []
            else fold merge_grant (concat (map map_permissions hits)) []) \<rparr>))"

definition some_flag :: "grant \<Rightarrow> bool" where
  "some_flag g \<longleftrightarrow> g_read g \<or> g_write g \<or> g_delete g"

definition grant_of_row :: "permission_row \<Rightarrow> grant" where
  "grant_of_row p = \<lparr> g_module = p_module p, g_read = can_read p, g_write = can_write p, g_delete = can_delete p \<rparr>"

definition set_grants :: "int \<Rightarrow> grant list \<Rightarrow> permission_row list \<Rightarrow> permission_row list" where
  "set_grants uid wanted ps =
     (let current = filter some_flag (map grant_of_row (filter (\<lambda>p. p_user p = uid) ps)) in
      if set current = set wanted then ps
      else filter (\<lambda>p. p_user p \<noteq> uid) ps @ map (row_of uid) (filter (\<lambda>g. g_module g \<in> set all_modules) wanted))"

text \<open>\<^verbatim>\<open>_apply_grant\<close>: a role that is no \<^verbatim>\<open>UserRole\<close> is a ValueError, raised before anything changes.\<close>

definition apply_grant :: "user \<Rightarrow> granted \<Rightarrow> db \<Rightarrow> (dir_error, user \<times> db) result" where
  "apply_grant u g d = (case parse_role (gr_role g) of
     None \<Rightarrow> Inl Role_unknown
   | Some r \<Rightarrow>
     let u' = u\<lparr> role := r \<rparr>;
         wanted = filter some_flag (if gr_role g = ''admin'' then [] else gr_permissions g) in
     Inr (u', d\<lparr> users := put_user u' (users d), permissions := set_grants (u_id u) wanted (permissions d) \<rparr>))"

section \<open>Accounts of the directory\<close>

text \<open>
  The database with the two columns of an account that only this part writes, the DN and
  the time of the last synchronisation. An account without an address has the empty one.
\<close>

record dir_state =
  base :: db
  external_dn :: "int \<Rightarrow> string option"
  synced_at :: "int \<Rightarrow> datetime option"

definition local_account :: "db \<Rightarrow> string \<Rightarrow> user option" where
  "local_account d n = find_user (\<lambda>u. username u = n \<and> auth_source u = ''local'') d"

definition directory_account :: "db \<Rightarrow> string \<Rightarrow> user option" where
  "directory_account d n = find_user (\<lambda>u. auth_source u = ''ldap'' \<and> py_lower (username u) = py_lower n) d"

definition free_email :: "db \<Rightarrow> string option \<Rightarrow> int option \<Rightarrow> string" where
  "free_email d addr uid = (case addr of
     None \<Rightarrow> []
   | Some e \<Rightarrow> if find_user (\<lambda>u. py_lower (email u) = py_lower e \<and> uid \<noteq> Some (u_id u)) d \<noteq> None then [] else e)"

text \<open>\<open>new_id\<close> is assigned by the database, \<open>hash\<close> the hash of a random password nobody knows.\<close>

definition new_account :: "int \<Rightarrow> string \<Rightarrow> directory_user \<Rightarrow> UserRole \<Rightarrow> db \<Rightarrow> user" where
  "new_account new_id hash found r d = \<lparr> u_id = new_id, username = py_lower (du_name found),
     email = free_email d (du_email found) None, hashed_password = hash, is_active = True, must_change_password = False,
     role = r, auth_source = ''ldap'', phone = None, language = None, disabled_by_directory = False \<rparr>"

definition provision_new :: "int \<Rightarrow> string \<Rightarrow> directory_user \<Rightarrow> granted \<Rightarrow> datetime \<Rightarrow> dir_state \<Rightarrow> (dir_error, user \<times> dir_state) result" where
  "provision_new new_id hash found g now st = (let d = base st in
     case parse_role (gr_role g) of
       None \<Rightarrow> Inl Role_unknown
     | Some r \<Rightarrow>
       if find_user (\<lambda>u. username u = py_lower (du_name found)) d \<noteq> None then Inl Name_taken
       else let u = new_account new_id hash found r d
            in res_bind (apply_grant u g (d\<lparr> users := users d @ [u] \<rparr>)) (\<lambda>(u, d).
                 Inr (u, st\<lparr> base := d, external_dn := (external_dn st)(new_id \<mapsto> du_dn found),
                   synced_at := (synced_at st)(new_id \<mapsto> now) \<rparr>)))"

definition provision_known :: "user \<Rightarrow> directory_user \<Rightarrow> granted \<Rightarrow> datetime \<Rightarrow> dir_state \<Rightarrow> (dir_error, user \<times> dir_state) result" where
  "provision_known u found g now st =
     res_bind (apply_grant u g (base st)) (\<lambda>(u, d).
       let u = (if du_email found \<notin> {None, Some []} \<and> email u = [] then u\<lparr> email := free_email d (du_email found) (Some (u_id u)) \<rparr> else u);
           u = (if \<not> is_active u \<and> disabled_by_directory u then u\<lparr> is_active := True, disabled_by_directory := False \<rparr> else u)
       in Inr (u, st\<lparr> base := d\<lparr> users := put_user u (users d) \<rparr>, external_dn := (external_dn st)(u_id u \<mapsto> du_dn found),
            synced_at := (synced_at st)(u_id u \<mapsto> now) \<rparr>))"

definition provision :: "int \<Rightarrow> string \<Rightarrow> directory_user \<Rightarrow> granted \<Rightarrow> datetime \<Rightarrow> dir_state \<Rightarrow> (dir_error, user \<times> dir_state) result" where
  "provision new_id hash found g now st = (case directory_account (base st) (py_lower (du_name found)) of
     None \<Rightarrow> provision_new new_id hash found g now st
   | Some u \<Rightarrow> provision_known u found g now st)"

datatype sign_in_outcome = Signed_in user | Bad_credentials | Disabled | No_group

definition directory_sign_in :: "ldap \<Rightarrow> mapping list \<Rightarrow> int \<Rightarrow> string \<Rightarrow> datetime \<Rightarrow> string \<Rightarrow> string \<Rightarrow> dir_state \<Rightarrow>
    (dir_error, sign_in_outcome \<times> dir_state) result" where
  "directory_sign_in ds mappings new_id hash now uname password st =
     (if \<not> open_session (l_servers ds) then Inl DirectoryUnavailable
      else res_bind (find_directory_user ds uname) (\<lambda>f. case f of
          None \<Rightarrow> Inr (Bad_credentials, st)
        | Some found \<Rightarrow>
          res_bind (check_directory_password ds found password) (\<lambda>right.
            if \<not> right then Inr (Bad_credentials, st)
            else if du_disabled found then Inr (Disabled, st)
            else res_bind (groups_of ds found) (\<lambda>groups. case resolve mappings groups of
                None \<Rightarrow> Inr (No_group, st)
              | Some g \<Rightarrow> res_bind (provision new_id hash found g now st) (\<lambda>(u, st). Inr (Signed_in u, st))))))"

section \<open>The periodic check\<close>

fun check_loop :: "ldap \<Rightarrow> mapping list \<Rightarrow> datetime \<Rightarrow> user list \<Rightarrow> dir_state \<Rightarrow> int list \<Rightarrow>
    (dir_error, int list) result \<times> dir_state" where
  "check_loop ds mappings now [] st off = (Inr off, st)"
| "check_loop ds mappings now (u # us) st off = (case find_directory_user ds (username u) of
     Inl e \<Rightarrow> (Inl e, st)
   | Inr None \<Rightarrow> check_loop ds mappings now us st (off @ [u_id u])
   | Inr (Some found) \<Rightarrow>
     if du_disabled found then check_loop ds mappings now us st (off @ [u_id u])
     else (case groups_of ds found of
         Inl e \<Rightarrow> (Inl e, st)
       | Inr groups \<Rightarrow> (case resolve mappings groups of
           None \<Rightarrow> check_loop ds mappings now us st (off @ [u_id u])
         | Some g \<Rightarrow> (case apply_grant u g (base st) of
             Inl e \<Rightarrow> (Inl e, st)
           | Inr (u', d) \<Rightarrow> check_loop ds mappings now us
               (st\<lparr> base := d, synced_at := (synced_at st)(u_id u \<mapsto> now) \<rparr>) off))))"

definition turn_off :: "int list \<Rightarrow> dir_state \<Rightarrow> dir_state" where
  "turn_off off st = st\<lparr> base := (base st)\<lparr> users := map (\<lambda>u. if u_id u \<in> set off
     then u\<lparr> is_active := False, disabled_by_directory := True \<rparr> else u) (users (base st)) \<rparr> \<rparr>"

datatype check_status = Skipped | Failed dir_error | Checked nat nat

definition checked_accounts :: "db \<Rightarrow> user list" where
  "checked_accounts d = filter (\<lambda>u. auth_source u = ''ldap'' \<and> is_active u) (users d)"

definition check_accounts :: "bool \<Rightarrow> ldap \<Rightarrow> mapping list \<Rightarrow> datetime \<Rightarrow> dir_state \<Rightarrow> check_status \<times> dir_state" where
  "check_accounts turned_on ds mappings now st =
     (if \<not> turned_on then (Skipped, st)
      else if \<not> open_session (l_servers ds) then (Failed DirectoryUnavailable, st)
      else (case check_loop ds mappings now (checked_accounts (base st)) st [] of
          (Inl e, st') \<Rightarrow> (Failed e, st')
        | (Inr off, st') \<Rightarrow> (Checked (length (checked_accounts (base st))) (length off), turn_off off st')))"

text \<open>Directory sign-in is turned off: the sessions of directory accounts end.\<close>

definition end_directory_sessions :: "datetime \<Rightarrow> db \<Rightarrow> db" where
  "end_directory_sessions now d = d\<lparr> revoked := (\<lambda>jti. case revoked d jti of
     Some x \<Rightarrow> Some x
   | None \<Rightarrow> (case sessions d jti of
       None \<Rightarrow> None
     | Some row \<Rightarrow> if now < s_expires row \<and> list_ex (\<lambda>u. u_id u = s_user row \<and> auth_source u = ''ldap'') (users d)
         then Some (s_expires row) else None)) \<rparr>"

section \<open>Sign-in with either kind of account\<close>

definition login_answer :: "bool \<Rightarrow> ldap \<Rightarrow> mapping list \<Rightarrow> int \<Rightarrow> string \<Rightarrow> datetime \<Rightarrow> string \<Rightarrow> string \<Rightarrow> dir_state \<Rightarrow>
    (dir_error, user option option option \<times> dir_state) result" where
  "login_answer turned_on ds mappings new_id hash now uname password st =
     (if \<not> turned_on \<or> local_account (base st) uname \<noteq> None then Inr (None, st)
      else case directory_sign_in ds mappings new_id hash now uname password st of
          Inl DirectoryUnavailable \<Rightarrow> Inr (Some None, st)
        | Inl e \<Rightarrow> Inl e
        | Inr (Signed_in u, st) \<Rightarrow> Inr (Some (Some (Some u)), st)
        | Inr (_, st) \<Rightarrow> Inr (Some (Some None), st))"

text \<open>\<^verbatim>\<open>POST /auth/login\<close>: the directory is asked only when the rate limit allows the attempt.\<close>

definition login_request :: "auth_env \<Rightarrow> bool \<Rightarrow> ldap \<Rightarrow> mapping list \<Rightarrow> int \<Rightarrow> string \<Rightarrow> datetime \<Rightarrow> int \<Rightarrow> string \<Rightarrow>
    string \<Rightarrow> string \<Rightarrow> string \<Rightarrow> dir_state \<Rightarrow> (auth_error, claims) result \<times> dir_state" where
  "login_request env turned_on ds mappings new_id hash now expires jti ip uname password st =
     (case check_login_rate_limit now (login_log (base st)) ip uname of
        Inl _ \<Rightarrow> (let (r, d) = login env now expires jti ip uname password None (base st) in (r, st\<lparr> base := d \<rparr>))
      | Inr _ \<Rightarrow> (case login_answer turned_on ds mappings new_id hash now uname password st of
          Inl _ \<Rightarrow> (Inl Uncaught, st)
        | Inr (answer, st) \<Rightarrow>
          (let (r, d) = login env now expires jti ip uname password answer (base st) in (r, st\<lparr> base := d \<rparr>))))"

section \<open>What the groups of a user give\<close>

definition gflag :: "string \<Rightarrow> grant \<Rightarrow> bool" where
  "gflag k g \<longleftrightarrow> k = ''read'' \<and> g_read g \<or> k = ''write'' \<and> g_write g \<or> k = ''delete'' \<and> g_delete g"

lemma gflag_row [simp]: "flag k (row_of i g) = gflag k g" "gflag k (grant_of_row p) = flag k p"
  by (simp_all add: flag_def gflag_def row_of_def grant_of_row_def)

lemma row_of_sel [simp]: "p_user (row_of i g) = i" "p_module (row_of i g) = g_module g"
  by (simp_all add: row_of_def)

lemma merge_flag:
  "(\<exists>g \<in> set (merge_grant p gs). g_module g = m \<and> gflag k g) \<longleftrightarrow>
     g_module p = m \<and> gflag k p \<or> (\<exists>g \<in> set gs. g_module g = m \<and> gflag k g)"
  by (induction gs) (auto simp: gflag_def)

lemma merge_modules: "g_module ` set (merge_grant p gs) = insert (g_module p) (g_module ` set gs)"
  by (induction gs) auto

lemma merge_distinct: "distinct (map g_module gs) \<Longrightarrow> distinct (map g_module (merge_grant p gs))"
  by (induction gs) (auto simp: merge_modules)

lemma fold_merge:
  "(\<exists>g \<in> set (fold merge_grant ps gs). g_module g = m \<and> gflag k g) \<longleftrightarrow>
     (\<exists>p \<in> set ps. g_module p = m \<and> gflag k p) \<or> (\<exists>g \<in> set gs. g_module g = m \<and> gflag k g)"
  "distinct (map g_module gs) \<Longrightarrow> distinct (map g_module (fold merge_grant ps gs))"
  by (induction ps arbitrary: gs) (auto simp: merge_flag merge_distinct)

lemma highest_role_max:
  "highest_role r rs \<in> insert r (set rs) \<and> (\<forall>s \<in> insert r (set rs). role_rank_of s \<le> role_rank_of (highest_role r rs))"
  by (induction rs arbitrary: r) fastforce+

text \<open>The mappings that apply to a user in these groups.\<close>

definition applying :: "mapping list \<Rightarrow> string list \<Rightarrow> mapping set" where
  "applying mappings groups = {mp \<in> set mappings. norm_dn (group_dn mp) \<in> norm_dn ` set groups}"

lemma resolve_Some:
  assumes "resolve mappings groups = Some g"
  shows "gr_role g \<in> map_role ` applying mappings groups"
    "mp \<in> applying mappings groups \<Longrightarrow> role_rank_of (map_role mp) \<le> role_rank_of (gr_role g)"
    "gr_role g \<noteq> ''admin'' \<Longrightarrow> (\<exists>p \<in> set (gr_permissions g). g_module p = m \<and> gflag k p) \<longleftrightarrow>
       (\<exists>mp \<in> applying mappings groups. \<exists>p \<in> set (map_permissions mp). g_module p = m \<and> gflag k p)"
    "distinct (map g_module (gr_permissions g))"
proof -
  obtain h hs where hits: "filter (\<lambda>m. norm_dn (group_dn m) \<in> set (map norm_dn groups)) mappings = h # hs"
    using assms by (auto simp: resolve_def Let_def split: list.splits)
  let ?r = "highest_role (map_role h) (map map_role hs)"
  have g: "g = \<lparr> gr_role = ?r, gr_permissions = (if ?r = ''admin'' then []
      else fold merge_grant (concat (map map_permissions (h # hs))) []) \<rparr>"
    using assms by (simp only: resolve_def hits Let_def list.case option.inject)
  have app: "applying mappings groups = set (h # hs)"
    unfolding hits [symmetric] by (auto simp: applying_def)
  show "gr_role g \<in> map_role ` applying mappings groups"
    using highest_role_max [of "map_role h" "map map_role hs"] by (auto simp: g app)
  show "role_rank_of (map_role mp) \<le> role_rank_of (gr_role g)" if "mp \<in> applying mappings groups"
    using that highest_role_max [of "map_role h" "map map_role hs"] by (auto simp: g app)
  show "(\<exists>p \<in> set (gr_permissions g). g_module p = m \<and> gflag k p) \<longleftrightarrow>
       (\<exists>mp \<in> applying mappings groups. \<exists>p \<in> set (map_permissions mp). g_module p = m \<and> gflag k p)"
    if "gr_role g \<noteq> ''admin''"
    using that by (auto simp: g app fold_merge(1))
  show "distinct (map g_module (gr_permissions g))" by (simp add: g fold_merge(2))
qed

section \<open>Every account follows its groups\<close>

text \<open>The rows of a table that belong to one account, and that every row names a module.\<close>

definition rows_of :: "int \<Rightarrow> permission_row list \<Rightarrow> permission_row list" where
  "rows_of i ps = filter (\<lambda>p. p_user p = i) ps"

definition modules_ok :: "permission_row list \<Rightarrow> bool" where
  "modules_ok ps \<longleftrightarrow> (\<forall>p \<in> set ps. p_module p \<in> set all_modules)"

lemma set_grants_other: "i \<noteq> j \<Longrightarrow> rows_of i (set_grants j wanted ps) = rows_of i ps"
proof -
  assume ij: "i \<noteq> j"
  have "rows_of i (filter (\<lambda>p. p_user p \<noteq> j) ps) = rows_of i ps"
    unfolding rows_of_def filter_filter using ij by (intro filter_cong) auto
  moreover have "rows_of i (map (row_of j) gs) = []" for gs
    using ij by (simp add: rows_of_def row_of_def filter_empty_conv)
  ultimately show ?thesis by (simp add: set_grants_def rows_of_def)
qed

lemma set_grants_ok:
  assumes "unique_permissions ps" "modules_ok ps" "distinct (map g_module wanted)"
  shows "unique_permissions (set_grants i wanted ps)" "modules_ok (set_grants i wanted ps)"
proof -
  have "distinct (map g_module (filter (\<lambda>g. g_module g \<in> set all_modules) wanted))"
    by (rule distinct_map_filter [OF assms(3)])
  then have "unique_permissions (map (row_of i) (filter (\<lambda>g. g_module g \<in> set all_modules) wanted))"
    by (simp add: unique_permissions_def row_of_def comp_def distinct_map inj_on_def)
  moreover have "unique_permissions (filter (\<lambda>p. p_user p \<noteq> i) ps)"
    using assms(1) by (rule unique_filter)
  ultimately show "unique_permissions (set_grants i wanted ps)"
    using assms(1) by (auto simp: set_grants_def Let_def unique_permissions_def row_of_def)
  show "modules_ok (set_grants i wanted ps)"
    using assms(2) by (auto simp: set_grants_def Let_def modules_ok_def row_of_def)
qed

lemma set_grants_flags:
  assumes "modules_ok ps" "\<forall>g \<in> set wanted. some_flag g" "k \<in> {''read'', ''write'', ''delete''}"
  shows "(\<exists>p \<in> set (set_grants i wanted ps). p_user p = i \<and> p_module p = m \<and> flag k p) \<longleftrightarrow>
    (\<exists>g \<in> set wanted. g_module g = m \<and> m \<in> set all_modules \<and> gflag k g)"
proof (cases "set (filter some_flag (map grant_of_row (filter (\<lambda>p. p_user p = i) ps))) = set wanted")
  case True
  have "(\<exists>p \<in> set ps. p_user p = i \<and> p_module p = m \<and> flag k p) \<longleftrightarrow>
      (\<exists>g \<in> set wanted. g_module g = m \<and> m \<in> set all_modules \<and> gflag k g)"
    unfolding True [symmetric] using assms(1)
    by (auto simp: modules_ok_def some_flag_def grant_of_row_def flag_def gflag_def)
  then show ?thesis using True by (simp add: set_grants_def)
next
  case False
  then have "set_grants i wanted ps = filter (\<lambda>p. p_user p \<noteq> i) ps @ map (row_of i) (filter (\<lambda>g. g_module g \<in> set all_modules) wanted)"
    by (simp add: set_grants_def Let_def)
  then show ?thesis by (auto simp: bex_Un)
qed

text \<open>
  An account is as its groups say: the directory has it once and enabled, a group of it is
  mapped, its role is the highest its groups map to, and its permissions are the union of
  what they give.
\<close>

definition follows :: "ldap \<Rightarrow> mapping list \<Rightarrow> user \<Rightarrow> permission_row list \<Rightarrow> bool" where
  "follows ds mappings u rows \<longleftrightarrow> (\<exists>found groups. find_directory_user ds (username u) = Inr (Some found) \<and>
     \<not> du_disabled found \<and> groups_of ds found = Inr groups \<and>
     role_value (role u) \<in> map_role ` applying mappings groups \<and>
     (\<forall>mp \<in> applying mappings groups. role_rank_of (map_role mp) \<le> role_rank_of (role_value (role u))) \<and>
     (role u \<noteq> ADMIN \<longrightarrow> (\<forall>m k. (\<exists>p \<in> set rows. p_module p = m \<and> flag k p) \<longleftrightarrow>
        m \<in> set all_modules \<and> (\<exists>mp \<in> applying mappings groups. \<exists>p \<in> set (map_permissions mp). g_module p = m \<and> gflag k p))))"

lemma parse_role_Some: "parse_role s = Some r \<longleftrightarrow> s = role_value r"
  by (cases r) (auto simp: parse_role_def)

lemma apply_grant_Inr:
  assumes "apply_grant u g d = Inr (u', d')" "tables_ok d" "modules_ok (permissions d)" "distinct (map g_module (gr_permissions g))"
  shows "u' = u\<lparr> role := role u' \<rparr>" "role_value (role u') = gr_role g" "users d' = put_user u' (users d)"
    "unique_permissions (permissions d')" "modules_ok (permissions d')"
    "i \<noteq> u_id u \<Longrightarrow> rows_of i (permissions d') = rows_of i (permissions d)"
    "gr_role g \<noteq> ''admin'' \<Longrightarrow> (\<exists>p \<in> set (rows_of (u_id u) (permissions d')). p_module p = m \<and> flag k p) \<longleftrightarrow>
       (\<exists>p \<in> set (gr_permissions g). g_module p = m \<and> m \<in> set all_modules \<and> gflag k p)"
proof -
  let ?wanted = "filter some_flag (if gr_role g = ''admin'' then [] else gr_permissions g)"
  obtain r where r: "gr_role g = role_value r" "u' = u\<lparr> role := r \<rparr>"
      "d' = d\<lparr> users := put_user u' (users d), permissions := set_grants (u_id u) ?wanted (permissions d) \<rparr>"
    using assms(1) by (auto simp: apply_grant_def Let_def parse_role_Some split: option.splits)
  have unique: "unique_permissions (permissions d)" using assms(2) by (simp add: tables_ok_def)
  have distinct: "distinct (map g_module ?wanted)" using distinct_map_filter [OF assms(4)] by simp
  show "u' = u\<lparr> role := role u' \<rparr>" "role_value (role u') = gr_role g" "users d' = put_user u' (users d)"
    using r by simp_all
  show "unique_permissions (permissions d')" "modules_ok (permissions d')"
    using set_grants_ok [OF unique assms(3) distinct] r(3) by simp_all
  show "i \<noteq> u_id u \<Longrightarrow> rows_of i (permissions d') = rows_of i (permissions d)"
    using set_grants_other r(3) by simp
  assume na: "gr_role g \<noteq> ''admin''"
  show "(\<exists>p \<in> set (rows_of (u_id u) (permissions d')). p_module p = m \<and> flag k p) \<longleftrightarrow>
       (\<exists>p \<in> set (gr_permissions g). g_module p = m \<and> m \<in> set all_modules \<and> gflag k p)"
  proof (cases "k \<in> {''read'', ''write'', ''delete''}")
    case True
    have "(\<exists>p \<in> set (gr_permissions g). g_module p = m \<and> m \<in> set all_modules \<and> gflag k p) \<longleftrightarrow>
        (\<exists>p \<in> set ?wanted. g_module p = m \<and> m \<in> set all_modules \<and> gflag k p)"
      using na by (auto simp: gflag_def some_flag_def)
    then show ?thesis
      using set_grants_flags [OF assms(3) _ True, of ?wanted "u_id u" m] r(3) by (auto simp: rows_of_def)
  next
    case False
    then show ?thesis by (auto simp: flag_def gflag_def)
  qed
qed

lemma granted_follows:
  assumes "find_directory_user ds (username u) = Inr (Some found)" "\<not> du_disabled found" "groups_of ds found = Inr groups"
    "resolve mappings groups = Some g" "apply_grant u g d = Inr (u', d')" "tables_ok d" "modules_ok (permissions d)"
  shows "follows ds mappings u' (rows_of (u_id u) (permissions d'))"
proof -
  note r = resolve_Some [OF assms(4)]
  note a = apply_grant_Inr [OF assms(5-7) r(4)]
  have same: "username u' = username u" using arg_cong [OF a(1), of username] by simp
  have admin: "role u' = ADMIN \<longleftrightarrow> gr_role g = ''admin''" unfolding a(2) [symmetric] by simp
  show ?thesis
    unfolding follows_def
  proof (intro exI conjI)
    show "find_directory_user ds (username u') = Inr (Some found)" using assms(1) same by simp
    show "\<not> du_disabled found" "groups_of ds found = Inr groups" using assms(2,3) .
    show "role_value (role u') \<in> map_role ` applying mappings groups"
      "\<forall>mp \<in> applying mappings groups. role_rank_of (map_role mp) \<le> role_rank_of (role_value (role u'))"
      unfolding a(2) using r(1,2) by blast+
    show "role u' \<noteq> ADMIN \<longrightarrow> (\<forall>m k. (\<exists>p \<in> set (rows_of (u_id u) (permissions d')). p_module p = m \<and> flag k p) \<longleftrightarrow>
        m \<in> set all_modules \<and> (\<exists>mp \<in> applying mappings groups. \<exists>p \<in> set (map_permissions mp). g_module p = m \<and> gflag k p))"
    proof (intro impI allI)
      fix m k assume "role u' \<noteq> ADMIN"
      then have "gr_role g \<noteq> ''admin''" using admin by simp
      from a(7) [OF this, of m k] r(3) [OF this, of m k]
      show "(\<exists>p \<in> set (rows_of (u_id u) (permissions d')). p_module p = m \<and> flag k p) \<longleftrightarrow>
          m \<in> set all_modules \<and> (\<exists>mp \<in> applying mappings groups. \<exists>p \<in> set (map_permissions mp). g_module p = m \<and> gflag k p)"
        by meson
    qed
  qed
qed

text \<open>What the check changes before it turns accounts off: roles and permission rows of the
  accounts in \<open>I\<close>.\<close>

definition synced_from :: "db \<Rightarrow> int set \<Rightarrow> db \<Rightarrow> bool" where
  "synced_from d I d' \<longleftrightarrow> tables_ok d' \<and> modules_ok (permissions d') \<and>
     (\<forall>v \<in> set (users d'). \<exists>u \<in> set (users d). v = u\<lparr> role := role v \<rparr> \<and> (u_id v \<notin> I \<longrightarrow> v = u)) \<and>
     (\<forall>i. i \<notin> I \<longrightarrow> rows_of i (permissions d') = rows_of i (permissions d))"

lemma synced_refl: "tables_ok d \<Longrightarrow> modules_ok (permissions d) \<Longrightarrow> synced_from d I d"
  unfolding synced_from_def by (metis user.surjective user.update_convs(7))

lemma synced_trans:
  assumes "synced_from d I d1" "synced_from d1 J d2"
  shows "synced_from d (I \<union> J) d2"
proof -
  have "\<exists>u \<in> set (users d). v = u\<lparr> role := role v \<rparr> \<and> (u_id v \<notin> I \<union> J \<longrightarrow> v = u)" if v: "v \<in> set (users d2)" for v
  proof -
    obtain w where w: "w \<in> set (users d1)" "v = w\<lparr> role := role v \<rparr>" "u_id v \<notin> J \<longrightarrow> v = w"
      using assms(2) v unfolding synced_from_def by blast
    obtain u where u: "u \<in> set (users d)" "w = u\<lparr> role := role w \<rparr>" "u_id w \<notin> I \<longrightarrow> w = u"
      using assms(1) w(1) unfolding synced_from_def by blast
    have "v = u\<lparr> role := role v \<rparr>" by (subst w(2), subst u(2)) simp
    then show ?thesis using u w(3) by (cases "v = w") auto
  qed
  then show ?thesis using assms unfolding synced_from_def by auto
qed

lemma apply_grant_synced:
  assumes "apply_grant u g d = Inr (u', d')" "tables_ok d" "modules_ok (permissions d)" "distinct (map g_module (gr_permissions g))"
    "u \<in> set (users d)"
  shows "synced_from d {u_id u} d'" "u' \<in> set (users d')" "u_id u' = u_id u"
    "v \<in> set (users d) \<Longrightarrow> u_id v \<noteq> u_id u \<Longrightarrow> v \<in> set (users d')"
proof -
  note a = apply_grant_Inr [OF assms(1-4)]
  show id: "u_id u' = u_id u" using arg_cong [OF a(1), of u_id] by simp
  have users: "v \<in> set (users d') \<longleftrightarrow> v \<in> set (users d) \<and> u_id v \<noteq> u_id u \<or> v = u'" for v
    using assms(5) id by (auto simp: a(3) set_put_user)
  show "u' \<in> set (users d')" "v \<in> set (users d) \<Longrightarrow> u_id v \<noteq> u_id u \<Longrightarrow> v \<in> set (users d')" for v
    by (simp_all add: users)
  have tables: "tables_ok d'"
    using assms(2) a(3,4) by (simp add: tables_ok_def put_user_positive)
  have "\<exists>w \<in> set (users d). v = w\<lparr> role := role v \<rparr> \<and> (u_id v \<notin> {u_id u} \<longrightarrow> v = w)" if "v \<in> set (users d')" for v
  proof (cases "v = u'")
    case True
    then show ?thesis using a(1) assms(5) id by auto
  next
    case False
    then show ?thesis using that users by (intro bexI [of _ v]) auto
  qed
  then show "synced_from d {u_id u} d'"
    using tables a(5,6) unfolding synced_from_def by simp
qed

lemma check_loop_Cons:
  assumes "check_loop ds mappings now (u # us) st off = (r, st')"
  obtains e where "r = Inl e" "st' = st"
  | "check_loop ds mappings now us st (off @ [u_id u]) = (r, st')"
  | found groups g u' d where "find_directory_user ds (username u) = Inr (Some found)" "\<not> du_disabled found"
      "groups_of ds found = Inr groups" "resolve mappings groups = Some g" "apply_grant u g (base st) = Inr (u', d)"
      "check_loop ds mappings now us (st\<lparr> base := d, synced_at := (synced_at st)(u_id u \<mapsto> now) \<rparr>) off = (r, st')"
  using assms by (auto split: sum.splits option.splits if_splits prod.splits)

lemma check_loop_synced:
  assumes "check_loop ds mappings now us st off = (r, st')" "tables_ok (base st)" "modules_ok (permissions (base st))"
    "distinct (map u_id us)" "set us \<subseteq> set (users (base st))"
  shows "synced_from (base st) (u_id ` set us) (base st') \<and> (\<forall>off'. r = Inr off' \<longrightarrow> set off \<subseteq> set off' \<and> set off' \<subseteq> set off \<union> u_id ` set us \<and>
    (\<forall>v \<in> set (users (base st')). u_id v \<in> u_id ` set us \<longrightarrow> u_id v \<in> set off' \<or>
       follows ds mappings v (rows_of (u_id v) (permissions (base st')))))"
  using assms
proof (induction us arbitrary: st off)
  case Nil
  then show ?case by (auto simp: synced_refl)
next
  case (Cons u us)
  note prems = Cons.prems(2-5)
  from Cons.prems(1) show ?case
  proof (cases rule: check_loop_Cons)
    case (1 e)
    then show ?thesis using prems by (simp add: synced_refl)
  next
    case 2
    have keep: "synced_from (base st) (u_id ` set us) (base st')"
      and off: "\<And>off'. r = Inr off' \<Longrightarrow> set (off @ [u_id u]) \<subseteq> set off' \<and> set off' \<subseteq> set (off @ [u_id u]) \<union> u_id ` set us \<and>
        (\<forall>v \<in> set (users (base st')). u_id v \<in> u_id ` set us \<longrightarrow> u_id v \<in> set off' \<or>
          follows ds mappings v (rows_of (u_id v) (permissions (base st'))))"
      using Cons.IH [OF 2 prems(1,2)] prems(3,4) by auto
    have "synced_from (base st) ({u_id u} \<union> u_id ` set us) (base st')"
      using synced_trans [OF synced_refl [OF prems(1,2)] keep] .
    then show ?thesis using off by auto
  next
    case (3 found groups g u' d)
    let ?st = "st\<lparr> base := d, synced_at := (synced_at st)(u_id u \<mapsto> now) \<rparr>"
    have u: "u \<in> set (users (base st))" "u_id u \<notin> u_id ` set us" using prems(3,4) by auto
    note step = apply_grant_synced [OF 3(5) prems(1,2) resolve_Some(4) [OF 3(4)] u(1)]
    have ok: "tables_ok (base ?st)" "modules_ok (permissions (base ?st))"
      using step(1) by (simp_all add: synced_from_def)
    have "x \<in> set (users d)" if "x \<in> set us" for x
    proof (rule step(4))
      show "x \<in> set (users (base st))" using that prems(4) by auto
      show "u_id x \<noteq> u_id u" using that u(2) by (metis imageI)
    qed
    then have rest: "distinct (map u_id us)" "set us \<subseteq> set (users (base ?st))"
      using prems(3) by auto
    have keep: "synced_from d (u_id ` set us) (base st')"
      and off: "\<And>off'. r = Inr off' \<Longrightarrow> set off \<subseteq> set off' \<and> set off' \<subseteq> set off \<union> u_id ` set us \<and>
        (\<forall>v \<in> set (users (base st')). u_id v \<in> u_id ` set us \<longrightarrow> u_id v \<in> set off' \<or>
          follows ds mappings v (rows_of (u_id v) (permissions (base st'))))"
      using Cons.IH [OF 3(6) ok rest] by auto
    have this_one: "follows ds mappings v (rows_of (u_id v) (permissions (base st')))"
      if v: "v \<in> set (users (base st'))" "u_id v = u_id u" for v
    proof -
      have "v \<in> set (users d)" "rows_of (u_id v) (permissions (base st')) = rows_of (u_id v) (permissions d)"
        using keep v u(2) unfolding synced_from_def by metis+
      moreover have "v = u'" if "v \<in> set (users d)"
        using tables_ok_inj [of d v u'] ok(1) that step(2,3) v(2) by simp
      ultimately show ?thesis
        using granted_follows [OF 3(1-5) prems(1,2)] v(2) by simp
    qed
    show ?thesis using synced_trans [OF step(1) keep] off this_one by auto
  qed
qed

text \<open>
  C15. After a check that reached the directory, every directory account that is still on is
  in the directory once and enabled, is in a mapped group, has the highest role its groups
  map to and, unless that is administrator, exactly the permissions its groups give;
  local accounts are as they were.
\<close>

theorem check_follows_directory:
  assumes "check_accounts turned_on ds mappings now st = (Checked n k, st')" "tables_ok (base st)" "modules_ok (permissions (base st))"
    "u \<in> set (users (base st'))"
  shows "if auth_source u = ''ldap'' then is_active u \<longrightarrow> follows ds mappings u (rows_of (u_id u) (permissions (base st')))
    else u \<in> set (users (base st)) \<and> rows_of (u_id u) (permissions (base st')) = rows_of (u_id u) (permissions (base st))"
proof -
  let ?us = "checked_accounts (base st)"
  obtain off st1 where loop: "check_loop ds mappings now ?us st [] = (Inr off, st1)" and st': "st' = turn_off off st1"
    using assms(1) by (auto simp: check_accounts_def split: if_splits prod.splits sum.splits)
  have us: "distinct (map u_id ?us)" "set ?us \<subseteq> set (users (base st))"
    using assms(2) distinct_map_filter by (auto simp: checked_accounts_def tables_ok_def)
  note main = check_loop_synced [OF loop assms(2,3) us]
  obtain v where v: "v \<in> set (users (base st1))" "u = (if u_id v \<in> set off then v\<lparr> is_active := False, disabled_by_directory := True \<rparr> else v)"
    using assms(4) by (auto simp: st' turn_off_def)
  obtain w where w: "w \<in> set (users (base st))" "v = w\<lparr> role := role v \<rparr>" "u_id v \<notin> u_id ` set ?us \<longrightarrow> v = w"
    using main v(1) unfolding synced_from_def by blast
  have ids: "u_id u = u_id v" "u_id v = u_id w" "auth_source u = auth_source w" "is_active v = is_active w"
    using v(2) arg_cong [OF w(2), of u_id] arg_cong [OF w(2), of auth_source] arg_cong [OF w(2), of is_active] by auto
  have perms: "permissions (base st') = permissions (base st1)" by (simp add: st' turn_off_def)
  have turned: "set off \<subseteq> u_id ` set ?us" using main by auto
  show ?thesis
  proof (cases "auth_source u = ''ldap''")
    case True
    have "follows ds mappings u (rows_of (u_id u) (permissions (base st')))" if "is_active u"
    proof -
      have "u = v" "u_id v \<notin> set off" using v(2) that by (auto split: if_splits)
      moreover have "w \<in> set ?us" using w(1) ids True that \<open>u = v\<close> by (simp add: checked_accounts_def)
      ultimately show ?thesis using main v(1) ids(2) perms by auto
    qed
    then show ?thesis using True by simp
  next
    case False
    have "u_id w \<notin> u_id ` set ?us"
      using tables_ok_inj [OF assms(2) w(1)] False ids(3) by (auto simp: checked_accounts_def)
    then have new: "u_id v \<notin> u_id ` set ?us" using ids(2) by simp
    then have "v = w" "u = v" using v(2) w(3) turned by auto
    moreover have "rows_of (u_id v) (permissions (base st1)) = rows_of (u_id v) (permissions (base st))"
      using main new unfolding synced_from_def by blast
    ultimately show ?thesis using False w(1) perms by simp
  qed
qed

text \<open>A check that did not get through turns nobody off and nobody on, whatever it read before.\<close>

theorem failed_check_turns_nobody_off:
  assumes "check_accounts turned_on ds mappings now st = (Failed e, st')" "tables_ok (base st)" "modules_ok (permissions (base st))"
    "v \<in> set (users (base st'))"
  shows "\<exists>u \<in> set (users (base st)). u_id u = u_id v \<and> is_active u = is_active v \<and> disabled_by_directory u = disabled_by_directory v"
proof (cases "st' = st")
  case True
  then show ?thesis using assms(4) by blast
next
  case False
  let ?us = "checked_accounts (base st)"
  obtain r where loop: "check_loop ds mappings now ?us st [] = (r, st')"
    using assms(1) False by (auto simp: check_accounts_def split: if_splits prod.splits sum.splits)
  have us: "distinct (map u_id ?us)" "set ?us \<subseteq> set (users (base st))"
    using assms(2) distinct_map_filter by (auto simp: checked_accounts_def tables_ok_def)
  obtain u where u: "u \<in> set (users (base st))" "v = u\<lparr> role := role v \<rparr>"
    using check_loop_synced [OF loop assms(2,3) us] assms(4) unfolding synced_from_def by blast
  show ?thesis
    using u(1) arg_cong [OF u(2), of u_id] arg_cong [OF u(2), of is_active] arg_cong [OF u(2), of disabled_by_directory] by auto
qed

section \<open>Who the directory lets in\<close>

lemma provision_new_Inr:
  assumes "provision_new new_id hash found g now st = Inr (u, st')" "new_id \<notin> u_id ` set (users (base st))"
  shows "auth_source u = ''ldap'' \<and> u_id u = new_id \<and> role_value (role u) = gr_role g \<and> set (users (base st)) \<subseteq> set (users (base st'))"
proof -
  obtain q d where a: "apply_grant (new_account new_id hash found q (base st)) g
        ((base st)\<lparr> users := users (base st) @ [new_account new_id hash found q (base st)] \<rparr>) = Inr (u, d)"
      and out: "base st' = d"
    using assms(1) by (auto simp: provision_new_def Let_def res_bind_Inr_iff split: option.splits if_splits)
  let ?w = "new_account new_id hash found q (base st)"
  have w: "u_id ?w = new_id" "auth_source ?w = ''ldap''" by (simp_all add: new_account_def)
  obtain r where r: "gr_role g = role_value r" "u = ?w\<lparr> role := r \<rparr>" "users d = put_user u (users (base st) @ [?w])"
    using a by (auto simp: apply_grant_def Let_def parse_role_Some split: option.splits)
  have "v \<in> set (users d)" if "v \<in> set (users (base st))" for v
    using that assms(2) r w(1) by (auto simp: set_put_user)
  then show ?thesis using w r out by auto
qed

lemma provision_known_Inr:
  assumes "provision_known v found g now st = Inr (u, st')" "v \<in> set (users (base st))" "auth_source v = ''ldap''"
  shows "auth_source u = ''ldap'' \<and> u_id u = u_id v \<and> role_value (role u) = gr_role g \<and>
    (\<not> is_active v \<and> \<not> disabled_by_directory v \<longrightarrow> \<not> is_active u) \<and>
    (\<forall>w \<in> set (users (base st)). u_id w \<noteq> u_id v \<longrightarrow> w \<in> set (users (base st')))"
proof -
  obtain v1 d where a: "apply_grant v g (base st) = Inr (v1, d)"
      and u: "u_id u = u_id v1" "auth_source u = auth_source v1" "role u = role v1"
        "\<not> is_active v1 \<and> \<not> disabled_by_directory v1 \<Longrightarrow> \<not> is_active u"
      and st': "users (base st') = put_user u (users d)"
    using assms(1) by (auto simp: provision_known_def Let_def res_bind_Inr_iff)
  obtain r where r: "gr_role g = role_value r" "v1 = v\<lparr> role := r \<rparr>" "users d = put_user v1 (users (base st))"
    using a by (auto simp: apply_grant_def Let_def parse_role_Some split: option.splits)
  show ?thesis using u r st' assms(3) by (auto simp: set_put_user)
qed

text \<open>
  C16. Whoever the directory signs in gave a password, not the empty one, with which the
  directory let them bind, is found there once, enabled, and in a group that is mapped to
  the role they get. The account is a directory account; no other kind of account is
  touched, and one that an administrator turned off stays off.
\<close>

theorem directory_sign_in_entitled:
  assumes "directory_sign_in ds mappings new_id hash now uname password st = Inr (Signed_in u, st')"
    "tables_ok (base st)" "new_id \<notin> u_id ` set (users (base st))"
  shows "(\<exists>found groups. find_directory_user ds uname = Inr (Some found) \<and> password \<noteq> [] \<and>
      binds ds (du_dn found) password = Bound \<and> \<not> du_disabled found \<and> groups_of ds found = Inr groups \<and>
      role_value (role u) \<in> map_role ` applying mappings groups) \<and>
    auth_source u = ''ldap'' \<and>
    (\<forall>v \<in> set (users (base st)). auth_source v \<noteq> ''ldap'' \<longrightarrow> v \<in> set (users (base st'))) \<and>
    (\<forall>v \<in> set (users (base st)). u_id v = u_id u \<and> \<not> is_active v \<and> \<not> disabled_by_directory v \<longrightarrow> \<not> is_active u)"
proof -
  obtain found groups g where f: "find_directory_user ds uname = Inr (Some found)"
      "check_directory_password ds found password = Inr True" "\<not> du_disabled found" "groups_of ds found = Inr groups"
      "resolve mappings groups = Some g" "provision new_id hash found g now st = Inr (u, st')"
    using assms(1) by (auto simp: directory_sign_in_def res_bind_Inr_iff split: option.splits if_splits)
  have pw: "password \<noteq> []" "binds ds (du_dn found) password = Bound"
    using f(2) by (auto simp: check_directory_password_def split: if_splits bind_outcome.splits)
  have acc: "auth_source u = ''ldap'' \<and> role_value (role u) = gr_role g \<and>
      (\<forall>v \<in> set (users (base st)). auth_source v \<noteq> ''ldap'' \<longrightarrow> v \<in> set (users (base st'))) \<and>
      (\<forall>v \<in> set (users (base st)). u_id v = u_id u \<and> \<not> is_active v \<and> \<not> disabled_by_directory v \<longrightarrow> \<not> is_active u)"
  proof (cases "directory_account (base st) (py_lower (du_name found))")
    case None
    then show ?thesis
      using provision_new_Inr [OF _ assms(3)] f(6) assms(3) by (fastforce simp: provision_def)
  next
    case (Some v)
    then have v: "v \<in> set (users (base st))" "auth_source v = ''ldap''"
      by (auto simp: directory_account_def find_user_def find_Some_iff)
    have p: "provision_known v found g now st = Inr (u, st')" using f(6) Some by (simp add: provision_def)
    have same: "w = v" if "w \<in> set (users (base st))" "u_id w = u_id v" for w
      using tables_ok_inj [OF assms(2) that(1) v(1) that(2)] .
    show ?thesis using provision_known_Inr [OF p v] same v(2) by metis
  qed
  show ?thesis using f(1,3,4) pw acc resolve_Some(1) [OF f(5)] by auto
qed

text \<open>
  When directory sign-in is turned off, no token of a session of a directory account is
  accepted any more.
\<close>

theorem directory_off_ends_sessions:
  assumes "jwt_ok env" "sessions_ok env d" "jwt_decode env n t = Claims c" "c_jti c = Some j" "j \<noteq> []" "\<not> is_api_key t"
    "sessions d j = Some row" "u \<in> set (users d)" "u_id u = s_user row" "auth_source u = ''ldap''"
  shows "\<exists>e. fst (get_current_user env now t req (end_directory_sessions now d)) = Inl e"
proof (cases "now < session_expiry c")
  case True
  have "s_expires row = session_expiry c" using assms(2,3,4,7) unfolding sessions_ok_def by blast
  then have "revoked (end_directory_sessions now d) j \<noteq> None"
    using True assms(7-10) by (auto simp: end_directory_sessions_def list_ex_iff split: option.splits)
  then have "ended j (session_expiry c) (now, end_directory_sessions now d)" by (simp add: ended_def)
  then show ?thesis by (rule ended_refused [OF assms(1,3-6)])
next
  case False
  have "jwt_decode env now t \<noteq> Claims c'" for c'
    using jwt_ok_same [OF assms(1,3)] jwt_ok_expiry [OF assms(1), of now t c'] False by blast
  then obtain e where "token_user env now t (end_directory_sessions now d) = Inl e"
    by (cases "jwt_decode env now t") (auto simp: token_user_def)
  then show ?thesis using assms(6) by (simp add: get_current_user_def)
qed

section \<open>A small organisation\<close>

text \<open>The directory has ann, in a group that is mapped; bob has left it; root is local.\<close>

definition ann :: user where
  "ann = demo_user\<lparr> u_id := 3, username := ''ann'', email := [], role := GUEST, auth_source := ''ldap'' \<rparr>"

definition bob :: user where
  "bob = demo_user\<lparr> u_id := 4, username := ''bob'', email := [], role := ADMIN, auth_source := ''ldap'' \<rparr>"

definition office :: dir_state where
  "office = \<lparr> base = admin_db\<lparr> users := [demo_admin, ann, bob] \<rparr>, external_dn = (\<lambda>_. None), synced_at = (\<lambda>_. None) \<rparr>"

definition office_ldap :: ldap where
  "office_ldap = \<lparr> l_kind = AD, l_servers = [Unreachable, Bound],
     user_entries = (\<lambda>n. Some (if n = ''ann'' then [\<lparr> l_dn = ''cn=ann'', l_name = Some ''Ann'', l_mail = None, l_uac = Some 512 \<rparr>] else [])),
     member_of = (\<lambda>_. Some [''cn=ops,o=x'']), binds = (\<lambda>_ p. if p = ''pw'' then Bound else Bind_refused) \<rparr>"

definition office_mappings :: "mapping list" where
  "office_mappings = [\<lparr> group_dn = ''CN=ops, o=x'', map_role = ''manager'',
     map_permissions = [\<lparr> g_module = ''auditing'', g_read = True, g_write = False, g_delete = False \<rparr>] \<rparr>]"

lemma office_ok: "tables_ok (base office)" "modules_ok (permissions (base office))"
  by (simp_all add: office_def tables_ok_def modules_ok_def admin_db_def unique_permissions_def demo_admin_def ann_def bob_def
      demo_user_def all_modules_def)

lemma office_checked:
  "fst (check_accounts True office_ldap office_mappings 7 office) = Checked 2 1"
  "users (base (snd (check_accounts True office_ldap office_mappings 7 office))) =
     [demo_admin, ann\<lparr> role := MANAGER \<rparr>, bob\<lparr> is_active := False, disabled_by_directory := True \<rparr>]"
  by code_simp+

theorem check_follows_directory_witness:
  "ann\<lparr> role := MANAGER \<rparr> \<in> set (users (base (snd (check_accounts True office_ldap office_mappings 7 office)))) \<and>
   follows office_ldap office_mappings (ann\<lparr> role := MANAGER \<rparr>)
     (rows_of 3 (permissions (base (snd (check_accounts True office_ldap office_mappings 7 office)))))"
proof -
  let ?c = "check_accounts True office_ldap office_mappings 7 office"
  have c: "?c = (Checked 2 1, snd ?c)" using office_checked(1) by (metis prod.collapse)
  have mem: "ann\<lparr> role := MANAGER \<rparr> \<in> set (users (base (snd ?c)))" using office_checked(2) by simp
  have "auth_source (ann\<lparr> role := MANAGER \<rparr>) = ''ldap''" "is_active (ann\<lparr> role := MANAGER \<rparr>)" "u_id (ann\<lparr> role := MANAGER \<rparr>) = 3"
    by (simp_all add: ann_def demo_user_def)
  then show ?thesis using check_follows_directory [OF c office_ok mem] mem by simp
qed

lemma ann_signs_in:
  "case directory_sign_in office_ldap office_mappings 9 ''h'' 7 ''ann '' ''pw'' office of
     Inr (Signed_in u, _) \<Rightarrow> u_id u = 3 | _ \<Rightarrow> False"
  by code_simp

theorem directory_sign_in_entitled_witness:
  "\<exists>u st'. directory_sign_in office_ldap office_mappings 9 ''h'' 7 ''ann '' ''pw'' office = Inr (Signed_in u, st') \<and>
    auth_source u = ''ldap'' \<and> (\<exists>found. find_directory_user office_ldap ''ann '' = Inr (Some found) \<and> \<not> du_disabled found) \<and>
    demo_admin \<in> set (users (base st'))"
proof -
  obtain u st' where s: "directory_sign_in office_ldap office_mappings 9 ''h'' 7 ''ann '' ''pw'' office = Inr (Signed_in u, st')"
    using ann_signs_in by (auto split: sum.splits prod.splits sign_in_outcome.splits)
  have fresh: "9 \<notin> u_id ` set (users (base office))"
    by (simp add: office_def demo_admin_def ann_def bob_def)
  have "demo_admin \<in> set (users (base office))" "auth_source demo_admin \<noteq> ''ldap''"
    by (simp_all add: office_def demo_admin_def demo_user_def)
  with s directory_sign_in_entitled [OF s office_ok(1) fresh] show ?thesis by blast
qed

text \<open>
  A check that fails half way keeps what it already committed: ann is promoted although the
  search for the next account got no answer.
\<close>

theorem interrupted_check_keeps_changes:
  "let ds = office_ldap\<lparr> user_entries := (\<lambda>n. if n = ''ann'' then user_entries office_ldap n else None) \<rparr>;
       (status, st') = check_accounts True ds office_mappings 7 office
   in status = Failed DirectoryUnavailable \<and> ann\<lparr> role := MANAGER \<rparr> \<in> set (users (base st')) \<and> ann \<in> set (users (base office)) \<and>
      role ann = GUEST"
  by code_simp

end
