(* ===== verification/Alert_Policy.thy ===== *)
theory Alert_Policy
  imports Prelude "HOL-Library.List_Lexorder" "HOL-Library.Char_ord"
begin

text \<open>
  The delivery policy of notifications, \<^verbatim>\<open>modules/alerts/policy.py\<close>: its validation, what it
  holds back by channel and severity, quiet hours on the clock of the server and the daily
  limit. Times of day are compared as the texts they are stored as; the theorem of this
  theory says that this is the comparison of the minutes they stand for.
\<close>

section \<open>The policy and its validation\<close>

record channel_policy =
  ch_enabled :: bool
  ch_min_severity :: string

record sms_policy = channel_policy +
  p_quiet_start :: "string option"
  p_quiet_end :: "string option"
  critical_in_quiet_hours :: bool
  daily_limit :: int

record delivery_policy =
  email_policy :: channel_policy
  sms_policy_of :: sms_policy
  reset_channel :: string

definition DEFAULTS :: delivery_policy where
  "DEFAULTS = \<lparr> email_policy = \<lparr> ch_enabled = True, ch_min_severity = ''info'' \<rparr>,
     sms_policy_of = \<lparr> ch_enabled = True, ch_min_severity = ''info'', p_quiet_start = None, p_quiet_end = None,
       critical_in_quiet_hours = True, daily_limit = 0 \<rparr>, reset_channel = ''email'' \<rparr>"

text \<open>The pattern \<^verbatim>\<open>^([01]\d|2[0-3]):[0-5]\d$\<close>; a line feed may follow, and is gone by then.\<close>

definition hhmm_ok :: "string \<Rightarrow> bool" where
  "hhmm_ok s = (case s of
     [a, b, c, d, e] \<Rightarrow> (a \<in> set ''01'' \<and> ascii_digit b \<or> a = CHR ''2'' \<and> b \<in> set ''0123'') \<and> c = CHR '':'' \<and>
       d \<in> set ''012345'' \<and> ascii_digit e
   | _ \<Rightarrow> False)"

definition check_hhmm :: "string option \<Rightarrow> (string, string option) result" where
  "check_hhmm v = (let t = py_strip (case v of None \<Rightarrow> [] | Some s \<Rightarrow> s) in
     if t = [] then Inr None
     else if \<not> hhmm_ok t then Inl ''quiet hours must be HH:MM (00:00-23:59)'' else Inr (Some t))"

definition severities :: "string list" where "severities = [''info'', ''warning'', ''critical'']"

definition validate_sms :: "sms_policy \<Rightarrow> (string, sms_policy) result" where
  "validate_sms p =
     (if ch_min_severity p \<notin> set severities then Inl ''min_severity''
      else if \<not> (0 \<le> daily_limit p \<and> daily_limit p \<le> 100000) then Inl ''daily_limit''
      else res_bind (check_hhmm (p_quiet_start p)) (\<lambda>s. res_bind (check_hhmm (p_quiet_end p)) (\<lambda>e.
        if (s = None) \<noteq> (e = None) then Inl ''set both the start and the end of the quiet hours, or neither''
        else if s \<noteq> None \<and> s = e then Inl ''the quiet hours must not start and end at the same time''
        else Inr (p\<lparr> p_quiet_start := s, p_quiet_end := e \<rparr>))))"

definition validate_policy :: "delivery_policy \<Rightarrow> (string, delivery_policy) result" where
  "validate_policy p =
     (if ch_min_severity (email_policy p) \<notin> set severities then Inl ''min_severity''
      else if reset_channel p \<notin> {''email'', ''sms'', ''both''} then Inl ''channel''
      else res_bind (validate_sms (sms_policy_of p)) (\<lambda>s. Inr (p\<lparr> sms_policy_of := s \<rparr>)))"

text \<open>A stored policy that does not validate counts as the defaults.\<close>

definition load_policy :: "delivery_policy \<Rightarrow> delivery_policy" where
  "load_policy stored = (case validate_policy stored of Inl _ \<Rightarrow> DEFAULTS | Inr p \<Rightarrow> p)"

section \<open>What is held back\<close>

definition severity_order :: "string \<Rightarrow> nat" where
  "severity_order s = (if s = ''warning'' then 1 else if s = ''critical'' then 2 else 0)"

text \<open>\<^verbatim>\<open>str.capitalize()\<close> of a severity.\<close>

definition capitalized :: "string \<Rightarrow> string" where
  "capitalized s = (case s of [] \<Rightarrow> [] | c # cs \<Rightarrow>
     (if 97 \<le> ord_c c \<and> ord_c c \<le> 122 then char_of (ord_c c - 32) else c) # py_lower cs)"

definition block_of :: "string \<Rightarrow> 'a channel_policy_scheme \<Rightarrow> string \<Rightarrow> string option" where
  "block_of name part severity =
     (if \<not> ch_enabled part then Some (name @ '' is turned off in the delivery policy'')
      else if severity_order severity < severity_order (ch_min_severity part)
      then Some (name @ '' is for '' @ capitalized (ch_min_severity part) @ '' and above in the delivery policy'')
      else None)"

definition channel_block :: "delivery_policy \<Rightarrow> string \<Rightarrow> string \<Rightarrow> string option" where
  "channel_block p channel severity =
     (if channel = ''email'' then block_of ''Email'' (email_policy p) severity
      else if channel = ''sms'' then block_of ''SMS'' (sms_policy_of p) severity
      else None)"

definition quiet_hours :: "delivery_policy \<Rightarrow> string option \<Rightarrow> string option \<Rightarrow> string option \<times> string option" where
  "quiet_hours p rule_start rule_end =
     (if rule_start \<notin> {None, Some []} \<and> rule_end \<notin> {None, Some []} then (rule_start, rule_end)
      else (p_quiet_start (sms_policy_of p), p_quiet_end (sms_policy_of p)))"

text \<open>
  The clock of the server: local time of an instant and the instant of a local midnight,
  by the configured time zone (a parameter). \<^verbatim>\<open>strftime("%H:%M")\<close> writes two digits each.
\<close>

record timezone =
  to_local :: "datetime \<Rightarrow> datetime"
  to_utc :: "datetime \<Rightarrow> datetime"

definition minute_of_day :: "datetime \<Rightarrow> int" where
  "minute_of_day t = t mod days 1 div minutes 1"

definition two_digits :: "int \<Rightarrow> string" where
  "two_digits n = [digit_char (nat (n div 10)), digit_char (nat (n mod 10))]"

definition hhmm :: "int \<Rightarrow> string" where
  "hhmm m = two_digits (m div 60) @ '':'' @ two_digits (m mod 60)"

definition in_window :: "string option \<Rightarrow> string option \<Rightarrow> datetime \<Rightarrow> timezone \<Rightarrow> bool" where
  "in_window start_opt end_opt now tz = (case (start_opt, end_opt) of
     (Some s, Some e) \<Rightarrow>
       if s = [] \<or> e = [] then False
       else let hm = hhmm (minute_of_day (to_local tz now)) in
         if s \<le> e then s \<le> hm \<and> hm < e else s \<le> hm \<or> hm < e
   | _ \<Rightarrow> False)"

definition day_start_utc :: "datetime \<Rightarrow> timezone \<Rightarrow> datetime" where
  "day_start_utc now tz = to_utc tz (to_local tz now div days 1 * days 1)"

section \<open>Texts of times compare as times\<close>

lemma digit_char_less: "a < 10 \<Longrightarrow> b < 10 \<Longrightarrow> digit_char a < digit_char b \<longleftrightarrow> a < b"
  by (simp add: less_char_def)

lemma digit_char_eq: "a < 10 \<Longrightarrow> b < 10 \<Longrightarrow> digit_char a = digit_char b \<longleftrightarrow> a = b"
  by (metis ord_digit_char add_left_cancel)

lemma decimal_less:
  fixes p q r s :: nat
  shows "q < 10 \<Longrightarrow> s < 10 \<Longrightarrow> p < r \<or> p = r \<and> (q < s \<or> q = s \<and> C) \<longleftrightarrow>
     10 * p + q < 10 * r + s \<or> 10 * p + q = 10 * r + s \<and> C"
  by (cases p r rule: linorder_cases) auto

lemma digits_less:
  assumes "p < 10" "q < 10" "r < 10" "s < 10"
  shows "[digit_char p, digit_char q] @ xs < [digit_char r, digit_char s] @ ys \<longleftrightarrow>
    p < r \<or> p = r \<and> (q < s \<or> q = s \<and> xs < ys)"
  using assms by (simp add: digit_char_less digit_char_eq)

lemma two_digits_less:
  assumes "0 \<le> a" "a < 100" "0 \<le> b" "b < 100"
  shows "two_digits a @ xs < two_digits b @ ys \<longleftrightarrow> a < b \<or> a = b \<and> xs < ys"
proof -
  define p q r s where "p = nat (a div 10)" and "q = nat (a mod 10)" and "r = nat (b div 10)" and "s = nat (b mod 10)"
  note digit_defs = this
  have bounds: "p < 10" "q < 10" "r < 10" "s < 10" using assms by (auto simp: digit_defs)
  have vals: "a = int (10 * p + q)" "b = int (10 * r + s)"
    using assms pos_imp_zdiv_nonneg_iff [of 10 a] pos_imp_zdiv_nonneg_iff [of 10 b] by (simp_all add: digit_defs)
  have "two_digits a @ xs < two_digits b @ ys \<longleftrightarrow> p < r \<or> p = r \<and> (q < s \<or> q = s \<and> xs < ys)"
    unfolding two_digits_def digit_defs [symmetric] using bounds by (rule digits_less)
  also have "\<dots> \<longleftrightarrow> 10 * p + q < 10 * r + s \<or> 10 * p + q = 10 * r + s \<and> xs < ys"
    using bounds(2,4) by (rule decimal_less)
  also have "\<dots> \<longleftrightarrow> a < b \<or> a = b \<and> xs < ys" unfolding vals of_nat_less_iff of_nat_eq_iff ..
  finally show ?thesis .
qed

lemma minutes_less:
  fixes q r s t :: int
  shows "0 \<le> r \<Longrightarrow> r < 60 \<Longrightarrow> 0 \<le> s \<Longrightarrow> s < 60 \<Longrightarrow> q < t \<or> q = t \<and> r < s \<longleftrightarrow> 60 * q + r < 60 * t + s"
  by (cases q t rule: linorder_cases) auto

lemma hhmm_less:
  assumes "0 \<le> a" "a < 1440" "0 \<le> b" "b < 1440"
  shows "hhmm a < hhmm b \<longleftrightarrow> a < b"
proof -
  let ?m = "\<lambda>x. '':'' @ two_digits (x mod 60)"
  have hours: "0 \<le> a div 60" "a div 60 < 100" "0 \<le> b div 60" "b div 60 < 100" using assms by simp_all
  have mins: "0 \<le> a mod 60" "a mod 60 < 100" "0 \<le> b mod 60" "b mod 60 < 100"
    using pos_mod_bound [of 60 a] pos_mod_bound [of 60 b] by simp_all
  have colon: "?m a < ?m b \<longleftrightarrow> a mod 60 < b mod 60"
    using two_digits_less [OF mins, of "[]" "[]"] by simp
  have "hhmm a < hhmm b \<longleftrightarrow> a div 60 < b div 60 \<or> a div 60 = b div 60 \<and> a mod 60 < b mod 60"
    unfolding hhmm_def two_digits_less [OF hours] colon ..
  also have "\<dots> \<longleftrightarrow> 60 * (a div 60) + a mod 60 < 60 * (b div 60) + b mod 60"
    by (rule minutes_less) (simp_all add: pos_mod_bound)
  finally show ?thesis by simp
qed

lemma minute_of_day_bounds: "0 \<le> minute_of_day t" "minute_of_day t < 1440"
proof -
  have "t mod days 1 < 1440 * minutes 1" "0 \<le> t mod days 1" by (simp_all add: timedelta_defs)
  then show "0 \<le> minute_of_day t" "minute_of_day t < 1440"
    unfolding minute_of_day_def by (simp_all add: timedelta_defs div_less_iff_less_mult pos_imp_zdiv_nonneg_iff)
qed

text \<open>Every text the validation accepts stands for a minute of the day.\<close>

lemma ascii_digit_char: "ascii_digit c \<Longrightarrow> \<exists>x < 10. c = digit_char x"
proof -
  assume "ascii_digit c"
  then have "48 \<le> ord_c c" "ord_c c < 58" by (simp_all add: ascii_digit_def)
  then have "ord_c c - 48 < 10" "c = digit_char (ord_c c - 48)" by (simp_all add: digit_char_def)
  then show ?thesis by blast
qed

lemma two_digits_chars: "x < 10 \<Longrightarrow> y < 10 \<Longrightarrow> two_digits (int (10 * x + y)) = [digit_char x, digit_char y]"
  by (simp add: two_digits_def nat_add_distrib zdiv_int [symmetric] flip: zmod_int)

lemma hhmm_ok_minute:
  assumes "hhmm_ok s"
  shows "\<exists>m. 0 \<le> m \<and> m < 1440 \<and> s = hhmm m"
proof -
  obtain a b c d e where s: "s = [a, b, c, d, e]" and hour: "a \<in> set ''01'' \<and> ascii_digit b \<or> a = CHR ''2'' \<and> b \<in> set ''0123''"
      and rest: "c = CHR '':''" "d \<in> set ''012345''" "ascii_digit e"
    using assms by (auto simp: hhmm_ok_def split: list.splits)
  have "ascii_digit a" "ascii_digit b" "ascii_digit d" using hour rest(2) by (auto simp: ascii_digit_def)
  then obtain x y u where x: "x < 10" "a = digit_char x" and y: "y < 10" "b = digit_char y" and u: "u < 10" "d = digit_char u"
    using ascii_digit_char by metis
  have ords: "ord_c a = 48 + x" "ord_c b = 48 + y" "ord_c d = 48 + u" using x y u by simp_all
  have "ord_c a \<in> {48, 49} \<or> ord_c a = 50 \<and> ord_c b < 52" "ord_c d < 54" using hour rest(2) by auto
  then have small: "10 * x + y < 24" "u < 6" using ords y(1) by auto
  obtain v where v: "v < 10" "e = digit_char v" using rest(3) ascii_digit_char by blast
  let ?m = "int (60 * (10 * x + y) + (10 * u + v))"
  have m: "?m = 60 * int (10 * x + y) + int (10 * u + v)" "int (10 * u + v) < 60" using small(2) v(1) by simp_all
  have "?m div 60 = int (10 * x + y)" "?m mod 60 = int (10 * u + v)"
    using int_div_pos_eq [OF m(1) _ m(2)] int_mod_pos_eq [OF m(1) _ m(2)] by simp_all
  then have "hhmm ?m = s"
    using x(1) y(1) u(1) v(1) by (simp only: hhmm_def two_digits_chars) (simp add: s x y u v rest(1))
  then show ?thesis using small v(1) by (intro exI [of _ ?m]) auto
qed

text \<open>
  Quiet hours that pass the validation, from one minute of the day to another, hold back
  exactly the messages sent from the first, included, to the second, excluded, on the clock
  of the server, also when they span midnight.
\<close>

theorem quiet_hours_are_the_interval:
  assumes "check_hhmm x = Inr (Some s)" "check_hhmm y = Inr (Some e)"
  shows "\<exists>a b. s = hhmm a \<and> e = hhmm b \<and> {a, b} \<subseteq> {0..<1440} \<and>
    in_window (Some s) (Some e) now tz =
      (let m = minute_of_day (to_local tz now) in if a \<le> b then m \<in> {a..<b} else m \<notin> {b..<a})"
proof -
  have "hhmm_ok s" "hhmm_ok e" using assms by (auto simp: check_hhmm_def Let_def split: if_splits)
  then obtain a b where ab: "0 \<le> a" "a < 1440" "s = hhmm a" "0 \<le> b" "b < 1440" "e = hhmm b"
    using hhmm_ok_minute by meson
  let ?m = "minute_of_day (to_local tz now)"
  have nonempty: "hhmm x \<noteq> []" for x by (simp add: hhmm_def two_digits_def)
  have less: "hhmm x < hhmm y \<longleftrightarrow> x < y" "hhmm x \<le> hhmm y \<longleftrightarrow> x \<le> y" if "x \<in> {a, b, ?m}" "y \<in> {a, b, ?m}" for x y
    using hhmm_less [of x y] hhmm_less [of y x] that ab minute_of_day_bounds [of "to_local tz now"] by (auto simp flip: not_less)
  have "in_window (Some s) (Some e) now tz = (let m = ?m in if a \<le> b then m \<in> {a..<b} else m \<notin> {b..<a})"
    by (auto simp: in_window_def nonempty less ab(3,6) Let_def)
  then show ?thesis using ab by (intro exI [of _ a] exI [of _ b]) auto
qed

theorem quiet_hours_are_the_interval_witness:
  "check_hhmm (Some '' 22:00'') = Inr (Some ''22:00'') \<and> check_hhmm (Some ''07:00'') = Inr (Some ''07:00'') \<and>
   (\<exists>a b. ''22:00'' = hhmm a \<and> ''07:00'' = hhmm b \<and> {a, b} \<subseteq> {0..<1440} \<and>
     in_window (Some ''22:00'') (Some ''07:00'') (hours 23) \<lparr> to_local = id, to_utc = id \<rparr> =
      (let m = minute_of_day (to_local \<lparr> to_local = id, to_utc = id \<rparr> (hours 23)) in if a \<le> b then m \<in> {a..<b} else m \<notin> {b..<a}))"
proof -
  have ok: "check_hhmm (Some '' 22:00'') = Inr (Some ''22:00'')" "check_hhmm (Some ''07:00'') = Inr (Some ''07:00'')" by code_simp+
  then show ?thesis using quiet_hours_are_the_interval [OF ok] by blast
qed

end
