(* ===== verification/Alerts.thy ===== *)
theory Alerts
  imports Alert_Policy Two_Step "HOL-Library.AList" "HOL-Library.Product_Lexorder"
begin

text \<open>
  The alert engine, \<^verbatim>\<open>modules/alerts/engine.py\<close> over \<^verbatim>\<open>models/notification.py\<close>: rules turn the
  problems an evaluator reports into alerts and resolve the ones whose problem is gone,
  new alerts, reminders and resolved notices become deliveries within the delivery policy,
  and deliveries are sent with retries. What the evaluators see and whether a message gets
  out are parameters; the texts of the messages are left out.
\<close>

section \<open>Tables\<close>

record problem =
  pr_key :: string
  pr_title :: string
  pr_asset :: "int option"
  pr_owner :: "int option"

record event_type =
  ev_code :: string
  ev_module :: string
  ev_state :: bool
  ev_every :: timedelta
  ev_params :: "(string \<times> json) list"

record recipients =
  to_roles :: "string list"
  to_users :: "int list"
  to_emails :: "string list"
  to_phones :: "string list"
  to_owner :: bool

record rule_row =
  rl_id :: int
  rl_event :: string
  rl_enabled :: bool
  rl_severity :: string
  rl_params :: "(string \<times> json) list"
  rl_scope :: string
  rl_assets :: "int list"
  rl_types :: "int list"
  rl_zones :: "int list"
  rl_recipients :: recipients
  rl_channels :: "string list"
  rl_repeat :: int
  rl_notify_resolved :: bool
  rl_quiet_start :: "string option"
  rl_quiet_end :: "string option"
  rl_group :: int
  rl_last_fired :: "datetime option"
  rl_last_sent :: "datetime option"
  rl_created :: datetime

datatype alert_status = Active | Acknowledged | Resolved

record alert =
  al_id :: int
  al_rule :: "int option"
  al_event :: string
  al_severity :: string
  al_fingerprint :: string
  al_title :: string
  al_asset :: "int option"
  al_owner :: "int option"
  al_status :: alert_status
  al_first_seen :: datetime
  al_last_seen :: datetime
  al_acknowledged_at :: "datetime option"
  al_acknowledged_by :: "int option"
  al_resolved_at :: "datetime option"
  al_resolved_by :: "int option"
  al_notified_at :: "datetime option"
  al_last_notified :: "datetime option"
  al_reminders :: int
  al_notice_pending :: bool

datatype message_kind = Raised | Reminder | Resolved_notice | Test

datatype delivery_status = Pending | Sent | Failed_for_good | Skipped

record delivery =
  dl_id :: int
  dl_alerts :: "int list"
  dl_rule :: "int option"
  dl_channel :: string
  dl_webhook :: "int option"
  dl_recipient :: "string option"
  dl_kind :: message_kind
  dl_severity :: string
  dl_status :: delivery_status
  dl_attempts :: nat
  dl_next :: datetime
  dl_error :: "string option"
  dl_created :: datetime
  dl_sent_at :: "datetime option"

record alert_db =
  al_rules :: "rule_row list"
  al_rows :: "alert list"
  al_deliveries :: "delivery list"
  al_held :: "(string \<times> datetime) list"
  al_checked :: "(string \<times> datetime) list"
  al_next_alert :: int
  al_next_delivery :: int

text \<open>A value that is there and satisfies a condition.\<close>

definition given :: "('a \<Rightarrow> bool) \<Rightarrow> 'a option \<Rightarrow> bool" where
  "given P x = (case x of None \<Rightarrow> False | Some t \<Rightarrow> P t)"

definition is_open :: "alert \<Rightarrow> bool" where
  "is_open a \<longleftrightarrow> al_status a \<noteq> Resolved"

section \<open>Rules\<close>

definition rule_params :: "event_type option \<Rightarrow> rule_row \<Rightarrow> (string \<times> json) list" where
  "rule_params event r = fold (\<lambda>(k, v). AList.update k v) (rl_params r) (case event of None \<Rightarrow> [] | Some e \<Rightarrow> ev_params e)"

definition in_scope :: "rule_row \<Rightarrow> int option \<Rightarrow> (int \<times> int option \<times> int option) list \<Rightarrow> bool" where
  "in_scope r asset assets = (case asset of
     None \<Rightarrow> True
   | Some i \<Rightarrow>
     if rl_scope r = ''all'' then True
     else if rl_scope r = ''specific'' then i \<in> set (rl_assets r)
     else let (ty, zone) = (case map_of assets i of None \<Rightarrow> (None, None) | Some tz \<Rightarrow> tz) in
       (rl_types r = [] \<or> (\<exists>t \<in> set (rl_types r). ty = Some t)) \<and> (rl_zones r = [] \<or> (\<exists>z \<in> set (rl_zones r). zone = Some z)))"

section \<open>Evaluating a rule\<close>

definition fingerprint_of :: "rule_row \<Rightarrow> problem \<Rightarrow> string" where
  "fingerprint_of r p = str_of_int (rl_id r) @ '':'' @ pr_key p"

text \<open>\<^verbatim>\<open>{prefix + p.key: p for p in problems}\<close>: the place of the first, the problem of the last.\<close>

definition seen_problems :: "rule_row \<Rightarrow> problem list \<Rightarrow> (string \<times> problem) list" where
  "seen_problems r ps = fold (\<lambda>p. AList.update (fingerprint_of r p) p) ps []"

definition refresh_alert :: "rule_row \<Rightarrow> datetime \<Rightarrow> problem \<Rightarrow> alert \<Rightarrow> alert" where
  "refresh_alert r now p a = a\<lparr> al_last_seen := now, al_title := pr_title p, al_severity := rl_severity r \<rparr>"

definition new_alert :: "event_type \<Rightarrow> rule_row \<Rightarrow> datetime \<Rightarrow> int \<Rightarrow> string \<Rightarrow> problem \<Rightarrow> alert" where
  "new_alert e r now i fp p = \<lparr> al_id = i, al_rule = Some (rl_id r), al_event = ev_code e, al_severity = rl_severity r,
     al_fingerprint = fp, al_title = pr_title p, al_asset = pr_asset p, al_owner = pr_owner p, al_status = Active,
     al_first_seen = now, al_last_seen = now, al_acknowledged_at = None, al_acknowledged_by = None, al_resolved_at = None,
     al_resolved_by = None, al_notified_at = None, al_last_notified = None, al_reminders = 0, al_notice_pending = False \<rparr>"

text \<open>
  Raising one problem: a held one waits (\<open>hold\<close> is the time of its rule, \<^verbatim>\<open>None\<close> for the events
  that do not wait); the insert fails when the unique index on the fingerprints of open alerts
  has it already.
\<close>

definition hold_back :: "timedelta option \<Rightarrow> datetime \<Rightarrow> string \<Rightarrow> (string \<times> datetime) list \<Rightarrow> bool \<times> (string \<times> datetime) list" where
  "hold_back hold now fp held = (case hold of
     None \<Rightarrow> (False, held)
   | Some h \<Rightarrow> (case map_of held fp of
       None \<Rightarrow> (0 < h, AList.update fp now held)
     | Some first \<Rightarrow> (now - first < h, held)))"

definition insert_alert :: "event_type \<Rightarrow> rule_row \<Rightarrow> datetime \<Rightarrow> string \<Rightarrow> problem \<Rightarrow> alert_db \<Rightarrow> alert_db" where
  "insert_alert e r now fp p d = d\<lparr> al_rows := al_rows d @ [new_alert e r now (al_next_alert d) fp p],
     al_next_alert := al_next_alert d + 1,
     al_rules := map (\<lambda>q. if rl_id q = rl_id r then q\<lparr> rl_last_fired := Some now \<rparr> else q) (al_rules d) \<rparr>"

definition raise_problem :: "event_type \<Rightarrow> rule_row \<Rightarrow> timedelta option \<Rightarrow> datetime \<Rightarrow> string \<times> problem \<Rightarrow> alert_db \<Rightarrow> alert_db" where
  "raise_problem e r hold now fpp d =
     (let (wait, held) = hold_back hold now (fst fpp) (al_held d);
          d = d\<lparr> al_held := held \<rparr>
      in if wait \<or> list_ex (\<lambda>a. is_open a \<and> al_fingerprint a = fst fpp) (al_rows d) then d
         else insert_alert e r now (fst fpp) (snd fpp) d)"

definition resolve_by_itself :: "rule_row \<Rightarrow> datetime \<Rightarrow> alert \<Rightarrow> alert" where
  "resolve_by_itself r now a = a\<lparr> al_status := Resolved, al_resolved_at := Some now, al_resolved_by := None,
     al_notice_pending := al_notice_pending a \<or> rl_notify_resolved r \<and> al_notified_at a \<noteq> None \<and> rl_channels r \<noteq> [] \<rparr>"

definition mine :: "rule_row \<Rightarrow> alert \<Rightarrow> bool" where
  "mine r a \<longleftrightarrow> al_rule a = Some (rl_id r) \<and> is_open a"

definition refresh_or_resolve :: "event_type \<Rightarrow> rule_row \<Rightarrow> datetime \<Rightarrow> (string \<times> problem) list \<Rightarrow> alert \<Rightarrow> alert" where
  "refresh_or_resolve e r now seen a = (if mine r a
     then (case map_of seen (al_fingerprint a) of
         Some p \<Rightarrow> refresh_alert r now p a
       | None \<Rightarrow> if ev_state e then resolve_by_itself r now a else a)
     else a)"

text \<open>\<^verbatim>\<open>_apply\<close>. The alerts that were open are refreshed or resolved, the problems not known are raised.\<close>

definition apply_rule :: "event_type \<Rightarrow> rule_row \<Rightarrow> timedelta option \<Rightarrow> problem list \<Rightarrow> datetime \<Rightarrow> alert_db \<Rightarrow> alert_db" where
  "apply_rule e r hold problems now d =
     (let seen = seen_problems r problems;
          opened = map al_fingerprint (filter (mine r) (al_rows d));
          known = (\<lambda>fp. fp \<in> set opened \<or> \<not> ev_state e \<and> fp \<in> al_fingerprint ` set (al_rows d));
          d = d\<lparr> al_rows := map (refresh_or_resolve e r now seen) (al_rows d) \<rparr>;
          d = fold (raise_problem e r hold now) (filter (\<lambda>fpp. \<not> known (fst fpp)) seen) d
      in d\<lparr> al_held := filter (\<lambda>(fp, t). \<not> (prefix (str_of_int (rl_id r) @ '':'') fp \<and> fp \<notin> fst ` set seen)) (al_held d) \<rparr>)"

text \<open>
  \<^verbatim>\<open>evaluate\<close>: the enabled rules of each event type that is due. \<open>check\<close> is the evaluator of an
  event type, \<open>None\<close> when it raises; its answer is kept for the other rules with the same
  parameters (and, for events, the same start). \<open>minutes_of\<close> is \<^verbatim>\<open>timedelta(minutes=float(v))\<close>.
\<close>

record alert_env =
  event_types :: "event_type list"
  check :: "event_type \<Rightarrow> (string \<times> json) list \<Rightarrow> datetime \<Rightarrow> datetime \<Rightarrow> problem list option"
  minutes_of :: "json \<Rightarrow> timedelta"
  asset_info :: "(int \<times> int option \<times> int option) list"

definition hold_time :: "alert_env \<Rightarrow> event_type \<Rightarrow> (string \<times> json) list \<Rightarrow> timedelta option" where
  "hold_time env e ps = (if ev_code e = ''system.task_stopped''
     then Some (case map_of ps ''minutes'' of None \<Rightarrow> 0 | Some v \<Rightarrow> minutes_of env v) else None)"

definition since_of :: "rule_row \<Rightarrow> datetime \<Rightarrow> datetime" where
  "since_of r now = max (rl_created r) (now - hours 24)"

type_synonym check_cache = "(((string \<times> json) list \<times> datetime option) \<times> problem list) list"

definition cached :: "check_cache \<Rightarrow> (string \<times> json) list \<Rightarrow> datetime option \<Rightarrow> problem list option" where
  "cached c ps since = map_option snd (find (\<lambda>((qs, t), _). set qs = set ps \<and> t = since) c)"

fun evaluate_rules :: "alert_env \<Rightarrow> event_type \<Rightarrow> datetime \<Rightarrow> rule_row list \<Rightarrow> check_cache \<Rightarrow> alert_db \<Rightarrow> alert_db" where
  "evaluate_rules env e now [] c d = d"
| "evaluate_rules env e now (r # rs) c d =
     (let ps = rule_params (Some e) r; since = since_of r now; key = (if ev_state e then None else Some since) in
      case (case cached c ps key of Some found \<Rightarrow> Some found | None \<Rightarrow> check env e ps now since) of
        None \<Rightarrow> evaluate_rules env e now rs c d
      | Some found \<Rightarrow> evaluate_rules env e now rs (((ps, key), found) # c)
          (apply_rule e r (hold_time env e ps) (filter (\<lambda>p. in_scope r (pr_asset p) (asset_info env)) found) now d))"

text \<open>The distinct values of a list in the order of first appearance, as a Python dictionary keeps them.\<close>

definition first_seen :: "'a list \<Rightarrow> 'a list" where
  "first_seen xs = rev (remdups (rev xs))"

definition evaluate_event :: "alert_env \<Rightarrow> bool \<Rightarrow> datetime \<Rightarrow> datetime \<Rightarrow> rule_row list \<Rightarrow> string \<Rightarrow> alert_db \<Rightarrow> alert_db" where
  "evaluate_event env force now clock rules code d = (case find (\<lambda>e. ev_code e = code) (event_types env) of
     None \<Rightarrow> d
   | Some e \<Rightarrow>
     if \<not> force \<and> given (\<lambda>t. clock - t < ev_every e) (map_of (al_checked d) code) then d
     else evaluate_rules env e now (filter (\<lambda>r. rl_event r = code) rules) []
       (d\<lparr> al_checked := AList.update code clock (al_checked d) \<rparr>))"

definition evaluate_all :: "alert_env \<Rightarrow> bool \<Rightarrow> datetime \<Rightarrow> datetime \<Rightarrow> alert_db \<Rightarrow> alert_db" where
  "evaluate_all env force now clock d =
     (let rules = filter rl_enabled (al_rules d) in
      fold (evaluate_event env force now clock rules) (first_seen (map rl_event rules)) d)"

section \<open>Messages\<close>

definition severity_rank :: "string \<Rightarrow> nat" where
  "severity_rank s = (if s = ''critical'' then 0 else if s = ''warning'' then 1 else if s = ''info'' then 2 else 3)"

fun worst_of :: "string \<Rightarrow> string list \<Rightarrow> string" where
  "worst_of w [] = w"
| "worst_of w (s # ss) = worst_of (if severity_rank s < severity_rank w then s else w) ss"

definition distinct_sorted :: "string list \<Rightarrow> string list" where
  "distinct_sorted xs = sort (remdups xs)"

definition rule_users :: "user list \<Rightarrow> rule_row \<Rightarrow> alert list \<Rightarrow> user list" where
  "rule_users us r alerts =
     (let t = rl_recipients r;
          ids = to_users t @ (if to_owner t then concat (map (\<lambda>a. case al_owner a of None \<Rightarrow> [] | Some i \<Rightarrow> if i = 0 then [] else [i]) alerts) else [])
      in filter (\<lambda>u. is_active u \<and> auth_source u \<noteq> ''apikey'' \<and> (role_value (role u) \<in> set (to_roles t) \<or> u_id u \<in> set ids)) us)"

definition recipients_of :: "user list \<Rightarrow> rule_row \<Rightarrow> alert list \<Rightarrow> string list \<times> string list" where
  "recipients_of us r alerts =
     (let t = rl_recipients r; found = rule_users us r alerts in
      (distinct_sorted (map (\<lambda>u. py_lower (py_strip (email u))) (filter (\<lambda>u. email u \<noteq> []) found) @
         map (\<lambda>e. py_lower (py_strip e)) (filter (\<lambda>e. py_strip e \<noteq> []) (to_emails t))),
       distinct_sorted (concat (map (\<lambda>u. case phone u of None \<Rightarrow> [] | Some p \<Rightarrow> if p = [] then [] else [p]) found) @
         map py_strip (filter (\<lambda>p. py_strip p \<noteq> []) (to_phones t)))))"

text \<open>One delivery row of a message about alerts of a rule.\<close>

definition add_delivery :: "rule_row \<Rightarrow> message_kind \<Rightarrow> int list \<Rightarrow> string \<Rightarrow> datetime \<Rightarrow> string \<Rightarrow> int option \<Rightarrow> string option \<Rightarrow>
    string option \<Rightarrow> alert_db \<Rightarrow> alert_db" where
  "add_delivery r kind ids worst now channel hook recipient reason d =
     d\<lparr> al_deliveries := al_deliveries d @ [\<lparr> dl_id = al_next_delivery d, dl_alerts = ids, dl_rule = Some (rl_id r), dl_channel = channel,
          dl_webhook = hook, dl_recipient = recipient, dl_kind = kind, dl_severity = worst,
          dl_status = (if reason = None then Pending else Skipped), dl_attempts = 0, dl_next = now, dl_error = reason,
          dl_created = now, dl_sent_at = None \<rparr>],
        al_next_delivery := al_next_delivery d + 1 \<rparr>"

definition counts_today :: "datetime \<Rightarrow> timezone \<Rightarrow> delivery \<Rightarrow> bool" where
  "counts_today now tz x \<longleftrightarrow> dl_channel x = ''sms'' \<and> day_start_utc now tz \<le> dl_created x \<and> dl_status x \<noteq> Skipped \<and> dl_kind x \<noteq> Test"

definition sms_sent_today :: "datetime \<Rightarrow> timezone \<Rightarrow> alert_db \<Rightarrow> int" where
  "sms_sent_today now tz d = int (length (filter (counts_today now tz) (al_deliveries d)))"

definition quiet_text :: "string option \<Rightarrow> string option \<Rightarrow> string" where
  "quiet_text s e = (let t = (\<lambda>x. case x of None \<Rightarrow> ''None'' | Some h \<Rightarrow> h) in ''Quiet hours '' @ t s @ ''-'' @ t e)"

definition limit_text :: "int \<Rightarrow> string" where
  "limit_text limit = ''Daily SMS limit reached ('' @ str_of_int limit @ '')''"

definition sms_held :: "delivery_policy \<Rightarrow> rule_row \<Rightarrow> message_kind \<Rightarrow> string \<Rightarrow> datetime \<Rightarrow> timezone \<Rightarrow> string option" where
  "sms_held pol r kind worst now tz =
     (if kind = Test then None
      else case channel_block pol ''sms'' worst of
          Some why \<Rightarrow> Some why
        | None \<Rightarrow>
          let (s, e) = quiet_hours pol (rl_quiet_start r) (rl_quiet_end r) in
          if \<not> (worst = ''critical'' \<and> critical_in_quiet_hours (sms_policy_of pol)) \<and> in_window s e now tz
          then Some (quiet_text s e) else None)"

fun queue_sms :: "rule_row \<Rightarrow> message_kind \<Rightarrow> int list \<Rightarrow> string \<Rightarrow> datetime \<Rightarrow> string option \<Rightarrow> int \<Rightarrow> int \<Rightarrow> string list \<Rightarrow> alert_db \<Rightarrow> alert_db" where
  "queue_sms r kind ids worst now held limit sent [] d = d"
| "queue_sms r kind ids worst now held limit sent (to # phones) d =
     (let limited = held = None \<and> limit \<noteq> 0 \<and> kind \<noteq> Test;
          reason = (if held \<noteq> None then held else if limited \<and> limit \<le> sent then Some (limit_text limit) else None);
          sent' = (if limited \<and> sent < limit then sent + 1 else sent)
      in queue_sms r kind ids worst now held limit sent' phones
           (add_delivery r kind ids worst now ''sms'' None (Some to) reason d))"

definition message_ids :: "alert list \<Rightarrow> int list" where
  "message_ids alerts = map al_id (filter (\<lambda>a. al_id a \<noteq> 0) alerts)"

definition queue_channel :: "delivery_policy \<Rightarrow> string list \<Rightarrow> string list \<Rightarrow> rule_row \<Rightarrow> message_kind \<Rightarrow> alert list \<Rightarrow> string \<Rightarrow>
    datetime \<Rightarrow> timezone \<Rightarrow> string \<Rightarrow> alert_db \<Rightarrow> alert_db" where
  "queue_channel pol emails phones r kind alerts worst now tz channel d =
     (let ids = message_ids alerts in
      if channel = ''email'' then
        let held = (if kind = Test then None else channel_block pol ''email'' worst) in
        fold (\<lambda>to. add_delivery r kind ids worst now ''email'' None (Some to) held) emails d
      else if channel = ''sms'' then
        let held = sms_held pol r kind worst now tz; limit = daily_limit (sms_policy_of pol) in
        queue_sms r kind ids worst now held limit
          (if limit \<noteq> 0 \<and> held = None \<and> kind \<noteq> Test then sms_sent_today now tz d else 0) phones d
      else if channel = ''syslog'' then
        fold (\<lambda>a. add_delivery r kind ids worst now ''syslog'' None None None) alerts d
      else if prefix ''webhook:'' channel then
        (case py_int (drop 8 channel) of
           None \<Rightarrow> d
         | Some hook \<Rightarrow> add_delivery r kind ids worst now ''webhook'' (Some hook) None None d)
      else d)"

definition queue_message :: "delivery_policy \<Rightarrow> user list \<Rightarrow> rule_row \<Rightarrow> message_kind \<Rightarrow> alert list \<Rightarrow> datetime \<Rightarrow> timezone \<Rightarrow> alert_db \<Rightarrow> alert_db" where
  "queue_message pol us r kind alerts now tz d = (case alerts of
     [] \<Rightarrow> d
   | a # as \<Rightarrow>
     let worst = worst_of (al_severity a) (map al_severity as);
         (emails, phones) = recipients_of us r alerts
     in fold (queue_channel (load_policy pol) emails phones r kind alerts worst now tz) (rl_channels r) d)"

section \<open>Dispatch\<close>

definition update_alerts :: "(alert \<Rightarrow> alert) \<Rightarrow> alert list \<Rightarrow> alert_db \<Rightarrow> alert_db" where
  "update_alerts f alerts d = d\<lparr> al_rows := map (\<lambda>a. if al_id a \<in> al_id ` set alerts then f a else a) (al_rows d) \<rparr>"

definition mark_notified :: "datetime \<Rightarrow> alert \<Rightarrow> alert" where
  "mark_notified now a = a\<lparr> al_notified_at := Some now, al_last_notified := Some now \<rparr>"

definition mark_reminded :: "datetime \<Rightarrow> alert \<Rightarrow> alert" where
  "mark_reminded now a = a\<lparr> al_last_notified := Some now, al_reminders := al_reminders a + 1 \<rparr>"

definition set_last_sent :: "rule_row \<Rightarrow> datetime \<Rightarrow> alert_db \<Rightarrow> alert_db" where
  "set_last_sent r now d = d\<lparr> al_rules := map (\<lambda>q. if rl_id q = rl_id r then q\<lparr> rl_last_sent := Some now \<rparr> else q) (al_rules d) \<rparr>"

definition find_rule :: "int option \<Rightarrow> rule_row list \<Rightarrow> rule_row option" where
  "find_rule i rules = (case i of None \<Rightarrow> None | Some n \<Rightarrow> find (\<lambda>r. rl_id r = n) rules)"

text \<open>New alerts of one rule: told by one message, kept for the next when a burst is collected,
  or only shown.\<close>

definition notify_new :: "delivery_policy \<Rightarrow> user list \<Rightarrow> datetime \<Rightarrow> timezone \<Rightarrow> rule_row list \<Rightarrow> int option \<Rightarrow> alert_db \<Rightarrow> alert_db" where
  "notify_new pol us now tz rules i d =
     (let alerts = filter (\<lambda>a. al_notified_at a = None \<and> is_open a \<and> al_rule a = i) (al_rows d) in
      case find_rule i rules of
        None \<Rightarrow> update_alerts (mark_notified now) alerts d
      | Some r \<Rightarrow>
        if \<not> rl_enabled r \<or> rl_channels r = [] then update_alerts (mark_notified now) alerts d
        else if rl_group r \<noteq> 0 \<and> given (\<lambda>t. now - t < minutes (rl_group r)) (rl_last_sent r) then d
        else let active = sort_key (\<lambda>a. (severity_rank (al_severity a), al_id a)) (filter (\<lambda>a. al_status a = Active) alerts) in
          update_alerts (mark_notified now) alerts
            (if active = [] then d else set_last_sent r now (queue_message pol us r Raised active now tz d)))"

definition remind :: "delivery_policy \<Rightarrow> user list \<Rightarrow> datetime \<Rightarrow> timezone \<Rightarrow> rule_row \<Rightarrow> alert_db \<Rightarrow> alert_db" where
  "remind pol us now tz r d =
     (if \<not> rl_enabled r \<or> rl_repeat r = 0 \<or> rl_channels r = [] then d
      else let due = sort_key al_id (filter (\<lambda>a. al_rule a = Some (rl_id r) \<and> al_status a = Active \<and> al_notified_at a \<noteq> None \<and>
               given (\<lambda>t. t \<le> now - minutes (rl_repeat r)) (al_last_notified a)) (al_rows d)) in
        if due = [] then d else update_alerts (mark_reminded now) due (queue_message pol us r Reminder due now tz d))"

definition notify_resolved :: "delivery_policy \<Rightarrow> user list \<Rightarrow> datetime \<Rightarrow> timezone \<Rightarrow> rule_row list \<Rightarrow> alert list \<Rightarrow> int option \<Rightarrow> alert_db \<Rightarrow> alert_db" where
  "notify_resolved pol us now tz rules gone i d = (case find_rule i rules of
     None \<Rightarrow> d
   | Some r \<Rightarrow> if rl_channels r = [] then d
       else queue_message pol us r Resolved_notice (filter (\<lambda>a. al_rule a = i) gone) now tz d)"

definition dispatch_alerts :: "delivery_policy \<Rightarrow> user list \<Rightarrow> datetime \<Rightarrow> timezone \<Rightarrow> alert_db \<Rightarrow> alert_db" where
  "dispatch_alerts pol us now tz d =
     (let rules = al_rules d;
          fresh = first_seen (map al_rule (filter (\<lambda>a. al_notified_at a = None \<and> is_open a) (al_rows d)));
          d = fold (notify_new pol us now tz rules) fresh d;
          d = fold (remind pol us now tz) rules d;
          gone = filter al_notice_pending (al_rows d);
          d = update_alerts (\<lambda>a. a\<lparr> al_notice_pending := False \<rparr>) gone d
      in fold (notify_resolved pol us now tz rules gone) (first_seen (map al_rule gone)) d)"

section \<open>Sending\<close>

datatype sending = Delivered | Refused string | Crashed string

definition RETRY_DELAYS :: "timedelta list" where "RETRY_DELAYS = [minutes 1, minutes 5]"

definition send_one :: "(delivery \<Rightarrow> sending) \<Rightarrow> datetime \<Rightarrow> datetime \<Rightarrow> delivery \<Rightarrow> delivery" where
  "send_one deliver now later x =
     (let x = x\<lparr> dl_attempts := dl_attempts x + 1 \<rparr> in
      case deliver x of
        Delivered \<Rightarrow> x\<lparr> dl_status := Sent, dl_sent_at := Some later \<rparr>
      | Crashed why \<Rightarrow> x\<lparr> dl_status := Failed_for_good, dl_error := Some why \<rparr>
      | Refused why \<Rightarrow>
        if dl_attempts x > length RETRY_DELAYS then x\<lparr> dl_status := Failed_for_good, dl_error := Some (take 1000 why) \<rparr>
        else x\<lparr> dl_next := now + RETRY_DELAYS ! (dl_attempts x - 1), dl_error := Some (take 1000 why) \<rparr>)"

definition due_deliveries :: "datetime \<Rightarrow> nat \<Rightarrow> delivery list \<Rightarrow> delivery list" where
  "due_deliveries now limit ds = take limit (sort_key dl_id (filter (\<lambda>x. dl_status x = Pending \<and> dl_next x \<le> now) ds))"

definition send_pending :: "(delivery \<Rightarrow> sending) \<Rightarrow> datetime \<Rightarrow> datetime \<Rightarrow> nat \<Rightarrow> alert_db \<Rightarrow> alert_db" where
  "send_pending deliver now later limit d =
     (let due = due_deliveries now limit (al_deliveries d) in
      d\<lparr> al_deliveries := map (\<lambda>x. if x \<in> set due then send_one deliver now later x else x) (al_deliveries d) \<rparr>)"

definition cleanup :: "datetime \<Rightarrow> alert_db \<Rightarrow> alert_db" where
  "cleanup now d =
     (let cutoff = now - days 90 in
      d\<lparr> al_deliveries := filter (\<lambda>x. \<not> dl_created x < cutoff) (al_deliveries d),
         al_rows := filter (\<lambda>a. \<not> (al_status a = Resolved \<and> given (\<lambda>t. t < cutoff) (al_resolved_at a))) (al_rows d) \<rparr>)"

text \<open>
  \<^verbatim>\<open>run_cycle\<close> where nothing outside the guarded parts raises; \<open>cleaned\<close> is the day of the last
  cleanup of the worker.
\<close>

definition SEND_BATCH :: nat where "SEND_BATCH = 200"

definition run_cycle :: "alert_env \<Rightarrow> delivery_policy \<Rightarrow> user list \<Rightarrow> timezone \<Rightarrow> (delivery \<Rightarrow> sending) \<Rightarrow> datetime \<Rightarrow> datetime \<Rightarrow> datetime \<Rightarrow>
    int option \<Rightarrow> alert_db \<Rightarrow> int option \<times> alert_db" where
  "run_cycle env pol us tz deliver now clock later cleaned d =
     (let d = evaluate_all env False now clock d;
          d = dispatch_alerts pol us now tz d;
          d = send_pending deliver now later SEND_BATCH d;
          today = now div days 1
      in if cleaned \<noteq> Some today then (Some today, cleanup now d) else (cleaned, d))"

section \<open>What a person does\<close>

definition acknowledge :: "int \<Rightarrow> datetime \<Rightarrow> alert \<Rightarrow> alert" where
  "acknowledge uid now a = (if al_status a \<noteq> Active then a
     else a\<lparr> al_status := Acknowledged, al_acknowledged_at := Some now, al_acknowledged_by := Some uid \<rparr>)"

definition resolve_alert :: "int option \<Rightarrow> datetime \<Rightarrow> alert \<Rightarrow> alert" where
  "resolve_alert uid now a = (if al_status a = Resolved then a
     else a\<lparr> al_status := Resolved, al_resolved_at := Some now, al_resolved_by := uid, al_notice_pending := False \<rparr>)"

section \<open>Messages only add deliveries\<close>

text \<open>What queueing a message does: deliveries of that message are appended, nothing else changes.\<close>

definition new_delivery :: "message_kind \<Rightarrow> int list \<Rightarrow> datetime \<Rightarrow> delivery \<Rightarrow> bool" where
  "new_delivery kind ids now x \<longleftrightarrow> dl_kind x = kind \<and> dl_alerts x = ids \<and> dl_created x = now \<and> dl_next x = now \<and> dl_attempts x = 0 \<and>
     dl_status x \<in> {Pending, Skipped}"

inductive queues :: "message_kind \<Rightarrow> int list \<Rightarrow> datetime \<Rightarrow> alert_db \<Rightarrow> alert_db \<Rightarrow> bool" for kind ids now where
  queues_none: "queues kind ids now d d"
| queues_one: "queues kind ids now d d' \<Longrightarrow> new_delivery kind ids now x \<Longrightarrow> dl_id x = al_next_delivery d' \<Longrightarrow>
    queues kind ids now d (d'\<lparr> al_deliveries := al_deliveries d' @ [x], al_next_delivery := al_next_delivery d' + 1 \<rparr>)"

lemma queues_add: "queues kind ids now d d' \<Longrightarrow> queues kind ids now d (add_delivery r kind ids worst now channel hook to reason d')"
  unfolding add_delivery_def by (rule queues_one) (auto simp: new_delivery_def)

lemma queues_fold: "(\<And>y d'. queues kind ids now d d' \<Longrightarrow> queues kind ids now d (f y d')) \<Longrightarrow> queues kind ids now d d' \<Longrightarrow>
  queues kind ids now d (fold f ys d')"
  by (induction ys arbitrary: d') auto

lemma queues_sms: "queues kind ids now d d' \<Longrightarrow> queues kind ids now d (queue_sms r kind ids worst now held limit sent phones d')"
  by (induction phones arbitrary: d' sent) (auto simp: Let_def intro: queues_add)

lemma queues_channel:
  "queues kind (message_ids alerts) now d d' \<Longrightarrow>
   queues kind (message_ids alerts) now d (queue_channel pol emails phones r kind alerts worst now tz channel d')"
  by (auto simp: queue_channel_def Let_def intro!: queues_fold queues_add queues_sms split: option.splits)

lemma queue_message_queues:
  "queues kind (message_ids alerts) now d (queue_message pol us r kind alerts now tz d)"
  unfolding queue_message_def
  by (auto simp: Let_def split: list.splits prod.splits intro!: queues_fold queues_channel queues_none)

lemma queues_frame:
  assumes "queues kind ids now d d'"
  shows "al_rows d' = al_rows d \<and> al_rules d' = al_rules d \<and> al_next_alert d' = al_next_alert d \<and> al_held d' = al_held d \<and>
    al_next_delivery d \<le> al_next_delivery d' \<and>
    (\<exists>xs. al_deliveries d' = al_deliveries d @ xs \<and> list_all (new_delivery kind ids now) xs \<and>
      distinct (map dl_id xs) \<and> (\<forall>x \<in> set xs. al_next_delivery d \<le> dl_id x \<and> dl_id x < al_next_delivery d'))"
  using assms
proof (induction rule: queues.induct)
  case (queues_one d d' x)
  then obtain xs where xs: "al_deliveries d' = al_deliveries d @ xs" "list_all (new_delivery kind ids now) xs" "distinct (map dl_id xs)"
      "\<forall>y \<in> set xs. al_next_delivery d \<le> dl_id y \<and> dl_id y < al_next_delivery d'" by auto
  then have "distinct (map dl_id (xs @ [x]))" using queues_one(3) by auto
  then show ?case using queues_one xs by (intro conjI exI [of _ "xs @ [x]"]) auto
qed auto

lemma queue_message_rows [simp]: "al_rows (queue_message pol us r kind alerts now tz d) = al_rows d"
  using queues_frame [OF queue_message_queues] by blast

section \<open>The alert tables stay in order\<close>

definition told_once :: "alert_db \<Rightarrow> bool" where
  "told_once d \<longleftrightarrow> (\<forall>x \<in> set (al_deliveries d). dl_kind x = Raised \<longrightarrow>
     (\<forall>a \<in> set (al_rows d). al_id a \<in> set (dl_alerts x) \<longrightarrow> al_notified_at a = Some (dl_created x)))"

definition alert_ok :: "alert \<Rightarrow> bool" where
  "alert_ok a \<longleftrightarrow> (al_status a = Resolved \<longleftrightarrow> al_resolved_at a \<noteq> None) \<and> (al_notice_pending a \<longrightarrow> al_status a = Resolved) \<and>
     (al_notified_at a = None \<longleftrightarrow> al_last_notified a = None)"

definition one_open :: "alert list \<Rightarrow> bool" where
  "one_open as \<longleftrightarrow> distinct (map al_fingerprint (filter is_open as))"

definition delivery_ok :: "delivery \<Rightarrow> bool" where
  "delivery_ok x \<longleftrightarrow> dl_attempts x \<le> 3 \<and> (dl_status x = Pending \<longrightarrow> dl_attempts x \<le> 2) \<and> (dl_status x = Skipped \<longrightarrow> dl_attempts x = 0)"

definition alerts_ok :: "alert_db \<Rightarrow> bool" where
  "alerts_ok d \<longleftrightarrow> distinct (map al_id (al_rows d)) \<and> (\<forall>a \<in> set (al_rows d). 0 < al_id a \<and> al_id a < al_next_alert d) \<and> one_open (al_rows d) \<and>
     list_all alert_ok (al_rows d) \<and> distinct (map dl_id (al_deliveries d)) \<and>
     (\<forall>x \<in> set (al_deliveries d). dl_id x < al_next_delivery d \<and> (\<forall>i \<in> set (dl_alerts x). i < al_next_alert d) \<and> delivery_ok x) \<and>
     told_once d \<and> 0 < al_next_alert d"

subsection \<open>Each operation\<close>

text \<open>A change of alert rows that keeps identity, fingerprint and what is told, and opens nothing.\<close>

definition harmless :: "(alert \<Rightarrow> alert) \<Rightarrow> alert \<Rightarrow> bool" where
  "harmless f a \<longleftrightarrow> al_id (f a) = al_id a \<and> al_fingerprint (f a) = al_fingerprint a \<and> (is_open (f a) \<longrightarrow> is_open a) \<and>
     al_notified_at (f a) = al_notified_at a \<and> (alert_ok a \<longrightarrow> alert_ok (f a))"

lemma one_open_map:
  assumes "one_open as" "\<And>a. a \<in> set as \<Longrightarrow> al_fingerprint (f a) = al_fingerprint a \<and> (is_open (f a) \<longrightarrow> is_open a)"
  shows "one_open (map f as)"
  using assms by (induction as) (auto simp: one_open_def split: if_splits)

lemma rows_ok:
  assumes "alerts_ok d" "map al_id rows = map al_id (al_rows d)" "one_open rows" "list_all alert_ok rows" "told_once (d\<lparr> al_rows := rows \<rparr>)"
  shows "alerts_ok (d\<lparr> al_rows := rows \<rparr>)"
proof -
  have "al_id ` set rows = al_id ` set (al_rows d)" using arg_cong [OF assms(2), of set] by simp
  then have "\<forall>a \<in> set rows. 0 < al_id a \<and> al_id a < al_next_alert d"
    using assms(1) unfolding alerts_ok_def by (metis (no_types, lifting) imageE imageI)
  then show ?thesis using assms by (simp add: alerts_ok_def)
qed

lemma harmless_ok:
  assumes "alerts_ok d" "\<And>a. a \<in> set (al_rows d) \<Longrightarrow> harmless f a"
  shows "alerts_ok (d\<lparr> al_rows := map f (al_rows d) \<rparr>)"
proof (rule rows_ok [OF assms(1)])
  show "one_open (map f (al_rows d))" using assms by (intro one_open_map) (auto simp: alerts_ok_def harmless_def)
  show "map al_id (map f (al_rows d)) = map al_id (al_rows d)" using assms(2) by (simp add: harmless_def)
  show "list_all alert_ok (map f (al_rows d))" using assms by (simp add: alerts_ok_def harmless_def list_all_iff)
  show "told_once (d\<lparr> al_rows := map f (al_rows d) \<rparr>)" using assms by (auto simp: alerts_ok_def harmless_def told_once_def)
qed

lemma harmless_ops:
  "harmless (acknowledge uid now) a" "harmless (resolve_alert u now) a" "harmless (refresh_or_resolve e r now seen) a"
  "harmless (\<lambda>a. a\<lparr> al_notice_pending := False \<rparr>) a" "al_notified_at a \<noteq> None \<Longrightarrow> harmless (mark_reminded now) a"
  by (auto simp: harmless_def acknowledge_def resolve_alert_def refresh_or_resolve_def refresh_alert_def resolve_by_itself_def
      mine_def is_open_def alert_ok_def mark_reminded_def split: option.splits)

lemma harmless_update:
  assumes "alerts_ok d" "set alerts \<subseteq> set (al_rows d)" "\<And>a. a \<in> set alerts \<Longrightarrow> harmless f a"
  shows "alerts_ok (update_alerts f alerts d)"
  unfolding update_alerts_def
proof (rule harmless_ok [OF assms(1)])
  fix a assume a: "a \<in> set (al_rows d)"
  have "a \<in> set alerts" if "al_id a \<in> al_id ` set alerts"
    using that a assms(1,2) by (auto simp: alerts_ok_def distinct_map dest: inj_onD)
  then show "harmless (\<lambda>a. if al_id a \<in> al_id ` set alerts then f a else a) a"
    using assms(3) by (auto simp: harmless_def)
qed

lemma held_ok: "alerts_ok (d\<lparr> al_held := h \<rparr>) \<longleftrightarrow> alerts_ok d" "alerts_ok (d\<lparr> al_checked := c \<rparr>) \<longleftrightarrow> alerts_ok d"
  "alerts_ok (d\<lparr> al_rules := rs \<rparr>) \<longleftrightarrow> alerts_ok d"
  by (simp_all add: alerts_ok_def told_once_def)

lemma insert_alert_ok:
  assumes "alerts_ok d" "\<not> (\<exists>a \<in> set (al_rows d). is_open a \<and> al_fingerprint a = fp)"
  shows "alerts_ok (insert_alert e r now fp p d)"
proof -
  let ?a = "new_alert e r now (al_next_alert d) fp p"
  have a: "alert_ok ?a" "al_id ?a = al_next_alert d" "is_open ?a" "al_fingerprint ?a = fp"
    by (simp_all add: new_alert_def alert_ok_def is_open_def)
  have "one_open (al_rows d @ [?a])" using assms a by (auto simp: alerts_ok_def one_open_def)
  moreover have "told_once (d\<lparr> al_rows := al_rows d @ [?a] \<rparr>)"
    using assms(1) a(2) by (fastforce simp: alerts_ok_def told_once_def)
  moreover have "\<forall>x \<in> set (al_deliveries d). \<forall>i \<in> set (dl_alerts x). i < al_next_alert d + 1"
    using assms(1) by (force simp: alerts_ok_def)
  ultimately show ?thesis
    using assms(1) a unfolding insert_alert_def held_ok by (auto simp: alerts_ok_def told_once_def)
qed

lemma raise_problem_ok: "alerts_ok d \<Longrightarrow> alerts_ok (raise_problem e r hold now fpp d)"
  unfolding raise_problem_def
  by (auto simp: Let_def list_ex_iff held_ok insert_alert_ok split: prod.splits)

lemma fold_ok: "(\<And>y d. alerts_ok d \<Longrightarrow> alerts_ok (f y d)) \<Longrightarrow> alerts_ok d \<Longrightarrow> alerts_ok (fold f ys d)"
  by (induction ys arbitrary: d) auto

lemma apply_rule_ok: "alerts_ok d \<Longrightarrow> alerts_ok (apply_rule e r hold ps now d)"
  unfolding apply_rule_def Let_def held_ok
  by (intro fold_ok raise_problem_ok harmless_ok harmless_ops)

lemma evaluate_rules_ok: "alerts_ok d \<Longrightarrow> alerts_ok (evaluate_rules env e now rs c d)"
  by (induction rs arbitrary: c d) (auto simp: Let_def apply_rule_ok split: option.splits)

lemma evaluate_all_ok: "alerts_ok d \<Longrightarrow> alerts_ok (evaluate_all env force now clock d)"
  unfolding evaluate_all_def Let_def
  by (rule fold_ok) (auto simp: evaluate_event_def evaluate_rules_ok held_ok split: option.splits)

lemma queues_ok:
  assumes "queues kind ids now d d'" "alerts_ok d" "\<forall>i \<in> set ids. i < al_next_alert d"
    "kind = Raised \<Longrightarrow> \<forall>a \<in> set (al_rows d). al_id a \<in> set ids \<longrightarrow> al_notified_at a = Some now"
  shows "alerts_ok d'"
proof -
  obtain xs where frame: "al_rows d' = al_rows d" "al_next_alert d' = al_next_alert d" "al_next_delivery d \<le> al_next_delivery d'"
      and xs: "al_deliveries d' = al_deliveries d @ xs" "list_all (new_delivery kind ids now) xs" "distinct (map dl_id xs)"
        "\<forall>x \<in> set xs. al_next_delivery d \<le> dl_id x \<and> dl_id x < al_next_delivery d'"
    using queues_frame [OF assms(1)] by blast
  have "distinct (map dl_id (al_deliveries d'))"
    using xs(1,3,4) assms(2) by (fastforce simp: alerts_ok_def)
  moreover have "\<forall>x \<in> set (al_deliveries d'). dl_id x < al_next_delivery d' \<and> (\<forall>i \<in> set (dl_alerts x). i < al_next_alert d') \<and> delivery_ok x"
  proof
    fix x assume "x \<in> set (al_deliveries d')"
    then consider "x \<in> set (al_deliveries d)" | "x \<in> set xs" using xs(1) by auto
    then show "dl_id x < al_next_delivery d' \<and> (\<forall>i \<in> set (dl_alerts x). i < al_next_alert d') \<and> delivery_ok x"
    proof cases
      case 1
      then show ?thesis using assms(2) frame by (auto simp: alerts_ok_def)
    next
      case 2
      then show ?thesis using xs(2,4) assms(3) frame by (auto simp: list_all_iff new_delivery_def delivery_ok_def)
    qed
  qed
  moreover have "told_once d'"
    using assms(2,4) xs(1,2) frame(1) by (auto simp: alerts_ok_def told_once_def list_all_iff new_delivery_def)
  ultimately show ?thesis using assms(2) frame by (simp add: alerts_ok_def)
qed

lemma queues_update: "queues kind ids now d d' \<Longrightarrow> queues kind ids now (update_alerts f as d) (update_alerts f as d')"
proof (induction rule: queues.induct)
  case (queues_one d d' x)
  have "update_alerts f as (d'\<lparr> al_deliveries := al_deliveries d' @ [x], al_next_delivery := al_next_delivery d' + 1 \<rparr>) =
      (update_alerts f as d')\<lparr> al_deliveries := al_deliveries (update_alerts f as d') @ [x],
        al_next_delivery := al_next_delivery (update_alerts f as d') + 1 \<rparr>"
    by (simp add: update_alerts_def)
  moreover have "dl_id x = al_next_delivery (update_alerts f as d')" using queues_one(3) by (simp add: update_alerts_def)
  ultimately show ?case using queues.queues_one [OF queues_one(4) queues_one(2)] by simp
qed (rule queues_none)

lemma mark_notified_ok:
  assumes "alerts_ok d" "set alerts \<subseteq> set (al_rows d)" "\<forall>a \<in> set alerts. al_notified_at a = None"
  shows "alerts_ok (update_alerts (mark_notified now) alerts d)"
proof -
  let ?f = "\<lambda>a. if al_id a \<in> al_id ` set alerts then mark_notified now a else a"
  have member: "a \<in> set alerts" if "a \<in> set (al_rows d)" "al_id a \<in> al_id ` set alerts" for a
    using that assms(1,2) by (auto simp: alerts_ok_def distinct_map dest: inj_onD)
  show ?thesis
    unfolding update_alerts_def
  proof (rule rows_ok [OF assms(1)])
    show "one_open (map ?f (al_rows d))"
      using assms(1) by (intro one_open_map) (auto simp: alerts_ok_def mark_notified_def is_open_def)
    show "map al_id (map ?f (al_rows d)) = map al_id (al_rows d)" by (simp add: mark_notified_def)
    show "list_all alert_ok (map ?f (al_rows d))"
      using assms(1) by (auto simp: alerts_ok_def list_all_iff alert_ok_def mark_notified_def)
    show "told_once (d\<lparr> al_rows := map ?f (al_rows d) \<rparr>)"
      unfolding told_once_def
    proof (intro ballI impI)
      fix x a assume x: "x \<in> set (al_deliveries (d\<lparr> al_rows := map ?f (al_rows d) \<rparr>))" "dl_kind x = Raised"
        and a: "a \<in> set (al_rows (d\<lparr> al_rows := map ?f (al_rows d) \<rparr>))" "al_id a \<in> set (dl_alerts x)"
      obtain b where b: "b \<in> set (al_rows d)" "a = ?f b" using a(1) by auto
      have "al_notified_at b = Some (dl_created x)"
        using assms(1) x a(2) b by (auto simp: alerts_ok_def told_once_def mark_notified_def split: if_splits)
      then show "al_notified_at a = Some (dl_created x)" using member [OF b(1)] assms(3) b(2) by auto
    qed
  qed
qed

lemma message_ids_subset: "i \<in> set (message_ids as) \<Longrightarrow> \<exists>a \<in> set as. al_id a = i"
  by (auto simp: message_ids_def)

lemma message_ids_less: "alerts_ok d \<Longrightarrow> set as \<subseteq> set (al_rows d) \<Longrightarrow> \<forall>i \<in> set (message_ids as). i < al_next_alert d"
  by (auto simp: message_ids_def alerts_ok_def)

lemma notify_new_ok:
  assumes "alerts_ok d"
  shows "alerts_ok (notify_new pol us now tz rules i d)"
proof -
  define alerts where "alerts = filter (\<lambda>a. al_notified_at a = None \<and> is_open a \<and> al_rule a = i) (al_rows d)"
  have sub: "set alerts \<subseteq> set (al_rows d)" "\<forall>a \<in> set alerts. al_notified_at a = None" by (auto simp: alerts_def)
  note marked = mark_notified_ok [OF assms sub, of now]
  have told: "alerts_ok (update_alerts (mark_notified now) alerts (set_last_sent r now (queue_message pol us r Raised as now tz d)))"
    if as: "set as \<subseteq> set alerts" for r as
  proof -
    let ?m = "update_alerts (mark_notified now) alerts"
    have "alerts_ok (?m (queue_message pol us r Raised as now tz d))"
    proof (rule queues_ok [OF queues_update [OF queue_message_queues] marked])
      show "\<forall>i \<in> set (message_ids as). i < al_next_alert (?m d)"
        using message_ids_less [OF assms, of as] as sub(1) by (auto simp: update_alerts_def)
      have "al_id b \<in> al_id ` set alerts" if "al_id b \<in> set (message_ids as)" for b
        using message_ids_subset [OF that] as by (metis image_eqI subsetD)
      then show "\<forall>a \<in> set (al_rows (?m d)). al_id a \<in> set (message_ids as) \<longrightarrow> al_notified_at a = Some now"
        by (auto simp: update_alerts_def mark_notified_def)
    qed
    moreover have "?m (set_last_sent r now q) = (?m q)\<lparr> al_rules := al_rules (set_last_sent r now q) \<rparr>" for q
      by (simp add: update_alerts_def set_last_sent_def)
    ultimately show ?thesis by (simp add: held_ok)
  qed
  show ?thesis
    using assms marked told unfolding notify_new_def Let_def alerts_def [symmetric]
    by (auto split: option.splits)
qed

lemma remind_ok:
  assumes "alerts_ok d"
  shows "alerts_ok (remind pol us now tz r d)"
proof -
  have told: "alerts_ok (update_alerts (mark_reminded now) due (queue_message pol us r Reminder due now tz d))"
    if due: "set due \<subseteq> {a \<in> set (al_rows d). al_notified_at a \<noteq> None}" for due
  proof (rule harmless_update)
    show "alerts_ok (queue_message pol us r Reminder due now tz d)"
      using due by (intro queues_ok [OF queue_message_queues assms message_ids_less [OF assms]]) auto
    show "set due \<subseteq> set (al_rows (queue_message pol us r Reminder due now tz d))"
      using due by auto
    show "\<And>a. a \<in> set due \<Longrightarrow> harmless (mark_reminded now) a" using due harmless_ops(5) by blast
  qed
  show ?thesis using assms unfolding remind_def Let_def by (auto intro!: told)
qed

lemma notify_resolved_ok:
  assumes "alerts_ok d" "set (map al_id gone) \<subseteq> set (map al_id (al_rows d))"
  shows "alerts_ok (notify_resolved pol us now tz rules gone i d) \<and>
    set (map al_id gone) \<subseteq> set (map al_id (al_rows (notify_resolved pol us now tz rules gone i d)))"
proof -
  have "\<forall>i \<in> set (message_ids (filter P gone)). i < al_next_alert d" for P
  proof
    fix i assume "i \<in> set (message_ids (filter P gone))"
    then have "i \<in> set (map al_id gone)" by (auto simp: message_ids_def)
    then show "i < al_next_alert d" using assms by (auto simp: alerts_ok_def)
  qed
  then have "alerts_ok (queue_message pol us r Resolved_notice (filter P gone) now tz d)" for r P
    by (intro queues_ok [OF queue_message_queues assms(1)]) auto
  then show ?thesis using assms by (auto simp: notify_resolved_def split: option.splits)
qed

lemma dispatch_ok:
  assumes "alerts_ok d"
  shows "alerts_ok (dispatch_alerts pol us now tz d)"
proof -
  have resolved: "alerts_ok d \<Longrightarrow> set (map al_id gone) \<subseteq> set (map al_id (al_rows d)) \<Longrightarrow>
      alerts_ok (fold (notify_resolved pol us now tz rules gone) is d)" for rules gone "is" d
    by (induction "is" arbitrary: d) (use notify_resolved_ok in auto)
  have cleared: "alerts_ok e \<Longrightarrow> alerts_ok (update_alerts (\<lambda>a. a\<lparr> al_notice_pending := False \<rparr>) (filter al_notice_pending (al_rows e)) e)" for e
    by (rule harmless_update) (auto intro: harmless_ops(4))
  show ?thesis
    unfolding dispatch_alerts_def Let_def
    by (intro resolved cleared fold_ok notify_new_ok remind_ok assms) (auto simp: update_alerts_def image_iff)
qed

lemma send_one_ok:
  assumes "delivery_ok x" "dl_status x = Pending"
  shows "delivery_ok (send_one deliver now later x)" "dl_id (send_one deliver now later x) = dl_id x"
    "dl_alerts (send_one deliver now later x) = dl_alerts x" "dl_kind (send_one deliver now later x) = dl_kind x"
    "dl_created (send_one deliver now later x) = dl_created x" "dl_channel (send_one deliver now later x) = dl_channel x"
    "dl_status (send_one deliver now later x) \<noteq> Skipped"
  using assms by (auto simp: send_one_def delivery_ok_def RETRY_DELAYS_def Let_def split: sending.splits)

lemma due_pending: "x \<in> set (due_deliveries now limit ds) \<Longrightarrow> x \<in> set ds \<and> dl_status x = Pending \<and> dl_next x \<le> now"
  unfolding due_deliveries_def by (drule in_set_takeD) auto

lemma send_pending_ok:
  assumes "alerts_ok d"
  shows "alerts_ok (send_pending deliver now later limit d)"
proof -
  define f where "f = (\<lambda>x. if x \<in> set (due_deliveries now limit (al_deliveries d)) then send_one deliver now later x else x)"
  have f: "delivery_ok (f x) \<and> dl_id (f x) = dl_id x \<and> dl_alerts (f x) = dl_alerts x \<and> dl_kind (f x) = dl_kind x \<and>
      dl_created (f x) = dl_created x" if "x \<in> set (al_deliveries d)" for x
    using that assms send_one_ok [of x deliver now later] due_pending [of x now limit "al_deliveries d"] by (auto simp: alerts_ok_def f_def)
  have "map dl_id (map f (al_deliveries d)) = map dl_id (al_deliveries d)" using f by simp
  then have "distinct (map dl_id (map f (al_deliveries d)))" using assms unfolding alerts_ok_def by metis
  moreover have "told_once (d\<lparr> al_deliveries := map f (al_deliveries d) \<rparr>)"
    using assms f unfolding alerts_ok_def told_once_def by simp
  moreover have "\<forall>y \<in> set (map f (al_deliveries d)). dl_id y < al_next_delivery d \<and> (\<forall>i \<in> set (dl_alerts y). i < al_next_alert d) \<and> delivery_ok y"
    using assms f unfolding alerts_ok_def by simp
  ultimately show ?thesis using assms unfolding send_pending_def Let_def f_def [symmetric] by (simp add: alerts_ok_def told_once_def)
qed

lemma one_open_filter: "one_open as \<Longrightarrow> one_open (filter P as)"
proof -
  assume "one_open as"
  then have "distinct (map al_fingerprint (filter P (filter is_open as)))" unfolding one_open_def by (rule distinct_map_filter)
  moreover have "filter P (filter is_open as) = filter is_open (filter P as)" by (simp add: conj_commute)
  ultimately show "one_open (filter P as)" unfolding one_open_def by (simp only:)
qed

lemma cleanup_ok:
  assumes "alerts_ok d"
  shows "alerts_ok (cleanup now d)"
  using assms one_open_filter [of "al_rows d"]
  by (auto simp: cleanup_def Let_def alerts_ok_def told_once_def list_all_iff distinct_map_filter simp del: filter_filter)

text \<open>
  The life of the tables: cycles of the engine, people acknowledging and resolving, rules
  created, changed and deleted, and the foreign keys of deleted rules, accounts and assets set
  to null.
\<close>

definition without :: "int \<Rightarrow> int option \<Rightarrow> int option" where
  "without i x = (if x = Some i then None else x)"

definition without_rule :: "int \<Rightarrow> alert \<Rightarrow> alert" where
  "without_rule i a = a\<lparr> al_rule := without i (al_rule a) \<rparr>"

definition without_user :: "int \<Rightarrow> alert \<Rightarrow> alert" where
  "without_user i a = a\<lparr> al_owner := without i (al_owner a), al_acknowledged_by := without i (al_acknowledged_by a),
     al_resolved_by := without i (al_resolved_by a) \<rparr>"

definition without_asset :: "int \<Rightarrow> alert \<Rightarrow> alert" where
  "without_asset i a = a\<lparr> al_asset := without i (al_asset a) \<rparr>"

definition sent_without_rule :: "int \<Rightarrow> delivery \<Rightarrow> delivery" where
  "sent_without_rule i x = x\<lparr> dl_rule := without i (dl_rule x) \<rparr>"

inductive alert_step :: "alert_db \<Rightarrow> alert_db \<Rightarrow> bool" where
  evaluates: "alert_step d (evaluate_all env force now clock d)"
| dispatches: "alert_step d (dispatch_alerts pol us now tz d)"
| sends: "alert_step d (send_pending deliver now later limit d)"
| cleans: "alert_step d (cleanup now d)"
| acknowledged: "alert_step d (update_alerts (acknowledge uid now) (filter (\<lambda>a. al_id a = i) (al_rows d)) d)"
| resolved: "alert_step d (update_alerts (resolve_alert uid now) (filter (\<lambda>a. al_id a = i) (al_rows d)) d)"
| restarts: "alert_step d (d\<lparr> al_held := [], al_checked := [] \<rparr>)"
| saves_rules: "alert_step d (d\<lparr> al_rules := rs \<rparr>)"
| deletes_rule: "alert_step d (d\<lparr> al_rules := filter (\<lambda>r. rl_id r \<noteq> i) (al_rules d), al_rows := map (without_rule i) (al_rows d),
    al_deliveries := map (sent_without_rule i) (al_deliveries d) \<rparr>)"
| deletes_user: "alert_step d (d\<lparr> al_rows := map (without_user i) (al_rows d) \<rparr>)"
| deletes_asset: "alert_step d (d\<lparr> al_rows := map (without_asset i) (al_rows d) \<rparr>)"

definition alerts_init :: "alert_db \<Rightarrow> bool" where
  "alerts_init d \<longleftrightarrow> al_rows d = [] \<and> al_deliveries d = [] \<and> al_next_alert d = 1"

lemma harmless_without: "harmless (without_rule i) a" "harmless (without_user i) a" "harmless (without_asset i) a"
  by (simp_all add: harmless_def is_open_def alert_ok_def without_rule_def without_user_def without_asset_def)

lemma sent_without_rule_ok: "alerts_ok (d\<lparr> al_deliveries := map (sent_without_rule i) (al_deliveries d) \<rparr>) \<longleftrightarrow> alerts_ok d"
proof -
  have "map dl_id (map (sent_without_rule i) xs) = map dl_id xs" for xs by (simp add: sent_without_rule_def)
  then show ?thesis unfolding alerts_ok_def told_once_def by (simp add: sent_without_rule_def delivery_ok_def del: map_map)
qed

lemma alert_step_ok: "alert_step d d' \<Longrightarrow> alerts_ok d \<Longrightarrow> alerts_ok d'"
proof (induction rule: alert_step.induct)
  case (deletes_rule d i)
  define e where "e = d\<lparr> al_rules := filter (\<lambda>r. rl_id r \<noteq> i) (al_rules d), al_rows := map (without_rule i) (al_rows d) \<rparr>"
  have "alerts_ok (d\<lparr> al_rows := map (without_rule i) (al_rows d) \<rparr>)"
    using harmless_ok [OF deletes_rule] harmless_without(1) by blast
  then have "alerts_ok e" using held_ok(3) [of _ "d\<lparr> al_rows := map (without_rule i) (al_rows d) \<rparr>"] by (simp add: e_def alerts_ok_def told_once_def)
  then have "alerts_ok (e\<lparr> al_deliveries := map (sent_without_rule i) (al_deliveries e) \<rparr>)" by (simp only: sent_without_rule_ok)
  then show ?case by (simp add: e_def)
qed (auto simp: held_ok evaluate_all_ok dispatch_ok send_pending_ok cleanup_ok intro!: harmless_update harmless_ops harmless_ok harmless_without)

interpretation alerting: invariant alerts_init alert_step alerts_ok
proof
  show "alerts_ok d" if "alerts_init d" for d
    using that by (simp add: alerts_init_def alerts_ok_def one_open_def told_once_def)
  show "alerts_ok d'" if "alert_step d d'" "alerts_ok d" for d d'
    using that by (rule alert_step_ok)
qed

lemma run_cycle_ok: "alerts_ok d \<Longrightarrow> alerts_ok (snd (run_cycle env pol us tz deliver now clock later cleaned d))"
  by (simp add: run_cycle_def Let_def evaluate_all_ok dispatch_ok send_pending_ok cleanup_ok)

text \<open>A rule about one condition with one message by text, for the examples below.\<close>

definition w_rule :: rule_row where
  "w_rule = \<lparr> rl_id = 1, rl_event = ''e'', rl_enabled = True, rl_severity = ''critical'', rl_params = [], rl_scope = ''all'', rl_assets = [],
     rl_types = [], rl_zones = [], rl_recipients = \<lparr> to_roles = [], to_users = [], to_emails = [], to_phones = [''1'', ''2''], to_owner = False \<rparr>,
     rl_channels = [''sms''], rl_repeat = 0, rl_notify_resolved = True, rl_quiet_start = None, rl_quiet_end = None, rl_group = 0,
     rl_last_fired = None, rl_last_sent = None, rl_created = 0 \<rparr>"

definition w_event :: event_type where
  "w_event = \<lparr> ev_code = ''e'', ev_module = ''m'', ev_state = True, ev_every = 0, ev_params = [] \<rparr>"

definition w_problem :: "string \<Rightarrow> problem" where
  "w_problem k = \<lparr> pr_key = k, pr_title = ''t'', pr_asset = None, pr_owner = None \<rparr>"

definition w_env :: alert_env where
  "w_env = \<lparr> event_types = [w_event], check = (\<lambda>_ _ _ _. Some [w_problem ''a'', w_problem ''b'']), minutes_of = (\<lambda>_. 0), asset_info = [] \<rparr>"

definition w_db :: alert_db where
  "w_db = \<lparr> al_rules = [w_rule], al_rows = [], al_deliveries = [], al_held = [], al_checked = [], al_next_alert = 1, al_next_delivery = 1 \<rparr>"

definition w_policy :: delivery_policy where
  "w_policy = \<lparr> email_policy = \<lparr> ch_enabled = True, ch_min_severity = ''info'' \<rparr>,
     sms_policy_of = \<lparr> ch_enabled = True, ch_min_severity = ''info'', p_quiet_start = None, p_quiet_end = None,
       critical_in_quiet_hours = True, daily_limit = 1 \<rparr>, reset_channel = ''email'' \<rparr>"

definition w_zone :: timezone where
  "w_zone = \<lparr> to_local = (\<lambda>t. t), to_utc = (\<lambda>t. t) \<rparr>"

definition w_raised :: alert_db where
  "w_raised = evaluate_all w_env False 5 5 w_db"

definition w_told :: alert_db where
  "w_told = dispatch_alerts w_policy [] 5 w_zone w_raised"

text \<open>
  C17. At any moment a problem has at most one open alert, however often rules are evaluated,
  changed or deleted and whatever people do meanwhile; and the messages that announce an
  alert were all queued at one moment, so an alert is announced at most once.
\<close>

theorem one_open_alert_told_once:
  assumes "reach alerts_init alert_step d"
  shows "distinct (map al_fingerprint (filter is_open (al_rows d))) \<and>
    (\<forall>a \<in> set (al_rows d). \<forall>x \<in> set (al_deliveries d). \<forall>y \<in> set (al_deliveries d).
      dl_kind x = Raised \<and> dl_kind y = Raised \<and> al_id a \<in> set (dl_alerts x) \<and> al_id a \<in> set (dl_alerts y) \<longrightarrow> dl_created x = dl_created y)"
proof -
  have "one_open (al_rows d)" "told_once d" using alerting.reach_inv [OF assms] by (simp_all add: alerts_ok_def)
  then show ?thesis unfolding one_open_def told_once_def by (metis option.inject)
qed

theorem one_open_alert_told_once_witness:
  "distinct (map al_fingerprint (filter is_open (al_rows w_told))) \<and> length (al_rows w_told) = 2 \<and> length (al_deliveries w_told) = 2"
proof -
  have "reach alerts_init alert_step w_db" by (rule reach.intros(1)) (simp add: alerts_init_def w_db_def)
  then have "reach alerts_init alert_step w_raised"
    unfolding w_raised_def by (rule reach.intros(2)) (rule alert_step.evaluates)
  then have "reach alerts_init alert_step w_told"
    unfolding w_told_def by (rule reach.intros(2)) (rule alert_step.dispatches)
  from one_open_alert_told_once [OF this] have "distinct (map al_fingerprint (filter is_open (al_rows w_told)))" by blast
  moreover have "length (al_rows w_told) = 2 \<and> length (al_deliveries w_told) = 2" by code_simp
  ultimately show ?thesis by blast
qed

section \<open>Alerts follow the problems\<close>

lemma seen_fingerprints: "fst ` set (seen_problems r ps) = fingerprint_of r ` set ps"
proof -
  have "fst ` set (fold (\<lambda>p. AList.update (fingerprint_of r p) p) ps acc) = fst ` set acc \<union> fingerprint_of r ` set ps" for acc
    by (induction ps arbitrary: acc) (auto simp: dom_update)
  then show ?thesis by (simp add: seen_problems_def)
qed

lemma map_of_seen: "map_of (seen_problems r ps) fp = None \<longleftrightarrow> fp \<notin> fingerprint_of r ` set ps"
  by (simp add: map_of_eq_None_iff seen_fingerprints)

lemma raise_now_rows:
  "al_rows (raise_problem e r None now fpp d) = al_rows d @
     (if list_ex (\<lambda>a. is_open a \<and> al_fingerprint a = fst fpp) (al_rows d) then []
      else [new_alert e r now (al_next_alert d) (fst fpp) (snd fpp)])"
  by (simp add: raise_problem_def hold_back_def insert_alert_def)

lemma raise_all_rows:
  "\<exists>new. al_rows (fold (raise_problem e r None now) xs d) = al_rows d @ new \<and>
     (\<forall>a \<in> set new. mine r a \<and> al_fingerprint a \<in> fst ` set xs) \<and>
     (\<forall>fp \<in> fst ` set xs. \<exists>a \<in> set (al_rows d @ new). is_open a \<and> al_fingerprint a = fp)"
proof (induction xs arbitrary: d)
  case (Cons x xs)
  define one where "one = (if list_ex (\<lambda>a. is_open a \<and> al_fingerprint a = fst x) (al_rows d) then []
      else [new_alert e r now (al_next_alert d) (fst x) (snd x)])"
  have one: "\<forall>a \<in> set one. mine r a \<and> al_fingerprint a = fst x" "\<exists>a \<in> set (al_rows d @ one). is_open a \<and> al_fingerprint a = fst x"
    by (auto simp: one_def mine_def new_alert_def is_open_def list_ex_iff)
  have rows: "al_rows (raise_problem e r None now x d) = al_rows d @ one" by (simp add: raise_now_rows one_def)
  obtain new where new: "al_rows (fold (raise_problem e r None now) xs (raise_problem e r None now x d)) = (al_rows d @ one) @ new"
      "\<forall>a \<in> set new. mine r a \<and> al_fingerprint a \<in> fst ` set xs"
      "\<forall>fp \<in> fst ` set xs. \<exists>a \<in> set ((al_rows d @ one) @ new). is_open a \<and> al_fingerprint a = fp"
    using Cons.IH [of "raise_problem e r None now x d"] unfolding rows by blast
  show ?case using one new by (intro exI [of _ "one @ new"]) auto
qed simp



section \<open>The daily limit of text messages\<close>

lemma add_delivery_count:
  "sms_sent_today now tz (add_delivery r kind ids worst now channel hook to reason d) \<le> sms_sent_today now tz d + 1"
  "channel \<noteq> ''sms'' \<or> reason \<noteq> None \<Longrightarrow>
   sms_sent_today now tz (add_delivery r kind ids worst now channel hook to reason d) = sms_sent_today now tz d"
  by (auto simp: sms_sent_today_def add_delivery_def counts_today_def)

lemma queue_sms_count:
  assumes "kind \<noteq> Test" "limit \<noteq> 0" "held \<noteq> None \<or> sms_sent_today now tz d \<le> sent"
  shows "sms_sent_today now tz (queue_sms r kind ids worst now held limit sent phones d) \<le>
    (if held = None then max limit sent else sms_sent_today now tz d)"
  using assms
proof (induction phones arbitrary: d sent)
  case (Cons to phones)
  show ?case
  proof (cases "held = None")
    case True
    show ?thesis
    proof (cases "limit \<le> sent")
      case full: True
      then show ?thesis
        using True Cons.prems Cons.IH [of "add_delivery r kind ids worst now ''sms'' None (Some to) (Some (limit_text limit)) d" sent]
          add_delivery_count(2) [of "''sms''" "Some (limit_text limit)"]
        by (simp add: Let_def)
    next
      case False
      then have "sms_sent_today now tz (queue_sms r kind ids worst now held limit (sent + 1) phones
          (add_delivery r kind ids worst now ''sms'' None (Some to) None d)) \<le> max limit (sent + 1)"
        using True Cons.prems Cons.IH [of "add_delivery r kind ids worst now ''sms'' None (Some to) None d" "sent + 1"]
          add_delivery_count(1) [of now tz r kind ids worst "''sms''" None "Some to" None d] by simp
      then show ?thesis using False True Cons.prems by (simp add: Let_def)
    qed
  next
    case False
    then show ?thesis
      using Cons.prems Cons.IH [of "add_delivery r kind ids worst now ''sms'' None (Some to) held d" sent]
        add_delivery_count(2) [of "''sms''" held] by (auto simp: Let_def)
  qed
qed auto

definition within_limit :: "int \<Rightarrow> datetime \<Rightarrow> timezone \<Rightarrow> int \<Rightarrow> alert_db \<Rightarrow> bool" where
  "within_limit limit now tz c d \<longleftrightarrow> sms_sent_today now tz d \<le> max limit c"

lemma within_fold: "(\<And>y d. within_limit l now tz c d \<Longrightarrow> within_limit l now tz c (f y d)) \<Longrightarrow> within_limit l now tz c d \<Longrightarrow>
  within_limit l now tz c (fold f ys d)"
  by (induction ys arbitrary: d) auto

lemma within_add: "within_limit l now tz c d \<Longrightarrow> channel \<noteq> ''sms'' \<Longrightarrow>
  within_limit l now tz c (add_delivery r kind ids worst now channel hook to reason d)"
  by (simp add: within_limit_def add_delivery_count)

lemma queue_channel_limit:
  assumes "kind \<noteq> Test" "daily_limit (sms_policy_of pol) \<noteq> 0" "within_limit (daily_limit (sms_policy_of pol)) now tz c d"
  shows "within_limit (daily_limit (sms_policy_of pol)) now tz c (queue_channel pol emails phones r kind alerts worst now tz channel d)"
proof (cases "channel = ''sms''")
  case True
  define held where "held = sms_held pol r kind worst now tz"
  define sent where "sent = (if held = None then sms_sent_today now tz d else 0)"
  have "sms_sent_today now tz (queue_sms r kind (message_ids alerts) worst now held (daily_limit (sms_policy_of pol)) sent phones d) \<le>
      (if held = None then max (daily_limit (sms_policy_of pol)) sent else sms_sent_today now tz d)"
    by (rule queue_sms_count) (use assms in \<open>auto simp: sent_def\<close>)
  then have "within_limit (daily_limit (sms_policy_of pol)) now tz c
      (queue_sms r kind (message_ids alerts) worst now held (daily_limit (sms_policy_of pol)) sent phones d)"
    using assms(3) by (auto simp: within_limit_def sent_def split: if_splits)
  moreover have "queue_channel pol emails phones r kind alerts worst now tz channel d =
      queue_sms r kind (message_ids alerts) worst now held (daily_limit (sms_policy_of pol)) sent phones d"
    using True assms(1,2) by (simp add: queue_channel_def Let_def held_def sent_def)
  ultimately show ?thesis by simp
next
  case False
  then show ?thesis
    using assms by (auto simp: queue_channel_def Let_def intro!: within_fold within_add split: option.splits)
qed

lemma queue_message_limit:
  assumes "kind \<noteq> Test" "daily_limit (sms_policy_of (load_policy pol)) \<noteq> 0"
    "within_limit (daily_limit (sms_policy_of (load_policy pol))) now tz c d"
  shows "within_limit (daily_limit (sms_policy_of (load_policy pol))) now tz c (queue_message pol us r kind alerts now tz d)"
  unfolding queue_message_def using assms
  by (auto simp: Let_def split: list.splits prod.splits intro!: within_fold queue_channel_limit)

lemma within_frame: "within_limit l now tz c (update_alerts f as d) \<longleftrightarrow> within_limit l now tz c d"
  "within_limit l now tz c (set_last_sent r n d) \<longleftrightarrow> within_limit l now tz c d"
  by (simp_all add: within_limit_def sms_sent_today_def update_alerts_def set_last_sent_def)



section \<open>Every message is settled\<close>

lemma send_pending_all:
  assumes "length (filter (\<lambda>x. dl_status x = Pending) (al_deliveries d)) \<le> limit"
  shows "al_deliveries (send_pending deliver now later limit d) =
    map (\<lambda>x. if dl_status x = Pending \<and> dl_next x \<le> now then send_one deliver now later x else x) (al_deliveries d)"
proof -
  let ?due = "filter (\<lambda>x. dl_status x = Pending \<and> dl_next x \<le> now) (al_deliveries d)"
  have "?due = filter (\<lambda>x. dl_next x \<le> now) (filter (\<lambda>x. dl_status x = Pending) (al_deliveries d))" by (simp add: conj_commute)
  then have "length ?due \<le> limit"
    using assms length_filter_le [of "\<lambda>x. dl_next x \<le> now" "filter (\<lambda>x. dl_status x = Pending) (al_deliveries d)"] by simp
  then have "set (due_deliveries now limit (al_deliveries d)) = set ?due" by (simp add: due_deliveries_def)
  then show ?thesis by (simp add: send_pending_def Let_def)
qed

lemma send_one_pending:
  assumes "dl_status (send_one deliver now later x) = Pending"
  shows "dl_attempts x < 2 \<and> dl_attempts (send_one deliver now later x) = dl_attempts x + 1 \<and>
    dl_next (send_one deliver now later x) = now + (if dl_attempts x = 0 then minutes 1 else minutes 5)"
  using assms by (auto simp: send_one_def Let_def RETRY_DELAYS_def less_Suc_eq numeral_2_eq_2 split: sending.splits if_splits)

text \<open>A pass over the queue, row by row.\<close>

definition sent_row :: "(delivery \<Rightarrow> sending) \<Rightarrow> datetime \<Rightarrow> datetime \<Rightarrow> delivery \<Rightarrow> delivery" where
  "sent_row deliver now later x = (if dl_status x = Pending \<and> dl_next x \<le> now then send_one deliver now later x else x)"

lemma sent_row_pending:
  assumes "dl_status (sent_row deliver now later x) = Pending"
  shows "dl_status x = Pending \<and> (now < dl_next x \<and> sent_row deliver now later x = x \<or>
    dl_next x \<le> now \<and> dl_attempts x < 2 \<and> dl_attempts (sent_row deliver now later x) = dl_attempts x + 1 \<and>
    dl_next (sent_row deliver now later x) = now + (if dl_attempts x = 0 then minutes 1 else minutes 5))"
  using assms send_one_pending [of deliver now later x] by (auto simp: sent_row_def split: if_splits)

lemma pending_shrinks:
  "length (filter (\<lambda>x. dl_status x = Pending) (map (sent_row deliver now later) ds)) \<le> length (filter (\<lambda>x. dl_status x = Pending) ds)"
  by (induction ds) (auto dest: sent_row_pending)

lemma three_tries:
  assumes "dl_next x \<le> t1" "t1 + minutes 1 \<le> t2" "t2 + minutes 5 \<le> t3"
  shows "dl_status (sent_row f3 t3 l3 (sent_row f2 t2 l2 (sent_row f1 t1 l1 x))) \<noteq> Pending"
proof
  define y where "y = sent_row f1 t1 l1 x"
  define z where "z = sent_row f2 t2 l2 y"
  assume "dl_status (sent_row f3 t3 l3 (sent_row f2 t2 l2 (sent_row f1 t1 l1 x))) = Pending"
  then have p3: "dl_status (sent_row f3 t3 l3 z) = Pending" by (simp add: y_def z_def)
  note third = sent_row_pending [OF p3]
  then have p2: "dl_status (sent_row f2 t2 l2 y) = Pending" by (simp add: z_def)
  note second = sent_row_pending [OF p2, folded z_def]
  then have p1: "dl_status (sent_row f1 t1 l1 x) = Pending" by (simp add: y_def)
  note first = sent_row_pending [OF p1, folded y_def]
  have pos: "0 < minutes 1" "minutes 1 \<le> minutes 5" by (simp_all add: minutes_def seconds_def)
  show False using first second third assms pos by (auto split: if_splits)
qed

text \<open>
  C36. The queue drains: whatever happens to each attempt, three passes that leave the waiting
  times between them settle every message that was waiting and due at the first (sent, or
  given up), when the queue fits a pass.
\<close>

theorem deliveries_end:
  assumes "\<forall>x \<in> set (al_deliveries d). dl_status x = Pending \<longrightarrow> dl_next x \<le> t1"
    and "length (filter (\<lambda>x. dl_status x = Pending) (al_deliveries d)) \<le> limit"
    and "t1 + minutes 1 \<le> t2" "t2 + minutes 5 \<le> t3"
  shows "list_all (\<lambda>x. dl_status x \<noteq> Pending)
    (al_deliveries (send_pending f3 t3 l3 limit (send_pending f2 t2 l2 limit (send_pending f1 t1 l1 limit d))))"
proof -
  define d1 where "d1 = send_pending f1 t1 l1 limit d"
  define d2 where "d2 = send_pending f2 t2 l2 limit d1"
  have one: "al_deliveries d1 = map (sent_row f1 t1 l1) (al_deliveries d)"
    using send_pending_all [OF assms(2)] by (simp add: d1_def sent_row_def)
  have few: "length (filter (\<lambda>x. dl_status x = Pending) (al_deliveries d1)) \<le> limit"
    unfolding one by (rule order_trans [OF pending_shrinks assms(2)])
  have two: "al_deliveries d2 = map (sent_row f2 t2 l2) (al_deliveries d1)"
    using send_pending_all [OF few] by (simp add: d2_def sent_row_def)
  have "length (filter (\<lambda>x. dl_status x = Pending) (al_deliveries d2)) \<le> limit"
    unfolding two by (rule order_trans [OF pending_shrinks few])
  then have three: "al_deliveries (send_pending f3 t3 l3 limit d2) = map (sent_row f3 t3 l3) (al_deliveries d2)"
    using send_pending_all by (simp add: sent_row_def)
  have "dl_status (sent_row f3 t3 l3 (sent_row f2 t2 l2 (sent_row f1 t1 l1 x))) \<noteq> Pending" if "x \<in> set (al_deliveries d)" for x
  proof (cases "dl_status x = Pending")
    case True
    then show ?thesis using three_tries assms(1,3,4) that by blast
  next
    case False
    then show ?thesis by (auto simp: sent_row_def)
  qed
  then show ?thesis by (simp add: one two three d1_def [symmetric] d2_def [symmetric] list_all_iff)
qed

theorem deliveries_end_witness:
  "dl_status (hd (al_deliveries w_told)) = Pending \<and>
   list_all (\<lambda>x. dl_status x \<noteq> Pending) (al_deliveries
     (send_pending (\<lambda>_. Refused ''no'') 360000005 0 200
       (send_pending (\<lambda>_. Refused ''no'') 60000005 0 200 (send_pending (\<lambda>_. Refused ''no'') 5 0 200 w_told))))"
proof
  show "dl_status (hd (al_deliveries w_told)) = Pending" by code_simp
  have "list_all (\<lambda>x. dl_status x = Pending \<longrightarrow> dl_next x \<le> 5) (al_deliveries w_told)" by code_simp
  moreover have "length (filter (\<lambda>x. dl_status x = Pending) (al_deliveries w_told)) \<le> 200" by code_simp
  moreover have "5 + minutes 1 \<le> 60000005" "60000005 + minutes 5 \<le> 360000005" by (simp_all add: minutes_def seconds_def)
  ultimately show "list_all (\<lambda>x. dl_status x \<noteq> Pending) (al_deliveries
     (send_pending (\<lambda>_. Refused ''no'') 360000005 0 200
       (send_pending (\<lambda>_. Refused ''no'') 60000005 0 200 (send_pending (\<lambda>_. Refused ''no'') 5 0 200 w_told))))"
    by (intro deliveries_end) (simp_all add: list_all_iff)
qed

end
