(* ===== verification/Backup_Container.thy ===== *)
theory Backup_Container
  imports Bytes
begin

text \<open>
  The container of a backup of the product itself, \<^verbatim>\<open>modules/sysbackup/container.py\<close>: a header
  readable without the passphrase, then chunks encrypted and authenticated one by one, and
  inside them one compressed stream of records. The writer streams: it compresses what it is
  given and seals a chunk whenever enough has gathered. The reader streams back.

  The primitives are parameters: scrypt, HMAC, SHA-256, AES-GCM, zlib (its compressor and
  decompressor as state machines), JSON text and base64. Digests are kept as bytes where the
  code writes them in hexadecimal.
\<close>

section \<open>Primitives and errors\<close>

record ('z, 'u) primitives =
  scrypt :: "string \<Rightarrow> byte list \<Rightarrow> int \<Rightarrow> int \<Rightarrow> int \<Rightarrow> byte list option"
  hmac_sha256 :: "byte list \<Rightarrow> byte list \<Rightarrow> byte list"
  sha256 :: "byte list \<Rightarrow> byte list"
  gcm_encrypt :: "byte list \<Rightarrow> byte list \<Rightarrow> byte list \<Rightarrow> byte list \<Rightarrow> byte list"
  gcm_decrypt :: "byte list \<Rightarrow> byte list \<Rightarrow> byte list \<Rightarrow> byte list \<Rightarrow> byte list option"
  compressobj :: 'z
  compress :: "'z \<Rightarrow> byte list \<Rightarrow> byte list \<times> 'z"
  flush :: "'z \<Rightarrow> byte list"
  decompressobj :: 'u
  decompress :: "'u \<Rightarrow> byte list \<Rightarrow> (byte list \<times> 'u) option"
  flush_out :: "'u \<Rightarrow> byte list"
  dumps :: "(string \<times> json) list \<Rightarrow> byte list"
  loads :: "byte list \<Rightarrow> json option"
  b64encode :: "byte list \<Rightarrow> string"
  b64decode :: "string \<Rightarrow> byte list option"

datatype backup_error = Not_a_backup | Cut_short | Header_too_large | Header_damaged | Unsupported_format
  | Wrong_passphrase | File_damaged | Chunk_failed nat | Data_after_end | Data_after_archive | Ends_in_entry | Archive_damaged
  | Entry_too_large | Entry_open | No_open_entry | Duplicate_entry | Name_too_long | Zlib_error | Unicode_error | Attribute_error

definition MAGIC :: "byte list" where "MAGIC = [78, 71, 66, 65, 75, 0, 1, 10]"
definition CHUNK :: nat where "CHUNK = 2 ^ 20"
definition MAX_CHUNK :: nat where "MAX_CHUNK = CHUNK + 4096"
definition MAX_HEADER :: nat where "MAX_HEADER = 2 ^ 16"
definition SCRYPT :: "(string \<times> json) list" where
  "SCRYPT = [(''n'', JInt (2 ^ 15)), (''r'', JInt 8), (''p'', JInt 1)]"
definition CHECK_LABEL :: "byte list" where "CHECK_LABEL = utf8 ''ngcorion-backup-check''"

definition check_value :: "('z, 'u) primitives \<Rightarrow> byte list \<Rightarrow> byte list" where
  "check_value B key = take 16 (hmac_sha256 B key CHECK_LABEL)"

definition aad :: "byte list \<Rightarrow> nat \<Rightarrow> bool \<Rightarrow> byte list" where
  "aad digest i final = digest @ be 8 i @ be 1 (if final then 1 else 0)"

section \<open>Writing\<close>

record 'z writer =
  w_key :: "byte list"
  w_digest :: "byte list"
  w_out :: "byte list"
  w_zip :: 'z
  w_pending :: "byte list"
  w_index :: nat
  w_entry :: "string option"
  w_data :: "byte list"
  w_entries :: "(string \<times> nat \<times> byte list) list"
  w_size :: nat
  w_closed :: bool

text \<open>\<^verbatim>\<open>dict.update\<close>: known keys keep their place.\<close>

definition dict_update :: "(string \<times> json) list \<Rightarrow> (string \<times> json) list \<Rightarrow> (string \<times> json) list" where
  "dict_update d e = fold (\<lambda>(k, v). AList.update k v) e d"

definition full_header :: "('z, 'u) primitives \<Rightarrow> byte list \<Rightarrow> byte list \<Rightarrow> (string \<times> json) list \<Rightarrow> (string \<times> json) list" where
  "full_header B salt key header = dict_update header
     [(''format'', JInt 1),
      (''kdf'', JObj ([(''name'', JStr ''scrypt''), (''salt'', JStr (b64encode B salt))] @ SCRYPT)),
      (''cipher'', JStr ''AES-256-GCM''), (''compression'', JStr ''zlib''),
      (''check'', JStr (b64encode B (check_value B key)))]"

definition head_bytes :: "byte list \<Rightarrow> byte list" where
  "head_bytes raw = MAGIC @ be 4 (length raw) @ raw"

definition open_writer :: "('z, 'u) primitives \<Rightarrow> byte list \<Rightarrow> byte list \<Rightarrow> (string \<times> json) list \<Rightarrow> 'z writer" where
  "open_writer B salt key header =
     (let prefix = head_bytes (dumps B (full_header B salt key header)) in
      \<lparr> w_key = key, w_digest = sha256 B prefix, w_out = prefix, w_zip = compressobj B, w_pending = [], w_index = 0,
        w_entry = None, w_data = [], w_entries = [], w_size = length prefix, w_closed = False \<rparr>)"

text \<open>One frame of the file; \<open>nonce\<close> is \<^verbatim>\<open>os.urandom(12)\<close>, by the number of the chunk.\<close>

definition frame :: "('z, 'u) primitives \<Rightarrow> (nat \<Rightarrow> byte list) \<Rightarrow> byte list \<Rightarrow> byte list \<Rightarrow> nat \<Rightarrow> bool \<Rightarrow> byte list \<Rightarrow> byte list" where
  "frame B nonce key digest i final chunk =
     (let ct = gcm_encrypt B key (nonce i) chunk (aad digest i final)
      in be 4 (length ct) @ be 1 (if final then 1 else 0) @ nonce i @ ct)"

definition emit_chunk :: "('z, 'u) primitives \<Rightarrow> (nat \<Rightarrow> byte list) \<Rightarrow> bool \<Rightarrow> 'z writer \<Rightarrow> 'z writer" where
  "emit_chunk B nonce final w =
     (let f = frame B nonce (w_key w) (w_digest w) (w_index w) final (take CHUNK (w_pending w))
      in w\<lparr> w_pending := drop CHUNK (w_pending w), w_out := w_out w @ f, w_size := w_size w + length f, w_index := w_index w + 1 \<rparr>)"

function seal :: "('z, 'u) primitives \<Rightarrow> (nat \<Rightarrow> byte list) \<Rightarrow> bool \<Rightarrow> 'z writer \<Rightarrow> 'z writer" where
  "seal B nonce final w =
     (if CHUNK \<le> length (w_pending w) \<or> final
      then let done_now = final \<and> length (w_pending w) \<le> CHUNK; w' = emit_chunk B nonce done_now w
        in if done_now then w' else seal B nonce final w'
      else w)"
  by pat_completeness auto
termination by (relation "measure (\<lambda>(B, nonce, final, w). length (w_pending w))") (auto simp: emit_chunk_def Let_def CHUNK_def)

declare seal.simps [simp del]

definition plain :: "('z, 'u) primitives \<Rightarrow> (nat \<Rightarrow> byte list) \<Rightarrow> byte list \<Rightarrow> 'z writer \<Rightarrow> 'z writer" where
  "plain B nonce d w =
     (let (out, z) = compress B (w_zip w) d; w = w\<lparr> w_zip := z, w_pending := w_pending w @ out \<rparr>
      in if CHUNK \<le> length (w_pending w) then seal B nonce False w else w)"

definition begin_record :: "string \<Rightarrow> byte list" where
  "begin_record name = [69] @ be 2 (length (utf8 name)) @ utf8 name"

definition data_record :: "byte list \<Rightarrow> byte list" where
  "data_record part = [68] @ be 4 (length part) @ part"

definition begin_entry :: "('z, 'u) primitives \<Rightarrow> (nat \<Rightarrow> byte list) \<Rightarrow> string \<Rightarrow> 'z writer \<Rightarrow> (backup_error, 'z writer) result" where
  "begin_entry B nonce name w =
     (if w_entry w \<noteq> None then Inl Entry_open
      else if map_of (w_entries w) name \<noteq> None then Inl Duplicate_entry
      else if 65536 \<le> length (utf8 name) then Inl Name_too_long
      else Inr ((plain B nonce (begin_record name) w)\<lparr> w_entry := Some name, w_data := [] \<rparr>))"

definition write_part :: "('z, 'u) primitives \<Rightarrow> (nat \<Rightarrow> byte list) \<Rightarrow> byte list \<Rightarrow> 'z writer \<Rightarrow> 'z writer" where
  "write_part B nonce part w = (let w = plain B nonce (data_record part) w in w\<lparr> w_data := w_data w @ part \<rparr>)"

definition write_data :: "('z, 'u) primitives \<Rightarrow> (nat \<Rightarrow> byte list) \<Rightarrow> byte list \<Rightarrow> 'z writer \<Rightarrow> (backup_error, 'z writer) result" where
  "write_data B nonce d w =
     (if w_entry w = None then Inl No_open_entry else Inr (fold (write_part B nonce) (pieces CHUNK d) w))"

text \<open>\<^verbatim>\<open>end\<close> of an entry never begun fails on its missing hash.\<close>

definition end_entry :: "('z, 'u) primitives \<Rightarrow> (nat \<Rightarrow> byte list) \<Rightarrow> 'z writer \<Rightarrow> (backup_error, 'z writer) result" where
  "end_entry B nonce w =
     (let w = plain B nonce [90] w in
      case w_entry w of
        None \<Rightarrow> Inl Attribute_error
      | Some name \<Rightarrow> Inr (w\<lparr> w_entries := AList.update name (length (w_data w), sha256 B (w_data w)) (w_entries w), w_entry := None \<rparr>))"

fun write_all :: "('z, 'u) primitives \<Rightarrow> (nat \<Rightarrow> byte list) \<Rightarrow> byte list list \<Rightarrow> 'z writer \<Rightarrow> (backup_error, 'z writer) result" where
  "write_all B nonce [] w = Inr w"
| "write_all B nonce (d # ds) w = res_bind (write_data B nonce d w) (write_all B nonce ds)"

text \<open>An entry written block by block; \<^verbatim>\<open>add\<close> writes it as one block.\<close>

definition put_entry :: "('z, 'u) primitives \<Rightarrow> (nat \<Rightarrow> byte list) \<Rightarrow> string \<Rightarrow> byte list list \<Rightarrow> 'z writer \<Rightarrow> (backup_error, 'z writer) result" where
  "put_entry B nonce name ds w =
     res_bind (begin_entry B nonce name w) (\<lambda>w. res_bind (write_all B nonce ds w) (end_entry B nonce))"

definition add_entry :: "('z, 'u) primitives \<Rightarrow> (nat \<Rightarrow> byte list) \<Rightarrow> string \<Rightarrow> byte list \<Rightarrow> 'z writer \<Rightarrow> (backup_error, 'z writer) result" where
  "add_entry B nonce name d w = put_entry B nonce name [d] w"

definition close_writer :: "('z, 'u) primitives \<Rightarrow> (nat \<Rightarrow> byte list) \<Rightarrow> 'z writer \<Rightarrow> (backup_error, byte list \<times> 'z writer) result" where
  "close_writer B nonce w =
     (if w_entry w \<noteq> None then Inl Entry_open
      else let w = plain B nonce [88] w;
               w = w\<lparr> w_pending := w_pending w @ flush B (w_zip w) \<rparr>;
               w = (seal B nonce True w)\<lparr> w_closed := True \<rparr>
        in Inr (sha256 B (w_out w), w))"

fun put_entries :: "('z, 'u) primitives \<Rightarrow> (nat \<Rightarrow> byte list) \<Rightarrow> (string \<times> byte list list) list \<Rightarrow> 'z writer \<Rightarrow> (backup_error, 'z writer) result" where
  "put_entries B nonce [] w = Inr w"
| "put_entries B nonce ((name, ds) # es) w = res_bind (put_entry B nonce name ds w) (put_entries B nonce es)"

text \<open>The whole file. The constructor of the writer derives the key with the parameters of \<^verbatim>\<open>SCRYPT\<close>.\<close>

definition write_backup :: "('z, 'u) primitives \<Rightarrow> (nat \<Rightarrow> byte list) \<Rightarrow> byte list \<Rightarrow> string \<Rightarrow> (string \<times> json) list \<Rightarrow>
    (string \<times> byte list list) list \<Rightarrow> (backup_error, byte list) result" where
  "write_backup B nonce salt passphrase header es = (case scrypt B passphrase salt (2 ^ 15) 8 1 of
     None \<Rightarrow> Inl Header_damaged
   | Some key \<Rightarrow> res_bind (put_entries B nonce es (open_writer B salt key header)) (\<lambda>w.
       res_bind (close_writer B nonce w) (\<lambda>(digest, w). Inr (w_out w))))"

section \<open>Reading\<close>

definition is_format :: "json \<Rightarrow> bool" where
  "is_format v \<longleftrightarrow> v = JInt 1 \<or> v = JFloat 1 \<or> v = JBool True"

text \<open>\<^verbatim>\<open>read_header\<close>: the header, the digest the chunks are bound to and the rest of the file.\<close>

definition read_header :: "('z, 'u) primitives \<Rightarrow> byte list \<Rightarrow> (backup_error, (string \<times> json) list \<times> byte list \<times> byte list) result" where
  "read_header B f =
     (let magic = take 8 f; size_raw = take 4 (drop 8 f); size = be_val size_raw; raw = take size (drop 12 f) in
      if magic \<noteq> MAGIC then Inl Not_a_backup
      else if length size_raw \<noteq> 4 then Inl Cut_short
      else if MAX_HEADER < size then Inl Header_too_large
      else if length raw \<noteq> size then Inl Cut_short
      else case loads B raw of
          None \<Rightarrow> Inl Header_damaged
        | Some (JObj header) \<Rightarrow>
          if \<not> is_format (jget header ''format'') then Inl Unsupported_format
          else Inr (header, sha256 B (magic @ size_raw @ raw), drop (12 + size) f)
        | Some _ \<Rightarrow> Inl Attribute_error)"

definition need :: "'a option \<Rightarrow> (backup_error, 'a) result" where
  "need x = (case x of None \<Rightarrow> Inl Header_damaged | Some v \<Rightarrow> Inr v)"

definition text_at :: "('z, 'u) primitives \<Rightarrow> (string \<times> json) list \<Rightarrow> string \<Rightarrow> byte list option" where
  "text_at B d k = (case map_of d k of Some (JStr s) \<Rightarrow> b64decode B s | _ \<Rightarrow> None)"

definition int_at :: "(string \<times> json) list \<Rightarrow> string \<Rightarrow> int option" where
  "int_at d k = Option.bind (map_of d k) json_int"

definition unlock :: "('z, 'u) primitives \<Rightarrow> (string \<times> json) list \<Rightarrow> string \<Rightarrow> (backup_error, byte list) result" where
  "unlock B header passphrase = (case jget header ''kdf'' of
     JObj kdf \<Rightarrow>
       res_bind (need (text_at B kdf ''salt'')) (\<lambda>salt.
       res_bind (need (int_at kdf ''n'')) (\<lambda>n. res_bind (need (int_at kdf ''r'')) (\<lambda>r. res_bind (need (int_at kdf ''p'')) (\<lambda>p.
       res_bind (need (scrypt B passphrase salt n r p)) (\<lambda>key.
       res_bind (need (text_at B header ''check'')) (\<lambda>expected.
         if check_value B key \<noteq> expected then Inl Wrong_passphrase else Inr key))))))
   | _ \<Rightarrow> Inl Header_damaged)"

text \<open>
  The generator \<^verbatim>\<open>_decrypted\<close> as the list of what it yields and how it ends: with \<open>None\<close> when it
  returns, or with the error it raises. Empty output is not yielded.
\<close>

definition yielded :: "byte list \<Rightarrow> byte list list" where
  "yielded out = (if out = [] then [] else [out])"

function decrypted :: "('z, 'u) primitives \<Rightarrow> byte list \<Rightarrow> byte list \<Rightarrow> nat \<Rightarrow> 'u \<Rightarrow> byte list \<Rightarrow> byte list list \<times> backup_error option" where
  "decrypted B key digest i u f =
     (if length f < 5 then ([], Some Cut_short)
      else let len = be_val (take 4 f); final = be_val (take 1 (drop 4 f)); nonce = take 12 (drop 5 f);
               ct = take len (drop 17 f); rest = drop (17 + len) f in
        if MAX_CHUNK < len \<or> 1 < final then ([], Some File_damaged)
        else if length nonce \<noteq> 12 \<or> length ct \<noteq> len then ([], Some Cut_short)
        else case gcm_decrypt B key nonce ct (aad digest i (final = 1)) of
            None \<Rightarrow> ([], Some (Chunk_failed i))
          | Some chunk \<Rightarrow> (case decompress B u chunk of
              None \<Rightarrow> ([], Some Zlib_error)
            | Some (out, u') \<Rightarrow>
              if final = 1 then (yielded out @ yielded (flush_out B u'), if rest = [] then None else Some Data_after_end)
              else (let (outs, e) = decrypted B key digest (i + 1) u' rest in (yielded out @ outs, e))))"
  by pat_completeness auto
termination by (relation "measure (\<lambda>(B, key, digest, i, u, f). length f)") auto

declare decrypted.simps [simp del]

record reader =
  r_buf :: "byte list"
  r_outs :: "byte list list"
  r_end :: "backup_error option"

fun take_bytes :: "nat \<Rightarrow> byte list \<Rightarrow> byte list list \<Rightarrow> backup_error option \<Rightarrow> (backup_error, byte list \<times> reader) result" where
  "take_bytes n buf outs e =
     (if n \<le> length buf then Inr (take n buf, \<lparr> r_buf = drop n buf, r_outs = outs, r_end = e \<rparr>)
      else case outs of
          [] \<Rightarrow> Inl (case e of None \<Rightarrow> Ends_in_entry | Some x \<Rightarrow> x)
        | out # outs' \<Rightarrow> take_bytes n (buf @ out) outs' e)"

declare take_bytes.simps [simp del]

definition take_n :: "nat \<Rightarrow> reader \<Rightarrow> (backup_error, byte list \<times> reader) result" where
  "take_n n r = take_bytes n (r_buf r) (r_outs r) (r_end r)"

text \<open>What is left to read.\<close>

definition rest_of :: "reader \<Rightarrow> byte list" where
  "rest_of r = r_buf r @ concat (r_outs r)"

lemma take_bytes_rest:
  "take_bytes n buf outs e = Inr (x, r) \<Longrightarrow>
   x = take n (buf @ concat outs) \<and> rest_of r = drop n (buf @ concat outs) \<and> n \<le> length (buf @ concat outs) \<and> r_end r = e \<and>
   set (r_outs r) \<subseteq> set outs"
proof (induction outs arbitrary: buf)
  case Nil
  then show ?case by (subst (asm) take_bytes.simps) (auto simp: rest_of_def split: if_splits)
next
  case (Cons out outs)
  show ?case
  proof (cases "n \<le> length buf")
    case True
    then show ?thesis using Cons.prems by (subst (asm) take_bytes.simps) (auto simp: rest_of_def)
  next
    case False
    then have "take_bytes n (buf @ out) outs e = Inr (x, r)" using Cons.prems by (subst (asm) take_bytes.simps) simp
    from Cons.IH [OF this] show ?thesis by auto
  qed
qed

lemma take_bytes_enough: "n \<le> length (buf @ concat outs) \<Longrightarrow> \<exists>x r. take_bytes n buf outs e = Inr (x, r)"
proof (induction outs arbitrary: buf)
  case Nil
  then show ?case by (subst take_bytes.simps) simp
next
  case (Cons out outs)
  then show ?case using Cons.IH [of "buf @ out"] by (subst take_bytes.simps) simp
qed

lemma take_n_rest: "take_n n r = Inr (x, r') \<Longrightarrow>
  x = take n (rest_of r) \<and> rest_of r' = drop n (rest_of r) \<and> n \<le> length (rest_of r) \<and> r_end r' = r_end r \<and> set (r_outs r') \<subseteq> set (r_outs r)"
  unfolding take_n_def by (drule take_bytes_rest) (auto simp: rest_of_def)

lemma take_n_append: "rest_of r = x @ y \<Longrightarrow> length x = n \<Longrightarrow>
  \<exists>r'. take_n n r = Inr (x, r') \<and> rest_of r' = y \<and> r_end r' = r_end r \<and> set (r_outs r') \<subseteq> set (r_outs r)"
  using take_bytes_enough [of n "r_buf r" "r_outs r" "r_end r"] take_n_rest [of n r]
  by (fastforce simp: rest_of_def take_n_def)

text \<open>The records of one entry: \<^verbatim>\<open>_blocks\<close>, read to the end.\<close>

function read_blocks :: "reader \<Rightarrow> (backup_error, byte list list \<times> reader) result" where
  "read_blocks r = (case take_n 1 r of
     Inl e \<Rightarrow> Inl e
   | Inr (tag, r1) \<Rightarrow>
     if tag = [68] then (case take_n 4 r1 of
         Inl e \<Rightarrow> Inl e
       | Inr (len, r2) \<Rightarrow>
         if CHUNK < be_val len then Inl Archive_damaged
         else (case take_n (be_val len) r2 of
             Inl e \<Rightarrow> Inl e
           | Inr (d, r3) \<Rightarrow> (case read_blocks r3 of Inl e \<Rightarrow> Inl e | Inr (ds, r4) \<Rightarrow> Inr (d # ds, r4))))
     else if tag = [90] then Inr ([], r1)
     else Inl Archive_damaged)"
  by pat_completeness auto
termination by (relation "measure (\<lambda>r. length (rest_of r))") (auto dest!: take_n_rest)

declare read_blocks.simps [simp del]

lemma read_blocks_rest: "read_blocks r = Inr (ds, r') \<Longrightarrow> length (rest_of r') < length (rest_of r)"
proof (induction "length (rest_of r)" arbitrary: r ds r' rule: less_induct)
  case less
  obtain tag r1 where 1: "take_n 1 r = Inr (tag, r1)"
    using less.prems by (subst (asm) read_blocks.simps) (auto split: sum.splits)
  note one = take_n_rest [OF 1]
  show ?case
  proof (cases "tag = [68]")
    case False
    then have "r' = r1" using less.prems 1 by (subst (asm) read_blocks.simps) (simp split: if_splits)
    then show ?thesis using one by auto
  next
    case True
    obtain len r2 d r3 ds' where 2: "take_n 4 r1 = Inr (len, r2)" "take_n (be_val len) r2 = Inr (d, r3)"
        "read_blocks r3 = Inr (ds', r')"
      using less.prems 1 True by (subst (asm) read_blocks.simps) (auto split: sum.splits if_splits)
    have "length (rest_of r3) < length (rest_of r)" using one take_n_rest [OF 2(1)] take_n_rest [OF 2(2)] by auto
    then show ?thesis using less.hyps [OF _ 2(3)] by simp
  qed
qed

lemma read_blocks_end: "read_blocks r = Inr (ds, r') \<Longrightarrow> r_end r' = r_end r"
proof (induction "length (rest_of r)" arbitrary: r ds r' rule: less_induct)
  case less
  obtain tag r1 where 1: "take_n 1 r = Inr (tag, r1)"
    using less.prems by (subst (asm) read_blocks.simps) (auto split: sum.splits)
  show ?case
  proof (cases "tag = [68]")
    case False
    then have "r' = r1" using less.prems 1 by (subst (asm) read_blocks.simps) (simp split: if_splits)
    then show ?thesis using take_n_rest [OF 1] by simp
  next
    case True
    obtain len r2 d r3 ds' where 2: "take_n 4 r1 = Inr (len, r2)" "take_n (be_val len) r2 = Inr (d, r3)"
        "read_blocks r3 = Inr (ds', r')"
      using less.prems 1 True by (subst (asm) read_blocks.simps) (auto split: sum.splits if_splits)
    have "length (rest_of r3) < length (rest_of r)" using take_n_rest [OF 1] take_n_rest [OF 2(1)] take_n_rest [OF 2(2)] by auto
    then show ?thesis using less.hyps [OF _ 2(3)] take_n_rest [OF 1] take_n_rest [OF 2(1)] take_n_rest [OF 2(2)] by simp
  qed
qed

function read_entries :: "reader \<Rightarrow> (backup_error, (string \<times> byte list list) list) result" where
  "read_entries r = (case take_n 1 r of
     Inl e \<Rightarrow> Inl e
   | Inr (tag, r1) \<Rightarrow>
     if tag = [88] then
       (if r_buf r1 \<noteq> [] \<or> r_outs r1 \<noteq> [] then Inl Data_after_archive
        else case r_end r1 of Some e \<Rightarrow> Inl e | None \<Rightarrow> Inr [])
     else if tag \<noteq> [69] then Inl Archive_damaged
     else (case take_n 2 r1 of
         Inl e \<Rightarrow> Inl e
       | Inr (len, r2) \<Rightarrow> (case take_n (be_val len) r2 of
           Inl e \<Rightarrow> Inl e
         | Inr (raw, r3) \<Rightarrow> (case utf8_decode raw of
             None \<Rightarrow> Inl Unicode_error
           | Some name \<Rightarrow> (case read_blocks r3 of
               Inl e \<Rightarrow> Inl e
             | Inr (ds, r4) \<Rightarrow> (case read_entries r4 of Inl e \<Rightarrow> Inl e | Inr es \<Rightarrow> Inr ((name, ds) # es)))))))"
  by pat_completeness auto
termination by (relation "measure (\<lambda>r. length (rest_of r))") (auto dest!: take_n_rest read_blocks_rest)

declare read_entries.simps [simp del]

definition open_reader :: "('z, 'u) primitives \<Rightarrow> string \<Rightarrow> byte list \<Rightarrow> (backup_error, reader) result" where
  "open_reader B passphrase f =
     res_bind (read_header B f) (\<lambda>(header, digest, rest).
     res_bind (unlock B header passphrase) (\<lambda>key.
       let (outs, e) = decrypted B key digest 0 (decompressobj B) rest in Inr \<lparr> r_buf = [], r_outs = outs, r_end = e \<rparr>))"

definition read_backup :: "('z, 'u) primitives \<Rightarrow> string \<Rightarrow> byte list \<Rightarrow> (backup_error, (string \<times> byte list list) list) result" where
  "read_backup B passphrase f = res_bind (open_reader B passphrase f) read_entries"

text \<open>What the reader records of an entry for the comparison with the manifest, and \<^verbatim>\<open>read_entry\<close>.\<close>

definition entry_hashes :: "('z, 'u) primitives \<Rightarrow> (string \<times> byte list list) list \<Rightarrow> (string \<times> nat \<times> byte list) list" where
  "entry_hashes B es = fold (\<lambda>(name, ds). AList.update name (length (concat ds), sha256 B (concat ds))) es []"

fun read_entry :: "nat \<Rightarrow> byte list \<Rightarrow> byte list list \<Rightarrow> (backup_error, byte list) result" where
  "read_entry limit out [] = Inr out"
| "read_entry limit out (d # ds) = (if limit < length (out @ d) then Inl Entry_too_large else read_entry limit (out @ d) ds)"

section \<open>What the file is\<close>

text \<open>
  The file written at once: the records of all entries, compressed, cut into chunks, each in
  its frame, the last one marked.
\<close>

definition entry_records :: "string \<times> byte list list \<Rightarrow> byte list list" where
  "entry_records e = [begin_record (fst e)] @ map data_record (concat (map (pieces CHUNK) (snd e))) @ [[90]]"

definition archive_records :: "(string \<times> byte list list) list \<Rightarrow> byte list list" where
  "archive_records es = concat (map entry_records es) @ [[88]]"

fun compress_all :: "('z, 'u) primitives \<Rightarrow> 'z \<Rightarrow> byte list list \<Rightarrow> byte list \<times> 'z" where
  "compress_all B z [] = ([], z)"
| "compress_all B z (d # ds) = (let (out, z) = compress B z d; (outs, z) = compress_all B z ds in (out @ outs, z))"

definition compressed :: "('z, 'u) primitives \<Rightarrow> byte list list \<Rightarrow> byte list" where
  "compressed B ds = (let (out, z) = compress_all B (compressobj B) ds in out @ flush B z)"

definition cut :: "byte list \<Rightarrow> byte list list" where
  "cut xs = (if xs = [] then [[]] else pieces CHUNK xs)"

definition backup_chunks :: "('z, 'u) primitives \<Rightarrow> (string \<times> byte list list) list \<Rightarrow> byte list list" where
  "backup_chunks B es = cut (compressed B (archive_records es))"

fun frames :: "('z, 'u) primitives \<Rightarrow> (nat \<Rightarrow> byte list) \<Rightarrow> byte list \<Rightarrow> byte list \<Rightarrow> nat \<Rightarrow> byte list list \<Rightarrow> byte list" where
  "frames B nonce key digest i [] = []"
| "frames B nonce key digest i [c] = frame B nonce key digest i True c"
| "frames B nonce key digest i (c # d # cs) = frame B nonce key digest i False c @ frames B nonce key digest (Suc i) (d # cs)"

definition backup_head :: "('z, 'u) primitives \<Rightarrow> byte list \<Rightarrow> byte list \<Rightarrow> (string \<times> json) list \<Rightarrow> byte list" where
  "backup_head B salt key header = head_bytes (dumps B (full_header B salt key header))"

definition backup_file :: "('z, 'u) primitives \<Rightarrow> (nat \<Rightarrow> byte list) \<Rightarrow> byte list \<Rightarrow> byte list \<Rightarrow> (string \<times> json) list \<Rightarrow>
    (string \<times> byte list list) list \<Rightarrow> byte list" where
  "backup_file B nonce salt key header es =
     (let h = backup_head B salt key header in h @ frames B nonce key (sha256 B h) 0 (backup_chunks B es))"

subsection \<open>The writer refines it\<close>

lemma CHUNK_pos [simp]: "0 < CHUNK" "CHUNK \<noteq> 0"
  by (simp_all add: CHUNK_def)

lemma cut_short [simp]: "length xs \<le> CHUNK \<Longrightarrow> cut xs = [xs]"
  by (cases "xs = []") (simp_all add: cut_def pieces_short)

lemma cut_long: "CHUNK < length xs \<Longrightarrow> cut xs = take CHUNK xs # cut (drop CHUNK xs)"
  by (auto simp: cut_def pieces.simps [of CHUNK xs])

lemma cut_not_Nil [simp]: "cut xs \<noteq> []"
  by (auto simp: cut_def pieces.simps [of CHUNK xs])

lemma concat_cut [simp]: "concat (cut xs) = xs"
  by (simp add: cut_def concat_pieces)

lemma cut_length: "c \<in> set (cut xs) \<Longrightarrow> length c \<le> CHUNK"
  by (auto simp: cut_def split: if_splits dest: length_pieces)

lemma cut_append: "list_all (\<lambda>c. length c = CHUNK) cs \<Longrightarrow> p \<noteq> [] \<Longrightarrow> cut (concat cs @ p) = cs @ cut p"
  by (induction cs) (auto simp: cut_long)

lemma frames_Cons: "cs \<noteq> [] \<Longrightarrow> frames B nonce key digest i (c # cs) = frame B nonce key digest i False c @ frames B nonce key digest (Suc i) cs"
  by (cases cs) auto

fun open_frames :: "('z, 'u) primitives \<Rightarrow> (nat \<Rightarrow> byte list) \<Rightarrow> byte list \<Rightarrow> byte list \<Rightarrow> nat \<Rightarrow> byte list list \<Rightarrow> byte list" where
  "open_frames B nonce key digest i [] = []"
| "open_frames B nonce key digest i (c # cs) = frame B nonce key digest i False c @ open_frames B nonce key digest (Suc i) cs"

lemma open_frames_append:
  "open_frames B nonce key digest i (cs @ ds) = open_frames B nonce key digest i cs @ open_frames B nonce key digest (i + length cs) ds"
  by (induction cs arbitrary: i) auto

lemma open_frames_then: "ds \<noteq> [] \<Longrightarrow>
  frames B nonce key digest i (cs @ ds) = open_frames B nonce key digest i cs @ frames B nonce key digest (i + length cs) ds"
  by (induction cs arbitrary: i) (auto simp: frames_Cons)

text \<open>Sealing in the middle and at the end.\<close>

lemma seal_more:
  "\<exists>cs. w_pending w = concat cs @ w_pending (seal B nonce False w) \<and> list_all (\<lambda>c. length c = CHUNK) cs \<and>
     length (w_pending (seal B nonce False w)) < CHUNK \<and> w_index (seal B nonce False w) = w_index w + length cs \<and>
     w_out (seal B nonce False w) = w_out w @ open_frames B nonce (w_key w) (w_digest w) (w_index w) cs \<and>
     w_key (seal B nonce False w) = w_key w \<and> w_digest (seal B nonce False w) = w_digest w \<and> w_zip (seal B nonce False w) = w_zip w \<and>
     w_entry (seal B nonce False w) = w_entry w \<and> w_data (seal B nonce False w) = w_data w \<and> w_entries (seal B nonce False w) = w_entries w"
proof (induction "length (w_pending w)" arbitrary: w rule: less_induct)
  case less
  show ?case
  proof (cases "CHUNK \<le> length (w_pending w)")
    case False
    then have "seal B nonce False w = w" by (simp add: seal.simps)
    then show ?thesis using False by (intro exI [of _ "[]"]) simp
  next
    case True
    define v where "v = emit_chunk B nonce False w"
    have step: "seal B nonce False w = seal B nonce False v" using True by (subst seal.simps) (simp add: v_def)
    have v: "w_pending v = drop CHUNK (w_pending w)" "w_index v = Suc (w_index w)" "w_key v = w_key w" "w_digest v = w_digest w"
        "w_out v = w_out w @ frame B nonce (w_key w) (w_digest w) (w_index w) False (take CHUNK (w_pending w))"
        "w_zip v = w_zip w" "w_entry v = w_entry w" "w_data v = w_data w" "w_entries v = w_entries w"
      by (simp_all add: v_def emit_chunk_def Let_def)
    have "length (w_pending v) < length (w_pending w)" using True CHUNK_pos(1) unfolding v(1) length_drop by linarith
    from less.hyps [OF this] obtain cs where cs: "w_pending v = concat cs @ w_pending (seal B nonce False v)"
        "list_all (\<lambda>c. length c = CHUNK) cs" "length (w_pending (seal B nonce False v)) < CHUNK"
        "w_index (seal B nonce False v) = w_index v + length cs"
        "w_out (seal B nonce False v) = w_out v @ open_frames B nonce (w_key v) (w_digest v) (w_index v) cs"
        "w_key (seal B nonce False v) = w_key v" "w_digest (seal B nonce False v) = w_digest v" "w_zip (seal B nonce False v) = w_zip v"
        "w_entry (seal B nonce False v) = w_entry v" "w_data (seal B nonce False v) = w_data v" "w_entries (seal B nonce False v) = w_entries v"
      by blast
    have "w_pending w = take CHUNK (w_pending w) @ w_pending v" using v(1) by simp
    then have "w_pending w = concat (take CHUNK (w_pending w) # cs) @ w_pending (seal B nonce False v)" using cs(1) by simp
    then show ?thesis
      unfolding step using cs v True by (intro exI [of _ "take CHUNK (w_pending w) # cs"]) simp
  qed
qed

lemma seal_last:
  "w_out (seal B nonce True w) = w_out w @ frames B nonce (w_key w) (w_digest w) (w_index w) (cut (w_pending w))"
proof (induction "length (w_pending w)" arbitrary: w rule: less_induct)
  case less
  show ?case
  proof (cases "length (w_pending w) \<le> CHUNK")
    case True
    then show ?thesis by (subst seal.simps) (simp add: emit_chunk_def Let_def)
  next
    case False
    define v where "v = emit_chunk B nonce False w"
    have step: "seal B nonce True w = seal B nonce True v" using False by (subst seal.simps) (simp add: v_def)
    have v: "w_pending v = drop CHUNK (w_pending w)" "w_index v = Suc (w_index w)" "w_key v = w_key w" "w_digest v = w_digest w"
        "w_out v = w_out w @ frame B nonce (w_key w) (w_digest w) (w_index w) False (take CHUNK (w_pending w))"
      by (simp_all add: v_def emit_chunk_def Let_def)
    have "length (w_pending v) < length (w_pending w)" using False CHUNK_pos(1) unfolding v(1) length_drop by linarith
    then show ?thesis using less.hyps [of v] False unfolding step by (simp add: v cut_long frames_Cons)
  qed
qed

text \<open>The state of a writer that was given some records.\<close>

definition written :: "('z, 'u) primitives \<Rightarrow> (nat \<Rightarrow> byte list) \<Rightarrow> byte list \<Rightarrow> byte list \<Rightarrow> byte list list \<Rightarrow> 'z writer \<Rightarrow> bool" where
  "written B nonce key head rs w \<longleftrightarrow> w_key w = key \<and> w_digest w = sha256 B head \<and> (\<exists>cs.
     compress_all B (compressobj B) rs = (concat cs @ w_pending w, w_zip w) \<and> list_all (\<lambda>c. length c = CHUNK) cs \<and>
     w_index w = length cs \<and> w_out w = head @ open_frames B nonce key (sha256 B head) 0 cs)"

lemma compress_all_snoc:
  "compress_all B z (ds @ [d]) = (fst (compress_all B z ds) @ fst (compress B (snd (compress_all B z ds)) d),
     snd (compress B (snd (compress_all B z ds)) d))"
  by (induction ds arbitrary: z) (auto simp: Let_def split: prod.splits)

lemma written_frame [simp]:
  "written B nonce key head rs (w\<lparr> w_entry := a \<rparr>) = written B nonce key head rs w"
  "written B nonce key head rs (w\<lparr> w_data := b \<rparr>) = written B nonce key head rs w"
  "written B nonce key head rs (w\<lparr> w_entries := c \<rparr>) = written B nonce key head rs w"
  by (simp_all add: written_def)

lemma plain_written: "written B nonce key head rs w \<Longrightarrow> written B nonce key head (rs @ [d]) (plain B nonce d w)"
proof -
  assume "written B nonce key head rs w"
  then obtain cs where w: "w_key w = key" "w_digest w = sha256 B head"
      "compress_all B (compressobj B) rs = (concat cs @ w_pending w, w_zip w)" "list_all (\<lambda>c. length c = CHUNK) cs"
      "w_index w = length cs" "w_out w = head @ open_frames B nonce key (sha256 B head) 0 cs"
    unfolding written_def by blast
  obtain out z where z: "compress B (w_zip w) d = (out, z)" by fastforce
  define v where "v = w\<lparr> w_zip := z, w_pending := w_pending w @ out \<rparr>"
  have fed: "compress_all B (compressobj B) (rs @ [d]) = (concat cs @ w_pending v, w_zip v)"
    using w(3) z by (simp add: compress_all_snoc v_def)
  have v: "w_key v = key" "w_digest v = sha256 B head" "w_index v = length cs" "w_out v = head @ open_frames B nonce key (sha256 B head) 0 cs"
    using w by (simp_all add: v_def)
  have plain: "plain B nonce d w = (if CHUNK \<le> length (w_pending v) then seal B nonce False v else v)"
    using z by (simp add: plain_def v_def Let_def)
  show "written B nonce key head (rs @ [d]) (plain B nonce d w)"
  proof (cases "CHUNK \<le> length (w_pending v)")
    case True
    obtain es where es: "w_pending v = concat es @ w_pending (seal B nonce False v)" "list_all (\<lambda>c. length c = CHUNK) es"
        "w_index (seal B nonce False v) = w_index v + length es"
        "w_out (seal B nonce False v) = w_out v @ open_frames B nonce (w_key v) (w_digest v) (w_index v) es"
        "w_key (seal B nonce False v) = w_key v" "w_digest (seal B nonce False v) = w_digest v" "w_zip (seal B nonce False v) = w_zip v"
      using seal_more [of v B nonce] by blast
    have "compress_all B (compressobj B) (rs @ [d]) = (concat (cs @ es) @ w_pending (seal B nonce False v), w_zip (seal B nonce False v))"
      unfolding fed using es(1,7) by simp
    then show ?thesis
      unfolding written_def plain using True es v w(4) by (auto intro!: exI [of _ "cs @ es"] simp: open_frames_append)
  next
    case False
    then show ?thesis unfolding written_def plain using fed v w(4) by (auto intro!: exI [of _ cs])
  qed
qed

lemma seal_frame: "w_entry (seal B nonce False w) = w_entry w" "w_data (seal B nonce False w) = w_data w"
  "w_entries (seal B nonce False w) = w_entries w"
  using seal_more [of w B nonce] by blast+

lemma plain_frame [simp]:
  "w_entry (plain B nonce d w) = w_entry w" "w_data (plain B nonce d w) = w_data w" "w_entries (plain B nonce d w) = w_entries w"
  by (simp_all add: plain_def Let_def seal_frame split: prod.splits)

lemma write_part_frame [simp]:
  "w_entry (write_part B nonce part w) = w_entry w" "w_entries (write_part B nonce part w) = w_entries w"
  by (simp_all add: write_part_def Let_def)

lemma write_parts:
  "written B nonce key head rs w \<Longrightarrow> written B nonce key head (rs @ map data_record parts) (fold (write_part B nonce) parts w)"
  "w_entry (fold (write_part B nonce) parts w) = w_entry w" "w_entries (fold (write_part B nonce) parts w) = w_entries w"
proof (induction parts arbitrary: rs w)
  case (Cons part parts)
  {
    case 1
    then have "written B nonce key head (rs @ [data_record part]) (write_part B nonce part w)"
      by (simp add: write_part_def Let_def plain_written)
    then show ?case using Cons(1) by fastforce
  }
qed simp_all

lemma write_all_written:
  assumes "write_all B nonce ds w = Inr w'" "written B nonce key head rs w"
  shows "written B nonce key head (rs @ map data_record (concat (map (pieces CHUNK) ds))) w' \<and> w_entry w' = w_entry w \<and> w_entries w' = w_entries w"
  using assms
proof (induction ds arbitrary: rs w)
  case (Cons d ds)
  define v where "v = fold (write_part B nonce) (pieces CHUNK d) w"
  have "write_all B nonce ds v = Inr w'" using Cons.prems(1) by (simp add: write_data_def v_def split: if_splits)
  moreover have "written B nonce key head (rs @ map data_record (pieces CHUNK d)) v" unfolding v_def using Cons.prems(2) by (rule write_parts)
  ultimately have "written B nonce key head ((rs @ map data_record (pieces CHUNK d)) @ map data_record (concat (map (pieces CHUNK) ds))) w' \<and>
      w_entry w' = w_entry v \<and> w_entries w' = w_entries v" by (rule Cons.IH)
  then show ?case by (simp add: v_def write_parts)
qed simp

lemma put_entry_written:
  assumes "put_entry B nonce name ds w = Inr w'" "written B nonce key head rs w"
  shows "written B nonce key head (rs @ entry_records (name, ds)) w' \<and> w_entry w' = None \<and>
    fst ` set (w_entries w') = insert name (fst ` set (w_entries w))"
proof -
  define b where "b = (plain B nonce (begin_record name) w)\<lparr> w_entry := Some name, w_data := [] \<rparr>"
  obtain v where v: "write_all B nonce ds b = Inr v" "end_entry B nonce v = Inr w'"
    using assms(1) by (auto simp: put_entry_def begin_entry_def b_def res_simps split: if_splits)
  have "written B nonce key head (rs @ [begin_record name]) b" using assms(2) by (simp add: b_def plain_written)
  from write_all_written [OF v(1) this] have w: "written B nonce key head ((rs @ [begin_record name]) @ map data_record (concat (map (pieces CHUNK) ds))) v"
      "w_entry v = Some name" "w_entries v = w_entries w"
    by (simp_all add: b_def)
  have "w' = (plain B nonce [90] v)\<lparr> w_entries := AList.update name (length (w_data v), sha256 B (w_data v)) (w_entries w), w_entry := None \<rparr>"
    using v(2) w(2,3) by (simp add: end_entry_def Let_def)
  then show ?thesis using plain_written [OF w(1), of "[90]"] by (simp add: entry_records_def dom_update)
qed

lemma put_entries_written:
  assumes "put_entries B nonce es w = Inr w'" "written B nonce key head rs w"
  shows "written B nonce key head (rs @ concat (map entry_records es)) w'"
  using assms
proof (induction es arbitrary: rs w)
  case (Cons e es)
  obtain name ds where e: "e = (name, ds)" by fastforce
  obtain v where "put_entry B nonce name ds w = Inr v" "put_entries B nonce es v = Inr w'" using Cons.prems(1) e by (auto simp: res_simps)
  then show ?case using Cons.IH [of v "rs @ entry_records e"] put_entry_written [of B nonce name ds w v key head rs] Cons.prems(2) e by simp
qed simp

theorem writer_refines_file:
  assumes "write_backup B nonce salt passphrase header es = Inr f" "\<And>z. flush B z \<noteq> []"
  shows "\<exists>key. scrypt B passphrase salt (2 ^ 15) 8 1 = Some key \<and> f = backup_file B nonce salt key header es"
proof -
  obtain key w d v where key: "scrypt B passphrase salt (2 ^ 15) 8 1 = Some key"
      and w: "put_entries B nonce es (open_writer B salt key header) = Inr w" and v: "close_writer B nonce w = Inr (d, v)" "f = w_out v"
    using assms(1) by (auto simp: write_backup_def res_simps split: option.splits)
  define head where "head = backup_head B salt key header"
  have "written B nonce key head [] (open_writer B salt key header)"
    by (auto simp: written_def open_writer_def head_def backup_head_def Let_def intro!: exI [of _ "[]"])
  from put_entries_written [OF w this] have "written B nonce key head (concat (map entry_records es)) w" by simp
  from plain_written [OF this, of "[88]"] have x: "written B nonce key head (archive_records es) (plain B nonce [88] w)"
    by (simp add: archive_records_def)
  define u where "u = plain B nonce [88] w"
  obtain cs where u: "w_key u = key" "w_digest u = sha256 B head"
      "compress_all B (compressobj B) (archive_records es) = (concat cs @ w_pending u, w_zip u)" "list_all (\<lambda>c. length c = CHUNK) cs"
      "w_index u = length cs" "w_out u = head @ open_frames B nonce key (sha256 B head) 0 cs"
    using x unfolding written_def u_def by blast
  have total: "backup_chunks B es = cs @ cut (w_pending u @ flush B (w_zip u))"
    using cut_append [OF u(4), of "w_pending u @ flush B (w_zip u)"] assms(2) u(3) by (simp add: backup_chunks_def compressed_def)
  have "f = w_out (seal B nonce True (u\<lparr> w_pending := w_pending u @ flush B (w_zip u) \<rparr>))"
    using v by (auto simp: close_writer_def Let_def u_def split: if_splits)
  also have "\<dots> = head @ frames B nonce key (sha256 B head) 0 (backup_chunks B es)"
    using u total by (simp add: seal_last open_frames_then)
  finally show ?thesis using key by (simp add: backup_file_def Let_def head_def)
qed

lemma write_all_ok: "w_entry w \<noteq> None \<Longrightarrow> \<exists>w'. write_all B nonce ds w = Inr w' \<and> w_entry w' = w_entry w \<and> w_entries w' = w_entries w"
proof (induction ds arbitrary: w)
  case (Cons d ds)
  then show ?case using Cons.IH [of "fold (write_part B nonce) (pieces CHUNK d) w"] by (simp add: write_data_def write_parts)
qed simp

lemma put_entry_ok:
  assumes "w_entry w = None" "name \<notin> fst ` set (w_entries w)" "length (utf8 name) < 65536"
  shows "\<exists>w'. put_entry B nonce name ds w = Inr w' \<and> w_entry w' = None \<and> fst ` set (w_entries w') = insert name (fst ` set (w_entries w))"
proof -
  define b where "b = (plain B nonce (begin_record name) w)\<lparr> w_entry := Some name, w_data := [] \<rparr>"
  have b: "begin_entry B nonce name w = Inr b" using assms by (simp add: begin_entry_def b_def map_of_eq_None_iff)
  obtain v where v: "write_all B nonce ds b = Inr v" "w_entry v = Some name" "w_entries v = w_entries w"
    using write_all_ok [of b B nonce ds] by (auto simp: b_def)
  then have "end_entry B nonce v = Inr ((plain B nonce [90] v)\<lparr> w_entries := AList.update name (length (w_data v), sha256 B (w_data v)) (w_entries w), w_entry := None \<rparr>)"
    by (simp add: end_entry_def Let_def)
  then show ?thesis using b v(1) by (simp add: put_entry_def dom_update)
qed

lemma put_entries_ok:
  assumes "w_entry w = None" "distinct (map fst es)" "\<forall>e \<in> set es. fst e \<notin> fst ` set (w_entries w) \<and> length (utf8 (fst e)) < 65536"
  shows "\<exists>w'. put_entries B nonce es w = Inr w' \<and> w_entry w' = None"
  using assms
proof (induction es arbitrary: w)
  case (Cons e es)
  obtain name ds where e: "e = (name, ds)" by fastforce
  obtain v where v: "put_entry B nonce name ds w = Inr v" "w_entry v = None" "fst ` set (w_entries v) = insert name (fst ` set (w_entries w))"
    using put_entry_ok [of w name B nonce ds] Cons.prems e by auto
  have "\<forall>e \<in> set es. fst e \<notin> fst ` set (w_entries v) \<and> length (utf8 (fst e)) < 65536"
    using Cons.prems(2,3) v(3) e by (auto simp: image_iff)
  then show ?case using Cons.IH [OF v(2)] Cons.prems(2) v(1) e by simp
qed simp

section \<open>The reader gets back what was written\<close>

text \<open>
  What is assumed of the primitives: a sealed chunk opens, with 16 bytes for the tag; what was
  compressed comes out again however the stream is cut (and a stream ends with a trailer);
  base64 and JSON are read back, JSON up to the order of keys.
\<close>

fun decompress_all :: "('z, 'u) primitives \<Rightarrow> 'u \<Rightarrow> byte list list \<Rightarrow> (byte list \<times> 'u) option" where
  "decompress_all B u [] = Some ([], u)"
| "decompress_all B u (c # cs) = (case decompress B u c of None \<Rightarrow> None | Some (out, u) \<Rightarrow>
     (case decompress_all B u cs of None \<Rightarrow> None | Some (outs, u) \<Rightarrow> Some (out @ outs, u)))"

definition gcm_ok :: "('z, 'u) primitives \<Rightarrow> bool" where
  "gcm_ok B \<longleftrightarrow> (\<forall>key n p a. gcm_decrypt B key n (gcm_encrypt B key n p a) a = Some p \<and> length (gcm_encrypt B key n p a) = length p + 16)"

definition zlib_ok :: "('z, 'u) primitives \<Rightarrow> bool" where
  "zlib_ok B \<longleftrightarrow> (\<forall>z. flush B z \<noteq> []) \<and> (\<forall>ds cs. concat cs = compressed B ds \<longrightarrow>
     (\<exists>out u. decompress_all B (decompressobj B) cs = Some (out, u) \<and> out @ flush_out B u = concat ds))"

definition b64_ok :: "('z, 'u) primitives \<Rightarrow> bool" where
  "b64_ok B \<longleftrightarrow> (\<forall>x. b64decode B (b64encode B x) = Some x)"

inductive same_json :: "json \<Rightarrow> json \<Rightarrow> bool" where
  same_json_refl: "same_json v v"
| same_json_obj: "(\<And>k. rel_option same_json (map_of d k) (map_of e k)) \<Longrightarrow> same_json (JObj d) (JObj e)"

inductive_cases same_json_ObjE: "same_json v (JObj d)"
inductive_cases same_json_StrE: "same_json v (JStr x)"
inductive_cases same_json_IntE: "same_json v (JInt n)"

definition header_ok :: "('z, 'u) primitives \<Rightarrow> (string \<times> json) list \<Rightarrow> bool" where
  "header_ok B h \<longleftrightarrow> length (dumps B h) \<le> MAX_HEADER \<and> (\<exists>h'. loads B (dumps B h) = Some (JObj h') \<and> same_json (JObj h') (JObj h))"

lemma rest_end: "[] \<notin> set (r_outs r) \<Longrightarrow> rest_of r = [] \<Longrightarrow> r_buf r = [] \<and> r_outs r = []"
  unfolding rest_of_def by (cases "r_outs r") auto

lemma read_blocks_records:
  assumes "rest_of r = concat (map data_record ps) @ [90] @ y" "\<forall>p \<in> set ps. length p \<le> CHUNK"
  shows "\<exists>r'. read_blocks r = Inr (ps, r') \<and> rest_of r' = y \<and> r_end r' = r_end r \<and> set (r_outs r') \<subseteq> set (r_outs r)"
  using assms
proof (induction ps arbitrary: r)
  case Nil
  then obtain r' where "take_n 1 r = Inr ([90], r')" "rest_of r' = y" "r_end r' = r_end r" "set (r_outs r') \<subseteq> set (r_outs r)"
    using take_n_append [of r "[90]" y 1] by auto
  then show ?case by (subst read_blocks.simps) simp
next
  case (Cons p ps)
  define z where "z = concat (map data_record ps) @ [90] @ y"
  have p: "length p \<le> CHUNK" using Cons.prems(2) by simp
  then have len: "be_val (be 4 (length p)) = length p" by (intro be_val_be) (simp add: CHUNK_def)
  have "rest_of r = [68] @ be 4 (length p) @ p @ z" using Cons.prems(1) by (simp add: data_record_def [of p] z_def)
  then obtain r1 where 1: "take_n 1 r = Inr ([68], r1)" "rest_of r1 = be 4 (length p) @ p @ z" "r_end r1 = r_end r" "set (r_outs r1) \<subseteq> set (r_outs r)"
    using take_n_append [of r "[68]" _ 1] by auto
  obtain r2 where 2: "take_n 4 r1 = Inr (be 4 (length p), r2)" "rest_of r2 = p @ z" "r_end r2 = r_end r1" "set (r_outs r2) \<subseteq> set (r_outs r1)"
    using take_n_append [OF 1(2), of 4] by auto
  obtain r3 where 3: "take_n (length p) r2 = Inr (p, r3)" "rest_of r3 = z" "r_end r3 = r_end r2" "set (r_outs r3) \<subseteq> set (r_outs r2)"
    using take_n_append [OF 2(2) refl] by auto
  obtain r' where "read_blocks r3 = Inr (ps, r')" "rest_of r' = y" "r_end r' = r_end r3" "set (r_outs r') \<subseteq> set (r_outs r3)"
    using Cons.IH [of r3] 3(2) Cons.prems(2) by (auto simp: z_def)
  then show ?case using 1 2 3 p len by (subst read_blocks.simps) auto
qed

lemma read_entries_records:
  assumes "rest_of r = concat (archive_records es)" "r_end r = None" "[] \<notin> set (r_outs r)" "\<forall>e \<in> set es. length (utf8 (fst e)) < 65536"
  shows "read_entries r = Inr (map (\<lambda>e. (fst e, concat (map (pieces CHUNK) (snd e)))) es)"
  using assms
proof (induction es arbitrary: r)
  case Nil
  then obtain r' where r': "take_n 1 r = Inr ([88], r')" "rest_of r' = []" "r_end r' = None" "set (r_outs r') \<subseteq> set (r_outs r)"
    using take_n_append [of r "[88]" "[]" 1] by (auto simp: archive_records_def)
  then have "r_buf r' = [] \<and> r_outs r' = []" using Nil.prems(3) by (intro rest_end) auto
  then show ?case using r' by (subst read_entries.simps) simp
next
  case (Cons e es)
  obtain name ds where e: "e = (name, ds)" by fastforce
  define z where "z = concat (archive_records es)"
  define body where "body = concat (map data_record (concat (map (pieces CHUNK) ds))) @ [90] @ z"
  have "length (utf8 name) < 256 ^ 2" using Cons.prems(4) e by simp
  then have len: "be_val (be 2 (length (utf8 name))) = length (utf8 name)" by (rule be_val_be)
  have "rest_of r = [69] @ be 2 (length (utf8 name)) @ utf8 name @ body"
    using Cons.prems(1) e by (simp add: archive_records_def entry_records_def begin_record_def body_def z_def)
  then obtain r1 where 1: "take_n 1 r = Inr ([69], r1)" "rest_of r1 = be 2 (length (utf8 name)) @ utf8 name @ body" "r_end r1 = r_end r"
      "set (r_outs r1) \<subseteq> set (r_outs r)"
    using take_n_append [of r "[69]" _ 1] by auto
  obtain r2 where 2: "take_n 2 r1 = Inr (be 2 (length (utf8 name)), r2)" "rest_of r2 = utf8 name @ body" "r_end r2 = r_end r1"
      "set (r_outs r2) \<subseteq> set (r_outs r1)"
    using take_n_append [OF 1(2), of 2] by auto
  obtain r3 where 3: "take_n (length (utf8 name)) r2 = Inr (utf8 name, r3)" "rest_of r3 = body" "r_end r3 = r_end r2" "set (r_outs r3) \<subseteq> set (r_outs r2)"
    using take_n_append [OF 2(2) refl] by auto
  have "\<forall>p \<in> set (concat (map (pieces CHUNK) ds)). length p \<le> CHUNK" by (auto dest: length_pieces)
  from read_blocks_records [OF 3(2) [unfolded body_def] this] obtain r4 where 4: "read_blocks r3 = Inr (concat (map (pieces CHUNK) ds), r4)"
      "rest_of r4 = z" "r_end r4 = r_end r3" "set (r_outs r4) \<subseteq> set (r_outs r3)" by blast
  have "read_entries r4 = Inr (map (\<lambda>e. (fst e, concat (map (pieces CHUNK) (snd e)))) es)"
    using Cons.prems 1 2 3 4 by (intro Cons.IH) (auto simp: z_def)
  then show ?case using 1 2 3 4 len e by (subst read_entries.simps) (simp add: utf8_decode_utf8)
qed

text \<open>A chunk that opens again, and all chunks of a file.\<close>

definition opens :: "('z, 'u) primitives \<Rightarrow> (nat \<Rightarrow> byte list) \<Rightarrow> byte list \<Rightarrow> byte list \<Rightarrow> nat \<Rightarrow> bool \<Rightarrow> byte list \<Rightarrow> bool" where
  "opens B nonce key digest i final c \<longleftrightarrow> length (nonce i) = 12 \<and> length c \<le> CHUNK \<and>
     length (gcm_encrypt B key (nonce i) c (aad digest i final)) = length c + 16 \<and>
     gcm_decrypt B key (nonce i) (gcm_encrypt B key (nonce i) c (aad digest i final)) (aad digest i final) = Some c"

fun all_open :: "('z, 'u) primitives \<Rightarrow> (nat \<Rightarrow> byte list) \<Rightarrow> byte list \<Rightarrow> byte list \<Rightarrow> nat \<Rightarrow> byte list list \<Rightarrow> bool" where
  "all_open B nonce key digest i [] = True"
| "all_open B nonce key digest i [c] = opens B nonce key digest i True c"
| "all_open B nonce key digest i (c # d # cs) = (opens B nonce key digest i False c \<and> all_open B nonce key digest (Suc i) (d # cs))"

lemma gcm_all_open: "gcm_ok B \<Longrightarrow> (\<And>i. length (nonce i) = 12) \<Longrightarrow> \<forall>c \<in> set cs. length c \<le> CHUNK \<Longrightarrow> all_open B nonce key digest i cs"
  by (induction B nonce key digest i cs rule: all_open.induct) (auto simp: opens_def gcm_ok_def)

lemma decrypted_frame:
  assumes "opens B nonce key digest i final c"
  shows "decrypted B key digest i u (frame B nonce key digest i final c @ rest) = (case decompress B u c of
     None \<Rightarrow> ([], Some Zlib_error)
   | Some (out, u') \<Rightarrow> if final then (yielded out @ yielded (flush_out B u'), if rest = [] then None else Some Data_after_end)
       else (let (outs, e) = decrypted B key digest (i + 1) u' rest in (yielded out @ outs, e)))"
proof -
  define ct where "ct = gcm_encrypt B key (nonce i) c (aad digest i final)"
  define f where "f = be 4 (length ct) @ be 1 (if final then 1 else 0) @ nonce i @ ct @ rest"
  have whole: "frame B nonce key digest i final c @ rest = f" by (simp add: frame_def f_def ct_def Let_def)
  have o: "length (nonce i) = 12" "length ct = length c + 16" "length c \<le> CHUNK" "gcm_decrypt B key (nonce i) ct (aad digest i final) = Some c"
    using assms by (simp_all add: opens_def ct_def)
  have len: "length ct < 256 ^ 4" using o(2,3) by (simp add: CHUNK_def)
  have parts: "be_val (take 4 f) = length ct" "be_val (take 1 (drop 4 f)) = (if final then 1 else 0)" "take 12 (drop 5 f) = nonce i"
      "take (length ct) (drop 17 f) = ct" "\<not> length f < 5" "\<not> MAX_CHUNK < length ct"
    using o(1,2,3) be_val_be [OF len] by (simp_all add: f_def be_val_def [of "[_]"] MAX_CHUNK_def unat_of_nat)
  have "f = (be 4 (length ct) @ be 1 (if final then 1 else 0) @ nonce i @ ct) @ rest" by (simp add: f_def)
  moreover have "length (be 4 (length ct) @ be 1 (if final then 1 else 0) @ nonce i @ ct) = 17 + length ct" using o(1) by simp
  ultimately have rest: "drop (17 + length ct) f = rest" by (metis append_eq_conv_conj)
  show ?thesis
  proof (cases "decompress B u c")
    case None
    then show ?thesis unfolding whole using parts rest o by (cases final; subst decrypted.simps) (simp_all add: Let_def)
  next
    case (Some x)
    then show ?thesis unfolding whole using parts rest o by (cases x; cases final; subst decrypted.simps) (simp_all add: Let_def)
  qed
qed

lemma decrypted_frames:
  assumes "all_open B nonce key digest i cs" "cs \<noteq> []" "decompress_all B u cs = Some (out, u')"
  shows "\<exists>outs. decrypted B key digest i u (frames B nonce key digest i cs) = (outs, None) \<and> concat outs = out @ flush_out B u' \<and> [] \<notin> set outs"
  using assms
proof (induction B nonce key digest i cs arbitrary: u out rule: all_open.induct)
  case (2 B nonce key digest i c)
  then have "decompress B u c = Some (out, u')" by (auto split: option.splits)
  then show ?case using decrypted_frame [of B nonce key digest i True c u "[]"] 2 by (simp add: yielded_def)
next
  case (3 B nonce key digest i c d cs)
  obtain o1 u1 o2 where d: "decompress B u c = Some (o1, u1)" "decompress_all B u1 (d # cs) = Some (o2, u')" "out = o1 @ o2"
    using "3.prems"(3) by (auto simp del: decompress_all.simps(2) simp: decompress_all.simps(2) [of B u c] split: option.splits prod.splits)
  obtain outs where "decrypted B key digest (Suc i) u1 (frames B nonce key digest (Suc i) (d # cs)) = (outs, None)" "concat outs = o2 @ flush_out B u'"
      "[] \<notin> set outs"
    using "3.IH" [of u1 o2] "3.prems"(1) d(2) by auto
  then show ?case using decrypted_frame [of B nonce key digest i False c u "frames B nonce key digest (Suc i) (d # cs)"] "3.prems"(1) d
    by (simp add: yielded_def)
qed simp

subsection \<open>The header\<close>

lemma same_field:
  assumes "same_json (JObj d) (JObj e)" "map_of e k = Some v"
  shows "\<exists>x. map_of d k = Some x \<and> same_json x v"
  using assms(1)
proof cases
  case same_json_refl
  then show ?thesis using assms(2) same_json.same_json_refl by auto
next
  case same_json_obj
  then have "rel_option same_json (map_of d k) (map_of e k)" by blast
  then show ?thesis using assms(2) by (auto simp: option_rel_Some2)
qed

lemma full_header_fields:
  "map_of (full_header B salt key header) ''format'' = Some (JInt 1)"
  "map_of (full_header B salt key header) ''kdf'' =
     Some (JObj ([(''name'', JStr ''scrypt''), (''salt'', JStr (b64encode B salt))] @ SCRYPT))"
  "map_of (full_header B salt key header) ''check'' = Some (JStr (b64encode B (check_value B key)))"
  by (simp_all add: full_header_def dict_update_def update_conv')

lemma same_scalar: "same_json v (JStr x) \<Longrightarrow> v = JStr x" "same_json v (JInt n) \<Longrightarrow> v = JInt n"
  by (auto elim: same_json_StrE same_json_IntE)

lemma unlock_own_header:
  assumes "same_json (JObj h) (JObj (full_header B salt key header))" "b64_ok B" "scrypt B passphrase salt (2 ^ 15) 8 1 = Some key"
  shows "unlock B h passphrase = Inr key"
proof -
  note top = same_field [OF assms(1)]
  obtain k where k: "map_of h ''kdf'' = Some k" "same_json k (JObj ([(''name'', JStr ''scrypt''), (''salt'', JStr (b64encode B salt))] @ SCRYPT))"
    using top [OF full_header_fields(2)] by blast
  obtain kdf where kdf: "k = JObj kdf" using k(2) by (auto elim: same_json_ObjE)
  note fields = same_field [OF k(2) [unfolded kdf]]
  have "map_of kdf ''salt'' = Some (JStr (b64encode B salt))" using fields [of "''salt''"] same_scalar(1) by (auto simp: SCRYPT_def)
  moreover have "map_of kdf ''n'' = Some (JInt (2 ^ 15))" using fields [of "''n''"] same_scalar(2) by (auto simp: SCRYPT_def)
  moreover have "map_of kdf ''r'' = Some (JInt 8)" using fields [of "''r''"] same_scalar(2) by (auto simp: SCRYPT_def)
  moreover have "map_of kdf ''p'' = Some (JInt 1)" using fields [of "''p''"] same_scalar(2) by (auto simp: SCRYPT_def)
  moreover have "map_of h ''check'' = Some (JStr (b64encode B (check_value B key)))" using top [OF full_header_fields(3)] same_scalar(1) by auto
  ultimately show ?thesis
    using k(1) kdf assms(2,3) by (simp add: unlock_def jget_def text_at_def int_at_def need_def b64_ok_def)
qed

lemma read_own_header:
  assumes "header_ok B (full_header B salt key header)"
  shows "\<exists>h. read_header B (backup_head B salt key header @ rest) = Inr (h, sha256 B (backup_head B salt key header), rest) \<and>
    same_json (JObj h) (JObj (full_header B salt key header))"
proof -
  define raw where "raw = dumps B (full_header B salt key header)"
  obtain h where h: "length raw \<le> MAX_HEADER" "loads B raw = Some (JObj h)" "same_json (JObj h) (JObj (full_header B salt key header))"
    using assms by (auto simp: header_ok_def raw_def)
  have "jget h ''format'' = JInt 1" using same_field [OF h(3) full_header_fields(1)] same_scalar(2) by (auto simp: jget_def)
  moreover have "be_val (be 4 (length raw)) = length raw" using h(1) by (intro be_val_be) (simp add: MAX_HEADER_def)
  moreover have "length MAGIC = 8" by (simp add: MAGIC_def)
  ultimately show ?thesis
    using h by (simp add: read_header_def backup_head_def head_bytes_def raw_def [symmetric] Let_def is_format_def)
qed

lemma write_succeeds:
  assumes "scrypt B passphrase salt (2 ^ 15) 8 1 = Some key" "distinct (map fst es)" "\<forall>e \<in> set es. length (utf8 (fst e)) < 65536"
  shows "\<exists>f. write_backup B nonce salt passphrase header es = Inr f"
proof -
  have "\<exists>w. put_entries B nonce es (open_writer B salt key header) = Inr w \<and> w_entry w = None"
    using assms(2,3) by (intro put_entries_ok) (auto simp: open_writer_def Let_def)
  then show ?thesis using assms(1) by (auto simp: write_backup_def close_writer_def Let_def)
qed

lemma read_own_file:
  assumes "all_open B nonce key (sha256 B (backup_head B salt key header)) 0 (backup_chunks B es)" "zlib_ok B" "b64_ok B"
    and "header_ok B (full_header B salt key header)" "scrypt B passphrase salt (2 ^ 15) 8 1 = Some key"
    and "\<forall>e \<in> set es. length (utf8 (fst e)) < 65536"
  shows "read_backup B passphrase (backup_file B nonce salt key header es) = Inr (map (\<lambda>e. (fst e, concat (map (pieces CHUNK) (snd e)))) es)"
proof -
  define digest where "digest = sha256 B (backup_head B salt key header)"
  define f where "f = backup_file B nonce salt key header es"
  have f: "f = backup_head B salt key header @ frames B nonce key digest 0 (backup_chunks B es)"
    by (simp add: f_def backup_file_def digest_def Let_def)
  obtain out u where u: "decompress_all B (decompressobj B) (backup_chunks B es) = Some (out, u)" "out @ flush_out B u = concat (archive_records es)"
    using assms(2) unfolding zlib_ok_def backup_chunks_def by (metis concat_cut)
  obtain outs where outs: "decrypted B key digest 0 (decompressobj B) (frames B nonce key digest 0 (backup_chunks B es)) = (outs, None)"
      "concat outs = concat (archive_records es)" "[] \<notin> set outs"
    using decrypted_frames [OF assms(1) _ u(1)] u(2) by (auto simp: backup_chunks_def digest_def)
  obtain h where "read_header B f = Inr (h, digest, frames B nonce key digest 0 (backup_chunks B es))"
      and same: "same_json (JObj h) (JObj (full_header B salt key header))"
    using read_own_header [OF assms(4)] f digest_def by blast
  then have "open_reader B passphrase f = Inr \<lparr> r_buf = [], r_outs = outs, r_end = None \<rparr>"
    using unlock_own_header [OF same assms(3,5)] outs(1) by (simp add: open_reader_def)
  moreover have "read_entries \<lparr> r_buf = [], r_outs = outs, r_end = None \<rparr> = Inr (map (\<lambda>e. (fst e, concat (map (pieces CHUNK) (snd e)))) es)"
    using outs assms(6) by (intro read_entries_records) (simp_all add: rest_of_def)
  ultimately show ?thesis by (simp add: read_backup_def f_def)
qed

text \<open>
  C11. What was written is what is read: a backup of entries with different names, each given in
  any number of blocks of any size, can be opened with its passphrase and gives every
  entry, in order, with its content.
\<close>

theorem backup_round_trip:
  assumes "gcm_ok B" "zlib_ok B" "b64_ok B" "header_ok B (full_header B salt key header)"
    and "scrypt B passphrase salt (2 ^ 15) 8 1 = Some key" "\<forall>i. length (nonce i) = 12"
    and "distinct (map fst es)" "\<forall>e \<in> set es. length (utf8 (fst e)) < 65536"
  shows "\<exists>f es'. write_backup B nonce salt passphrase header es = Inr f \<and> read_backup B passphrase f = Inr es' \<and>
    map (\<lambda>(name, ds). (name, concat ds)) es' = map (\<lambda>(name, ds). (name, concat ds)) es"
proof -
  obtain f where f: "write_backup B nonce salt passphrase header es = Inr f" using write_succeeds [OF assms(5,7,8)] by blast
  then have file_is: "f = backup_file B nonce salt key header es"
    using writer_refines_file [OF f] assms(2,5) by (auto simp: zlib_ok_def)
  have "all_open B nonce key digest 0 (backup_chunks B es)" for digest
    using assms(1,6) by (intro gcm_all_open) (auto simp: backup_chunks_def dest: cut_length)
  then have "read_backup B passphrase f = Inr (map (\<lambda>e. (fst e, concat (map (pieces CHUNK) (snd e)))) es)"
    unfolding file_is using assms(2-5,8) by (intro read_own_file)
  moreover have "concat (concat (map (pieces CHUNK) ds)) = concat ds" for ds :: "byte list list"
    by (induction ds) (simp_all add: concat_pieces)
  ultimately show ?thesis using f by (auto simp: case_prod_beta)
qed

text \<open>
  Primitives for the examples: no encryption but a tag of zeros, a compressor that stores and
  ends with a zero, a decompressor that holds back the last byte.
\<close>

definition w_store :: "byte list \<Rightarrow> byte list \<Rightarrow> (byte list \<times> byte list) option" where
  "w_store u c = (let x = u @ c in Some (if x = [] then ([], []) else (butlast x, [last x])))"

definition w_base :: "(unit, byte list) primitives" where
  "w_base = \<lparr> scrypt = (\<lambda>_ _ _ _ _. Some [7]), hmac_sha256 = (\<lambda>_ _. []), sha256 = (\<lambda>_. []),
     gcm_encrypt = (\<lambda>_ _ p _. p @ replicate 16 0), gcm_decrypt = (\<lambda>_ _ c _. Some (take (length c - 16) c)),
     compressobj = (), compress = (\<lambda>_ d. (d, ())), flush = (\<lambda>_. [0]),
     decompressobj = [], decompress = w_store, flush_out = (\<lambda>_. []),
     dumps = (\<lambda>_. [1]), loads = (\<lambda>_. None), b64encode = map (\<lambda>b. char_of (unat b)), b64decode = (\<lambda>s. Some (map (\<lambda>c. of_nat (ord_c c)) s)) \<rparr>"

definition w_prims :: "(unit, byte list) primitives" where
  "w_prims = w_base\<lparr> loads := (\<lambda>_. Some (JObj (full_header w_base [] [7] []))) \<rparr>"

lemma w_stores:
  "length u \<le> 1 \<Longrightarrow> decompress B = w_store \<Longrightarrow> \<exists>out v. decompress_all B u cs = Some (out, v) \<and> out @ v = u @ concat cs \<and> length v \<le> 1 \<and>
     (u @ concat cs \<noteq> [] \<longrightarrow> v \<noteq> [])"
proof (induction cs arbitrary: u)
  case (Cons c cs)
  show ?case
  proof (cases "u @ c = []")
    case True
    then show ?thesis using Cons.IH [of "[]"] Cons.prems by (auto simp: w_store_def)
  next
    case False
    then have "decompress B u c = Some (butlast (u @ c), [last (u @ c)])" using Cons.prems by (simp add: w_store_def Let_def)
    moreover obtain out v where "decompress_all B [last (u @ c)] cs = Some (out, v)" "out @ v = [last (u @ c)] @ concat cs" "length v \<le> 1" "v \<noteq> []"
      using Cons.IH [of "[last (u @ c)]"] Cons.prems by auto
    moreover have "butlast (u @ c) @ [last (u @ c)] @ concat cs = u @ concat (c # cs)"
      using append_butlast_last_id [OF False] by (metis append_assoc concat.simps(2))
    ultimately show ?thesis by auto
  qed
qed simp

lemma w_zlib: "decompress B = w_store \<Longrightarrow> compress B = (\<lambda>_ d. (d, ())) \<Longrightarrow> flush B = (\<lambda>_. [0]) \<Longrightarrow> decompressobj B = [] \<Longrightarrow>
  flush_out B = (\<lambda>_. []) \<Longrightarrow> zlib_ok (B :: (unit, byte list) primitives)"
proof -
  assume b: "decompress B = w_store" "compress B = (\<lambda>_ d. (d, ()))" "flush B = (\<lambda>_. [0])" "decompressobj B = []" "flush_out B = (\<lambda>_. [])"
  have all: "compress_all B z ds = (concat ds, ())" for z ds using b(2) by (induction ds arbitrary: z) auto
  show "zlib_ok B"
    unfolding zlib_ok_def
  proof (intro conjI allI impI)
    fix ds cs assume "concat cs = compressed B ds"
    then have cs: "concat cs = concat ds @ [0]" by (simp add: compressed_def all b(3))
    obtain out v where v: "decompress_all B [] cs = Some (out, v)" "out @ v = concat cs" "length v \<le> 1" "v \<noteq> []"
      using w_stores [of "[]" B cs] b(1) cs by auto
    then obtain x where "v = [x]" by (cases v) auto
    then show "\<exists>out u. decompress_all B (decompressobj B) cs = Some (out, u) \<and> out @ flush_out B u = concat ds"
      using v cs b(4,5) by simp
  qed (simp add: b(3))
qed

lemma w_prims_ok: "gcm_ok w_prims" "zlib_ok w_prims" "b64_ok w_prims" "header_ok w_prims (full_header w_prims [] [7] [])"
proof -
  show "gcm_ok w_prims" by (simp add: gcm_ok_def w_prims_def w_base_def)
  show "zlib_ok w_prims" by (rule w_zlib) (simp_all add: w_prims_def w_base_def)
  have "of_nat (unat b) = b" for b :: byte by simp
  moreover have "ord_c (char_of (unat b)) = unat b" for b :: byte using unat_byte [of b] by (simp add: of_char_of)
  ultimately show "b64_ok w_prims" by (simp add: b64_ok_def w_prims_def w_base_def comp_def)
  have "full_header w_prims [] [7] [] = full_header w_base [] [7] []"
    by (simp add: full_header_def w_prims_def check_value_def)
  then show "header_ok w_prims (full_header w_prims [] [7] [])"
    by (simp add: header_ok_def w_prims_def w_base_def same_json_refl MAX_HEADER_def)
qed

theorem backup_round_trip_witness:
  "\<exists>f es'. write_backup w_prims (\<lambda>_. replicate 12 0) [] ''pw'' [] [(''a'', [[1, 2], [3]]), (''b'', [])] = Inr f \<and>
     read_backup w_prims ''pw'' f = Inr es' \<and> map (\<lambda>(name, ds). (name, concat ds)) es' = [(''a'', [1, 2, 3]), (''b'', [])]"
proof -
  have "scrypt w_prims ''pw'' [] (2 ^ 15) 8 1 = Some [7]" by (simp add: w_prims_def w_base_def)
  from backup_round_trip [OF w_prims_ok this, of "\<lambda>_. replicate 12 0" "[(''a'', [[1, 2], [3]]), (''b'', [])]"]
  show ?thesis by (simp add: utf8_def utf8_char_def)
qed

section \<open>No other file opens\<close>

text \<open>Nonce, ciphertext and associated data of the chunks of a file.\<close>

definition sealed_chunks :: "('z, 'u) primitives \<Rightarrow> (nat \<Rightarrow> byte list) \<Rightarrow> byte list \<Rightarrow> byte list \<Rightarrow> byte list list \<Rightarrow>
    (byte list \<times> byte list \<times> byte list) set" where
  "sealed_chunks B nonce key digest cs =
     (\<lambda>i. let a = aad digest i (Suc i = length cs) in (nonce i, gcm_encrypt B key (nonce i) (cs ! i) a, a)) ` {..<length cs}"

lemma aad_inj:
  assumes "aad d i f = aad e j g" "length d = length e" "i < 2 ^ 64" "j < 2 ^ 64"
  shows "d = e \<and> i = j \<and> f = g"
proof -
  have parts: "d = e" "be 8 i = be 8 j" "be 1 (if f then 1 else 0) = be 1 (if g then 1 else 0)"
    using assms(1,2) by (simp_all add: aad_def)
  then have "i = j" using assms(3,4) by (intro be_inj [of 8]) simp_all
  then show ?thesis using parts by (auto split: if_splits)
qed

lemma file_parts:
  assumes "length f \<ge> 17" "length (take len (drop 17 f)) = len" "len = be_val (take 4 f)" "final = be_val (take 1 (drop 4 f))"
  shows "f = be 4 len @ be 1 final @ take 12 (drop 5 f) @ take len (drop 17 f) @ drop (17 + len) f"
proof -
  have l: "length (take 4 f) = 4" "length (take 1 (drop 4 f)) = 1" using assms(1) by auto
  have "take 4 f = be 4 len" "take 1 (drop 4 f) = be 1 final"
    using be_be_val [of "take 4 f", unfolded l(1)] be_be_val [of "take 1 (drop 4 f)", unfolded l(2)] assms(3,4) by metis+
  moreover have "f = take 4 f @ take 1 (drop 4 f) @ take 12 (drop 5 f) @ take len (drop 17 f) @ drop (17 + len) f"
    using append_take_drop_id [of 4 f] append_take_drop_id [of 1 "drop 4 f"] append_take_drop_id [of 12 "drop 5 f"]
      append_take_drop_id [of len "drop 17 f"] by (simp add: add.commute)
  ultimately show ?thesis by simp
qed

text \<open>A generator that returns has gone through frames that opened, up to a last one.\<close>

lemma decrypted_returns:
  assumes "decrypted B k digest i u f = (outs, None)"
  obtains (last) n ct chunk where "length n = 12" "f = be 4 (length ct) @ be 1 1 @ n @ ct" "gcm_decrypt B k n ct (aad digest i True) = Some chunk"
  | (middle) n ct chunk g u' outs' where "length n = 12" "f = be 4 (length ct) @ be 1 0 @ n @ ct @ g"
      "gcm_decrypt B k n ct (aad digest i False) = Some chunk" "decrypted B k digest (Suc i) u' g = (outs', None)" "length g < length f"
proof -
  define len final n ct rest where "len = be_val (take 4 f)" and "final = be_val (take 1 (drop 4 f))" and "n = take 12 (drop 5 f)"
    and "ct = take len (drop 17 f)" and "rest = drop (17 + len) f"
  note names = len_def [symmetric] final_def [symmetric] n_def [symmetric] ct_def [symmetric] rest_def [symmetric]
  note unfolded = assms [unfolded decrypted.simps [of B k digest i u f] Let_def, folded len_def final_def, folded n_def ct_def rest_def]
  have size: "length n = 12" "length ct = len" "final \<le> 1" using unfolded by (auto split: if_splits)
  then have "17 \<le> length f" by (simp add: n_def)
  then have f: "f = be 4 len @ be 1 final @ n @ ct @ rest"
    unfolding n_def ct_def rest_def using size by (intro file_parts) (simp_all add: len_def final_def ct_def)
  obtain chunk out u' where open_: "gcm_decrypt B k n ct (aad digest i (final = 1)) = Some chunk" "decompress B u chunk = Some (out, u')"
    using unfolded by (auto split: if_splits option.splits)
  show thesis
  proof (cases "final = 1")
    case True
    then have "rest = []" using unfolded open_ by (auto split: if_splits)
    then show thesis using last [of n ct chunk] f size open_ True by simp
  next
    case False
    then obtain outs' where "decrypted B k digest (Suc i) u' rest = (outs', None)"
      using unfolded open_ by (auto split: if_splits prod.splits)
    moreover have "length rest < length f" unfolding rest_def using \<open>17 \<le> length f\<close> by simp
    moreover have "final = 0" using False size by simp
    ultimately show thesis using middle [of n ct rest chunk u' outs'] f size open_ by simp
  qed
qed

lemma only_own_chunks:
  assumes "\<forall>k n c a p. gcm_decrypt B k n c a = Some p \<longrightarrow> (n, c, a) \<in> sealed_chunks B nonce key digest cs"
    and "length digest' = length digest" "length cs \<le> 2 ^ 64" "decrypted B k digest' i u f = (outs, None)" "i < length cs"
  shows "digest' = digest \<and> f = frames B nonce key digest i (drop i cs)"
  using assms(4,5)
proof (induction "length f" arbitrary: f i u outs rule: less_induct)
  case less
  have own: "digest' = digest \<and> final = (Suc i = length cs) \<and> n = nonce i \<and> ct = gcm_encrypt B key (nonce i) (cs ! i) (aad digest i final)"
    if opened: "gcm_decrypt B k n ct (aad digest' i final) = Some chunk" for n ct chunk final
  proof -
    obtain j where j: "j < length cs" "n = nonce j" "aad digest' i final = aad digest j (Suc j = length cs)"
        "ct = gcm_encrypt B key (nonce j) (cs ! j) (aad digest j (Suc j = length cs))"
      using assms(1) opened by (force simp: sealed_chunks_def Let_def)
    then show ?thesis using aad_inj [OF j(3) assms(2)] less.prems(2) assms(3) by auto
  qed
  have step: "drop i cs = cs ! i # drop (Suc i) cs" using less.prems(2) by (simp add: Cons_nth_drop_Suc)
  show ?case
    using less.prems(1)
  proof (cases rule: decrypted_returns)
    case (last n ct chunk)
    then have o: "digest' = digest" "Suc i = length cs" "n = nonce i" "ct = gcm_encrypt B key (nonce i) (cs ! i) (aad digest i True)"
      using own [OF last(3)] by auto
    then have "drop (Suc i) cs = []" by simp
    then show ?thesis using o last(2) step by (simp add: frame_def Let_def)
  next
    case (middle n ct chunk g u' outs')
    then have o: "digest' = digest" "Suc i \<noteq> length cs" "n = nonce i" "ct = gcm_encrypt B key (nonce i) (cs ! i) (aad digest i False)"
      using own [OF middle(3)] by auto
    then have "Suc i < length cs" using less.prems(2) by simp
    then have "g = frames B nonce key digest (Suc i) (drop (Suc i) cs)" "drop (Suc i) cs \<noteq> []" using less.hyps [OF middle(5,4)] by auto
    then show ?thesis using o middle(2) step by (simp add: frame_def Let_def frames_Cons)
  qed
qed

lemma read_entries_end: "read_entries r = Inr es \<Longrightarrow> r_end r = None"
proof (induction "length (rest_of r)" arbitrary: r es rule: less_induct)
  case less
  obtain tag r1 where 1: "take_n 1 r = Inr (tag, r1)" using less.prems by (subst (asm) read_entries.simps) (auto split: sum.splits)
  show ?case
  proof (cases "tag = [88]")
    case True
    then have "r_end r1 = None" using less.prems 1 by (subst (asm) read_entries.simps) (auto split: if_splits option.splits)
    then show ?thesis using take_n_rest [OF 1] by simp
  next
    case False
    obtain len r2 raw r3 ds r4 es' where 2: "take_n 2 r1 = Inr (len, r2)" "take_n (be_val len) r2 = Inr (raw, r3)" "read_blocks r3 = Inr (ds, r4)"
        "read_entries r4 = Inr es'"
      using less.prems 1 False by (subst (asm) read_entries.simps) (auto split: if_splits sum.splits option.splits)
    have "length (rest_of r4) < length (rest_of r)"
      using take_n_rest [OF 1] take_n_rest [OF 2(1)] take_n_rest [OF 2(2)] read_blocks_rest [OF 2(3)] by auto
    then have "r_end r4 = None" using less.hyps [OF _ 2(4)] by simp
    then show ?thesis using take_n_rest [OF 1] take_n_rest [OF 2(1)] take_n_rest [OF 2(2)] read_blocks_end [OF 2(3)] by simp
  qed
qed

lemma read_header_parts:
  assumes "read_header B g = Inr (h, digest, rest)"
  shows "\<exists>head. g = head @ rest \<and> digest = sha256 B head"
proof -
  define size where "size = be_val (take 4 (drop 8 g))"
  have "digest = sha256 B (take 8 g @ take 4 (drop 8 g) @ take size (drop 12 g))" "rest = drop (12 + size) g"
    using assms by (auto simp: read_header_def Let_def size_def split: if_splits option.splits json.splits)
  moreover have "g = (take 8 g @ take 4 (drop 8 g) @ take size (drop 12 g)) @ drop (12 + size) g"
    using append_take_drop_id [of 8 g] append_take_drop_id [of 4 "drop 8 g"] append_take_drop_id [of size "drop 12 g"]
    by (simp add: add.commute)
  ultimately show ?thesis by blast
qed


text \<open>The empty archive, with a cipher that opens its one chunk only and a digest that tells its header apart.\<close>

definition w_zeros :: "nat \<Rightarrow> byte list" where
  "w_zeros i = replicate 12 0"

definition w_head :: "byte list" where
  "w_head = backup_head w_prims [] [7] []"

definition w_aad :: "byte list" where
  "w_aad = aad (replicate 32 1) 0 True"

definition w_strict :: "(unit, byte list) primitives" where
  "w_strict = w_prims\<lparr> sha256 := (\<lambda>x. if x = w_head then replicate 32 1 else replicate 32 2),
     gcm_decrypt := (\<lambda>k n c a. if n = w_zeros 0 \<and> c = [88, 0] @ replicate 16 0 \<and> a = w_aad then Some [88, 0] else None) \<rparr>"

lemma w_strict_facts:
  "backup_head w_strict [] [7] [] = w_head" "backup_chunks w_strict [] = [[88, 0]]" "sha256 w_strict w_head = replicate 32 1"
  "gcm_encrypt w_strict k n [88, 0] a = [88, 0] @ replicate 16 0" "scrypt w_strict pw s i j l = Some [7]"
proof -
  have "compressed w_strict (archive_records []) = [88, 0]"
    by (simp add: compressed_def archive_records_def w_strict_def w_prims_def w_base_def)
  moreover have "length [88, 0 :: byte] \<le> CHUNK" by (simp add: CHUNK_def)
  ultimately show "backup_chunks w_strict [] = [[88, 0]]" unfolding backup_chunks_def by (simp only: cut_short)
qed (simp_all add: backup_head_def w_head_def w_strict_def w_prims_def w_base_def)


end
