(* ===== verification/Device_Backups.thy ===== *)
theory Device_Backups
  imports Prelude "HOL-Library.Product_Lexorder"
begin

text \<open>
  The history of the configurations of a device: what a new backup records about the change
  since the previous one (\<^verbatim>\<open>modules/backup/changes.py\<close>), what a group run stores
  (\<^verbatim>\<open>_backup_item\<close> of \<^verbatim>\<open>modules/asset_groups/runs.py\<close>), and what retention removes
  (\<^verbatim>\<open>modules/backup/retention.py\<close>). The comparison of two configurations is an argument: the
  numbers of added and removed lines.
\<close>

section \<open>Tables\<close>

record device_backup =
  db_id :: int
  db_asset :: int
  db_family :: string
  db_config :: string
  db_action :: "int option"
  db_created :: datetime
  db_previous :: "int option"
  db_changed :: "bool option"
  db_added :: "nat option"
  db_removed :: "nat option"
  db_origin :: "string option"
  db_ref :: "string option"
  db_confirmed :: "datetime option"

record hardening_action =
  ha_id :: int
  ha_asset :: int
  ha_status :: string
  ha_type :: string
  ha_completed :: "datetime option"
  ha_executed :: "datetime option"
  ha_created :: datetime

record backup_restore =
  br_id :: int
  br_asset :: int
  br_backup :: "int option"
  br_pre_restore :: "int option"
  br_status :: string
  br_finished :: "datetime option"
  br_created :: datetime

record backup_tables =
  bt_backups :: "device_backup list"
  bt_actions :: "hardening_action list"
  bt_restores :: "backup_restore list"
  bt_days :: "int option"
  bt_next :: int

type_synonym comparison = "string \<Rightarrow> string \<Rightarrow> string \<Rightarrow> nat \<times> nat"

section \<open>What changed\<close>

definition coalesce :: "datetime option list \<Rightarrow> datetime \<Rightarrow> datetime" where
  "coalesce xs d = (case find (\<lambda>x. x \<noteq> None) xs of Some (Some t) \<Rightarrow> t | _ \<Rightarrow> d)"

text \<open>The row with the highest id.\<close>

definition newest :: "('a \<Rightarrow> int) \<Rightarrow> 'a list \<Rightarrow> 'a option" where
  "newest i xs = (case xs of [] \<Rightarrow> None | _ \<Rightarrow> Some (last (sort_key i xs)))"

definition origin_of_change :: "backup_tables \<Rightarrow> int \<Rightarrow> datetime \<Rightarrow> datetime \<Rightarrow> string \<times> string option" where
  "origin_of_change T a since until =
     (let done_at = (\<lambda>h. coalesce [ha_completed h, ha_executed h] (ha_created h));
          restored = (\<lambda>r. coalesce [br_finished r] (br_created r)) in
      case newest ha_id (filter (\<lambda>h. ha_asset h = a \<and> ha_status h = ''success'' \<and> ha_type h \<noteq> ''preview'' \<and>
          since \<le> done_at h \<and> done_at h \<le> until) (bt_actions T)) of
        Some h \<Rightarrow> (''ngcorion'', Some (''hardening:'' @ str_of_int (ha_id h)))
      | None \<Rightarrow> (case newest br_id (filter (\<lambda>r. br_asset r = a \<and> br_status r \<in> {''succeeded'', ''reverted''} \<and>
            since \<le> restored r \<and> restored r \<le> until) (bt_restores T)) of
          Some r \<Rightarrow> (''ngcorion'', Some (''restore:'' @ str_of_int (br_id r)))
        | None \<Rightarrow> (''external'', None)))"

definition latest :: "int \<Rightarrow> datetime option \<Rightarrow> device_backup list \<Rightarrow> device_backup option" where
  "latest a before rows =
     (case filter (\<lambda>b. db_asset b = a \<and> (case before of None \<Rightarrow> True | Some t \<Rightarrow> db_created b \<le> t)) rows of
        [] \<Rightarrow> None
      | xs \<Rightarrow> Some (last (sort_key (\<lambda>b. (db_created b, db_id b)) xs)))"

definition note_change :: "comparison \<Rightarrow> backup_tables \<Rightarrow> device_backup \<Rightarrow> device_backup option \<Rightarrow> device_backup" where
  "note_change compare T b previous = (case previous of
     None \<Rightarrow> b\<lparr> db_changed := None, db_origin := Some ''first'' \<rparr>
   | Some p \<Rightarrow>
     let b = b\<lparr> db_previous := Some (db_id p) \<rparr>;
         (added, removed) = compare (if db_family b = [] then db_family p else db_family b) (db_config p) (db_config b)
     in if added = 0 \<and> removed = 0
       then b\<lparr> db_changed := Some False, db_added := Some 0, db_removed := Some 0, db_origin := Some ''unchanged'' \<rparr>
       else let since = (case db_confirmed p of None \<Rightarrow> db_created p | Some t \<Rightarrow> t);
                (kind, ref) = origin_of_change T (db_asset b) since (db_created b)
         in b\<lparr> db_changed := Some True, db_added := Some added, db_removed := Some removed, db_origin := Some kind, db_ref := ref \<rparr>)"

definition add_backup :: "device_backup \<Rightarrow> backup_tables \<Rightarrow> backup_tables" where
  "add_backup b T = T\<lparr> bt_backups := bt_backups T @ [b\<lparr> db_id := bt_next T \<rparr>], bt_next := bt_next T + 1 \<rparr>"

definition fresh_backup :: "int \<Rightarrow> string \<Rightarrow> string \<Rightarrow> int option \<Rightarrow> datetime \<Rightarrow> device_backup" where
  "fresh_backup a family config action now = \<lparr> db_id = 0, db_asset = a, db_family = family, db_config = config, db_action = action,
     db_created = now, db_previous = None, db_changed = None, db_added = None, db_removed = None, db_origin = None, db_ref = None,
     db_confirmed = None \<rparr>"

text \<open>A backup taken by hand, before hardening or before a restore: the hook \<^verbatim>\<open>_note_change\<close> compares it when it is saved.\<close>

definition save_backup :: "comparison \<Rightarrow> device_backup \<Rightarrow> backup_tables \<Rightarrow> backup_tables" where
  "save_backup compare b T = add_backup (note_change compare T b (latest (db_asset b) (Some (db_created b)) (bt_backups T))) T"

text \<open>A backup of a group run: an unchanged configuration is not stored again.\<close>

definition confirm :: "int \<Rightarrow> datetime \<Rightarrow> backup_tables \<Rightarrow> backup_tables" where
  "confirm i now T = T\<lparr> bt_backups := map (\<lambda>b. if db_id b = i then b\<lparr> db_confirmed := Some now \<rparr> else b) (bt_backups T) \<rparr>"

definition scheduled_backup :: "comparison \<Rightarrow> int \<Rightarrow> string \<Rightarrow> string \<Rightarrow> datetime \<Rightarrow> backup_tables \<Rightarrow> string \<times> backup_tables" where
  "scheduled_backup compare a family config now T =
     (let previous = latest a None (bt_backups T);
          b = note_change compare T (fresh_backup a family config None now) previous in
      case previous of
        None \<Rightarrow> (''first'', add_backup b T)
      | Some p \<Rightarrow> if db_origin b = Some ''unchanged'' then (''unchanged'', confirm (db_id p) now T) else (''changed'', add_backup b T))"

section \<open>Retention\<close>

definition MIN_DAYS :: int where "MIN_DAYS = 7"
definition MAX_DAYS :: int where "MAX_DAYS = 3650"

definition get_days :: "backup_tables \<Rightarrow> int" where
  "get_days T = (case bt_days T of None \<Rightarrow> 90 | Some n \<Rightarrow> n)"

definition save_days :: "int \<Rightarrow> backup_tables \<Rightarrow> backup_tables" where
  "save_days n T = T\<lparr> bt_days := Some (max MIN_DAYS (min n MAX_DAYS)) \<rparr>"

definition used_backups :: "backup_tables \<Rightarrow> int list" where
  "used_backups T = concat (map (\<lambda>r. (case br_backup r of None \<Rightarrow> [] | Some i \<Rightarrow> [i]) @ (case br_pre_restore r of None \<Rightarrow> [] | Some i \<Rightarrow> [i])) (bt_restores T))"

definition prunable :: "datetime \<Rightarrow> backup_tables \<Rightarrow> device_backup \<Rightarrow> bool" where
  "prunable now T b =
     (let before = now - days (get_days T) in
      db_created b < before \<and> db_changed b = Some False \<and> db_action b = None \<and>
      (\<exists>c \<in> set (bt_backups T). db_asset c = db_asset b \<and> db_id b < db_id c) \<and>
      db_id b \<notin> set (used_backups T) \<and>
      (case db_confirmed b of None \<Rightarrow> True | Some t \<Rightarrow> t < before))"

definition forget_previous :: "int list \<Rightarrow> device_backup \<Rightarrow> device_backup" where
  "forget_previous ids b = (case db_previous b of None \<Rightarrow> b | Some i \<Rightarrow> if i \<in> set ids then b\<lparr> db_previous := None \<rparr> else b)"

definition prune :: "datetime \<Rightarrow> backup_tables \<Rightarrow> nat \<times> backup_tables" where
  "prune now T =
     (let ids = map db_id (filter (prunable now T) (bt_backups T)) in
      (length ids, T\<lparr> bt_backups := map (forget_previous ids) (filter (\<lambda>b. db_id b \<notin> set ids) (bt_backups T)) \<rparr>))"

text \<open>Deleting one backup by hand; the references to it are set to null.\<close>

definition clear_ref :: "int \<Rightarrow> int option \<Rightarrow> int option" where
  "clear_ref i x = (if x = Some i then None else x)"

definition delete_backup :: "int \<Rightarrow> backup_tables \<Rightarrow> backup_tables" where
  "delete_backup i T = T\<lparr> bt_backups := map (forget_previous [i]) (filter (\<lambda>b. db_id b \<noteq> i) (bt_backups T)),
     bt_restores := map (\<lambda>r. r\<lparr> br_backup := clear_ref i (br_backup r), br_pre_restore := clear_ref i (br_pre_restore r) \<rparr>) (bt_restores T) \<rparr>"

section \<open>No configuration is lost\<close>

text \<open>
  The life of the tables together with every configuration a device was found with: backups
  and confirmations, actions and restores of other modules, changed settings, retention, and
  the deletion of a device with all its backups. (Deleting a single backup is left out: it is
  how a person removes a configuration on purpose.)
\<close>

inductive backup_step :: "comparison \<Rightarrow> backup_tables \<times> (int \<times> string) list \<Rightarrow> backup_tables \<times> (int \<times> string) list \<Rightarrow> bool" for compare where
  saves: "backup_step compare (T, seen) (save_backup compare (fresh_backup a family config action now) T, (a, config) # seen)"
| schedules: "backup_step compare (T, seen) (snd (scheduled_backup compare a family config now T), (a, config) # seen)"
| prunes: "backup_step compare (T, seen) (snd (prune now T), seen)"
| sets_days: "backup_step compare (T, seen) (save_days n T, seen)"
| others: "backup_step compare (T, seen) (T\<lparr> bt_actions := hs, bt_restores := rs \<rparr>, seen)"
| deletes_asset: "backup_step compare (T, seen) (T\<lparr> bt_backups := filter (\<lambda>b. db_asset b \<noteq> a) (bt_backups T) \<rparr>, filter (\<lambda>s. fst s \<noteq> a) seen)"

definition backup_init :: "backup_tables \<times> (int \<times> string) list \<Rightarrow> bool" where
  "backup_init s \<longleftrightarrow> bt_backups (fst s) = [] \<and> snd s = []"

text \<open>Two configurations between which the comparison of some family finds no difference.\<close>

definition unchanged :: "comparison \<Rightarrow> string \<Rightarrow> string \<Rightarrow> bool" where
  "unchanged compare x y \<longleftrightarrow> x = y \<or> (\<exists>family. compare family x y = (0, 0))"

definition versions_kept :: "comparison \<Rightarrow> backup_tables \<times> (int \<times> string) list \<Rightarrow> bool" where
  "versions_kept compare s \<longleftrightarrow> distinct (map db_id (bt_backups (fst s))) \<and> (\<forall>b \<in> set (bt_backups (fst s)). db_id b < bt_next (fst s)) \<and>
     (\<forall>b \<in> set (bt_backups (fst s)). (db_asset b, db_config b) \<in> set (snd s)) \<and>
     (\<forall>(a, x) \<in> set (snd s). \<exists>c \<in> set (bt_backups (fst s)). db_asset c = a \<and> db_changed c \<noteq> Some False \<and> unchanged compare (db_config c) x)"

lemma latest_in: "latest a t rows = Some p \<Longrightarrow> p \<in> set rows \<and> db_asset p = a"
proof -
  assume l: "latest a t rows = Some p"
  define xs where "xs = filter (\<lambda>b. db_asset b = a \<and> (case t of None \<Rightarrow> True | Some u \<Rightarrow> db_created b \<le> u)) rows"
  have "xs \<noteq> []" "p = last (sort_key (\<lambda>b. (db_created b, db_id b)) xs)" using l by (auto simp: latest_def xs_def split: list.splits)
  then have "p \<in> set (sort_key (\<lambda>b. (db_created b, db_id b)) xs)" by (metis last_in_set length_0_conv length_sort)
  then show ?thesis by (simp add: xs_def)
qed

lemma note_change_same: "db_asset (note_change compare T b p) = db_asset b" "db_config (note_change compare T b p) = db_config b"
  by (auto simp: note_change_def Let_def split: option.splits prod.splits)

lemma note_change_unchanged:
  assumes "db_changed b = None" "db_changed (note_change compare T b previous) = Some False"
  shows "\<exists>p. previous = Some p \<and> unchanged compare (db_config p) (db_config b)"
  using assms by (auto simp: note_change_def Let_def unchanged_def split: option.splits prod.splits if_splits)

lemma note_change_origin:
  assumes "db_origin (note_change compare T b previous) = Some ''unchanged''" "previous = Some p"
  shows "unchanged compare (db_config p) (db_config b)"
proof -
  have "fst (origin_of_change T a s u) \<noteq> ''unchanged''" for a s u by (simp add: origin_of_change_def Let_def split: option.splits)
  then show ?thesis using assms
    by (auto simp: note_change_def Let_def unchanged_def split: prod.splits if_splits) (metis fst_conv)+
qed

lemma kept_add:
  assumes "versions_kept compare (T, seen)" "db_asset b = a" "db_config b = x"
    and "db_changed b = Some False \<Longrightarrow> \<exists>c \<in> set (bt_backups T). db_asset c = a \<and> db_changed c \<noteq> Some False \<and> unchanged compare (db_config c) x"
  shows "versions_kept compare (add_backup b T, (a, x) # seen)"
proof -
  have "\<exists>c \<in> set (bt_backups T @ [b\<lparr> db_id := bt_next T \<rparr>]). db_asset c = a \<and> db_changed c \<noteq> Some False \<and> unchanged compare (db_config c) x"
    using assms(2-4) by (cases "db_changed b = Some False") (auto simp: unchanged_def)
  then show ?thesis using assms(1-3) by (fastforce simp: versions_kept_def add_backup_def)
qed

text \<open>The backup compared with stands for a version that is kept.\<close>

lemma kept_version:
  assumes "versions_kept compare (T, seen)" "p \<in> set (bt_backups T)" "unchanged compare (db_config p) x"
    and "transp (unchanged compare)"
  shows "\<exists>c \<in> set (bt_backups T). db_asset c = db_asset p \<and> db_changed c \<noteq> Some False \<and> unchanged compare (db_config c) x"
proof -
  have "(db_asset p, db_config p) \<in> set seen" using assms(1,2) by (simp add: versions_kept_def)
  then obtain c where "c \<in> set (bt_backups T)" "db_asset c = db_asset p" "db_changed c \<noteq> Some False" "unchanged compare (db_config c) (db_config p)"
    using assms(1) by (fastforce simp: versions_kept_def)
  then show ?thesis using assms(3,4) by (blast dest: transpD)
qed

lemma kept_same_rows:
  assumes "versions_kept compare (T, seen)" "map db_id (bt_backups U) = map db_id (bt_backups T)" "bt_next U = bt_next T"
    and "map (\<lambda>b. (db_asset b, db_config b, db_changed b)) (bt_backups U) = map (\<lambda>b. (db_asset b, db_config b, db_changed b)) (bt_backups T)"
  shows "versions_kept compare (U, seen)"
proof -
  have same: "(\<lambda>b. (db_asset b, db_config b, db_changed b)) ` set (bt_backups U) = (\<lambda>b. (db_asset b, db_config b, db_changed b)) ` set (bt_backups T)"
    using arg_cong [OF assms(4), of set] by simp
  have "db_id ` set (bt_backups U) = db_id ` set (bt_backups T)" using arg_cong [OF assms(2), of set] by simp
  then have "\<forall>b \<in> set (bt_backups U). db_id b < bt_next U" using assms(1,3) unfolding versions_kept_def by (metis (no_types, lifting) fst_conv imageE imageI)
  moreover have "\<forall>b \<in> set (bt_backups U). (db_asset b, db_config b) \<in> set seen"
  proof
    fix b assume "b \<in> set (bt_backups U)"
    then have "(db_asset b, db_config b, db_changed b) \<in> (\<lambda>b. (db_asset b, db_config b, db_changed b)) ` set (bt_backups T)" using same by blast
    then show "(db_asset b, db_config b) \<in> set seen" using assms(1) by (auto simp: versions_kept_def)
  qed
  moreover have "\<exists>c \<in> set (bt_backups U). db_asset c = a \<and> db_changed c \<noteq> Some False \<and> unchanged compare (db_config c) x" if seen: "(a, x) \<in> set seen" for a x
  proof -
    obtain c where c: "c \<in> set (bt_backups T)" "db_asset c = a" "db_changed c \<noteq> Some False" "unchanged compare (db_config c) x"
      using assms(1) seen by (fastforce simp: versions_kept_def)
    then have "(db_asset c, db_config c, db_changed c) \<in> (\<lambda>b. (db_asset b, db_config b, db_changed b)) ` set (bt_backups U)" using same by blast
    then show ?thesis using c by auto
  qed
  ultimately show ?thesis using assms(1,2) by (auto simp: versions_kept_def)
qed

lemma forget_previous_same [simp]:
  "db_id (forget_previous is b) = db_id b" "db_asset (forget_previous is b) = db_asset b" "db_config (forget_previous is b) = db_config b"
  "db_changed (forget_previous is b) = db_changed b" "db_created (forget_previous is b) = db_created b"
  by (auto simp: forget_previous_def split: option.splits)

lemma prune_kept:
  assumes "versions_kept compare (T, seen)"
  shows "versions_kept compare (snd (prune now T), seen)"
proof -
  define ids where "ids = map db_id (filter (prunable now T) (bt_backups T))"
  define U where "U = T\<lparr> bt_backups := filter (\<lambda>b. db_id b \<notin> set ids) (bt_backups T) \<rparr>"
  have stays: "c \<in> set (bt_backups U)" if "c \<in> set (bt_backups T)" "db_changed c \<noteq> Some False" for c
  proof -
    have "b = c" if "b \<in> set (bt_backups T)" "db_id b = db_id c" for b
      using assms that \<open>c \<in> set (bt_backups T)\<close> by (auto simp: versions_kept_def distinct_map dest: inj_onD)
    then have "db_id c \<notin> set ids" using that(2) by (auto simp: ids_def prunable_def Let_def)
    then show ?thesis using that(1) by (simp add: U_def)
  qed
  have "versions_kept compare (U, seen)"
    unfolding versions_kept_def
  proof (intro conjI)
    show "\<forall>(a, x) \<in> set (snd (U, seen)). \<exists>c \<in> set (bt_backups (fst (U, seen))).
        db_asset c = a \<and> db_changed c \<noteq> Some False \<and> unchanged compare (db_config c) x"
      using assms stays by (fastforce simp: versions_kept_def)
  qed (use assms in \<open>auto simp: versions_kept_def U_def distinct_map_filter\<close>)
  then show ?thesis
    by (rule kept_same_rows) (simp_all add: prune_def Let_def ids_def U_def comp_def)
qed

lemma backup_step_kept:
  assumes "transp (unchanged compare)" "backup_step compare s t" "versions_kept compare s"
  shows "versions_kept compare t"
  using assms(2,3)
proof (induction rule: backup_step.induct)
  case (saves T seen a family config action now)
  define b where "b = fresh_backup a family config action now"
  define c where "c = note_change compare T b (latest a (Some now) (bt_backups T))"
  have "versions_kept compare (add_backup c T, (a, config) # seen)"
  proof (rule kept_add [OF saves])
    assume "db_changed c = Some False"
    then obtain p where "latest a (Some now) (bt_backups T) = Some p" "unchanged compare (db_config p) config"
      using note_change_unchanged [of b compare T "latest a (Some now) (bt_backups T)"] by (auto simp: c_def b_def fresh_backup_def)
    then show "\<exists>c \<in> set (bt_backups T). db_asset c = a \<and> db_changed c \<noteq> Some False \<and> unchanged compare (db_config c) config"
      using kept_version [OF saves _ _ assms(1)] latest_in by blast
  qed (simp_all add: c_def note_change_same b_def fresh_backup_def)
  then show ?case by (simp add: save_backup_def c_def b_def fresh_backup_def)
next
  case (schedules T seen a family config now)
  define b where "b = note_change compare T (fresh_backup a family config None now) (latest a None (bt_backups T))"
  have new: "versions_kept compare (add_backup b T, (a, config) # seen)"
  proof (rule kept_add [OF schedules])
    assume "db_changed b = Some False"
    then obtain p where "latest a None (bt_backups T) = Some p" "unchanged compare (db_config p) config"
      using note_change_unchanged [of "fresh_backup a family config None now" compare T "latest a None (bt_backups T)"] by (auto simp: b_def fresh_backup_def)
    then show "\<exists>c \<in> set (bt_backups T). db_asset c = a \<and> db_changed c \<noteq> Some False \<and> unchanged compare (db_config c) config"
      using kept_version [OF schedules _ _ assms(1)] latest_in by blast
  qed (simp_all add: b_def note_change_same fresh_backup_def)
  have "versions_kept compare (confirm (db_id p) now T, (a, config) # seen)"
    if p: "latest a None (bt_backups T) = Some p" "db_origin b = Some ''unchanged''" for p
  proof -
    have "unchanged compare (db_config p) config" using note_change_origin [of compare T "fresh_backup a family config None now" "Some p" p] p by (simp add: b_def fresh_backup_def)
    then have "\<exists>c \<in> set (bt_backups T). db_asset c = a \<and> db_changed c \<noteq> Some False \<and> unchanged compare (db_config c) config"
      using kept_version [OF schedules _ _ assms(1)] latest_in [OF p(1)] by blast
    then have "versions_kept compare (T, (a, config) # seen)" using schedules by (auto simp: versions_kept_def)
    then show ?thesis by (rule kept_same_rows) (simp_all add: confirm_def)
  qed
  then show ?case using new unfolding scheduled_backup_def Let_def b_def [symmetric]
    by (cases "latest a None (bt_backups T)") simp_all
next
  case (prunes T seen now)
  then show ?case by (rule prune_kept)
next
  case (sets_days T seen n)
  then show ?case by (rule kept_same_rows) (simp_all add: save_days_def)
next
  case (others T seen hs rs)
  then show ?case by (rule kept_same_rows) simp_all
next
  case (deletes_asset T seen a)
  then show ?case by (fastforce simp: versions_kept_def distinct_map_filter)
qed

lemma backup_invariant: "transp (unchanged compare) \<Longrightarrow> invariant backup_init (backup_step compare) (versions_kept compare)"
proof
  assume compare: "transp (unchanged compare)"
  show "versions_kept compare s" if "backup_init s" for s using that by (simp add: backup_init_def versions_kept_def)
  show "versions_kept compare t" if "versions_kept compare s" "backup_step compare s t" for s t
    using backup_step_kept [OF compare that(2,1)] .
qed


definition w_compare :: comparison where
  "w_compare family x y = (if x = y then (0, 0) else (1, 1))"

definition w_empty :: backup_tables where
  "w_empty = \<lparr> bt_backups = [], bt_actions = [], bt_restores = [], bt_days = None, bt_next = 1 \<rparr>"

definition w_twice :: backup_tables where
  "w_twice = save_backup w_compare (fresh_backup 5 ''f'' ''x'' None 1) (save_backup w_compare (fresh_backup 5 ''f'' ''x'' None 0) w_empty)"

definition w_then :: backup_tables where
  "w_then = snd (scheduled_backup w_compare 5 ''f'' ''y'' 2 w_twice)"


text \<open>
  Once a person deletes the backup a version was first stored in, the later copies are still
  marked as repetitions and retention removes them, the last copy of that version included.
\<close>

theorem version_lost_after_deletion:
  "(\<exists>c \<in> set (bt_backups (delete_backup 1 w_then)). db_config c = ''x'') \<and>
   \<not> (\<exists>c \<in> set (bt_backups (snd (prune (days 100) (delete_backup 1 w_then)))). db_config c = ''x'')"
  by code_simp

end
