(* ===== verification/Group_Runs.thy ===== *)
theory Group_Runs
  imports Prelude
begin

text \<open>
  Group runs, \<^verbatim>\<open>modules/asset_groups/runs.py\<close>: one audit or backup of every asset of a group, a
  few at a time. The queue is two tables; a worker sweeps them every two seconds, claims as
  many items as each run allows and gives them to a pool of threads. What happens on a device
  is the outcome of its item, an argument. The members of a group are an argument of
  \<open>start_run\<close>, the technologies that exist a list.
\<close>

section \<open>Tables\<close>

datatype run_status = Run_queued | Run_running | Run_stopping | Run_stopped | Run_done

datatype item_status = Item_queued | Item_running | Item_done | Item_failed | Item_skipped | Item_cancelled

record group_run =
  gr_id :: int
  gr_kind :: string
  gr_technology :: string
  gr_profile :: "int option"
  gr_concurrency :: int
  gr_status :: run_status
  gr_started :: "datetime option"
  gr_finished :: "datetime option"

record run_item =
  it_id :: int
  it_run :: int
  it_asset :: "int option"
  it_ip :: "string option"
  it_status :: item_status
  it_reason :: "string option"
  it_detail :: "string option"
  it_session :: "int option"
  it_attempts :: nat
  it_claimed :: bool
  it_started :: "datetime option"
  it_finished :: "datetime option"

record run_tables =
  rt_runs :: "group_run list"
  rt_items :: "run_item list"
  rt_next_run :: int
  rt_next_item :: int

datatype run_error = Cannot_back_up | Other_kind | Cannot_audit | No_assets | Too_many_assets | Wait_or_stop

definition MAX_CONCURRENCY :: int where "MAX_CONCURRENCY = 50"
definition MAX_ASSETS :: nat where "MAX_ASSETS = 5000"
definition FAMILIES :: "string list" where "FAMILIES = [''cisco'', ''fortinet'', ''linux'', ''apache'', ''mongodb'']"

definition TECH_KIND :: "(string \<times> string) list" where
  "TECH_KIND = map (\<lambda>t. (t, ''ssh'')) [''cisco'', ''fortinet'', ''linux'', ''apache'', ''mongodb'', ''docker'', ''kubernetes'', ''mysql'', ''esxi'', ''nginx''] @
     map (\<lambda>t. (t, ''winrm'')) [''windows'', ''active_directory'', ''dns_server'', ''dhcp_server'', ''iis''] @
     [(''mssql'', ''mssql''), (''sophos'', ''sophos_api'')]"

definition run_active :: "group_run \<Rightarrow> bool" where
  "run_active r \<longleftrightarrow> gr_status r \<in> {Run_queued, Run_running, Run_stopping}"

section \<open>Why an item failed\<close>

definition AUTH :: "string list" where
  "AUTH = [''authentication'', ''auth failed'', ''login failed'', ''login rejected'', ''permission denied'', ''access denied'',
     ''sudo was refused'', ''unauthorized'', ''401'', ''invalid credentials'', ''logon failure'', ''permissionerror'']"

definition UNREACHABLE :: "string list" where
  "UNREACHABLE = [''timed out'', ''timeout'', ''unreachable'', ''connection refused'', ''no route'', ''connectionerror'',
     ''could not connect'', ''connection failed'', ''name or service not known'', ''network'', ''connection reset'', ''eof'', ''unable to connect'']"

definition classify :: "string option \<Rightarrow> string" where
  "classify d = (let t = py_lower (case d of None \<Rightarrow> [] | Some s \<Rightarrow> s) in
     if list_ex (\<lambda>m. sublist m t) AUTH then ''auth'' else if list_ex (\<lambda>m. sublist m t) UNREACHABLE then ''unreachable'' else ''error'')"

text \<open>An exception: the name of its class, its text and whether it is a \<^verbatim>\<open>PermissionError\<close>.\<close>

record raised =
  ex_class :: string
  ex_text :: string
  ex_permission :: bool

definition clean :: "raised \<Rightarrow> string" where
  "clean e = (if list_ex (\<lambda>k. sublist k (py_lower (ex_text e))) [''password'', ''secret'', ''token'']
     then ex_class e @ '': Authentication or connection error'' else take 500 (ex_class e @ '': '' @ ex_text e))"

section \<open>Starting, stopping, trying again\<close>

record start_request =
  st_kind :: string
  st_technology :: string
  st_profile :: int
  st_profile_kind :: string
  st_concurrency :: int
  st_only :: "int list option"

definition check_start :: "string list \<Rightarrow> start_request \<Rightarrow> (run_error, unit) result" where
  "check_start technologies q =
     (if st_kind q = ''backup'' then
        if st_technology q \<notin> set FAMILIES then Inl Cannot_back_up
        else if st_profile_kind q \<noteq> ''ssh'' then Inl Other_kind else Inr ()
      else case map_of TECH_KIND (st_technology q) of
          None \<Rightarrow> Inl Cannot_audit
        | Some k \<Rightarrow> if st_technology q \<notin> set technologies then Inl Cannot_audit
            else if k \<noteq> st_profile_kind q then Inl Other_kind else Inr ())"

text \<open>The items of the assets that exist, in the order of their ids, numbered from \<open>n\<close>.\<close>

fun new_items :: "int \<Rightarrow> datetime \<Rightarrow> int \<Rightarrow> (int \<times> string option) list \<Rightarrow> run_item list" where
  "new_items r now n [] = []"
| "new_items r now n ((a, ip) # rest) =
     (let i = \<lparr> it_id = n, it_run = r, it_asset = Some a, it_ip = ip, it_status = Item_queued, it_reason = None, it_detail = None,
          it_session = None, it_attempts = 0, it_claimed = False, it_started = None, it_finished = None \<rparr>;
          missing = py_strip (case ip of None \<Rightarrow> [] | Some s \<Rightarrow> s) = [] in
      (if missing then i\<lparr> it_status := Item_skipped, it_reason := Some ''no_address'', it_finished := Some now \<rparr> else i) # new_items r now (n + 1) rest)"

definition start_run :: "string list \<Rightarrow> int list \<Rightarrow> (int \<times> string option) list \<Rightarrow> datetime \<Rightarrow> start_request \<Rightarrow> run_tables \<Rightarrow>
    (run_error, run_tables) result" where
  "start_run technologies members assets now q T =
     res_bind (check_start technologies q) (\<lambda>_.
       let ids = (case st_only q of None \<Rightarrow> members | Some wanted \<Rightarrow> filter (\<lambda>i. i \<in> set wanted) members) in
       if ids = [] then Inl No_assets
       else if MAX_ASSETS < length ids then Inl Too_many_assets
       else
         let run = \<lparr> gr_id = rt_next_run T, gr_kind = st_kind q, gr_technology = st_technology q, gr_profile = Some (st_profile q),
               gr_concurrency = max 1 (min (if st_concurrency q = 0 then 10 else st_concurrency q) MAX_CONCURRENCY),
               gr_status = Run_queued, gr_started = None, gr_finished = None \<rparr>;
             rows = sort_key fst (filter (\<lambda>a. fst a \<in> set ids) assets);
             items = new_items (gr_id run) now (rt_next_item T) rows
         in Inr (T\<lparr> rt_runs := rt_runs T @ [run], rt_items := rt_items T @ items, rt_next_run := rt_next_run T + 1,
              rt_next_item := rt_next_item T + int (length items) \<rparr>))"

definition update_run :: "int \<Rightarrow> (group_run \<Rightarrow> group_run) \<Rightarrow> run_tables \<Rightarrow> run_tables" where
  "update_run i f T = T\<lparr> rt_runs := map (\<lambda>r. if gr_id r = i then f r else r) (rt_runs T) \<rparr>"

definition update_items :: "(run_item \<Rightarrow> bool) \<Rightarrow> (run_item \<Rightarrow> run_item) \<Rightarrow> run_tables \<Rightarrow> run_tables" where
  "update_items P f T = T\<lparr> rt_items := map (\<lambda>i. if P i then f i else i) (rt_items T) \<rparr>"

definition of_run :: "int \<Rightarrow> item_status \<Rightarrow> run_item \<Rightarrow> bool" where
  "of_run r s i \<longleftrightarrow> it_run i = r \<and> it_status i = s"

definition count_items :: "int \<Rightarrow> item_status \<Rightarrow> run_tables \<Rightarrow> nat" where
  "count_items r s T = length (filter (of_run r s) (rt_items T))"

definition stop_run :: "group_run \<Rightarrow> group_run" where
  "stop_run r = (if gr_status r \<in> {Run_queued, Run_running} then r\<lparr> gr_status := Run_stopping \<rparr> else r)"

definition requeue :: "run_item \<Rightarrow> run_item" where
  "requeue i = i\<lparr> it_status := Item_queued, it_reason := None, it_detail := None, it_started := None, it_finished := None, it_claimed := False \<rparr>"

definition retry_failed :: "group_run \<Rightarrow> run_tables \<Rightarrow> (run_error, nat \<times> run_tables) result" where
  "retry_failed r T =
     (if run_active r then Inl Wait_or_stop
      else let n = count_items (gr_id r) Item_failed T; T = update_items (of_run (gr_id r) Item_failed) requeue T
        in Inr (n, if 0 < n then update_run (gr_id r) (\<lambda>r. r\<lparr> gr_status := Run_running, gr_finished := None \<rparr>) T else T))"

definition interrupt :: "datetime \<Rightarrow> run_item \<Rightarrow> run_item" where
  "interrupt now i = i\<lparr> it_status := Item_failed, it_reason := Some ''interrupted'', it_finished := Some now,
     it_detail := Some ''NGCorion restarted while this asset was being processed'' \<rparr>"

definition recover_interrupted :: "datetime \<Rightarrow> run_tables \<Rightarrow> run_tables" where
  "recover_interrupted now T = update_items (\<lambda>i. it_status i = Item_running) (interrupt now) T"

section \<open>One asset\<close>

text \<open>What happens on a device: an audit ends in a session (its id and its connection error) or raises; a backup gives a
  text or raises.\<close>

datatype outcome =
  Not_licensed string
| Audit_raised raised "(int \<times> string option) option"
| Audit_failed int "string option"
| Audit_done int
| Backup_raised raised
| Backup_empty
| Backup_stored
| Internal_error

definition finish :: "datetime \<Rightarrow> item_status \<Rightarrow> string option \<Rightarrow> string option \<Rightarrow> int option \<Rightarrow> run_item \<Rightarrow> run_item" where
  "finish now s reason detail_text session i = i\<lparr> it_status := s, it_reason := reason, it_detail := detail_text, it_finished := Some now,
     it_session := (case session of None \<Rightarrow> it_session i | Some n \<Rightarrow> Some n) \<rparr>"

definition conclude :: "datetime \<Rightarrow> outcome \<Rightarrow> run_item \<Rightarrow> run_item" where
  "conclude now out i = (case out of
     Not_licensed why \<Rightarrow> finish now Item_skipped (Some ''license'') (Some (take 500 why)) None i
   | Audit_raised e session \<Rightarrow>
       (let d = (case session of Some (n, Some c) \<Rightarrow> if c \<noteq> [] then c else clean e | _ \<Rightarrow> clean e) in
        finish now Item_failed (Some (if ex_permission e then ''auth'' else classify (Some d))) (Some d) (map_option fst session) i)
   | Audit_failed n c \<Rightarrow> finish now Item_failed (Some (classify c)) c (Some n) i
   | Audit_done n \<Rightarrow> finish now Item_done None None (Some n) i
   | Backup_raised e \<Rightarrow>
       finish now Item_failed (Some (if ex_permission e then ''auth'' else classify (Some (ex_class e @ '' '' @ clean e)))) (Some (clean e)) None i
   | Backup_empty \<Rightarrow> finish now Item_failed (Some ''error'') (Some ''The device returned an empty configuration'') None i
   | Backup_stored \<Rightarrow> finish now Item_done None None None i
   | Internal_error \<Rightarrow> if it_status i = Item_running then finish now Item_failed (Some ''error'') (Some ''Internal error'') None i else i)"

definition run_item_row :: "datetime \<Rightarrow> outcome \<Rightarrow> group_run \<Rightarrow> run_item \<Rightarrow> run_item" where
  "run_item_row now out r i =
     (if gr_status r = Run_stopping then finish now Item_cancelled None None None i
      else if gr_profile r = None then finish now Item_failed (Some ''error'') (Some ''The credential profile was deleted'') None i
      else if it_asset i = None then finish now Item_failed (Some ''error'') (Some ''The asset was deleted'') None i
      else conclude now out i)"

definition run_of :: "run_tables \<Rightarrow> int \<Rightarrow> group_run option" where
  "run_of T i = find (\<lambda>r. gr_id r = i) (rt_runs T)"

definition run_one :: "datetime \<Rightarrow> outcome \<Rightarrow> int \<Rightarrow> run_tables \<Rightarrow> run_tables" where
  "run_one now out n T =
     update_items (\<lambda>i. it_id i = n) (\<lambda>i. case run_of T (it_run i) of None \<Rightarrow> i | Some r \<Rightarrow> run_item_row now out r i) T"

section \<open>The sweep\<close>

definition claim :: "datetime \<Rightarrow> run_item \<Rightarrow> run_item" where
  "claim now i = i\<lparr> it_status := Item_running, it_claimed := True, it_started := Some now, it_attempts := it_attempts i + 1 \<rparr>"

definition cancel :: "datetime \<Rightarrow> run_item \<Rightarrow> run_item" where
  "cancel now i = i\<lparr> it_status := Item_cancelled, it_finished := Some now \<rparr>"

definition claimable :: "group_run \<Rightarrow> run_tables \<Rightarrow> int list" where
  "claimable r T = take (nat (gr_concurrency r - int (count_items (gr_id r) Item_running T)))
     (sort (map it_id (filter (of_run (gr_id r) Item_queued) (rt_items T))))"

definition sweep_run :: "datetime \<Rightarrow> group_run \<Rightarrow> run_tables \<Rightarrow> int list \<times> run_tables" where
  "sweep_run now r T =
     (let running = count_items (gr_id r) Item_running T; queued = count_items (gr_id r) Item_queued T in
      if gr_status r = Run_stopping then
        let T = update_items (of_run (gr_id r) Item_queued) (cancel now) T in
        ([], if running = 0 then update_run (gr_id r) (\<lambda>r. r\<lparr> gr_status := Run_stopped, gr_finished := Some now \<rparr>) T else T)
      else
        let T = (if gr_status r = Run_queued then update_run (gr_id r) (\<lambda>r. r\<lparr> gr_status := Run_running, gr_started := Some now \<rparr>) T else T) in
        if queued = 0 \<and> running = 0 then ([], update_run (gr_id r) (\<lambda>r. r\<lparr> gr_status := Run_done, gr_finished := Some now \<rparr>) T)
        else let ids = claimable r T in (ids, update_items (\<lambda>i. it_id i \<in> set ids) (claim now) T))"

fun sweep_runs :: "datetime \<Rightarrow> group_run list \<Rightarrow> run_tables \<Rightarrow> int list \<times> run_tables" where
  "sweep_runs now [] T = ([], T)"
| "sweep_runs now (r # rs) T = (let (ids, T) = sweep_run now r T; (more_ids, T) = sweep_runs now rs T in (ids @ more_ids, T))"

definition sweep :: "datetime \<Rightarrow> run_tables \<Rightarrow> int list \<times> run_tables" where
  "sweep now T = sweep_runs now (sort_key gr_id (filter run_active (rt_runs T))) T"

section \<open>The queue over time\<close>

text \<open>
  The tables and the items that threads are working on. A process that dies loses its threads,
  and the next worker marks their items as interrupted; the deletion of an asset or a credential
  profile sets the references to it to null.
\<close>

inductive run_step :: "run_tables \<times> int list \<Rightarrow> run_tables \<times> int list \<Rightarrow> bool" where
  starts: "start_run technologies members assets now q T = Inr T' \<Longrightarrow> run_step (T, fl) (T', fl)"
| stops: "run_step (T, fl) (update_run i stop_run T, fl)"
| retries: "run_of T i = Some r \<Longrightarrow> retry_failed r T = Inr (n, T') \<Longrightarrow> run_step (T, fl) (T', fl)"
| sweeps: "sweep now T = (ids, T') \<Longrightarrow> run_step (T, fl) (T', fl @ ids)"
| ends: "n \<in> set fl \<Longrightarrow> run_step (T, fl) (run_one now out n T, remove1 n fl)"
| dies: "run_step (T, fl) (recover_interrupted now T, [])"
| deletes_asset: "run_step (T, fl) (update_items (\<lambda>i. it_asset i = Some a) (\<lambda>i. i\<lparr> it_asset := None \<rparr>) T, fl)"
| deletes_profile: "run_step (T, fl) (T\<lparr> rt_runs := map (\<lambda>r. if gr_profile r = Some p then r\<lparr> gr_profile := None \<rparr> else r) (rt_runs T) \<rparr>, fl)"

definition run_init :: "run_tables \<times> int list \<Rightarrow> bool" where
  "run_init s \<longleftrightarrow> rt_runs (fst s) = [] \<and> rt_items (fst s) = [] \<and> snd s = []"

text \<open>The items being worked on, of one run and of all.\<close>

definition busy :: "int \<Rightarrow> run_tables \<Rightarrow> int set" where
  "busy r T = it_id ` {i \<in> set (rt_items T). of_run r Item_running i}"

definition all_busy :: "run_tables \<Rightarrow> int set" where
  "all_busy T = it_id ` {i \<in> set (rt_items T). it_status i = Item_running}"

definition tables_ok :: "run_tables \<Rightarrow> bool" where
  "tables_ok T \<longleftrightarrow> distinct (map gr_id (rt_runs T)) \<and> (\<forall>r \<in> set (rt_runs T). gr_id r < rt_next_run T \<and> 1 \<le> gr_concurrency r \<and> gr_concurrency r \<le> MAX_CONCURRENCY) \<and>
     distinct (map it_id (rt_items T)) \<and> (\<forall>i \<in> set (rt_items T). it_id i < rt_next_item T \<and> it_run i \<in> gr_id ` set (rt_runs T))"

definition runs_ok :: "run_tables \<times> int list \<Rightarrow> bool" where
  "runs_ok s \<longleftrightarrow> tables_ok (fst s) \<and> distinct (snd s) \<and> set (snd s) = all_busy (fst s) \<and>
     (\<forall>r \<in> set (rt_runs (fst s)). int (card (busy (gr_id r) (fst s))) \<le> gr_concurrency r)"

lemma busy_finite [simp]: "finite (busy r T)"
  by (simp add: busy_def)

lemma count_busy:
  assumes "tables_ok T"
  shows "count_items r Item_running T = card (busy r T)"
proof -
  have "distinct (map it_id (filter (of_run r Item_running) (rt_items T)))" using assms by (simp add: tables_ok_def distinct_map_filter)
  then have "card (set (map it_id (filter (of_run r Item_running) (rt_items T)))) = length (filter (of_run r Item_running) (rt_items T))"
    by (metis distinct_card length_map)
  then show ?thesis by (simp add: count_items_def busy_def)
qed

text \<open>Changing rows without touching what identifies them.\<close>

lemma map_runs_tables:
  assumes "tables_ok T" "\<And>r. gr_id (g r) = gr_id r \<and> gr_concurrency (g r) = gr_concurrency r"
  shows "tables_ok (T\<lparr> rt_runs := map g (rt_runs T) \<rparr>)"
proof -
  have ids: "map gr_id (map g (rt_runs T)) = map gr_id (rt_runs T)" using assms(2) by simp
  then have "gr_id ` set (map g (rt_runs T)) = gr_id ` set (rt_runs T)" by (metis set_map)
  then show ?thesis using assms ids unfolding tables_ok_def by (simp del: map_map set_map image_image) (simp add: assms(2))
qed

lemma update_run_as_map: "update_run i f T = T\<lparr> rt_runs := map (\<lambda>r. if gr_id r = i then f r else r) (rt_runs T) \<rparr>"
  by (simp add: update_run_def)

lemma update_run_busy [simp]: "busy r (update_run i f T) = busy r T" "all_busy (update_run i f T) = all_busy T"
  "rt_items (update_run i f T) = rt_items T"
  by (simp_all add: busy_def all_busy_def update_run_def)

lemma update_items_tables:
  assumes "tables_ok T" "\<And>i. it_id (f i) = it_id i \<and> it_run (f i) = it_run i"
  shows "tables_ok (update_items P f T)"
proof -
  define g where "g i = (if P i then f i else i)" for i
  have g: "it_id (g i) = it_id i" "it_run (g i) = it_run i" for i using assms(2) by (simp_all add: g_def)
  then have "map it_id (map g (rt_items T)) = map it_id (rt_items T)" by simp
  moreover have "update_items P f T = T\<lparr> rt_items := map g (rt_items T) \<rparr>" by (simp add: update_items_def g_def)
  ultimately show ?thesis using assms(1) unfolding tables_ok_def by (simp del: map_map add: g)
qed

lemma limits_kept:
  assumes "\<forall>r \<in> set (rt_runs T). int (card (busy (gr_id r) T)) \<le> gr_concurrency r" "\<And>r. busy r U \<subseteq> busy r T"
    and "\<And>r. r \<in> set (rt_runs U) \<Longrightarrow> \<exists>r' \<in> set (rt_runs T). gr_id r' = gr_id r \<and> gr_concurrency r' = gr_concurrency r"
  shows "\<forall>r \<in> set (rt_runs U). int (card (busy (gr_id r) U)) \<le> gr_concurrency r"
proof
  fix r assume "r \<in> set (rt_runs U)"
  then obtain r' where "r' \<in> set (rt_runs T)" "gr_id r' = gr_id r" "gr_concurrency r' = gr_concurrency r" using assms(3) by blast
  then have "int (card (busy (gr_id r) T)) \<le> gr_concurrency r" using assms(1) by metis
  moreover have "card (busy (gr_id r) U) \<le> card (busy (gr_id r) T)" by (rule card_mono) (use assms(2) in auto)
  ultimately show "int (card (busy (gr_id r) U)) \<le> gr_concurrency r" by linarith
qed

lemma map_runs_ok:
  assumes "runs_ok (T, fl)" "\<And>r. gr_id (g r) = gr_id r \<and> gr_concurrency (g r) = gr_concurrency r"
  shows "runs_ok (T\<lparr> rt_runs := map g (rt_runs T) \<rparr>, fl)"
proof -
  define U where "U = T\<lparr> rt_runs := map g (rt_runs T) \<rparr>"
  have "\<exists>r' \<in> set (rt_runs T). gr_id r' = gr_id r \<and> gr_concurrency r' = gr_concurrency r" if "r \<in> set (rt_runs U)" for r
    using that assms(2) by (auto simp: U_def)
  moreover have same: "busy r U = busy r T" "all_busy U = all_busy T" for r by (simp_all add: U_def busy_def all_busy_def)
  ultimately have "\<forall>r \<in> set (rt_runs U). int (card (busy (gr_id r) U)) \<le> gr_concurrency r"
    using assms(1) limits_kept [of T U] by (simp add: runs_ok_def)
  moreover have "tables_ok U" unfolding U_def using assms by (intro map_runs_tables) (auto simp: runs_ok_def)
  ultimately show ?thesis using assms(1) same unfolding U_def [symmetric] by (simp add: runs_ok_def)
qed

lemma update_run_ok:
  assumes "runs_ok (T, fl)" "\<And>r. gr_id (f r) = gr_id r \<and> gr_concurrency (f r) = gr_concurrency r"
  shows "runs_ok (update_run i f T, fl)"
  unfolding update_run_as_map using assms by (intro map_runs_ok) simp_all

text \<open>Changing items of which none is being worked on, into items that are not either.\<close>

lemma busy_update:
  "busy r (update_items P f T) = (\<lambda>i. it_id (if P i then f i else i)) ` {i \<in> set (rt_items T). of_run r Item_running (if P i then f i else i)}"
  "all_busy (update_items P f T) = (\<lambda>i. it_id (if P i then f i else i)) ` {i \<in> set (rt_items T). it_status (if P i then f i else i) = Item_running}"
  "rt_runs (update_items P f T) = rt_runs T"
  by (auto simp: busy_def all_busy_def update_items_def)

lemma idle_items_ok:
  assumes "runs_ok (T, fl)" "\<And>i. it_id (f i) = it_id i \<and> it_run (f i) = it_run i"
    and "\<And>i. P i \<Longrightarrow> (it_status (f i) = Item_running) = (it_status i = Item_running)"
  shows "runs_ok (update_items P f T, fl)"
proof -
  have "it_id (if P i then f i else i) = it_id i" "of_run r Item_running (if P i then f i else i) = of_run r Item_running i"
      "(it_status (if P i then f i else i) = Item_running) = (it_status i = Item_running)" for i r
    using assms(2,3) by (simp_all add: of_run_def)
  then have "busy r (update_items P f T) = busy r T" "all_busy (update_items P f T) = all_busy T" for r
    unfolding busy_update by (simp_all only: busy_def all_busy_def)
  then show ?thesis using assms(1,2) by (simp add: runs_ok_def update_items_tables busy_update(3))
qed

lemma item_unique: "tables_ok T \<Longrightarrow> i \<in> set (rt_items T) \<Longrightarrow> j \<in> set (rt_items T) \<Longrightarrow> it_id i = it_id j \<Longrightarrow> i = j"
  by (auto simp: tables_ok_def distinct_map dest: inj_onD)

lemma run_unique: "tables_ok T \<Longrightarrow> r \<in> set (rt_runs T) \<Longrightarrow> q \<in> set (rt_runs T) \<Longrightarrow> gr_id r = gr_id q \<Longrightarrow> r = q"
  by (auto simp: tables_ok_def distinct_map dest: inj_onD)

lemma claim_busy:
  assumes "tables_ok T" "set ids \<subseteq> it_id ` {i \<in> set (rt_items T). of_run r Item_queued i}"
    and U_def: "U = update_items (\<lambda>i. it_id i \<in> set ids) (claim now) T"
  shows "busy r U = busy r T \<union> set ids" "q \<noteq> r \<Longrightarrow> busy q U = busy q T" "all_busy U = all_busy T \<union> set ids" "set ids \<inter> all_busy T = {}"
proof -
  have own: "of_run r Item_queued i" if "i \<in> set (rt_items T)" "it_id i \<in> set ids" for i
    using assms(1,2) that item_unique by blast
  define g where "g i = (if it_id i \<in> set ids then claim now i else i)" for i
  have row: "it_id (g i) = it_id i" for i by (simp add: g_def claim_def)
  have run: "of_run q Item_running (g i) \<longleftrightarrow> of_run q Item_running i \<or> it_id i \<in> set ids \<and> q = r" if "i \<in> set (rt_items T)" for i q
    using own [OF that] by (auto simp: of_run_def claim_def g_def)
  have all: "it_status (g i) = Item_running \<longleftrightarrow> it_status i = Item_running \<or> it_id i \<in> set ids" for i
    by (simp add: claim_def g_def)
  have busy_g: "busy q U = it_id ` {i \<in> set (rt_items T). of_run q Item_running (g i)}" for q
    using row by (simp add: U_def busy_update g_def)
  have ids: "set ids = it_id ` {i \<in> set (rt_items T). it_id i \<in> set ids}" using assms(2) by auto
  have "busy r U = it_id ` {i \<in> set (rt_items T). of_run r Item_running i \<or> it_id i \<in> set ids}"
    unfolding busy_g using run by (intro image_cong) auto
  also have "\<dots> = busy r T \<union> set ids" by (subst ids) (auto simp: busy_def)
  finally show "busy r U = busy r T \<union> set ids" .
  have "busy q U = it_id ` {i \<in> set (rt_items T). of_run q Item_running i}" if "q \<noteq> r" unfolding busy_g using run that by (intro image_cong) auto
  then show "busy q U = busy q T" if "q \<noteq> r" using that by (simp add: busy_def [of q T])
  have "all_busy U = it_id ` {i \<in> set (rt_items T). it_status (g i) = Item_running}" using row by (simp add: U_def busy_update g_def)
  also have "\<dots> = all_busy T \<union> set ids" unfolding all by (subst ids) (auto simp: all_busy_def)
  finally show "all_busy U = all_busy T \<union> set ids" .
  show "set ids \<inter> all_busy T = {}" using own by (auto simp: all_busy_def of_run_def)
qed

lemma claim_ok:
  assumes "runs_ok (T, fl)" "set ids \<subseteq> it_id ` {i \<in> set (rt_items T). of_run (gr_id r) Item_queued i}" "distinct ids" "r \<in> set (rt_runs T)"
    and "int (card (busy (gr_id r) T)) + int (length ids) \<le> gr_concurrency r"
  shows "runs_ok (update_items (\<lambda>i. it_id i \<in> set ids) (claim now) T, fl @ ids)"
proof -
  define U where "U = update_items (\<lambda>i. it_id i \<in> set ids) (claim now) T"
  have T: "tables_ok T" "set fl = all_busy T" "distinct fl" "\<forall>r \<in> set (rt_runs T). int (card (busy (gr_id r) T)) \<le> gr_concurrency r"
    using assms(1) by (simp_all add: runs_ok_def)
  note busy = claim_busy [OF T(1) assms(2) U_def]
  have "tables_ok U" unfolding U_def by (rule update_items_tables [OF T(1)]) (simp add: claim_def)
  moreover have "int (card (busy (gr_id q) U)) \<le> gr_concurrency q" if "q \<in> set (rt_runs T)" for q
  proof (cases "gr_id q = gr_id r")
    case True
    then have "q = r" using run_unique [OF T(1) that assms(4)] by simp
    moreover have "card (busy (gr_id r) T \<union> set ids) \<le> card (busy (gr_id r) T) + length ids"
      by (meson card_Un_le card_length add_left_mono le_trans)
    ultimately show ?thesis using busy(1) assms(5) by simp
  next
    case False
    then show ?thesis using busy(2) T(4) that by simp
  qed
  moreover have "rt_runs U = rt_runs T" by (simp add: U_def busy_update)
  ultimately have "runs_ok (U, fl @ ids)" using T(2,3) busy(3,4) assms(3) by (auto simp: runs_ok_def)
  then show ?thesis by (simp add: U_def)
qed

lemma claimable_ok:
  assumes "tables_ok T" "int (card (busy (gr_id r) T)) \<le> gr_concurrency r"
  shows "set (claimable r T) \<subseteq> it_id ` {i \<in> set (rt_items T). of_run (gr_id r) Item_queued i}" "distinct (claimable r T)"
    "int (card (busy (gr_id r) T)) + int (length (claimable r T)) \<le> gr_concurrency r"
proof -
  define xs where "xs = sort (map it_id (filter (of_run (gr_id r) Item_queued) (rt_items T)))"
  have c: "claimable r T = take (nat (gr_concurrency r - int (card (busy (gr_id r) T)))) xs"
    by (simp add: claimable_def xs_def count_busy [OF assms(1)])
  have "set (claimable r T) \<subseteq> set xs" unfolding c by (rule set_take_subset)
  then show "set (claimable r T) \<subseteq> it_id ` {i \<in> set (rt_items T). of_run (gr_id r) Item_queued i}" by (auto simp: xs_def)
  have "distinct xs" using assms(1) by (simp add: xs_def tables_ok_def distinct_map_filter)
  then show "distinct (claimable r T)" unfolding c by (rule distinct_take)
  show "int (card (busy (gr_id r) T)) + int (length (claimable r T)) \<le> gr_concurrency r" unfolding c using assms(2) by simp
qed

definition has_limit :: "group_run \<Rightarrow> run_tables \<Rightarrow> bool" where
  "has_limit r T \<longleftrightarrow> (\<exists>q \<in> set (rt_runs T). gr_id q = gr_id r \<and> gr_concurrency q = gr_concurrency r)"

lemma has_limit_update [simp]: "has_limit r (update_items P f T) = has_limit r T"
  by (simp add: has_limit_def busy_update)

lemma has_limit_run: "has_limit r T \<Longrightarrow> (\<And>q. gr_id (f q) = gr_id q \<and> gr_concurrency (f q) = gr_concurrency q) \<Longrightarrow> has_limit r (update_run i f T)"
proof -
  assume f: "\<And>q. gr_id (f q) = gr_id q \<and> gr_concurrency (f q) = gr_concurrency q" and "has_limit r T"
  then obtain q where q: "q \<in> set (rt_runs T)" "gr_id q = gr_id r" "gr_concurrency q = gr_concurrency r" by (auto simp: has_limit_def)
  then have "(if gr_id q = i then f q else q) \<in> set (rt_runs (update_run i f T))" by (simp add: update_run_def)
  then show ?thesis using q f unfolding has_limit_def by (intro bexI [of _ "if gr_id q = i then f q else q"]) simp_all
qed

lemma sweep_run_ok:
  assumes "runs_ok (T, fl)" "has_limit r T" "sweep_run now r T = (ids, T')"
  shows "runs_ok (T', fl @ ids) \<and> (\<forall>q. has_limit q T \<longrightarrow> has_limit q T')"
proof (cases "gr_status r = Run_stopping")
  case True
  define U where "U = update_items (of_run (gr_id r) Item_queued) (cancel now) T"
  have "runs_ok (U, fl)" unfolding U_def by (rule idle_items_ok [OF assms(1)]) (auto simp: cancel_def of_run_def)
  moreover have "ids = []" "T' = (if count_items (gr_id r) Item_running T = 0
      then update_run (gr_id r) (\<lambda>r. r\<lparr> gr_status := Run_stopped, gr_finished := Some now \<rparr>) U else U)"
    using assms(3) True by (auto simp: sweep_run_def Let_def U_def)
  ultimately show ?thesis by (auto simp: update_run_ok U_def intro!: has_limit_run)
next
  case False
  define U where "U = (if gr_status r = Run_queued then update_run (gr_id r) (\<lambda>r. r\<lparr> gr_status := Run_running, gr_started := Some now \<rparr>) T else T)"
  have U: "runs_ok (U, fl)" "\<forall>q. has_limit q T \<longrightarrow> has_limit q U" using assms(1) by (auto simp: U_def update_run_ok intro!: has_limit_run)
  obtain q where q: "q \<in> set (rt_runs U)" "gr_id q = gr_id r" "gr_concurrency q = gr_concurrency r" using U(2) assms(2) by (auto simp: has_limit_def)
  have same: "claimable r U = claimable q U" by (simp add: claimable_def q)
  have limit: "tables_ok U" "int (card (busy (gr_id q) U)) \<le> gr_concurrency q" using U(1) q(1) by (auto simp: runs_ok_def)
  have "runs_ok (update_items (\<lambda>i. it_id i \<in> set (claimable r U)) (claim now) U, fl @ claimable r U)"
    unfolding same using claimable_ok [OF limit] by (intro claim_ok [OF U(1) _ _ q(1)])
  moreover have "runs_ok (update_run (gr_id r) (\<lambda>r. r\<lparr> gr_status := Run_done, gr_finished := Some now \<rparr>) U, fl)"
    by (rule update_run_ok [OF U(1)]) simp
  moreover have "sweep_run now r T = (if count_items (gr_id r) Item_queued T = 0 \<and> count_items (gr_id r) Item_running T = 0
      then ([], update_run (gr_id r) (\<lambda>r. r\<lparr> gr_status := Run_done, gr_finished := Some now \<rparr>) U)
      else (claimable r U, update_items (\<lambda>i. it_id i \<in> set (claimable r U)) (claim now) U))"
    unfolding sweep_run_def Let_def U_def [symmetric] using False by simp
  ultimately show ?thesis using U(2) assms(3) by (auto intro!: has_limit_run split: if_splits)
qed

lemma sweep_runs_ok:
  assumes "runs_ok (T, fl)" "\<forall>r \<in> set rs. has_limit r T" "sweep_runs now rs T = (ids, T')"
  shows "runs_ok (T', fl @ ids)"
  using assms
proof (induction rs arbitrary: T fl ids)
  case (Cons r rs)
  obtain ids1 U ids2 where s: "sweep_run now r T = (ids1, U)" "sweep_runs now rs U = (ids2, T')" "ids = ids1 @ ids2"
    using Cons.prems(3) by (auto simp: Let_def split: prod.splits)
  have "runs_ok (U, fl @ ids1) \<and> (\<forall>q. has_limit q T \<longrightarrow> has_limit q U)" using sweep_run_ok [OF Cons.prems(1) _ s(1)] Cons.prems(2) by simp
  then show ?case using Cons.IH [of U "fl @ ids1" ids2] Cons.prems(2) s(2,3) by simp
qed simp

lemma new_items_rows:
  "i \<in> set (new_items r now n as) \<Longrightarrow> it_run i = r \<and> it_status i \<noteq> Item_running \<and> n \<le> it_id i \<and> it_id i < n + int (length (new_items r now n as))"
  "map it_id (new_items r now n as) = map (\<lambda>k. n + int k) [0..<length as]"
proof (induction as arbitrary: n)
  case (Cons a as)
  obtain x ip where a: "a = (x, ip)" by fastforce
  {
    case 1
    then show ?case using Cons(1) [of "n + 1"] a by (auto simp: Let_def split: if_splits)
  next
    case 2
    have "map (\<lambda>k. n + int k) [0..<Suc (length as)] = n # map (\<lambda>k. n + 1 + int k) [0..<length as]"
      by (simp add: map_upt_Suc del: upt_Suc)
    then show ?case using Cons(2) [of "n + 1"] a by (simp add: Let_def)
  }
qed simp_all

lemma start_run_ok:
  assumes "runs_ok (T, fl)" "start_run technologies members assets now q T = Inr T'"
  shows "runs_ok (T', fl)"
proof -
  obtain run items as where T': "T' = T\<lparr> rt_runs := rt_runs T @ [run], rt_items := rt_items T @ items, rt_next_run := rt_next_run T + 1,
        rt_next_item := rt_next_item T + int (length items) \<rparr>" and run: "gr_id run = rt_next_run T" "1 \<le> gr_concurrency run" "gr_concurrency run \<le> MAX_CONCURRENCY"
      and items: "items = new_items (rt_next_run T) now (rt_next_item T) as"
    using assms(2) by (fastforce simp: start_run_def res_simps Let_def MAX_CONCURRENCY_def split: if_splits)
  have T: "tables_ok T" "set fl = all_busy T" "distinct fl" "\<forall>r \<in> set (rt_runs T). int (card (busy (gr_id r) T)) \<le> gr_concurrency r"
    using assms(1) by (simp_all add: runs_ok_def)
  note rows = new_items_rows(1) [of _ "rt_next_run T" now "rt_next_item T" as, folded items]
    new_items_rows(2) [of "rt_next_run T" now "rt_next_item T" as, folded items]
  have "distinct (map it_id items)" unfolding rows(2) by (simp add: distinct_map inj_on_def)
  moreover have "\<forall>i \<in> set (rt_items T). it_id i < rt_next_item T" "\<forall>r \<in> set (rt_runs T). gr_id r < rt_next_run T" using T(1) by (auto simp: tables_ok_def)
  ultimately have "tables_ok T'" using T(1) rows(1) run by (fastforce simp: tables_ok_def T')
  moreover have "all_busy T' = all_busy T" "busy r T' = busy r T" for r using rows(1) by (auto simp: all_busy_def busy_def T' of_run_def)
  moreover have "busy (rt_next_run T) T = {}" using T(1) by (fastforce simp: tables_ok_def busy_def of_run_def)
  ultimately show ?thesis using T run by (auto simp: runs_ok_def T')
qed

lemma run_item_ends:
  assumes "it_status i = Item_running"
  shows "it_status (run_item_row now out r i) \<noteq> Item_running"
  using assms by (auto simp: run_item_row_def conclude_def finish_def Let_def split: outcome.splits)

lemma run_item_row_same: "it_id (run_item_row now out r i) = it_id i" "it_run (run_item_row now out r i) = it_run i"
  by (auto simp: run_item_row_def conclude_def finish_def Let_def split: outcome.splits)

text \<open>Items that stop being worked on.\<close>

lemma ended_items_ok:
  assumes "runs_ok (T, fl)" "\<And>i. it_id (f i) = it_id i \<and> it_run (f i) = it_run i"
    and "\<And>i. i \<in> set (rt_items T) \<Longrightarrow> P i \<Longrightarrow> it_status i = Item_running \<Longrightarrow> it_status (f i) \<noteq> Item_running"
    and "\<And>i. i \<in> set (rt_items T) \<Longrightarrow> P i \<Longrightarrow> it_status i = Item_running" "distinct fl'" "set fl' = set fl - it_id ` {i \<in> set (rt_items T). P i}"
  shows "runs_ok (update_items P f T, fl')"
proof -
  define U where "U = update_items P f T"
  have T: "tables_ok T" "set fl = all_busy T" "\<forall>r \<in> set (rt_runs T). int (card (busy (gr_id r) T)) \<le> gr_concurrency r"
    using assms(1) by (simp_all add: runs_ok_def)
  define g where "g i = (if P i then f i else i)" for i
  have g: "it_id (g i) = it_id i" "it_run (g i) = it_run i" for i using assms(2) by (simp_all add: g_def)
  have status: "it_status (g i) = Item_running \<longleftrightarrow> it_status i = Item_running \<and> \<not> P i" if "i \<in> set (rt_items T)" for i
    using assms(3,4) that by (auto simp: g_def)
  have "busy r U = it_id ` {i \<in> set (rt_items T). of_run r Item_running (g i)}" for r
    using g(1) by (simp add: U_def busy_update g_def)
  then have sub: "busy r U \<subseteq> busy r T" for r using status g(2) by (auto simp: busy_def of_run_def)
  have "all_busy U = it_id ` {i \<in> set (rt_items T). it_status (g i) = Item_running}" using g(1) by (simp add: U_def busy_update g_def)
  also have "\<dots> = it_id ` {i \<in> set (rt_items T). it_status i = Item_running \<and> \<not> P i}" using status by (intro image_cong) auto
  also have "\<dots> = all_busy T - it_id ` {i \<in> set (rt_items T). P i}" using item_unique [OF T(1)] by (fastforce simp: all_busy_def)
  finally have "set fl' = all_busy U" using assms(6) T(2) by simp
  moreover have "\<forall>r \<in> set (rt_runs U). int (card (busy (gr_id r) U)) \<le> gr_concurrency r"
    by (rule limits_kept [OF T(3) sub]) (auto simp: U_def busy_update(3))
  moreover have "tables_ok U" unfolding U_def using T(1) assms(2) by (rule update_items_tables)
  ultimately show ?thesis using assms(5) by (simp add: runs_ok_def U_def)
qed

lemma run_one_ok:
  assumes "runs_ok (T, fl)" "n \<in> set fl"
  shows "runs_ok (run_one now out n T, remove1 n fl)"
proof -
  have T: "tables_ok T" "set fl = all_busy T" "distinct fl" using assms(1) by (simp_all add: runs_ok_def)
  obtain i where i: "i \<in> set (rt_items T)" "it_id i = n" "it_status i = Item_running" using assms(2) T(2) by (auto simp: all_busy_def)
  have one: "j = i" if "j \<in> set (rt_items T)" "it_id j = n" for j using i that item_unique [OF T(1)] by blast
  then have only: "{j \<in> set (rt_items T). it_id j = n} = {i}" using i by blast
  obtain r where r: "run_of T (it_run i) = Some r" using T(1) i(1) by (fastforce simp: run_of_def tables_ok_def find_None_iff)
  show ?thesis
    unfolding run_one_def
  proof (rule ended_items_ok [OF assms(1)])
    show "set (remove1 n fl) = set fl - it_id ` {j \<in> set (rt_items T). it_id j = n}" using T(3) only i(2) by simp
    show "distinct (remove1 n fl)" using T(3) by simp
    show "it_status j = Item_running" if "j \<in> set (rt_items T)" "it_id j = n" for j using one [OF that] i(3) by simp
    show "it_status (case run_of T (it_run j) of None \<Rightarrow> j | Some r \<Rightarrow> run_item_row now out r j) \<noteq> Item_running"
      if "j \<in> set (rt_items T)" "it_id j = n" "it_status j = Item_running" for j
      using one [OF that(1,2)] that(3) r run_item_ends by simp
  qed (auto simp: run_item_row_same split: option.splits)
qed

lemma recover_ok:
  assumes "runs_ok (T, fl)"
  shows "runs_ok (recover_interrupted now T, [])"
  unfolding recover_interrupted_def
  by (rule ended_items_ok [OF assms]) (use assms in \<open>auto simp: interrupt_def runs_ok_def all_busy_def\<close>)

lemma retry_ok:
  assumes "runs_ok (T, fl)" "retry_failed r T = Inr (n, T')"
  shows "runs_ok (T', fl)"
proof -
  have "runs_ok (update_items (of_run (gr_id r) Item_failed) requeue T, fl)"
    by (rule idle_items_ok [OF assms(1)]) (auto simp: requeue_def of_run_def)
  then show ?thesis using assms(2) by (auto simp: retry_failed_def Let_def update_run_ok split: if_splits)
qed

lemma run_step_ok: "run_step s t \<Longrightarrow> runs_ok s \<Longrightarrow> runs_ok t"
proof (induction rule: run_step.induct)
  case (starts technologies members assets now q T T' fl)
  then show ?case using start_run_ok by blast
next
  case (stops T fl i)
  then show ?case by (rule update_run_ok) (simp add: stop_run_def)
next
  case (retries T i r n T' fl)
  then show ?case using retry_ok by blast
next
  case (sweeps now T ids T' fl)
  have "\<forall>r \<in> set (sort_key gr_id (filter run_active (rt_runs T))). has_limit r T" by (auto simp: has_limit_def)
  then show ?case using sweep_runs_ok [OF sweeps(2) _ sweeps(1) [unfolded sweep_def]] by blast
next
  case (ends n fl T now out)
  then show ?case using run_one_ok by blast
next
  case (dies T fl now)
  then show ?case by (rule recover_ok)
next
  case (deletes_asset T fl a)
  then show ?case by (rule idle_items_ok) simp_all
next
  case (deletes_profile T fl p)
  then show ?case by (rule map_runs_ok) simp
qed

interpretation queue: invariant run_init run_step runs_ok
proof
  show "runs_ok s" if "run_init s" for s
    using that by (simp add: run_init_def runs_ok_def tables_ok_def all_busy_def)
  show "runs_ok t" if "runs_ok s" "run_step s t" for s t
    using run_step_ok that by blast
qed


section \<open>Every run ends\<close>

text \<open>One round of the worker: a sweep, after which everything that is being worked on ends somehow.\<close>

definition round_of :: "datetime \<Rightarrow> (int \<Rightarrow> outcome) \<Rightarrow> run_tables \<Rightarrow> run_tables" where
  "round_of now outs T =
     (let U = snd (sweep now T) in fold (\<lambda>n. run_one now (outs n) n) (map it_id (filter (\<lambda>i. it_status i = Item_running) (rt_items U))) U)"

lemma filter_le: "(\<And>x. x \<in> set xs \<Longrightarrow> P x \<Longrightarrow> Q x) \<Longrightarrow> length (filter P xs) \<le> length (filter Q xs)"
  by (induction xs) auto

lemma filter_less: "(\<And>x. x \<in> set xs \<Longrightarrow> P x \<Longrightarrow> Q x) \<Longrightarrow> y \<in> set xs \<Longrightarrow> Q y \<Longrightarrow> \<not> P y \<Longrightarrow> length (filter P xs) < length (filter Q xs)"
proof (induction xs)
  case (Cons x xs)
  then show ?case using filter_le [of xs P Q] by (cases "y = x") (auto simp: less_Suc_eq_le)
qed simp

lemma count_update: "count_items r s (update_items P f T) = length (filter (\<lambda>i. of_run r s (if P i then f i else i)) (rt_items T))"
  by (simp add: count_items_def update_items_def filter_map comp_def)

lemma count_update_run [simp]: "count_items r s (update_run i f T) = count_items r s T"
  by (simp add: count_items_def)

lemma run_of_update_items [simp]: "run_of (update_items P f T) i = run_of T i"
  by (simp add: run_of_def update_items_def)

lemma run_of_update_run:
  assumes "\<And>r. gr_id (f r) = gr_id r"
  shows "run_of (update_run i f T) j = map_option (\<lambda>r. if j = i then f r else r) (run_of T j)"
proof -
  have "find (\<lambda>r. gr_id r = j) (map (\<lambda>r. if gr_id r = i then f r else r) rs) = map_option (\<lambda>r. if j = i then f r else r) (find (\<lambda>r. gr_id r = j) rs)" for rs
    using assms by (induction rs) auto
  then show ?thesis by (simp add: run_of_def update_run_def)
qed

text \<open>What a sweep does to the run it looks at, and that it leaves the others alone.\<close>

definition progress :: "group_run \<Rightarrow> nat \<Rightarrow> nat \<Rightarrow> group_run \<Rightarrow> nat \<Rightarrow> nat \<Rightarrow> bool" where
  "progress r q k r' q' k' \<longleftrightarrow> gr_id r' = gr_id r \<and>
     (if gr_status r = Run_stopping then q' = 0 \<and> gr_status r' = (if k = 0 then Run_stopped else Run_stopping)
      else if q = 0 \<and> k = 0 then gr_status r' = Run_done
      else gr_status r' = Run_running \<and> q' \<le> q \<and> (k = 0 \<longrightarrow> q' < q))"

lemma sweep_run_progress:
  assumes "tables_ok T" "run_of T (gr_id r) = Some r" "run_active r" "1 \<le> gr_concurrency r"
    and U_def: "U = snd (sweep_run now r T)"
  shows "\<exists>r'. run_of U (gr_id r) = Some r' \<and>
    progress r (count_items (gr_id r) Item_queued T) (count_items (gr_id r) Item_running T) r' (count_items (gr_id r) Item_queued U) (count_items (gr_id r) Item_running U)"
proof (cases "gr_status r = Run_stopping")
  case True
  have "count_items (gr_id r) Item_queued (update_items (of_run (gr_id r) Item_queued) (cancel now) T) = 0"
    by (auto simp: count_update filter_empty_conv of_run_def cancel_def)
  then show ?thesis using True assms(2) by (auto simp: U_def sweep_run_def Let_def run_of_update_run progress_def)
next
  case False
  then have active: "gr_status r = Run_queued \<or> gr_status r = Run_running" using assms(3) by (auto simp: run_active_def)
  define V where "V = (if gr_status r = Run_queued then update_run (gr_id r) (\<lambda>r. r\<lparr> gr_status := Run_running, gr_started := Some now \<rparr>) T else T)"
  have V: "count_items (gr_id r) st V = count_items (gr_id r) st T" "rt_items V = rt_items T" for st by (simp_all add: V_def)
  obtain v where v: "run_of V (gr_id r) = Some v" "gr_id v = gr_id r" "gr_status v = Run_running"
    using active assms(2) by (auto simp: V_def run_of_update_run)
  define q k where "q = count_items (gr_id r) Item_queued T" and "k = count_items (gr_id r) Item_running T"
  have U: "U = (if q = 0 \<and> k = 0 then update_run (gr_id r) (\<lambda>r. r\<lparr> gr_status := Run_done, gr_finished := Some now \<rparr>) V
      else update_items (\<lambda>i. it_id i \<in> set (claimable r V)) (claim now) V)"
    unfolding U_def sweep_run_def Let_def V_def [symmetric] q_def k_def using False by simp
  have le: "of_run (gr_id r) Item_queued (if it_id i \<in> set ids then claim now i else i) \<Longrightarrow> of_run (gr_id r) Item_queued i" for i ids
    by (auto simp: of_run_def claim_def split: if_splits)
  have "count_items (gr_id r) Item_queued (update_items (\<lambda>i. it_id i \<in> set (claimable r V)) (claim now) V) \<le> q"
    unfolding count_update unfolding q_def count_items_def V(2) by (rule filter_le) (rule le)
  moreover have "count_items (gr_id r) Item_queued (update_items (\<lambda>i. it_id i \<in> set (claimable r V)) (claim now) V) < q" if "k = 0" "q \<noteq> 0"
  proof -
    define xs where "xs = sort (map it_id (filter (of_run (gr_id r) Item_queued) (rt_items T)))"
    have "length xs = q" by (simp add: xs_def q_def count_items_def)
    then have "xs \<noteq> []" using that by auto
    moreover have "claimable r V = take (nat (gr_concurrency r)) xs" using that by (simp add: claimable_def V k_def xs_def)
    ultimately obtain n where n: "n \<in> set (claimable r V)" "n \<in> set xs" using assms(4) by (cases xs) (auto simp: nat_eq_iff2 take_Cons' split: if_splits)
    then obtain i where i: "i \<in> set (rt_items T)" "it_id i = n" "of_run (gr_id r) Item_queued i" by (auto simp: xs_def)
    have "\<not> of_run (gr_id r) Item_queued (if it_id i \<in> set (claimable r V) then claim now i else i)" using n(1) i(2) by (simp add: of_run_def claim_def)
    with le i(1,3) show ?thesis
      unfolding count_update unfolding q_def count_items_def V(2) by (rule filter_less)
  qed
  ultimately show ?thesis using False v U by (auto simp: progress_def q_def [symmetric] k_def [symmetric] run_of_update_run)
qed

lemma sweep_run_other:
  assumes "tables_ok T" "gr_id r \<noteq> i"
  shows "run_of (snd (sweep_run now r T)) i = run_of T i \<and> count_items i s (snd (sweep_run now r T)) = count_items i s T"
proof -
  have same: "count_items i s (update_items P f V) = count_items i s V"
    if "\<And>x. x \<in> set (rt_items V) \<Longrightarrow> P x \<Longrightarrow> it_run x = gr_id r \<and> it_run (f x) = gr_id r" for P f V
    unfolding count_update unfolding count_items_def using that assms(2) by (intro arg_cong [where f = length] filter_cong) (auto simp: of_run_def)
  define V where "V = (if gr_status r = Run_queued then update_run (gr_id r) (\<lambda>r. r\<lparr> gr_status := Run_running, gr_started := Some now \<rparr>) T else T)"
  have V: "rt_items V = rt_items T" "run_of V i = run_of T i" "count_items i s V = count_items i s T"
    using assms(2) by (cases "run_of T i"; simp add: V_def run_of_update_run)+
  have claimed: "it_run x = gr_id r" if "x \<in> set (rt_items V)" "it_id x \<in> set (claimable r V)" for x
  proof -
    have "it_id x \<in> it_id ` {y \<in> set (rt_items T). of_run (gr_id r) Item_queued y}"
      using that(2) set_take_subset [of _ "sort (map it_id (filter (of_run (gr_id r) Item_queued) (rt_items V)))"] by (auto simp: claimable_def V(1))
    then show ?thesis using item_unique [OF assms(1)] that(1) V(1) by (auto simp: of_run_def)
  qed
  have "sweep_run now r T = (if gr_status r = Run_stopping then
      ([], if count_items (gr_id r) Item_running T = 0 then update_run (gr_id r) (\<lambda>r. r\<lparr> gr_status := Run_stopped, gr_finished := Some now \<rparr>)
          (update_items (of_run (gr_id r) Item_queued) (cancel now) T) else update_items (of_run (gr_id r) Item_queued) (cancel now) T)
      else if count_items (gr_id r) Item_queued T = 0 \<and> count_items (gr_id r) Item_running T = 0
        then ([], update_run (gr_id r) (\<lambda>r. r\<lparr> gr_status := Run_done, gr_finished := Some now \<rparr>) V)
        else (claimable r V, update_items (\<lambda>x. it_id x \<in> set (claimable r V)) (claim now) V))"
    unfolding sweep_run_def Let_def V_def [symmetric] by simp
  moreover have "count_items i s (update_items (of_run (gr_id r) Item_queued) (cancel now) T) = count_items i s T"
    by (rule same) (auto simp: of_run_def cancel_def)
  moreover have "count_items i s (update_items (\<lambda>x. it_id x \<in> set (claimable r V)) (claim now) V) = count_items i s T"
    using same [of V "\<lambda>x. it_id x \<in> set (claimable r V)" "claim now"] claimed V(3) by (simp add: claim_def)
  ultimately show ?thesis using assms(2) V by (cases "run_of T i") (auto simp: run_of_update_run)
qed

lemma sweep_runs_Cons: "snd (sweep_runs now (r # rs) T) = snd (sweep_runs now rs (snd (sweep_run now r T)))"
  by (simp add: Let_def split_beta)

lemma sweep_runs_append: "snd (sweep_runs now (as @ bs) T) = snd (sweep_runs now bs (snd (sweep_runs now as T)))"
  by (induction as arbitrary: T) (simp_all add: sweep_runs_Cons del: sweep_runs.simps(2))

lemma sweep_runs_keep:
  assumes "runs_ok (T, fl)" "\<forall>r \<in> set rs. has_limit r T"
  shows "(\<exists>fl'. runs_ok (snd (sweep_runs now rs T), fl')) \<and> (\<forall>q. has_limit q T \<longrightarrow> has_limit q (snd (sweep_runs now rs T))) \<and>
    (\<forall>i s. i \<notin> gr_id ` set rs \<longrightarrow> run_of (snd (sweep_runs now rs T)) i = run_of T i \<and>
       count_items i s (snd (sweep_runs now rs T)) = count_items i s T)"
  using assms
proof (induction rs arbitrary: T fl)
  case Nil
  then show ?case by auto
next
  case (Cons r rs)
  obtain ids U where s: "sweep_run now r T = (ids, U)" by fastforce
  have ok: "tables_ok T" using Cons.prems(1) by (simp add: runs_ok_def)
  have U: "runs_ok (U, fl @ ids)" "\<forall>q. has_limit q T \<longrightarrow> has_limit q U" using sweep_run_ok [OF Cons.prems(1) _ s] Cons.prems(2) by simp_all
  have "snd (sweep_runs now (r # rs) T) = snd (sweep_runs now rs U)" using s by (simp add: Let_def split: prod.splits)
  moreover have "run_of U i = run_of T i \<and> count_items i st U = count_items i st T" if "i \<noteq> gr_id r" for i st
    using sweep_run_other [OF ok, of r i now st] s that by simp
  moreover note Cons.IH [OF U(1)]
  ultimately show ?case using U(2) Cons.prems(2) by simp
qed

lemma run_of_in: "run_of T i = Some r \<Longrightarrow> r \<in> set (rt_runs T) \<and> gr_id r = i"
  by (auto simp: run_of_def find_Some_iff)

definition active_runs :: "run_tables \<Rightarrow> group_run list" where
  "active_runs T = sort_key gr_id (filter run_active (rt_runs T))"

lemma active_runs_ok:
  assumes "runs_ok (T, fl)"
  shows "\<forall>r \<in> set (active_runs T). has_limit r T" "distinct (map gr_id (active_runs T))"
proof -
  show "\<forall>r \<in> set (active_runs T). has_limit r T" by (auto simp: active_runs_def has_limit_def)
  have "inj_on gr_id (set (active_runs T))" using assms run_unique [of T] by (auto simp: inj_on_def active_runs_def runs_ok_def)
  moreover have "distinct (active_runs T)" using assms by (simp add: active_runs_def runs_ok_def tables_ok_def distinct_map)
  ultimately show "distinct (map gr_id (active_runs T))" by (simp add: distinct_map)
qed

lemma sweep_progress:
  assumes "runs_ok (T, fl)" "run_of T i = Some r" "U = snd (sweep now T)"
  shows "if run_active r then \<exists>r'. run_of U i = Some r' \<and>
      progress r (count_items i Item_queued T) (count_items i Item_running T) r' (count_items i Item_queued U) (count_items i Item_running U)
    else run_of U i = Some r"
proof (cases "run_active r")
  case True
  note rows = active_runs_ok [OF assms(1)]
  have r: "r \<in> set (rt_runs T)" "gr_id r = i" using run_of_in [OF assms(2)] by simp_all
  then have "r \<in> set (active_runs T)" using True by (simp add: active_runs_def)
  then obtain as bs where split: "active_runs T = as @ r # bs" using split_list by metis
  define V where "V = snd (sweep_runs now as T)"
  define W where "W = snd (sweep_run now r V)"
  have out: "i \<notin> gr_id ` set as" "i \<notin> gr_id ` set bs" using rows(2) split r(2) by auto
  have "\<forall>q \<in> set as. has_limit q T" "\<forall>q \<in> set (r # bs). has_limit q T" using rows(1) split by auto
  then obtain fl1 where V: "runs_ok (V, fl1)" "\<forall>q \<in> set (r # bs). has_limit q V" "run_of V i = run_of T i" "count_items i s V = count_items i s T" for s
    using sweep_runs_keep [OF assms(1), of as now] out(1) unfolding V_def by blast
  obtain ids where "sweep_run now r V = (ids, W)" by (metis W_def prod.exhaust_sel)
  then have W: "runs_ok (W, fl1 @ ids)" "\<forall>q \<in> set bs. has_limit q W" using sweep_run_ok [OF V(1)] V(2) by auto
  have "U = snd (sweep_runs now bs W)"
    unfolding assms(3) sweep_def active_runs_def [symmetric] split sweep_runs_append V_def [symmetric] by (simp add: W_def Let_def split: prod.splits)
  then have U: "run_of U i = run_of W i" "count_items i s U = count_items i s W" for s using sweep_runs_keep [OF W(1,2)] out(2) by simp_all
  have "tables_ok V" "1 \<le> gr_concurrency r" using V(1) assms(1) r(1) by (auto simp: runs_ok_def tables_ok_def)
  then show ?thesis using sweep_run_progress [OF _ _ True _ W_def] V(3,4) U r(2) assms(2) True by simp
next
  case False
  have "i \<notin> gr_id ` set (active_runs T)"
  proof
    assume "i \<in> gr_id ` set (active_runs T)"
    then obtain q where "q \<in> set (rt_runs T)" "run_active q" "gr_id q = i" by (auto simp: active_runs_def)
    then show False using run_unique [of T q r] assms(1) run_of_in [OF assms(2)] False by (auto simp: runs_ok_def)
  qed
  then show ?thesis using sweep_runs_keep [OF assms(1) active_runs_ok(1) [OF assms(1)]] assms False by (simp add: sweep_def active_runs_def)
qed

text \<open>What a round does after the sweep: the queue is left alone and nothing is being worked on any more.\<close>

lemma run_one_keeps:
  assumes "runs_ok (T, fl)" "n \<in> set fl"
  shows "run_of (run_one now out n T) j = run_of T j \<and> count_items j Item_queued (run_one now out n T) = count_items j Item_queued T"
proof -
  define f where "f = (\<lambda>i. case run_of T (it_run i) of None \<Rightarrow> i | Some r \<Rightarrow> run_item_row now out r i)"
  have running: "it_status x = Item_running" if "x \<in> set (rt_items T)" "it_id x = n" for x
  proof -
    have "n \<in> all_busy T" "tables_ok T" using assms by (simp_all add: runs_ok_def)
    then obtain y where "y \<in> set (rt_items T)" "it_id y = n" "it_status y = Item_running" by (auto simp: all_busy_def)
    then show ?thesis using item_unique [OF \<open>tables_ok T\<close> that(1), of y] that(2) by simp
  qed
  have "it_status (f x) \<noteq> Item_queued" if "it_status x = Item_running" for x
    using that by (auto simp: f_def run_item_row_def conclude_def finish_def Let_def split: option.splits outcome.splits)
  then have "of_run j Item_queued (if it_id x = n then f x else x) = of_run j Item_queued x" if "x \<in> set (rt_items T)" for x
    using running [OF that] by (auto simp: of_run_def)
  then have "count_items j Item_queued (update_items (\<lambda>i. it_id i = n) f T) = count_items j Item_queued T"
    unfolding count_update unfolding count_items_def by (intro arg_cong [where f = length] filter_cong) simp_all
  then show ?thesis by (simp add: run_one_def f_def)
qed

lemma fold_run_one:
  assumes "runs_ok (T, fl)" "distinct ns" "set ns \<subseteq> set fl" "W = fold (\<lambda>n. run_one now (outs n) n) ns T"
  shows "(\<exists>fl'. runs_ok (W, fl') \<and> set fl' = set fl - set ns) \<and> run_of W j = run_of T j \<and> count_items j Item_queued W = count_items j Item_queued T"
  using assms
proof (induction ns arbitrary: T fl)
  case (Cons n ns)
  have "distinct fl" using Cons.prems(1) by (simp add: runs_ok_def)
  then have set: "set (remove1 n fl) = set fl - {n}" by simp
  have "runs_ok (run_one now (outs n) n T, remove1 n fl)" using Cons.prems by (intro run_one_ok) simp_all
  moreover have "distinct ns" "set ns \<subseteq> set (remove1 n fl)" using Cons.prems(2,3) set by auto
  moreover have "W = fold (\<lambda>n. run_one now (outs n) n) ns (run_one now (outs n) n T)" using Cons.prems(4) by simp
  ultimately have IH: "(\<exists>fl'. runs_ok (W, fl') \<and> set fl' = set fl - {n} - set ns) \<and>
      run_of W j = run_of (run_one now (outs n) n T) j \<and> count_items j Item_queued W = count_items j Item_queued (run_one now (outs n) n T)"
    unfolding set [symmetric] by (rule Cons.IH)
  have "set fl - {n} - set ns = set fl - set (n # ns)" by auto
  moreover have "run_of (run_one now (outs n) n T) j = run_of T j \<and> count_items j Item_queued (run_one now (outs n) n T) = count_items j Item_queued T"
    by (rule run_one_keeps [OF Cons.prems(1)]) (use Cons.prems(3) in simp)
  ultimately show ?case using IH by (simp only: simp_thms)
qed auto

lemma round_progress:
  assumes "runs_ok (T, fl)" "run_of T i = Some r" "W = round_of now outs T"
  shows "runs_ok (W, []) \<and> count_items i Item_running W = 0 \<and>
    (if run_active r then \<exists>r'. run_of W i = Some r' \<and> progress r (count_items i Item_queued T) (count_items i Item_running T) r' (count_items i Item_queued W) 0
     else run_of W i = Some r)"
proof -
  define U where "U = snd (sweep now T)"
  define ns where "ns = map it_id (filter (\<lambda>i. it_status i = Item_running) (rt_items U))"
  obtain fl1 where U: "runs_ok (U, fl1)"
    using sweep_runs_keep [OF assms(1) active_runs_ok(1) [OF assms(1)]] unfolding U_def sweep_def active_runs_def by blast
  then have "set ns = set fl1" "distinct ns" by (auto simp: ns_def runs_ok_def all_busy_def tables_ok_def distinct_map_filter)
  moreover have "W = fold (\<lambda>n. run_one now (outs n) n) ns U" by (simp add: assms(3) round_of_def U_def ns_def Let_def)
  ultimately obtain fl2 where W: "runs_ok (W, fl2)" "set fl2 = {}" "run_of W i = run_of U i" "count_items i Item_queued W = count_items i Item_queued U"
    using fold_run_one [OF U, of ns W now outs i] by auto
  have ok: "runs_ok (W, [])" using W(1,2) by simp
  then have "busy i W = {}" by (auto simp: runs_ok_def all_busy_def busy_def of_run_def)
  then have "count_items i Item_running W = 0" using ok by (simp add: count_busy runs_ok_def)
  then show ?thesis using sweep_progress [OF assms(1,2) U_def] W(3,4) ok by (auto simp: progress_def split: if_splits)
qed

fun rounds :: "(datetime \<times> (int \<Rightarrow> outcome)) list \<Rightarrow> run_tables \<Rightarrow> run_tables" where
  "rounds [] T = T"
| "rounds ((now, outs) # rest) T = rounds rest (round_of now outs T)"

lemma finished_stays:
  assumes "runs_ok (T, fl)" "run_of T i = Some r" "\<not> run_active r"
  shows "run_of (rounds ws T) i = Some r"
  using assms
proof (induction ws T arbitrary: fl rule: rounds.induct)
  case (2 now outs rest T)
  then show ?case using round_progress [OF 2(2,3) refl] by auto
qed simp

lemma quiet_run_ends:
  assumes "runs_ok (T, [])" "run_of T i = Some r" "count_items i Item_running T = 0"
    and "if gr_status r = Run_stopping then 1 \<le> length ws else count_items i Item_queued T + 1 \<le> length ws"
  shows "\<exists>r'. run_of (rounds ws T) i = Some r' \<and> \<not> run_active r'"
  using assms
proof (induction ws T arbitrary: r rule: rounds.induct)
  case (2 now outs rest T)
  define W where "W = round_of now outs T"
  note step = round_progress [OF 2(2,3) W_def]
  show ?case
  proof (cases "run_active r")
    case True
    then obtain r' where r': "run_of W i = Some r'" "progress r (count_items i Item_queued T) 0 r' (count_items i Item_queued W) 0"
      using step 2(4) by auto
    show ?thesis
    proof (cases "run_active r'")
      case True
      then have "gr_status r' = Run_running" "count_items i Item_queued W < count_items i Item_queued T" "gr_status r \<noteq> Run_stopping"
        using r'(2) by (auto simp: progress_def run_active_def split: if_splits)
      then show ?thesis using 2(1) [of r'] step r'(1) 2(5) by (simp add: W_def)
    next
      case False
      then show ?thesis using finished_stays [of W "[]" i r' rest] step r'(1) by (simp add: W_def)
    qed
  next
    case False
    then show ?thesis using finished_stays [of W "[]" i r rest] step by (simp add: W_def)
  qed
qed (auto split: if_splits)

text \<open>
  C20. Every run ends: after two rounds more than it has assets in the queue, whatever happened
  on the devices, a run is done or stopped.
\<close>

theorem run_ends:
  assumes "reach run_init run_step (T, fl)" "run_of T i = Some r" "count_items i Item_queued T + 2 \<le> length ws"
  shows "\<exists>r'. run_of (rounds ws T) i = Some r' \<and> gr_status r' \<in> {Run_done, Run_stopped}"
proof -
  have ok: "runs_ok (T, fl)" using queue.reach_inv [OF assms(1)] .
  obtain now outs rest where ws: "ws = (now, outs) # rest" "count_items i Item_queued T + 1 \<le> length rest" using assms(3) by (cases ws) auto
  define W where "W = round_of now outs T"
  note step = round_progress [OF ok assms(2) W_def]
  have "\<exists>r'. run_of (rounds rest W) i = Some r' \<and> \<not> run_active r'"
  proof (cases "run_active r")
    case True
    then obtain r' where r': "run_of W i = Some r'" "progress r (count_items i Item_queued T) (count_items i Item_running T) r' (count_items i Item_queued W) 0"
      using step by auto
    then have "count_items i Item_queued W \<le> count_items i Item_queued T \<or> \<not> run_active r' \<or> gr_status r' = Run_stopping"
      by (auto simp: progress_def run_active_def split: if_splits)
    then show ?thesis using quiet_run_ends [of W i r' rest] finished_stays [of W "[]" i r' rest] step r'(1) ws(2) by auto
  next
    case False
    then show ?thesis using finished_stays [of W "[]" i r rest] step by auto
  qed
  then obtain r' where "run_of (rounds ws T) i = Some r'" "\<not> run_active r'" by (auto simp: ws(1) W_def)
  then show ?thesis by (cases "gr_status r'") (auto simp: run_active_def)
qed

definition w_none :: run_tables where
  "w_none = \<lparr> rt_runs = [], rt_items = [], rt_next_run = 1, rt_next_item = 1 \<rparr>"

definition w_started :: run_tables where
  "w_started = projr (start_run [''cisco''] [7, 8, 9] [(7, Some ''10.0.0.7''), (8, None), (9, Some ''10.0.0.9'')] 0
     \<lparr> st_kind = ''audit'', st_technology = ''cisco'', st_profile = 3, st_profile_kind = ''ssh'', st_concurrency = 1, st_only = None \<rparr> w_none)"

definition w_swept :: run_tables where
  "w_swept = snd (sweep 1 w_started)"

lemma w_swept_reached: "reach run_init run_step (w_swept, [1])"
proof -
  have empty: "reach run_init run_step (w_none, [])" by (rule reach.intros(1)) (simp add: run_init_def w_none_def)
  have "start_run [''cisco''] [7, 8, 9] [(7, Some ''10.0.0.7''), (8, None), (9, Some ''10.0.0.9'')] 0
     \<lparr> st_kind = ''audit'', st_technology = ''cisco'', st_profile = 3, st_profile_kind = ''ssh'', st_concurrency = 1, st_only = None \<rparr> w_none = Inr w_started"
    by code_simp
  then have started: "reach run_init run_step (w_started, [])" by (intro reach.intros(2) [OF empty] run_step.starts)
  have "sweep 1 w_started = ([1], w_swept)" by code_simp
  then have "reach run_init run_step (w_swept, [] @ [1])" by (intro reach.intros(2) [OF started] run_step.sweeps)
  then show ?thesis by simp
qed

definition w_run :: group_run where
  "w_run = hd (rt_runs w_swept)"


theorem run_ends_witness:
  "\<exists>r'. run_of (rounds [(2, \<lambda>_. Backup_empty), (3, \<lambda>_. Audit_done 5), (4, \<lambda>_. Internal_error)] w_swept) 1 = Some r' \<and> gr_status r' \<in> {Run_done, Run_stopped}"
proof (rule run_ends [OF w_swept_reached])
  show "run_of w_swept 1 = Some w_run" by code_simp
  show "count_items 1 Item_queued w_swept + 2 \<le> length [(2 :: datetime, \<lambda>_ :: int. Backup_empty), (3, \<lambda>_. Audit_done 5), (4, \<lambda>_. Internal_error)]" by code_simp
qed

text \<open>
  The worker is also stopped and started again inside a process that lives on: when the lock of
  the task is lost, and around a restore of the product. \<^verbatim>\<open>GroupRunWorker.stop\<close> does not wait for
  its threads, and the next start marks their items as interrupted although they go on. The
  limit of a run then no longer holds: with one asset at a time, two are worked on.
\<close>

inductive restart_step :: "run_tables \<times> int list \<Rightarrow> run_tables \<times> int list \<Rightarrow> bool" where
  goes_on: "run_step s t \<Longrightarrow> restart_step s t"
| starts_again: "restart_step (T, fl) (recover_interrupted now T, fl)"

lemma goes_on_reach: "reach run_init run_step s \<Longrightarrow> reach run_init restart_step s"
  by (induction rule: reach.induct) (auto intro: reach.intros restart_step.intros)

definition w_again :: run_tables where
  "w_again = snd (sweep 3 (recover_interrupted 2 w_swept))"

theorem restart_exceeds_limit:
  "reach run_init restart_step (w_again, [1, 3]) \<and> gr_concurrency (hd (rt_runs w_again)) = 1 \<and>
   map it_run (filter (\<lambda>i. it_id i \<in> {1, 3}) (rt_items w_again)) = [1, 1]"
proof (intro conjI)
  have "reach run_init restart_step (recover_interrupted 2 w_swept, [1])"
    by (rule reach.intros(2) [OF goes_on_reach [OF w_swept_reached]]) (rule starts_again)
  moreover have "sweep 3 (recover_interrupted 2 w_swept) = ([3], w_again)" by code_simp
  then have "restart_step (recover_interrupted 2 w_swept, [1]) (w_again, [1] @ [3])" by (intro goes_on run_step.sweeps)
  ultimately have "reach run_init restart_step (w_again, [1] @ [3])" by (rule reach.intros(2))
  then show "reach run_init restart_step (w_again, [1, 3])" by simp
qed code_simp+

end
