(* ===== verification/Config_Text.thy ===== *)
theory Config_Text
  imports Prelude
begin

text \<open>
  Texts cut into words and lines, as the parsers of configurations do it:
  \<^verbatim>\<open>str.split\<close> in its forms, \<^verbatim>\<open>str.join\<close>, and insertion-ordered dictionaries
  with the operations the parsers use.
\<close>

section \<open>Words\<close>

text \<open>\<^verbatim>\<open>s.split(None, n)\<close>: at most \<open>n\<close> cuts; what is left over loses its leading white space only.\<close>

primrec split_ws :: "nat \<Rightarrow> string \<Rightarrow> string list" where
  "split_ws 0 s = (let t = dropWhile py_isspace s in if t = [] then [] else [t])"
| "split_ws (Suc n) s = (let t = dropWhile py_isspace s in
     if t = [] then [] else takeWhile (\<lambda>c. \<not> py_isspace c) t # split_ws n (dropWhile (\<lambda>c. \<not> py_isspace c) t))"

text \<open>\<^verbatim>\<open>s.split()\<close>.\<close>

definition words_of :: "string \<Rightarrow> string list" where
  "words_of s = split_ws (length s) s"

text \<open>\<^verbatim>\<open>s.split(None, 1)[0]\<close> of a text that is not blank, and \<^verbatim>\<open>s.split(None, 1)[1]\<close>, \<open>None\<close> when
  that raises.\<close>

definition verb_of :: "string \<Rightarrow> string" where
  "verb_of s = (case split_ws 1 s of [] \<Rightarrow> [] | v # _ \<Rightarrow> v)"

definition arg_of :: "string \<Rightarrow> string option" where
  "arg_of s = (case split_ws 1 s of [v, a] \<Rightarrow> Some a | _ \<Rightarrow> None)"

text \<open>A text that begins with something visible.\<close>

definition solid :: "string \<Rightarrow> bool" where
  "solid s \<longleftrightarrow> s \<noteq> [] \<and> \<not> py_isspace (hd s)"

lemma solid_dropWhile [simp]: "solid s \<Longrightarrow> dropWhile py_isspace s = s"
  by (cases s) (auto simp: solid_def)

lemma takeWhile_word: "list_all (\<lambda>c. \<not> py_isspace c) w \<Longrightarrow> py_isspace c \<Longrightarrow>
    takeWhile (\<lambda>c. \<not> py_isspace c) (w @ c # r) = w \<and> dropWhile (\<lambda>c. \<not> py_isspace c) (w @ c # r) = c # r"
  by (induction w) auto

lemma split_ws_word:
  assumes "w \<noteq> []" "list_all (\<lambda>c. \<not> py_isspace c) w" "py_isspace c"
  shows "split_ws (Suc n) (w @ c # r) = w # split_ws n r"
proof -
  have "solid (w @ c # r)" using assms(1,2) by (cases w) (auto simp: solid_def)
  moreover have "split_ws n (c # r) = split_ws n r" using assms(3) by (cases n) simp_all
  ultimately show ?thesis using assms takeWhile_word [OF assms(2,3), of r] by simp
qed

lemma split_ws_solid: "solid s \<Longrightarrow> split_ws 0 s = [s]"
  by (auto simp: Let_def solid_def)

lemma verb_arg:
  assumes "w \<noteq> []" "list_all (\<lambda>c. \<not> py_isspace c) w" "solid s"
  shows "verb_of (w @ CHR '' '' # s) = w" "arg_of (w @ CHR '' '' # s) = Some s"
proof -
  have "split_ws 1 (w @ CHR '' '' # s) = [w, s]"
    using split_ws_word [OF assms(1,2), of "CHR '' ''" 0 s] split_ws_solid [OF assms(3)] by (simp add: py_isspace_def)
  then show "verb_of (w @ CHR '' '' # s) = w" "arg_of (w @ CHR '' '' # s) = Some s" by (simp_all add: verb_of_def arg_of_def)
qed

text \<open>\<^verbatim>\<open>s.split(sep)\<close> at a character, and \<^verbatim>\<open>sep.join(parts)\<close>.\<close>

fun split_at :: "char \<Rightarrow> string \<Rightarrow> string list" where
  "split_at sep [] = [[]]"
| "split_at sep (c # cs) = (if c = sep then [] # split_at sep cs else (c # hd (split_at sep cs)) # tl (split_at sep cs))"

fun join_text :: "string \<Rightarrow> string list \<Rightarrow> string" where
  "join_text sep [] = []"
| "join_text sep [x] = x"
| "join_text sep (x # y # xs) = x @ sep @ join_text sep (y # xs)"

lemma split_at_nonempty [simp]: "split_at sep s \<noteq> []"
  by (cases s) auto

lemma split_at_once [code]:
  "split_at sep [] = [[]]"
  "split_at sep (c # cs) = (case split_at sep cs of [] \<Rightarrow> [] | x # xs \<Rightarrow> if c = sep then [] # x # xs else (c # x) # xs)"
  using split_at_nonempty [of sep cs] by (auto split: list.splits)

lemma split_at_clean: "sep \<notin> set s \<Longrightarrow> split_at sep s = [s]"
  by (induction s) auto

lemma split_at_append: "sep \<notin> set a \<Longrightarrow> split_at sep (a @ sep # b) = a # split_at sep b"
  by (induction a) auto

lemma split_join:
  assumes "xs \<noteq> []" "\<forall>x \<in> set xs. sep \<notin> set x"
  shows "split_at sep (join_text [sep] xs) = xs"
  using assms by (induction "[sep]" xs rule: join_text.induct) (auto simp: split_at_clean split_at_append)

lemma join_split: "join_text [sep] (split_at sep s) = s"
proof (induction s)
  case (Cons c s)
  obtain x xs where "split_at sep s = x # xs" using split_at_nonempty [of sep s] by (cases "split_at sep s") auto
  then show ?case using Cons by (cases xs) auto
qed simp

section \<open>Dictionaries\<close>

text \<open>\<^verbatim>\<open>d[k] = v\<close> keeps the position of a key, \<^verbatim>\<open>d.get(k)\<close> is \<open>map_of d k\<close>, \<^verbatim>\<open>del d[k]\<close> is \<open>AList.delete\<close>.\<close>

definition keys_of :: "('k \<times> 'v) list \<Rightarrow> 'k list" where
  "keys_of d = map fst d"

lemma keys_of_append [simp]: "keys_of (a @ b) = keys_of a @ keys_of b" "keys_of [] = []" "keys_of (kc # d) = fst kc # keys_of d"
  by (simp_all add: keys_of_def)

definition put :: "'k \<Rightarrow> 'v \<Rightarrow> ('k \<times> 'v) list \<Rightarrow> ('k \<times> 'v) list" where
  "put k v d = AList.update k v d"

lemma map_of_put [simp]: "map_of (put k v d) x = (if x = k then Some v else map_of d x)"
  by (simp add: put_def update_conv)

lemma keys_put: "keys_of (put k v d) = (if k \<in> set (keys_of d) then keys_of d else keys_of d @ [k])"
  by (simp add: put_def keys_of_def update_keys)

lemma keys_delete: "keys_of (AList.delete k d) = filter (\<lambda>x. x \<noteq> k) (keys_of d)"
  by (auto simp: keys_of_def delete_keys removeAll_filter_not_eq intro: filter_cong)

lemma map_of_delete [simp]: "map_of (AList.delete k d) x = (if x = k then None else map_of d x)"
  by (simp add: delete_conv)

lemma map_of_keys: "map_of d k \<noteq> None \<longleftrightarrow> k \<in> set (keys_of d)"
  by (metis keys_of_def list.set_map map_of_eq_None_iff)

lemma map_of_distinct: "distinct (keys_of d) \<Longrightarrow> (k, v) \<in> set d \<Longrightarrow> map_of d k = Some v"
  by (simp add: keys_of_def)

end
