(* ===== verification/Config_Tree.thy ===== *)
theory Config_Tree
  imports Config_Text
begin

text \<open>
  Configuration trees and the difference of two of them, the shared part of
  \<^verbatim>\<open>modules/backup/restore/config_tree.py\<close>. A section's title is kept as the path it is made of,
  an entry of \<^verbatim>\<open>skipped\<close> as its path and key: the texts differ only by the arrows between the parts.
\<close>

section \<open>Trees\<close>

datatype node = Node (line_of: string) (children: "(string \<times> node) list")

lemma child_size [termination_simp]: "kc \<in> set ch \<Longrightarrow> size (snd kc) < Suc (size_list (size_prod (\<lambda>_. 0) size) ch)"
  by (cases kc) (force dest: size_list_estimation' [where f = "size_prod (\<lambda>_. 0) size", OF _ order_refl] simp: size_prod_simp)

definition child :: "string \<Rightarrow> string \<Rightarrow> node \<Rightarrow> node" where
  "child key line n = Node (line_of n) (if key \<in> set (keys_of (children n)) then children n else children n @ [(key, Node line [])])"

fun flatten :: "nat \<Rightarrow> node \<Rightarrow> (nat \<times> string) list" where
  "flatten d (Node line ch) = concat (map (\<lambda>kc. (d, line_of (snd kc)) # flatten (d + 1) (snd kc)) ch)"

text \<open>The stack of open scopes of a parser is the path of their keys below the root; a change of the node at a path.\<close>

fun update_at :: "string list \<Rightarrow> (node \<Rightarrow> node) \<Rightarrow> node \<Rightarrow> node" where
  "update_at [] f n = f n"
| "update_at (k # ks) f (Node line ch) = Node line (map (\<lambda>kc. if fst kc = k then (k, update_at ks f (snd kc)) else kc) ch)"

text \<open>The children of a node are a dictionary, and the operations of the parsers keep it one.\<close>

fun keys_distinct :: "node \<Rightarrow> bool" where
  "keys_distinct (Node line ch) \<longleftrightarrow> distinct (keys_of ch) \<and> (\<forall>kc \<in> set ch. keys_distinct (snd kc))"

lemma keys_distinct_iff: "keys_distinct n \<longleftrightarrow> distinct (keys_of (children n)) \<and> (\<forall>kc \<in> set (children n). keys_distinct (snd kc))"
  by (cases n) simp

lemma set_put: "set (put k n d) \<subseteq> insert (k, n) (set d)"
  by (induction d) (auto simp: put_def)

lemma keys_distinct_put: "keys_distinct m \<Longrightarrow> keys_distinct n \<Longrightarrow> keys_distinct (Node line (put k n (children m)))"
  using set_put [of k n "children m"] by (cases m) (auto simp: keys_put)

lemma keys_distinct_child: "keys_distinct m \<Longrightarrow> keys_distinct (child k line m)"
  by (cases m) (auto simp: child_def keys_of_def)

lemma keys_distinct_update:
  assumes "\<And>m. keys_distinct m \<Longrightarrow> keys_distinct (f m)"
  shows "keys_distinct n \<Longrightarrow> keys_distinct (update_at path f n)"
proof (induction path arbitrary: n)
  case (Cons k path)
  obtain line ch where n: "n = Node line ch" by (cases n)
  have "keys_of (map (\<lambda>kc. if fst kc = k then (k, update_at path f (snd kc)) else kc) ch) = keys_of ch" by (simp add: keys_of_def)
  then show ?case using Cons n by auto
qed (simp add: assms)

section \<open>Differences\<close>

datatype diff_op = Added | Removed | Context

record config_diff =
  cd_sections :: "(string list \<times> (diff_op \<times> string) list) list"
  cd_skipped :: "(string list \<times> string) list"

definition no_diff :: config_diff where
  "no_diff = \<lparr> cd_sections = [], cd_skipped = [] \<rparr>"

definition count_op :: "diff_op \<Rightarrow> config_diff \<Rightarrow> nat" where
  "count_op x d = length (filter (\<lambda>l. fst l = x) (concat (map snd (cd_sections d))))"

definition is_empty_diff :: "config_diff \<Rightarrow> bool" where
  "is_empty_diff d \<longleftrightarrow> \<not> list_ex (\<lambda>s. list_ex (\<lambda>l. fst l \<in> {Added, Removed}) (snd s)) (cd_sections d)"

text \<open>Marking a line opens the section of the current path the first time; \<open>sec\<close> is where it stands.\<close>

definition mark :: "string list \<Rightarrow> diff_op \<Rightarrow> string \<Rightarrow> config_diff \<times> nat option \<Rightarrow> config_diff \<times> nat option" where
  "mark path x t ds = (case ds of (d, sec) \<Rightarrow> case sec of
     None \<Rightarrow> (d\<lparr> cd_sections := cd_sections d @ [(path, [(x, t)])] \<rparr>, Some (length (cd_sections d)))
   | Some i \<Rightarrow> (d\<lparr> cd_sections := (cd_sections d)[i := (fst (cd_sections d ! i), snd (cd_sections d ! i) @ [(x, t)])] \<rparr>, Some i))"

definition mark_all :: "string list \<Rightarrow> diff_op \<Rightarrow> string list \<Rightarrow> config_diff \<times> nat option \<Rightarrow> config_diff \<times> nat option" where
  "mark_all path x ts ds = fold (mark path x) ts ds"

text \<open>Whether the lines marked so far account for the commands.\<close>

definition section_open :: "config_diff \<times> nat option \<Rightarrow> bool" where
  "section_open ds \<longleftrightarrow> (case snd ds of None \<Rightarrow> True | Some i \<Rightarrow> i < length (cd_sections (fst ds)))"

definition tracks :: "config_diff \<times> nat option \<Rightarrow> string list \<Rightarrow> config_diff \<times> nat option \<Rightarrow> bool" where
  "tracks ds cs ds' \<longleftrightarrow> section_open ds \<longrightarrow> section_open ds' \<and> length (cd_sections (fst ds)) \<le> length (cd_sections (fst ds')) \<and>
     (is_empty_diff (fst ds') \<longleftrightarrow> is_empty_diff (fst ds) \<and> cs = [])"

lemma tracks_refl [simp]: "tracks ds [] ds"
  by (simp add: tracks_def)

lemma tracks_trans: "tracks ds cs ds' \<Longrightarrow> tracks ds' cs' ds'' \<Longrightarrow> tracks ds (cs @ cs') ds''"
  by (auto simp: tracks_def)

lemma tracks_mark:
  assumes "x \<noteq> Context" "cs \<noteq> []"
  shows "tracks ds cs (mark path x t ds)"
proof (cases "snd ds")
  case None
  then show ?thesis using assms by (cases ds; cases x) (auto simp: tracks_def section_open_def mark_def is_empty_diff_def)
next
  case (Some i)
  show ?thesis
  proof (cases "i < length (cd_sections (fst ds))")
    case True
    define ss s where "ss = cd_sections (fst ds)" and "s = (fst (ss ! i), snd (ss ! i) @ [(x, t)])"
    have "s \<in> set (ss[i := s])" using True by (intro set_update_memI) (simp add: ss_def)
    moreover have "list_ex (\<lambda>l. fst l \<in> {Added, Removed}) (snd s)" using assms(1) by (cases x) (auto simp: s_def)
    ultimately have "list_ex (\<lambda>s. list_ex (\<lambda>l. fst l \<in> {Added, Removed}) (snd s)) (ss[i := s])" by (auto simp: list_ex_iff)
    moreover have "mark path x t ds = ((fst ds)\<lparr> cd_sections := ss[i := s] \<rparr>, Some i)" using Some by (cases ds) (simp add: mark_def ss_def s_def)
    ultimately show ?thesis using assms True by (simp add: tracks_def section_open_def is_empty_diff_def ss_def)
  next
    case False
    then show ?thesis using Some by (simp add: tracks_def section_open_def)
  qed
qed

lemma tracks_all: "x \<noteq> Context \<Longrightarrow> cs \<noteq> [] \<Longrightarrow> ts \<noteq> [] \<Longrightarrow> tracks ds cs (mark_all path x ts ds)"
proof (induction ts arbitrary: ds)
  case (Cons t ts)
  have first: "tracks ds cs (mark path x t ds)" by (rule tracks_mark [OF Cons.prems(1,2)])
  show ?case
  proof (cases "ts = []")
    case True
    then show ?thesis using first by (simp add: mark_all_def)
  next
    case False
    then have "tracks (mark path x t ds) cs (mark_all path x ts (mark path x t ds))" using Cons by blast
    with first show ?thesis by (auto simp: tracks_def mark_all_def)
  qed
qed simp

text \<open>The weaker statement: where commands are sent, a change is shown.\<close>

definition covers :: "config_diff \<times> nat option \<Rightarrow> string list \<Rightarrow> config_diff \<times> nat option \<Rightarrow> bool" where
  "covers ds cs ds' \<longleftrightarrow> section_open ds \<longrightarrow> section_open ds' \<and> length (cd_sections (fst ds)) \<le> length (cd_sections (fst ds')) \<and>
     (is_empty_diff (fst ds') \<longrightarrow> is_empty_diff (fst ds) \<and> cs = [])"

lemma covers_refl: "covers ds [] ds"
  by (simp add: covers_def)

lemma covers_trans: "covers ds cs ds' \<Longrightarrow> covers ds' cs' ds'' \<Longrightarrow> set es \<subseteq> set cs \<union> set cs' \<Longrightarrow> covers ds es ds''"
  by (auto simp: covers_def)

lemma covers_mark: "x \<noteq> Context \<Longrightarrow> covers ds cs (mark path x t ds)"
  using tracks_mark [of x "[t]" ds path t] by (auto simp: covers_def tracks_def)

lemma covers_all: "x \<noteq> Context \<Longrightarrow> ts \<noteq> [] \<Longrightarrow> covers ds cs (mark_all path x ts ds)"
  using tracks_all [of x "ts" ts ds path] by (auto simp: covers_def tracks_def)

text \<open>Once a line is marked, any commands are covered.\<close>

lemma covers_marked: "covers (mark path x t ds) cs ds' \<Longrightarrow> x \<noteq> Context \<Longrightarrow> covers ds es ds'"
  by (rule covers_trans [OF covers_mark [of x ds es]]) simp_all

lemma covers_marked_all: "covers (mark_all path x ts ds) cs ds' \<Longrightarrow> x \<noteq> Context \<Longrightarrow> ts \<noteq> [] \<Longrightarrow> covers ds es ds'"
  by (rule covers_trans [OF covers_all [of x ts ds es]]) simp_all

end
