(* ===== verification/Forti_Config.thy ===== *)
theory Forti_Config
  imports Config_Tree
begin

text \<open>
  The restore of a FortiGate, \<^verbatim>\<open>modules/backup/restore/config_tree.py\<close>: the parser of
  \<^verbatim>\<open>show full-configuration\<close>, the difference between a backup and the live device with the
  preview it shows, and the commands that are sent. What the commands do is stated by an
  interpreter of the command line that refuses a command that does not apply.
\<close>

section \<open>Reading\<close>

definition VOLATILE_SET_KEYS :: "string list" where
  "VOLATILE_SET_KEYS = [''cfg-save'', ''cfg-revert-timeout'']"

text \<open>The prompt: a host name, perhaps a scope in brackets, a sharp or dollar sign, perhaps the command.\<close>

definition prompt_end :: "string \<Rightarrow> bool" where
  "prompt_end s = (case s of c # d # r \<Rightarrow> c = CHR '' '' \<and> d \<in> {CHR ''#'', CHR ''$''} \<and>
     (let t = dropWhile py_isspace r in t = [] \<or> prefix ''show '' t) | _ \<Rightarrow> False)"

definition PROMPT_RE :: "string \<Rightarrow> bool" where
  "PROMPT_RE s = (let a = takeWhile (\<lambda>c. \<not> py_isspace c) s; r = dropWhile (\<lambda>c. \<not> py_isspace c) s in
     a \<noteq> [] \<and> (prompt_end r \<or> (prefix '' ('' r \<and> (case dropWhile (\<lambda>c. c \<noteq> CHR '')'') (drop 2 r) of [] \<Rightarrow> False | _ # t \<Rightarrow> prompt_end t))))"

definition forti_line_kept :: "string \<Rightarrow> bool" where
  "forti_line_kept l \<longleftrightarrow> l \<noteq> [] \<and> \<not> prefix ''#'' l \<and> \<not> PROMPT_RE l \<and> \<not> prefix ''show full-configuration'' (py_lower l)"

definition forti_lines :: "string \<Rightarrow> string list" where
  "forti_lines t = filter forti_line_kept (map py_strip (py_splitlines t))"

definition forti_key :: "string \<Rightarrow> string" where
  "forti_key l = (case split_ws 2 l of v # k # _ \<Rightarrow> if v \<in> {''set'', ''unset''} then ''set '' @ k else l | _ \<Rightarrow> l)"

datatype python_error = IndexError

definition forti_line :: "string \<Rightarrow> string list \<times> node \<Rightarrow> (python_error, string list \<times> node) result" where
  "forti_line l st = (case st of (path, whole) \<Rightarrow>
     let verb = verb_of l in
     if verb \<in> {''config'', ''edit''} then Inr (path @ [l], update_at path (child l l) whole)
     else if verb \<in> {''end'', ''next''} then Inr (butlast path, whole)
     else if verb = ''set'' then
       case arg_of (forti_key l) of
         None \<Rightarrow> Inl IndexError
       | Some a \<Rightarrow> if a \<in> set VOLATILE_SET_KEYS then Inr (path, whole)
           else Inr (path, update_at path (\<lambda>n. Node (line_of n) (put (forti_key l) (Node l []) (children n))) whole)
     else Inr (path, whole))"

fun forti_parse :: "string list \<Rightarrow> string list \<times> node \<Rightarrow> (python_error, string list \<times> node) result" where
  "forti_parse [] st = Inr st"
| "forti_parse (l # ls) st = res_bind (forti_line l st) (forti_parse ls)"

definition parse_fortios :: "string \<Rightarrow> (python_error, node) result" where
  "parse_fortios t = res_bind (forti_parse (forti_lines t) ([], Node [] [])) (\<lambda>st. Inr (snd st))"

section \<open>The commands of a restore\<close>

definition is_enc :: "string \<Rightarrow> bool" where
  "is_enc l = (case split_ws 3 l of _ # _ # e # _ \<Rightarrow> e = ''ENC'' | _ \<Rightarrow> False)"

definition closer :: "string \<Rightarrow> string" where
  "closer l = (if verb_of l = ''edit'' then ''next'' else ''end'')"

fun forti_body :: "node \<Rightarrow> string list" where
  "forti_body (Node line ch) = concat (map (\<lambda>kc. if verb_of (line_of (snd kc)) = ''set'' then [line_of (snd kc)]
     else line_of (snd kc) # forti_body (snd kc) @ [closer (line_of (snd kc))]) ch)"

fun res_concat :: "('e, 'a list) result list \<Rightarrow> ('e, 'a list) result" where
  "res_concat [] = Inr []"
| "res_concat (r # rs) = res_bind r (\<lambda>xs. res_bind (res_concat rs) (\<lambda>ys. Inr (xs @ ys)))"

definition unset_of :: "string \<Rightarrow> (python_error, string list) result" where
  "unset_of key = (case arg_of key of None \<Rightarrow> Inl IndexError | Some a \<Rightarrow> Inr [''unset '' @ a])"

definition delete_of :: "string \<Rightarrow> (python_error, string list) result" where
  "delete_of l = (case arg_of l of None \<Rightarrow> Inl IndexError | Some a \<Rightarrow> Inr [''delete '' @ a])"

definition wrapped :: "string \<Rightarrow> string list \<Rightarrow> string list" where
  "wrapped l inner = (if inner = [] then [] else l # inner @ [closer l])"

fun forti_clear :: "node \<Rightarrow> (python_error, string list) result" where
  "forti_clear (Node line ch) = res_concat (map (\<lambda>kc.
     if verb_of (line_of (snd kc)) = ''set'' then unset_of (fst kc)
     else if verb_of (line_of (snd kc)) = ''edit'' then delete_of (line_of (snd kc))
     else case forti_clear (snd kc) of Inl e \<Rightarrow> Inl e
       | Inr inner \<Rightarrow> Inr (if inner = [] then [] else line_of (snd kc) # inner @ [''end''])) ch)"

fun moves_from :: "nat \<Rightarrow> string list \<Rightarrow> string list \<Rightarrow> string list" where
  "moves_from i [] current = []"
| "moves_from i (name # rest) current =
     (if i < length current \<and> current ! i \<noteq> name
      then (''move '' @ name @ '' before '' @ current ! i) #
        moves_from (i + 1) rest (take i (remove1 name current) @ name # drop i (remove1 name current))
      else moves_from (i + 1) rest current)"

definition forti_moves :: "string list \<Rightarrow> string list \<Rightarrow> string list" where
  "forti_moves desired current = moves_from 0 desired (filter (\<lambda>c. c \<in> set desired) current)"

definition ORDERED_TABLE :: "string \<Rightarrow> bool" where
  "ORDERED_TABLE l \<longleftrightarrow> list_ex (\<lambda>w. sublist w (py_lower l)) [''policy'', ''local-in'', ''shaping'', ''acl'']"

definition ordered_scope :: "string list \<Rightarrow> bool" where
  "ordered_scope path \<longleftrightarrow> path \<noteq> [] \<and> prefix ''config '' (last path) \<and> ORDERED_TABLE (last path)"

definition edit_names :: "(string \<times> node) list \<Rightarrow> string list" where
  "edit_names d = map (\<lambda>k. the (arg_of k)) (filter (prefix ''edit '') (keys_of d))"

definition scope_moves :: "string list \<Rightarrow> (string \<times> node) list \<Rightarrow> (string \<times> node) list \<Rightarrow> string list" where
  "scope_moves path backup live =
     (if ordered_scope path
      then let desired = edit_names backup;
        current = edit_names (filter (\<lambda>kc. fst kc \<in> set (keys_of backup)) live) @
          filter (\<lambda>n. ''edit '' @ n \<notin> set (keys_of live)) desired
        in forti_moves desired current
      else [])"

definition indented :: "node \<Rightarrow> string list" where
  "indented n = map (\<lambda>dt. replicate (4 * fst dt) (CHR '' '') @ snd dt) (flatten 1 n)"

text \<open>What only the live device has.\<close>

fun forti_extra :: "(string \<times> node) list \<Rightarrow> node \<Rightarrow> string list \<Rightarrow> config_diff \<times> nat option \<Rightarrow>
    (python_error, string list \<times> config_diff \<times> nat option) result" where
  "forti_extra [] backup path ds = Inr ([], ds)"
| "forti_extra ((key, l) # rest) backup path ds =
     (if key \<in> set (keys_of (children backup)) then forti_extra rest backup path ds
      else res_bind
        (if verb_of (line_of l) = ''set'' then res_bind (unset_of key) (\<lambda>cs. Inr (cs, mark path Removed (line_of l) ds))
         else if verb_of (line_of l) = ''edit'' then
           res_bind (delete_of (line_of l)) (\<lambda>cs. Inr (cs, mark_all path Removed (line_of l # indented l) ds))
         else res_bind (forti_clear l) (\<lambda>inner.
           Inr (if inner = [] then ([], ds) else (line_of l # inner @ [''end''], mark path Removed (line_of l) ds))))
        (\<lambda>(cs, ds). res_bind (forti_extra rest backup path ds) (\<lambda>(cs', ds). Inr (cs @ cs', ds))))"

function (sequential) forti_diff :: "node \<Rightarrow> node \<Rightarrow> string list \<Rightarrow> config_diff \<Rightarrow> (python_error, string list \<times> config_diff) result"
  and forti_loop :: "(string \<times> node) list \<Rightarrow> node \<Rightarrow> string list \<Rightarrow> config_diff \<times> nat option \<Rightarrow>
    (python_error, string list \<times> config_diff \<times> nat option) result" where
  "forti_diff (Node line backup) live path d =
     (case forti_loop backup live path (d, None) of Inl e \<Rightarrow> Inl e
      | Inr (cs, ds) \<Rightarrow> (case forti_extra (children live) (Node line backup) path ds of Inl e \<Rightarrow> Inl e
        | Inr (cs', ds) \<Rightarrow>
          let moves = scope_moves path backup (children live) in
          Inr (cs @ cs' @ moves, fst (mark_all path Added moves ds))))"
| "forti_loop [] live path ds = Inr ([], ds)"
| "forti_loop ((key, b) # rest) live path ds =
     (case
        (case map_of (children live) key of
           None \<Rightarrow> if verb_of (line_of b) = ''set'' then Inr ([line_of b], mark path Added (line_of b) ds)
             else Inr (line_of b # forti_body b @ [closer (line_of b)], mark_all path Added (line_of b # indented b) ds)
         | Some l \<Rightarrow>
             if verb_of (line_of b) = ''set'' then
               if line_of l = line_of b then Inr ([], ds)
               else if is_enc (line_of b) \<and> is_enc (line_of l)
                 then Inr ([], ((fst ds)\<lparr> cd_skipped := cd_skipped (fst ds) @ [(path, key)] \<rparr>, snd ds))
               else Inr ([line_of b], mark path Added (line_of b) (mark path Removed (line_of l) ds))
             else (case forti_diff b l (path @ [line_of b]) (fst ds) of Inl e \<Rightarrow> Inl e
               | Inr (inner, d) \<Rightarrow> Inr (wrapped (line_of b) inner, d, snd ds)))
      of Inl e \<Rightarrow> Inl e
      | Inr (cs, ds) \<Rightarrow> (case forti_loop rest live path ds of Inl e \<Rightarrow> Inl e | Inr (cs', ds) \<Rightarrow> Inr (cs @ cs', ds)))"
  by pat_completeness auto
termination
  by (relation "measure (case_sum (\<lambda>(b, _). size b) (\<lambda>(bs, _). size_list (\<lambda>x. Suc (size (snd x))) bs))")
    (auto simp: size_prod_simp)

definition diff_fortios :: "string \<Rightarrow> string \<Rightarrow> (python_error, string list \<times> config_diff) result" where
  "diff_fortios backup_text live_text =
     res_bind (parse_fortios backup_text) (\<lambda>b. res_bind (parse_fortios live_text) (\<lambda>l. forti_diff b l [] no_diff))"

section \<open>An unchanged device\<close>

lemma forti_extra_known: "set (keys_of ls) \<subseteq> set (keys_of (children b)) \<Longrightarrow> forti_extra ls b path ds = Inr ([], ds)"
  by (induction ls b path ds rule: forti_extra.induct) auto

lemma moves_from_prefix: "moves_from (length pre) w (pre @ w @ r) = []"
proof (induction w arbitrary: pre)
  case (Cons n w)
  then show ?case using Cons [of "pre @ [n]"] by simp
qed simp

lemma scope_moves_same: "scope_moves path d d = []"
proof -
  have "filter (\<lambda>kc. fst kc \<in> set (keys_of d)) d = d" by (auto simp: keys_of_def intro: filter_True)
  moreover have "filter (\<lambda>c. c \<in> set xs) (xs @ filter P xs) = [] @ xs @ filter P xs" for xs :: "string list" and P
    by (auto intro: filter_cong)
  ultimately show ?thesis
    using moves_from_prefix [of "[]" "edit_names d"] unfolding scope_moves_def forti_moves_def Let_def by (simp del: append.simps(1) filter_append)
qed

lemma forti_loop_same:
  assumes "\<And>kb path d. kb \<in> set bs \<Longrightarrow> forti_diff (snd kb) (snd kb) path d = Inr ([], d)"
    and "\<forall>kb \<in> set bs. map_of (children l) (fst kb) = Some (snd kb)"
  shows "forti_loop bs l path ds = Inr ([], ds)"
  using assms
proof (induction bs arbitrary: ds)
  case (Cons kb bs)
  obtain k b where kb: "kb = (k, b)" by fastforce
  have "forti_loop bs l path ds = Inr ([], ds)" using Cons by simp
  moreover have "map_of (children l) k = Some b" "forti_diff b b (path @ [line_of b]) (fst ds) = Inr ([], fst ds)"
    using Cons.prems(1) [of kb] Cons.prems(2) by (simp_all add: kb)
  ultimately show ?case by (simp add: kb wrapped_def)
qed simp

lemma forti_diff_same: "keys_distinct n \<Longrightarrow> forti_diff n n path d = Inr ([], d)"
proof (induction n arbitrary: path d rule: keys_distinct.induct)
  case (1 line ch)
  have "forti_loop ch (Node line ch) path (d, None) = Inr ([], d, None)"
    using 1 by (intro forti_loop_same) (auto intro!: map_of_distinct)
  then show ?case using forti_extra_known [of ch "Node line ch"] by (simp add: scope_moves_same mark_all_def)
qed

lemma forti_parse_distinct:
  "forti_parse ls (path, n) = Inr (path', n') \<Longrightarrow> keys_distinct n \<Longrightarrow> keys_distinct n'"
proof (induction ls arbitrary: path n)
  case (Cons l ls)
  obtain p m where step: "forti_line l (path, n) = Inr (p, m)" "forti_parse ls (p, m) = Inr (path', n')"
    using Cons.prems(1) by (auto simp: res_simps)
  have "keys_distinct (update_at path (child l l) n)" using Cons.prems(2) by (intro keys_distinct_update keys_distinct_child)
  moreover have "keys_distinct (update_at path (\<lambda>n. Node (line_of n) (put (forti_key l) (Node l []) (children n))) n)"
    using Cons.prems(2) by (intro keys_distinct_update keys_distinct_put) simp_all
  ultimately have "keys_distinct m" using step(1) Cons.prems(2) by (auto simp: forti_line_def Let_def split: if_splits option.splits)
  then show ?case using Cons.IH step(2) by blast
qed simp

theorem unchanged_fortios_shows_nothing:
  assumes "parse_fortios t = Inr n"
  shows "diff_fortios t t = Inr ([], no_diff)"
proof -
  have "keys_distinct n" using assms forti_parse_distinct by (auto simp: parse_fortios_def res_simps)
  then show ?thesis by (simp add: diff_fortios_def assms forti_diff_same)
qed

end
