(* ===== verification/Forti_Restore.thy ===== *)
theory Forti_Restore
  imports Forti_Config
begin

text \<open>
  What a restore of a FortiGate achieves. The command line of the device is an interpreter on
  the configuration: a scope is opened, its settings and entries are changed, it is closed. It
  refuses a command that names something that is not there. The commands computed for a backup
  all apply, and the configuration they lead to shows no difference from the backup.
\<close>

section \<open>The command line\<close>

text \<open>The open scopes, the innermost first, each with what it holds.\<close>

type_synonym frame = "string \<times> (string \<times> node) list"

definition next_word :: "string \<Rightarrow> string" where
  "next_word s = (case s of [] \<Rightarrow> [] | c # cs \<Rightarrow>
     if c = CHR 0x22 then c # takeWhile (\<lambda>x. x \<noteq> CHR 0x22) cs @ [c] else takeWhile (\<lambda>x. \<not> py_isspace x) s)"

definition move_before :: "string \<Rightarrow> string \<Rightarrow> (string \<times> node) list \<Rightarrow> (string \<times> node) list" where
  "move_before k x d = (case map_of d k of None \<Rightarrow> d
     | Some n \<Rightarrow> concat (map (\<lambda>kc. if fst kc = x then [(k, n), kc] else [kc]) (AList.delete k d)))"

definition exec_move :: "string \<Rightarrow> (string \<times> node) list \<Rightarrow> (string \<times> node) list option" where
  "exec_move a d = (let n = next_word a; r = drop (length n) a; k = ''edit '' @ n; x = ''edit '' @ drop 8 r in
     if take 8 r = '' before '' \<and> k \<noteq> x \<and> k \<in> set (keys_of d) \<and> x \<in> set (keys_of d) then Some (move_before k x d) else None)"

definition without_key :: "string \<Rightarrow> (string \<times> node) list \<Rightarrow> (string \<times> node) list option" where
  "without_key k d = (if k \<in> set (keys_of d) then Some (AList.delete k d) else None)"

definition exec_here :: "string \<Rightarrow> string \<Rightarrow> (string \<times> node) list \<Rightarrow> (string \<times> node) list option" where
  "exec_here verb s d =
     (if verb = ''set'' then Some (put (forti_key s) (Node s []) d)
      else if verb = ''unset'' then without_key (forti_key s) d
      else case arg_of s of None \<Rightarrow> None | Some a \<Rightarrow>
        if verb = ''delete'' then without_key (''edit '' @ a) d else if verb = ''move'' then exec_move a d else None)"

fun exec_line :: "string \<Rightarrow> frame list \<Rightarrow> frame list option" where
  "exec_line s [] = None"
| "exec_line s ((line, d) # rest) =
     (if verb_of s \<in> {''config'', ''edit''}
      then Some ((s, case map_of d s of None \<Rightarrow> [] | Some n \<Rightarrow> children n) # (line, d) # rest)
      else if s \<in> {''end'', ''next''} then
        case rest of (outer, d') # rest' \<Rightarrow> if s = closer line then Some ((outer, put line (Node line d) d') # rest') else None | [] \<Rightarrow> None
      else map_option (\<lambda>d. (line, d) # rest) (exec_here (verb_of s) s d))"

declare exec_line.simps [simp del]

fun exec_cmds :: "string list \<Rightarrow> frame list \<Rightarrow> frame list option" where
  "exec_cmds [] fs = Some fs"
| "exec_cmds (c # cs) fs = Option.bind (exec_line c fs) (exec_cmds cs)"

definition run_cmds :: "string list \<Rightarrow> node \<Rightarrow> node option" where
  "run_cmds cs n = (case exec_cmds cs [(line_of n, children n)] of Some [(line, d)] \<Rightarrow> Some (Node line d) | _ \<Rightarrow> None)"

lemma exec_append: "exec_cmds (a @ b) fs = Option.bind (exec_cmds a fs) (exec_cmds b)"
  by (induction a arbitrary: fs) (auto split: Option.bind_splits)

section \<open>Lines\<close>

definition cmd :: "string \<Rightarrow> string \<Rightarrow> string" where
  "cmd v a = v @ CHR '' '' # a"

definition verb_word :: "string \<Rightarrow> bool" where
  "verb_word v \<longleftrightarrow> v \<noteq> [] \<and> list_all (\<lambda>c. \<not> py_isspace c) v"

lemma verb_words [simp]: "verb_word ''config''" "verb_word ''edit''" "verb_word ''set''" "verb_word ''unset''" "verb_word ''delete''" "verb_word ''move''"
  by (simp_all add: verb_word_def py_isspace_def)

lemma cmd_verb [simp]: "verb_word v \<Longrightarrow> solid a \<Longrightarrow> verb_of (cmd v a) = v" "verb_word v \<Longrightarrow> solid a \<Longrightarrow> arg_of (cmd v a) = Some a"
  by (simp_all add: cmd_def verb_word_def verb_arg)

lemma cmd_inj [simp]: "cmd v a = cmd v b \<longleftrightarrow> a = b"
  by (simp add: cmd_def)

text \<open>The name of an entry: a word, or a text in quotes.\<close>

definition entry_name :: "string \<Rightarrow> bool" where
  "entry_name s \<longleftrightarrow> (case s of [] \<Rightarrow> False | c # cs \<Rightarrow>
     if c = CHR 0x22 then (case rev cs of [] \<Rightarrow> False | q # m \<Rightarrow> q = CHR 0x22 \<and> CHR 0x22 \<notin> set m)
     else list_all (\<lambda>x. \<not> py_isspace x) s)"

lemma entry_name_solid [simp]: "entry_name s \<Longrightarrow> solid s"
  by (auto simp: entry_name_def solid_def py_isspace_def split: list.splits if_splits)

lemma next_word_name:
  assumes "entry_name s" "py_isspace c"
  shows "next_word (s @ c # r) = s"
proof (cases s)
  case (Cons x xs)
  show ?thesis
  proof (cases "x = CHR 0x22")
    case True
    then obtain m where "xs = m @ [CHR 0x22]" "CHR 0x22 \<notin> set m"
      using assms(1) Cons by (fastforce simp: entry_name_def split: list.splits)
    moreover have "takeWhile (\<lambda>y. y \<noteq> CHR 0x22) (m @ CHR 0x22 # t) = m" if "CHR 0x22 \<notin> set m" for m t
      using that by (induction m) auto
    ultimately show ?thesis using True Cons by (simp add: next_word_def)
  next
    case False
    then have "list_all (\<lambda>x. \<not> py_isspace x) s" using assms(1) Cons by (simp add: entry_name_def)
    then show ?thesis using takeWhile_word [OF _ assms(2), of s r] False Cons by (simp add: next_word_def)
  qed
qed (use assms in \<open>simp add: entry_name_def\<close>)

text \<open>The lines of a configuration in the form the device prints them.\<close>

definition set_line :: "string \<Rightarrow> bool" where
  "set_line l \<longleftrightarrow> prefix ''set '' l \<and> solid (drop 4 l)"

definition config_line :: "string \<Rightarrow> bool" where
  "config_line l \<longleftrightarrow> prefix ''config '' l \<and> solid (drop 7 l)"

definition edit_line :: "string \<Rightarrow> bool" where
  "edit_line l \<longleftrightarrow> prefix ''edit '' l \<and> entry_name (drop 5 l)"

lemma set_line_iff: "set_line l \<longleftrightarrow> (\<exists>a. solid a \<and> l = cmd ''set'' a)"
  by (auto simp: set_line_def cmd_def prefix_def)

lemma config_line_iff: "config_line l \<longleftrightarrow> (\<exists>a. solid a \<and> l = cmd ''config'' a)"
  by (auto simp: config_line_def cmd_def prefix_def)

lemma edit_line_iff: "edit_line l \<longleftrightarrow> (\<exists>a. entry_name a \<and> l = cmd ''edit'' a)"
  by (auto simp: edit_line_def cmd_def prefix_def)

lemma line_verbs [simp]:
  "set_line l \<Longrightarrow> verb_of l = ''set''" "config_line l \<Longrightarrow> verb_of l = ''config''" "edit_line l \<Longrightarrow> verb_of l = ''edit''"
  by (auto simp: set_line_iff config_line_iff edit_line_iff)

text \<open>The key of a setting, and the name in it.\<close>

definition set_name :: "string \<Rightarrow> string" where
  "set_name l = takeWhile (\<lambda>c. \<not> py_isspace c) (drop 4 l)"

lemma solid_name: "solid a \<Longrightarrow> verb_word (takeWhile (\<lambda>c. \<not> py_isspace c) a)"
  by (cases a) (auto simp: solid_def verb_word_def list_all_iff dest: set_takeWhileD)

lemma verb_word_solid [simp]: "verb_word v \<Longrightarrow> solid v"
  by (cases v) (auto simp: solid_def verb_word_def)

lemma split_two:
  assumes "verb_word v" "solid a"
  shows "\<exists>r. split_ws 2 (cmd v a) = v # takeWhile (\<lambda>c. \<not> py_isspace c) a # r"
proof -
  have "split_ws (Suc 1) (cmd v a) = v # split_ws 1 a"
    unfolding cmd_def using assms(1) by (intro split_ws_word) (auto simp: verb_word_def py_isspace_def)
  moreover have "split_ws 1 a = takeWhile (\<lambda>c. \<not> py_isspace c) a # split_ws 0 (dropWhile (\<lambda>c. \<not> py_isspace c) a)"
    using assms(2) by (simp add: Let_def) (simp add: solid_def)
  ultimately show ?thesis by (simp add: numeral_2_eq_2)
qed

lemma forti_key_set:
  assumes "set_line l"
  shows "forti_key l = cmd ''set'' (set_name l)" "verb_word (set_name l)"
proof -
  obtain a where a: "solid a" "l = cmd ''set'' a" using assms by (auto simp: set_line_iff)
  then show "forti_key l = cmd ''set'' (set_name l)"
    using split_two [of "''set''" a] by (auto simp: forti_key_def set_name_def cmd_def)
  show "verb_word (set_name l)" using a solid_name [OF a(1)] by (simp add: set_name_def cmd_def)
qed

lemma forti_key_unset: "verb_word n \<Longrightarrow> forti_key (cmd ''unset'' n) = cmd ''set'' n"
proof -
  assume n: "verb_word n"
  then have "takeWhile (\<lambda>c. \<not> py_isspace c) n = n" by (auto simp: verb_word_def list_all_iff)
  then show ?thesis using split_two [of "''unset''" n] n by (auto simp: forti_key_def cmd_def)
qed

section \<open>Well-formed configurations\<close>

definition forti_entry :: "string \<Rightarrow> node \<Rightarrow> bool" where
  "forti_entry k n \<longleftrightarrow> (if set_line (line_of n) then k = forti_key (line_of n) \<and> children n = []
     else (config_line (line_of n) \<or> edit_line (line_of n)) \<and> k = line_of n)"

fun forti_tree :: "node \<Rightarrow> bool" where
  "forti_tree (Node line ch) \<longleftrightarrow> distinct (keys_of ch) \<and> (\<forall>kc \<in> set ch. forti_entry (fst kc) (snd kc) \<and> forti_tree (snd kc))"

definition forti_dict :: "(string \<times> node) list \<Rightarrow> bool" where
  "forti_dict d \<longleftrightarrow> distinct (keys_of d) \<and> (\<forall>kc \<in> set d. forti_entry (fst kc) (snd kc) \<and> forti_tree (snd kc))"

lemma forti_tree_dict: "forti_tree n \<longleftrightarrow> forti_dict (children n)"
  by (cases n) (simp add: forti_dict_def)

lemma forti_tree_entries: "forti_tree n \<Longrightarrow> \<forall>kc \<in> set (children n). forti_entry (fst kc) (snd kc) \<and> forti_tree (snd kc)"
  by (cases n) simp

lemma forti_dict_lookup: "forti_dict d \<Longrightarrow> map_of d k = Some n \<Longrightarrow> forti_entry k n \<and> forti_tree n"
  by (auto simp: forti_dict_def dest!: map_of_SomeD)

lemma forti_dict_Cons: "forti_dict ((k, n) # d) \<longleftrightarrow> k \<notin> set (keys_of d) \<and> forti_entry k n \<and> forti_tree n \<and> forti_dict d"
  by (auto simp: forti_dict_def keys_of_def)

text \<open>An entry is a setting, a scope or a table entry, and its key says which.\<close>

lemma forti_entry_cases [consumes 1, case_names setting scope table_entry]:
  assumes "forti_entry k n"
  obtains (setting) "set_line (line_of n)" "k = cmd ''set'' (set_name (line_of n))" "children n = []" "verb_of (line_of n) = ''set''" "verb_word (set_name (line_of n))"
  | (scope) "config_line (line_of n)" "k = line_of n" "verb_of (line_of n) = ''config''"
  | (table_entry) "edit_line (line_of n)" "k = line_of n" "verb_of (line_of n) = ''edit''"
  using assms by (auto simp: forti_entry_def forti_key_set split: if_splits)

lemma key_verb:
  assumes "forti_entry k n"
  shows "verb_of k = verb_of (line_of n)"
  using assms by (cases rule: forti_entry_cases) simp_all

section \<open>The commands without the preview\<close>

definition extra_cmds :: "(node \<Rightarrow> string list) \<Rightarrow> string \<times> node \<Rightarrow> string list" where
  "extra_cmds clear kc =
     (if verb_of (line_of (snd kc)) = ''set'' then [cmd ''unset'' (set_name (line_of (snd kc)))]
     else if verb_of (line_of (snd kc)) = ''edit'' then [cmd ''delete'' (drop 5 (line_of (snd kc)))]
     else wrapped (line_of (snd kc)) (clear (snd kc)))"

fun clear_cmds :: "node \<Rightarrow> string list" where
  "clear_cmds (Node line ch) = concat (map (\<lambda>kc.
     if verb_of (line_of (snd kc)) = ''set'' then [cmd ''unset'' (set_name (line_of (snd kc)))]
     else if verb_of (line_of (snd kc)) = ''edit'' then [cmd ''delete'' (drop 5 (line_of (snd kc)))]
     else wrapped (line_of (snd kc)) (clear_cmds (snd kc))) ch)"

lemma clear_cmds_extra: "clear_cmds n = concat (map (extra_cmds clear_cmds) (children n))"
  by (cases n) (simp add: extra_cmds_def [abs_def])

fun restore_cmds :: "bool \<Rightarrow> node \<Rightarrow> node \<Rightarrow> string list" where
  "restore_cmds moving (Node line backup) live =
     concat (map (\<lambda>kb. case map_of (children live) (fst kb) of
         None \<Rightarrow> if verb_of (line_of (snd kb)) = ''set'' then [line_of (snd kb)]
           else line_of (snd kb) # forti_body (snd kb) @ [closer (line_of (snd kb))]
       | Some l \<Rightarrow> if verb_of (line_of (snd kb)) = ''set''
           then if line_of l = line_of (snd kb) \<or> is_enc (line_of (snd kb)) \<and> is_enc (line_of l) then [] else [line_of (snd kb)]
           else wrapped (line_of (snd kb)) (restore_cmds (ordered_scope [line_of (snd kb)]) (snd kb) l)) backup) @
     concat (map (extra_cmds clear_cmds) (filter (\<lambda>kc. fst kc \<notin> set (keys_of backup)) (children live))) @
     (if moving then let desired = edit_names backup in forti_moves desired
        (edit_names (filter (\<lambda>kc. fst kc \<in> set (keys_of backup)) (children live)) @
         filter (\<lambda>n. ''edit '' @ n \<notin> set (keys_of (children live))) desired) else [])"

definition one_cmds :: "(string \<times> node) list \<Rightarrow> string \<times> node \<Rightarrow> string list" where
  "one_cmds live kb = (case map_of live (fst kb) of
     None \<Rightarrow> if verb_of (line_of (snd kb)) = ''set'' then [line_of (snd kb)]
       else line_of (snd kb) # forti_body (snd kb) @ [closer (line_of (snd kb))]
   | Some l \<Rightarrow> if verb_of (line_of (snd kb)) = ''set''
       then if line_of l = line_of (snd kb) \<or> is_enc (line_of (snd kb)) \<and> is_enc (line_of l) then [] else [line_of (snd kb)]
       else wrapped (line_of (snd kb)) (restore_cmds (ordered_scope [line_of (snd kb)]) (snd kb) l))"

lemma restore_cmds_parts: "restore_cmds (ordered_scope path) b l =
    concat (map (one_cmds (children l)) (children b)) @
    concat (map (extra_cmds clear_cmds) (filter (\<lambda>kc. fst kc \<notin> set (keys_of (children b))) (children l))) @
    scope_moves path (children b) (children l)"
  by (cases b) (simp add: one_cmds_def [abs_def] scope_moves_def)

declare restore_cmds.simps [simp del] clear_cmds.simps [simp del] forti_body.simps [simp del]

lemma ordered_scope_last: "ordered_scope (path @ [l]) = ordered_scope [l]"
  by (simp add: ordered_scope_def)

lemma closer_lines [simp]: "config_line l \<Longrightarrow> closer l = ''end''" "edit_line l \<Longrightarrow> closer l = ''next''"
  by (simp_all add: closer_def)

lemma unset_of_key: "verb_word n \<Longrightarrow> unset_of (cmd ''set'' n) = Inr [cmd ''unset'' n]"
  by (simp add: unset_of_def) (simp add: cmd_def)

lemma delete_of_line: "edit_line l \<Longrightarrow> delete_of l = Inr [cmd ''delete'' (drop 5 l)]"
  by (auto simp: edit_line_iff delete_of_def) (simp add: cmd_def)

lemma res_concat_Inr: "(\<And>x. x \<in> set xs \<Longrightarrow> f x = Inr (g x)) \<Longrightarrow> res_concat (map f xs) = Inr (concat (map g xs))"
  by (induction xs) auto

lemma forti_clear_cmds: "forti_tree n \<Longrightarrow> forti_clear n = Inr (clear_cmds n)"
proof (induction n rule: forti_clear.induct)
  case (1 line ch)
  show ?case
    unfolding forti_clear.simps clear_cmds.simps
  proof (rule res_concat_Inr)
    fix kc assume kc: "kc \<in> set ch"
    then have "forti_entry (fst kc) (snd kc)" "forti_tree (snd kc)" using 1(2) by auto
    then show "(if verb_of (line_of (snd kc)) = ''set'' then unset_of (fst kc)
        else if verb_of (line_of (snd kc)) = ''edit'' then delete_of (line_of (snd kc))
        else case forti_clear (snd kc) of Inl e \<Rightarrow> Inl e | Inr inner \<Rightarrow> Inr (if inner = [] then [] else line_of (snd kc) # inner @ [''end''])) =
      Inr (if verb_of (line_of (snd kc)) = ''set'' then [cmd ''unset'' (set_name (line_of (snd kc)))]
        else if verb_of (line_of (snd kc)) = ''edit'' then [cmd ''delete'' (drop 5 (line_of (snd kc)))]
        else wrapped (line_of (snd kc)) (clear_cmds (snd kc)))"
    proof (cases rule: forti_entry_cases)
      case setting
      then show ?thesis by (simp add: unset_of_key)
    next
      case scope
      then show ?thesis using 1(1) [OF kc] \<open>forti_tree (snd kc)\<close> by (simp add: wrapped_def)
    next
      case table_entry
      then show ?thesis by (simp add: delete_of_line)
    qed
  qed
qed

section \<open>The preview shows a change exactly when a command is sent\<close>

lemma forti_extra_tracks:
  assumes "\<forall>kc \<in> set ls. forti_entry (fst kc) (snd kc) \<and> forti_tree (snd kc)"
  shows "\<exists>ds'. forti_extra ls b path ds =
      Inr (concat (map (extra_cmds clear_cmds) (filter (\<lambda>kc. fst kc \<notin> set (keys_of (children b))) ls)), ds') \<and>
    tracks ds (concat (map (extra_cmds clear_cmds) (filter (\<lambda>kc. fst kc \<notin> set (keys_of (children b))) ls))) ds'"
  using assms
proof (induction ls arbitrary: ds)
  case (Cons kc ls)
  obtain k l where kc: "kc = (k, l)" by fastforce
  show ?case
  proof (cases "k \<in> set (keys_of (children b))")
    case True
    then show ?thesis using Cons kc by simp
  next
    case False
    have entry: "forti_entry k l" "forti_tree l" using Cons.prems kc by auto
    have "\<exists>ds'. (if verb_of (line_of l) = ''set'' then res_bind (unset_of k) (\<lambda>cs. Inr (cs, mark path Removed (line_of l) ds))
         else if verb_of (line_of l) = ''edit'' then
           res_bind (delete_of (line_of l)) (\<lambda>cs. Inr (cs, mark_all path Removed (line_of l # indented l) ds))
         else res_bind (forti_clear l) (\<lambda>inner.
           Inr (if inner = [] then ([], ds) else (line_of l # inner @ [''end''], mark path Removed (line_of l) ds)))) =
        Inr (extra_cmds clear_cmds kc, ds') \<and> tracks ds (extra_cmds clear_cmds kc) ds'"
      using entry(1)
    proof (cases rule: forti_entry_cases)
      case setting
      then show ?thesis by (auto simp: kc unset_of_key extra_cmds_def intro!: tracks_mark)
    next
      case scope
      define ds' where "ds' = (if clear_cmds l = [] then ds else mark path Removed (line_of l) ds)"
      have "tracks ds (extra_cmds clear_cmds kc) ds'"
        using scope tracks_mark [of Removed] by (auto simp: ds'_def kc extra_cmds_def wrapped_def)
      moreover have "res_bind (forti_clear l) (\<lambda>inner.
           Inr (if inner = [] then ([], ds) else (line_of l # inner @ [''end''], mark path Removed (line_of l) ds))) = Inr (extra_cmds clear_cmds kc, ds')"
        using scope by (simp add: forti_clear_cmds entry(2) ds'_def kc extra_cmds_def wrapped_def)
      ultimately show ?thesis using scope by (intro exI [of _ ds']) simp
    next
      case table_entry
      then show ?thesis by (auto simp: kc delete_of_line extra_cmds_def intro!: tracks_all)
    qed
    then obtain ds1 where one: "(if verb_of (line_of l) = ''set'' then res_bind (unset_of k) (\<lambda>cs. Inr (cs, mark path Removed (line_of l) ds))
         else if verb_of (line_of l) = ''edit'' then
           res_bind (delete_of (line_of l)) (\<lambda>cs. Inr (cs, mark_all path Removed (line_of l # indented l) ds))
         else res_bind (forti_clear l) (\<lambda>inner.
           Inr (if inner = [] then ([], ds) else (line_of l # inner @ [''end''], mark path Removed (line_of l) ds)))) =
        Inr (extra_cmds clear_cmds kc, ds1)" "tracks ds (extra_cmds clear_cmds kc) ds1" by blast
    obtain ds2 where two: "forti_extra ls b path ds1 =
        Inr (concat (map (extra_cmds clear_cmds) (filter (\<lambda>kc. fst kc \<notin> set (keys_of (children b))) ls)), ds2)"
      "tracks ds1 (concat (map (extra_cmds clear_cmds) (filter (\<lambda>kc. fst kc \<notin> set (keys_of (children b))) ls))) ds2"
      using Cons.IH [of ds1] Cons.prems by auto
    have "forti_extra (kc # ls) b path ds = Inr (extra_cmds clear_cmds kc @
        concat (map (extra_cmds clear_cmds) (filter (\<lambda>kc. fst kc \<notin> set (keys_of (children b))) ls)), ds2)"
      unfolding kc forti_extra.simps using False one(1) two(1) kc by simp
    then show ?thesis using tracks_trans [OF one(2) two(2)] False kc by simp
  qed
qed simp

lemma forti_diff_tracks:
  "forti_tree b \<Longrightarrow> forti_tree l \<Longrightarrow> \<exists>d'. forti_diff b l path d = Inr (restore_cmds (ordered_scope path) b l, d') \<and>
     length (cd_sections d) \<le> length (cd_sections d') \<and> (is_empty_diff d' \<longleftrightarrow> is_empty_diff d \<and> restore_cmds (ordered_scope path) b l = [])"
  "\<forall>kc \<in> set bs. forti_entry (fst kc) (snd kc) \<and> forti_tree (snd kc) \<Longrightarrow> forti_tree l \<Longrightarrow>
     \<exists>ds'. forti_loop bs l path ds = Inr (concat (map (one_cmds (children l)) bs), ds') \<and> tracks ds (concat (map (one_cmds (children l)) bs)) ds'"
proof (induction b l path d and bs l path ds rule: forti_diff_forti_loop.induct)
  case (1 line backup live path d)
  have entries: "\<forall>kc \<in> set backup. forti_entry (fst kc) (snd kc) \<and> forti_tree (snd kc)" using 1(2) by simp
  obtain ds1 where one: "forti_loop backup live path (d, None) = Inr (concat (map (one_cmds (children live)) backup), ds1)"
      "tracks (d, None) (concat (map (one_cmds (children live)) backup)) ds1"
    using 1(1) [OF entries 1(3)] by (elim exE conjE)
  define extra where "extra = concat (map (extra_cmds clear_cmds) (filter (\<lambda>kc. fst kc \<notin> set (keys_of backup)) (children live)))"
  obtain ds2 where two: "forti_extra (children live) (Node line backup) path ds1 = Inr (extra, ds2)" "tracks ds1 extra ds2"
    using forti_extra_tracks [OF forti_tree_entries [OF 1(3)], of "Node line backup" path ds1] unfolding extra_def by auto
  define moves where "moves = scope_moves path backup (children live)"
  have three: "tracks ds2 moves (mark_all path Added moves ds2)"
  proof (cases "moves = []")
    case True
    then show ?thesis by (simp add: mark_all_def)
  next
    case False
    then show ?thesis by (intro tracks_all) simp_all
  qed
  have "restore_cmds (ordered_scope path) (Node line backup) live = (concat (map (one_cmds (children live)) backup) @ extra) @ moves"
    by (simp add: restore_cmds_parts extra_def moves_def)
  moreover have "forti_diff (Node line backup) live path d =
      Inr ((concat (map (one_cmds (children live)) backup) @ extra) @ moves, fst (mark_all path Added moves ds2))"
    using one(1) two(1) by (simp add: moves_def Let_def)
  ultimately show ?case using tracks_trans [OF tracks_trans [OF one(2) two(2)] three] by (auto simp: tracks_def section_open_def)
next
  case (2 live path ds)
  then show ?case by simp
next
  case (3 key b rest live path ds)
  have entry: "forti_entry key b" "forti_tree b" using 3(3) by auto
  have "\<exists>ds'. (case map_of (children live) key of
           None \<Rightarrow> if verb_of (line_of b) = ''set'' then Inr ([line_of b], mark path Added (line_of b) ds)
             else Inr (line_of b # forti_body b @ [closer (line_of b)], mark_all path Added (line_of b # indented b) ds)
         | Some l \<Rightarrow>
             if verb_of (line_of b) = ''set'' then
               if line_of l = line_of b then Inr ([], ds)
               else if is_enc (line_of b) \<and> is_enc (line_of l)
                 then Inr ([], ((fst ds)\<lparr> cd_skipped := cd_skipped (fst ds) @ [(path, key)] \<rparr>, snd ds))
               else Inr ([line_of b], mark path Added (line_of b) (mark path Removed (line_of l) ds))
             else (case forti_diff b l (path @ [line_of b]) (fst ds) of Inl e \<Rightarrow> Inl e
               | Inr (inner, d) \<Rightarrow> Inr (wrapped (line_of b) inner, d, snd ds))) =
      Inr (one_cmds (children live) (key, b), ds') \<and> tracks ds (one_cmds (children live) (key, b)) ds'" (is "\<exists>ds'. ?one = _ \<and> _")
  proof (cases "map_of (children live) key")
    case None
    define ds' where "ds' = (if verb_of (line_of b) = ''set'' then mark path Added (line_of b) ds else mark_all path Added (line_of b # indented b) ds)"
    have "tracks ds (one_cmds (children live) (key, b)) ds'" using None by (simp add: one_cmds_def ds'_def tracks_mark tracks_all)
    then show ?thesis using None by (intro exI [of _ ds']) (simp add: one_cmds_def ds'_def)
  next
    case (Some l)
    have l: "forti_tree l" using 3(4) Some forti_dict_lookup by (auto simp: forti_tree_dict)
    show ?thesis
    proof (cases "verb_of (line_of b) = ''set''")
      case True
      have "tracks ds [line_of b] (mark path Added (line_of b) (mark path Removed (line_of l) ds))"
        using tracks_all [of Added "[line_of b]" "[line_of b]" "mark path Removed (line_of l) ds" path] tracks_mark [of Removed "[line_of b]" ds path "line_of l"]
        by (auto simp: tracks_def mark_all_def)
      moreover have "tracks ds [] ((fst ds)\<lparr> cd_skipped := cd_skipped (fst ds) @ [(path, key)] \<rparr>, snd ds)"
        by (auto simp: tracks_def section_open_def is_empty_diff_def split: option.splits)
      ultimately show ?thesis using True Some by (simp add: one_cmds_def del: split_paired_Ex)
    next
      case False
      obtain d where d: "forti_diff b l (path @ [line_of b]) (fst ds) = Inr (restore_cmds (ordered_scope [line_of b]) b l, d)"
          "length (cd_sections (fst ds)) \<le> length (cd_sections d)"
          "is_empty_diff d \<longleftrightarrow> is_empty_diff (fst ds) \<and> restore_cmds (ordered_scope [line_of b]) b l = []"
        using 3(1) [OF Some False entry(2) l] unfolding ordered_scope_last by blast
      have "tracks ds (wrapped (line_of b) (restore_cmds (ordered_scope [line_of b]) b l)) (d, snd ds)"
        using d(2,3) by (auto simp: tracks_def section_open_def wrapped_def split: option.splits)
      then show ?thesis using d(1) False Some by (simp add: one_cmds_def)
    qed
  qed
  then obtain ds1 where one: "?one = Inr (one_cmds (children live) (key, b), ds1)" "tracks ds (one_cmds (children live) (key, b)) ds1" by blast
  obtain ds2 where two: "forti_loop rest live path ds1 = Inr (concat (map (one_cmds (children live)) rest), ds2)"
      "tracks ds1 (concat (map (one_cmds (children live)) rest)) ds2"
    using 3(2) [OF one(1) refl] 3(3,4) by (cases ds1) auto
  have "forti_loop ((key, b) # rest) live path ds = Inr (one_cmds (children live) (key, b) @ concat (map (one_cmds (children live)) rest), ds2)"
    unfolding forti_loop.simps one(1) using two(1) by (cases ds1) simp
  then show ?case using tracks_trans [OF one(2) two(2)] by simp
qed

section \<open>Running the commands\<close>

definition scope_line :: "string \<Rightarrow> bool" where
  "scope_line l \<longleftrightarrow> config_line l \<or> edit_line l"

definition held :: "string \<Rightarrow> (string \<times> node) list \<Rightarrow> (string \<times> node) list" where
  "held s d = (case map_of d s of None \<Rightarrow> [] | Some n \<Rightarrow> children n)"

lemma closing_words: "verb_of ''end'' = ''end''" "verb_of ''next'' = ''next''"
  by (simp_all add: verb_of_def py_isspace_def)

lemma closer_word: "closer s \<in> {''end'', ''next''}" "verb_of (closer s) \<notin> {''config'', ''edit''}"
  by (auto simp: closer_def closing_words)

lemma exec_open: "scope_line s \<Longrightarrow> exec_line s ((line, d) # rest) = Some ((s, held s d) # (line, d) # rest)"
  by (auto simp: scope_line_def exec_line.simps held_def)

lemma exec_close: "exec_line (closer s) ((s, d) # (outer, d') # rest) = Some ((outer, put s (Node s d) d') # rest)"
  using closer_word [of s] by (simp add: exec_line.simps)

lemma not_closing: "verb_of s \<noteq> ''end'' \<Longrightarrow> verb_of s \<noteq> ''next'' \<Longrightarrow> s \<notin> {''end'', ''next''}"
  using closing_words by auto

lemma exec_set: "set_line s \<Longrightarrow> exec_line s ((line, d) # rest) = Some ((line, put (forti_key s) (Node s []) d) # rest)"
  using not_closing [of s] by (simp add: exec_line.simps exec_here_def)

lemma exec_unset:
  "verb_word n \<Longrightarrow> cmd ''set'' n \<in> set (keys_of d) \<Longrightarrow>
    exec_line (cmd ''unset'' n) ((line, d) # rest) = Some ((line, AList.delete (cmd ''set'' n) d) # rest)"
  using not_closing [of "cmd ''unset'' n"] by (simp add: exec_line.simps exec_here_def forti_key_unset without_key_def)

lemma edit_cmd: "''edit '' @ a = cmd ''edit'' a"
  by (simp add: cmd_def)

lemma exec_delete:
  assumes "edit_line l" "l \<in> set (keys_of d)"
  shows "exec_line (cmd ''delete'' (drop 5 l)) ((line, d) # rest) = Some ((line, AList.delete l d) # rest)"
proof -
  obtain a where a: "entry_name a" "l = cmd ''edit'' a" using assms(1) by (auto simp: edit_line_iff)
  moreover have "drop 5 l = a" by (simp add: a(2) cmd_def)
  ultimately show ?thesis
    using not_closing [of "cmd ''delete'' a"] assms(2) unfolding exec_line.simps exec_here_def edit_cmd by (simp add: without_key_def)
qed

lemma exec_in_scope:
  assumes "scope_line s" "exec_cmds inner ((s, held s d) # (line, d) # rest) = Some ((s, d') # (line, d) # rest)"
  shows "exec_cmds (s # inner @ [closer s]) ((line, d) # rest) = Some ((line, put s (Node s d') d) # rest)"
  using assms by (simp add: exec_open exec_append exec_close)

lemma put_new: "k \<notin> set (keys_of d) \<Longrightarrow> put k v d = d @ [(k, v)]"
  by (induction d) (auto simp: put_def keys_of_def)

lemma put_middle: "k \<notin> set (keys_of d) \<Longrightarrow> put k v (d @ (k, w) # r) = d @ (k, v) # r"
  by (induction d) (auto simp: put_def keys_of_def)

lemma delete_middle: "k \<notin> set (keys_of d) \<Longrightarrow> k \<notin> set (keys_of r) \<Longrightarrow> AList.delete k (d @ (k, w) # r) = d @ r"
  by (induction d) (auto simp: keys_of_def delete_id)

lemma held_new: "k \<notin> set (keys_of d) \<Longrightarrow> held k d = []"
  using map_of_keys [of d k] by (auto simp: held_def split: option.splits)

text \<open>The commands that recreate a scope recreate it.\<close>

definition body_of :: "string \<times> node \<Rightarrow> string list" where
  "body_of kc = (if verb_of (line_of (snd kc)) = ''set'' then [line_of (snd kc)]
     else line_of (snd kc) # forti_body (snd kc) @ [closer (line_of (snd kc))])"

lemma forti_body_of: "forti_body n = concat (map body_of (children n))"
  by (cases n) (simp add: body_of_def [abs_def] forti_body.simps)

lemma exec_body_list:
  assumes "\<And>n d. n \<in> snd ` set ch \<Longrightarrow> verb_of (line_of n) \<noteq> ''set'' \<Longrightarrow> forti_tree n \<Longrightarrow> set (keys_of (children n)) \<inter> set (keys_of d) = {} \<Longrightarrow>
      \<forall>line rest. exec_cmds (forti_body n) ((line, d) # rest) = Some ((line, d @ children n) # rest)"
    and "forti_dict ch" "set (keys_of ch) \<inter> set (keys_of d) = {}"
  shows "exec_cmds (concat (map body_of ch)) ((line, d) # rest) = Some ((line, d @ ch) # rest)"
  using assms
proof (induction ch arbitrary: d)
  case (Cons kc ch)
  obtain k n where kc: "kc = (k, n)" by fastforce
  have entry: "forti_entry k n" "forti_tree n" "k \<notin> set (keys_of ch)" "forti_dict ch" using Cons.prems(2) by (simp_all add: kc forti_dict_Cons)
  have new: "k \<notin> set (keys_of d)" using Cons.prems(3) by (simp add: kc)
  have inside: "exec_cmds (body_of kc) ((line, d) # rest) = Some ((line, d @ [(k, n)]) # rest)" if "scope_line k" "k = line_of n" "verb_of k \<noteq> ''set''"
  proof -
    have "exec_cmds (forti_body n) ((k, held k d) # (line, d) # rest) = Some ((k, children n) # (line, d) # rest)"
      unfolding held_new [OF new] using Cons.prems(1) [of n "[]"] entry(2) that by (simp add: kc)
    moreover have "Node k (children n) = n" using that(2) by simp
    ultimately show ?thesis using exec_in_scope [OF that(1), of "forti_body n" d line rest "children n"] that new by (simp add: body_of_def kc put_new)
  qed
  have "exec_cmds (body_of kc) ((line, d) # rest) = Some ((line, d @ [(k, n)]) # rest)"
    using entry(1)
  proof (cases rule: forti_entry_cases)
    case setting
    then have "n = Node (line_of n) []" by (metis node.collapse)
    then show ?thesis using setting new by (simp add: body_of_def kc exec_set forti_key_set put_new)
  qed (use inside in \<open>simp_all add: scope_line_def\<close>)
  moreover have "exec_cmds (concat (map body_of ch)) ((line, d @ [(k, n)]) # rest) = Some ((line, (d @ [(k, n)]) @ ch) # rest)"
    by (rule Cons.IH) (use Cons.prems entry in \<open>auto simp: kc\<close>)
  ultimately show ?case by (simp add: exec_append kc)
qed simp

lemma exec_body:
  "forti_tree n \<Longrightarrow> set (keys_of (children n)) \<inter> set (keys_of d) = {} \<Longrightarrow>
    exec_cmds (forti_body n) ((line, d) # rest) = Some ((line, d @ children n) # rest)"
proof (induction n arbitrary: d line rest rule: forti_body.induct)
  case (1 l ch)
  have "exec_cmds (concat (map body_of ch)) ((line, d) # rest) = Some ((line, d @ ch) # rest)"
  proof (rule exec_body_list)
    show "forti_dict ch" using 1(2) by (simp add: forti_dict_def)
    show "set (keys_of ch) \<inter> set (keys_of d) = {}" using 1(3) by simp
    fix n and e :: "(string \<times> node) list" assume "n \<in> snd ` set ch" "verb_of (line_of n) \<noteq> ''set''" "forti_tree n" "set (keys_of (children n)) \<inter> set (keys_of e) = {}"
    moreover from this(1) obtain kc where "kc \<in> set ch" "snd kc = n" by auto
    ultimately show "\<forall>line rest. exec_cmds (forti_body n) ((line, e) # rest) = Some ((line, e @ children n) # rest)"
      using 1(1) [of kc e] by auto
  qed
  then show ?case by (simp only: forti_body_of node.sel)
qed

text \<open>Removing what the backup does not have.\<close>

definition leftover :: "string \<times> node \<Rightarrow> bool" where
  "leftover kc \<longleftrightarrow> verb_of (fst kc) = ''config'' \<and> clear_cmds (snd kc) = []"

lemma leftover_extra: "forti_entry (fst kc) (snd kc) \<Longrightarrow> leftover kc \<longleftrightarrow> extra_cmds clear_cmds kc = []"
  by (cases rule: forti_entry_cases) (auto simp: leftover_def extra_cmds_def wrapped_def key_verb)

lemma forti_dict_append: "forti_dict (a @ b) \<longleftrightarrow> forti_dict a \<and> forti_dict b \<and> set (keys_of a) \<inter> set (keys_of b) = {}"
  by (auto simp: forti_dict_def)

lemma exec_extras:
  assumes "\<And>kc d. kc \<in> set ls \<Longrightarrow> verb_of (line_of (snd kc)) = ''config'' \<Longrightarrow> forti_tree (snd kc) \<Longrightarrow>
      \<forall>line rest. \<exists>ch. exec_cmds (clear_cmds (snd kc)) ((line, children (snd kc)) # rest) = Some ((line, ch) # rest) \<and> forti_dict ch \<and> clear_cmds (Node line ch) = []"
    and "forti_dict (ready @ ls @ tail)"
  shows "\<exists>left. exec_cmds (concat (map (extra_cmds clear_cmds) (filter (\<lambda>kc. P (fst kc)) ls))) ((line, ready @ ls @ tail) # rest) =
      Some ((line, ready @ left @ tail) # rest) \<and> forti_dict (ready @ left @ tail) \<and>
    filter (\<lambda>kc. \<not> P (fst kc)) left = filter (\<lambda>kc. \<not> P (fst kc)) ls \<and> (\<forall>kc \<in> set left. P (fst kc) \<longrightarrow> leftover kc) \<and> set (keys_of left) \<subseteq> set (keys_of ls)"
  using assms
proof (induction ls arbitrary: ready)
  case (Cons kc ls)
  obtain k n where kc: "kc = (k, n)" by fastforce
  have entry: "forti_entry k n" "forti_tree n" "k \<notin> set (keys_of ready)" "k \<notin> set (keys_of (ls @ tail))" "forti_dict (ready @ ls @ tail)"
    using Cons.prems(2) by (auto simp: kc forti_dict_append forti_dict_Cons)
  have step: ?case if new: "exec_cmds (if P k then extra_cmds clear_cmds kc else []) ((line, ready @ kc # ls @ tail) # rest) = Some ((line, (ready @ new) @ ls @ tail) # rest)"
      "forti_dict ((ready @ new) @ ls @ tail)" "filter (\<lambda>kc. \<not> P (fst kc)) new = filter (\<lambda>kc. \<not> P (fst kc)) [kc]"
      "\<forall>kc \<in> set new. P (fst kc) \<longrightarrow> leftover kc" "set (keys_of new) \<subseteq> {k}" for new
  proof -
    have "\<exists>left. exec_cmds (concat (map (extra_cmds clear_cmds) (filter (\<lambda>kc. P (fst kc)) ls))) ((line, (ready @ new) @ ls @ tail) # rest) =
        Some ((line, (ready @ new) @ left @ tail) # rest) \<and> forti_dict ((ready @ new) @ left @ tail) \<and>
      filter (\<lambda>kc. \<not> P (fst kc)) left = filter (\<lambda>kc. \<not> P (fst kc)) ls \<and> (\<forall>kc \<in> set left. P (fst kc) \<longrightarrow> leftover kc) \<and> set (keys_of left) \<subseteq> set (keys_of ls)"
      by (rule Cons.IH) (use Cons.prems(1) new(2) in auto)
    then obtain left where left: "exec_cmds (concat (map (extra_cmds clear_cmds) (filter (\<lambda>kc. P (fst kc)) ls))) ((line, (ready @ new) @ ls @ tail) # rest) =
        Some ((line, (ready @ new) @ left @ tail) # rest)" "forti_dict ((ready @ new) @ left @ tail)"
        "filter (\<lambda>kc. \<not> P (fst kc)) left = filter (\<lambda>kc. \<not> P (fst kc)) ls" "\<forall>kc \<in> set left. P (fst kc) \<longrightarrow> leftover kc" "set (keys_of left) \<subseteq> set (keys_of ls)"
      by blast
    have "concat (map (extra_cmds clear_cmds) (filter (\<lambda>kc. P (fst kc)) (kc # ls))) =
        (if P k then extra_cmds clear_cmds kc else []) @ concat (map (extra_cmds clear_cmds) (filter (\<lambda>kc. P (fst kc)) ls))" by (simp add: kc)
    then have "exec_cmds (concat (map (extra_cmds clear_cmds) (filter (\<lambda>kc. P (fst kc)) (kc # ls)))) ((line, ready @ (kc # ls) @ tail) # rest) =
        Some ((line, ready @ (new @ left) @ tail) # rest)"
      using new(1) left(1) by (simp only: exec_append append.simps append_assoc bind.bind_lunit)
    then show ?thesis using new(3,4,5) left(2-5) kc by (intro exI [of _ "new @ left"]) auto
  qed
  have kept: ?case if "extra_cmds clear_cmds kc = [] \<and> leftover kc \<or> \<not> P k"
    by (rule step [of "[kc]"]) (use that Cons.prems(2) kc in auto)
  have gone: ?case if "P k" "exec_cmds (extra_cmds clear_cmds kc) ((line, ready @ kc # ls @ tail) # rest) = Some ((line, ready @ ls @ tail) # rest)"
    by (rule step [of "[]"]) (use that entry(5) kc in auto)
  show ?case
  proof (cases "P k")
    case True
    show ?thesis
      using entry(1)
    proof (cases rule: forti_entry_cases)
      case setting
      then have "exec_cmds (extra_cmds clear_cmds kc) ((line, ready @ kc # ls @ tail) # rest) = Some ((line, ready @ ls @ tail) # rest)"
        using entry(3,4) by (simp add: kc extra_cmds_def exec_unset delete_middle)
      then show ?thesis by (rule gone [OF True])
    next
      case table_entry
      then have "exec_cmds (extra_cmds clear_cmds kc) ((line, ready @ kc # ls @ tail) # rest) = Some ((line, ready @ ls @ tail) # rest)"
        using entry(3,4) by (simp add: kc extra_cmds_def exec_delete delete_middle)
      then show ?thesis by (rule gone [OF True])
    next
      case scope
      show ?thesis
      proof (cases "clear_cmds n = []")
        case True
        then show ?thesis using scope by (intro kept) (simp add: kc extra_cmds_def wrapped_def leftover_def key_verb)
      next
        case False
        define d where "d = ready @ kc # ls @ tail"
        have "held k d = children n" using entry(3) kc by (auto simp: held_def d_def map_add_def keys_of_def map_of_eq_None_iff [symmetric] split: option.splits)
        then obtain ch where ch: "exec_cmds (clear_cmds n) ((k, held k d) # (line, d) # rest) = Some ((k, ch) # (line, d) # rest)" "forti_dict ch" "clear_cmds (Node k ch) = []"
        proof -
          have "\<forall>line rest. \<exists>ch. exec_cmds (clear_cmds n) ((line, children n) # rest) = Some ((line, ch) # rest) \<and> forti_dict ch \<and> clear_cmds (Node line ch) = []"
            using Cons.prems(1) [of kc] scope entry(2) kc by simp
          then show thesis using that \<open>held k d = children n\<close> by simp blast
        qed
        have "exec_cmds (extra_cmds clear_cmds kc) ((line, d) # rest) = Some ((line, put k (Node k ch) d) # rest)"
          using exec_in_scope [of k "clear_cmds n" d line rest ch] ch(1) scope False by (simp add: kc extra_cmds_def wrapped_def scope_line_def)
        moreover have "put k (Node k ch) d = ready @ (k, Node k ch) # ls @ tail" using entry(3) kc by (simp add: d_def put_middle)
        moreover have entry': "forti_entry k (Node k ch)" "leftover (k, Node k ch)"
          using scope ch(3) by (auto simp: forti_entry_def leftover_def set_line_iff config_line_iff cmd_def)
        moreover have "forti_dict ((ready @ [(k, Node k ch)]) @ ls @ tail)"
          using Cons.prems(2) entry'(1) ch(2) by (auto simp: kc forti_dict_append forti_dict_Cons forti_tree_dict)
        ultimately show ?thesis
          using \<open>P k\<close> kc by (intro step [of "[(k, Node k ch)]"]) (simp_all add: d_def)
      qed
    qed
  next
    case False
    then show ?thesis by (intro kept) simp
  qed
qed auto

lemma exec_clear:
  "forti_tree n \<Longrightarrow> \<exists>ch. exec_cmds (clear_cmds n) ((line, children n) # rest) = Some ((line, ch) # rest) \<and> forti_dict ch \<and> clear_cmds (Node line ch) = []"
proof (induction n arbitrary: line rest rule: clear_cmds.induct)
  case (1 l ch)
  have "\<exists>left. exec_cmds (concat (map (extra_cmds clear_cmds) (filter (\<lambda>kc. True) ch))) ((line, [] @ ch @ []) # rest) =
      Some ((line, [] @ left @ []) # rest) \<and> forti_dict ([] @ left @ []) \<and>
    filter (\<lambda>kc. \<not> True) left = filter (\<lambda>kc. \<not> True) ch \<and> (\<forall>kc \<in> set left. True \<longrightarrow> leftover kc) \<and> set (keys_of left) \<subseteq> set (keys_of ch)"
    by (rule exec_extras) (use 1 in \<open>auto simp: forti_dict_def\<close>)
  then obtain left where left: "exec_cmds (clear_cmds (Node l ch)) ((line, ch) # rest) = Some ((line, left) # rest)" "forti_dict left" "\<forall>kc \<in> set left. leftover kc"
    by (auto simp: clear_cmds_extra)
  then have "clear_cmds (Node line left) = []"
    by (auto simp: clear_cmds_extra forti_dict_def leftover_extra simp del: clear_cmds.simps)
  then show ?case using left by auto
qed

text \<open>Putting the entries of a table into the order of the backup.\<close>

lemma edit_key:
  assumes "forti_entry k n"
  shows "prefix ''edit '' k \<longleftrightarrow> verb_of k = ''edit''" "prefix ''edit '' k \<Longrightarrow> \<exists>a. entry_name a \<and> k = cmd ''edit'' a"
proof -
  have form: "prefix ''edit '' (cmd ''edit'' a)" "\<not> prefix ''edit '' (cmd ''set'' a)" "\<not> prefix ''edit '' (cmd ''config'' a)" for a
    by (simp_all add: cmd_def)
  from assms have "(prefix ''edit '' k \<longleftrightarrow> verb_of k = ''edit'') \<and> (prefix ''edit '' k \<longrightarrow> (\<exists>a. entry_name a \<and> k = cmd ''edit'' a))"
  proof (cases rule: forti_entry_cases)
    case setting
    then show ?thesis using form(2) by simp
  next
    case scope
    then show ?thesis using form(3) unfolding config_line_iff by auto
  next
    case table_entry
    then show ?thesis using form(1) unfolding edit_line_iff by auto
  qed
  then show "prefix ''edit '' k \<longleftrightarrow> verb_of k = ''edit''" "prefix ''edit '' k \<Longrightarrow> \<exists>a. entry_name a \<and> k = cmd ''edit'' a" by blast+
qed

lemma key_lookup: "k \<in> set (keys_of d) \<Longrightarrow> \<exists>n. map_of d k = Some n"
  using map_of_keys [of d k] by (cases "map_of d k") auto

lemma forti_dict_keys: "forti_dict d \<Longrightarrow> k \<in> set (keys_of d) \<Longrightarrow> \<exists>n. forti_entry k n"
  by (auto simp: forti_dict_def keys_of_def)

lemma edit_names_keys:
  assumes "forti_dict d"
  shows "filter (prefix ''edit '') (keys_of d) = map (cmd ''edit'') (edit_names d)" "\<forall>n \<in> set (edit_names d). entry_name n"
    "distinct (edit_names d)" "n \<in> set (edit_names d) \<longleftrightarrow> cmd ''edit'' n \<in> set (keys_of d) \<and> entry_name n"
proof -
  have ks: "\<exists>a. entry_name a \<and> k = cmd ''edit'' a \<and> arg_of k = Some a" if "k \<in> set (keys_of d)" "prefix ''edit '' k" for k
    using forti_dict_keys [OF assms that(1)] edit_key(2) that(2) by (metis cmd_verb(2) entry_name_solid verb_words(2))
  have "cmd ''edit'' (the (arg_of k)) = k" if "k \<in> set (filter (prefix ''edit '') (keys_of d))" for k
  proof -
    from ks [of k] that obtain a where "k = cmd ''edit'' a" "arg_of k = Some a" by auto
    then show ?thesis by simp
  qed
  then have "map (\<lambda>k. cmd ''edit'' (the (arg_of k))) (filter (prefix ''edit '') (keys_of d)) = filter (prefix ''edit '') (keys_of d)" by (rule map_idI)
  then show names: "filter (prefix ''edit '') (keys_of d) = map (cmd ''edit'') (edit_names d)"
    by (simp add: edit_names_def comp_def)
  show "\<forall>n \<in> set (edit_names d). entry_name n" using ks by (force simp: edit_names_def)
  have "distinct (map (cmd ''edit'') (edit_names d))" unfolding names [symmetric] using assms by (simp add: forti_dict_def)
  then show "distinct (edit_names d)" by (simp add: distinct_map)
  have "cmd ''edit'' n \<in> set (filter (prefix ''edit '') (keys_of d)) \<longleftrightarrow> n \<in> set (edit_names d)" unfolding names by auto
  moreover have "prefix ''edit '' (cmd ''edit'' n)" by (simp add: cmd_def)
  ultimately show "n \<in> set (edit_names d) \<longleftrightarrow> cmd ''edit'' n \<in> set (keys_of d) \<and> entry_name n"
    using \<open>\<forall>n \<in> set (edit_names d). entry_name n\<close> by auto
qed

lemma map_of_insert_before:
  "k \<notin> set (keys_of d) \<Longrightarrow> map_of (concat (map (\<lambda>kc. if fst kc = x then [(k, n), kc] else [kc]) d)) y =
    (if y = k \<and> x \<in> set (keys_of d) then Some n else map_of d y)"
proof (induction d)
  case (Cons kc d)
  then show ?case by (cases kc) auto
qed simp

lemma keys_insert_before:
  "keys_of (concat (map (\<lambda>kc. if fst kc = x then [(k, n), kc] else [kc]) d)) = concat (map (\<lambda>y. if y = x then [k, y] else [y]) (keys_of d))"
  by (induction d) (auto simp: keys_of_def)

lemma move_before_keys:
  assumes "k \<in> set (keys_of d)"
  shows "keys_of (move_before k x d) = concat (map (\<lambda>y. if y = x then [k, y] else [y]) (filter (\<lambda>y. y \<noteq> k) (keys_of d)))"
proof -
  obtain n where "map_of d k = Some n" using assms key_lookup by metis
  then show ?thesis by (simp add: move_before_def keys_insert_before keys_delete)
qed

lemma map_of_move_before:
  assumes "k \<in> set (keys_of d)" "x \<in> set (keys_of d)" "k \<noteq> x"
  shows "map_of (move_before k x d) = map_of d"
proof
  fix y
  obtain n where n: "map_of d k = Some n" using assms key_lookup by metis
  have "k \<notin> set (keys_of (AList.delete k d))" "x \<in> set (keys_of (AList.delete k d))" using assms by (simp_all add: keys_delete)
  then show "map_of (move_before k x d) y = map_of d y" using n map_of_insert_before [of k "AList.delete k d" x n y] by (simp add: move_before_def)
qed

lemma filter_insert_before:
  "filter P (concat (map (\<lambda>y. if y = x then [k, y] else [y]) ys)) = (if P x \<and> P k then concat (map (\<lambda>y. if y = x then [k, y] else [y]) (filter P ys)) else filter P (concat (map (\<lambda>y. if y = x then [k, y] else [y]) ys)))"
  by (induction ys) auto

lemma insert_before_absent: "x \<notin> set ys \<Longrightarrow> concat (map (\<lambda>y. if y = x then [k, y] else [y]) ys) = ys"
  by (induction ys) auto

lemma distinct_insert_before:
  "distinct ys \<Longrightarrow> k \<notin> set ys \<Longrightarrow> distinct (concat (map (\<lambda>y. if y = x then [k, y] else [y]) ys))"
  by (induction ys) auto

lemma move_before_names:
  assumes "forti_dict d" "edit_names d = pre @ x # m1 @ n # m2"
  shows "edit_names (move_before (cmd ''edit'' n) (cmd ''edit'' x) d) = pre @ n # x # m1 @ m2"
    "map_of (move_before (cmd ''edit'' n) (cmd ''edit'' x) d) = map_of d" "forti_dict (move_before (cmd ''edit'' n) (cmd ''edit'' x) d)"
proof -
  define k y where "k = cmd ''edit'' n" and "y = cmd ''edit'' x"
  have dist: "distinct (pre @ x # m1 @ n # m2)" using edit_names_keys(3) [OF assms(1)] assms(2) by simp
  then have ky: "k \<noteq> y" by (auto simp: k_def y_def)
  have inn: "k \<in> set (keys_of d)" "y \<in> set (keys_of d)"
    using edit_names_keys(4) [OF assms(1), of n] edit_names_keys(4) [OF assms(1), of x] assms(2) by (auto simp: k_def y_def)
  define e where "e = move_before k y d"
  show same: "map_of (move_before (cmd ''edit'' n) (cmd ''edit'' x) d) = map_of d"
    using map_of_move_before [OF inn ky] by (simp add: k_def y_def)
  have keys: "keys_of e = concat (map (\<lambda>z. if z = y then [k, z] else [z]) (filter (\<lambda>z. z \<noteq> k) (keys_of d)))"
    unfolding e_def by (rule move_before_keys [OF inn(1)])
  have "distinct (keys_of e)" unfolding keys using assms(1) by (intro distinct_insert_before) (auto simp: forti_dict_def)
  moreover have "forti_entry (fst kc) (snd kc) \<and> forti_tree (snd kc)" if "kc \<in> set e" for kc
  proof -
    have "map_of e (fst kc) = Some (snd kc)" using \<open>distinct (keys_of e)\<close> that by (intro map_of_distinct) auto
    then have "map_of d (fst kc) = Some (snd kc)" using same by (simp add: e_def k_def y_def)
    then show ?thesis by (rule forti_dict_lookup [OF assms(1)])
  qed
  ultimately have dict: "forti_dict e" by (simp add: forti_dict_def)
  then show "forti_dict (move_before (cmd ''edit'' n) (cmd ''edit'' x) d)" by (simp add: e_def k_def y_def)
  have "map (cmd ''edit'') (edit_names e) = filter (prefix ''edit '') (keys_of e)" using edit_names_keys(1) [OF dict] by simp
  also have "\<dots> = concat (map (\<lambda>z. if z = y then [k, z] else [z]) (filter (\<lambda>z. z \<noteq> k) (filter (prefix ''edit '') (keys_of d))))"
    unfolding keys by (subst filter_insert_before) (simp add: k_def y_def cmd_def filter_filter conj_commute)
  also have "\<dots> = concat (map (\<lambda>z. if z = y then [k, z] else [z]) (filter (\<lambda>z. z \<noteq> k) (map (cmd ''edit'') (pre @ x # m1 @ n # m2))))"
    using edit_names_keys(1) [OF assms(1)] assms(2) by simp
  also have "filter (\<lambda>z. z \<noteq> k) (map (cmd ''edit'') (pre @ x # m1 @ n # m2)) = map (cmd ''edit'') (pre @ x # m1 @ m2)"
  proof -
    have "filter (\<lambda>z. z \<noteq> n) ys = ys" if "n \<notin> set ys" for ys using that by (induction ys) auto
    then show ?thesis using dist by (auto simp: k_def filter_map comp_def)
  qed
  also have "concat (map (\<lambda>z. if z = y then [k, z] else [z]) (map (cmd ''edit'') (pre @ x # m1 @ m2))) = map (cmd ''edit'') (pre @ n # x # m1 @ m2)"
  proof -
    have "concat (map (\<lambda>z. if z = y then [k, z] else [z]) (map (cmd ''edit'') ys)) = map (cmd ''edit'') ys" if "x \<notin> set ys" for ys
      using that by (intro insert_before_absent) (auto simp: y_def)
    from this [of pre] this [of m1] this [of m2] show ?thesis using dist by (simp add: y_def k_def)
  qed
  finally have "map (cmd ''edit'') (edit_names e) = map (cmd ''edit'') (pre @ n # x # m1 @ m2)" .
  then show "edit_names (move_before (cmd ''edit'' n) (cmd ''edit'' x) d) = pre @ n # x # m1 @ m2"
    unfolding e_def k_def y_def by (subst (asm) inj_map_eq_map) (simp_all add: inj_def)
qed

lemma exec_move_line:
  assumes "entry_name n" "n \<noteq> x" "cmd ''edit'' n \<in> set (keys_of d)" "cmd ''edit'' x \<in> set (keys_of d)"
  shows "exec_line (''move '' @ n @ '' before '' @ x) ((line, d) # rest) = Some ((line, move_before (cmd ''edit'' n) (cmd ''edit'' x) d) # rest)"
proof -
  define a where "a = n @ CHR '' '' # ''before '' @ x"
  have a: "''move '' @ n @ '' before '' @ x = cmd ''move'' a" by (simp add: a_def cmd_def)
  have "solid a" using entry_name_solid [OF assms(1)] by (cases n) (auto simp: a_def solid_def)
  moreover have "next_word a = n" unfolding a_def using assms(1) by (rule next_word_name) (simp add: py_isspace_def)
  then have "exec_move a d = Some (move_before (cmd ''edit'' n) (cmd ''edit'' x) d)"
    using assms unfolding exec_move_def edit_cmd by (simp add: a_def)
  ultimately show ?thesis using not_closing [of "cmd ''move'' a"] unfolding a by (simp add: exec_line.simps exec_here_def)
qed

lemma exec_moves:
  assumes "forti_dict d" "edit_names d = pre @ current" "set current = set wanted" "distinct wanted"
  shows "\<exists>e. exec_cmds (moves_from (length pre) wanted (pre @ current)) ((line, d) # rest) = Some ((line, e) # rest) \<and>
    forti_dict e \<and> map_of e = map_of d \<and> edit_names e = pre @ wanted"
  using assms
proof (induction wanted arbitrary: d pre current)
  case Nil
  then show ?case by auto
next
  case (Cons n wanted)
  have dist: "distinct (pre @ current)" using edit_names_keys(3) [OF Cons.prems(1)] Cons.prems(2) by simp
  obtain x rest' where cur: "current = x # rest'" using Cons.prems(3) by (cases current) auto
  show ?case
  proof (cases "x = n")
    case True
    have "set rest' = set wanted" using Cons.prems(3,4) dist cur True by auto
    then show ?thesis using Cons.IH [of d "pre @ [n]" rest'] Cons.prems cur True by simp
  next
    case False
    then have "n \<in> set rest'" using Cons.prems(3) cur by auto
    then obtain m1 m2 where m: "rest' = m1 @ n # m2" using split_list by metis
    have names: "edit_names d = pre @ x # m1 @ n # m2" using Cons.prems(2) cur m by simp
    define e where "e = move_before (cmd ''edit'' n) (cmd ''edit'' x) d"
    have e: "edit_names e = (pre @ [n]) @ x # m1 @ m2" "map_of e = map_of d" "forti_dict e"
      using move_before_names [OF Cons.prems(1) names] by (simp_all add: e_def)
    have "exec_line (''move '' @ n @ '' before '' @ x) ((line, d) # rest) = Some ((line, e) # rest)"
      unfolding e_def using False edit_names_keys(2,4) [OF Cons.prems(1)] names by (intro exec_move_line) auto
    moreover have "remove1 n (pre @ current) = pre @ x # m1 @ m2" using dist cur m False by (auto simp: remove1_append)
    then have "moves_from (length pre) (n # wanted) (pre @ current) =
        (''move '' @ n @ '' before '' @ x) # moves_from (length (pre @ [n])) wanted ((pre @ [n]) @ x # m1 @ m2)"
      using cur False by (simp add: nth_append)
    moreover have "set (x # m1 @ m2) = set wanted" using Cons.prems(3,4) dist cur m by auto
    then obtain f where "exec_cmds (moves_from (length (pre @ [n])) wanted ((pre @ [n]) @ x # m1 @ m2)) ((line, e) # rest) = Some ((line, f) # rest)"
        "forti_dict f" "map_of f = map_of e" "edit_names f = (pre @ [n]) @ wanted"
      using Cons.IH [OF e(3) e(1)] Cons.prems(4) by auto
    ultimately show ?thesis using e(2) by auto
  qed
qed

section \<open>When the device matches the backup\<close>

text \<open>
  The settings of the backup are there with their values, up to encrypted ones; its scopes and
  entries are there and match in turn; nothing else is there but empty scopes; and the entries
  of an ordered table stand in the order of the backup.
\<close>

fun agrees :: "bool \<Rightarrow> node \<Rightarrow> node \<Rightarrow> bool" where
  "agrees moving (Node line backup) live \<longleftrightarrow>
     (\<forall>kb \<in> set backup. case map_of (children live) (fst kb) of None \<Rightarrow> False
       | Some l \<Rightarrow> if verb_of (line_of (snd kb)) = ''set'' then line_of l = line_of (snd kb) \<or> is_enc (line_of (snd kb)) \<and> is_enc (line_of l)
           else agrees (ordered_scope [line_of (snd kb)]) (snd kb) l) \<and>
     (\<forall>kc \<in> set (children live). fst kc \<notin> set (keys_of backup) \<longrightarrow> leftover kc) \<and>
     (moving \<longrightarrow> edit_names (children live) = edit_names backup)"

declare agrees.simps [simp del]

definition like :: "node \<Rightarrow> node \<Rightarrow> bool" where
  "like b l \<longleftrightarrow> (if verb_of (line_of b) = ''set'' then line_of l = line_of b \<or> is_enc (line_of b) \<and> is_enc (line_of l)
     else agrees (ordered_scope [line_of b]) b l)"

lemma found_iff: "(case x of None \<Rightarrow> False | Some l \<Rightarrow> Q l) \<longleftrightarrow> (\<exists>y. x = Some y \<and> Q y)"
  by (cases x) auto

lemma agrees_iff: "agrees moving b l \<longleftrightarrow>
    (\<forall>kb \<in> set (children b). \<exists>y. map_of (children l) (fst kb) = Some y \<and> like (snd kb) y) \<and>
    (\<forall>kc \<in> set (children l). fst kc \<notin> set (keys_of (children b)) \<longrightarrow> leftover kc) \<and>
    (moving \<longrightarrow> edit_names (children l) = edit_names (children b))"
  by (cases b) (simp add: agrees.simps like_def found_iff)

lemma agrees_children: "children l = children m \<Longrightarrow> agrees moving b l = agrees moving b m"
  by (simp add: agrees_iff)

definition moves_for :: "(string \<times> node) list \<Rightarrow> (string \<times> node) list \<Rightarrow> string list" where
  "moves_for backup live = forti_moves (edit_names backup)
     (edit_names (filter (\<lambda>kc. fst kc \<in> set (keys_of backup)) live) @ filter (\<lambda>n. ''edit '' @ n \<notin> set (keys_of live)) (edit_names backup))"

lemma restore_cmds_split: "restore_cmds moving b l =
    concat (map (one_cmds (children l)) (children b)) @
    concat (map (extra_cmds clear_cmds) (filter (\<lambda>kc. fst kc \<notin> set (keys_of (children b))) (children l))) @
    (if moving then moves_for (children b) (children l) else [])"
  by (cases b) (simp add: restore_cmds.simps one_cmds_def [abs_def] moves_for_def Let_def)

lemma agrees_refl: "forti_tree b \<Longrightarrow> agrees moving b b"
proof (induction b arbitrary: moving rule: forti_body.induct)
  case (1 line ch)
  have "\<exists>y. map_of ch (fst kb) = Some y \<and> like (snd kb) y" if "kb \<in> set ch" for kb
  proof -
    have "map_of ch (fst kb) = Some (snd kb)" using 1(2) that by (intro map_of_distinct) auto
    moreover have "like (snd kb) (snd kb)" using 1(1) [OF that] 1(2) that by (auto simp: like_def)
    ultimately show ?thesis by blast
  qed
  then show ?case by (auto simp: agrees_iff keys_of_def)
qed

lemma put_same: "map_of d k = Some v \<Longrightarrow> put k v d = d"
  by (induction d) (auto simp: put_def split: if_splits)

lemma forti_dict_put:
  assumes "forti_dict d" "forti_entry k n" "forti_tree n"
  shows "forti_dict (put k n d)"
  unfolding forti_dict_def
proof
  show dist: "distinct (keys_of (put k n d))" using assms(1) by (simp add: keys_put forti_dict_def)
  show "\<forall>kc \<in> set (put k n d). forti_entry (fst kc) (snd kc) \<and> forti_tree (snd kc)"
  proof
    fix kc assume "kc \<in> set (put k n d)"
    then have "map_of (put k n d) (fst kc) = Some (snd kc)" using dist by (intro map_of_distinct) auto
    then show "forti_entry (fst kc) (snd kc) \<and> forti_tree (snd kc)"
      using assms forti_dict_lookup [OF assms(1), of "fst kc" "snd kc"] by (auto split: if_splits)
  qed
qed

lemma exec_one:
  assumes IH: "\<And>l line rest. verb_of (line_of b) \<noteq> ''set'' \<Longrightarrow> forti_tree l \<Longrightarrow>
      \<exists>d. exec_cmds (restore_cmds (ordered_scope [line_of b]) b l) ((line, children l) # rest) = Some ((line, d) # rest) \<and>
        forti_dict d \<and> agrees (ordered_scope [line_of b]) b (Node line d)"
    and "forti_entry k b" "forti_tree b" "forti_dict ls" "map_of d k = map_of ls k"
  shows "\<exists>y. exec_cmds (one_cmds ls (k, b)) ((line, d) # rest) = Some ((line, put k y d) # rest) \<and> forti_entry k y \<and> forti_tree y \<and> like b y"
proof (cases "verb_of (line_of b) = ''set''")
  case True
  then have b: "set_line (line_of b)" "k = forti_key (line_of b)" "b = Node (line_of b) []"
    using assms(2) by (auto elim!: forti_entry_cases simp: forti_key_set) (metis node.collapse)
  show ?thesis
  proof (cases "one_cmds ls (k, b) = []")
    case same: True
    then obtain l where l: "map_of ls k = Some l" "like b l" using True by (auto simp: one_cmds_def like_def split: option.splits if_splits)
    then show ?thesis using same forti_dict_lookup [OF assms(4) l(1)] assms(5) by (intro exI [of _ l]) (simp add: put_same)
  next
    case False
    then have "one_cmds ls (k, b) = [line_of b]" using True by (auto simp: one_cmds_def split: option.splits if_splits)
    moreover have "exec_line (line_of b) ((line, d) # rest) = Some ((line, put k b d) # rest)" using exec_set [OF b(1), of line d rest] b(2,3) by simp
    ultimately show ?thesis using True assms(2,3) by (intro exI [of _ b]) (simp add: like_def)
  qed
next
  case False
  then have k: "scope_line k" "k = line_of b" "closer k = closer (line_of b)" using assms(2) by (auto elim!: forti_entry_cases simp: scope_line_def)
  show ?thesis
  proof (cases "map_of ls k")
    case None
    then have held: "held k d = []" using assms(5) by (simp add: held_def)
    have "exec_cmds (forti_body b) ((k, held k d) # (line, d) # rest) = Some ((k, children b) # (line, d) # rest)"
      unfolding held using exec_body [OF assms(3), of "[]"] by simp
    then have "exec_cmds (k # forti_body b @ [closer k]) ((line, d) # rest) = Some ((line, put k (Node k (children b)) d) # rest)" by (rule exec_in_scope [OF k(1)])
    moreover have "Node k (children b) = b" using k(2) by simp
    ultimately show ?thesis using None False assms(2,3) agrees_refl [OF assms(3)] k(2) by (intro exI [of _ b]) (simp add: one_cmds_def like_def)
  next
    case (Some l)
    have l: "forti_entry k l" "forti_tree l" "held k d = children l" using Some assms(4,5) forti_dict_lookup by (auto simp: held_def)
    define cs where "cs = restore_cmds (ordered_scope [line_of b]) b l"
    obtain e where e: "exec_cmds cs ((k, held k d) # (line, d) # rest) = Some ((k, e) # (line, d) # rest)" "forti_dict e"
        "agrees (ordered_scope [line_of b]) b (Node k e)"
      using IH [OF False l(2)] unfolding l(3) cs_def by blast
    show ?thesis
    proof (cases "cs = []")
      case True
      then have "e = children l" using e(1) l(3) by simp
      then have "like b l" using e(3) False agrees_children [of "Node k e" l] by (simp add: like_def)
      then show ?thesis using True Some l assms(5) False by (intro exI [of _ l]) (simp add: one_cmds_def wrapped_def cs_def put_same)
    next
      case ne: False
      have "exec_cmds (k # cs @ [closer k]) ((line, d) # rest) = Some ((line, put k (Node k e) d) # rest)" by (rule exec_in_scope [OF k(1) e(1)])
      moreover have "forti_entry k (Node k e)" using k(1) by (auto simp: forti_entry_def scope_line_def dest: line_verbs(1))
      ultimately show ?thesis
        using ne Some False e(2,3) k(2) by (intro exI [of _ "Node k e"]) (simp add: one_cmds_def wrapped_def cs_def like_def forti_tree_dict del: forti_tree.simps)
    qed
  qed
qed

lemma exec_loop:
  assumes IH: "\<And>kb l line rest. kb \<in> set bs \<Longrightarrow> verb_of (line_of (snd kb)) \<noteq> ''set'' \<Longrightarrow> forti_tree (snd kb) \<Longrightarrow> forti_tree l \<Longrightarrow>
      \<exists>d. exec_cmds (restore_cmds (ordered_scope [line_of (snd kb)]) (snd kb) l) ((line, children l) # rest) = Some ((line, d) # rest) \<and>
        forti_dict d \<and> agrees (ordered_scope [line_of (snd kb)]) (snd kb) (Node line d)"
    and "forti_dict bs" "forti_dict ls" "forti_dict d" "\<forall>k \<in> set (keys_of bs). map_of d k = map_of ls k"
  shows "\<exists>e. exec_cmds (concat (map (one_cmds ls) bs)) ((line, d) # rest) = Some ((line, e) # rest) \<and> forti_dict e \<and>
    keys_of e = keys_of d @ filter (\<lambda>k. k \<notin> set (keys_of d)) (keys_of bs) \<and>
    (\<forall>k. k \<notin> set (keys_of bs) \<longrightarrow> map_of e k = map_of d k) \<and> (\<forall>kb \<in> set bs. \<exists>y. map_of e (fst kb) = Some y \<and> like (snd kb) y)"
  using assms
proof (induction bs arbitrary: d)
  case (Cons kb bs)
  obtain k b where kb: "kb = (k, b)" by fastforce
  have entry: "forti_entry k b" "forti_tree b" "k \<notin> set (keys_of bs)" "forti_dict bs" using Cons.prems(2) by (simp_all add: kb forti_dict_Cons)
  have "\<exists>y. exec_cmds (one_cmds ls (k, b)) ((line, d) # rest) = Some ((line, put k y d) # rest) \<and> forti_entry k y \<and> forti_tree y \<and> like b y"
  proof (rule exec_one)
    fix l line' rest' assume "verb_of (line_of b) \<noteq> ''set''" "forti_tree l"
    then show "\<exists>d. exec_cmds (restore_cmds (ordered_scope [line_of b]) b l) ((line', children l) # rest') = Some ((line', d) # rest') \<and>
        forti_dict d \<and> agrees (ordered_scope [line_of b]) b (Node line' d)"
      using Cons.prems(1) [of kb l line' rest'] entry(2) kb by simp
  qed (use Cons.prems entry kb in auto)
  then obtain y where y: "exec_cmds (one_cmds ls kb) ((line, d) # rest) = Some ((line, put k y d) # rest)" "forti_entry k y" "forti_tree y" "like b y"
    unfolding kb by blast
  have "\<exists>e. exec_cmds (concat (map (one_cmds ls) bs)) ((line, put k y d) # rest) = Some ((line, e) # rest) \<and> forti_dict e \<and>
    keys_of e = keys_of (put k y d) @ filter (\<lambda>k'. k' \<notin> set (keys_of (put k y d))) (keys_of bs) \<and>
    (\<forall>k'. k' \<notin> set (keys_of bs) \<longrightarrow> map_of e k' = map_of (put k y d) k') \<and> (\<forall>kb \<in> set bs. \<exists>y. map_of e (fst kb) = Some y \<and> like (snd kb) y)"
  proof (rule Cons.IH)
    show "forti_dict (put k y d)" using Cons.prems(4) y(2,3) by (rule forti_dict_put)
    show "\<forall>k' \<in> set (keys_of bs). map_of (put k y d) k' = map_of ls k'" using Cons.prems(5) entry(3) by (auto simp: kb)
  qed (use Cons.prems entry in auto)
  then obtain e where e: "exec_cmds (concat (map (one_cmds ls) bs)) ((line, put k y d) # rest) = Some ((line, e) # rest)" "forti_dict e"
      "keys_of e = keys_of (put k y d) @ filter (\<lambda>k'. k' \<notin> set (keys_of (put k y d))) (keys_of bs)"
      "\<forall>k'. k' \<notin> set (keys_of bs) \<longrightarrow> map_of e k' = map_of (put k y d) k'" "\<forall>kb \<in> set bs. \<exists>y. map_of e (fst kb) = Some y \<and> like (snd kb) y" by blast
  have "keys_of e = keys_of d @ filter (\<lambda>k'. k' \<notin> set (keys_of d)) (keys_of (kb # bs))"
  proof (cases "k \<in> set (keys_of d)")
    case True
    then show ?thesis using e(3) by (simp add: keys_put kb)
  next
    case False
    have "filter (\<lambda>k'. k' \<notin> set (keys_of d @ [k])) (keys_of bs) = filter (\<lambda>k'. k' \<notin> set (keys_of d)) (keys_of bs)"
      using entry(3) by (intro filter_cong) auto
    then show ?thesis using e(3) False by (simp add: keys_put kb)
  qed
  moreover have "map_of e k = Some y" using e(4) entry(3) by simp
  ultimately show ?case using e(1,2,4,5) y(1,4) by (intro exI [of _ e]) (simp add: exec_append kb)
qed auto

lemma filter_keys_eq:
  assumes "keys_of d = keys_of e" "distinct (keys_of d)" "\<forall>k. P k \<longrightarrow> map_of d k = map_of e k"
  shows "filter (\<lambda>kc. P (fst kc)) d = filter (\<lambda>kc. P (fst kc)) e"
proof -
  have "length d = length e" using assms(1) by (metis keys_of_def length_map)
  then show ?thesis using assms
  proof (induction d e rule: list_induct2)
    case (Cons x xs y ys)
    have "fst y = fst x" "fst x \<notin> set (keys_of xs)" "fst x \<notin> set (keys_of ys)" "keys_of xs = keys_of ys" using Cons.prems by auto
    then have "\<forall>k. P k \<longrightarrow> map_of xs k = map_of ys k"
      using Cons.prems(3) map_of_keys [of xs "fst x"] map_of_keys [of ys "fst x"] by (metis fst_conv map_of_Cons_code(2) prod.collapse)
    moreover have "P (fst x) \<Longrightarrow> x = y" using Cons.prems(3) \<open>fst y = fst x\<close>
      by (metis map_of_Cons_code(2) option.inject prod.collapse)
    ultimately show ?case using Cons.IH Cons.prems \<open>fst y = fst x\<close> by auto
  qed simp
qed

lemma map_of_filter_keys: "P k \<Longrightarrow> map_of (filter (\<lambda>kc. P (fst kc)) d) k = map_of d k"
  by (induction d) auto

lemma edit_names_of_keys: "keys_of d = keys_of e \<Longrightarrow> edit_names d = edit_names e"
  by (simp add: edit_names_def)

lemma edit_names_append [simp]: "edit_names (a @ b) = edit_names a @ edit_names b"
  by (simp add: edit_names_def)

lemma edit_names_filter:
  assumes "forti_dict d" "\<forall>kc \<in> set d. P kc \<or> leftover kc"
  shows "edit_names (filter P d) = edit_names d"
proof -
  have "P kc" if "kc \<in> set d" "prefix ''edit '' (fst kc)" for kc
  proof -
    have "forti_entry (fst kc) (snd kc)" using assms(1) that(1) by (auto simp: forti_dict_def)
    then have "verb_of (fst kc) = ''edit''" using edit_key(1) that(2) by blast
    then show ?thesis using assms(2) that(1) by (auto simp: leftover_def)
  qed
  then have "filter (\<lambda>kc. prefix ''edit '' (fst kc)) (filter P d) = filter (\<lambda>kc. prefix ''edit '' (fst kc)) d"
    by (auto simp: filter_filter intro: filter_cong)
  moreover have "edit_names x = map (\<lambda>kc. the (arg_of (fst kc))) (filter (\<lambda>kc. prefix ''edit '' (fst kc)) x)" for x
    by (induction x) (auto simp: edit_names_def)
  ultimately show ?thesis by simp
qed

lemma edit_names_new:
  assumes "forti_dict bs" "keys_of e = filter (\<lambda>k. k \<notin> set ks) (keys_of bs)"
  shows "edit_names e = filter (\<lambda>n. cmd ''edit'' n \<notin> set ks) (edit_names bs)"
proof -
  have "filter (prefix ''edit '') (keys_of e) = filter (\<lambda>k. k \<notin> set ks) (filter (prefix ''edit '') (keys_of bs))"
    unfolding assms(2) by (simp add: filter_filter conj_commute)
  also have "\<dots> = map (cmd ''edit'') (filter (\<lambda>n. cmd ''edit'' n \<notin> set ks) (edit_names bs))"
    unfolding edit_names_keys(1) [OF assms(1)] by (simp add: filter_map comp_def)
  finally show ?thesis
    using edit_names_keys(2) [OF assms(1)] by (auto simp: edit_names_def [of e] comp_def intro!: map_idI)
qed

lemma edit_names_same:
  assumes "forti_dict d" "forti_dict bs" "\<forall>k \<in> set (keys_of bs). k \<in> set (keys_of d)" "\<forall>kc \<in> set d. fst kc \<in> set (keys_of bs) \<or> leftover kc"
  shows "set (edit_names d) = set (edit_names bs)"
proof -
  have "edit_names d = edit_names (filter (\<lambda>kc. fst kc \<in> set (keys_of bs)) d)" using edit_names_filter [OF assms(1)] assms(4) by metis
  then have "n \<in> set (edit_names bs)" if "n \<in> set (edit_names d)" for n
    using that by (auto simp: edit_names_def keys_of_def)
  moreover have "n \<in> set (edit_names d)" if "n \<in> set (edit_names bs)" for n
    using that edit_names_keys(4) [OF assms(1), of n] edit_names_keys(4) [OF assms(2), of n] assms(3) by auto
  ultimately show ?thesis by blast
qed

lemma exec_after_loop:
  assumes ls: "forti_dict ls" and bs: "forti_dict bs" and e: "forti_dict e" "keys_of e = keys_of ls @ filter (\<lambda>k. k \<notin> set (keys_of ls)) (keys_of bs)"
    "\<forall>k. k \<notin> set (keys_of bs) \<longrightarrow> map_of e k = map_of ls k"
  shows "\<exists>f. exec_cmds (concat (map (extra_cmds clear_cmds) (filter (\<lambda>kc. fst kc \<notin> set (keys_of bs)) ls))) ((line, e) # rest) = Some ((line, f) # rest) \<and>
    forti_dict f \<and> (\<forall>k \<in> set (keys_of bs). map_of f k = map_of e k) \<and> (\<forall>kc \<in> set f. fst kc \<in> set (keys_of bs) \<or> leftover kc) \<and>
    edit_names f = edit_names (filter (\<lambda>kc. fst kc \<in> set (keys_of bs)) ls) @ filter (\<lambda>n. ''edit '' @ n \<notin> set (keys_of ls)) (edit_names bs)"
proof -
  define P where "P k \<longleftrightarrow> k \<notin> set (keys_of bs)" for k
  define old new where "old = take (length ls) e" and "new = drop (length ls) e"
  have split: "e = [] @ old @ new" by (simp add: old_def new_def)
  have keys: "keys_of old = keys_of ls" "keys_of new = filter (\<lambda>k. k \<notin> set (keys_of ls)) (keys_of bs)"
    using e(2) by (auto simp: old_def new_def keys_of_def take_map [symmetric] drop_map [symmetric])
  have new_in: "\<not> P (fst kc)" if "kc \<in> set new" for kc
  proof -
    have "fst kc \<in> set (keys_of new)" using that by (simp add: keys_of_def)
    then show ?thesis unfolding keys(2) by (simp add: P_def)
  qed
  have "map_of old k = map_of ls k" if "P k" for k
  proof -
    have "map_of new k = None" using that keys(2) map_of_keys [of new k] by (auto simp: P_def)
    moreover have "map_of e k = map_of (old @ new) k" using split by simp
    ultimately have "map_of e k = map_of old k" by (simp add: map_add_def split: option.splits)
    then show ?thesis using e(3) that by (simp add: P_def)
  qed
  then have "\<forall>k. P k \<longrightarrow> map_of old k = map_of ls k" by blast
  moreover have "distinct (keys_of old)" using ls by (simp add: keys(1) forti_dict_def)
  ultimately have same: "filter (\<lambda>kc. P (fst kc)) old = filter (\<lambda>kc. P (fst kc)) ls" using keys(1) by (intro filter_keys_eq) auto
  have "\<exists>left. exec_cmds (concat (map (extra_cmds clear_cmds) (filter (\<lambda>kc. P (fst kc)) old))) ((line, [] @ old @ new) # rest) =
      Some ((line, [] @ left @ new) # rest) \<and> forti_dict ([] @ left @ new) \<and>
    filter (\<lambda>kc. \<not> P (fst kc)) left = filter (\<lambda>kc. \<not> P (fst kc)) old \<and> (\<forall>kc \<in> set left. P (fst kc) \<longrightarrow> leftover kc) \<and> set (keys_of left) \<subseteq> set (keys_of old)"
    using exec_clear e(1) split by (intro exec_extras) auto
  then obtain left where left: "exec_cmds (concat (map (extra_cmds clear_cmds) (filter (\<lambda>kc. P (fst kc)) old))) ((line, e) # rest) = Some ((line, left @ new) # rest)"
      "forti_dict (left @ new)" "filter (\<lambda>kc. \<not> P (fst kc)) left = filter (\<lambda>kc. \<not> P (fst kc)) old" "\<forall>kc \<in> set left. P (fst kc) \<longrightarrow> leftover kc"
    using split by auto
  have kept: "map_of (left @ new) k = map_of e k" if "k \<in> set (keys_of bs)" for k
  proof -
    have "\<not> P k" using that by (simp add: P_def)
    then have "map_of left k = map_of old k" using left(3) map_of_filter_keys [of "\<lambda>k. \<not> P k" k left] map_of_filter_keys [of "\<lambda>k. \<not> P k" k old] by simp
    then show ?thesis by (subst split) (simp add: map_add_def)
  qed
  have filter_keys: "keys_of (filter (\<lambda>kc. \<not> P (fst kc)) d) = filter (\<lambda>k. \<not> P k) (keys_of d)" for d :: "(string \<times> node) list" by (induction d) auto
  have "edit_names left = edit_names (filter (\<lambda>kc. \<not> P (fst kc)) left)"
    using edit_names_filter [of left "\<lambda>kc. \<not> P (fst kc)"] left(2,4) by (auto simp: forti_dict_append)
  also have "\<dots> = edit_names (filter (\<lambda>kc. \<not> P (fst kc)) ls)" unfolding left(3) by (rule edit_names_of_keys) (simp add: filter_keys keys(1))
  finally have names: "edit_names (left @ new) = edit_names (filter (\<lambda>kc. fst kc \<in> set (keys_of bs)) ls) @ filter (\<lambda>n. ''edit '' @ n \<notin> set (keys_of ls)) (edit_names bs)"
    using edit_names_new [OF bs keys(2)] by (simp add: P_def edit_cmd del: append.simps)
  have "\<forall>kc \<in> set (left @ new). fst kc \<in> set (keys_of bs) \<or> leftover kc" using left(4) new_in by (auto simp: P_def)
  moreover have "exec_cmds (concat (map (extra_cmds clear_cmds) (filter (\<lambda>kc. fst kc \<notin> set (keys_of bs)) ls))) ((line, e) # rest) = Some ((line, left @ new) # rest)"
    using left(1) unfolding same unfolding P_def .
  ultimately show ?thesis using left(2) kept names by (intro exI [of _ "left @ new"] conjI) (assumption | blast)+
qed

lemma exec_restore:
  "forti_tree b \<Longrightarrow> forti_tree l \<Longrightarrow> \<exists>d. exec_cmds (restore_cmds moving b l) ((line, children l) # rest) = Some ((line, d) # rest) \<and>
     forti_dict d \<and> agrees moving b (Node line d)"
proof (induction b arbitrary: moving l line rest rule: forti_body.induct)
  case (1 bl bs)
  have dicts: "forti_dict bs" "forti_dict (children l)" using 1(2,3) by (simp_all add: forti_dict_def forti_tree_dict [of l])
  have "\<exists>e. exec_cmds (concat (map (one_cmds (children l)) bs)) ((line, children l) # rest) = Some ((line, e) # rest) \<and> forti_dict e \<and>
    keys_of e = keys_of (children l) @ filter (\<lambda>k. k \<notin> set (keys_of (children l))) (keys_of bs) \<and>
    (\<forall>k. k \<notin> set (keys_of bs) \<longrightarrow> map_of e k = map_of (children l) k) \<and> (\<forall>kb \<in> set bs. \<exists>y. map_of e (fst kb) = Some y \<and> like (snd kb) y)"
    by (rule exec_loop) (use 1(1) dicts in auto)
  then obtain e where e: "exec_cmds (concat (map (one_cmds (children l)) bs)) ((line, children l) # rest) = Some ((line, e) # rest)" "forti_dict e"
      "keys_of e = keys_of (children l) @ filter (\<lambda>k. k \<notin> set (keys_of (children l))) (keys_of bs)"
      "\<forall>k. k \<notin> set (keys_of bs) \<longrightarrow> map_of e k = map_of (children l) k" "\<forall>kb \<in> set bs. \<exists>y. map_of e (fst kb) = Some y \<and> like (snd kb) y" by blast
  obtain f where f: "exec_cmds (concat (map (extra_cmds clear_cmds) (filter (\<lambda>kc. fst kc \<notin> set (keys_of bs)) (children l)))) ((line, e) # rest) = Some ((line, f) # rest)"
      "forti_dict f" "\<forall>k \<in> set (keys_of bs). map_of f k = map_of e k" "\<forall>kc \<in> set f. fst kc \<in> set (keys_of bs) \<or> leftover kc"
      "edit_names f = edit_names (filter (\<lambda>kc. fst kc \<in> set (keys_of bs)) (children l)) @ filter (\<lambda>n. ''edit '' @ n \<notin> set (keys_of (children l))) (edit_names bs)"
    using exec_after_loop [OF dicts(2,1) e(2,3,4), of line rest] by blast
  have found: "\<exists>y. map_of f (fst kb) = Some y \<and> like (snd kb) y" if "kb \<in> set bs" for kb
    using e(5) f(3) that by (auto simp: keys_of_def)
  then have "\<forall>k \<in> set (keys_of bs). k \<in> set (keys_of f)" using map_of_keys [of f] by (force simp: keys_of_def)
  then have names: "set (edit_names f) = set (edit_names bs)" using f(2,4) dicts(1) by (intro edit_names_same)
  obtain g where g: "exec_cmds (if moving then moves_for bs (children l) else []) ((line, f) # rest) = Some ((line, g) # rest)"
      "forti_dict g" "map_of g = map_of f" "moving \<longrightarrow> edit_names g = edit_names bs"
  proof (cases moving)
    case True
    have "\<exists>g. exec_cmds (moves_from 0 (edit_names bs) (edit_names f)) ((line, f) # rest) = Some ((line, g) # rest) \<and>
        forti_dict g \<and> map_of g = map_of f \<and> edit_names g = edit_names bs"
      using exec_moves [OF f(2), of "[]" "edit_names f" "edit_names bs" line rest] names edit_names_keys(3) [OF dicts(1)] by simp
    moreover have "filter (\<lambda>c. c \<in> set (edit_names bs)) (edit_names f) = edit_names f" using names by (auto intro: filter_True)
    then have "moves_for bs (children l) = moves_from 0 (edit_names bs) (edit_names f)" by (simp only: moves_for_def forti_moves_def f(5))
    ultimately show thesis using True that by auto
  next
    case False
    then show thesis using that [of f] f(2) by simp
  qed
  have "leftover kc" if "kc \<in> set g" "fst kc \<notin> set (keys_of bs)" for kc
  proof -
    have "map_of g (fst kc) = Some (snd kc)" using g(2) that(1) by (intro map_of_distinct) (auto simp: forti_dict_def)
    then have "kc \<in> set f" using g(3) map_of_SomeD [of f "fst kc" "snd kc"] by simp
    then show ?thesis using f(4) that(2) by blast
  qed
  then have "agrees moving (Node bl bs) (Node line g)" using found g(3,4) by (simp add: agrees_iff)
  moreover have "exec_cmds (restore_cmds moving (Node bl bs) l) ((line, children l) # rest) = Some ((line, g) # rest)"
    unfolding restore_cmds_split node.sel exec_append e(1) Option.bind.bind_lunit f(1) g(1) ..
  ultimately show ?case using g(2) by blast
qed

lemma moves_from_same: "moves_from (length pre) w (pre @ w) = []"
proof (induction w arbitrary: pre)
  case (Cons n w)
  then show ?case using Cons [of "pre @ [n]"] by simp
qed simp

lemma moves_for_same:
  assumes "forti_dict ls" "edit_names ls = edit_names bs" "\<forall>k \<in> set (keys_of bs). k \<in> set (keys_of ls)" "forti_dict bs"
    and "\<forall>kc \<in> set ls. fst kc \<notin> set (keys_of bs) \<longrightarrow> leftover kc"
  shows "moves_for bs ls = []"
proof -
  have "edit_names (filter (\<lambda>kc. fst kc \<in> set (keys_of bs)) ls) = edit_names bs" using edit_names_filter [OF assms(1)] assms(2,5) by metis
  moreover have "filter (\<lambda>n. ''edit '' @ n \<notin> set (keys_of ls)) (edit_names bs) = []"
    unfolding edit_cmd filter_empty_conv using edit_names_keys(4) [OF assms(4)] assms(3) by auto
  ultimately have "moves_for bs ls = moves_from 0 (edit_names bs) (filter (\<lambda>c. c \<in> set (edit_names bs)) (edit_names bs))"
    by (simp only: moves_for_def forti_moves_def append_Nil2)
  then show ?thesis using moves_from_same [of "[]" "edit_names bs"] by (simp cong: filter_cong)
qed

lemma agrees_no_commands: "forti_tree b \<Longrightarrow> forti_tree l \<Longrightarrow> agrees moving b l \<Longrightarrow> restore_cmds moving b l = []"
proof (induction b arbitrary: moving l rule: forti_body.induct)
  case (1 bl bs)
  have dicts: "forti_dict bs" "forti_dict (children l)" using 1(2,3) by (simp_all add: forti_dict_def forti_tree_dict [of l])
  have ag: "\<forall>kb \<in> set bs. \<exists>y. map_of (children l) (fst kb) = Some y \<and> like (snd kb) y"
      "\<forall>kc \<in> set (children l). fst kc \<notin> set (keys_of bs) \<longrightarrow> leftover kc" "moving \<longrightarrow> edit_names (children l) = edit_names bs"
    using 1(4) by (simp_all add: agrees_iff)
  have "one_cmds (children l) kb = []" if kb: "kb \<in> set bs" for kb
  proof -
    obtain y where y: "map_of (children l) (fst kb) = Some y" "like (snd kb) y" using ag(1) kb by blast
    then have "forti_tree y" "forti_tree (snd kb)" using forti_dict_lookup [OF dicts(2) y(1)] 1(2) kb by auto
    then show ?thesis using y 1(1) [OF kb, of y] by (auto simp: one_cmds_def like_def wrapped_def)
  qed
  moreover have "extra_cmds clear_cmds kc = []" if "kc \<in> set (children l)" "fst kc \<notin> set (keys_of bs)" for kc
    using ag(2) that leftover_extra [of kc] dicts(2) by (auto simp: forti_dict_def)
  moreover have "\<forall>k \<in> set (keys_of bs). k \<in> set (keys_of (children l))"
  proof
    fix k assume "k \<in> set (keys_of bs)"
    then obtain kb where "kb \<in> set bs" "fst kb = k" by (auto simp: keys_of_def)
    then show "k \<in> set (keys_of (children l))" using ag(1) map_of_keys [of "children l" k] by force
  qed
  then have "moves_for bs (children l) = []" if moving using moves_for_same dicts ag(2,3) that by blast
  ultimately show ?case by (auto simp: restore_cmds_split)
qed

theorem no_commands_iff_agrees:
  assumes "forti_tree b" "forti_tree l"
  shows "restore_cmds moving b l = [] \<longleftrightarrow> agrees moving b l"
proof
  assume none: "restore_cmds moving b l = []"
  obtain d where "exec_cmds (restore_cmds moving b l) [([], children l)] = Some [([], d)]" "agrees moving b (Node [] d)"
    using exec_restore [OF assms, of moving "[]" "[]"] by blast
  then show "agrees moving b l" using none agrees_children [of "Node [] d" l] by simp
qed (rule agrees_no_commands [OF assms])

end
