(* ===== verification/Forti_Text.thy ===== *)
theory Forti_Text
  imports Forti_Restore
begin

text \<open>
  From the text of a configuration to its tree and back. A text whose lines have the form the
  device prints is read without an error into a well-formed tree; printing a tree and reading
  it again gives the tree; and the restore as a whole: reading both texts, sending the commands
  and reading the configuration again finds no difference.
\<close>

section \<open>From the text of a configuration and back\<close>

definition printed :: "string \<Rightarrow> bool" where
  "printed l \<longleftrightarrow> (verb_of l = ''config'' \<longrightarrow> config_line l) \<and> (verb_of l = ''edit'' \<longrightarrow> edit_line l) \<and> (verb_of l = ''set'' \<longrightarrow> set_line l)"

text \<open>A line the parser keeps as it is.\<close>

definition tidy :: "string \<Rightarrow> bool" where
  "tidy l \<longleftrightarrow> forti_line_kept l \<and> py_strip l = l \<and> \<not> list_ex line_break l \<and> printed l \<and> \<not> (verb_of l = ''set'' \<and> set_name l \<in> set VOLATILE_SET_KEYS)"

fun tree_lines :: "node \<Rightarrow> string list" where
  "tree_lines (Node line ch) = concat (map (\<lambda>kc. line_of (snd kc) # tree_lines (snd kc)) ch)"

definition dict_lines :: "(string \<times> node) list \<Rightarrow> string list" where
  "dict_lines d = concat (map (\<lambda>kc. line_of (snd kc) # tree_lines (snd kc)) d)"

lemma tree_lines_dict: "tree_lines n = dict_lines (children n)"
  by (cases n) (simp add: dict_lines_def)

declare tree_lines.simps [simp del]

definition lines_ok :: "node \<Rightarrow> bool" where
  "lines_ok n \<longleftrightarrow> list_all tidy (tree_lines n)"

lemma lines_ok_iff: "lines_ok n \<longleftrightarrow> (\<forall>kc \<in> set (children n). tidy (line_of (snd kc)) \<and> lines_ok (snd kc))"
  by (cases n) (auto simp: lines_ok_def tree_lines.simps list_all_iff)

lemma scope_line_verb: "scope_line k \<Longrightarrow> verb_of k \<in> {''config'', ''edit''}" "scope_line k \<Longrightarrow> \<not> set_line k"
  by (auto simp: scope_line_def dest: line_verbs)

lemma scope_entry:
  assumes "scope_line k" "forti_entry k n"
  shows "line_of n = k"
  using assms(2)
proof (cases rule: forti_entry_cases)
  case setting
  then have "verb_of k = ''set''" by simp
  then show ?thesis using scope_line_verb(1) [OF assms(1)] by simp
qed simp_all

lemma scope_entryI: "scope_line k \<Longrightarrow> line_of n = k \<Longrightarrow> forti_entry k n"
  using scope_line_verb(2) [of k] by (auto simp: forti_entry_def scope_line_def)

lemma update_at_ok:
  assumes "\<And>m. forti_tree m \<and> lines_ok m \<Longrightarrow> forti_tree (f m) \<and> lines_ok (f m) \<and> line_of (f m) = line_of m"
  shows "\<forall>k \<in> set path. scope_line k \<Longrightarrow> forti_tree n \<and> lines_ok n \<Longrightarrow>
    forti_tree (update_at path f n) \<and> lines_ok (update_at path f n) \<and> line_of (update_at path f n) = line_of n"
proof (induction path arbitrary: n)
  case (Cons k path)
  obtain line ch where n: "n = Node line ch" by (cases n)
  define g where "g = (\<lambda>kc. if fst kc = k then (k, update_at path f (snd kc)) else kc)"
  have g: "fst (g kc) = fst kc" "forti_entry (fst kc) (snd (g kc)) \<and> forti_tree (snd (g kc)) \<and> tidy (line_of (snd (g kc))) \<and> lines_ok (snd (g kc))"
    if "kc \<in> set ch" for kc
  proof -
    have kc: "forti_entry (fst kc) (snd kc)" "forti_tree (snd kc) \<and> lines_ok (snd kc)" "tidy (line_of (snd kc))"
      using Cons.prems(2) n that lines_ok_iff [of n] by auto
    show "fst (g kc) = fst kc" by (simp add: g_def)
    show "forti_entry (fst kc) (snd (g kc)) \<and> forti_tree (snd (g kc)) \<and> tidy (line_of (snd (g kc))) \<and> lines_ok (snd (g kc))"
    proof (cases "fst kc = k")
      case True
      have "forti_tree (update_at path f (snd kc)) \<and> lines_ok (update_at path f (snd kc)) \<and> line_of (update_at path f (snd kc)) = line_of (snd kc)"
        using Cons.IH [of "snd kc"] Cons.prems(1) kc(2) by simp
      moreover have "scope_line k" "line_of (snd kc) = k" using Cons.prems(1) scope_entry [of k "snd kc"] kc(1) True by auto
      ultimately show ?thesis using True kc(3) scope_entryI by (simp add: g_def)
    qed (use kc in \<open>simp add: g_def\<close>)
  qed
  have "keys_of (map g ch) = keys_of ch" using g(1) by (simp add: keys_of_def)
  then have "forti_tree (Node line (map g ch))" using Cons.prems(2) n g by auto
  moreover have "lines_ok (Node line (map g ch))" using g(2) by (auto simp: lines_ok_iff [of "Node line (map g ch)"])
  ultimately show ?case by (simp add: n g_def)
qed (use assms in simp)

lemma put_lines_ok:
  assumes "forti_tree m \<and> lines_ok m" "forti_entry k n" "forti_tree n \<and> lines_ok n" "tidy (line_of n)"
  shows "forti_tree (Node (line_of m) (put k n (children m))) \<and> lines_ok (Node (line_of m) (put k n (children m)))"
proof -
  have m: "forti_dict (children m)" "\<forall>kc \<in> set (children m). tidy (line_of (snd kc)) \<and> lines_ok (snd kc)"
    using assms(1) forti_tree_dict [of m] lines_ok_iff [of m] by simp_all
  have "forti_dict (put k n (children m))" using m(1) assms(2,3) by (intro forti_dict_put) simp_all
  moreover have "tidy (line_of (snd kc)) \<and> lines_ok (snd kc)" if "kc \<in> set (put k n (children m))" for kc
  proof -
    have "map_of (put k n (children m)) (fst kc) = Some (snd kc)"
      using \<open>forti_dict (put k n (children m))\<close> that by (intro map_of_distinct) (auto simp: forti_dict_def)
    then show ?thesis using m(2) assms(3,4) map_of_SomeD [of "children m" "fst kc" "snd kc"] by (fastforce split: if_splits)
  qed
  ultimately show ?thesis
    using forti_tree_dict [of "Node (line_of m) (put k n (children m))"] lines_ok_iff [of "Node (line_of m) (put k n (children m))"] by simp
qed

lemma child_put: "child k l m = (if k \<in> set (keys_of (children m)) then m else Node (line_of m) (put k (Node l []) (children m)))"
  by (cases m) (simp add: child_def put_new)

lemma empty_ok [simp]: "forti_tree (Node l [])" "lines_ok (Node l [])"
  using lines_ok_iff [of "Node l []"] by simp_all

text \<open>Lines as they come out of \<^verbatim>\<open>_forti_lines\<close>.\<close>

definition raw_line :: "string \<Rightarrow> bool" where
  "raw_line l \<longleftrightarrow> forti_line_kept l \<and> py_strip l = l \<and> \<not> list_ex line_break l \<and> printed l"

lemma set_arg:
  assumes "set_line l"
  shows "arg_of (forti_key l) = Some (set_name l)"
  using forti_key_set [OF assms] by simp

lemma forti_line_ok:
  assumes "raw_line l" "\<forall>k \<in> set path. scope_line k" "forti_tree n \<and> lines_ok n"
  shows "\<exists>path' n'. forti_line l (path, n) = Inr (path', n') \<and> (\<forall>k \<in> set path'. scope_line k) \<and> forti_tree n' \<and> lines_ok n'"
proof -
  have p: "printed l" using assms(1) by (simp add: raw_line_def)
  consider (open_scope) "verb_of l \<in> {''config'', ''edit''}" | (close_scope) "verb_of l \<in> {''end'', ''next''}"
    | (setting) "verb_of l = ''set''" | (other) "verb_of l \<notin> {''config'', ''edit'', ''end'', ''next'', ''set''}" by blast
  then show ?thesis
  proof cases
    case open_scope
    then have "scope_line l" using p unfolding printed_def scope_line_def by blast
    moreover have "verb_of l \<noteq> ''set''" using open_scope by auto
    ultimately have l: "scope_line l" "tidy l" using assms(1) by (simp_all add: tidy_def raw_line_def)
    have "forti_tree (child l l m) \<and> lines_ok (child l l m) \<and> line_of (child l l m) = line_of m" if "forti_tree m \<and> lines_ok m" for m
      using that put_lines_ok [OF that scope_entryI [OF l(1), of "Node l []"]] l(2) by (simp add: child_put)
    then have "forti_tree (update_at path (child l l) n) \<and> lines_ok (update_at path (child l l) n)"
      using update_at_ok [of "child l l" path n] assms(2,3) by blast
    then show ?thesis using open_scope l(1) assms(2) by (auto simp: forti_line_def Let_def)
  next
    case close_scope
    then show ?thesis using assms(2,3) by (auto simp: forti_line_def Let_def dest: in_set_butlastD)
  next
    case setting
    then have l: "set_line l" using p unfolding printed_def by blast
    define f where "f m = Node (line_of m) (put (forti_key l) (Node l []) (children m))" for m
    show ?thesis
    proof (cases "set_name l \<in> set VOLATILE_SET_KEYS")
      case True
      then show ?thesis using setting set_arg [OF l] assms(2,3) by (simp add: forti_line_def Let_def)
    next
      case False
      then have "tidy l" using assms(1) by (simp add: tidy_def raw_line_def)
      then have "forti_tree (f m) \<and> lines_ok (f m) \<and> line_of (f m) = line_of m" if "forti_tree m \<and> lines_ok m" for m
        using put_lines_ok [OF that, of "forti_key l" "Node l []"] l by (simp add: f_def forti_entry_def)
      then have "forti_tree (update_at path f n) \<and> lines_ok (update_at path f n)" using update_at_ok [of f path n] assms(2,3) by blast
      then show ?thesis using setting set_arg [OF l] assms(2) False by (simp add: forti_line_def Let_def f_def [abs_def])
    qed
  next
    case other
    then show ?thesis using assms(2,3) by (simp add: forti_line_def Let_def)
  qed
qed

lemma forti_parse_ok:
  "\<forall>l \<in> set ls. raw_line l \<Longrightarrow> \<forall>k \<in> set path. scope_line k \<Longrightarrow> forti_tree n \<and> lines_ok n \<Longrightarrow>
    \<exists>path' n'. forti_parse ls (path, n) = Inr (path', n') \<and> forti_tree n' \<and> lines_ok n'"
proof (induction ls arbitrary: path n)
  case (Cons l ls)
  then obtain path' n' where "forti_line l (path, n) = Inr (path', n')" "\<forall>k \<in> set path'. scope_line k" "forti_tree n' \<and> lines_ok n'"
    using forti_line_ok [of l path n] by auto
  then show ?case using Cons.IH [of path' n'] Cons.prems(1) by simp
qed simp

lemma splitlines_clean: "\<not> list_ex line_break cur \<Longrightarrow> l \<in> set (splitlines_from cur s) \<Longrightarrow> \<not> list_ex line_break l"
  by (induction cur s rule: splitlines_from.induct) (auto split: if_splits)

lemma strip_strip: "py_strip (py_strip s) = py_strip s"
proof -
  define t where "t = py_strip s"
  have "t = [] \<or> \<not> py_isspace (last t)"
    unfolding t_def py_strip_def py_rstrip_def using hd_dropWhile [of py_isspace "rev (py_lstrip s)"] by (auto simp: last_rev)
  moreover have "t = [] \<or> \<not> py_isspace (hd t)"
  proof -
    obtain r where r: "py_lstrip s = t @ r"
    proof -
      have "suffix (dropWhile py_isspace (rev (py_lstrip s))) (rev (py_lstrip s))" by (rule suffix_dropWhile)
      then show thesis using that by (auto simp: t_def py_strip_def py_rstrip_def suffix_def) (metis rev_append rev_rev_ident)
    qed
    have "py_lstrip s = [] \<or> \<not> py_isspace (hd (py_lstrip s))" unfolding py_lstrip_def using hd_dropWhile by blast
    then show ?thesis using r by (cases t) auto
  qed
  ultimately have "dropWhile py_isspace t = t" "dropWhile py_isspace (rev t) = rev t"
    using dropWhile_no_match [of t py_isspace] dropWhile_no_match [of "rev t" py_isspace] by (cases "t = []"; simp add: hd_rev)+
  then have "py_strip t = t" by (simp add: py_strip_def py_lstrip_def py_rstrip_def)
  then show ?thesis by (simp add: t_def)
qed

lemma forti_lines_raw:
  assumes "l \<in> set (forti_lines t)" "printed l"
  shows "raw_line l"
proof -
  obtain x where x: "x \<in> set (py_splitlines t)" "l = py_strip x" "forti_line_kept l" using assms(1) by (auto simp: forti_lines_def)
  have "\<not> list_ex line_break x" using splitlines_clean [of "[]" x t] x(1) by (simp add: py_splitlines_def)
  then have "\<not> list_ex line_break l" using x(2) set_py_strip [of x] by (auto simp: list_ex_iff)
  then show ?thesis using x assms(2) strip_strip by (simp add: raw_line_def)
qed

lemma parse_fortios_ok:
  assumes "\<forall>l \<in> set (forti_lines t). printed l"
  shows "\<exists>n. parse_fortios t = Inr n \<and> forti_tree n \<and> lines_ok n"
  using forti_parse_ok [of "forti_lines t" "[]" "Node [] []"] assms forti_lines_raw by (auto simp: parse_fortios_def)

section \<open>Printing\<close>

definition newline :: string where "newline = [CHR 0x0A]"

definition show_config :: "node \<Rightarrow> string" where
  "show_config n = join_text newline (forti_body n)"

lemma splitlines_line:
  assumes "\<not> list_ex line_break a"
  shows "splitlines_from cur (a @ CHR 0x0A # r) = (cur @ a) # splitlines_from [] r"
  using assms
proof (induction a arbitrary: cur)
  case Nil
  then show ?case by (cases r) (simp_all add: line_break_def)
next
  case (Cons c a)
  obtain d t where "a @ CHR 0x0A # r = d # t" by (cases a) auto
  then show ?case using Cons by (cases a) auto
qed

lemma splitlines_last: "\<not> list_ex line_break a \<Longrightarrow> splitlines_from cur a = (if cur @ a = [] then [] else [cur @ a])"
proof (induction a arbitrary: cur)
  case (Cons c a)
  then show ?case by (cases a) auto
qed simp

lemma splitlines_join:
  assumes "\<forall>l \<in> set ls. l \<noteq> [] \<and> \<not> list_ex line_break l"
  shows "py_splitlines (join_text newline ls) = ls"
  using assms unfolding py_splitlines_def
  by (induction newline ls rule: join_text.induct) (auto simp: newline_def splitlines_line splitlines_last)

lemma closing_tidy: "tidy ''end''" "tidy ''next''"
proof -
  have "forti_line_kept ''end''" "forti_line_kept ''next''" by code_simp+
  moreover have "py_strip ''end'' = ''end''" "py_strip ''next'' = ''next''" "\<not> list_ex line_break ''end''" "\<not> list_ex line_break ''next''" by code_simp+
  ultimately show "tidy ''end''" "tidy ''next''" by (simp_all add: tidy_def printed_def closing_words)
qed

lemma forti_body_tidy: "lines_ok n \<Longrightarrow> \<forall>l \<in> set (forti_body n). tidy l"
proof (induction n rule: forti_body.induct)
  case (1 line ch)
  have "\<forall>l \<in> set (body_of kc). tidy l" if "kc \<in> set ch" for kc
  proof -
    have "tidy (line_of (snd kc))" "lines_ok (snd kc)" using lines_ok_iff [of "Node line ch"] 1(2) that by auto
    moreover have "tidy (closer (line_of (snd kc)))" using closing_tidy by (simp add: closer_def)
    ultimately show ?thesis using 1(1) [OF that] by (auto simp: body_of_def)
  qed
  then show ?case by (auto simp: forti_body_of)
qed

lemma forti_lines_show:
  assumes "\<forall>l \<in> set ls. tidy l"
  shows "forti_lines (join_text newline ls) = ls"
proof -
  have "py_splitlines (join_text newline ls) = ls" using assms by (intro splitlines_join) (auto simp: tidy_def forti_line_kept_def)
  moreover have "map py_strip ls = ls" using assms by (intro map_idI) (simp add: tidy_def)
  ultimately show ?thesis using assms by (auto simp: forti_lines_def tidy_def)
qed

text \<open>What the parser makes of the lines of a body, added to the scope that is open.\<close>

fun grow :: "node \<Rightarrow> node \<Rightarrow> node" where
  "grow (Node line ch) m = foldl (\<lambda>m kc. if verb_of (line_of (snd kc)) = ''set'' then Node (line_of m) (put (fst kc) (snd kc) (children m))
     else update_at [fst kc] (grow (snd kc)) (child (fst kc) (fst kc) m)) m ch"

definition grow_one :: "node \<Rightarrow> string \<times> node \<Rightarrow> node" where
  "grow_one m kc = (if verb_of (line_of (snd kc)) = ''set'' then Node (line_of m) (put (fst kc) (snd kc) (children m))
     else update_at [fst kc] (grow (snd kc)) (child (fst kc) (fst kc) m))"

lemma grow_as_fold: "grow n m = foldl grow_one m (children n)"
  by (cases n) (simp add: grow_one_def [abs_def])

declare grow.simps [simp del]

lemma update_at_append: "update_at (p @ q) f n = update_at p (update_at q f) n"
proof (induction p arbitrary: n)
  case (Cons k p)
  then show ?case by (cases n) simp
qed simp

lemma update_at_compose: "update_at p f (update_at p g n) = update_at p (\<lambda>m. f (g m)) n"
proof (induction p arbitrary: n)
  case (Cons k p)
  then show ?case by (cases n) (simp add: comp_def if_distrib cong: if_cong)
qed simp

lemma forti_parse_append: "forti_parse (a @ b) st = res_bind (forti_parse a st) (forti_parse b)"
proof (induction a arbitrary: st)
  case (Cons l a)
  then show ?case by (cases "forti_line l st") simp_all
qed simp

lemma parse_body_list:
  assumes "\<And>kc path n. kc \<in> set ch \<Longrightarrow> verb_of (line_of (snd kc)) \<noteq> ''set'' \<Longrightarrow> forti_tree (snd kc) \<Longrightarrow> lines_ok (snd kc) \<Longrightarrow>
      forti_parse (forti_body (snd kc)) (path, n) = Inr (path, update_at path (grow (snd kc)) n)"
    and "\<forall>kc \<in> set ch. forti_entry (fst kc) (snd kc) \<and> forti_tree (snd kc) \<and> tidy (line_of (snd kc)) \<and> lines_ok (snd kc)"
  shows "forti_parse (concat (map body_of ch)) (path, n) = Inr (path, update_at path (\<lambda>m. foldl grow_one m ch) n)"
  using assms
proof (induction ch arbitrary: n)
  case Nil
  have "update_at p (\<lambda>m. m) n = n" for p
  proof (induction p arbitrary: n)
    case (Cons k p)
    then show ?case by (cases n) (auto intro!: map_idI)
  qed simp
  then show ?case by simp
next
  case (Cons kc ch)
  have kc: "forti_entry (fst kc) (snd kc)" "forti_tree (snd kc)" "tidy (line_of (snd kc))" "lines_ok (snd kc)" using Cons.prems(2) by auto
  have "forti_parse (body_of kc) (path, n) = Inr (path, update_at path (\<lambda>m. grow_one m kc) n)"
  proof (cases "verb_of (line_of (snd kc)) = ''set''")
    case True
    then have s: "set_line (line_of (snd kc))" "fst kc = forti_key (line_of (snd kc))" "snd kc = Node (line_of (snd kc)) []"
      using kc(1) by (auto elim!: forti_entry_cases simp: forti_key_set) (metis node.collapse)
    then have "forti_line (line_of (snd kc)) (path, n) = Inr (path, update_at path (\<lambda>m. Node (line_of m) (put (fst kc) (snd kc) (children m))) n)"
      using True set_arg [OF s(1)] kc(3) by (simp add: forti_line_def tidy_def Let_def)
    then show ?thesis using True by (simp add: body_of_def grow_one_def)
  next
    case False
    then have s: "scope_line (fst kc)" "fst kc = line_of (snd kc)" using kc(1) by (auto elim!: forti_entry_cases simp: scope_line_def)
    have "forti_line (fst kc) (path, n) = Inr (path @ [fst kc], update_at path (child (fst kc) (fst kc)) n)"
      using scope_line_verb(1) [OF s(1)] by (auto simp: forti_line_def Let_def)
    moreover have "forti_parse (forti_body (snd kc)) (path @ [fst kc], m) = Inr (path @ [fst kc], update_at (path @ [fst kc]) (grow (snd kc)) m)" for m
      using Cons.prems(1) [of kc "path @ [fst kc]" m] False kc by simp
    moreover have "forti_line (closer l) (path @ [fst kc], m) = Inr (path, m)" for l m
      using closer_word(1) [of l] closing_words by (auto simp: forti_line_def Let_def)
    ultimately show ?thesis
      using False s(2) by (simp add: body_of_def forti_parse_append update_at_append update_at_compose grow_one_def)
  qed
  moreover have "forti_parse (concat (map body_of ch)) (path, m) = Inr (path, update_at path (\<lambda>m. foldl grow_one m ch) m)" for m
    by (rule Cons.IH) (use Cons.prems in auto)
  ultimately show ?case by (simp add: forti_parse_append update_at_compose)
qed

lemma parse_body: "forti_tree n \<Longrightarrow> lines_ok n \<Longrightarrow> forti_parse (forti_body n) (path, m) = Inr (path, update_at path (grow n) m)"
proof (induction n arbitrary: path m rule: forti_body.induct)
  case (1 line ch)
  have "forti_parse (concat (map body_of ch)) (path, m) = Inr (path, update_at path (\<lambda>m. foldl grow_one m ch) m)"
    by (rule parse_body_list) (use 1 lines_ok_iff [of "Node line ch"] in auto)
  then show ?case by (simp add: forti_body_of grow_as_fold [abs_def])
qed

lemma grow_fold:
  assumes "\<And>kc. kc \<in> set ch \<Longrightarrow> verb_of (line_of (snd kc)) \<noteq> ''set'' \<Longrightarrow> grow (snd kc) (Node (line_of (snd kc)) []) = snd kc"
    and "forti_dict ch" "set (keys_of d) \<inter> set (keys_of ch) = {}"
  shows "foldl grow_one (Node line d) ch = Node line (d @ ch)"
  using assms
proof (induction ch arbitrary: d)
  case (Cons kc ch)
  obtain k n where kc: "kc = (k, n)" by fastforce
  have entry: "forti_entry k n" "k \<notin> set (keys_of ch)" "forti_dict ch" "k \<notin> set (keys_of d)"
    using Cons.prems(2,3) by (auto simp: kc forti_dict_Cons)
  have "grow_one (Node line d) kc = Node line (d @ [kc])"
  proof (cases "verb_of (line_of n) = ''set''")
    case True
    then show ?thesis using entry(4) by (simp add: grow_one_def kc put_new)
  next
    case False
    then have "line_of n = k" using entry(1) by (auto elim!: forti_entry_cases)
    moreover have "map (\<lambda>kc. if fst kc = k then (k, f (snd kc)) else kc) d = d" for f using entry(4) by (intro map_idI) (force simp: keys_of_def)
    ultimately show ?thesis using False entry(4) Cons.prems(1) [of kc] by (simp add: grow_one_def kc child_def)
  qed
  moreover have "foldl grow_one (Node line (d @ [kc])) ch = Node line ((d @ [kc]) @ ch)"
    by (rule Cons.IH) (use Cons.prems entry kc in auto)
  ultimately show ?case by simp
qed simp

lemma grow_empty: "forti_tree n \<Longrightarrow> grow n (Node line []) = Node line (children n)"
proof (induction n arbitrary: line rule: forti_body.induct)
  case (1 l ch)
  have "foldl grow_one (Node line []) ch = Node line ([] @ ch)"
  proof (rule grow_fold)
    fix kc assume "kc \<in> set ch" "verb_of (line_of (snd kc)) \<noteq> ''set''"
    then show "grow (snd kc) (Node (line_of (snd kc)) []) = snd kc" using 1(1) [of kc "line_of (snd kc)"] 1(2) by simp
  qed (use 1(2) in \<open>auto simp: forti_dict_def\<close>)
  then show ?case by (simp add: grow_as_fold)
qed

theorem show_parse_fortios:
  assumes "forti_tree n" "lines_ok n"
  shows "parse_fortios (show_config n) = Inr (Node [] (children n))"
proof -
  have "forti_lines (show_config n) = forti_body n" unfolding show_config_def using forti_body_tidy [OF assms(2)] by (rule forti_lines_show)
  then show ?thesis using parse_body [OF assms, of "[]" "Node [] []"] grow_empty [OF assms(1)] by (simp add: parse_fortios_def)
qed

section \<open>The restore as a whole\<close>

text \<open>Commands bring no line into the configuration but their own.\<close>

definition frames_ok :: "frame list \<Rightarrow> bool" where
  "frames_ok fs \<longleftrightarrow> (\<forall>f \<in> set fs. lines_ok (Node (fst f) (snd f))) \<and> (\<forall>f \<in> set (butlast fs). tidy (fst f))"

definition writes :: "string \<Rightarrow> bool" where
  "writes s \<longleftrightarrow> verb_of s \<in> {''config'', ''edit'', ''set''}"

lemma lines_ok_subset: "lines_ok (Node line d) \<Longrightarrow> set e \<subseteq> set d \<Longrightarrow> lines_ok (Node line' e)"
  using lines_ok_iff [of "Node line d"] lines_ok_iff [of "Node line' e"] by auto

lemma lines_ok_put: "lines_ok (Node line d) \<Longrightarrow> tidy (line_of n) \<Longrightarrow> lines_ok n \<Longrightarrow> lines_ok (Node line' (put k n d))"
  using lines_ok_iff [of "Node line d"] lines_ok_iff [of "Node line' (put k n d)"] set_put [of k n d] by auto

lemma set_delete: "set (AList.delete k d) \<subseteq> set d"
  by (induction d) auto

lemma set_move_before: "set (move_before k x d) \<subseteq> set d"
  using set_delete [of k d] by (auto simp: move_before_def split: option.splits if_splits dest: map_of_SomeD)

lemma exec_here_ok:
  assumes "exec_here (verb_of s) s d = Some e" "lines_ok (Node line d)" "writes s \<longrightarrow> tidy s"
  shows "lines_ok (Node line e)"
proof (cases "verb_of s = ''set''")
  case True
  then have "e = put (forti_key s) (Node s []) d" "tidy s" using assms by (simp_all add: exec_here_def writes_def)
  then show ?thesis using lines_ok_put [OF assms(2), of "Node s []" line "forti_key s"] by simp
next
  case False
  have "set e \<subseteq> set d" if "without_key k d = Some e" for k using that set_delete [of k d] by (auto simp: without_key_def split: if_splits)
  moreover have "set e \<subseteq> set d" if "exec_move a d = Some e" for a
    using that set_move_before [of "''edit '' @ next_word a" "''edit '' @ drop 8 (drop (length (next_word a)) a)" d]
    by (auto simp: exec_move_def Let_def split: if_splits)
  ultimately have "set e \<subseteq> set d" using False assms(1) unfolding exec_here_def by (simp split: if_splits option.splits)
  then show ?thesis by (rule lines_ok_subset [OF assms(2)])
qed

lemma exec_line_ok:
  assumes "exec_line s fs = Some fs'" "frames_ok fs" "writes s \<longrightarrow> tidy s"
  shows "frames_ok fs'"
proof -
  obtain line d rest where fs: "fs = (line, d) # rest" using assms(1) by (cases fs) (auto simp: exec_line.simps)
  have ok: "lines_ok (Node line d)" "\<forall>f \<in> set rest. lines_ok (Node (fst f) (snd f))" "\<forall>f \<in> set (butlast fs). tidy (fst f)" using assms(2) by (auto simp: fs frames_ok_def)
  show ?thesis
  proof (cases "verb_of s \<in> {''config'', ''edit''}")
    case True
    have "lines_ok (Node s (held s d))"
    proof (cases "map_of d s")
      case (Some n)
      then have "lines_ok n" using ok(1) lines_ok_iff [of "Node line d"] by (auto dest!: map_of_SomeD)
      then show ?thesis using Some lines_ok_subset [of "line_of n" "children n" "children n" s] by (simp add: held_def)
    qed (simp add: held_def)
    moreover have "fs' = (s, held s d) # fs" using assms(1) True by (auto simp: fs exec_line.simps held_def)
    ultimately show ?thesis using assms(2,3) True by (auto simp: frames_ok_def writes_def fs)
  next
    case False
    show ?thesis
    proof (cases "s \<in> {''end'', ''next''}")
      case True
      then obtain outer d' rest' where "rest = (outer, d') # rest'" "fs' = (outer, put line (Node line d) d') # rest'"
        using assms(1) False by (auto simp: fs exec_line.simps split: list.splits if_splits)
      moreover from this have "tidy line" using ok(3) by (simp add: fs)
      ultimately show ?thesis using ok lines_ok_put [of outer d' "Node line d"] by (auto simp: frames_ok_def fs)
    next
      case ne: False
      then obtain e where "fs' = (line, e) # rest" "exec_here (verb_of s) s d = Some e"
        using assms(1) False by (auto simp: fs exec_line.simps)
      then show ?thesis using exec_here_ok [of s d e line] ok assms(3) by (auto simp: frames_ok_def fs)
    qed
  qed
qed

lemma exec_cmds_ok: "exec_cmds cs fs = Some fs' \<Longrightarrow> frames_ok fs \<Longrightarrow> \<forall>c \<in> set cs. writes c \<longrightarrow> tidy c \<Longrightarrow> frames_ok fs'"
proof (induction cs arbitrary: fs)
  case (Cons c cs)
  then obtain gs where "exec_line c fs = Some gs" "exec_cmds cs gs = Some fs'" by (auto split: Option.bind_splits)
  then show ?case using Cons exec_line_ok [of c fs gs] by auto
qed simp

lemma verb_cmd: "verb_word v \<Longrightarrow> verb_of (cmd v a) = v"
  using split_ws_word [of v "CHR '' ''" 0 a] by (simp add: verb_of_def cmd_def verb_word_def py_isspace_def)

lemma not_writes: "\<not> writes (cmd ''unset'' a)" "\<not> writes (cmd ''delete'' a)" "\<not> writes (cmd ''move'' a)"
  by (simp_all add: writes_def verb_cmd)

definition tidy_cmds :: "string list \<Rightarrow> bool" where
  "tidy_cmds cs \<longleftrightarrow> (\<forall>c \<in> set cs. writes c \<longrightarrow> tidy c)"

lemma tidy_cmds_concat: "(\<And>x. x \<in> set xs \<Longrightarrow> tidy_cmds (f x)) \<Longrightarrow> tidy_cmds (concat (map f xs))"
  by (auto simp: tidy_cmds_def)

lemma tidy_cmds_append: "tidy_cmds (a @ b) \<longleftrightarrow> tidy_cmds a \<and> tidy_cmds b"
  by (auto simp: tidy_cmds_def)

lemma tidy_wrapped: "tidy l \<Longrightarrow> tidy_cmds cs \<Longrightarrow> tidy_cmds (wrapped l cs)"
  using closing_tidy by (auto simp: tidy_cmds_def wrapped_def closer_def)

lemma tidy_extra: "(verb_of (line_of (snd kc)) \<noteq> ''set'' \<and> verb_of (line_of (snd kc)) \<noteq> ''edit'' \<Longrightarrow> tidy_cmds (clear_cmds (snd kc))) \<Longrightarrow>
    tidy (line_of (snd kc)) \<Longrightarrow> tidy_cmds (extra_cmds clear_cmds kc)"
  by (simp add: extra_cmds_def tidy_wrapped) (simp add: tidy_cmds_def not_writes)

lemma tidy_clear: "lines_ok n \<Longrightarrow> tidy_cmds (clear_cmds n)"
proof (induction n rule: clear_cmds.induct)
  case (1 line ch)
  have "tidy_cmds (concat (map (extra_cmds clear_cmds) ch))"
  proof (rule tidy_cmds_concat, rule tidy_extra)
    fix kc assume kc: "kc \<in> set ch"
    then have "tidy (line_of (snd kc))" "lines_ok (snd kc)" using lines_ok_iff [of "Node line ch"] 1(2) by auto
    then show "tidy (line_of (snd kc))" "verb_of (line_of (snd kc)) \<noteq> ''set'' \<and> verb_of (line_of (snd kc)) \<noteq> ''edit'' \<Longrightarrow> tidy_cmds (clear_cmds (snd kc))"
      using 1(1) [OF kc] by simp_all
  qed
  then show ?case using clear_cmds_extra [of "Node line ch"] by simp
qed

lemma tidy_moves: "tidy_cmds (moves_from i w c)"
  using not_writes(3) by (induction i w c rule: moves_from.induct) (auto simp: tidy_cmds_def cmd_def)

lemma tidy_restore: "lines_ok b \<Longrightarrow> lines_ok l \<Longrightarrow> tidy_cmds (restore_cmds moving b l)"
proof (induction b arbitrary: moving l rule: forti_body.induct)
  case (1 bl bs)
  have "tidy_cmds (one_cmds (children l) kb)" if kb: "kb \<in> set bs" for kb
  proof -
    have b: "tidy (line_of (snd kb))" "lines_ok (snd kb)" using lines_ok_iff [of "Node bl bs"] 1(2) kb by auto
    have body: "tidy_cmds (line_of (snd kb) # forti_body (snd kb) @ [closer (line_of (snd kb))])"
      using b forti_body_tidy [OF b(2)] closing_tidy by (auto simp: tidy_cmds_def closer_def)
    have inner: "tidy_cmds (wrapped (line_of (snd kb)) (restore_cmds (ordered_scope [line_of (snd kb)]) (snd kb) y))"
      if "map_of (children l) (fst kb) = Some y" "verb_of (line_of (snd kb)) \<noteq> ''set''" for y
    proof -
      have "lines_ok y" using that(1) lines_ok_iff [of l] 1(3) by (auto dest!: map_of_SomeD)
      then show ?thesis using 1(1) [OF kb that(2) b(2)] b(1) by (intro tidy_wrapped)
    qed
    show ?thesis
    proof (cases "map_of (children l) (fst kb)")
      case None
      then show ?thesis using body b(1) by (simp add: one_cmds_def) (simp add: tidy_cmds_def)
    next
      case (Some y)
      then show ?thesis using inner b(1) by (simp add: one_cmds_def) (simp add: tidy_cmds_def)
    qed
  qed
  moreover have "tidy_cmds (extra_cmds clear_cmds kc)" if "kc \<in> set (children l)" for kc
    using that lines_ok_iff [of l] 1(3) tidy_clear tidy_extra by blast
  ultimately show ?case
    by (auto simp: restore_cmds_split tidy_cmds_append moves_for_def forti_moves_def tidy_moves intro!: tidy_cmds_concat) (simp add: tidy_cmds_def)
qed


definition w_backup :: string where
  "w_backup = join_text newline [''config policy'', ''edit 1'', ''set a b'', ''next'', ''edit 2'', ''next'', ''end'']"

definition w_live :: string where
  "w_live = join_text newline [''config policy'', ''edit 2'', ''next'', ''edit 9'', ''next'', ''end'', ''config x'', ''set a b'', ''end'']"


text \<open>
  A value that spans several lines is read as its first line: the restore sends it with the quote
  left open, and the lines that follow are taken for configuration of their own, so that a line
  \<^verbatim>\<open>end\<close> of a text closes the scope. A line \<^verbatim>\<open>set\<close> of a text stops the restore with an error.
\<close>

theorem value_of_several_lines_is_cut:
  "map_sum id fst (diff_fortios (join_text newline [''config system replacemsg'', ''set buffer '' @ [CHR 0x22] @ ''a'', ''end'', ''b'' @ [CHR 0x22], ''set format html'', ''end''])
     (join_text newline [''config system replacemsg'', ''end''])) =
   Inr [''config system replacemsg'', ''set buffer '' @ [CHR 0x22] @ ''a'', ''end'', ''set format html'']"
  "diff_fortios (join_text newline [''config system replacemsg'', ''set buffer a'', ''set'', ''end'']) [] = Inl IndexError"
  by code_simp+

end
