(* ===== verification/Cisco_Config.thy ===== *)
theory Cisco_Config
  imports Config_Tree
begin

text \<open>
  The restore of a Cisco IOS device, \<^verbatim>\<open>modules/backup/restore/config_tree.py\<close>: the parser of
  \<^verbatim>\<open>show running-config\<close> by indentation with its banners, the difference between a backup and
  the live device, and the commands: additions first, then the changes inside blocks, then what
  is removed.
\<close>

section \<open>Reading\<close>

text \<open>The \<^verbatim>\<open>\w\<close> of a regular expression on Latin-1: letters, digits (also superscripts and fractions) and the underscore.\<close>

definition word_char :: "char \<Rightarrow> bool" where
  "word_char c \<longleftrightarrow> ascii_digit c \<or> ascii_alpha c \<or> c = CHR ''_'' \<or> ord_c c \<in> {170, 178, 179, 181, 185, 186, 188, 189, 190} \<or>
     192 \<le> ord_c c \<and> ord_c c \<noteq> 215 \<and> ord_c c \<noteq> 247"

definition cisco_prompt_end :: "string \<Rightarrow> bool" where
  "cisco_prompt_end s = (case s of d # r \<Rightarrow> d \<in> {CHR ''#'', CHR ''>''} \<and> (let t = dropWhile py_isspace r in t = [] \<or> prefix ''show '' t) | _ \<Rightarrow> False)"

definition CISCO_PROMPT_RE :: "string \<Rightarrow> bool" where
  "CISCO_PROMPT_RE s = (let P = (\<lambda>c. word_char c \<or> c = CHR ''.'' \<or> c = CHR ''-''); a = takeWhile P s; r = dropWhile P s in
     a \<noteq> [] \<and> (cisco_prompt_end r \<or> prefix ''('' r \<and> (case dropWhile (\<lambda>c. c \<noteq> CHR '')'') (drop 1 r) of [] \<Rightarrow> False | _ # t \<Rightarrow> cisco_prompt_end t)))"

definition SKIP_PREFIXES :: "string list" where
  "SKIP_PREFIXES = [''building configuration'', ''current configuration'', ''load for '', ''time source is'', ''ntp clock-period'']"

definition cisco_skipped :: "string \<Rightarrow> bool" where
  "cisco_skipped s \<longleftrightarrow> s = [] \<or> prefix ''!'' s \<or> CISCO_PROMPT_RE s \<or>
     (let low = py_lower s in list_ex (\<lambda>p. prefix p low) SKIP_PREFIXES \<or> low = ''end'' \<or> prefix ''show running-config'' low)"

definition DELIM :: string where "DELIM = ''^C''"

fun before_delim :: "string \<Rightarrow> string" where
  "before_delim [] = []"
| "before_delim (c # cs) = (if prefix DELIM (c # cs) then [] else c # before_delim cs)"

text \<open>The lines of a banner up to the closing delimiter, and the lines after it.\<close>

fun banner_lines :: "string list \<Rightarrow> string list \<times> string list" where
  "banner_lines [] = ([], [])"
| "banner_lines (l # ls) = (if py_contains DELIM l then ([before_delim l], ls) else (l # fst (banner_lines ls), snd (banner_lines ls)))"

lemma banner_lines_length [termination_simp]: "length (snd (banner_lines ls)) \<le> length ls"
  by (induction ls) auto

definition banner_body :: "string \<Rightarrow> string list \<Rightarrow> string list \<times> string list" where
  "banner_body stripped ls =
     (let body = (case split_ws 2 stripped of [_, _, b] \<Rightarrow> b | _ \<Rightarrow> []);
          rest = (if prefix DELIM body then drop (length DELIM) body else body)
      in if py_contains DELIM rest then ([before_delim rest], ls)
         else (rest # fst (banner_lines ls), snd (banner_lines ls)))"

lemma banner_body_length [termination_simp]: "length (snd (banner_body s ls)) \<le> length ls"
  using banner_lines_length [of ls] by (simp add: banner_body_def Let_def)

definition strip_newlines :: "string \<Rightarrow> string" where
  "strip_newlines s = rev (dropWhile (\<lambda>c. c = CHR 0x0A) (rev (dropWhile (\<lambda>c. c = CHR 0x0A) s)))"

definition banner_key :: "string \<Rightarrow> string" where
  "banner_key stripped = ''banner '' @ (case split_ws 2 stripped of _ # k # _ \<Rightarrow> k | _ \<Rightarrow> [])"

definition banner_node :: "string \<Rightarrow> string list \<Rightarrow> node" where
  "banner_node key ls = Node key [(''__text__'', Node (strip_newlines (join_text [CHR 0x0A] ls)) [])]"

definition set_child :: "string \<Rightarrow> node \<Rightarrow> node \<Rightarrow> node" where
  "set_child k c n = Node (line_of n) (put k c (children n))"

text \<open>The stack holds the indentation and key of the open blocks, the innermost first.\<close>

fun cisco_parse :: "string list \<Rightarrow> (nat \<times> string) list \<Rightarrow> node \<Rightarrow> node" where
  "cisco_parse [] stack whole = whole"
| "cisco_parse (l # ls) stack whole =
     (let raw = py_rstrip l; stripped = py_strip raw in
      if cisco_skipped stripped then cisco_parse ls stack whole
      else if prefix ''banner '' (py_lower stripped) then
        cisco_parse (snd (banner_body stripped ls)) [] (set_child (banner_key stripped) (banner_node (banner_key stripped) (fst (banner_body stripped ls))) whole)
      else
        let indent = length (takeWhile (\<lambda>c. c = CHR '' '') raw); stack = dropWhile (\<lambda>top. indent \<le> fst top) stack in
        cisco_parse ls ((indent, stripped) # stack) (update_at (rev (map snd stack)) (child stripped stripped) whole))"

definition parse_cisco :: "string \<Rightarrow> node" where
  "parse_cisco t = cisco_parse (py_splitlines t) [] (Node [] [])"

section \<open>What a line configures\<close>

definition SINGLE_VALUE_HEADS :: "string list" where
  "SINGLE_VALUE_HEADS = [''hostname'', ''description'', ''ip address'', ''ip default-gateway'', ''ip domain-name'', ''ip domain name'',
     ''clock timezone'', ''enable secret'', ''enable password'', ''snmp-server location'', ''snmp-server contact'', ''exec-timeout'', ''ip ssh version'',
     ''ip ssh time-out'', ''ip ssh authentication-retries'', ''logging buffered'', ''login block-for'', ''password'', ''transport input'', ''transport output'',
     ''access-class'', ''switchport mode'', ''switchport access vlan'', ''speed'', ''duplex'', ''mtu'']"

definition MULTI_VALUE_HEADS :: "string list" where
  "MULTI_VALUE_HEADS = [''logging host'', ''ntp server'', ''ntp peer'', ''ip route'', ''snmp-server host'', ''snmp-server community'', ''ip name-server'',
     ''access-list'', ''permit'', ''deny'', ''remark'', ''ip dhcp excluded-address'', ''boot system'', ''neighbor'', ''network'', ''ip helper-address'',
     ''switchport trunk allowed vlan add'']"

definition has_head :: "string \<Rightarrow> string \<Rightarrow> bool" where
  "has_head low head \<longleftrightarrow> low = head \<or> prefix (head @ '' '') low"

definition setting_id :: "string \<Rightarrow> string" where
  "setting_id l = (let low = py_lower l in
     if list_ex (has_head low) MULTI_VALUE_HEADS then []
     else case find (has_head low) SINGLE_VALUE_HEADS of Some head \<Rightarrow> head
       | None \<Rightarrow>
         let toks = words_of low; toks = (case toks of t # ts \<Rightarrow> if t = ''no'' then ts else toks | [] \<Rightarrow> []) in
         (if 3 \<le> length toks then join_text '' '' (take 2 toks) else case toks of t # _ \<Rightarrow> t | [] \<Rightarrow> []))"

section \<open>The commands of a restore\<close>

fun cisco_block :: "nat \<Rightarrow> node \<Rightarrow> string list" where
  "cisco_block d (Node line ch) = (replicate d (CHR '' '') @ line) #
     (if ch = [] then [] else concat (map (\<lambda>kc. cisco_block (d + 1) (snd kc)) ch) @ [replicate d (CHR '' '') @ ''exit''])"

definition banner_commands :: "string \<Rightarrow> string \<Rightarrow> string list" where
  "banner_commands key t = (let delim = (case find (\<lambda>d. d \<notin> set t) ''^#%@~'' of Some d \<Rightarrow> d | None \<Rightarrow> CHR ''^'') in
     (key @ [CHR '' '', delim]) # split_at (CHR 0x0A) t @ [[delim]])"

definition UNRESTORABLE :: "string \<Rightarrow> bool" where
  "UNRESTORABLE k \<longleftrightarrow> prefix ''crypto pki certificate chain'' k \<and> (case drop 28 k of [] \<Rightarrow> True | c # _ \<Rightarrow> \<not> word_char c)"

text \<open>Every banner has its text: \<open>banner_node\<close> is the only node with such a key.\<close>

definition banner_text :: "node \<Rightarrow> string" where
  "banner_text n = (case map_of (children n) ''__text__'' of Some t \<Rightarrow> line_of t | None \<Rightarrow> [])"

definition shifted :: "node \<Rightarrow> string list" where
  "shifted n = map (\<lambda>dt. replicate (fst dt) (CHR '' '') @ snd dt) (flatten 1 n)"

text \<open>What only the live device has; \<open>replaced\<close> are the settings the backup's lines replace in place.\<close>

fun cisco_extra :: "(string \<times> node) list \<Rightarrow> node \<Rightarrow> string list \<Rightarrow> string list \<Rightarrow> config_diff \<times> nat option \<Rightarrow> string list \<times> config_diff \<times> nat option" where
  "cisco_extra [] backup replaced path ds = ([], ds)"
| "cisco_extra ((key, l) # rest) backup replaced path ds =
     (if key \<in> set (keys_of (children backup)) \<or> UNRESTORABLE key then cisco_extra rest backup replaced path ds
      else if prefix ''banner '' key then
        (case cisco_extra rest backup replaced path (mark path Removed key ds) of (cs, ds) \<Rightarrow> ((''no '' @ key) # cs, ds))
      else if prefix ''no '' (py_lower key) then cisco_extra rest backup replaced path (mark path Removed (line_of l) ds)
      else
        let s = setting_id key in
        case cisco_extra rest backup replaced path (mark_all path Removed (line_of l # shifted l) ds) of (cs, ds) \<Rightarrow>
          (if s \<noteq> [] \<and> s \<in> set replaced then cs else (''no '' @ key) # cs, ds))"

function (sequential) cisco_diff :: "node \<Rightarrow> node \<Rightarrow> string list \<Rightarrow> config_diff \<Rightarrow> string list \<times> config_diff"
  and cisco_loop :: "(string \<times> node) list \<Rightarrow> node \<Rightarrow> string list \<Rightarrow> config_diff \<times> nat option \<Rightarrow>
    string list \<times> string list \<times> string list \<times> config_diff \<times> nat option" where
  "cisco_diff (Node line backup) live path d =
     (case cisco_loop backup live path (d, None) of (adds, nested, replaced, ds) \<Rightarrow>
      case cisco_extra (children live) (Node line backup) replaced path ds of (removes, ds) \<Rightarrow> (adds @ nested @ removes, fst ds))"
| "cisco_loop [] live path ds = ([], [], [], ds)"
| "cisco_loop ((key, b) # rest) live path ds =
     (case
        (case map_of (children live) key of
           None \<Rightarrow>
             if UNRESTORABLE key then ([], [], [], (fst ds)\<lparr> cd_skipped := cd_skipped (fst ds) @ [([], key)] \<rparr>, snd ds)
             else if prefix ''banner '' key then (banner_commands key (banner_text b), [], [], mark path Added (key @ '' (backup text)'') ds)
             else (cisco_block 0 b, [], (if setting_id key = [] then [] else [setting_id key]), mark_all path Added (line_of b # shifted b) ds)
         | Some l \<Rightarrow>
             if UNRESTORABLE key then
               ([], [], [], if flatten 0 l = flatten 0 b then ds else ((fst ds)\<lparr> cd_skipped := cd_skipped (fst ds) @ [([], key)] \<rparr>, snd ds))
             else if prefix ''banner '' key then
               if banner_text b = banner_text l then ([], [], [], ds)
               else (banner_commands key (banner_text b), [], [], mark path Added (key @ '' (backup text)'') (mark path Removed (key @ '' (current text)'') ds))
             else if children b = [] \<and> children l = [] then ([], [], [], ds)
             else (case cisco_diff b l (path @ [line_of b]) (fst ds) of (inner, d) \<Rightarrow>
               ([], if inner = [] then [] else line_of b # inner @ [''exit''], [], d, snd ds)))
      of (a, n, s, ds) \<Rightarrow> case cisco_loop rest live path ds of (a', n', s', ds) \<Rightarrow> (a @ a', n @ n', s @ s', ds))"
  by pat_completeness auto
termination
  by (relation "measure (case_sum (\<lambda>(b, _). size b) (\<lambda>(bs, _). size_list (\<lambda>x. Suc (size (snd x))) bs))")
    (auto simp: size_prod_simp)

declare cisco_diff.simps [simp del] cisco_loop.simps [simp del]

definition diff_cisco :: "string \<Rightarrow> string \<Rightarrow> string list \<times> config_diff" where
  "diff_cisco backup_text live_text = cisco_diff (parse_cisco backup_text) (parse_cisco live_text) [] no_diff"

section \<open>An unchanged device\<close>

lemma cisco_extra_known: "set (keys_of ls) \<subseteq> set (keys_of (children b)) \<Longrightarrow> cisco_extra ls b replaced path ds = ([], ds)"
  by (induction ls b replaced path ds rule: cisco_extra.induct) (auto simp: keys_of_def)

lemma cisco_loop_same:
  assumes "\<And>kb path d. kb \<in> set bs \<Longrightarrow> cisco_diff (snd kb) (snd kb) path d = ([], d)"
    and "\<forall>kb \<in> set bs. map_of (children l) (fst kb) = Some (snd kb)"
  shows "cisco_loop bs l path ds = ([], [], [], ds)"
  using assms
proof (induction bs arbitrary: ds)
  case (Cons kb bs)
  obtain k b where kb: "kb = (k, b)" by fastforce
  have "cisco_loop bs l path ds = ([], [], [], ds)" using Cons by simp
  moreover have "map_of (children l) k = Some b" "cisco_diff b b (path @ [line_of b]) (fst ds) = ([], fst ds)"
    using Cons.prems(1) [of kb] Cons.prems(2) by (simp_all add: kb)
  ultimately show ?case by (simp add: kb cisco_loop.simps)
qed (simp add: cisco_loop.simps)

lemma cisco_diff_same: "keys_distinct n \<Longrightarrow> cisco_diff n n path d = ([], d)"
proof (induction n arbitrary: path d rule: keys_distinct.induct)
  case (1 line ch)
  have "cisco_loop ch (Node line ch) path (d, None) = ([], [], [], d, None)"
    using 1 by (intro cisco_loop_same) (auto intro!: map_of_distinct)
  then show ?case using cisco_extra_known [of ch "Node line ch"] by (simp add: cisco_diff.simps)
qed

lemma cisco_parse_distinct: "keys_distinct n \<Longrightarrow> keys_distinct (cisco_parse ls stack n)"
proof (induction ls stack n rule: cisco_parse.induct)
  case (2 l ls stack n)
  have "keys_distinct (banner_node k t)" for k t by (simp add: banner_node_def keys_distinct_iff [of "Node _ _"])
  then have "keys_distinct (set_child k (banner_node k t) n)" for k t using keys_distinct_put [OF 2(4)] unfolding set_child_def by blast
  moreover have "keys_distinct (update_at p (child s s) n)" for p s using 2(4) by (intro keys_distinct_update) (simp add: keys_distinct_child)
  ultimately show ?case using 2 by (simp add: Let_def)
qed simp


section \<open>Nothing is sent that the preview does not show\<close>

lemma covers_extra:
  "covers ds (fst (cisco_extra ls b replaced path ds)) (snd (cisco_extra ls b replaced path ds))"
proof (induction ls b replaced path ds rule: cisco_extra.induct)
  case (2 key l rest backup replaced path ds)
  consider "key \<in> set (keys_of (children backup)) \<or> UNRESTORABLE key"
    | "\<not> (key \<in> set (keys_of (children backup)) \<or> UNRESTORABLE key)" "prefix ''banner '' key"
    | "\<not> (key \<in> set (keys_of (children backup)) \<or> UNRESTORABLE key)" "\<not> prefix ''banner '' key" "prefix ''no '' (py_lower key)"
    | "\<not> (key \<in> set (keys_of (children backup)) \<or> UNRESTORABLE key)" "\<not> prefix ''banner '' key" "\<not> prefix ''no '' (py_lower key)" by blast
  then show ?case
  proof cases
    case 1
    then show ?thesis using 2(1) by simp
  next
    case 2
    then show ?thesis using covers_marked [OF "2.IH"(2) [OF 2]] by (simp add: split_beta)
  next
    case 3
    then show ?thesis using covers_marked [OF "2.IH"(3) [OF 3]] by simp
  next
    case 4
    then show ?thesis using covers_marked_all [OF "2.IH"(4) [OF 4 refl]] by (simp add: split_beta Let_def)
  qed
qed (simp add: covers_refl)

lemma covers_loop:
  "covers (d, None) (fst (cisco_diff b l path d)) (snd (cisco_diff b l path d), None)"
  "(case cisco_loop bs l path ds of (a, n, s, ds') \<Rightarrow> covers ds (a @ n) ds')"
proof (induction b l path d and bs l path ds rule: cisco_diff_cisco_loop.induct)
  case (1 line backup live path d)
  obtain a n s ds where loop: "cisco_loop backup live path (d, None) = (a, n, s, ds)" by (metis prod_cases4)
  obtain cs ds' where extra: "cisco_extra (children live) (Node line backup) s path ds = (cs, ds')" by (metis prod.exhaust_sel)
  have "covers (d, None) (a @ n) ds" using 1 loop by simp
  moreover have "covers ds cs ds'" using covers_extra [of ds "children live" "Node line backup" s path] extra by simp
  ultimately have "covers (d, None) (a @ n @ cs) ds'" by (rule covers_trans) auto
  then show ?case by (simp add: cisco_diff.simps loop extra) (auto simp: covers_def section_open_def)
next
  case (2 live path ds)
  then show ?case by (simp add: cisco_loop.simps covers_refl)
next
  case (3 key b rest live path ds)
  define one where "one = (case map_of (children live) key of
           None \<Rightarrow>
             if UNRESTORABLE key then ([], [], [], (fst ds)\<lparr> cd_skipped := cd_skipped (fst ds) @ [([], key)] \<rparr>, snd ds)
             else if prefix ''banner '' key then (banner_commands key (banner_text b), [], [], mark path Added (key @ '' (backup text)'') ds)
             else (cisco_block 0 b, [], (if setting_id key = [] then [] else [setting_id key]), mark_all path Added (line_of b # shifted b) ds)
         | Some l \<Rightarrow>
             if UNRESTORABLE key then
               ([], [], [], if flatten 0 l = flatten 0 b then ds else ((fst ds)\<lparr> cd_skipped := cd_skipped (fst ds) @ [([], key)] \<rparr>, snd ds))
             else if prefix ''banner '' key then
               if banner_text b = banner_text l then ([], [], [], ds)
               else (banner_commands key (banner_text b), [], [], mark path Added (key @ '' (backup text)'') (mark path Removed (key @ '' (current text)'') ds))
             else if children b = [] \<and> children l = [] then ([], [], [], ds)
             else (case cisco_diff b l (path @ [line_of b]) (fst ds) of (inner, d) \<Rightarrow>
               ([], if inner = [] then [] else line_of b # inner @ [''exit''], [], d, snd ds)))"
  obtain a n s ds1 where one: "one = (a, n, s, ds1)" by (metis prod_cases4)
  have skip: "covers ds [] ((fst ds)\<lparr> cd_skipped := cd_skipped (fst ds) @ [([], key)] \<rparr>, snd ds)"
    by (auto simp: covers_def section_open_def is_empty_diff_def split: option.splits)
  have "covers ds (a @ n) ds1"
  proof (cases "map_of (children live) key")
    case None
    then show ?thesis using one skip by (auto simp: one_def intro!: covers_mark covers_all split: if_splits)
  next
    case (Some l)
    show ?thesis
    proof (cases "UNRESTORABLE key \<or> prefix ''banner '' key \<or> children b = [] \<and> children l = []")
      case True
      have "covers ds cs (mark path Added t (mark path Removed t' ds))" for cs t t'
        using covers_marked [OF covers_mark] by blast
      then show ?thesis using True Some one skip covers_refl [of ds] by (auto simp: one_def split: if_splits)
    next
      case False
      obtain inner d' where inner: "cisco_diff b l (path @ [line_of b]) (fst ds) = (inner, d')" by (metis prod.exhaust_sel)
      have "covers (fst ds, None) inner (d', None)" using 3(1) [OF Some] False inner by simp
      then have "covers ds inner (d', snd ds)" by (auto simp: covers_def section_open_def split: option.splits)
      moreover have "one = ([], if inner = [] then [] else line_of b # inner @ [''exit''], [], d', snd ds)" using False Some inner by (auto simp: one_def)
      ultimately show ?thesis using one by (auto simp: covers_def)
    qed
  qed
  moreover obtain a' n' s' ds2 where rest: "cisco_loop rest live path ds1 = (a', n', s', ds2)" by (metis prod_cases4)
  moreover have "covers ds1 (a' @ n') ds2"
    using 3(2) [OF one [unfolded one_def, symmetric] refl refl] rest by simp
  ultimately have "covers ds ((a @ a') @ (n @ n')) ds2" by (auto intro: covers_trans)
  moreover have "cisco_loop ((key, b) # rest) live path ds = (a @ a', n @ n', s @ s', ds2)"
    unfolding cisco_loop.simps one_def [symmetric] one using rest by simp
  ultimately show ?case by simp
qed

text \<open>
  The converse direction: where the preview shows no change, no command is sent.
\<close>

theorem cisco_sends_only_what_it_shows:
  assumes "is_empty_diff (snd (diff_cisco backup_text live_text))"
  shows "fst (diff_cisco backup_text live_text) = []"
  using covers_loop(1) [of no_diff "parse_cisco backup_text" "parse_cisco live_text" "[]"] assms
  by (auto simp: diff_cisco_def covers_def section_open_def)

section \<open>What a restore leaves behind\<close>

text \<open>
  Lines of which only the live device has some are kept when the backup brings a line with the
  same first words: a VLAN or an interface created after the backup stays when another one is
  restored, although the preview says that it is removed. And a live line \<^verbatim>\<open>no X\<close> the backup
  does not have is shown as removed without any command, so the comparison after the restore
  finds it again, however often the restore is repeated.
\<close>

theorem replaced_setting_left_behind:
  "diff_cisco ''vlan 20'' ''vlan 30'' =
     ([''vlan 20''], \<lparr> cd_sections = [([], [(Added, ''vlan 20''), (Removed, ''vlan 30'')])], cd_skipped = [] \<rparr>)"
  by code_simp

theorem negated_line_never_restored:
  "diff_cisco ''hostname a'' (''hostname a'' @ [CHR 0x0A] @ ''no ip http server'') =
     ([], \<lparr> cd_sections = [([], [(Removed, ''no ip http server'')])], cd_skipped = [] \<rparr>)"
  by code_simp

end
