(* ===== verification/File_Bundle.thy ===== *)
theory File_Bundle
  imports Config_Tree
begin

text \<open>
  Backups of servers whose configuration is a set of files:
  \<^verbatim>\<open>modules/backup/restore/file_bundle.py\<close>, the lists of paths in the \<^verbatim>\<open>ssh_executor.py\<close> of the
  three families, and what the command of \<^verbatim>\<open>modules/shared/hardening_backup.py\<close> prints.
  The files of a host are an association list from paths to contents; the unified diff that the
  preview shows is an argument, a function from the lines of two texts to lines.
\<close>

section \<open>Paths\<close>

datatype file_family = Linux_files | Apache_files | Mongodb_files

definition LINUX_BACKUP_PATHS :: "string list" where
  "LINUX_BACKUP_PATHS =
    [''/etc/ssh/sshd_config'', ''/etc/ssh/sshd_config.d/*.conf'',
     ''/etc/sysctl.conf'', ''/etc/sysctl.d/*.conf'',
     ''/etc/login.defs'',
     ''/etc/security/pwquality.conf'', ''/etc/security/pwquality.conf.d/*.conf'',
     ''/etc/security/faillock.conf'', ''/etc/security/limits.conf'', ''/etc/security/limits.d/*.conf'',
     ''/etc/pam.d/common-password'', ''/etc/pam.d/common-auth'', ''/etc/pam.d/common-account'',
     ''/etc/pam.d/password-auth'', ''/etc/pam.d/system-auth'', ''/etc/pam.d/su'', ''/etc/pam.d/sshd'',
     ''/etc/audit/auditd.conf'', ''/etc/audit/rules.d/*.rules'',
     ''/etc/issue'', ''/etc/issue.net'', ''/etc/motd'',
     ''/etc/modprobe.d/*.conf'',
     ''/etc/default/grub'',
     ''/etc/crontab'', ''/etc/cron.allow'', ''/etc/cron.deny'', ''/etc/at.allow'', ''/etc/at.deny'',
     ''/etc/profile'', ''/etc/bashrc'', ''/etc/bash.bashrc'', ''/etc/profile.d/*.sh'']"

definition APACHE_BACKUP_PATHS :: "string list" where
  "APACHE_BACKUP_PATHS =
    [''/etc/apache2/apache2.conf'', ''/etc/apache2/ports.conf'', ''/etc/apache2/envvars'',
     ''/etc/apache2/conf-enabled/*.conf'', ''/etc/apache2/conf-available/*.conf'',
     ''/etc/apache2/sites-enabled/*.conf'', ''/etc/apache2/mods-enabled/*.conf'',
     ''/etc/apache2/mods-enabled/*.load'',
     ''/etc/httpd/conf/httpd.conf'', ''/etc/httpd/conf.d/*.conf'',
     ''/etc/httpd/conf.modules.d/*.conf'']"

definition MONGODB_BACKUP_PATHS :: "string list" where
  "MONGODB_BACKUP_PATHS = [''/etc/mongod.conf'', ''/etc/mongodb.conf'']"

fun family_paths :: "file_family \<Rightarrow> string list" where
  "family_paths Linux_files = LINUX_BACKUP_PATHS"
| "family_paths Apache_files = APACHE_BACKUP_PATHS"
| "family_paths Mongodb_files = MONGODB_BACKUP_PATHS"

text \<open>The family by its name; \<open>None\<close> is the \<^verbatim>\<open>ValueError\<close>.\<close>

definition family_of :: "string \<Rightarrow> file_family option" where
  "family_of s = (if s = ''linux'' then Some Linux_files else if s = ''apache'' then Some Apache_files
     else if s = ''mongodb'' then Some Mongodb_files else None)"

text \<open>\<^verbatim>\<open>fnmatch.fnmatchcase\<close> for patterns without character sets, which the lists do not use. A star
  crosses the separator of directories.\<close>

fun fnmatchcase :: "string \<Rightarrow> string \<Rightarrow> bool" where
  "fnmatchcase s [] \<longleftrightarrow> s = []"
| "fnmatchcase [] (p # ps) \<longleftrightarrow> p = CHR ''*'' \<and> fnmatchcase [] ps"
| "fnmatchcase (c # s) (p # ps) \<longleftrightarrow>
     (if p = CHR ''*'' then fnmatchcase (c # s) ps \<or> fnmatchcase s (p # ps)
      else (p = CHR ''?'' \<or> p = c) \<and> fnmatchcase s ps)"

text \<open>\<^verbatim>\<open>posixpath.normpath\<close>; the components kept so far are in reverse order.\<close>

fun norm_comps :: "bool \<Rightarrow> string list \<Rightarrow> string list \<Rightarrow> string list" where
  "norm_comps rooted acc [] = rev acc"
| "norm_comps rooted acc (c # cs) =
     (if c = [] \<or> c = ''.'' then norm_comps rooted acc cs
      else if c \<noteq> ''..'' \<or> (\<not> rooted \<and> acc = []) \<or> (acc \<noteq> [] \<and> hd acc = ''..'') then norm_comps rooted (c # acc) cs
      else norm_comps rooted (tl acc) cs)"

definition initial_slashes :: "string \<Rightarrow> nat" where
  "initial_slashes p = (if \<not> prefix ''/'' p then 0 else if prefix ''//'' p \<and> \<not> prefix ''///'' p then 2 else 1)"

definition normpath :: "string \<Rightarrow> string" where
  "normpath p = (let n = initial_slashes p;
     q = replicate n (CHR ''/'') @ join_text ''/'' (norm_comps (n > 0) [] (split_at (CHR ''/'') p))
     in if q = [] then ''.'' else q)"

abbreviation newline :: char where
  "newline \<equiv> CHR 0x0A"

definition path_allowed :: "string \<Rightarrow> file_family \<Rightarrow> bool" where
  "path_allowed p f \<longleftrightarrow> prefix ''/'' p \<and> normpath p = p \<and> newline \<notin> set p \<and> list_ex (fnmatchcase p) (family_paths f)"

section \<open>Bundles\<close>

definition BEGIN_FILE :: string where
  "BEGIN_FILE = ''##### BEGIN FILE: ''"

definition HASHES :: string where
  "HASHES = '' #####''"

definition begin_path :: "string \<Rightarrow> string option" where
  "begin_path l = (if prefix BEGIN_FILE l \<and> suffix HASHES l \<and> length BEGIN_FILE + length HASHES < length l
     then Some (take (length l - length BEGIN_FILE - length HASHES) (drop (length BEGIN_FILE) l)) else None)"

definition end_line :: "string \<Rightarrow> string" where
  "end_line p = ''##### END FILE: '' @ p @ HASHES"

definition chomp :: "string \<Rightarrow> string" where
  "chomp s = (if suffix [newline] s then butlast s else s)"

function parse_files :: "string list \<Rightarrow> (string \<times> string) list \<Rightarrow> (string \<times> string) list" where
  "parse_files [] files = files"
| "parse_files (l # ls) files = (case begin_path l of None \<Rightarrow> parse_files ls files
     | Some p \<Rightarrow> parse_files (drop 1 (dropWhile (\<lambda>x. x \<noteq> end_line p) ls))
         (put p (chomp (join_text [newline] (takeWhile (\<lambda>x. x \<noteq> end_line p) ls))) files))"
  by pat_completeness auto
termination
  by (relation "measure (length \<circ> fst)") (auto simp: less_Suc_eq_le intro: order_trans [OF diff_le_self length_dropWhile_le])

definition parse_bundle :: "string \<Rightarrow> (string \<times> string) list" where
  "parse_bundle t = parse_files (split_at newline t) []"

text \<open>What the command of a backup prints for the files it finds, in the order it finds them.\<close>

definition file_text :: "string \<times> string \<Rightarrow> string" where
  "file_text pc = BEGIN_FILE @ fst pc @ HASHES @ [newline] @ snd pc @ [newline] @ end_line (fst pc) @ [newline, newline]"

definition bundle_text :: "(string \<times> string) list \<Rightarrow> string" where
  "bundle_text fs = concat (map file_text fs)"

section \<open>The plan of a restore\<close>

type_synonym line_diff = "string list \<Rightarrow> string list \<Rightarrow> string list"

record bundle_plan =
  bp_write :: "(string \<times> string) list"
  bp_remove :: "string list"
  bp_rejected :: "string list"
  bp_diff :: config_diff

definition empty_plan :: bundle_plan where
  "empty_plan = \<lparr> bp_write = [], bp_remove = [], bp_rejected = [], bp_diff = no_diff \<rparr>"

definition preview_line :: "string \<Rightarrow> (diff_op \<times> string) list" where
  "preview_line l = (if prefix ''---'' l \<or> prefix ''+++'' l then [] else if prefix ''@@'' l then [(Context, l)]
     else [(if prefix ''+'' l then Added else if prefix ''-'' l then Removed else Context, tl l)])"

definition add_section :: "string list \<Rightarrow> (diff_op \<times> string) list \<Rightarrow> config_diff \<Rightarrow> config_diff" where
  "add_section title ls d = d\<lparr> cd_sections := cd_sections d @ [(title, ls)] \<rparr>"

definition plan_file :: "line_diff \<Rightarrow> file_family \<Rightarrow> (string \<times> string) list \<Rightarrow> (string \<times> string) list \<Rightarrow>
    string \<Rightarrow> bundle_plan \<Rightarrow> bundle_plan" where
  "plan_file udiff f backup live p plan =
     (if \<not> path_allowed p f then plan\<lparr> bp_rejected := bp_rejected plan @ [p] \<rparr>
      else if map_of backup p = map_of live p then plan
      else case map_of backup p of
        None \<Rightarrow> plan\<lparr> bp_remove := bp_remove plan @ [p],
          bp_diff := add_section [p, ''added after the backup, will be removed'']
            (map (Pair Removed) (split_at newline (the (map_of live p)))) (bp_diff plan) \<rparr>
      | Some b \<Rightarrow> plan\<lparr> bp_write := put p b (bp_write plan),
          bp_diff := (case map_of live p of
             None \<Rightarrow> add_section [p, ''missing now, will be recreated''] (map (Pair Added) (split_at newline b)) (bp_diff plan)
           | Some l \<Rightarrow> add_section [p] (concat (map preview_line (udiff (split_at newline l) (split_at newline b)))) (bp_diff plan)) \<rparr>)"

definition skip_rejected :: "bundle_plan \<Rightarrow> bundle_plan" where
  "skip_rejected plan = plan\<lparr> bp_diff := (bp_diff plan)\<lparr> cd_skipped := cd_skipped (bp_diff plan) @
     map (\<lambda>p. ([p], ''outside the restorable paths'')) (bp_rejected plan) \<rparr> \<rparr>"

definition plan_bundle :: "line_diff \<Rightarrow> string \<Rightarrow> string \<Rightarrow> file_family \<Rightarrow> bundle_plan" where
  "plan_bundle udiff backup_text live_text f =
     (let backup = parse_bundle backup_text; live = parse_bundle live_text in
      skip_rejected (fold (plan_file udiff f backup live) (sort (remdups (keys_of backup @ keys_of live))) empty_plan))"

definition bundle_matches :: "line_diff \<Rightarrow> string \<Rightarrow> string \<Rightarrow> file_family \<Rightarrow> bool" where
  "bundle_matches udiff backup_text live_text f \<longleftrightarrow> cd_sections (bp_diff (plan_bundle udiff backup_text live_text f)) = []"

definition touched :: "bundle_plan \<Rightarrow> string list" where
  "touched plan = sort (remdups (keys_of (bp_write plan) @ bp_remove plan))"

text \<open>The services of a family: which of the changed files call for which command.\<close>

definition sshd_files :: string where
  "sshd_files = ''/etc/ssh/sshd_config*''"

fun validate_services :: "file_family \<Rightarrow> (string \<times> string) list" where
  "validate_services Linux_files = [(sshd_files, ''sshd -t'')]"
| "validate_services Apache_files = [(''*'', ''apachectl -t 2>&1 || apache2ctl -t 2>&1 || httpd -t 2>&1'')]"
| "validate_services Mongodb_files = []"

fun reload_services :: "file_family \<Rightarrow> (string \<times> string) list" where
  "reload_services Linux_files = [(sshd_files, ''systemctl reload sshd 2>/dev/null || systemctl reload ssh'')]"
| "reload_services Apache_files = [(''*'', ''systemctl reload apache2 2>/dev/null || systemctl reload httpd'')]"
| "reload_services Mongodb_files = [(''*'', ''systemctl restart mongod && sleep 3 && systemctl is-active mongod'')]"

definition matches_pattern :: "string list \<Rightarrow> string \<Rightarrow> bool" where
  "matches_pattern ps pattern \<longleftrightarrow> list_ex (\<lambda>p. fnmatchcase p pattern) ps"

definition validate_commands :: "bundle_plan \<Rightarrow> file_family \<Rightarrow> string list" where
  "validate_commands plan f = map snd (filter (\<lambda>pc. matches_pattern (touched plan) (fst pc)) (validate_services f))"

definition reload_commands :: "bundle_plan \<Rightarrow> file_family \<Rightarrow> string list" where
  "reload_commands plan f = map snd (filter (\<lambda>pc. matches_pattern (touched plan) (fst pc)) (reload_services f))"

text \<open>The changes the driver makes to the files of the host.\<close>

definition apply_plan :: "bundle_plan \<Rightarrow> (string \<times> string) list \<Rightarrow> (string \<times> string) list" where
  "apply_plan plan fs = fold AList.delete (bp_remove plan) (fold (\<lambda>pc. put (fst pc) (snd pc)) (bp_write plan) fs)"

section \<open>What a plan contains\<close>

lemma plan_file_parts:
  "map_of (bp_write (plan_file udiff f b l p plan)) q =
     (if q = p \<and> path_allowed p f \<and> map_of b p \<noteq> map_of l p \<and> map_of b p \<noteq> None then map_of b p else map_of (bp_write plan) q)"
  "set (bp_remove (plan_file udiff f b l p plan)) =
     set (bp_remove plan) \<union> (if path_allowed p f \<and> map_of b p \<noteq> map_of l p \<and> map_of b p = None then {p} else {})"
  "cd_sections (bp_diff (plan_file udiff f b l p plan)) = [] \<longleftrightarrow>
     cd_sections (bp_diff plan) = [] \<and> (path_allowed p f \<longrightarrow> map_of b p = map_of l p)"
  "distinct (keys_of (bp_write plan)) \<Longrightarrow> distinct (keys_of (bp_write (plan_file udiff f b l p plan)))"
  by (auto simp: plan_file_def add_section_def keys_put split: option.splits)

lemma plan_files_parts:
  "map_of (bp_write (fold (plan_file udiff f b l) ps plan)) q =
     (if q \<in> set ps \<and> path_allowed q f \<and> map_of b q \<noteq> map_of l q \<and> map_of b q \<noteq> None then map_of b q else map_of (bp_write plan) q)"
  "set (bp_remove (fold (plan_file udiff f b l) ps plan)) =
     set (bp_remove plan) \<union> {p \<in> set ps. path_allowed p f \<and> map_of b p \<noteq> map_of l p \<and> map_of b p = None}"
  "cd_sections (bp_diff (fold (plan_file udiff f b l) ps plan)) = [] \<longleftrightarrow>
     cd_sections (bp_diff plan) = [] \<and> (\<forall>p \<in> set ps. path_allowed p f \<longrightarrow> map_of b p = map_of l p)"
  "distinct (keys_of (bp_write plan)) \<Longrightarrow> distinct (keys_of (bp_write (fold (plan_file udiff f b l) ps plan)))"
  by (induction ps arbitrary: plan) (auto simp: plan_file_parts)

lemma known_path: "map_of b p \<noteq> map_of l p \<Longrightarrow> p \<in> set (keys_of b) \<or> p \<in> set (keys_of l)"
  by (auto simp: map_of_keys [symmetric])

text \<open>In terms of the files of both sides.\<close>

lemma plan_bundle_parts:
  fixes udiff f backup_text live_text
  defines "plan \<equiv> plan_bundle udiff backup_text live_text f"
    and "b \<equiv> map_of (parse_bundle backup_text)" and "l \<equiv> map_of (parse_bundle live_text)"
  shows "map_of (bp_write plan) q = (if path_allowed q f \<and> b q \<noteq> l q then b q else None)" (is ?W)
    and "q \<in> set (bp_remove plan) \<longleftrightarrow> path_allowed q f \<and> b q \<noteq> l q \<and> b q = None" (is ?R)
    and "bundle_matches udiff backup_text live_text f \<longleftrightarrow> (\<forall>p. path_allowed p f \<longrightarrow> b p = l p)" (is ?M)
    and "distinct (keys_of (bp_write plan))" (is ?D)
proof -
  have known: "b q \<noteq> l q \<Longrightarrow> q \<in> set (keys_of (parse_bundle backup_text)) \<or> q \<in> set (keys_of (parse_bundle live_text))" for q
    unfolding b_def l_def by (rule known_path)
  note parts = plan_def plan_bundle_def bundle_matches_def Let_def skip_rejected_def plan_files_parts empty_plan_def no_diff_def
  show ?W using known [of q] by (cases "b q") (auto simp: parts b_def l_def)
  show ?R using known [of q] by (auto simp: parts b_def l_def)
  show ?D by (auto simp: parts)
  show ?M using known by (auto simp: parts b_def l_def)
qed

section \<open>Only the files of the family\<close>

lemma norm_comps_clean:
  assumes "''..'' \<notin> set acc" "\<forall>c \<in> set acc \<union> set cs. sep \<notin> set c"
  shows "''..'' \<notin> set (norm_comps True acc cs) \<and> (\<forall>c \<in> set (norm_comps True acc cs). sep \<notin> set c)"
  using assms
proof (induction True acc cs rule: norm_comps.induct)
  case (2 acc c cs)
  have tl: "''..'' \<notin> set (tl acc)" "\<forall>c \<in> set (tl acc) \<union> set cs. sep \<notin> set c"
    and push: "\<forall>x \<in> set (c # acc) \<union> set cs. sep \<notin> set x" and skip: "\<forall>x \<in> set acc \<union> set cs. sep \<notin> set x"
    using 2(4,5) by (cases acc; simp)+
  consider "c = [] \<or> c = ''.''" | "\<not> (c = [] \<or> c = ''.'')" "c \<noteq> ''..''" | "c = ''..''" by blast
  then show ?case
  proof cases
    case 2
    then show ?thesis using "2.hyps"(2) [OF 2(1)] "2.prems"(1) push by simp
  next
    case 3
    then have "\<not> (acc \<noteq> [] \<and> hd acc = ''..'')" using "2.prems"(1) by (cases acc) auto
    then show ?thesis using "2.hyps"(3) tl 3 by auto
  qed (use "2.hyps"(1) "2.prems"(1) skip in simp)
qed simp

lemma split_at_no_sep: "x \<in> set (split_at sep s) \<Longrightarrow> sep \<notin> set x"
proof (induction s arbitrary: x)
  case (Cons c s)
  have "hd (split_at sep s) \<in> set (split_at sep s)" by simp
  then show ?case using Cons by (auto dest: list.set_sel(2) [OF split_at_nonempty] split: if_splits)
qed simp

lemma split_at_replicate: "set (split_at sep (replicate n sep @ s)) \<subseteq> insert [] (set (split_at sep s))"
  by (induction n) auto

lemma normal_path:
  assumes "prefix ''/'' p" "normpath p = p"
  shows "''..'' \<notin> set (split_at (CHR ''/'') p)"
proof -
  define n comps where "n = initial_slashes p" and "comps = norm_comps True [] (split_at (CHR ''/'') p)"
  have n: "n > 0" using assms(1) by (auto simp: n_def initial_slashes_def)
  have comps: "''..'' \<notin> set comps" "\<forall>c \<in> set comps. CHR ''/'' \<notin> set c"
    using norm_comps_clean [of "[]" "split_at (CHR ''/'') p" "CHR ''/''"] split_at_no_sep by (auto simp: comps_def)
  have "p = replicate n (CHR ''/'') @ join_text ''/'' comps"
    using assms(2) n by (auto simp: normpath_def n_def comps_def Let_def split: if_splits)
  then have sub: "set (split_at (CHR ''/'') p) \<subseteq> insert [] (set (split_at (CHR ''/'') (join_text ''/'' comps)))"
    using split_at_replicate by metis
  have "set (split_at (CHR ''/'') (join_text ''/'' comps)) \<subseteq> insert [] (set comps)"
    using comps(2) split_join [of comps "CHR ''/''"] by (cases "comps = []") auto
  with sub comps(1) show ?thesis by auto
qed

lemma fnmatch_literal: "fnmatchcase s (lit @ rest) \<Longrightarrow> CHR ''*'' \<notin> set lit \<Longrightarrow> CHR ''?'' \<notin> set lit \<Longrightarrow> prefix lit s"
proof (induction lit arbitrary: s)
  case (Cons c lit)
  then show ?case by (cases s) auto
qed simp

lemma family_paths_etc: "pattern \<in> set (family_paths f) \<Longrightarrow> \<exists>rest. pattern = ''/etc/'' @ rest"
  by (cases f) (auto simp: LINUX_BACKUP_PATHS_def APACHE_BACKUP_PATHS_def MONGODB_BACKUP_PATHS_def)

lemma allowed_path: "path_allowed p f \<Longrightarrow> prefix ''/etc/'' p \<and> ''..'' \<notin> set (split_at (CHR ''/'') p) \<and> newline \<notin> set p"
  using normal_path [of p] fnmatch_literal [of p "''/etc/''"] family_paths_etc [of _ f] by (fastforce simp: path_allowed_def list_ex_iff)

text \<open>
  C26. A restore of files touches nothing but the files of its family, whatever the texts of the
  backup and of the host say: every path that is written or removed matches a pattern of the
  family's list, lies below \<^verbatim>\<open>/etc/\<close> and has no component \<^verbatim>\<open>..\<close> by which it could lead elsewhere.
\<close>

theorem restore_touches_only_its_files:
  assumes "p \<in> set (touched (plan_bundle udiff backup_text live_text f))"
  shows "list_ex (fnmatchcase p) (family_paths f) \<and> prefix ''/etc/'' p \<and> ''..'' \<notin> set (split_at (CHR ''/'') p)"
proof -
  have "path_allowed p f"
    using assms by (auto simp: touched_def map_of_keys [symmetric] plan_bundle_parts split: if_splits)
  then show ?thesis using allowed_path by (auto simp: path_allowed_def)
qed

definition w_backup :: string where
  "w_backup = bundle_text [(''/etc/mongod.conf'', ''a'')]"

theorem restore_touches_only_its_files_witness:
  "''/etc/mongod.conf'' \<in> set (touched (plan_bundle (\<lambda>_ _. []) w_backup [] Mongodb_files)) \<and>
   ''..'' \<notin> set (split_at (CHR ''/'') ''/etc/mongod.conf'')"
proof -
  have "''/etc/mongod.conf'' \<in> set (touched (plan_bundle (\<lambda>_ _. []) w_backup [] Mongodb_files))" by code_simp
  with restore_touches_only_its_files [OF this] show ?thesis by blast
qed

section \<open>From files to text and back\<close>

text \<open>A path and content that a bundle can hold: the path is one line, no line of the content is its end marker.\<close>

definition file_ok :: "string \<times> string \<Rightarrow> bool" where
  "file_ok pc \<longleftrightarrow> fst pc \<noteq> [] \<and> newline \<notin> set (fst pc) \<and> end_line (fst pc) \<notin> set (split_at newline (snd pc))"

lemma split_at_middle: "split_at sep (a @ sep # b) = split_at sep a @ split_at sep b"
proof (induction a)
  case (Cons c a)
  then show ?case by (cases "split_at sep a") simp_all
qed simp

lemma begin_path_marker: "p \<noteq> [] \<Longrightarrow> begin_path (BEGIN_FILE @ p @ HASHES) = Some p"
  by (auto simp: begin_path_def suffix_def)

lemma begin_path_Nil [simp]: "begin_path [] = None"
  by (simp add: begin_path_def BEGIN_FILE_def)

lemma markers_one_line: "newline \<notin> set BEGIN_FILE" "newline \<notin> set HASHES" "newline \<notin> set p \<Longrightarrow> newline \<notin> set (end_line p)"
  by (simp_all add: BEGIN_FILE_def HASHES_def end_line_def)

lemma split_file_text:
  assumes "file_ok (p, c)"
  shows "split_at newline (file_text (p, c) @ t) = (BEGIN_FILE @ p @ HASHES) # split_at newline c @ end_line p # [] # split_at newline t"
proof -
  have p: "newline \<notin> set p" using assms by (simp add: file_ok_def)
  have "split_at newline (file_text (p, c) @ t) = split_at newline ((BEGIN_FILE @ p @ HASHES) @ newline # c @ newline # end_line p @ newline # [] @ newline # t)"
    by (simp add: file_text_def)
  also have "\<dots> = split_at newline (BEGIN_FILE @ p @ HASHES) @ split_at newline c @ split_at newline (end_line p) @ split_at newline [] @ split_at newline t"
    by (simp only: split_at_middle)
  finally show ?thesis using p markers_one_line by (simp add: split_at_clean)
qed

lemma takeWhile_marker:
  "x \<notin> set xs \<Longrightarrow> takeWhile (\<lambda>y. y \<noteq> x) (xs @ x # ys) = xs \<and> dropWhile (\<lambda>y. y \<noteq> x) (xs @ x # ys) = x # ys"
  by (induction xs) auto

lemma parse_file_text:
  assumes "file_ok (p, c)"
  shows "parse_files (split_at newline (file_text (p, c) @ t)) files = parse_files (split_at newline t) (put p (chomp c) files)"
proof -
  have "takeWhile (\<lambda>y. y \<noteq> end_line p) (split_at newline c @ end_line p # [] # split_at newline t) = split_at newline c \<and>
      dropWhile (\<lambda>y. y \<noteq> end_line p) (split_at newline c @ end_line p # [] # split_at newline t) = end_line p # [] # split_at newline t"
    using assms by (intro takeWhile_marker) (simp add: file_ok_def)
  moreover have "begin_path (BEGIN_FILE @ p @ HASHES) = Some p" using assms by (intro begin_path_marker) (simp add: file_ok_def)
  ultimately show ?thesis unfolding split_file_text [OF assms] by (simp add: join_split)
qed

definition put_file :: "(string \<Rightarrow> string) \<Rightarrow> string \<times> string \<Rightarrow> (string \<times> string) list \<Rightarrow> (string \<times> string) list" where
  "put_file g pc = put (fst pc) (g (snd pc))"

lemma map_of_put_files:
  "distinct (keys_of fs) \<Longrightarrow> map_of (fold (put_file g) fs d) p = (case map_of fs p of Some c \<Rightarrow> Some (g c) | None \<Rightarrow> map_of d p)"
  by (induction fs arbitrary: d) (auto simp: put_file_def map_of_keys [symmetric] split: option.splits)

lemma parse_bundle_text:
  assumes "list_all file_ok fs"
  shows "parse_bundle (bundle_text fs) = fold (put_file chomp) fs []"
proof -
  have "parse_files (split_at newline (bundle_text fs)) d = fold (put_file chomp) fs d" for d
    using assms
  proof (induction fs arbitrary: d)
    case (Cons pc fs)
    then show ?case using parse_file_text [of "fst pc" "snd pc" "bundle_text fs" d] by (simp add: bundle_text_def put_file_def)
  qed (simp add: bundle_text_def)
  then show ?thesis by (simp add: parse_bundle_def)
qed

lemma read_back: "list_all file_ok fs \<Longrightarrow> distinct (keys_of fs) \<Longrightarrow> map_of (parse_bundle (bundle_text fs)) p = map_option chomp (map_of fs p)"
  by (simp add: parse_bundle_text map_of_put_files split: option.splits)

text \<open>Whatever a backup holds can be put into a bundle again.\<close>

lemma begin_path_Some: "begin_path l = Some p \<Longrightarrow> p \<noteq> [] \<and> set p \<subseteq> set l"
  by (auto simp: begin_path_def split: if_splits dest!: in_set_takeD in_set_dropD)

lemma chomp_lines: "set (split_at newline (chomp s)) \<subseteq> set (split_at newline s)"
proof (cases "suffix [newline] s")
  case True
  then obtain t where "s = t @ [newline]" by (auto simp: suffix_def)
  then show ?thesis using split_at_middle [of newline t "[]"] by (auto simp: chomp_def suffix_def)
qed (simp add: chomp_def)

lemma body_ok:
  assumes "x \<notin> set ls" "x \<noteq> []" "\<forall>l \<in> set ls. newline \<notin> set l"
  shows "x \<notin> set (split_at newline (chomp (join_text [newline] ls)))"
proof -
  have "set (split_at newline (join_text [newline] ls)) \<subseteq> insert [] (set ls)"
    using split_join [of ls newline] assms(3) by (cases "ls = []") auto
  then show ?thesis using chomp_lines [of "join_text [newline] ls"] assms(1,2) by blast
qed

lemma parse_files_ok:
  assumes "\<forall>l \<in> set ls. newline \<notin> set l" "list_all file_ok files"
  shows "list_all file_ok (parse_files ls files)"
  using assms
proof (induction ls files rule: parse_files.induct)
  case (2 l ls files)
  show ?case
  proof (cases "begin_path l")
    case (Some p)
    define body where "body = takeWhile (\<lambda>x. x \<noteq> end_line p) ls"
    have body: "end_line p \<notin> set body" "\<forall>l \<in> set body. newline \<notin> set l" using 2(3) by (auto simp: body_def dest: set_takeWhileD)
    have p: "p \<noteq> []" "newline \<notin> set p" using begin_path_Some [OF Some] 2(3) by auto
    have "file_ok (p, chomp (join_text [newline] body))"
      using p body_ok [OF body(1) _ body(2)] by (simp add: file_ok_def end_line_def)
    then have "list_all file_ok (put p (chomp (join_text [newline] body)) files)"
      using 2(4) set_put [of p _ files] by (auto simp: list_all_iff)
    moreover have "\<forall>l \<in> set (drop 1 (dropWhile (\<lambda>x. x \<noteq> end_line p) ls)). newline \<notin> set l"
      using 2(3) by (auto dest!: in_set_dropD set_dropWhileD)
    ultimately show ?thesis using 2(2) [OF Some] Some by (simp add: body_def)
  qed (use 2 in simp)
qed simp

lemma parse_bundle_ok: "list_all file_ok (parse_bundle t)"
  unfolding parse_bundle_def by (rule parse_files_ok) (auto dest: split_at_no_sep)

section \<open>A restore reaches the backup\<close>

lemma deleted_files: "map_of (fold AList.delete ps d) q = (if q \<in> set ps then None else map_of d q)"
  by (induction ps arbitrary: d) auto

lemma apply_plan_lookup:
  assumes "distinct (keys_of (bp_write plan))"
  shows "map_of (apply_plan plan fs) q = (if q \<in> set (bp_remove plan) then None else
    case map_of (bp_write plan) q of Some c \<Rightarrow> Some c | None \<Rightarrow> map_of fs q)"
proof -
  have "(\<lambda>pc. put (fst pc) (snd pc)) = put_file (\<lambda>c. c)" by (auto simp: put_file_def)
  then show ?thesis using assms by (simp add: apply_plan_def deleted_files map_of_put_files)
qed

lemma apply_plan_distinct:
  assumes "distinct (keys_of fs)"
  shows "distinct (keys_of (apply_plan plan fs))"
proof -
  have puts: "distinct (keys_of d) \<Longrightarrow> distinct (keys_of (fold (\<lambda>pc. put (fst pc) (snd pc)) ws d))" for ws and d :: "(string \<times> string) list"
    by (induction ws arbitrary: d) (auto simp: keys_put)
  have "distinct (keys_of d) \<Longrightarrow> distinct (keys_of (fold AList.delete ps d))" for ps and d :: "(string \<times> string) list"
    by (induction ps arbitrary: d) (auto simp: keys_delete)
  then show ?thesis using puts [OF assms] by (simp add: apply_plan_def)
qed

lemma file_ok_lookup: "distinct (keys_of fs) \<Longrightarrow> list_all file_ok fs \<longleftrightarrow> (\<forall>p c. map_of fs p = Some c \<longrightarrow> file_ok (p, c))"
  by (auto simp: list_all_iff dest: map_of_SomeD map_of_distinct)


definition w_host :: "(string \<times> string) list" where
  "w_host = [(''/etc/mongod.conf'', ''b''), (''/etc/mongodb.conf'', ''c''), (''/etc/x'', ''d'')]"


section \<open>Line ends\<close>

text \<open>
  The command of a backup prints a content, a line end and the marker, so the lines between the markers are the
  content itself; the parser takes one more line end away. A restored file therefore lacks the end
  of its last line, which the comparison does not see. A file that ends in a blank
  line is read back with one line end less than was written: its restore never verifies.
\<close>

definition two_lines :: string where
  "two_lines = ''a'' @ [newline, newline]"

theorem final_line_end_lost:
  "apply_plan (plan_bundle udiff (bundle_text [(''/etc/mongod.conf'', ''a'' @ [newline])]) (bundle_text []) Mongodb_files) [] =
   [(''/etc/mongod.conf'', ''a'')]"
  by code_simp

theorem blank_last_line_never_verifies:
  "\<not> bundle_matches udiff (bundle_text [(''/etc/mongod.conf'', two_lines)])
      (bundle_text (apply_plan (plan_bundle udiff (bundle_text [(''/etc/mongod.conf'', two_lines)]) (bundle_text []) Mongodb_files) []))
      Mongodb_files"
  by code_simp

text \<open>A star of a pattern crosses directories: paths are restored that no backup of the family contains.\<close>

theorem restore_allows_deeper_paths:
  "path_allowed ''/etc/sysctl.d/x/y.conf'' Linux_files"
  by code_simp

section \<open>Services\<close>

text \<open>A service that has a check of its configuration is not reloaded without it.\<close>

theorem reload_is_validated:
  "f \<noteq> Mongodb_files \<Longrightarrow> reload_commands plan f \<noteq> [] \<Longrightarrow> validate_commands plan f \<noteq> []"
  by (cases f) (auto simp: reload_commands_def validate_commands_def split: if_splits)

end
