(* ===== verification/Restore_Risk.thy ===== *)
theory Restore_Risk
  imports Forti_Config Cisco_Config File_Bundle
begin

text \<open>
  Whether a restore may cut off the connection that applies it:
  \<^verbatim>\<open>modules/backup/restore/risk.py\<close>. A risk is a constructor with what its message mentions;
  the networks and addresses of Python's \<^verbatim>\<open>ipaddress\<close> are an argument.
\<close>

section \<open>Risks\<close>

datatype risk =
    Management_lines nat | Login_files nat
  | Account_missing | Source_excluded | Port_moved string | Not_in_allow_users | In_deny_users

text \<open>The severity \<^verbatim>\<open>lockout\<close>; the others are warnings.\<close>

fun is_lockout :: "risk \<Rightarrow> bool" where
  "is_lockout (Management_lines n) = False"
| "is_lockout (Login_files n) = False"
| "is_lockout r = True"

datatype risk_error = Value_error | Parse_error python_error

record ('net, 'ip) ip_library =
  parse_network :: "string \<Rightarrow> 'net option"
  prefixlen :: "'net \<Rightarrow> nat"
  parse_address :: "string \<Rightarrow> 'ip option"
  contains_ip :: "'net \<Rightarrow> 'ip \<Rightarrow> bool"

section \<open>Lines about management access\<close>

definition FORTI_MGMT :: "string \<Rightarrow> bool" where
  "FORTI_MGMT s \<longleftrightarrow> list_ex (\<lambda>w. py_contains w (py_lower s))
     [''config system admin'', ''trusthost'', ''admin-sport'', ''admin-port'', ''admin-ssh-port'', ''allowaccess'',
      ''config system interface'', ''local-in-policy'', ''admin-https'', ''admin-ssh'']"

definition CISCO_MGMT :: "string \<Rightarrow> bool" where
  "CISCO_MGMT s \<longleftrightarrow> list_ex (\<lambda>w. prefix w (py_lower s))
     [''line vty'', ''ip ssh'', ''aaa '', ''username '', ''ip access-list'', ''access-list'', ''access-class'', ''transport input'',
      ''interface '', ''ip address'', ''management'']"

text \<open>The boundary of a word between what was matched and what follows.\<close>

definition word_boundary :: "string \<Rightarrow> string \<Rightarrow> bool" where
  "word_boundary before rest \<longleftrightarrow> (before \<noteq> [] \<and> word_char (last before)) \<noteq> (rest \<noteq> [] \<and> word_char (hd rest))"

definition SSHD_MGMT :: "string \<Rightarrow> bool" where
  "SSHD_MGMT s = (let t = py_lower (py_lstrip s) in list_ex (\<lambda>w. prefix w t \<and> word_boundary w (drop (length w) t))
     [''port'', ''listenaddress'', ''allowusers'', ''allowgroups'', ''denyusers'', ''denygroups'', ''permitrootlogin'',
      ''passwordauthentication'', ''pubkeyauthentication'', ''usepam'', ''authenticationmethods''])"

definition flagged_lines :: "(string list \<Rightarrow> bool) \<Rightarrow> (string \<Rightarrow> bool) \<Rightarrow> config_diff \<Rightarrow> nat" where
  "flagged_lines title_hit pattern d = sum_list (map (\<lambda>(title, ls).
     length (filter (\<lambda>(x, t). x \<noteq> Context \<and> (title_hit title \<or> pattern (py_strip t))) ls)) (cd_sections d))"

definition management_risk :: "nat \<Rightarrow> risk list" where
  "management_risk n = (if n = 0 then [] else [Management_lines n])"

section \<open>FortiGate\<close>

fun first_found :: "'a option list \<Rightarrow> 'a option" where
  "first_found [] = None"
| "first_found (x # xs) = (case x of None \<Rightarrow> first_found xs | Some y \<Rightarrow> Some y)"

definition enters_scope :: "string \<Rightarrow> bool" where
  "enters_scope l \<longleftrightarrow> prefix ''config global'' l \<or> prefix ''config vdom'' l \<or> prefix ''edit '' l"

fun find_scope :: "string \<Rightarrow> node \<Rightarrow> node option" where
  "find_scope key (Node line ch) = (case map_of ch key of Some n \<Rightarrow> Some n
     | None \<Rightarrow> first_found (map (\<lambda>kc. if enters_scope (line_of (snd kc)) then find_scope key (snd kc) else None) ch))"

definition admin_entry :: "string \<Rightarrow> node \<Rightarrow> node option" where
  "admin_entry user scope = (case map_of (children scope) (''edit '' @ [CHR 0x22] @ user @ [CHR 0x22]) of
     Some n \<Rightarrow> Some n | None \<Rightarrow> map_of (children scope) (''edit '' @ user))"

definition trusted_networks :: "('net, 'ip) ip_library \<Rightarrow> node \<Rightarrow> 'net list" where
  "trusted_networks lib n = concat (map (\<lambda>(key, c).
     if prefix ''set trusthost'' key then
       (case words_of (line_of c) of _ # _ # a # m # _ \<Rightarrow>
          (case parse_network lib (a @ ''/'' @ m) of None \<Rightarrow> [] | Some net \<Rightarrow> [net]) | _ \<Rightarrow> [])
     else []) (children n))"

definition source_risk :: "('net, 'ip) ip_library \<Rightarrow> node \<Rightarrow> string option \<Rightarrow> risk list" where
  "source_risk lib entry source = (case source of None \<Rightarrow> [] | Some s \<Rightarrow>
     let nets = trusted_networks lib entry in
     if s = [] \<or> nets = [] \<or> list_ex (\<lambda>n. prefixlen lib n = 0) nets then []
     else case parse_address lib s of None \<Rightarrow> []
       | Some ip \<Rightarrow> if list_ex (\<lambda>n. contains_ip lib n ip) nets then [] else [Source_excluded])"

definition port_risk :: "string \<Rightarrow> int \<Rightarrow> (risk_error, risk list) result" where
  "port_risk word port = (if word = [] \<or> \<not> list_all py_isdigit word then Inr []
     else case py_int word of None \<Rightarrow> Inl Value_error | Some p \<Rightarrow> Inr (if p = port then [] else [Port_moved word]))"

definition admin_risks :: "('net, 'ip) ip_library \<Rightarrow> node \<Rightarrow> string \<Rightarrow> string option \<Rightarrow> risk list" where
  "admin_risks lib tree user source = (case find_scope ''config system admin'' tree of None \<Rightarrow> []
     | Some scope \<Rightarrow> (case admin_entry user scope of None \<Rightarrow> [Account_missing] | Some entry \<Rightarrow> source_risk lib entry source))"

definition ssh_port_risk :: "node \<Rightarrow> int \<Rightarrow> (risk_error, risk list) result" where
  "ssh_port_risk tree port = (case find_scope ''config system global'' tree of None \<Rightarrow> Inr []
     | Some scope \<Rightarrow> (case map_of (children scope) ''set admin-ssh-port'' of None \<Rightarrow> Inr []
       | Some n \<Rightarrow> (case words_of (line_of n) of _ # _ # w # _ \<Rightarrow> port_risk w port | _ \<Rightarrow> Inr [])))"

definition fortios_risks :: "('net, 'ip) ip_library \<Rightarrow> config_diff \<Rightarrow> string \<Rightarrow> string \<Rightarrow> string option \<Rightarrow> int \<Rightarrow>
    (risk_error, risk list) result" where
  "fortios_risks lib d backup_text user source port =
     (case parse_fortios backup_text of Inl e \<Rightarrow> Inl (Parse_error e)
      | Inr tree \<Rightarrow> res_bind (ssh_port_risk tree port) (\<lambda>ports.
          Inr (management_risk (flagged_lines (list_ex FORTI_MGMT) FORTI_MGMT d) @ admin_risks lib tree user source @ ports)))"

section \<open>Cisco\<close>

text \<open>A title is the path with arrows between its parts, so a further part adds a space to the first.\<close>

definition cisco_title_hit :: "string list \<Rightarrow> bool" where
  "cisco_title_hit title = (case title of [] \<Rightarrow> False | [p] \<Rightarrow> CISCO_MGMT p | p # _ \<Rightarrow> CISCO_MGMT (p @ '' ''))"

text \<open>The texts that begin at the beginning of a line.\<close>

fun later_lines :: "string \<Rightarrow> string list" where
  "later_lines [] = []"
| "later_lines (c # s) = (if c = newline then s # later_lines s else later_lines s)"

definition line_starts :: "string \<Rightarrow> string list" where
  "line_starts t = t # later_lines t"

definition USERNAME :: string where
  "USERNAME = ''username ''"

definition names_user :: "string \<Rightarrow> string \<Rightarrow> bool" where
  "names_user user t \<longleftrightarrow> list_ex (\<lambda>s. prefix (USERNAME @ user) s \<and> word_boundary (USERNAME @ user) (drop (length (USERNAME @ user)) s)) (line_starts t)"

definition cisco_risks :: "config_diff \<Rightarrow> string \<Rightarrow> string \<Rightarrow> risk list" where
  "cisco_risks d backup_text user = management_risk (flagged_lines cisco_title_hit CISCO_MGMT d) @
     (if user \<noteq> [] \<and> \<not> names_user user backup_text \<and> list_ex (prefix USERNAME) (line_starts backup_text) then [Account_missing] else [])"

section \<open>Files of a server\<close>

definition login_file :: "string \<Rightarrow> bool" where
  "login_file title \<longleftrightarrow> list_ex (\<lambda>d. py_contains d title) [''/etc/ssh/'', ''/etc/pam.d/'', ''/etc/security/'']"

definition user_names :: "string list \<Rightarrow> string list" where
  "user_names parts = map (\<lambda>p. fst (split_first (CHR ''@'') p)) (tl parts)"

definition sshd_line_risks :: "string \<Rightarrow> int \<Rightarrow> string \<Rightarrow> (risk_error, risk list) result" where
  "sshd_line_risks user port l =
     (if \<not> SSHD_MGMT l then Inr []
      else let parts = words_of l; key = py_lower (hd parts) in
        res_bind (if key = ''port'' \<and> tl parts \<noteq> [] then port_risk (hd (tl parts)) port else Inr []) (\<lambda>ports.
          Inr (ports @ (if key = ''allowusers'' \<and> user \<notin> set (user_names parts) then [Not_in_allow_users] else []) @
            (if key = ''denyusers'' \<and> user \<in> set (user_names parts) then [In_deny_users] else []))))"

fun sshd_risks :: "string \<Rightarrow> int \<Rightarrow> string list \<Rightarrow> (risk_error, risk list) result" where
  "sshd_risks user port [] = Inr []"
| "sshd_risks user port (l # ls) = res_bind (sshd_line_risks user port l) (\<lambda>rs. res_bind (sshd_risks user port ls) (\<lambda>rs'. Inr (rs @ rs')))"

definition bundle_risks :: "config_diff \<Rightarrow> (string \<times> string) list \<Rightarrow> file_family \<Rightarrow> string \<Rightarrow> int \<Rightarrow> (risk_error, risk list) result" where
  "bundle_risks d files_after f user port =
     (if f \<noteq> Linux_files then Inr []
      else let n = length (filter (\<lambda>s. list_ex login_file (fst s)) (cd_sections d));
               sshd = (case map_of files_after ''/etc/ssh/sshd_config'' of None \<Rightarrow> [] | Some t \<Rightarrow> t)
        in res_bind (sshd_risks user port (py_splitlines sshd)) (\<lambda>rs. Inr ((if n = 0 then [] else [Login_files n]) @ rs)))"

section \<open>What the absence of a lockout means\<close>

lemma no_lockout_parts:
  assumes "fortios_risks lib d backup_text user source port = Inr rs" "\<not> list_ex is_lockout rs" "parse_fortios backup_text = Inr tree"
  shows "\<not> list_ex is_lockout (admin_risks lib tree user source)" "\<exists>ps. ssh_port_risk tree port = Inr ps \<and> \<not> list_ex is_lockout ps"
  using assms by (cases "ssh_port_risk tree port"; auto simp: fortios_risks_def)+

lemma port_risk_quiet: "port_risk w port = Inr ps \<Longrightarrow> \<not> list_ex is_lockout ps \<Longrightarrow> w \<noteq> [] \<Longrightarrow> list_all py_isdigit w \<Longrightarrow> py_int w = Some port"
  by (auto simp: port_risk_def split: if_splits option.splits)

text \<open>
  Where no lockout is reported for a FortiGate, the configuration of the backup lets the connection
  in again: its table of administrators, if it has one, has the account, the trusted hosts of the account, if they
  restrict anything, include the address, and a port that it sets for SSH is the one in use.
\<close>

theorem no_lockout_keeps_access:
  assumes "fortios_risks lib d backup_text user (Some source) port = Inr rs" "\<not> list_ex is_lockout rs"
    and "parse_fortios backup_text = Inr tree" "find_scope ''config system admin'' tree = Some scope"
    and "source \<noteq> []" "parse_address lib source = Some ip"
  shows "\<exists>entry. admin_entry user scope = Some entry \<and>
    (trusted_networks lib entry = [] \<or> list_ex (\<lambda>n. prefixlen lib n = 0 \<or> contains_ip lib n ip) (trusted_networks lib entry))"
  using no_lockout_parts(1) [OF assms(1-3)] assms(4-6)
  by (auto simp: admin_risks_def source_risk_def Let_def list_ex_iff split: option.splits if_splits)

theorem no_lockout_keeps_port:
  assumes "fortios_risks lib d backup_text user source port = Inr rs" "\<not> list_ex is_lockout rs"
    and "parse_fortios backup_text = Inr tree" "find_scope ''config system global'' tree = Some scope"
    and "map_of (children scope) ''set admin-ssh-port'' = Some n" "words_of (line_of n) = a # b # w # r" "w \<noteq> []" "list_all py_isdigit w"
  shows "py_int w = Some port"
  using no_lockout_parts(2) [OF assms(1-3)] assms(4-8) by (auto simp: ssh_port_risk_def dest: port_risk_quiet)

end
