(* ===== verification/Restore_Job.thy ===== *)
theory Restore_Job
  imports Restore_Risk Device_Backups
begin

text \<open>
  The background job that restores a backup to its device: \<^verbatim>\<open>modules/backup/restore/service.py\<close>, with
  the plan and the comparison of \<^verbatim>\<open>drivers.py\<close> and the request of \<^verbatim>\<open>modules/backup/router.py\<close> that starts it. What a
  device answers is arbitrary: each answer is a function of the calls made before. Every call and its
  answer is recorded in \<open>rr_calls\<close>, and takes any amount of time. The texts of messages are left out, and
  with them their redaction; the reason a job ended with is a constructor.
\<close>

section \<open>Plans\<close>

datatype exn = Device_error string | Risk_error risk_error | Attribute_error | Family_error

record restore_plan =
  rp_diff :: config_diff
  rp_commands :: "string list"
  rp_bundle :: "bundle_plan option"
  rp_risks :: "risk list"

definition plan_is_empty :: "restore_plan \<Rightarrow> bool" where
  "plan_is_empty p \<longleftrightarrow> is_empty_diff (rp_diff p) \<and>
     (case rp_bundle p of None \<Rightarrow> True | Some b \<Rightarrow> bp_write b = [] \<and> bp_remove b = [])"

record credentials =
  cr_host :: string
  cr_username :: string
  cr_port :: int

datatype apply_outcome = Applied | Rejected string | Apply_raised exn

datatype call =
    Opened "exn option" | Read_live "(exn, string) result" | Asked_revert "(exn, bool) result" | Snapshot "(exn, string) result"
  | Apply restore_plan "int option" apply_outcome | Confirm "exn option" | Revert_now "exn option" | Close "exn option" | Sleep nat

record ('net, 'ip) environment =
  e_open :: "call list \<Rightarrow> exn option"
  e_read :: "call list \<Rightarrow> (exn, string) result"
  e_source_ip :: "call list \<Rightarrow> string option"
  e_revert_available :: "call list \<Rightarrow> (exn, bool) result"
  e_snapshot :: "call list \<Rightarrow> (exn, string) result"
  e_apply :: "call list \<Rightarrow> restore_plan \<Rightarrow> int option \<Rightarrow> apply_outcome"
  e_confirm :: "call list \<Rightarrow> exn option"
  e_revert :: "call list \<Rightarrow> exn option"
  e_close :: "call list \<Rightarrow> exn option"
  e_time :: "call list \<Rightarrow> nat"
  e_now :: "call list \<Rightarrow> datetime"
  e_udiff :: line_diff
  e_ips :: "('net, 'ip) ip_library"
  e_digest :: "string \<Rightarrow> string"
  e_json :: "(string \<times> string) list \<Rightarrow> string"
  e_compare :: comparison
  e_creds :: credentials

definition supported_family :: "string \<Rightarrow> bool" where
  "supported_family s \<longleftrightarrow> s \<in> {''cisco'', ''fortinet'', ''linux'', ''apache'', ''mongodb''}"

definition merge_files :: "bundle_plan \<Rightarrow> (string \<times> string) list \<Rightarrow> (string \<times> string) list" where
  "merge_files b files = fold AList.delete (bp_remove b) (fold (\<lambda>pc. put (fst pc) (snd pc)) (bp_write b) files)"

definition cisco_driver_plan :: "('net, 'ip) environment \<Rightarrow> string \<Rightarrow> string \<Rightarrow> restore_plan" where
  "cisco_driver_plan env backup_text live =
     (let (cmds, d) = diff_cisco backup_text live in
      \<lparr> rp_diff = d, rp_commands = cmds, rp_bundle = None, rp_risks = cisco_risks d backup_text (cr_username (e_creds env)) \<rparr>)"

definition forti_driver_plan :: "('net, 'ip) environment \<Rightarrow> call list \<Rightarrow> string \<Rightarrow> string \<Rightarrow> (exn, restore_plan) result" where
  "forti_driver_plan env h backup_text live =
     (case diff_fortios backup_text live of Inl e \<Rightarrow> Inl (Risk_error (Parse_error e))
      | Inr (cmds, d) \<Rightarrow>
        (case fortios_risks (e_ips env) d backup_text (cr_username (e_creds env)) (e_source_ip env h) (cr_port (e_creds env)) of
           Inl e \<Rightarrow> Inl (Risk_error e)
         | Inr rs \<Rightarrow> Inr \<lparr> rp_diff = d, rp_commands = cmds, rp_bundle = None, rp_risks = rs \<rparr>))"

definition bundle_driver_plan :: "('net, 'ip) environment \<Rightarrow> file_family \<Rightarrow> string \<Rightarrow> string \<Rightarrow> (exn, restore_plan) result" where
  "bundle_driver_plan env f backup_text live =
     (let b = plan_bundle (e_udiff env) backup_text live f in
      case bundle_risks (bp_diff b) (merge_files b (parse_bundle live)) f (cr_username (e_creds env)) (cr_port (e_creds env)) of
        Inl e \<Rightarrow> Inl (Risk_error e)
      | Inr rs \<Rightarrow> Inr \<lparr> rp_diff = bp_diff b, rp_commands = [], rp_bundle = Some b, rp_risks = rs \<rparr>)"

definition driver_plan :: "('net, 'ip) environment \<Rightarrow> call list \<Rightarrow> string \<Rightarrow> string \<Rightarrow> string \<Rightarrow> (exn, restore_plan) result" where
  "driver_plan env h family backup_text live =
     (if family = ''cisco'' then Inr (cisco_driver_plan env backup_text live)
      else if family = ''fortinet'' then forti_driver_plan env h backup_text live
      else case family_of family of None \<Rightarrow> Inl Family_error | Some f \<Rightarrow> bundle_driver_plan env f backup_text live)"

lemmas driver_plan_defs = driver_plan_def cisco_driver_plan_def forti_driver_plan_def bundle_driver_plan_def

text \<open>Whether the device has the configuration of a text, and the number of lines that differ.\<close>

definition configs_match :: "('net, 'ip) environment \<Rightarrow> string \<Rightarrow> string \<Rightarrow> string \<Rightarrow> (exn, bool \<times> nat) result" where
  "configs_match env family backup_text live =
     (let lines = (\<lambda>d. (is_empty_diff d, count_op Added d + count_op Removed d)) in
      if family = ''cisco'' then Inr (lines (snd (diff_cisco backup_text live)))
      else if family = ''fortinet'' then
        (case diff_fortios backup_text live of Inl e \<Rightarrow> Inl (Risk_error (Parse_error e)) | Inr (_, d) \<Rightarrow> Inr (lines d))
      else case family_of family of None \<Rightarrow> Inl Family_error
        | Some f \<Rightarrow> let ss = cd_sections (bp_diff (plan_bundle (e_udiff env) backup_text live f)) in
            Inr (ss = [], sum_list (map (\<lambda>s. length (snd s)) ss)))"

definition tree_text :: "node \<Rightarrow> string" where
  "tree_text n = join_text [newline] (map (\<lambda>(d, l). str_of_nat d @ ''|'' @ l) (flatten 0 n))"

definition fingerprint :: "('net, 'ip) environment \<Rightarrow> string \<Rightarrow> string \<Rightarrow> (exn, string) result" where
  "fingerprint env family t =
     (if family = ''cisco'' then Inr (e_digest env (tree_text (parse_cisco t)))
      else if family = ''fortinet'' then
        (case parse_fortios t of Inl e \<Rightarrow> Inl (Risk_error (Parse_error e)) | Inr n \<Rightarrow> Inr (e_digest env (tree_text n)))
      else Inr (e_digest env (e_json env (parse_bundle t))))"

section \<open>The job\<close>

datatype end_reason =
    Changed_since_review | Lockout_not_acknowledged | Auto_revert_missing | Rejected_by_device string | Still_differs nat
  | Access_lost | Still_unreachable | Reverted_by_itself | Matches_neither | Failed_with exn

record job_columns =
  jc_family :: string
  jc_minutes :: int
  jc_armed :: bool
  jc_summary :: "(nat \<times> nat \<times> nat \<times> risk list) option"
  jc_events :: "(string \<times> string) list"
  jc_reason :: "end_reason option"
  jc_started :: "datetime option"

record restore_run =
  rr_id :: int
  rr_tables :: backup_tables
  rr_job :: job_columns
  rr_calls :: "call list"
  rr_clock :: nat

definition update_row :: "(backup_restore \<Rightarrow> backup_restore) \<Rightarrow> restore_run \<Rightarrow> restore_run" where
  "update_row g s = s\<lparr> rr_tables := (rr_tables s)\<lparr> bt_restores :=
     map (\<lambda>r. if br_id r = rr_id s then g r else r) (bt_restores (rr_tables s)) \<rparr> \<rparr>"

definition status :: "string \<Rightarrow> restore_run \<Rightarrow> restore_run" where
  "status st = update_row (\<lambda>r. r\<lparr> br_status := st \<rparr>)"

definition job_event :: "string \<Rightarrow> string \<Rightarrow> restore_run \<Rightarrow> restore_run" where
  "job_event step st s = s\<lparr> rr_job := (rr_job s)\<lparr> jc_events := jc_events (rr_job s) @ [(step, st)] \<rparr> \<rparr>"

definition finish :: "('net, 'ip) environment \<Rightarrow> string \<Rightarrow> end_reason option \<Rightarrow> restore_run \<Rightarrow> restore_run" where
  "finish env st reason s = update_row (\<lambda>r. r\<lparr> br_status := st, br_finished := Some (e_now env (rr_calls s)) \<rparr>)
     (s\<lparr> rr_job := (rr_job s)\<lparr> jc_reason := reason \<rparr> \<rparr>)"

definition called :: "('net, 'ip) environment \<Rightarrow> call \<Rightarrow> restore_run \<Rightarrow> restore_run" where
  "called env c s = s\<lparr> rr_calls := rr_calls s @ [c],
     rr_clock := rr_clock s + e_time env (rr_calls s) + (case c of Sleep n \<Rightarrow> n | _ \<Rightarrow> 0) \<rparr>"

definition do_open :: "('net, 'ip) environment \<Rightarrow> restore_run \<Rightarrow> exn option \<times> restore_run" where
  "do_open env s = (let x = e_open env (rr_calls s) in (x, called env (Opened x) s))"

definition do_read :: "('net, 'ip) environment \<Rightarrow> restore_run \<Rightarrow> (exn, string) result \<times> restore_run" where
  "do_read env s = (let x = e_read env (rr_calls s) in (x, called env (Read_live x) s))"

definition do_close :: "('net, 'ip) environment \<Rightarrow> restore_run \<Rightarrow> exn option \<times> restore_run" where
  "do_close env s = (let x = e_close env (rr_calls s) in (x, called env (Close x) s))"

definition do_revert :: "('net, 'ip) environment \<Rightarrow> restore_run \<Rightarrow> exn option \<times> restore_run" where
  "do_revert env s = (let x = e_revert env (rr_calls s) in (x, called env (Revert_now x) s))"

definition RECONNECT_ATTEMPTS :: nat where "RECONNECT_ATTEMPTS = 6"
definition RECONNECT_DELAY_SECONDS :: nat where "RECONNECT_DELAY_SECONDS = 10"
definition REVERT_GRACE_SECONDS :: int where "REVERT_GRACE_SECONDS = 120"
definition REVERT_POLL_SECONDS :: nat where "REVERT_POLL_SECONDS = 30"

fun reconnect :: "('net, 'ip) environment \<Rightarrow> nat \<Rightarrow> restore_run \<Rightarrow> bool \<times> restore_run" where
  "reconnect env 0 s = (False, s)"
| "reconnect env (Suc n) s = (case do_open env s of
     (None, s) \<Rightarrow> (True, s)
   | (Some _, s) \<Rightarrow> reconnect env n (if n = 0 then s else called env (Sleep RECONNECT_DELAY_SECONDS) s))"

text \<open>The time a device needs to revert on its own passes, then the attempts to reach it.\<close>

function wait_for :: "('net, 'ip) environment \<Rightarrow> nat \<Rightarrow> int \<Rightarrow> restore_run \<Rightarrow> restore_run" where
  "wait_for env since deadline s = (if int (rr_clock s) - int since < deadline
     then wait_for env since deadline (called env (Sleep REVERT_POLL_SECONDS) s) else s)"
  by pat_completeness auto
termination
  by (relation "measure (\<lambda>(env, since, deadline, s). nat (deadline + int since - int (rr_clock s)))")
    (auto simp: called_def REVERT_POLL_SECONDS_def)

fun poll :: "('net, 'ip) environment \<Rightarrow> nat \<Rightarrow> restore_run \<Rightarrow> bool \<times> restore_run" where
  "poll env 0 s = (False, s)"
| "poll env (Suc n) s = (case do_open env s of
     (None, s) \<Rightarrow> (True, s)
   | (Some _, s) \<Rightarrow> poll env n (called env (Sleep REVERT_POLL_SECONDS) s))"

text \<open>A step of the job ends with the exception it raised, if any.\<close>

type_synonym run_end = "exn option \<times> restore_run"

definition await_self_revert :: "('net, 'ip) environment \<Rightarrow> string \<Rightarrow> string \<Rightarrow> bool \<Rightarrow> int \<Rightarrow> nat \<Rightarrow> restore_run \<Rightarrow> run_end" where
  "await_self_revert env family pre_text armed mins applied_at s =
     (if \<not> armed then (None, finish env ''failed'' (Some Access_lost) (job_event ''verify'' ''failed'' s))
      else let s = job_event ''verify'' ''failed'' (status ''reverting'' s);
               s = wait_for env applied_at (mins * 60 + REVERT_GRACE_SECONDS) s in
        case poll env (RECONNECT_ATTEMPTS * 2) s of
          (False, s) \<Rightarrow> (None, finish env ''failed'' (Some Still_unreachable) s)
        | (True, s) \<Rightarrow> (case do_read env s of
            (Inl e, s) \<Rightarrow> (Some e, s)
          | (Inr live, s) \<Rightarrow> (case configs_match env family pre_text live of
              Inl e \<Rightarrow> (Some e, s)
            | Inr (True, _) \<Rightarrow> (None, finish env ''reverted'' (Some Reverted_by_itself) (job_event ''revert'' ''done'' s))
            | Inr (False, _) \<Rightarrow> (None, finish env ''failed'' (Some Matches_neither) s))))"

definition keep :: "('net, 'ip) environment \<Rightarrow> restore_run \<Rightarrow> run_end" where
  "keep env s = (let s = status ''saving'' s; x = e_confirm env (rr_calls s); s = called env (Confirm x) s in
     case x of Some e \<Rightarrow> (Some e, s) | None \<Rightarrow> (None, finish env ''succeeded'' None (job_event ''save'' ''done'' s)))"

definition verify_restore :: "('net, 'ip) environment \<Rightarrow> string \<Rightarrow> string \<Rightarrow> bool \<Rightarrow> restore_run \<Rightarrow> run_end" where
  "verify_restore env family backup_text armed s = (case do_read env (job_event ''verify'' ''done'' s) of
     (Inl e, s) \<Rightarrow> (Some e, s)
   | (Inr live, s) \<Rightarrow> (case configs_match env family backup_text live of
       Inl e \<Rightarrow> (Some e, s)
     | Inr (True, _) \<Rightarrow> keep env (job_event ''verify'' ''done'' s)
     | Inr (False, n) \<Rightarrow>
         let s = job_event ''verify'' ''failed'' s in
         if armed then (case do_revert env (status ''reverting'' s) of
             (Some e, s) \<Rightarrow> (Some e, s)
           | (None, s) \<Rightarrow> (None, finish env ''reverted'' (Some (Still_differs n)) (job_event ''revert'' ''done'' s)))
         else (None, finish env ''failed'' (Some (Still_differs n)) s)))"

definition applied :: "('net, 'ip) environment \<Rightarrow> string \<Rightarrow> string \<Rightarrow> string \<Rightarrow> bool \<Rightarrow> int \<Rightarrow> restore_run \<Rightarrow> run_end" where
  "applied env family backup_text pre_text armed mins s =
     (let s = job_event ''apply'' ''done'' s; applied_at = rr_clock s in
      case do_close env (status ''verifying'' s) of
        (Some e, s) \<Rightarrow> (Some e, s)
      | (None, s) \<Rightarrow> (case reconnect env RECONNECT_ATTEMPTS s of
          (False, s) \<Rightarrow> await_self_revert env family pre_text armed mins applied_at s
        | (True, s) \<Rightarrow> verify_restore env family backup_text armed s))"

definition rejected :: "('net, 'ip) environment \<Rightarrow> string \<Rightarrow> bool \<Rightarrow> restore_run \<Rightarrow> run_end" where
  "rejected env msg armed s =
     (let s = job_event ''apply'' ''failed'' s in
      if armed then (case do_revert env (status ''reverting'' s) of
          (None, s) \<Rightarrow> (None, finish env ''reverted'' (Some (Rejected_by_device msg)) (job_event ''revert'' ''done'' s))
        | (Some _, s) \<Rightarrow> (None, finish env ''reverted'' (Some (Rejected_by_device msg)) (job_event ''revert'' ''info'' s)))
      else (None, finish env ''failed'' (Some (Rejected_by_device msg)) s))"

definition apply_changes :: "('net, 'ip) environment \<Rightarrow> string \<Rightarrow> string \<Rightarrow> string \<Rightarrow> restore_plan \<Rightarrow> restore_run \<Rightarrow> run_end" where
  "apply_changes env family backup_text pre_text plan s =
     (let s = status ''applying'' s; armed = jc_armed (rr_job s); mins = jc_minutes (rr_job s);
          timer = (if armed then Some mins else None); x = e_apply env (rr_calls s) plan timer;
          s = called env (Apply plan timer x) s in
      case x of
        Apply_raised e \<Rightarrow> (Some e, s)
      | Rejected msg \<Rightarrow> rejected env msg armed s
      | Applied \<Rightarrow> applied env family backup_text pre_text armed mins s)"

text \<open>The undo point: the hook of new backups compares it with the previous one.\<close>

definition save_undo_point :: "('net, 'ip) environment \<Rightarrow> int \<Rightarrow> string \<Rightarrow> string \<Rightarrow> restore_run \<Rightarrow> restore_run" where
  "save_undo_point env asset family pre_text s =
     (let i = bt_next (rr_tables s) in
      job_event ''backup'' ''done'' (update_row (\<lambda>r. r\<lparr> br_pre_restore := Some i \<rparr>)
        (s\<lparr> rr_tables := save_backup (e_compare env) (fresh_backup asset family pre_text None (e_now env (rr_calls s))) (rr_tables s) \<rparr>)))"

definition undo_then_apply :: "('net, 'ip) environment \<Rightarrow> int \<Rightarrow> string \<Rightarrow> string \<Rightarrow> restore_plan \<Rightarrow> restore_run \<Rightarrow> run_end" where
  "undo_then_apply env asset family backup_text plan s =
     (let s = status ''backing_up'' s; x = e_snapshot env (rr_calls s); s = called env (Snapshot x) s in
      case x of Inl e \<Rightarrow> (Some e, s)
      | Inr pre_text \<Rightarrow> apply_changes env family backup_text pre_text plan (save_undo_point env asset family pre_text s))"

definition may_apply :: "('net, 'ip) environment \<Rightarrow> int \<Rightarrow> string \<Rightarrow> string \<Rightarrow> bool \<Rightarrow> bool \<Rightarrow> restore_plan \<Rightarrow> restore_run \<Rightarrow> run_end" where
  "may_apply env asset family backup_text acknowledged allow plan s =
     (let d = rp_diff plan;
          s = s\<lparr> rr_job := (rr_job s)\<lparr> jc_summary := Some (count_op Added d, count_op Removed d, length (cd_sections d), rp_risks plan) \<rparr> \<rparr> in
      if list_ex is_lockout (rp_risks plan) \<and> \<not> acknowledged
      then (None, finish env ''failed'' (Some Lockout_not_acknowledged) (job_event ''connect'' ''failed'' s))
      else let x = e_revert_available env (rr_calls s); s = called env (Asked_revert x) s in
        case x of Inl e \<Rightarrow> (Some e, s)
        | Inr available \<Rightarrow>
          let s = s\<lparr> rr_job := (rr_job s)\<lparr> jc_armed := available \<rparr> \<rparr> in
          if \<not> available \<and> \<not> allow
          then (None, finish env ''failed'' (Some Auto_revert_missing) (job_event ''connect'' ''failed'' s))
          else undo_then_apply env asset family backup_text plan s)"

definition reviewed :: "('net, 'ip) environment \<Rightarrow> int \<Rightarrow> string \<Rightarrow> string \<Rightarrow> string \<Rightarrow> bool \<Rightarrow> bool \<Rightarrow> restore_run \<Rightarrow> run_end" where
  "reviewed env asset family backup_text expected acknowledged allow s =
     (case do_read env (job_event ''connect'' ''done'' s) of
        (Inl e, s) \<Rightarrow> (Some e, s)
      | (Inr live, s) \<Rightarrow> (case fingerprint env family live of
          Inl e \<Rightarrow> (Some e, s)
        | Inr fp \<Rightarrow>
          if fp \<noteq> expected
          then (None, finish env ''failed'' (Some Changed_since_review) (job_event ''connect'' ''failed'' s))
          else case driver_plan env (rr_calls s) family backup_text live of
            Inl e \<Rightarrow> (Some e, s)
          | Inr plan \<Rightarrow>
            if plan_is_empty plan then (None, finish env ''succeeded'' None (job_event ''verify'' ''done'' s))
            else may_apply env asset family backup_text acknowledged allow plan s))"

text \<open>The row of the job and the text of its backup; a backup that is gone raises.\<close>

definition job_row :: "restore_run \<Rightarrow> backup_restore option" where
  "job_row s = find (\<lambda>r. br_id r = rr_id s) (bt_restores (rr_tables s))"

definition backup_content :: "backup_tables \<Rightarrow> backup_restore \<Rightarrow> string option" where
  "backup_content T r = (case br_backup r of None \<Rightarrow> None
     | Some i \<Rightarrow> map_option db_config (find (\<lambda>b. db_id b = i) (bt_backups T)))"

definition fail_with :: "('net, 'ip) environment \<Rightarrow> run_end \<Rightarrow> restore_run" where
  "fail_with env x = (case x of (None, s) \<Rightarrow> s
     | (Some e, s) \<Rightarrow> finish env ''failed'' (Some (Failed_with e)) (job_event ''error'' ''failed'' s))"

definition run_restore :: "('net, 'ip) environment \<Rightarrow> string \<Rightarrow> bool \<Rightarrow> bool \<Rightarrow> restore_run \<Rightarrow> restore_run" where
  "run_restore env expected acknowledged allow s =
     (case job_row s of None \<Rightarrow> s
      | Some r \<Rightarrow> (case backup_content (rr_tables s) r of
          None \<Rightarrow> fail_with env (Some Attribute_error, s)
        | Some backup_text \<Rightarrow>
          let family = jc_family (rr_job s);
              s = status ''connecting'' (s\<lparr> rr_job := (rr_job s)\<lparr> jc_started := Some (e_now env (rr_calls s)) \<rparr> \<rparr>) in
          if \<not> supported_family family then fail_with env (Some Family_error, s)
          else snd (do_close env (fail_with env (case do_open env s of
              (Some e, s) \<Rightarrow> (Some e, s)
            | (None, s) \<Rightarrow> reviewed env (br_asset r) family backup_text expected acknowledged allow s)))))"

declare wait_for.simps [simp del]

section \<open>What the steps record\<close>

text \<open>A state that follows another by calls of a kind, with the same backups and the same references to them.\<close>

definition row_refs :: "restore_run \<Rightarrow> (int \<times> int option) list" where
  "row_refs s = map (\<lambda>r. (br_id r, br_pre_restore r)) (bt_restores (rr_tables s))"

definition adds :: "(call \<Rightarrow> bool) \<Rightarrow> restore_run \<Rightarrow> restore_run \<Rightarrow> bool" where
  "adds P s s' \<longleftrightarrow> rr_id s' = rr_id s \<and> bt_backups (rr_tables s') = bt_backups (rr_tables s) \<and> row_refs s' = row_refs s \<and>
     (\<exists>cs. rr_calls s' = rr_calls s @ cs \<and> list_all P cs)"

lemma adds_refl: "adds P s s"
  by (auto simp: adds_def)

lemma adds_trans [trans]: "adds P s t \<Longrightarrow> adds P t u \<Longrightarrow> adds P s u"
  by (auto simp: adds_def)

lemma update_row_refs: "(\<And>r. br_id (g r) = br_id r \<and> br_pre_restore (g r) = br_pre_restore r) \<Longrightarrow> adds P s (update_row g s)"
  by (auto simp: adds_def update_row_def row_refs_def)

lemma adds_steps: "adds P s (status st s)" "adds P s (job_event step st s)" "adds P s (finish env st reason s)"
  "P c \<Longrightarrow> adds P s (called env c s)"
proof -
  show "adds P s (status st s)" unfolding status_def by (rule update_row_refs) simp
  have job: "adds P s (s\<lparr> rr_job := j \<rparr>)" for j by (auto simp: adds_def row_refs_def)
  then show "adds P s (job_event step st s)" by (simp add: job_event_def)
  show "adds P s (finish env st reason s)" unfolding finish_def by (rule adds_trans [OF job update_row_refs]) simp
  show "P c \<Longrightarrow> adds P s (called env c s)" by (auto simp: adds_def called_def row_refs_def)
qed

text \<open>What follows the application of a plan, and how each step of it ends.\<close>

definition not_apply :: "call \<Rightarrow> bool" where
  "not_apply c \<longleftrightarrow> (\<forall>plan timer x. c \<noteq> Apply plan timer x)"

lemma not_apply_calls [simp]: "not_apply (Opened x)" "not_apply (Read_live y)" "not_apply (Confirm x)" "not_apply (Revert_now x)"
  "not_apply (Close x)" "not_apply (Sleep n)" "\<not> not_apply (Apply plan timer z)" "not_apply (Asked_revert u)" "not_apply (Snapshot v)"
  by (simp_all add: not_apply_def)

lemmas adds_plain = adds_steps [where P = not_apply]

lemma adds_calls: "adds not_apply s (snd (do_open env s))" "adds not_apply s (snd (do_read env s))"
  "adds not_apply s (snd (do_close env s))" "adds not_apply s (snd (do_revert env s))"
  by (simp_all add: do_open_def do_read_def do_close_def do_revert_def Let_def adds_plain)

lemma reconnect_adds: "adds not_apply s (snd (reconnect env n s))"
proof (induction n arbitrary: s)
  case (Suc n)
  obtain x t where x: "do_open env s = (x, t)" by fastforce
  have t: "adds not_apply s t" using adds_calls(1) [of s env] x by simp
  define u where "u = (if n = 0 then t else called env (Sleep RECONNECT_DELAY_SECONDS) t)"
  have "adds not_apply t u" by (simp add: u_def adds_refl adds_plain)
  then have "adds not_apply s (snd (reconnect env n u))" using t Suc adds_trans by blast
  then show ?case using x t by (cases x) (auto simp: u_def)
qed (simp add: adds_refl)

lemma poll_adds: "adds not_apply s (snd (poll env n s))"
proof (induction n arbitrary: s)
  case (Suc n)
  obtain x t where x: "do_open env s = (x, t)" by fastforce
  have t: "adds not_apply s t" using adds_calls(1) [of s env] x by simp
  have "adds not_apply s (snd (poll env n (called env (Sleep REVERT_POLL_SECONDS) t)))"
    using t Suc adds_trans adds_plain(4) [of "Sleep REVERT_POLL_SECONDS" t env] by simp
  then show ?case using x t by (cases x) auto
qed (simp add: adds_refl)

lemma wait_adds: "adds not_apply s (wait_for env since deadline s)"
proof (induction env since deadline s rule: wait_for.induct)
  case (1 env since deadline s)
  then show ?case using adds_plain(4) [of "Sleep REVERT_POLL_SECONDS" s env] adds_trans
    by (subst wait_for.simps) (auto simp: adds_refl)
qed

lemma revert_adds: "adds not_apply s t \<Longrightarrow> do_revert env t = (x, u) \<Longrightarrow> adds not_apply s u"
  using adds_calls(4) [of t env] adds_trans by fastforce

lemma read_adds: "adds not_apply s t \<Longrightarrow> do_read env t = (x, u) \<Longrightarrow> adds not_apply s u"
  using adds_calls(2) [of t env] adds_trans by fastforce

lemma finished_adds: "adds not_apply s t \<Longrightarrow> adds not_apply s (finish env st reason t)"
  "adds not_apply s t \<Longrightarrow> adds not_apply s (job_event step st t)" "adds not_apply s t \<Longrightarrow> adds not_apply s (status st t)"
  "adds not_apply s t \<Longrightarrow> not_apply c \<Longrightarrow> adds not_apply s (called env c t)"
  using adds_plain adds_trans by blast+

lemma rejected_adds: "adds not_apply s (snd (rejected env msg armed s))"
proof -
  obtain x t where t: "do_revert env (status ''reverting'' (job_event ''apply'' ''failed'' s)) = (x, t)" by fastforce
  have "adds not_apply s t" by (rule revert_adds [OF _ t]) (intro finished_adds adds_refl)
  then show ?thesis using t by (cases x) (auto simp: rejected_def Let_def adds_refl intro!: finished_adds)
qed

lemma await_adds: "adds not_apply s (snd (await_self_revert env family pre_text armed mins t0 s))"
proof -
  define t where "t = wait_for env t0 (mins * 60 + REVERT_GRACE_SECONDS) (job_event ''verify'' ''failed'' (status ''reverting'' s))"
  have t: "adds not_apply s t" unfolding t_def by (rule adds_trans [OF _ wait_adds]) (intro finished_adds adds_refl)
  obtain ok u where u: "poll env (RECONNECT_ATTEMPTS * 2) t = (ok, u)" by fastforce
  have "adds not_apply t u" using poll_adds [of t env "RECONNECT_ATTEMPTS * 2"] u by simp
  then have su: "adds not_apply s u" using t adds_trans by blast
  obtain x v where v: "do_read env u = (x, v)" by fastforce
  have "adds not_apply s v" using su v by (rule read_adds)
  then show ?thesis using su u v
    by (auto simp: await_self_revert_def Let_def t_def [symmetric] adds_refl split: bool.splits sum.splits prod.splits intro!: finished_adds)
qed

lemma keep_adds: "adds not_apply s (snd (keep env s))"
  by (auto simp: keep_def Let_def adds_refl split: option.splits intro!: finished_adds)

lemma verify_adds: "adds not_apply s (snd (verify_restore env family backup_text armed s))"
proof -
  obtain x t where t: "do_read env (job_event ''verify'' ''done'' s) = (x, t)" by fastforce
  have st: "adds not_apply s t" by (rule read_adds [OF _ t]) (intro finished_adds adds_refl)
  obtain y u where u: "do_revert env (status ''reverting'' (job_event ''verify'' ''failed'' t)) = (y, u)" by fastforce
  have su: "adds not_apply s u" by (rule revert_adds [OF _ u]) (intro finished_adds st)
  have "adds not_apply s (snd (keep env (job_event ''verify'' ''done'' t)))"
    by (rule adds_trans [OF _ keep_adds]) (intro finished_adds st)
  then show ?thesis using st su t u
    by (auto simp: verify_restore_def Let_def split: bool.splits sum.splits prod.splits option.splits intro!: finished_adds)
qed

lemma applied_adds: "adds not_apply s (snd (applied env family backup_text pre_text armed mins s))"
proof -
  define t0 where "t0 = status ''verifying'' (job_event ''apply'' ''done'' s)"
  obtain x t where t: "do_close env t0 = (x, t)" by fastforce
  have "adds not_apply s t0" unfolding t0_def by (intro finished_adds adds_refl)
  moreover have "adds not_apply t0 t" using adds_calls(3) [of t0 env] t by simp
  ultimately have st: "adds not_apply s t" using adds_trans by blast
  obtain ok u where u: "reconnect env RECONNECT_ATTEMPTS t = (ok, u)" by fastforce
  have su: "adds not_apply s u" using st reconnect_adds [of t env RECONNECT_ATTEMPTS] u adds_trans by fastforce
  then have "adds not_apply s (snd (await_self_revert env family pre_text armed mins t1 u))"
    "adds not_apply s (snd (verify_restore env family backup_text armed u))" for t1
    using await_adds verify_adds adds_trans by blast+
  then show ?thesis using st t u
    by (cases x; cases ok) (auto simp: applied_def Let_def t0_def)
qed

section \<open>How a job ends\<close>

definition ended_as :: "string \<Rightarrow> restore_run \<Rightarrow> bool" where
  "ended_as st s \<longleftrightarrow> (\<forall>r \<in> set (bt_restores (rr_tables s)). br_id r = rr_id s \<longrightarrow> br_status r = st \<and> br_finished r \<noteq> None)"

definition FINAL_STATUSES :: "string list" where
  "FINAL_STATUSES = [''succeeded'', ''reverted'', ''failed'']"

lemma ended_finish [simp]: "ended_as st (finish env st reason s)"
  by (auto simp: ended_as_def finish_def update_row_def)

lemma ended_called [simp]: "ended_as st (called env c s) \<longleftrightarrow> ended_as st s"
  by (simp add: ended_as_def called_def)

text \<open>The last configuration read from the device is that of the text, and nothing was changed since.\<close>

definition quiet :: "call \<Rightarrow> bool" where
  "quiet c \<longleftrightarrow> c = Confirm None \<or> (\<exists>x. c = Close x)"

definition verified :: "('net, 'ip) environment \<Rightarrow> string \<Rightarrow> string \<Rightarrow> call list \<Rightarrow> bool" where
  "verified env family t h \<longleftrightarrow> (\<exists>cs live rest n. h = cs @ Read_live (Inr live) # rest \<and> list_all quiet rest \<and>
     configs_match env family t live = Inr (True, n))"

lemma verified_more: "verified env family t h \<Longrightarrow> quiet c \<Longrightarrow> verified env family t (h @ [c])"
  unfolding verified_def by (metis append_Cons append_assoc list_all_append list.pred_inject(1,2))

lemma calls_kept [simp]: "rr_calls (status st s) = rr_calls s" "rr_calls (job_event step st s) = rr_calls s" "rr_calls (finish env st reason s) = rr_calls s"
  "rr_calls (called env c s) = rr_calls s @ [c]" "rr_calls (update_row g s) = rr_calls s"
  by (simp_all add: status_def update_row_def job_event_def finish_def called_def)

text \<open>A step that returns has finished the job, as succeeded only after a verification.\<close>

definition finishes :: "('net, 'ip) environment \<Rightarrow> string \<Rightarrow> string \<Rightarrow> run_end \<Rightarrow> bool" where
  "finishes env family t x \<longleftrightarrow> fst x = None \<longrightarrow>
     (\<exists>st \<in> set FINAL_STATUSES. ended_as st (snd x) \<and> (st = ''succeeded'' \<longrightarrow> verified env family t (rr_calls (snd x))))"

lemma finishes_raised [simp]: "finishes env family t (Some e, s)"
  by (simp add: finishes_def)

lemma finishes_final:
  "st \<in> {''failed'', ''reverted''} \<Longrightarrow> finishes env family t (None, finish env st reason s)"
  unfolding finishes_def by (rule impI, rule bexI [of _ st]) (auto simp: FINAL_STATUSES_def)

lemma finishes_succeeded: "verified env family t (rr_calls s) \<Longrightarrow> finishes env family t (None, finish env ''succeeded'' reason s)"
  unfolding finishes_def by (rule impI, rule bexI [of _ "''succeeded''"]) (auto simp: FINAL_STATUSES_def)

lemma read_calls: "do_read env s = (x, t) \<Longrightarrow> rr_calls t = rr_calls s @ [Read_live x]"
  by (auto simp: do_read_def Let_def)

lemma read_verified:
  "do_read env s = (Inr live, t) \<Longrightarrow> configs_match env family b live = Inr (True, n) \<Longrightarrow> verified env family b (rr_calls t)"
  unfolding verified_def using read_calls by fastforce

lemma keep_finishes: "verified env family t (rr_calls s) \<Longrightarrow> finishes env family t (keep env s)"
  by (auto simp: keep_def Let_def quiet_def split: option.splits intro!: finishes_succeeded verified_more)

lemma rejected_finishes: "finishes env family t (rejected env msg armed s)"
  by (auto simp: rejected_def Let_def finishes_final split: prod.splits option.splits)

lemma await_finishes: "finishes env family t (await_self_revert env family pre_text armed mins t0 s)"
  by (auto simp: await_self_revert_def Let_def finishes_final split: prod.splits bool.splits sum.splits)

lemma verify_finishes: "finishes env family t (verify_restore env family t armed s)"
proof -
  obtain x u where u: "do_read env (job_event ''verify'' ''done'' s) = (x, u)" by fastforce
  have "configs_match env family t live = Inr (True, n) \<Longrightarrow> x = Inr live \<Longrightarrow> finishes env family t (keep env (job_event ''verify'' ''done'' u))" for live n
    using read_verified u by (intro keep_finishes) fastforce
  then show ?thesis using u
    by (auto simp: verify_restore_def Let_def finishes_final split: prod.splits bool.splits sum.splits option.splits)
qed

lemma applied_finishes: "finishes env family t (applied env family t pre_text armed mins s)"
  by (auto simp: applied_def Let_def await_finishes verify_finishes split: prod.splits bool.splits option.splits)

lemma apply_changes_finishes: "finishes env family t (apply_changes env family t pre_text plan s)"
  by (auto simp: apply_changes_def Let_def rejected_finishes applied_finishes split: apply_outcome.splits)

lemma may_apply_finishes: "finishes env family t (may_apply env asset family t acknowledged allow plan s)"
  by (auto simp: may_apply_def undo_then_apply_def Let_def finishes_final apply_changes_finishes split: sum.splits)

text \<open>An empty plan: the device has the configuration already.\<close>

lemma untouched_bundle:
  assumes "bp_write (plan_bundle udiff t live f) = []" "bp_remove (plan_bundle udiff t live f) = []"
  shows "cd_sections (bp_diff (plan_bundle udiff t live f)) = []"
  using plan_bundle_parts(1,2) [where udiff = udiff and backup_text = t and live_text = live and f = f] assms unfolding bundle_matches_def [symmetric] plan_bundle_parts(3) by (metis empty_iff empty_set map_of.simps(1))

lemma empty_plan_matches:
  assumes "driver_plan env h family t live = Inr plan" "plan_is_empty plan"
  shows "\<exists>n. configs_match env family t live = Inr (True, n)"
  using assms untouched_bundle
  by (auto simp: driver_plan_defs configs_match_def plan_is_empty_def Let_def split: if_splits sum.splits prod.splits option.splits)

lemma reviewed_finishes: "finishes env family t (reviewed env asset family t expected acknowledged allow s)"
proof -
  obtain x u where u: "do_read env (job_event ''connect'' ''done'' s) = (x, u)" by fastforce
  have "driver_plan env h family t live = Inr plan \<Longrightarrow> plan_is_empty plan \<Longrightarrow> x = Inr live \<Longrightarrow>
      finishes env family t (None, finish env ''succeeded'' None (job_event ''verify'' ''done'' u))" for h live plan
    using empty_plan_matches read_verified u by (intro finishes_succeeded) fastforce
  then show ?thesis using u
    by (auto simp: reviewed_def Let_def finishes_final may_apply_finishes split: sum.splits)
qed

text \<open>The end of the run: exceptions become failures, the connection is closed.\<close>

lemma run_restore_end:
  assumes "job_row s = Some r"
  shows "\<exists>st \<in> set FINAL_STATUSES. ended_as st (run_restore env expected acknowledged allow s) \<and>
    (st = ''succeeded'' \<longrightarrow> (\<exists>t. backup_content (rr_tables s) r = Some t \<and>
       verified env (jc_family (rr_job s)) t (rr_calls (run_restore env expected acknowledged allow s))))"
proof (cases "backup_content (rr_tables s) r")
  case None
  then show ?thesis using assms by (auto simp: run_restore_def fail_with_def FINAL_STATUSES_def)
next
  case (Some t)
  define fam where "fam = jc_family (rr_job s)"
  define s1 where "s1 = status ''connecting'' (s\<lparr> rr_job := (rr_job s)\<lparr> jc_started := Some (e_now env (rr_calls s)) \<rparr> \<rparr>)"
  define x where "x = (case do_open env s1 of (Some e, s) \<Rightarrow> (Some e, s)
      | (None, s) \<Rightarrow> reviewed env (br_asset r) fam t expected acknowledged allow s)"
  have x: "finishes env fam t x" by (auto simp: x_def reviewed_finishes split: prod.splits option.splits)
  have run: "run_restore env expected acknowledged allow s =
      (if supported_family fam then snd (do_close env (fail_with env x)) else fail_with env (Some Family_error, s1))"
    using assms Some unfolding fam_def s1_def x_def run_restore_def by (simp add: Let_def)
  obtain e u where eu: "x = (e, u)" by fastforce
  show ?thesis
  proof (cases "supported_family fam \<and> e = None")
    case True
    then show ?thesis using x Some run eu
      by (auto simp: finishes_def fail_with_def do_close_def Let_def quiet_def fam_def [symmetric] intro!: verified_more)
  next
    case False
    then have "ended_as ''failed'' (run_restore env expected acknowledged allow s)"
      using run eu by (cases e) (auto simp: fail_with_def do_close_def Let_def)
    then show ?thesis by (auto simp: FINAL_STATUSES_def)
  qed
qed

section \<open>What is applied\<close>

lemma apply_changes_calls:
  fixes env family t pre plan s
  defines "s' \<equiv> snd (apply_changes env family t pre plan s)"
    and "timer \<equiv> if jc_armed (rr_job s) then Some (jc_minutes (rr_job s)) else None"
  shows "rr_id s' = rr_id s \<and> bt_backups (rr_tables s') = bt_backups (rr_tables s) \<and> row_refs s' = row_refs s \<and>
    (\<exists>x rest. rr_calls s' = rr_calls s @ Apply plan timer x # rest \<and> list_all not_apply rest)"
proof -
  define x where "x = e_apply env (rr_calls s) plan timer"
  define u where "u = called env (Apply plan timer x) (status ''applying'' s)"
  have job: "rr_job (status st s) = rr_job s" for st by (simp add: status_def update_row_def)
  have "adds not_apply u s'"
    using rejected_adds [of u env _ "jc_armed (rr_job s)"] applied_adds [of u env family t pre "jc_armed (rr_job s)" "jc_minutes (rr_job s)"]
    unfolding s'_def apply_changes_def Let_def job calls_kept timer_def [symmetric] x_def [symmetric] u_def [symmetric]
    by (auto simp: adds_refl split: apply_outcome.splits)
  moreover have "adds (\<lambda>_. True) s u"
    unfolding u_def using adds_steps(1) [of "\<lambda>_. True" s "''applying''"] adds_steps(4) [of "\<lambda>_. True"] adds_trans by blast
  moreover have "rr_calls u = rr_calls s @ [Apply plan timer x]" by (simp add: u_def)
  ultimately show ?thesis by (auto simp: adds_def)
qed

text \<open>The undo point is stored and referred to by the job.\<close>

definition undo_saved :: "string \<Rightarrow> restore_run \<Rightarrow> bool" where
  "undo_saved pre s \<longleftrightarrow> (\<exists>b \<in> set (bt_backups (rr_tables s)). db_config b = pre \<and> db_id b \<in> set (used_backups (rr_tables s)))"

lemma used_by_job: "(i, Some j) \<in> set (row_refs s) \<Longrightarrow> j \<in> set (used_backups (rr_tables s))"
  by (force simp: row_refs_def used_backups_def)

lemma note_change_config: "db_config (note_change compare T b p) = db_config b"
  by (auto simp: note_change_def Let_def split: option.splits prod.splits)

lemma save_undo_saves:
  fixes env asset family pre s
  defines "u \<equiv> save_undo_point env asset family pre s"
  assumes "rr_id s \<in> br_id ` set (bt_restores (rr_tables s))"
  shows "\<exists>b \<in> set (bt_backups (rr_tables u)). db_config b = pre \<and> (rr_id u, Some (db_id b)) \<in> set (row_refs u)"
    and "rr_calls u = rr_calls s" "rr_job u = (rr_job s)\<lparr> jc_events := jc_events (rr_job s) @ [(''backup'', ''done'')] \<rparr>"
proof -
  obtain r where r: "r \<in> set (bt_restores (rr_tables s))" "br_id r = rr_id s" using assms(2) by auto
  define T where "T = save_backup (e_compare env) (fresh_backup asset family pre None (e_now env (rr_calls s))) (rr_tables s)"
  have T: "\<exists>b \<in> set (bt_backups T). db_config b = pre \<and> db_id b = bt_next (rr_tables s)" "bt_restores T = bt_restores (rr_tables s)"
    by (simp_all add: T_def save_backup_def add_backup_def note_change_config fresh_backup_def)
  have u: "u = job_event ''backup'' ''done'' (update_row (\<lambda>r. r\<lparr> br_pre_restore := Some (bt_next (rr_tables s)) \<rparr>) (s\<lparr> rr_tables := T \<rparr>))"
    by (simp add: u_def save_undo_point_def T_def Let_def)
  have "(rr_id u, Some (bt_next (rr_tables s))) \<in> set (row_refs u)"
    using r T(2) by (force simp: u row_refs_def job_event_def update_row_def)
  moreover have "bt_backups (rr_tables u) = bt_backups T" by (simp add: u job_event_def update_row_def)
  ultimately show "\<exists>b \<in> set (bt_backups (rr_tables u)). db_config b = pre \<and> (rr_id u, Some (db_id b)) \<in> set (row_refs u)"
    using T(1) by auto
  show "rr_calls u = rr_calls s" "rr_job u = (rr_job s)\<lparr> jc_events := jc_events (rr_job s) @ [(''backup'', ''done'')] \<rparr>"
    by (simp_all add: u job_event_def update_row_def)
qed

definition has_row :: "restore_run \<Rightarrow> bool" where
  "has_row s \<longleftrightarrow> rr_id s \<in> fst ` set (row_refs s)"

lemma has_row_adds: "adds P s t \<Longrightarrow> has_row t = has_row s"
  by (simp add: adds_def has_row_def)

lemma has_row_steps [simp]: "has_row (status st s) = has_row s" "has_row (job_event step st s) = has_row s" "has_row (called env c s) = has_row s"
  by (rule has_row_adds [OF adds_steps(1) [where P = "\<lambda>_. True"]] has_row_adds [OF adds_steps(2) [where P = "\<lambda>_. True"]]
      has_row_adds [OF adds_steps(4) [where P = "\<lambda>_. True"]], simp?)+

lemma has_row_job [simp]: "has_row (s\<lparr> rr_job := j \<rparr>) = has_row s"
  by (simp add: has_row_def row_refs_def)

lemma job_kept [simp]: "rr_job (status st s) = rr_job s" "rr_job (called env c s) = rr_job s"
  by (simp_all add: status_def update_row_def called_def)

lemma undo_calls:
  assumes "has_row s" "list_all not_apply (rr_calls s)" "Apply plan' timer x \<in> set (rr_calls s')"
    and s': "s' = snd (undo_then_apply env asset family t plan s)"
  shows "\<exists>pre rest. plan' = plan \<and> timer = (if jc_armed (rr_job s) then Some (jc_minutes (rr_job s)) else None) \<and>
    rr_calls s' = rr_calls s @ Snapshot (Inr pre) # Apply plan timer x # rest \<and> list_all not_apply rest \<and> undo_saved pre s'"
proof -
  define y where "y = e_snapshot env (rr_calls s)"
  define u where "u = called env (Snapshot y) (status ''backing_up'' s)"
  have u: "rr_calls u = rr_calls s @ [Snapshot y]" "has_row u" "rr_job u = rr_job s" using assms(1) by (simp_all add: u_def)
  show ?thesis
  proof (cases y)
    case (Inl e)
    then have "rr_calls s' = rr_calls u" using s' by (simp add: undo_then_apply_def Let_def y_def [symmetric] u_def)
    then show ?thesis using assms(2,3) u(1) by (auto simp: list_all_iff)
  next
    case (Inr pre)
    define v where "v = save_undo_point env asset family pre u"
    have v: "\<exists>b \<in> set (bt_backups (rr_tables v)). db_config b = pre \<and> (rr_id v, Some (db_id b)) \<in> set (row_refs v)"
      "rr_calls v = rr_calls u" "jc_armed (rr_job v) = jc_armed (rr_job s)" "jc_minutes (rr_job v) = jc_minutes (rr_job s)"
      using save_undo_saves [of u env asset family pre] u unfolding v_def has_row_def row_refs_def by force+
    have s'_v: "s' = snd (apply_changes env family t pre plan v)"
      using Inr s' by (simp add: undo_then_apply_def Let_def y_def [symmetric] u_def v_def)
    define tm where "tm = (if jc_armed (rr_job s) then Some (jc_minutes (rr_job s)) else None)"
    obtain x' rest where calls: "rr_calls s' = rr_calls s @ Snapshot (Inr pre) # Apply plan tm x' # rest" "list_all not_apply rest"
      and same: "bt_backups (rr_tables s') = bt_backups (rr_tables v)" "row_refs s' = row_refs v"
      using apply_changes_calls [of env family t pre plan v] v u(1) Inr unfolding s'_v tm_def by auto
    have "Apply plan' timer x = Apply plan tm x'" using assms(2,3) calls by (auto simp: list_all_iff)
    moreover have "undo_saved pre s'" unfolding undo_saved_def same(1) using v(1) used_by_job same(2) by metis
    ultimately show ?thesis using calls by (auto simp: tm_def)
  qed
qed

lemma may_apply_calls:
  assumes "has_row s" "list_all not_apply (rr_calls s)" "Apply plan' timer x \<in> set (rr_calls s')"
    and s': "s' = snd (may_apply env asset family t acknowledged allow plan s)"
  shows "\<exists>available pre rest. plan' = plan \<and> timer = (if available then Some (jc_minutes (rr_job s)) else None) \<and>
    rr_calls s' = rr_calls s @ Asked_revert (Inr available) # Snapshot (Inr pre) # Apply plan timer x # rest \<and> list_all not_apply rest \<and>
    undo_saved pre s' \<and> (list_ex is_lockout (rp_risks plan) \<longrightarrow> acknowledged) \<and> (available \<or> allow)"
proof -
  define d where "d = rp_diff plan"
  define s1 where "s1 = s\<lparr> rr_job := (rr_job s)\<lparr> jc_summary := Some (count_op Added d, count_op Removed d, length (cd_sections d), rp_risks plan) \<rparr> \<rparr>"
  define y where "y = e_revert_available env (rr_calls s1)"
  define s2 where "s2 = called env (Asked_revert y) s1"
  have none: "Apply plan' timer x \<notin> set (rr_calls s)" "Apply plan' timer x \<notin> set (rr_calls s2)" "rr_calls s1 = rr_calls s"
    using assms(2) by (auto simp: list_all_iff s2_def s1_def)
  note unfold = s' may_apply_def Let_def d_def [symmetric] s1_def [symmetric] y_def [symmetric] s2_def [symmetric]
  have ack: "list_ex is_lockout (rp_risks plan) \<longrightarrow> acknowledged"
    using assms(3) none unfolding unfold by (auto split: if_splits)
  obtain available where y: "y = Inr available"
    using assms(3) none ack unfolding unfold by (cases y) (auto split: if_splits)
  define s3 where "s3 = s2\<lparr> rr_job := (rr_job s2)\<lparr> jc_armed := available \<rparr> \<rparr>"
  have "available \<or> allow" using assms(3) none ack y unfolding unfold by (auto split: if_splits)
  then have s'_s3: "s' = snd (undo_then_apply env asset family t plan s3)" using ack y unfolding unfold s3_def by auto
  have s3: "has_row s3" "list_all not_apply (rr_calls s3)" "rr_calls s3 = rr_calls s @ [Asked_revert y]"
    "jc_armed (rr_job s3) = available" "jc_minutes (rr_job s3) = jc_minutes (rr_job s)"
    using assms(1,2) by (simp_all add: s3_def s2_def s1_def)
  from undo_calls [OF s3(1,2) assms(3) s'_s3] obtain pre rest where
    "plan' = plan" "timer = (if jc_armed (rr_job s3) then Some (jc_minutes (rr_job s3)) else None)"
    "rr_calls s' = rr_calls s3 @ Snapshot (Inr pre) # Apply plan timer x # rest" "list_all not_apply rest" "undo_saved pre s'" by blast
  then show ?thesis using ack s3 \<open>available \<or> allow\<close> y by (intro exI [of _ available] exI [of _ pre] exI [of _ rest]) simp
qed

lemma reviewed_calls:
  assumes "has_row s" "list_all not_apply (rr_calls s)" "Apply plan timer x \<in> set (rr_calls s')"
    and s': "s' = snd (reviewed env asset family t expected acknowledged allow s)"
  shows "\<exists>live available pre rest. rr_calls s' = rr_calls s @
      Read_live (Inr live) # Asked_revert (Inr available) # Snapshot (Inr pre) # Apply plan timer x # rest \<and> list_all not_apply rest \<and>
    fingerprint env family live = Inr expected \<and> driver_plan env (rr_calls s @ [Read_live (Inr live)]) family t live = Inr plan \<and>
    \<not> plan_is_empty plan \<and> (list_ex is_lockout (rp_risks plan) \<longrightarrow> acknowledged) \<and> (available \<or> allow) \<and>
    timer = (if available then Some (jc_minutes (rr_job s)) else None) \<and> undo_saved pre s'"
proof -
  obtain y u where u: "do_read env (job_event ''connect'' ''done'' s) = (y, u)" by fastforce
  have calls: "rr_calls u = rr_calls s @ [Read_live y]" using read_calls [OF u] by simp
  have keep: "has_row u" "jc_minutes (rr_job u) = jc_minutes (rr_job s)" using u assms(1) by (auto simp: do_read_def Let_def job_event_def)
  have none: "Apply plan timer x \<notin> set (rr_calls u)" "list_all not_apply (rr_calls u)" using assms(2) calls by (auto simp: list_all_iff)
  obtain live where y: "y = Inr live" using assms(3) none unfolding s' reviewed_def u by (cases y) auto
  have fp: "fingerprint env family live = Inr expected"
    using assms(3) none unfolding s' reviewed_def u y by (auto split: if_splits sum.splits)
  obtain plan' where plan': "driver_plan env (rr_calls u) family t live = Inr plan'"
    using assms(3) none fp unfolding s' reviewed_def u y by (auto split: sum.splits)
  have "\<not> plan_is_empty plan'" using assms(3) none fp plan' unfolding s' reviewed_def u y by (auto split: if_splits)
  then have "s' = snd (may_apply env asset family t acknowledged allow plan' u)" using fp plan' unfolding s' reviewed_def u y by simp
  from may_apply_calls [OF keep(1) none(2) assms(3) this] obtain available pre rest where
    "plan = plan'" "timer = (if available then Some (jc_minutes (rr_job u)) else None)"
    "rr_calls s' = rr_calls u @ Asked_revert (Inr available) # Snapshot (Inr pre) # Apply plan' timer x # rest" "list_all not_apply rest"
    "undo_saved pre s'" "list_ex is_lockout (rp_risks plan') \<longrightarrow> acknowledged" "available \<or> allow" by blast
  then show ?thesis using fp plan' \<open>\<not> plan_is_empty plan'\<close> calls keep(2) y
    by (intro exI [of _ live] exI [of _ available] exI [of _ pre] exI [of _ rest]) simp
qed

lemma job_row_has:
  assumes "job_row s = Some r"
  shows "has_row s"
proof -
  have "r \<in> set (bt_restores (rr_tables s))" "br_id r = rr_id s" using assms by (auto simp: job_row_def find_Some_iff)
  then show ?thesis by (force simp: has_row_def row_refs_def)
qed

lemma used_refs: "set (used_backups (rr_tables s)) = set (used_backups (rr_tables s')) \<Longrightarrow> bt_backups (rr_tables s') = bt_backups (rr_tables s) \<Longrightarrow>
    undo_saved pre s \<Longrightarrow> undo_saved pre s'"
  by (simp add: undo_saved_def)

lemma end_keeps_undo: "undo_saved pre (snd z) \<Longrightarrow> undo_saved pre (snd (do_close env (fail_with env z)))"
proof (rule used_refs)
  have rows: "map (\<lambda>r. (br_backup r, br_pre_restore r)) (bt_restores (rr_tables (finish env st reason u))) =
      map (\<lambda>r. (br_backup r, br_pre_restore r)) (bt_restores (rr_tables u))" for st reason u
    by (simp add: finish_def update_row_def)
  have used: "used_backups T = concat (map (\<lambda>(i, j). (case i of None \<Rightarrow> [] | Some i \<Rightarrow> [i]) @ (case j of None \<Rightarrow> [] | Some i \<Rightarrow> [i]))
      (map (\<lambda>r. (br_backup r, br_pre_restore r)) (bt_restores T)))" for T
    by (simp add: used_backups_def comp_def)
  show "set (used_backups (rr_tables (snd z))) = set (used_backups (rr_tables (snd (do_close env (fail_with env z)))))"
    by (cases z; cases "fst z") (simp_all add: used rows do_close_def Let_def called_def fail_with_def job_event_def)
  show "bt_backups (rr_tables (snd (do_close env (fail_with env z)))) = bt_backups (rr_tables (snd z))"
    by (cases z; cases "fst z") (simp_all add: do_close_def Let_def called_def fail_with_def job_event_def finish_def update_row_def)
qed

text \<open>
  C22. Nothing is written to a device but what was reviewed. When a restore job applies a plan,
  it does so once, and before that it has connected, read the live configuration and found it to
  have the fingerprint of the review; the plan is the one computed from that configuration and the
  backup, and not empty; a lockout it may cause was acknowledged; the device can revert on its own, and is told
  to, or doing without was allowed; and the configuration before the change is stored as a
  backup that the job refers to, so that retention keeps it.
\<close>

theorem restore_applies_what_was_reviewed:
  assumes "s' = run_restore env expected acknowledged allow s" "rr_calls s = []" "Apply plan timer x \<in> set (rr_calls s')"
  shows "\<exists>r backup_text live available pre rest.
    job_row s = Some r \<and> backup_content (rr_tables s) r = Some backup_text \<and>
    rr_calls s' = [Opened None, Read_live (Inr live), Asked_revert (Inr available), Snapshot (Inr pre), Apply plan timer x] @ rest \<and>
    list_all not_apply rest \<and> fingerprint env (jc_family (rr_job s)) live = Inr expected \<and>
    driver_plan env [Opened None, Read_live (Inr live)] (jc_family (rr_job s)) backup_text live = Inr plan \<and> \<not> plan_is_empty plan \<and>
    (list_ex is_lockout (rp_risks plan) \<longrightarrow> acknowledged) \<and> (available \<or> allow) \<and>
    timer = (if available then Some (jc_minutes (rr_job s)) else None) \<and> undo_saved pre s'"
proof -
  obtain r where r: "job_row s = Some r" using assms by (cases "job_row s") (auto simp: run_restore_def)
  obtain t where t: "backup_content (rr_tables s) r = Some t"
    using assms r by (cases "backup_content (rr_tables s) r") (auto simp: run_restore_def fail_with_def)
  define s1 where "s1 = status ''connecting'' (s\<lparr> rr_job := (rr_job s)\<lparr> jc_started := Some (e_now env (rr_calls s)) \<rparr> \<rparr>)"
  define fam where "fam = jc_family (rr_job s)"
  define z where "z = (case do_open env s1 of (Some e, s) \<Rightarrow> (Some e, s)
      | (None, s) \<Rightarrow> reviewed env (br_asset r) fam t expected acknowledged allow s)"
  obtain y u where u: "do_open env s1 = (y, u)" by fastforce
  have s1: "rr_calls s1 = []" "has_row s1" "jc_minutes (rr_job s1) = jc_minutes (rr_job s)"
    using assms(2) job_row_has [OF r] by (auto simp: s1_def)
  have run: "s' = (if supported_family fam then snd (do_close env (fail_with env z)) else fail_with env (Some Family_error, s1))"
    using assms(1) r t unfolding fam_def s1_def z_def run_restore_def by (simp add: Let_def)
  have supported: "supported_family fam" using assms(3) s1(1) run by (auto simp: fail_with_def split: if_splits)
  obtain c where calls: "rr_calls s' = rr_calls (snd z) @ [Close c]"
    using run supported by (cases z; cases "fst z") (auto simp: do_close_def Let_def fail_with_def)
  have in_z: "Apply plan timer x \<in> set (rr_calls (snd z))" using assms(3) calls by simp
  have uc: "rr_calls u = [Opened y]" "has_row u" "jc_minutes (rr_job u) = jc_minutes (rr_job s)"
    using u s1 by (auto simp: do_open_def Let_def)
  have y: "y = None" using in_z u uc(1) by (cases y) (auto simp: z_def)
  have "snd z = snd (reviewed env (br_asset r) fam t expected acknowledged allow u)" using u y by (simp add: z_def)
  from reviewed_calls [OF uc(2) _ in_z this] uc(1,3) y obtain live available pre rest where
    z: "rr_calls (snd z) = [Opened None, Read_live (Inr live), Asked_revert (Inr available), Snapshot (Inr pre), Apply plan timer x] @ rest"
      "list_all not_apply rest" "undo_saved pre (snd z)"
    and facts: "fingerprint env fam live = Inr expected" "driver_plan env [Opened None, Read_live (Inr live)] fam t live = Inr plan"
      "\<not> plan_is_empty plan" "list_ex is_lockout (rp_risks plan) \<longrightarrow> acknowledged" "available \<or> allow"
      "timer = (if available then Some (jc_minutes (rr_job s)) else None)" by auto
  have "undo_saved pre s'" using z(3) run supported end_keeps_undo by simp
  then show ?thesis using r t z calls facts unfolding fam_def by auto
qed

section \<open>Every job ends\<close>

definition same_ids :: "restore_run \<Rightarrow> restore_run \<Rightarrow> bool" where
  "same_ids s s' \<longleftrightarrow> rr_id s' = rr_id s \<and> map fst (row_refs s') = map fst (row_refs s)"

lemma same_ids_trans: "same_ids s t \<Longrightarrow> same_ids t u \<Longrightarrow> same_ids s u"
  by (simp add: same_ids_def)

lemma adds_same_ids: "adds P s t \<Longrightarrow> same_ids s t"
  by (simp add: adds_def same_ids_def)

lemma same_ids_job: "same_ids s (s\<lparr> rr_job := j \<rparr>)"
  by (simp add: same_ids_def row_refs_def)

lemmas same_ids_steps = adds_steps [where P = "\<lambda>_. True", THEN adds_same_ids]

lemma undo_point_ids: "same_ids s (save_undo_point env asset family pre s)"
  by (simp add: same_ids_def save_undo_point_def Let_def row_refs_def job_event_def update_row_def save_backup_def add_backup_def)

lemma apply_changes_ids: "same_ids s (snd (apply_changes env family t pre plan s))"
  using apply_changes_calls [of env family t pre plan s] by (simp add: same_ids_def)

lemma same_ids_more:
  "same_ids s s" "same_ids s t \<Longrightarrow> same_ids s (status st t)" "same_ids s t \<Longrightarrow> same_ids s (job_event step st t)"
  "same_ids s t \<Longrightarrow> same_ids s (finish env st reason t)" "same_ids s t \<Longrightarrow> same_ids s (called env c t)"
  "same_ids s t \<Longrightarrow> same_ids s (t\<lparr> rr_job := j \<rparr>)" "same_ids s t \<Longrightarrow> same_ids s (save_undo_point env asset family pre t)"
  "same_ids s t \<Longrightarrow> same_ids s (snd (apply_changes env family b pre plan t))"
  by (simp add: same_ids_def) (erule same_ids_trans, rule same_ids_steps(1,2,3) same_ids_steps(4) [OF TrueI] same_ids_job undo_point_ids apply_changes_ids)+

lemma undo_then_apply_ids: "same_ids s t \<Longrightarrow> same_ids s (snd (undo_then_apply env asset family b plan t))"
  by (auto simp: undo_then_apply_def Let_def split: sum.splits intro!: same_ids_more)

lemma may_apply_ids: "same_ids s t \<Longrightarrow> same_ids s (snd (may_apply env asset family b acknowledged allow plan t))"
  by (auto simp: may_apply_def Let_def split: sum.splits intro!: undo_then_apply_ids same_ids_more)

lemma reviewed_ids: "same_ids s t \<Longrightarrow> same_ids s (snd (reviewed env asset family b expected acknowledged allow t))"
  by (auto simp: reviewed_def do_read_def Let_def split: sum.splits intro!: may_apply_ids same_ids_more)

lemma fail_with_ids: "same_ids s (snd z) \<Longrightarrow> same_ids s (fail_with env z)"
  by (cases z; cases "fst z") (auto simp: fail_with_def intro!: same_ids_more)

lemma run_restore_ids: "same_ids s (run_restore env expected acknowledged allow s)"
  by (auto simp: run_restore_def do_open_def do_close_def Let_def split: option.splits intro!: fail_with_ids reviewed_ids same_ids_more)

lemma has_row_job_row: "has_row s \<Longrightarrow> \<exists>r. job_row s = Some r \<and> r \<in> set (bt_restores (rr_tables s)) \<and> br_id r = rr_id s"
  by (cases "job_row s") (force simp: has_row_def row_refs_def job_row_def find_None_iff find_Some_iff dest: nth_mem)+

lemma run_has_row: "job_row s = Some r \<Longrightarrow> \<exists>r'. job_row (run_restore env expected acknowledged allow s) = Some r' \<and>
    r' \<in> set (bt_restores (rr_tables (run_restore env expected acknowledged allow s))) \<and> br_id r' = rr_id (run_restore env expected acknowledged allow s)"
  using job_row_has [of s r] run_restore_ids [of s env expected acknowledged allow]
  by (intro has_row_job_row) (simp add: same_ids_def has_row_def flip: set_map)


text \<open>
  C23. A restore that is reported as succeeded was verified: the last configuration that the job read from
  the device is that of the backup (the comparison shows no difference), and after that reading
  nothing was sent to the device but the confirmation that keeps the changes, which the
  device accepted, and the end of the connection.
\<close>

theorem succeeded_restore_is_verified:
  assumes "job_row s = Some r" "job_row (run_restore env expected acknowledged allow s) = Some r'" "br_status r' = ''succeeded''"
  shows "\<exists>backup_text. backup_content (rr_tables s) r = Some backup_text \<and>
    verified env (jc_family (rr_job s)) backup_text (rr_calls (run_restore env expected acknowledged allow s))"
proof -
  obtain st where st: "ended_as st (run_restore env expected acknowledged allow s)" "st = ''succeeded'' \<longrightarrow> ?thesis"
    using run_restore_end [OF assms(1), of env expected acknowledged allow] by blast
  moreover have "br_status r' = st" using run_has_row [OF assms(1), of env expected acknowledged allow] st(1) assms(2) by (auto simp: ended_as_def)
  ultimately show ?thesis using assms(3) by simp
qed

section \<open>A run\<close>

definition w_live :: string where
  "w_live = bundle_text [(''/etc/mongod.conf'', ''b'')]"

definition w_creds :: credentials where
  "w_creds = \<lparr> cr_host = ''h'', cr_username = ''u'', cr_port = 22 \<rparr>"

definition w_ips :: "(unit, unit) ip_library" where
  "w_ips = \<lparr> parse_network = (\<lambda>_. None), prefixlen = (\<lambda>_. 0), parse_address = (\<lambda>_. None), contains_ip = (\<lambda>_ _. False) \<rparr>"

text \<open>A device that takes the files of the plan and answers the new ones from then on.\<close>

definition w_env :: "(unit, unit) environment" where
  "w_env = \<lparr> e_open = (\<lambda>_. None), e_read = (\<lambda>h. Inr (if length h < 4 then w_live else w_backup)), e_source_ip = (\<lambda>_. None),
     e_revert_available = (\<lambda>_. Inr True), e_snapshot = (\<lambda>_. Inr w_live), e_apply = (\<lambda>_ _ _. Applied), e_confirm = (\<lambda>_. None),
     e_revert = (\<lambda>_. None), e_close = (\<lambda>_. None), e_time = (\<lambda>_. 1), e_now = (\<lambda>h. int (length h)), e_udiff = (\<lambda>_ _. []), e_ips = w_ips,
     e_digest = (\<lambda>t. t), e_json = (\<lambda>fs. concat (map snd fs)), e_compare = (\<lambda>_ _ _. (1, 1)), e_creds = w_creds \<rparr>"

definition w_row :: backup_restore where
  "w_row = \<lparr> br_id = 1, br_asset = 5, br_backup = Some 3, br_pre_restore = None, br_status = ''queued'', br_finished = None, br_created = 0 \<rparr>"

definition w_run :: restore_run where
  "w_run = \<lparr> rr_id = 1,
     rr_tables = \<lparr> bt_backups = [(fresh_backup 5 ''mongodb'' w_backup None 0)\<lparr> db_id := 3 \<rparr>], bt_actions = [], bt_restores = [w_row], bt_days = None, bt_next = 4 \<rparr>,
     rr_job = \<lparr> jc_family = ''mongodb'', jc_minutes = 10, jc_armed = False, jc_summary = None, jc_events = [], jc_reason = None, jc_started = None \<rparr>,
     rr_calls = [], rr_clock = 0 \<rparr>"

definition w_plan :: restore_plan where
  "w_plan = (case driver_plan w_env [] ''mongodb'' w_backup w_live of Inr p \<Rightarrow> p)"

theorem restore_applies_what_was_reviewed_witness:
  "\<exists>pre. undo_saved pre (run_restore w_env ''b'' False False w_run)"
proof -
  have "rr_calls (run_restore w_env ''b'' False False w_run) ! 4 = Apply w_plan (Some 10) Applied"
    "4 < length (rr_calls (run_restore w_env ''b'' False False w_run))" by code_simp+
  then have "Apply w_plan (Some 10) Applied \<in> set (rr_calls (run_restore w_env ''b'' False False w_run))" by (metis nth_mem)
  moreover have "rr_calls w_run = []" by (simp add: w_run_def)
  ultimately show ?thesis using restore_applies_what_was_reviewed [OF refl] by blast
qed


theorem succeeded_restore_is_verified_witness:
  "\<exists>backup_text. verified w_env ''mongodb'' backup_text (rr_calls (run_restore w_env ''b'' False False w_run))"
proof -
  have "job_row w_run = Some w_row" by code_simp
  moreover have "map_option br_status (job_row (run_restore w_env ''b'' False False w_run)) = Some ''succeeded''" by code_simp
  moreover have "jc_family (rr_job w_run) = ''mongodb''" by (simp add: w_run_def)
  ultimately show ?thesis using succeeded_restore_is_verified [of w_run w_row w_env "''b''" False False] by auto
qed

section \<open>What a status does not say\<close>

text \<open>
  A job whose plan the device rejected ends as reverted also when the device refused to revert:
  the status says that the device has its previous configuration, which at that time it has not.
\<close>

theorem reverted_although_revert_failed:
  "e_revert env (rr_calls s) = Some e \<Longrightarrow> ended_as ''reverted'' (snd (rejected env msg True s))"
  by (simp add: rejected_def do_revert_def Let_def)

text \<open>An exception while a plan is applied ends the job without any attempt to revert.\<close>

theorem raised_apply_is_not_reverted:
  assumes "e_apply env (rr_calls s) plan (if jc_armed (rr_job s) then Some (jc_minutes (rr_job s)) else None) = Apply_raised e"
  shows "\<exists>x. rr_calls (snd (do_close env (fail_with env (apply_changes env family t pre plan s)))) =
    rr_calls s @ [Apply plan (if jc_armed (rr_job s) then Some (jc_minutes (rr_job s)) else None) (Apply_raised e), Close x]"
  using assms by (cases "jc_armed (rr_job s)") (simp_all add: apply_changes_def Let_def fail_with_def do_close_def)

end
