(* ===== verification/Spec2Isabelle.thy ===== *)
theory Spec2Isabelle
  imports Rpm_Versions License_System Asset_Entitlement Device_Templates Benchmark_Templates
    Benchmark_Rules Access_Rules User_Admin Cve_Versions Scheduling Remediation Advisory_Match
    Device_Trust Directory Alerts Backup_Container Device_Backups Group_Runs Forti_Text Restore_Job
begin

text \<open>
  NGCorion audits and hardens the servers, network devices and databases of an
  organisation. A FastAPI application (\<^verbatim>\<open>src/app\<close>) keeps an inventory of assets, collects
  their configuration over SSH, WinRM and APIs, evaluates benchmark rules on it, and runs
  remediation commands; it is licensed by a license server that signs its answers, and
  used by people and by other systems through a REST API. This library models the parts
  whose correctness does not depend on a remote device: what the license allows, who may
  call and who may change whose rights, what reaches a device's command line, when scheduled
  work runs, how findings are tracked until they are fixed or accepted, which package
  versions are vulnerable and how findings are counted, which devices are trusted, what the
  directory gives, and who is told of a problem.

  \<^bold>\<open>How a request travels.\<close> The license middleware asks the license state of its worker
  process whether the license is in force (\<^verbatim>\<open>License_System\<close>); the dependencies find the user
  of the access token or API key and apply the gates (\<^verbatim>\<open>Sign_In\<close>); the routes check role,
  permission and ownership, the rate limits (\<^verbatim>\<open>Rate_Limits\<close>) and the asset limit
  (\<^verbatim>\<open>Asset_Entitlement\<close>); a hardening route validates parameter values and renders commands
  (\<^verbatim>\<open>Param_Security\<close>, \<^verbatim>\<open>Device_Templates\<close>, \<^verbatim>\<open>Benchmark_Templates\<close>); an audit evaluates rules
  (\<^verbatim>\<open>Benchmark_Rules\<close>). Every connection to a device first compares its key or certificate with
  the pinned one (\<^verbatim>\<open>Device_Trust\<close>). Users of a company directory sign in with what their groups
  give, and are checked again periodically (\<^verbatim>\<open>Directory\<close>). Other users are administered by \<^verbatim>\<open>User_Admin\<close>. The advisories of the
  distributions are matched to the packages of an asset (\<^verbatim>\<open>Advisory_Match\<close>) on the orders of
  \<^verbatim>\<open>Deb_Versions\<close> and \<^verbatim>\<open>Rpm_Versions\<close>, a CVE's ranges on that of \<^verbatim>\<open>Cve_Versions\<close>. Scans and
  audits are started by the sweep of \<^verbatim>\<open>Scheduling\<close>; what they report becomes items that
  people work on (\<^verbatim>\<open>Remediation\<close>), and what goes wrong becomes alerts and messages (\<^verbatim>\<open>Alerts\<close>).

  \<^bold>\<open>Theories and code.\<close>

  \<^item> \<^verbatim>\<open>Prelude\<close>: Python's strings, integers, JSON values and exceptions as results; times in
    microseconds; the interfaces \<open>comparator\<close>, \<open>lex_keyed\<close> and \<open>invariant\<close>.

  \<^item> \<^verbatim>\<open>Deb_Versions\<close>, \<^verbatim>\<open>Rpm_Versions\<close>: \<^verbatim>\<open>modules/advisories/versions.py\<close>, each loop as a
    recursive function with its termination proof. Both orders are derived from a key
    (\<open>lex_keyed\<close>), which gives antisymmetry and transitivity.

  \<^item> \<^verbatim>\<open>License_Token\<close>, \<^verbatim>\<open>License_Client\<close>, \<^verbatim>\<open>License_State\<close>, \<^verbatim>\<open>License_System\<close>:
    \<^verbatim>\<open>core/license_token.py\<close>, \<^verbatim>\<open>license_client.py\<close>, \<^verbatim>\<open>license_state.py\<close> and
    \<^verbatim>\<open>middleware/license_middleware.py\<close>. A worker's module variables are the record \<open>proc\<close>, the
    files the workers share the record \<open>store\<close>; \<open>sys_step\<close> interleaves the operations of any
    number of workers with arbitrary changes of the files. The locale \<open>license_source\<close> is
    what the state relies on of the client: the answers it reports were signed.

  \<^item> \<^verbatim>\<open>Asset_Entitlement\<close>: \<^verbatim>\<open>core/asset_entitlement.py\<close>, the table as the list of asset ids.

  \<^item> \<^verbatim>\<open>Param_Security\<close>: \<^verbatim>\<open>core/hardening_param_security.py\<close>, with the fragments of the shell,
    PowerShell and T-SQL grammars its promises are about. \<^verbatim>\<open>Device_Templates\<close>: validation and
    substitution in the linux, apache, mongodb, cisco and fortinet modules; locale
    \<open>neutral\<close>: where the inserted values avoid a character, substitution keeps its count.

  \<^item> \<^verbatim>\<open>Benchmark_Templates\<close>, \<^verbatim>\<open>Benchmark_Rules\<close>: \<^verbatim>\<open>modules/benchmark\<close>. A device is an arbitrary
    state with an execute function.

  \<^item> \<^verbatim>\<open>Rate_Limits\<close>: \<^verbatim>\<open>core/auth_rate_limiter.py\<close>, \<^verbatim>\<open>rate_limiter.py\<close>, \<^verbatim>\<open>audit_rate_limiter.py\<close>;
    locale \<open>window_gate\<close>: a gate that counts the rows of a window bounds every window.

  \<^item> \<^verbatim>\<open>Two_Step\<close>: \<^verbatim>\<open>core/totp.py\<close>, \<^verbatim>\<open>core/mfa.py\<close>, \<^verbatim>\<open>modules/auth/mfa_router.py\<close>; bytes and the
    truncation of a MAC at their width. \<open>mfa_step\<close> is every request on one account.

  \<^item> \<^verbatim>\<open>Sign_In\<close>, \<^verbatim>\<open>Access_Rules\<close>: \<^verbatim>\<open>core/sessions.py\<close>, \<^verbatim>\<open>api_keys.py\<close>, \<^verbatim>\<open>storage_guard.py\<close>,
    \<^verbatim>\<open>dependencies.py\<close>, \<^verbatim>\<open>security.py\<close>, \<^verbatim>\<open>modules/auth/router.py\<close> and \<^verbatim>\<open>service.py\<close> over one
    database record. \<open>session_step\<close> is the passing of time with any sequence of requests.

  \<^item> \<^verbatim>\<open>User_Admin\<close>: \<^verbatim>\<open>modules/users/service.py\<close> and \<^verbatim>\<open>models/user_permission.py\<close> on the same
    database record; every check of an update in the order the code makes them.

  \<^item> \<^verbatim>\<open>Cve_Versions\<close>: \<^verbatim>\<open>modules/cve/versions.py\<close>. \<^verbatim>\<open>Advisory_Match\<close>:
    \<^verbatim>\<open>modules/advisories/match.py\<close> and \<^verbatim>\<open>releases.py\<close>; locale \<open>version_order\<close> is what matching
    relies on of a version order, interpreted on both of them. \<open>cache_step\<close> interleaves
    the calls of the threads of a worker on the cache of evaluations with the loading of new
    advisory data.

  \<^item> \<^verbatim>\<open>Scheduling\<close>: \<^verbatim>\<open>modules/scheduling/recurrence.py\<close> and \<^verbatim>\<open>service.py\<close>; \<open>sched_step\<close> is the
    editing of jobs and the sweeps of several workers on one table, with the claim as the
    conditional update it is.

  \<^item> \<^verbatim>\<open>Remediation\<close>: \<^verbatim>\<open>modules/remediation/service.py\<close>; items, events and risk acceptances as
    one record, \<open>rem_step\<close> every request and every sync on it. What the scanners report is an
    argument of the sync.

  \<^item> \<^verbatim>\<open>Device_Trust\<close>: \<^verbatim>\<open>core/ssh_host_keys.py\<close>, \<^verbatim>\<open>tls_pins.py\<close>, \<^verbatim>\<open>ssh_exceptions.py\<close> and
    \<^verbatim>\<open>modules/device_keys.py\<close>; locale \<open>pin_store\<close> is the contract of a store of pins, which both
    the file of host keys and the file of certificate pins keep.

  \<^item> \<^verbatim>\<open>Ldap_Groups\<close>, \<^verbatim>\<open>Directory\<close>: \<^verbatim>\<open>modules/directory/ldap.py\<close> and \<^verbatim>\<open>service.py\<close> on the database record
    of \<^verbatim>\<open>Sign_In\<close>; the search through nested groups against the relation it computes.

  \<^item> \<^verbatim>\<open>Alert_Policy\<close>, \<^verbatim>\<open>Alerts\<close>: \<^verbatim>\<open>modules/alerts/policy.py\<close> and \<^verbatim>\<open>engine.py\<close>; rules, alerts and
    deliveries as one record, \<open>alert_step\<close> the stages of a cycle, the actions of people and the
    changes of the other tables in any order.

  \<^bold>\<open>What is shown.\<close> Licensing (C1, C2, C21 to C24): nothing is served without a signed answer
  in force, an answer is bound to request, license and machine, the offline windows end,
  clocks set back and refusals hold. Sign-in and users (C3, C5 to C8, C27, C28, C35, C37):
  who is served, that nobody gives away rights they lack, that an administrator remains, that
  ended sessions and used codes stay so, how much guessing is possible, which keys are
  accepted. The directory (C13, C14, C33): who gets in, what is taken away again, which groups
  count. Command safety (C4, C25, C26): values keep their place in a command, a fix that
  succeeded ran and was verified. Devices (C9, C40): a pinned key holds until it is forgotten.
  Jobs (C10, C29, C30): an occurrence is claimed by one worker, every due job is started, the
  next run is the first one. Remediation (C11, C17, C39): acceptance needs two people, items
  follow the reports, their life cycle is well formed. Alerts (C15, C16, C31, C32, C34): one
  open alert per problem, announced once, closed with the problem; messages are settled,
  limited, and quiet when they should be. Advisories and versions (C12, C18 to C20, C38): the
  cache answers as an evaluation would, the advised fix suffices, the orders are orders.
  Assets (C36). Theorems beside these show where a promise fails: values that leave their
  quotes (\<^verbatim>\<open>Device_Templates\<close>), pins lost between workers (\<^verbatim>\<open>Device_Trust\<close>), an interrupted check
  (\<^verbatim>\<open>Directory\<close>).

  \<^bold>\<open>Bounds.\<close> All functions are total; the only bound on a search is the code's own depth of nested
  groups. Strings are over the code points below
  256. Python's limit of 4300 digits in \<^verbatim>\<open>int()\<close> is part of the model, hence the length
  bounds of the version theorems. Counters of one-time passwords are the 64-bit integers
  \<^verbatim>\<open>struct.pack\<close> accepts.

  \<^bold>\<open>Parameters.\<close> Ed25519, PyJWT, bcrypt, SHA-256, HMAC, PBKDF2, Fernet, \<^verbatim>\<open>ipaddress\<close>, regular
  expressions of parameter metadata, the HTTP exchange with the license server, the answers
  of LDAP, paramiko's table of host keys, the evaluators of alerts and the outcome of sending,
  the time zone, the devices, the registry of technologies, the validation of scan requests and the reports of
  the scanning modules are arguments; what is assumed of them stands as a hypothesis of the theorem that
  uses it.

  \<^bold>\<open>Not modelled.\<close> Collectors and connections (I/O), the tables of benchmark rules and command
  templates (data, arguments of the model), reports, backups, migrations, HTTP schemas, the
  front end and the appliance. Concurrency is modelled between worker processes; inside one
  process an operation is one step, as its lock makes it. Planned next, in this order: the
  election of the worker that runs the background loops, the retention of backups, CPE
  matching, risk scores, the archive of the audit trail.
\<close>

end
